(* ===== verification/Prelude.thy ===== *)
theory Prelude
  imports Main "HOL-Library.Word"
begin

text \<open>
  Shared vocabulary of the development: names for the machine integers of the C sources (an LP64
  little-endian target: \<^verbatim>\<open>int\<close> has 32 bits, \<^verbatim>\<open>long\<close> and pointers 64), the layout of
  integers in memory, in-place writes to a byte buffer, and generic list facts that several
  components use.  The collections \<open>bytes_simps\<close> and \<open>cstr_simps\<close> gather the rewrite rules
  of the byte layer and of the C-string layer.
\<close>

unbundle bit_operations_syntax

named_theorems bytes_simps \<open>rewrite rules about integers laid out as bytes\<close>
named_theorems cstr_simps \<open>rewrite rules about NUL-terminated strings\<close>

section \<open>Machine integers\<close>

type_synonym byte = "8 word"
type_synonym u16 = "16 word"
type_synonym u32 = "32 word"
type_synonym u64 = "64 word"

abbreviation UINT_MAX :: u32 where
  "UINT_MAX \<equiv> - 1"

lemma unat_UINT_MAX [simp]: "unat UINT_MAX = 2 ^ 32 - 1"
  by (simp add: unsigned_minus_1_eq_mask mask_eq_exp_minus_1)

text \<open>Widening and then truncating is one cast.\<close>

lemma ucast_scast [bytes_simps]:
  fixes v :: "'a::len word"
  assumes "LENGTH('c::len) \<le> LENGTH('b::len)"
  shows "(ucast (scast v :: 'b word) :: 'c word) = scast v"
  using assms by (intro bit_word_eqI) (auto simp: bit_simps)

lemma ucast_ucast [bytes_simps]:
  fixes v :: "'a::len word"
  assumes "LENGTH('c::len) \<le> LENGTH('b::len) \<or> LENGTH('a) \<le> LENGTH('b)"
  shows "(ucast (ucast v :: 'b word) :: 'c word) = ucast v"
  using assms by (intro bit_word_eqI) (auto simp: bit_simps dest: bit_imp_le_length)

lemma scast_same [bytes_simps]: "(scast (v :: 'a::len word) :: 'a word) = v"
  by (intro bit_word_eqI) (auto simp: bit_simps min_def not_le)

section \<open>Integers in memory\<close>

text \<open>
  \<open>le32\<close> is how the target stores a 32-bit integer, \<open>of_le32\<close> how it loads one;
  \<open>htonl\<close> and \<open>ntohl\<close> are the byte swap that both amount to on a little-endian machine.
\<close>

definition le32 :: "u32 \<Rightarrow> byte list" where
  "le32 w = [ucast w, ucast (drop_bit 8 w), ucast (drop_bit 16 w), ucast (drop_bit 24 w)]"

definition of_le32 :: "byte list \<Rightarrow> u32" where
  "of_le32 bs = (case bs of
       [a, b, c, d] \<Rightarrow> ucast a OR push_bit 8 (ucast b) OR push_bit 16 (ucast c) OR push_bit 24 (ucast d)
     | _ \<Rightarrow> 0)"

definition bswap32 :: "u32 \<Rightarrow> u32" where
  "bswap32 w = push_bit 24 (w AND 0xFF) OR push_bit 8 (w AND 0xFF00)
     OR (drop_bit 8 w AND 0xFF00) OR (drop_bit 24 w AND 0xFF)"

abbreviation htonl :: "u32 \<Rightarrow> u32" where
  "htonl \<equiv> bswap32"

abbreviation ntohl :: "u32 \<Rightarrow> u32" where
  "ntohl \<equiv> bswap32"

text \<open>Network order: the specification the stored bytes are compared with.\<close>

definition be32 :: "u32 \<Rightarrow> byte list" where
  "be32 w = rev (le32 w)"

definition of_be32 :: "byte list \<Rightarrow> u32" where
  "of_be32 bs = of_le32 (rev bs)"

lemma length_4_conv: "length bs = 4 \<longleftrightarrow> (\<exists>a b c d. bs = [a, b, c, d])"
  by (auto simp: numeral_eq_Suc length_Suc_conv)

lemma length_le32 [simp, bytes_simps]: "length (le32 w) = 4"
  by (simp add: le32_def)

lemma length_be32 [simp, bytes_simps]: "length (be32 w) = 4"
  by (simp add: be32_def)

lemma of_le32_le32 [simp, bytes_simps]: "of_le32 (le32 w) = w"
proof (rule bit_word_eqI)
  fix n
  assume "n < LENGTH(32)"
  then show "bit (of_le32 (le32 w)) n \<longleftrightarrow> bit w n"
    by (cases "n < 8"; cases "n < 16"; cases "n < 24") (auto simp: of_le32_def le32_def bit_simps)
qed

lemma not_bit_byte: "8 \<le> n \<Longrightarrow> \<not> bit (b :: byte) n"
  by (simp add: bit_word.rep_eq)

lemma byte_masks: "(0xFF :: u32) = mask 8" "(0xFF00 :: u32) = push_bit 8 (mask 8)"
  by (simp_all add: mask_eq_exp_minus_1 push_bit_eq_mult)

lemma le32_of_le32 [bytes_simps]:
  assumes "length bs = 4"
  shows "le32 (of_le32 bs) = bs"
proof -
  obtain a b c d where "bs = [a, b, c, d]"
    using assms by (auto simp: length_4_conv)
  then show ?thesis
    by (auto simp: of_le32_def le32_def bit_simps not_bit_byte intro!: bit_word_eqI)
qed

lemma le32_bswap32 [bytes_simps]: "le32 (bswap32 w) = be32 w"
  by (auto simp: be32_def le32_def bswap32_def byte_masks bit_simps intro!: bit_word_eqI)

lemma ntohl_of_le32 [bytes_simps]:
  assumes "length bs = 4"
  shows "ntohl (of_le32 bs) = of_be32 bs"
proof -
  have "le32 (ntohl (of_le32 bs)) = le32 (of_le32 (rev bs))"
    using assms by (simp add: le32_bswap32 be32_def le32_of_le32)
  then show ?thesis
    by (metis of_be32_def of_le32_le32)
qed

lemma of_be32_be32 [simp, bytes_simps]: "of_be32 (be32 w) = w"
  by (simp add: of_be32_def be32_def)

section \<open>Buffers\<close>

text \<open>
  \<open>write_at mem i bs\<close> is the buffer \<open>mem\<close> after \<open>bs\<close> is stored from offset \<open>i\<close>
  on; \<open>read_at mem i n\<close> are the \<open>n\<close> bytes from offset \<open>i\<close>.
\<close>

definition write_at :: "'a list \<Rightarrow> nat \<Rightarrow> 'a list \<Rightarrow> 'a list" where
  "write_at mem i bs = take i mem @ bs @ drop (i + length bs) mem"

definition read_at :: "'a list \<Rightarrow> nat \<Rightarrow> nat \<Rightarrow> 'a list" where
  "read_at mem i n = take n (drop i mem)"

lemma length_write_at [simp]:
  "i + length bs \<le> length mem \<Longrightarrow> length (write_at mem i bs) = length mem"
  by (simp add: write_at_def)

lemma length_read_at [simp]: "i + n \<le> length mem \<Longrightarrow> length (read_at mem i n) = n"
  by (simp add: read_at_def)

lemma take_write_at [simp]: "i \<le> length mem \<Longrightarrow> take i (write_at mem i bs) = take i mem"
  by (simp add: write_at_def)

lemma take_write_at_end [simp]:
  "i \<le> length mem \<Longrightarrow> take (i + length bs) (write_at mem i bs) = take i mem @ bs"
  by (simp add: write_at_def)

lemma drop_write_at [simp]:
  "i + length bs \<le> length mem \<Longrightarrow> i + length bs \<le> k \<Longrightarrow> drop k (write_at mem i bs) = drop k mem"
  by (simp add: write_at_def)

lemma nth_write_at_outside:
  "i + length bs \<le> length mem \<Longrightarrow> k < i \<or> i + length bs \<le> k \<Longrightarrow> write_at mem i bs ! k = mem ! k"
  by (auto simp: write_at_def nth_append)

section \<open>Failure\<close>

text \<open>Assertions, panics and undefined behaviour: go on only when the condition holds.\<close>

definition require :: "bool \<Rightarrow> 'a option \<Rightarrow> 'a option" where
  "require c x = (if c then x else None)"

lemma require_simps [simp]: "require True x = x" "require False x = None"
  by (simp_all add: require_def)

lemma require_eq_Some: "require c x = Some y \<longleftrightarrow> c \<and> x = Some y"
  by (simp add: require_def)

section \<open>Buffers\<close>

text \<open>Access to a buffer through a pointer into it; an access outside is undefined.\<close>

definition buf_get :: "byte list \<Rightarrow> nat \<Rightarrow> byte option" where
  "buf_get b i = require (i < length b) (Some (b ! i))"

definition buf_put :: "byte list \<Rightarrow> nat \<Rightarrow> byte \<Rightarrow> byte list option" where
  "buf_put b i v = require (i < length b) (Some (b[i := v]))"

lemma buf_simps [simp]: "i < length b \<Longrightarrow> buf_get b i = Some (b ! i)" "i < length b \<Longrightarrow> buf_put b i v = Some (b[i := v])"
  by (simp_all add: buf_get_def buf_put_def)

lemma take_Suc_put: "i < length b \<Longrightarrow> take (Suc i) (b[i := v]) = take i b @ [v]"
  by (simp add: take_Suc_conv_app_nth)

end
