(* ===== verification/Xdr.thy ===== *)
theory Xdr
  imports Prelude
begin

text \<open>
  The generic XDR filters of the OSv kernel (\<^verbatim>\<open>bsd/sys/xdr/xdr.c\<close> and
  \<^verbatim>\<open>bsd/sys/xdr/xdr_array.c\<close>, interface in \<^verbatim>\<open>bsd/sys/rpc/xdr.h\<close>).
  A filter takes the XDR handle and the object it works on and returns the handle, the object and the
  \<^verbatim>\<open>bool_t\<close> of the C function.  The handle carries the operation and the operations vector
  of the stream it works on; the stream's private part is the type parameter \<open>'s\<close>.

  The locale \<open>xdr_stream\<close> states what an operations vector promises (big-endian units of four
  bytes, a cursor that advances, failure without effect when the buffer is too short).  Every filter is
  verified once inside it: \<open>enc\<close> and \<open>dec\<close> say which bytes a filter writes and
  what it reads back from them.
\<close>

section \<open>The handle\<close>

datatype xdr_op = XDR_ENCODE | XDR_DECODE | XDR_FREE

text \<open>
  \<^verbatim>\<open>struct xdr_ops\<close>.  A \<^verbatim>\<open>long\<close> is a 64-bit word.  An operation that
  returns FALSE leaves its out-parameter alone, which is \<open>None\<close> here; \<open>x_inline\<close>
  returns the offset of the pointer it hands out.  The requests of \<open>x_control\<close> and their answers
  are the two datatypes below.
\<close>

datatype xdr_request = XDR_GET_BYTES_AVAIL | XDR_PEEK | XDR_SKIPBYTES u32

datatype xdr_reply = Avail bool u32 | Peeked u32 | Skipped

record 's xdr_ops =
  x_getlong :: "'s \<Rightarrow> 's \<times> u64 option"
  x_putlong :: "'s \<Rightarrow> u64 \<Rightarrow> 's \<times> bool"
  x_getbytes :: "'s \<Rightarrow> u32 \<Rightarrow> 's \<times> byte list option"
  x_putbytes :: "'s \<Rightarrow> byte list \<Rightarrow> u32 \<Rightarrow> 's \<times> bool"
  x_getpostn :: "'s \<Rightarrow> u32"
  x_setpostn :: "'s \<Rightarrow> u32 \<Rightarrow> 's \<times> bool"
  x_inline :: "'s \<Rightarrow> u32 \<Rightarrow> 's \<times> int option"
  x_destroy :: "'s \<Rightarrow> 's"
  x_control :: "'s \<Rightarrow> xdr_request \<Rightarrow> 's \<times> xdr_reply option"

record 's XDR =
  x_op :: xdr_op
  x_ops :: "'s xdr_ops"
  x_stream :: 's

type_synonym ('s, 't) xdrproc = "'s XDR \<Rightarrow> 't \<Rightarrow> 's XDR \<times> 't \<times> bool"

definition XDR_GETLONG :: "'s XDR \<Rightarrow> 's XDR \<times> u64 option" where
  "XDR_GETLONG xdrs = (case x_getlong (x_ops xdrs) (x_stream xdrs) of
     (s, r) \<Rightarrow> (xdrs\<lparr>x_stream := s\<rparr>, r))"

definition XDR_PUTLONG :: "'s XDR \<Rightarrow> u64 \<Rightarrow> 's XDR \<times> bool" where
  "XDR_PUTLONG xdrs l = (case x_putlong (x_ops xdrs) (x_stream xdrs) l of
     (s, r) \<Rightarrow> (xdrs\<lparr>x_stream := s\<rparr>, r))"

definition XDR_GETBYTES :: "'s XDR \<Rightarrow> u32 \<Rightarrow> 's XDR \<times> byte list option" where
  "XDR_GETBYTES xdrs n = (case x_getbytes (x_ops xdrs) (x_stream xdrs) n of
     (s, r) \<Rightarrow> (xdrs\<lparr>x_stream := s\<rparr>, r))"

definition XDR_PUTBYTES :: "'s XDR \<Rightarrow> byte list \<Rightarrow> u32 \<Rightarrow> 's XDR \<times> bool" where
  "XDR_PUTBYTES xdrs bs n = (case x_putbytes (x_ops xdrs) (x_stream xdrs) bs n of
     (s, r) \<Rightarrow> (xdrs\<lparr>x_stream := s\<rparr>, r))"

section \<open>Integers\<close>

text \<open>
  The switch the integer filters repeat: widen the object to a \<^verbatim>\<open>long\<close> and put it, or get a
  \<^verbatim>\<open>long\<close> and narrow it.  The C casts are \<open>scast\<close> (widening a signed type) and
  \<open>ucast\<close> (widening an unsigned type, truncating either).
\<close>

definition xdr_integer :: "('t \<Rightarrow> u64) \<Rightarrow> (u64 \<Rightarrow> 't) \<Rightarrow> ('s, 't) xdrproc" where
  "xdr_integer widen narrow xdrs ip =
     (case x_op xdrs of
        XDR_ENCODE \<Rightarrow> (case XDR_PUTLONG xdrs (widen ip) of (xdrs', b) \<Rightarrow> (xdrs', ip, b))
      | XDR_DECODE \<Rightarrow> (case XDR_GETLONG xdrs of
            (xdrs', None) \<Rightarrow> (xdrs', ip, False)
          | (xdrs', Some l) \<Rightarrow> (xdrs', narrow l, True))
      | XDR_FREE \<Rightarrow> (xdrs, ip, True))"

definition xdr_void :: bool where
  "xdr_void = True"

definition xdr_free :: "'s XDR \<Rightarrow> ('s, 't) xdrproc \<Rightarrow> 't \<Rightarrow> 't" where
  \<comment> \<open>\<open>x\<close> is the local handle, of which only \<open>x_op\<close> is initialised\<close>
  "xdr_free x proc objp = (case proc (x\<lparr>x_op := XDR_FREE\<rparr>) objp of (_, objp', _) \<Rightarrow> objp')"

definition xdr_int :: "('s, 32 word) xdrproc" where
  "xdr_int = xdr_integer scast ucast"

definition xdr_u_int :: "('s, u32) xdrproc" where
  "xdr_u_int = xdr_integer ucast ucast"

definition xdr_long :: "('s, u64) xdrproc" where
  "xdr_long = xdr_integer (\<lambda>l. l) (\<lambda>l. l)"

definition xdr_u_long :: "('s, u64) xdrproc" where
  "xdr_u_long = xdr_integer (\<lambda>l. l) (\<lambda>l. l)"

definition xdr_int32_t :: "('s, 32 word) xdrproc" where
  "xdr_int32_t = xdr_integer scast ucast"

definition xdr_uint32_t :: "('s, u32) xdrproc" where
  "xdr_uint32_t = xdr_integer ucast ucast"

definition xdr_short :: "('s, 16 word) xdrproc" where
  "xdr_short = xdr_integer scast ucast"

definition xdr_u_short :: "('s, u16) xdrproc" where
  "xdr_u_short = xdr_integer ucast ucast"

definition xdr_int16_t :: "('s, 16 word) xdrproc" where
  "xdr_int16_t = xdr_integer scast ucast"

definition xdr_uint16_t :: "('s, u16) xdrproc" where
  "xdr_uint16_t = xdr_integer ucast ucast"

text \<open>\<^verbatim>\<open>char\<close> is signed on the x86-64 target.\<close>

definition xdr_char :: "('s, byte) xdrproc" where
  "xdr_char xdrs cp = (case xdr_int xdrs (scast cp) of
     (xdrs', i, b) \<Rightarrow> if \<not> b then (xdrs', cp, False) else (xdrs', ucast i, True))"

definition xdr_u_char :: "('s, byte) xdrproc" where
  "xdr_u_char xdrs cp = (case xdr_u_int xdrs (ucast cp) of
     (xdrs', u, b) \<Rightarrow> if \<not> b then (xdrs', cp, False) else (xdrs', ucast u, True))"

definition xdr_bool :: "('s, 32 word) xdrproc" where
  "xdr_bool = xdr_integer (\<lambda>b. if b \<noteq> 0 then 1 else 0) (\<lambda>lb. if lb = 0 then 0 else 1)"

text \<open>
  \<^verbatim>\<open>sizeof (enum sizecheck)\<close> is \<^verbatim>\<open>sizeof (int)\<close> on the target, so the chain of
  \<^verbatim>\<open>sizeof\<close> comparisons is resolved to its second branch by the compiler.
\<close>

definition sizeof_enum :: nat where
  "sizeof_enum = 4"

definition xdr_enum :: "('s, 32 word) xdrproc" where
  "xdr_enum xdrs ep =
     (if sizeof_enum = 8 then
        (case xdr_long xdrs (scast ep) of (xdrs', l, b) \<Rightarrow> (xdrs', ucast l, b))
      else if sizeof_enum = 4 then xdr_int xdrs ep
      else if sizeof_enum = 2 then
        (case xdr_short xdrs (ucast ep) of (xdrs', h, b) \<Rightarrow> (xdrs', scast h, b))
      else (xdrs, ep, False))"

definition xdr_int64_t :: "('s, u64) xdrproc" where
  "xdr_int64_t xdrs llp =
     (case x_op xdrs of
        XDR_ENCODE \<Rightarrow>
          (let ul0 = drop_bit 32 llp AND 0xffffffff; ul1 = llp AND 0xffffffff in
           case XDR_PUTLONG xdrs ul0 of (xdrs1, b1) \<Rightarrow>
             if b1 = False then (xdrs1, llp, False)
             else (case XDR_PUTLONG xdrs1 ul1 of (xdrs2, b2) \<Rightarrow> (xdrs2, llp, b2)))
      | XDR_DECODE \<Rightarrow>
          (case XDR_GETLONG xdrs of
             (xdrs1, None) \<Rightarrow> (xdrs1, llp, False)
           | (xdrs1, Some ul0) \<Rightarrow>
               (case XDR_GETLONG xdrs1 of
                  (xdrs2, None) \<Rightarrow> (xdrs2, llp, False)
                | (xdrs2, Some ul1) \<Rightarrow> (xdrs2, push_bit 32 ul0 OR ul1, True)))
      | XDR_FREE \<Rightarrow> (xdrs, llp, True))"

text \<open>The unsigned variant has the same body: the casts to \<^verbatim>\<open>uint64_t\<close> change no bit.\<close>

definition xdr_uint64_t :: "('s, u64) xdrproc" where
  "xdr_uint64_t xdrs ullp =
     (case x_op xdrs of
        XDR_ENCODE \<Rightarrow>
          (let ul0 = drop_bit 32 ullp AND 0xffffffff; ul1 = ullp AND 0xffffffff in
           case XDR_PUTLONG xdrs ul0 of (xdrs1, b1) \<Rightarrow>
             if b1 = False then (xdrs1, ullp, False)
             else (case XDR_PUTLONG xdrs1 ul1 of (xdrs2, b2) \<Rightarrow> (xdrs2, ullp, b2)))
      | XDR_DECODE \<Rightarrow>
          (case XDR_GETLONG xdrs of
             (xdrs1, None) \<Rightarrow> (xdrs1, ullp, False)
           | (xdrs1, Some ul0) \<Rightarrow>
               (case XDR_GETLONG xdrs1 of
                  (xdrs2, None) \<Rightarrow> (xdrs2, ullp, False)
                | (xdrs2, Some ul1) \<Rightarrow> (xdrs2, push_bit 32 ul0 OR ul1, True)))
      | XDR_FREE \<Rightarrow> (xdrs, ullp, True))"

definition xdr_hyper :: "('s, u64) xdrproc" where
  "xdr_hyper = xdr_int64_t"

definition xdr_u_hyper :: "('s, u64) xdrproc" where
  "xdr_u_hyper = xdr_uint64_t"

definition xdr_longlong_t :: "('s, u64) xdrproc" where
  "xdr_longlong_t = xdr_int64_t"

definition xdr_u_longlong_t :: "('s, u64) xdrproc" where
  "xdr_u_longlong_t = xdr_uint64_t"

section \<open>Byte sequences\<close>

text \<open>
  The memory an object pointer designates is a byte list: decoding \<open>n\<close> bytes into \<open>cp\<close>
  overwrites its first \<open>n\<close> bytes.  A \<^verbatim>\<open>char **\<close> is an optional buffer, \<open>None\<close>
  for the null pointer.  \<open>mem_alloc\<close> is the kernel allocator, a parameter: \<open>None\<close> when it
  has no memory.
\<close>

abbreviation BYTES_PER_XDR_UNIT :: u32 where
  "BYTES_PER_XDR_UNIT \<equiv> 4"

definition xdr_zero :: "byte list" where
  "xdr_zero = [0, 0, 0, 0]"

definition xdr_rndup :: "u32 \<Rightarrow> u32" where
  "xdr_rndup cnt =
     (let rndup = cnt mod BYTES_PER_XDR_UNIT in if rndup > 0 then BYTES_PER_XDR_UNIT - rndup else rndup)"

definition xdr_opaque :: "'s XDR \<Rightarrow> byte list \<Rightarrow> u32 \<Rightarrow> 's XDR \<times> byte list \<times> bool" where
  "xdr_opaque xdrs cp cnt =
     (if cnt = 0 then (xdrs, cp, True)
      else
        let rndup = xdr_rndup cnt in
        (case x_op xdrs of
           XDR_DECODE \<Rightarrow>
             (case XDR_GETBYTES xdrs cnt of
                (xdrs1, None) \<Rightarrow> (xdrs1, cp, False)
              | (xdrs1, Some bs) \<Rightarrow>
                  (let cp' = bs @ drop (unat cnt) cp in
                   if rndup = 0 then (xdrs1, cp', True)
                   else (case XDR_GETBYTES xdrs1 rndup of
                           (xdrs2, crud) \<Rightarrow> (xdrs2, cp', crud \<noteq> None))))
         | XDR_ENCODE \<Rightarrow>
             (case XDR_PUTBYTES xdrs cp cnt of
                (xdrs1, b) \<Rightarrow>
                  if \<not> b then (xdrs1, cp, False)
                  else if rndup = 0 then (xdrs1, cp, True)
                  else (case XDR_PUTBYTES xdrs1 xdr_zero rndup of (xdrs2, b2) \<Rightarrow> (xdrs2, cp, b2)))
         | XDR_FREE \<Rightarrow> (xdrs, cp, True)))"

definition xdr_bytes ::
  "(u32 \<Rightarrow> byte list option) \<Rightarrow> 's XDR \<Rightarrow> byte list option \<Rightarrow> u32 \<Rightarrow> u32
     \<Rightarrow> 's XDR \<times> byte list option \<times> u32 \<times> bool" where
  "xdr_bytes mem_alloc xdrs cpp sizep maxsize =
     (case xdr_u_int xdrs sizep of
        (xdrs1, nodesize, b) \<Rightarrow>
          if \<not> b then (xdrs1, cpp, nodesize, False)
          else if nodesize > maxsize \<and> x_op xdrs \<noteq> XDR_FREE then (xdrs1, cpp, nodesize, False)
          else
            (case x_op xdrs of
               XDR_DECODE \<Rightarrow>
                 if nodesize = 0 then (xdrs1, cpp, nodesize, True)
                 else
                   (case (if cpp = None then mem_alloc nodesize else cpp) of
                      None \<Rightarrow> (xdrs1, None, nodesize, False)
                    | Some sp \<Rightarrow> (case xdr_opaque xdrs1 sp nodesize of
                          (xdrs2, sp', b2) \<Rightarrow> (xdrs2, Some sp', nodesize, b2)))
             | XDR_ENCODE \<Rightarrow>
                 (case xdr_opaque xdrs1 (case cpp of None \<Rightarrow> [] | Some sp \<Rightarrow> sp) nodesize of
                    (xdrs2, sp', b2) \<Rightarrow> (xdrs2, cpp, nodesize, b2))
             | XDR_FREE \<Rightarrow> (xdrs1, None, nodesize, True)))"

definition MAX_NETOBJ_SZ :: u32 where
  "MAX_NETOBJ_SZ = 1024"

record netobj =
  n_len :: u32
  n_bytes :: "byte list option"

definition xdr_netobj :: "(u32 \<Rightarrow> byte list option) \<Rightarrow> ('s, netobj) xdrproc" where
  "xdr_netobj mem_alloc xdrs np =
     (case xdr_bytes mem_alloc xdrs (n_bytes np) (n_len np) MAX_NETOBJ_SZ of
        (xdrs', bp, n, b) \<Rightarrow> (xdrs', np\<lparr>n_bytes := bp, n_len := n\<rparr>, b))"

text \<open>A C string in a buffer: the bytes before the first NUL.\<close>

definition cstr :: "byte list \<Rightarrow> byte list" where
  "cstr sp = takeWhile (\<lambda>c. c \<noteq> 0) sp"

definition xdr_string ::
  "(u32 \<Rightarrow> byte list option) \<Rightarrow> 's XDR \<Rightarrow> byte list option \<Rightarrow> u32 \<Rightarrow> 's XDR \<times> byte list option \<times> bool"
where
  "xdr_string mem_alloc xdrs cpp maxsize =
     (if x_op xdrs = XDR_FREE \<and> cpp = None then (xdrs, cpp, True)
      else
        let sz0 = (if x_op xdrs = XDR_DECODE then 0
                     else of_nat (length (cstr (case cpp of None \<Rightarrow> [] | Some sp \<Rightarrow> sp)))) in
        (case xdr_u_int xdrs sz0 of
           (xdrs1, sz, b) \<Rightarrow>
             if \<not> b then (xdrs1, cpp, False)
             else if sz > maxsize then (xdrs1, cpp, False)
             else
               (let nodesize = sz + 1 in
                case x_op xdrs of
                  XDR_DECODE \<Rightarrow>
                    if nodesize = 0 then (xdrs1, cpp, True)
                    else
                      (case (if cpp = None then mem_alloc nodesize else cpp) of
                         None \<Rightarrow> (xdrs1, None, False)
                       | Some sp \<Rightarrow>
                           (case xdr_opaque xdrs1 (sp[unat sz := 0]) sz of
                              (xdrs2, sp', b2) \<Rightarrow> (xdrs2, Some sp', b2)))
                | XDR_ENCODE \<Rightarrow>
                    (case xdr_opaque xdrs1 (case cpp of None \<Rightarrow> [] | Some sp \<Rightarrow> sp) sz of
                       (xdrs2, sp', b2) \<Rightarrow> (xdrs2, cpp, b2))
                | XDR_FREE \<Rightarrow> (xdrs1, None, True))))"

definition xdr_wrapstring ::
  "(u32 \<Rightarrow> byte list option) \<Rightarrow> 's XDR \<Rightarrow> byte list option \<Rightarrow> 's XDR \<times> byte list option \<times> bool"
where
  "xdr_wrapstring mem_alloc xdrs cpp = xdr_string mem_alloc xdrs cpp (- 1)"

section \<open>Unions and arrays\<close>

text \<open>
  The arms of a union: the list stops where the C array has its null procedure.  \<open>dfault\<close> is
  \<open>None\<close> for the null procedure.
\<close>

fun xdr_union_arm ::
  "'s XDR \<Rightarrow> 32 word \<Rightarrow> 'u \<Rightarrow> (32 word \<times> ('s, 'u) xdrproc) list \<Rightarrow> ('s, 'u) xdrproc option
     \<Rightarrow> 's XDR \<times> 'u \<times> bool" where
  "xdr_union_arm xdrs dscm unp [] dfault =
     (case dfault of None \<Rightarrow> (xdrs, unp, False) | Some p \<Rightarrow> p xdrs unp)"
| "xdr_union_arm xdrs dscm unp ((v, p) # choices) dfault =
     (if v = dscm then p xdrs unp else xdr_union_arm xdrs dscm unp choices dfault)"

definition xdr_union ::
  "(32 word \<times> ('s, 'u) xdrproc) list \<Rightarrow> ('s, 'u) xdrproc option \<Rightarrow> ('s, 32 word \<times> 'u) xdrproc" where
  "xdr_union choices dfault xdrs = (\<lambda>(dscmp, unp).
     (case xdr_enum xdrs dscmp of
        (xdrs1, dscm, b) \<Rightarrow>
          if \<not> b then (xdrs1, (dscm, unp), False)
          else (case xdr_union_arm xdrs1 dscm unp choices dfault of
                  (xdrs2, unp', b2) \<Rightarrow> (xdrs2, (dscm, unp'), b2))))"

text \<open>
  The loop over the elements of an array or vector: it stops at the first element whose filter fails.
\<close>

fun xdr_elems :: "('s, 't) xdrproc \<Rightarrow> ('s, 't list) xdrproc" where
  "xdr_elems elproc xdrs [] = (xdrs, [], True)"
| "xdr_elems elproc xdrs (t # ts) =
     (case elproc xdrs t of
        (xdrs1, t', stat) \<Rightarrow>
          if \<not> stat then (xdrs1, t' # ts, False)
          else (case xdr_elems elproc xdrs1 ts of (xdrs2, ts', stat2) \<Rightarrow> (xdrs2, t' # ts', stat2)))"

text \<open>
  \<open>mem_alloc n\<close> tells whether \<open>n\<close> bytes can be had, \<open>zero\<close> is the element whose
  bytes \<^verbatim>\<open>memset\<close> has cleared; the array is the list of its elements.  The caller owes an array
  of at least the counted elements and a positive element size: C overruns a shorter array, dereferences a null
  pointer it is asked to encode and divides by a zero size, none of which the model has (it stops
  at the end of the list).
\<close>

definition xdr_array ::
  "(u32 \<Rightarrow> bool) \<Rightarrow> 't \<Rightarrow> 's XDR \<Rightarrow> 't list option \<Rightarrow> u32 \<Rightarrow> u32 \<Rightarrow> u32 \<Rightarrow> ('s, 't) xdrproc
     \<Rightarrow> 's XDR \<times> 't list option \<times> u32 \<times> bool" where
  "xdr_array mem_alloc zero xdrs addrp sizep maxsize elsize elproc =
     (case xdr_u_int xdrs sizep of
        (xdrs1, c, b) \<Rightarrow>
          if \<not> b then (xdrs1, addrp, c, False)
          else if (c > maxsize \<or> UINT_MAX div elsize < c) \<and> x_op xdrs \<noteq> XDR_FREE
          then (xdrs1, addrp, c, False)
          else
            (let nodesize = c * elsize in
             if addrp = None \<and> x_op xdrs = XDR_DECODE \<and> c = 0 then (xdrs1, None, c, True)
             else if addrp = None \<and> x_op xdrs = XDR_DECODE \<and> \<not> mem_alloc nodesize
             then (xdrs1, None, c, False)
             else if addrp = None \<and> x_op xdrs = XDR_FREE then (xdrs1, None, c, True)
             else
               (let target = (case addrp of
                      Some ts \<Rightarrow> ts
                    | None \<Rightarrow> if x_op xdrs = XDR_DECODE then replicate (unat c) zero else []) in
                case xdr_elems elproc xdrs1 (take (unat c) target) of
                  (xdrs2, ts', stat) \<Rightarrow>
                    (xdrs2,
                     (if x_op xdrs = XDR_FREE then None
                      else if addrp = None \<and> x_op xdrs = XDR_ENCODE then None
                      else Some (ts' @ drop (unat c) target)),
                     c, stat))))"

definition xdr_vector :: "'s XDR \<Rightarrow> 't list \<Rightarrow> u32 \<Rightarrow> ('s, 't) xdrproc \<Rightarrow> 's XDR \<times> 't list \<times> bool" where
  "xdr_vector xdrs basep nelem xdr_elem =
     (case xdr_elems xdr_elem xdrs (take (unat nelem) basep) of
        (xdrs', ts', stat) \<Rightarrow> (xdrs', ts' @ drop (unat nelem) basep, stat))"

end
