(* ===== verification/XdrCodec.thy ===== *)
theory XdrCodec
  imports Xdr
begin

text \<open>
  What the XDR filters do to a stream, proved once for every operations vector that keeps the contract
  \<open>xdr_stream\<close>.  \<open>written s\<close> are the bytes before the cursor of a stream,
  \<open>ahead s\<close> the bytes it may still fill or read and \<open>rest s\<close> what no operation may
  change.  \<open>enc p v bs\<close> says that filter
  \<open>p\<close> encodes \<open>v\<close> as exactly \<open>bs\<close>, advancing the cursor, and returns FALSE when they do
  not fit; \<open>dec p v0 bs v\<close> says that it decodes \<open>bs\<close> into \<open>v\<close> whatever the
  object \<open>v0\<close> held before.
\<close>

lemma low_half: "(ucast (w AND 0xffffffff :: u64) :: u32) = ucast w"
proof -
  have "w AND 0xffffffff = take_bit 32 w"
    by (simp add: take_bit_eq_mask mask_eq_exp_minus_1)
  then show ?thesis
    by (auto simp: bit_simps intro!: bit_word_eqI)
qed

lemma join_halves:
  "push_bit 32 (ucast (ucast (drop_bit 32 v) :: u32)) OR (ucast (ucast v :: u32)) = (v :: u64)"
  by (rule bit_word_eqI) (auto simp: bit_simps)

lemma take_split_appendD:
  assumes "take (length (xs @ ys)) zs = xs @ ys"
  shows "take (length xs) zs = xs" "take (length ys) (drop (length xs) zs) = ys"
proof -
  have "take (length xs) zs = take (length xs) (take (length (xs @ ys)) zs)"
    by (simp add: min_def)
  then show "take (length xs) zs = xs"
    by (simp only: assms) simp
  have "take (length ys) (drop (length xs) zs) = drop (length xs) (take (length (xs @ ys)) zs)"
    by (simp add: drop_take)
  then show "take (length ys) (drop (length xs) zs) = ys"
    by (simp only: assms) simp
qed

text \<open>The padding of \<open>n\<close> bytes to full units, and counted bytes padded with zeros.\<close>

definition xdr_pad :: "nat \<Rightarrow> nat" where
  "xdr_pad n = (4 - n mod 4) mod 4"

definition opaque_bytes :: "byte list \<Rightarrow> byte list" where
  "opaque_bytes bs = bs @ replicate (xdr_pad (length bs)) 0"

lemma xdr_pad_less: "xdr_pad n < 4"
  by (simp add: xdr_pad_def)

lemma opaque_bytes_units: "length (opaque_bytes bs) mod 4 = 0"
proof -
  let ?m = "length bs mod 4"
  have "?m = 0 \<or> ?m = 1 \<or> ?m = 2 \<or> ?m = 3"
    by linarith
  then show ?thesis
    by (auto simp: opaque_bytes_def xdr_pad_def mod_add_eq [symmetric, of "length bs"])
qed

lemma unat_xdr_rndup: "unat (xdr_rndup cnt) = xdr_pad (unat cnt)"
proof -
  have r: "unat (cnt mod 4) = unat cnt mod 4"
    by (simp add: unat_mod)
  show ?thesis
  proof (cases "cnt mod 4 = 0")
    case True
    then have "unat cnt mod 4 = 0"
      by (metis r unat_0)
    with True show ?thesis
      by (simp add: xdr_rndup_def xdr_pad_def)
  next
    case False
    then have "0 < cnt mod 4" "0 < unat cnt mod 4"
      by (simp_all add: word_gt_0 flip: r unat_gt_0)
    moreover have "cnt mod 4 \<le> 4"
      by (simp add: word_le_nat_alt r)
    ultimately show ?thesis
      by (simp add: xdr_rndup_def unat_sub r xdr_pad_def)
  qed
qed

lemma take_xdr_zero: "k \<le> 4 \<Longrightarrow> take k xdr_zero = replicate k 0"
proof -
  assume k: "k \<le> 4"
  have z: "xdr_zero = replicate 4 0"
    by (simp add: xdr_zero_def numeral_eq_Suc)
  show "take k xdr_zero = replicate k 0"
    unfolding z take_replicate using k by (simp only: min.absorb1)
qed

text \<open>The counted filters as filters of one object.\<close>

definition bytes_obj :: "(u32 \<Rightarrow> byte list option) \<Rightarrow> u32 \<Rightarrow> ('s, byte list option \<times> u32) xdrproc" where
  "bytes_obj mem_alloc maxsize xdrs = (\<lambda>(cpp, sizep).
     case xdr_bytes mem_alloc xdrs cpp sizep maxsize of (xdrs', cpp', sizep', b) \<Rightarrow> (xdrs', (cpp', sizep'), b))"

definition array_obj :: "(u32 \<Rightarrow> bool) \<Rightarrow> 't \<Rightarrow> u32 \<Rightarrow> u32 \<Rightarrow> ('s, 't) xdrproc
    \<Rightarrow> ('s, 't list option \<times> u32) xdrproc" where
  "array_obj mem_alloc zero maxsize elsize elproc xdrs = (\<lambda>(addrp, sizep).
     case xdr_array mem_alloc zero xdrs addrp sizep maxsize elsize elproc of
       (xdrs', addrp', sizep', b) \<Rightarrow> (xdrs', (addrp', sizep'), b))"

lemma take_cstr: "take (length (cstr sp)) sp = cstr sp"
  by (metis cstr_def takeWhile_eq_take)

lemma length_cstr_le: "length (cstr sp) \<le> length sp"
  by (simp add: cstr_def length_takeWhile_le)

lemma cstr_terminated [cstr_simps]: "0 \<notin> set bs \<Longrightarrow> cstr (bs @ 0 # rest) = bs"
  by (simp add: cstr_def) (metis (mono_tags, lifting) append.right_neutral takeWhile_append2 takeWhile.simps)

definition be64 :: "u64 \<Rightarrow> byte list" where
  "be64 v = be32 (ucast (drop_bit 32 v)) @ be32 (ucast v)"

lemma length_be64 [simp]: "length (be64 v) = 8"
  by (simp add: be64_def)

text \<open>The arm of a union is the first choice with the discriminant's value, else the default.\<close>

definition arm_of :: "(32 word \<times> 'p) list \<Rightarrow> 'p option \<Rightarrow> 32 word \<Rightarrow> 'p option" where
  "arm_of choices dfault d = (case map_of choices d of Some p \<Rightarrow> Some p | None \<Rightarrow> dfault)"

lemma union_arm_eq:
  "xdr_union_arm xdrs d u choices dfault =
     (case arm_of choices dfault d of None \<Rightarrow> (xdrs, u, False) | Some p \<Rightarrow> p xdrs u)"
  by (induction choices) (auto simp: arm_of_def split: option.splits)

locale xdr_stream =
  fixes ops :: "'s xdr_ops"
    and inv :: "'s \<Rightarrow> bool"
    and written :: "'s \<Rightarrow> byte list"
    and ahead :: "'s \<Rightarrow> byte list"
    and rest :: "'s \<Rightarrow> 'r"
  assumes putlong_ok: "inv s \<Longrightarrow> 4 \<le> length (ahead s) \<Longrightarrow>
      \<exists>s'. x_putlong ops s l = (s', True) \<and> inv s'
         \<and> written s' = written s @ be32 (ucast l) \<and> ahead s' = drop 4 (ahead s) \<and> rest s' = rest s"
    and putlong_fail: "inv s \<Longrightarrow> length (ahead s) < 4 \<Longrightarrow> x_putlong ops s l = (s, False)"
    and getlong_ok: "inv s \<Longrightarrow> 4 \<le> length (ahead s) \<Longrightarrow>
      \<exists>s'. x_getlong ops s = (s', Some (ucast (of_be32 (take 4 (ahead s))))) \<and> inv s'
         \<and> written s' = written s @ take 4 (ahead s) \<and> ahead s' = drop 4 (ahead s) \<and> rest s' = rest s"
    and getlong_fail: "inv s \<Longrightarrow> length (ahead s) < 4 \<Longrightarrow> x_getlong ops s = (s, None)"
    and putbytes_ok: "inv s \<Longrightarrow> unat n \<le> length (ahead s) \<Longrightarrow> unat n \<le> length bs \<Longrightarrow>
      \<exists>s'. x_putbytes ops s bs n = (s', True) \<and> inv s'
         \<and> written s' = written s @ take (unat n) bs \<and> ahead s' = drop (unat n) (ahead s)
         \<and> rest s' = rest s"
    and putbytes_fail: "inv s \<Longrightarrow> length (ahead s) < unat n \<Longrightarrow> x_putbytes ops s bs n = (s, False)"
    and getbytes_ok: "inv s \<Longrightarrow> unat n \<le> length (ahead s) \<Longrightarrow>
      \<exists>s'. x_getbytes ops s n = (s', Some (take (unat n) (ahead s))) \<and> inv s'
         \<and> written s' = written s @ take (unat n) (ahead s) \<and> ahead s' = drop (unat n) (ahead s)
         \<and> rest s' = rest s"
    and getbytes_fail: "inv s \<Longrightarrow> length (ahead s) < unat n \<Longrightarrow> x_getbytes ops s n = (s, None)"
begin

definition handle :: "xdr_op \<Rightarrow> 's \<Rightarrow> 's XDR" where
  "handle opn s = \<lparr>x_op = opn, x_ops = ops, x_stream = s\<rparr>"

definition moved :: "'s \<Rightarrow> byte list \<Rightarrow> 's \<Rightarrow> bool" where
  "moved s bs s' \<longleftrightarrow> inv s' \<and> written s' = written s @ bs \<and> ahead s' = drop (length bs) (ahead s)
     \<and> rest s' = rest s"

definition enc :: "('s, 't) xdrproc \<Rightarrow> 't \<Rightarrow> byte list \<Rightarrow> bool" where
  "enc p v bs \<longleftrightarrow> (\<forall>s. inv s \<longrightarrow>
     (length bs \<le> length (ahead s) \<longrightarrow>
        (\<exists>s'. p (handle XDR_ENCODE s) v = (handle XDR_ENCODE s', v, True) \<and> moved s bs s'))
     \<and> (length (ahead s) < length bs \<longrightarrow>
        (\<exists>s'. p (handle XDR_ENCODE s) v = (handle XDR_ENCODE s', v, False))))"

definition dec :: "('s, 't) xdrproc \<Rightarrow> 't \<Rightarrow> byte list \<Rightarrow> 't \<Rightarrow> bool" where
  "dec p v0 bs v \<longleftrightarrow> (\<forall>s. inv s \<longrightarrow> take (length bs) (ahead s) = bs \<longrightarrow>
     (\<exists>s'. p (handle XDR_DECODE s) v0 = (handle XDR_DECODE s', v, True) \<and> moved s bs s'))"

lemma handle_simps [simp]:
  "x_op (handle opn s) = opn" "x_ops (handle opn s) = ops" "x_stream (handle opn s) = s"
  "(handle opn s)\<lparr>x_stream := s'\<rparr> = handle opn s'"
  "handle opn s = handle opn' s' \<longleftrightarrow> opn = opn' \<and> s = s'"
  by (simp_all add: handle_def)

lemma moved_trans: "moved s bs s1 \<Longrightarrow> moved s1 cs s2 \<Longrightarrow> moved s (bs @ cs) s2"
  by (simp add: moved_def add.commute)

lemma moved_Nil: "inv s \<Longrightarrow> moved s [] s"
  by (simp add: moved_def)

lemma encI:
  assumes "\<And>s. inv s \<Longrightarrow> length bs \<le> length (ahead s) \<Longrightarrow>
      \<exists>s'. p (handle XDR_ENCODE s) v = (handle XDR_ENCODE s', v, True) \<and> moved s bs s'"
    and "\<And>s. inv s \<Longrightarrow> length (ahead s) < length bs \<Longrightarrow>
      \<exists>s'. p (handle XDR_ENCODE s) v = (handle XDR_ENCODE s', v, False)"
  shows "enc p v bs"
  using assms by (auto simp: enc_def)

lemma enc_fits:
  assumes "enc p v bs" "inv s" "length bs \<le> length (ahead s)"
  obtains s' where "p (handle XDR_ENCODE s) v = (handle XDR_ENCODE s', v, True)" "moved s bs s'"
  using assms by (auto simp: enc_def)

lemma enc_short:
  assumes "enc p v bs" "inv s" "length (ahead s) < length bs"
  obtains s' where "p (handle XDR_ENCODE s) v = (handle XDR_ENCODE s', v, False)"
  using assms by (auto simp: enc_def)

lemma decI:
  assumes "\<And>s. inv s \<Longrightarrow> take (length bs) (ahead s) = bs \<Longrightarrow>
      \<exists>s'. p (handle XDR_DECODE s) v0 = (handle XDR_DECODE s', v, True) \<and> moved s bs s'"
  shows "dec p v0 bs v"
  using assms by (auto simp: dec_def)

lemma decE:
  assumes "dec p v0 bs v" "inv s" "take (length bs) (ahead s) = bs"
  obtains s' where "p (handle XDR_DECODE s) v0 = (handle XDR_DECODE s', v, True)" "moved s bs s'"
  using assms by (auto simp: dec_def)

subsection \<open>The four stream operations\<close>

lemma PUTLONG_fits:
  assumes "inv s" "4 \<le> length (ahead s)"
  obtains s' where "XDR_PUTLONG (handle opn s) l = (handle opn s', True)" "moved s (be32 (ucast l)) s'"
  using putlong_ok [OF assms, of l] by (auto simp: XDR_PUTLONG_def moved_def)

lemma PUTLONG_short:
  "inv s \<Longrightarrow> length (ahead s) < 4 \<Longrightarrow> XDR_PUTLONG (handle opn s) l = (handle opn s, False)"
  using putlong_fail by (simp add: XDR_PUTLONG_def)

lemma GETLONG_fits:
  assumes "inv s" "take 4 (ahead s) = be32 w"
  obtains s' where "XDR_GETLONG (handle opn s) = (handle opn s', Some (ucast w))" "moved s (be32 w) s'"
proof -
  from assms(2) have "4 \<le> length (ahead s)"
    by (metis length_be32 length_take min.cobounded1)
  from getlong_ok [OF assms(1) this] assms(2) that show thesis
    by (auto simp: XDR_GETLONG_def moved_def)
qed

lemma PUTBYTES_fits:
  assumes "inv s" "unat n \<le> length (ahead s)" "unat n \<le> length bs"
  obtains s' where "XDR_PUTBYTES (handle opn s) bs n = (handle opn s', True)" "moved s (take (unat n) bs) s'"
  using putbytes_ok [OF assms] assms(3) by (auto simp: XDR_PUTBYTES_def moved_def min_def)

lemma PUTBYTES_short:
  "inv s \<Longrightarrow> length (ahead s) < unat n \<Longrightarrow> XDR_PUTBYTES (handle opn s) bs n = (handle opn s, False)"
  using putbytes_fail by (simp add: XDR_PUTBYTES_def)

lemma GETBYTES_fits:
  assumes "inv s" "take (unat n) (ahead s) = bs" "length bs = unat n"
  obtains s' where "XDR_GETBYTES (handle opn s) n = (handle opn s', Some bs)" "moved s bs s'"
proof -
  from assms(2,3) have "unat n \<le> length (ahead s)"
    by (metis length_take min.cobounded1)
  from getbytes_ok [OF assms(1) this] assms that show thesis
    by (auto simp: XDR_GETBYTES_def moved_def)
qed

subsection \<open>Integers\<close>

lemma enc_integer: "enc (xdr_integer widen narrow) v (be32 (ucast (widen v)))"
proof (rule encI)
  fix s
  assume "inv s" "length (be32 (ucast (widen v))) \<le> length (ahead s)"
  then obtain s' where "XDR_PUTLONG (handle XDR_ENCODE s) (widen v) = (handle XDR_ENCODE s', True)"
    "moved s (be32 (ucast (widen v))) s'"
    by (auto intro: PUTLONG_fits)
  then show "\<exists>s'. xdr_integer widen narrow (handle XDR_ENCODE s) v = (handle XDR_ENCODE s', v, True)
      \<and> moved s (be32 (ucast (widen v))) s'"
    by (auto simp: xdr_integer_def)
next
  fix s
  assume "inv s" "length (ahead s) < length (be32 (ucast (widen v)))"
  then show "\<exists>s'. xdr_integer widen narrow (handle XDR_ENCODE s) v = (handle XDR_ENCODE s', v, False)"
    by (auto simp: xdr_integer_def PUTLONG_short)
qed

lemma dec_integer: "dec (xdr_integer widen narrow) v0 (be32 w) (narrow (ucast w))"
proof (rule decI)
  fix s
  assume "inv s" "take (length (be32 w)) (ahead s) = be32 w"
  then obtain s' where "XDR_GETLONG (handle XDR_DECODE s) = (handle XDR_DECODE s', Some (ucast w))"
    "moved s (be32 w) s'"
    by (auto intro: GETLONG_fits)
  then show "\<exists>s'. xdr_integer widen narrow (handle XDR_DECODE s) v0
        = (handle XDR_DECODE s', narrow (ucast w), True) \<and> moved s (be32 w) s'"
    by (auto simp: xdr_integer_def)
qed

text \<open>
  A value \<open>v\<close> with image \<open>f v\<close> survives the wire: it is written as \<open>f v\<close>, and
  \<open>f v\<close> is read back as \<open>v\<close> over any old contents.
\<close>

definition codec :: "('s, 't) xdrproc \<Rightarrow> ('t \<Rightarrow> byte list) \<Rightarrow> ('t \<Rightarrow> bool) \<Rightarrow> bool" where
  "codec p f P \<longleftrightarrow> (\<forall>v. P v \<longrightarrow> enc p v (f v) \<and> (\<forall>v0. dec p v0 (f v) v))"

lemma codec_integer:
  assumes "\<And>v. P v \<Longrightarrow> narrow (ucast (ucast (widen v) :: u32)) = v"
  shows "codec (xdr_integer widen narrow) (\<lambda>v. be32 (ucast (widen v))) P"
  unfolding codec_def
proof (intro allI impI conjI)
  fix v v0
  assume "P v"
  show "enc (xdr_integer widen narrow) v (be32 (ucast (widen v)))"
    by (rule enc_integer)
  show "dec (xdr_integer widen narrow) v0 (be32 (ucast (widen v))) v"
    using dec_integer [of widen narrow v0 "ucast (widen v)"] assms [OF \<open>P v\<close>] by simp
qed

lemma codec_char_like:
  assumes base: "codec p f (\<lambda>_. True)"
    and nw: "\<And>c. narrow (widen c) = c"
  shows "codec (\<lambda>xdrs c. case p xdrs (widen c) of
           (xdrs', i, b) \<Rightarrow> if \<not> b then (xdrs', c, False) else (xdrs', narrow i, True))
         (\<lambda>c. f (widen c)) (\<lambda>_. True)"
    (is "codec ?q _ _")
  unfolding codec_def
proof (intro allI impI conjI)
  fix c c0
  have p: "enc p (widen c) (f (widen c))" "dec p (widen c0) (f (widen c)) (widen c)"
    using base by (auto simp: codec_def)
  show "enc ?q c (f (widen c))"
  proof (rule encI)
    fix s
    assume "inv s" "length (f (widen c)) \<le> length (ahead s)"
    with p(1) show "\<exists>s'. ?q (handle XDR_ENCODE s) c = (handle XDR_ENCODE s', c, True) \<and> moved s (f (widen c)) s'"
      by (elim enc_fits) (auto simp: nw)
  next
    fix s
    assume "inv s" "length (ahead s) < length (f (widen c))"
    with p(1) show "\<exists>s'. ?q (handle XDR_ENCODE s) c = (handle XDR_ENCODE s', c, False)"
      by (elim enc_short) auto
  qed
  show "dec ?q c0 (f (widen c)) c"
  proof (rule decI)
    fix s
    assume "inv s" "take (length (f (widen c))) (ahead s) = f (widen c)"
    with p(2) show "\<exists>s'. ?q (handle XDR_DECODE s) c0 = (handle XDR_DECODE s', c, True) \<and> moved s (f (widen c)) s'"
      by (elim decE) (auto simp: nw)
  qed
qed

lemma codec_int: "codec xdr_int be32 (\<lambda>_. True)"
  using codec_integer [of "\<lambda>_. True" ucast "scast :: u32 \<Rightarrow> u64"] by (simp add: xdr_int_def bytes_simps)

lemma codec_u_int: "codec xdr_u_int be32 (\<lambda>_. True)"
  using codec_integer [of "\<lambda>_. True" ucast "ucast :: u32 \<Rightarrow> u64"] by (simp add: xdr_u_int_def bytes_simps)

lemma codec_short: "codec xdr_short (\<lambda>v. be32 (scast v)) (\<lambda>_. True)"
  using codec_integer [of "\<lambda>_. True" ucast "scast :: 16 word \<Rightarrow> u64"]
  by (simp add: xdr_short_def bytes_simps)

lemma codec_u_short: "codec xdr_u_short (\<lambda>v. be32 (ucast v)) (\<lambda>_. True)"
  using codec_integer [of "\<lambda>_. True" ucast "ucast :: u16 \<Rightarrow> u64"]
  by (simp add: xdr_u_short_def bytes_simps)

text \<open>The sized variants are the same functions.\<close>

lemma codec_sized:
  "codec xdr_int32_t be32 (\<lambda>_. True)"
  "codec xdr_uint32_t be32 (\<lambda>_. True)"
  "codec xdr_int16_t (\<lambda>v. be32 (scast v)) (\<lambda>_. True)"
  "codec xdr_uint16_t (\<lambda>v. be32 (ucast v)) (\<lambda>_. True)"
  using codec_int codec_u_int codec_short codec_u_short
  by (simp_all add: xdr_int_def xdr_u_int_def xdr_short_def xdr_u_short_def xdr_int32_t_def
      xdr_uint32_t_def xdr_int16_t_def xdr_uint16_t_def)

lemma codec_char: "codec xdr_char (\<lambda>c. be32 (scast c)) (\<lambda>_. True)"
  using codec_char_like [OF codec_int, of ucast "scast :: byte \<Rightarrow> u32"]
  by (simp add: xdr_char_def [abs_def] bytes_simps)

lemma codec_u_char: "codec xdr_u_char (\<lambda>c. be32 (ucast c)) (\<lambda>_. True)"
  using codec_char_like [OF codec_u_int, of ucast "ucast :: byte \<Rightarrow> u32"]
  by (simp add: xdr_u_char_def [abs_def] bytes_simps)

lemma codec_bool: "codec xdr_bool be32 (\<lambda>b. b = 0 \<or> b = 1)"
proof -
  have "codec xdr_bool (\<lambda>v. be32 (ucast (if v \<noteq> 0 then 1 else 0 :: u64))) (\<lambda>b. b = 0 \<or> b = 1)"
    unfolding xdr_bool_def by (rule codec_integer) auto
  then show ?thesis
    by (auto simp: codec_def)
qed

lemma codec_enum: "codec xdr_enum be32 (\<lambda>_. True)"
  using codec_int by (simp add: xdr_enum_def [abs_def] sizeof_enum_def)

text \<open>
  A \<^verbatim>\<open>long\<close> has 64 bits but the stream carries 32: only values below \<open>2 ^ 32\<close> survive.
\<close>

lemma codec_long:
  "codec xdr_long (\<lambda>v. be32 (ucast v)) (\<lambda>v. unat v < 2 ^ 32)"
  "codec xdr_u_long (\<lambda>v. be32 (ucast v)) (\<lambda>v. unat v < 2 ^ 32)"
proof -
  have "(ucast (ucast v :: u32) :: u64) = v" if "unat v < 2 ^ 32" for v :: u64
    using that take_bit_nat_eq_self [of "unat v" 32]
    by (intro word_unat_eq_iff [THEN iffD2]) (simp add: unsigned_ucast_eq unsigned_take_bit_eq)
  then show "codec xdr_long (\<lambda>v. be32 (ucast v)) (\<lambda>v. unat v < 2 ^ 32)"
    "codec xdr_u_long (\<lambda>v. be32 (ucast v)) (\<lambda>v. unat v < 2 ^ 32)"
    unfolding xdr_long_def xdr_u_long_def by (auto intro!: codec_integer)
qed

subsection \<open>64-bit integers\<close>

lemma enc_int64_t: "enc xdr_int64_t v (be64 v)"
proof (rule encI)
  let ?hi = "drop_bit 32 v AND 0xffffffff" and ?lo = "v AND 0xffffffff"
  fix s
  assume s: "inv s" "length (be64 v) \<le> length (ahead s)"
  then obtain s1 where s1: "XDR_PUTLONG (handle XDR_ENCODE s) ?hi = (handle XDR_ENCODE s1, True)"
    "moved s (be32 (ucast ?hi)) s1"
    using PUTLONG_fits [of s XDR_ENCODE ?hi] by auto
  from s1(2) s have "inv s1" "4 \<le> length (ahead s1)"
    by (auto simp: moved_def)
  then obtain s2 where s2: "XDR_PUTLONG (handle XDR_ENCODE s1) ?lo = (handle XDR_ENCODE s2, True)"
    "moved s1 (be32 (ucast ?lo)) s2"
    using PUTLONG_fits [of s1 XDR_ENCODE ?lo] by auto
  have "moved s (be64 v) s2"
    using moved_trans [OF s1(2) s2(2)] by (simp add: be64_def low_half)
  with s1(1) s2(1) show "\<exists>s'. xdr_int64_t (handle XDR_ENCODE s) v = (handle XDR_ENCODE s', v, True)
      \<and> moved s (be64 v) s'"
    by (auto simp: xdr_int64_t_def)
next
  let ?hi = "drop_bit 32 v AND 0xffffffff"
  fix s
  assume s: "inv s" "length (ahead s) < length (be64 v)"
  show "\<exists>s'. xdr_int64_t (handle XDR_ENCODE s) v = (handle XDR_ENCODE s', v, False)"
  proof (cases "4 \<le> length (ahead s)")
    case True
    with s(1) obtain s1 where s1: "XDR_PUTLONG (handle XDR_ENCODE s) ?hi = (handle XDR_ENCODE s1, True)"
      "moved s (be32 (ucast ?hi)) s1"
      using PUTLONG_fits [of s XDR_ENCODE ?hi] by auto
    from s1(2) s have "inv s1" "length (ahead s1) < 4"
      by (auto simp: moved_def)
    with s1(1) show ?thesis
      by (auto simp: xdr_int64_t_def PUTLONG_short)
  qed (use s in \<open>auto simp: xdr_int64_t_def PUTLONG_short\<close>)
qed

lemma dec_int64_t: "dec xdr_int64_t v0 (be64 v) v"
proof (rule decI)
  let ?hi = "be32 (ucast (drop_bit 32 v))" and ?lo = "be32 (ucast v)"
  fix s
  assume s: "inv s" "take (length (be64 v)) (ahead s) = be64 v"
  then have hi: "take 4 (ahead s) = ?hi" and lo: "take 4 (drop 4 (ahead s)) = ?lo"
    using take_split_appendD [of ?hi ?lo "ahead s"] by (simp_all add: be64_def)
  obtain s1 where s1: "XDR_GETLONG (handle XDR_DECODE s)
      = (handle XDR_DECODE s1, Some (ucast (ucast (drop_bit 32 v) :: u32)))" "moved s ?hi s1"
    using GETLONG_fits [OF s(1) hi] by metis
  then have "inv s1" "take 4 (ahead s1) = ?lo"
    using lo by (auto simp: moved_def)
  then obtain s2 where s2: "XDR_GETLONG (handle XDR_DECODE s1)
      = (handle XDR_DECODE s2, Some (ucast (ucast v :: u32)))" "moved s1 ?lo s2"
    using GETLONG_fits by metis
  have "moved s (be64 v) s2"
    unfolding be64_def using s1(2) s2(2) by (rule moved_trans)
  with s1(1) s2(1) show "\<exists>s'. xdr_int64_t (handle XDR_DECODE s) v0 = (handle XDR_DECODE s', v, True)
      \<and> moved s (be64 v) s'"
    by (auto simp: xdr_int64_t_def join_halves)
qed

lemma codec_int64_t: "codec xdr_int64_t be64 (\<lambda>_. True)"
  by (simp add: codec_def enc_int64_t dec_int64_t)

lemma codec_int64s:
  "codec xdr_uint64_t be64 (\<lambda>_. True)" "codec xdr_hyper be64 (\<lambda>_. True)"
  "codec xdr_u_hyper be64 (\<lambda>_. True)" "codec xdr_longlong_t be64 (\<lambda>_. True)"
  "codec xdr_u_longlong_t be64 (\<lambda>_. True)"
proof -
  have "xdr_uint64_t = (xdr_int64_t :: ('s, u64) xdrproc)"
    by (rule ext)+ (simp add: xdr_uint64_t_def xdr_int64_t_def)
  with codec_int64_t show "codec xdr_uint64_t be64 (\<lambda>_. True)" "codec xdr_hyper be64 (\<lambda>_. True)"
    "codec xdr_u_hyper be64 (\<lambda>_. True)" "codec xdr_longlong_t be64 (\<lambda>_. True)"
    "codec xdr_u_longlong_t be64 (\<lambda>_. True)"
    by (simp_all add: xdr_hyper_def xdr_u_hyper_def xdr_longlong_t_def xdr_u_longlong_t_def)
qed

subsection \<open>Byte sequences\<close>

lemma PUTBYTES_pair_fits:
  assumes "inv s" "unat n + unat r \<le> length (ahead s)" "unat n \<le> length cp" "unat r \<le> length zs"
  obtains s1 s2 where "XDR_PUTBYTES (handle opn s) cp n = (handle opn s1, True)"
    "XDR_PUTBYTES (handle opn s1) zs r = (handle opn s2, True)"
    "moved s (take (unat n) cp) s1" "moved s (take (unat n) cp @ take (unat r) zs) s2"
proof -
  obtain s1 where s1: "XDR_PUTBYTES (handle opn s) cp n = (handle opn s1, True)"
    "moved s (take (unat n) cp) s1"
    using PUTBYTES_fits [of s n cp opn] assms by auto
  then have "inv s1" "unat r \<le> length (ahead s1)"
    using assms by (auto simp: moved_def min_def)
  then obtain s2 where s2: "XDR_PUTBYTES (handle opn s1) zs r = (handle opn s2, True)"
    "moved s1 (take (unat r) zs) s2"
    using PUTBYTES_fits [of s1 r zs opn] assms by auto
  show thesis
    using that [OF s1(1) s2(1) s1(2)] moved_trans [OF s1(2) s2(2)] by simp
qed

lemma PUTBYTES_second_short:
  assumes "inv s" "unat n \<le> length (ahead s)" "length (ahead s) < unat n + unat r" "unat n \<le> length cp"
  obtains s1 where "XDR_PUTBYTES (handle opn s) cp n = (handle opn s1, True)"
    "XDR_PUTBYTES (handle opn s1) zs r = (handle opn s1, False)"
proof -
  obtain s1 where s1: "XDR_PUTBYTES (handle opn s) cp n = (handle opn s1, True)"
    "moved s (take (unat n) cp) s1"
    using PUTBYTES_fits [of s n cp opn] assms by auto
  then have "inv s1" "length (ahead s1) < unat r"
    using assms by (auto simp: moved_def min_def)
  with s1(1) that show thesis
    by (simp add: PUTBYTES_short)
qed

lemma enc_opaque:
  assumes n: "unat n \<le> length cp"
  shows "enc (\<lambda>xdrs c. xdr_opaque xdrs c n) cp (opaque_bytes (take (unat n) cp))"
proof (cases "n = 0")
  case True
  then show ?thesis
    by (auto simp: enc_def xdr_opaque_def opaque_bytes_def xdr_pad_def moved_Nil)
next
  case False
  let ?r = "xdr_rndup n" and ?bs = "opaque_bytes (take (unat n) cp)"
  have r: "unat ?r = xdr_pad (unat n)" "unat ?r \<le> length xdr_zero"
    using xdr_pad_less [of "unat n"] by (simp_all add: unat_xdr_rndup xdr_zero_def)
  have bs: "?bs = take (unat n) cp @ take (unat ?r) xdr_zero" "length ?bs = unat n + unat ?r"
    using n xdr_pad_less [of "unat n"] by (simp_all add: opaque_bytes_def r(1) take_xdr_zero min_def)
  show ?thesis
  proof (rule encI)
    fix s
    assume s: "inv s" "length ?bs \<le> length (ahead s)"
    then obtain s1 s2 where "XDR_PUTBYTES (handle XDR_ENCODE s) cp n = (handle XDR_ENCODE s1, True)"
      "XDR_PUTBYTES (handle XDR_ENCODE s1) xdr_zero ?r = (handle XDR_ENCODE s2, True)"
      "moved s (take (unat n) cp) s1" "moved s ?bs s2"
      using PUTBYTES_pair_fits [of s n ?r cp xdr_zero XDR_ENCODE] n r(2) bs by auto
    with False show "\<exists>s'. xdr_opaque (handle XDR_ENCODE s) cp n = (handle XDR_ENCODE s', cp, True)
        \<and> moved s ?bs s'"
      by (cases "?r = 0") (auto simp: xdr_opaque_def bs(1))
  next
    fix s
    assume s: "inv s" "length (ahead s) < length ?bs"
    show "\<exists>s'. xdr_opaque (handle XDR_ENCODE s) cp n = (handle XDR_ENCODE s', cp, False)"
    proof (cases "unat n \<le> length (ahead s)")
      case True
      then have "?r \<noteq> 0"
        using s(2) bs(2) by auto
      moreover obtain s1 where "XDR_PUTBYTES (handle XDR_ENCODE s) cp n = (handle XDR_ENCODE s1, True)"
        "XDR_PUTBYTES (handle XDR_ENCODE s1) xdr_zero ?r = (handle XDR_ENCODE s1, False)"
        using PUTBYTES_second_short [of s n ?r cp XDR_ENCODE xdr_zero] s True n bs(2) by auto
      ultimately show ?thesis
        using False by (auto simp: xdr_opaque_def)
    qed (use s False in \<open>auto simp: xdr_opaque_def PUTBYTES_short\<close>)
  qed
qed

lemma dec_opaque:
  assumes "length bs = unat n" "length pad = xdr_pad (unat n)"
  shows "dec (\<lambda>xdrs c. xdr_opaque xdrs c n) cp (bs @ pad) (bs @ drop (unat n) cp)"
proof (cases "n = 0")
  case True
  then show ?thesis
    using assms by (auto simp: dec_def xdr_opaque_def xdr_pad_def moved_Nil)
next
  case False
  let ?r = "xdr_rndup n"
  have r: "unat ?r = length pad"
    using assms(2) by (simp add: unat_xdr_rndup)
  show ?thesis
  proof (rule decI)
    fix s
    assume s: "inv s" "take (length (bs @ pad)) (ahead s) = bs @ pad"
    note parts = take_split_appendD [OF s(2)]
    obtain s1 where s1: "XDR_GETBYTES (handle XDR_DECODE s) n = (handle XDR_DECODE s1, Some bs)" "moved s bs s1"
      using GETBYTES_fits [of s n bs XDR_DECODE] s(1) parts(1) assms(1) by auto
    then have "inv s1" "take (unat ?r) (ahead s1) = pad"
      using parts(2) by (auto simp: moved_def r)
    then obtain s2 where s2: "XDR_GETBYTES (handle XDR_DECODE s1) ?r = (handle XDR_DECODE s2, Some pad)"
      "moved s1 pad s2"
      using r [symmetric] by (rule GETBYTES_fits)
    have "moved s (bs @ pad) s2"
      using s1(2) s2(2) by (rule moved_trans)
    moreover have "?r = 0 \<Longrightarrow> pad = []"
      using r by simp
    ultimately show "\<exists>s'. xdr_opaque (handle XDR_DECODE s) cp n
        = (handle XDR_DECODE s', bs @ drop (unat n) cp, True) \<and> moved s (bs @ pad) s'"
      using False s1(2) by (cases "?r = 0") (auto simp: xdr_opaque_def s1(1) s2(1))
  qed
qed

text \<open>
  A filter that runs a first filter \<open>c\<close> (the count of a sequence, the discriminant of a union) and
  then a body \<open>q\<close> writes the bytes of both, and both have to fit.
\<close>

lemma enc_then:
  assumes head: "enc c n ns" and body: "enc q w cs"
    and full: "\<And>s s1 b s2. c (handle XDR_ENCODE s) n = (handle XDR_ENCODE s1, n, True) \<Longrightarrow>
        q (handle XDR_ENCODE s1) w = (handle XDR_ENCODE s2, w, b) \<Longrightarrow>
        p (handle XDR_ENCODE s) v = (handle XDR_ENCODE s2, v, b)"
    and none: "\<And>s s1. c (handle XDR_ENCODE s) n = (handle XDR_ENCODE s1, n, False) \<Longrightarrow>
        p (handle XDR_ENCODE s) v = (handle XDR_ENCODE s1, v, False)"
  shows "enc p v (ns @ cs)"
proof (rule encI)
  fix s
  assume s: "inv s" "length (ns @ cs) \<le> length (ahead s)"
  then obtain s1 where s1: "c (handle XDR_ENCODE s) n = (handle XDR_ENCODE s1, n, True)" "moved s ns s1"
    using enc_fits [OF head, of s] by auto
  then have "inv s1" "length cs \<le> length (ahead s1)"
    using s by (auto simp: moved_def)
  then obtain s2 where s2: "q (handle XDR_ENCODE s1) w = (handle XDR_ENCODE s2, w, True)" "moved s1 cs s2"
    using enc_fits [OF body] by metis
  from full [OF s1(1) s2(1)] moved_trans [OF s1(2) s2(2)]
  show "\<exists>s'. p (handle XDR_ENCODE s) v = (handle XDR_ENCODE s', v, True) \<and> moved s (ns @ cs) s'"
    by blast
next
  fix s
  assume s: "inv s" "length (ahead s) < length (ns @ cs)"
  show "\<exists>s'. p (handle XDR_ENCODE s) v = (handle XDR_ENCODE s', v, False)"
  proof (cases "length ns \<le> length (ahead s)")
    case True
    with s obtain s1 where s1: "c (handle XDR_ENCODE s) n = (handle XDR_ENCODE s1, n, True)" "moved s ns s1"
      using enc_fits [OF head, of s] by auto
    then have "inv s1" "length (ahead s1) < length cs"
      using s True by (auto simp: moved_def)
    then obtain s2 where "q (handle XDR_ENCODE s1) w = (handle XDR_ENCODE s2, w, False)"
      using enc_short [OF body] by metis
    from full [OF s1(1) this] show ?thesis
      by blast
  next
    case False
    with s(1) obtain s1 where "c (handle XDR_ENCODE s) n = (handle XDR_ENCODE s1, n, False)"
      using enc_short [OF head, of s] by auto
    from none [OF this] show ?thesis
      by blast
  qed
qed

lemma dec_then:
  assumes head: "dec c n0 ns n" and body: "dec q w0 cs w"
    and full: "\<And>s s1 s2. c (handle XDR_DECODE s) n0 = (handle XDR_DECODE s1, n, True) \<Longrightarrow>
        q (handle XDR_DECODE s1) w0 = (handle XDR_DECODE s2, w, True) \<Longrightarrow>
        p (handle XDR_DECODE s) v0 = (handle XDR_DECODE s2, v, True)"
  shows "dec p v0 (ns @ cs) v"
proof (rule decI)
  fix s
  assume s: "inv s" "take (length (ns @ cs)) (ahead s) = ns @ cs"
  note parts = take_split_appendD [OF s(2)]
  obtain s1 where s1: "c (handle XDR_DECODE s) n0 = (handle XDR_DECODE s1, n, True)" "moved s ns s1"
    using head s(1) parts(1) by (rule decE)
  then have "inv s1" "take (length cs) (ahead s1) = cs"
    using parts(2) by (auto simp: moved_def)
  with body obtain s2 where s2: "q (handle XDR_DECODE s1) w0 = (handle XDR_DECODE s2, w, True)" "moved s1 cs s2"
    by (rule decE)
  from full [OF s1(1) s2(1)] moved_trans [OF s1(2) s2(2)]
  show "\<exists>s'. p (handle XDR_DECODE s) v0 = (handle XDR_DECODE s', v, True) \<and> moved s (ns @ cs) s'"
    by blast
qed

lemma enc_u_int: "enc xdr_u_int n (be32 n)"
  using codec_u_int by (simp add: codec_def)

lemma dec_u_int: "dec xdr_u_int n0 (be32 n) n"
  using codec_u_int by (simp add: codec_def)

lemmas enc_counted = enc_then [OF enc_u_int]
lemmas dec_counted = dec_then [OF dec_u_int]

lemma enc_bytes:
  assumes "unat n \<le> length bs" "n \<le> maxsize"
  shows "enc (bytes_obj mem_alloc maxsize) (Some bs, n) (be32 n @ opaque_bytes (take (unat n) bs))"
  using enc_opaque [OF assms(1)]
  by (rule enc_counted) (use assms(2) in \<open>simp_all add: bytes_obj_def xdr_bytes_def not_less [symmetric]\<close>)

lemma dec_bytes:
  assumes "n \<noteq> 0" "n \<le> maxsize" "(if cpp = None then mem_alloc n else cpp) = Some sp"
    and "length bs = unat n" "length pad = xdr_pad (unat n)"
  shows "dec (bytes_obj mem_alloc maxsize) (cpp, n0) (be32 n @ bs @ pad) (Some (bs @ drop (unat n) sp), n)"
  using dec_opaque [OF assms(4,5), of sp]
  by (rule dec_counted [where ?n0.0 = n0]) (use assms(1-3) in \<open>simp_all add: bytes_obj_def xdr_bytes_def not_less [symmetric]\<close>)

lemma dec_bytes_empty: "dec (bytes_obj mem_alloc maxsize) (cpp, n0) (be32 0) (cpp, 0)"
proof -
  have "dec (\<lambda>xdrs u. (xdrs, u, True)) () [] ()"
    by (auto simp: dec_def moved_Nil)
  then have "dec (bytes_obj mem_alloc maxsize) (cpp, n0) (be32 0 @ []) (cpp, 0)"
    by (rule dec_counted [where ?n0.0 = n0]) (simp add: bytes_obj_def xdr_bytes_def)
  then show ?thesis
    by simp
qed

lemma enc_string:
  assumes len: "length (cstr sp) < 2 ^ 32" and max: "length (cstr sp) \<le> unat maxsize"
  shows "enc (\<lambda>xdrs cpp. xdr_string mem_alloc xdrs cpp maxsize) (Some sp)
           (be32 (of_nat (length (cstr sp))) @ opaque_bytes (cstr sp))"
proof -
  let ?n = "of_nat (length (cstr sp)) :: u32"
  have n: "unat ?n = length (cstr sp)"
    using len by (simp add: unat_of_nat)
  have small: "\<not> maxsize < ?n"
    using max by (simp add: word_less_nat_alt n)
  have "enc (\<lambda>xdrs c. xdr_opaque xdrs c ?n) sp (opaque_bytes (cstr sp))"
    using enc_opaque [of ?n sp] by (simp add: n length_cstr_le take_cstr)
  then show ?thesis
    by (rule enc_counted) (use small in \<open>auto simp: xdr_string_def\<close>)
qed

lemma dec_string:
  assumes n: "n \<noteq> UINT_MAX" "n \<le> maxsize" "(if cpp = None then mem_alloc (n + 1) else cpp) = Some sp"
    and "length bs = unat n" "length pad = xdr_pad (unat n)"
  shows "dec (\<lambda>xdrs cpp. xdr_string mem_alloc xdrs cpp maxsize) cpp (be32 n @ bs @ pad)
           (Some (bs @ drop (unat n) (sp[unat n := 0])))"
proof -
  have n1: "n + 1 \<noteq> 0"
    using n(1) by (metis add_eq_0_iff2)
  show ?thesis
    using dec_opaque [OF assms(4,5), of "sp[unat n := 0]"]
    by (rule dec_counted [where ?n0.0 = 0])
      (use n1 n(2,3) in \<open>auto simp: xdr_string_def not_less [symmetric] split: if_splits\<close>)
qed

subsection \<open>Arrays and unions\<close>

lemma enc_elems:
  assumes "codec p f P" "\<forall>v \<in> set vs. P v"
  shows "enc (xdr_elems p) vs (concat (map f vs))"
  using assms(2)
proof (induction vs)
  case Nil
  then show ?case
    by (auto simp: enc_def moved_Nil)
next
  case (Cons v vs)
  then have "enc p v (f v)" "enc (xdr_elems p) vs (concat (map f vs))"
    using assms(1) by (auto simp: codec_def)
  then have "enc (xdr_elems p) (v # vs) (f v @ concat (map f vs))"
    by (rule enc_then) auto
  then show ?case
    by simp
qed

lemma dec_elems:
  assumes "codec p f P" "\<forall>v \<in> set vs. P v" "length vs0 = length vs"
  shows "dec (xdr_elems p) vs0 (concat (map f vs)) vs"
  using assms(2,3)
proof (induction vs arbitrary: vs0)
  case Nil
  then show ?case
    by (auto simp: dec_def moved_Nil)
next
  case (Cons v vs)
  then obtain w ws where vs0: "vs0 = w # ws" "length ws = length vs"
    by (cases vs0) auto
  then have "dec p w (f v) v" "dec (xdr_elems p) ws (concat (map f vs)) vs"
    using Cons assms(1) by (auto simp: codec_def)
  then have "dec (xdr_elems p) (w # ws) (f v @ concat (map f vs)) (v # vs)"
    by (rule dec_then) auto
  then show ?case
    by (simp add: vs0)
qed

lemma enc_vector:
  assumes "codec p f P" "unat n \<le> length ts" "\<forall>v \<in> set (take (unat n) ts). P v"
  shows "enc (\<lambda>xdrs ts. xdr_vector xdrs ts n p) ts (concat (map f (take (unat n) ts)))"
  using enc_elems [OF assms(1,3)] by (fastforce simp: enc_def xdr_vector_def)

lemma dec_vector:
  assumes "codec p f P" "length vs = unat n" "\<forall>v \<in> set vs. P v" "unat n \<le> length ts0"
  shows "dec (\<lambda>xdrs ts. xdr_vector xdrs ts n p) ts0 (concat (map f vs)) (vs @ drop (unat n) ts0)"
proof -
  have "dec (xdr_elems p) (take (unat n) ts0) (concat (map f vs)) vs"
    using dec_elems [OF assms(1,3)] assms(2,4) by simp
  then show ?thesis
    by (fastforce simp: dec_def xdr_vector_def)
qed

lemma enc_array:
  assumes "codec p f P" "unat n \<le> length ts" "\<forall>v \<in> set (take (unat n) ts). P v"
    and "n \<le> maxsize" "n \<le> UINT_MAX div elsize"
  shows "enc (array_obj mem_alloc zero maxsize elsize p) (Some ts, n) (be32 n @ concat (map f (take (unat n) ts)))"
  using enc_elems [OF assms(1,3)]
  by (rule enc_counted) (use assms(4,5) in \<open>simp_all add: array_obj_def xdr_array_def not_less [symmetric]\<close>)

lemma dec_array:
  assumes "codec p f P" "length vs = unat n" "\<forall>v \<in> set vs. P v"
    and "n \<noteq> 0" "n \<le> maxsize" "n \<le> UINT_MAX div elsize" "mem_alloc (n * elsize)"
  shows "dec (array_obj mem_alloc zero maxsize elsize p) (None, n0) (be32 n @ concat (map f vs)) (Some vs, n)"
proof -
  have "dec (xdr_elems p) (replicate (unat n) zero) (concat (map f vs)) vs"
    using dec_elems [OF assms(1,3)] assms(2) by simp
  then show ?thesis
    by (rule dec_counted [where ?n0.0 = n0])
      (use assms(4-7) in \<open>simp_all add: array_obj_def xdr_array_def not_less [symmetric]\<close>)
qed

lemma enc_union:
  assumes "arm_of choices dfault d = Some p" "enc p u cs"
  shows "enc (xdr_union choices dfault) (d, u) (be32 d @ cs)"
proof -
  have "enc xdr_enum d (be32 d)"
    using codec_enum by (simp add: codec_def)
  then show ?thesis
    using assms(2) by (rule enc_then) (simp_all add: xdr_union_def union_arm_eq assms(1))
qed

lemma dec_union:
  assumes "arm_of choices dfault d = Some p" "dec p u0 cs u"
  shows "dec (xdr_union choices dfault) (d0, u0) (be32 d @ cs) (d, u)"
proof -
  have "dec xdr_enum d0 (be32 d) d"
    using codec_enum by (simp add: codec_def)
  then show ?thesis
    using assms(2) by (rule dec_then) (simp_all add: xdr_union_def union_arm_eq assms(1))
qed

end

end
