(* ===== verification/XdrMem.thy ===== *)
theory XdrMem
  imports XdrCodec "HOL-Library.Signed_Division"
begin

text \<open>
  The XDR stream over a memory buffer (\<^verbatim>\<open>bsd/sys/xdr/xdr_mem.c\<close>).  The buffer at
  \<open>x_base\<close> is the byte list \<open>x_mem\<close>; \<^verbatim>\<open>x_private\<close> is kept as its offset from
  \<open>x_base\<close>, an integer because a pointer may also be moved below the buffer.  The bytes below the
  buffer are not in the model: \<open>read_ptr\<close> finds none there and \<open>write_ptr\<close> stores none,
  and \<open>xdrmem_ok\<close>, which every operation is shown to keep, excludes such a pointer.  The two operations vectors keep the stream contract of \<open>xdr_stream\<close>, so the
  facts about the filters hold for memory streams at any alignment.  \<open>xdrmem_encode\<close> and
  \<open>xdrmem_decode\<close> are a whole session of a client: create the stream, run one filter.
\<close>

record xdrmem =
  x_base :: u64
  x_mem :: "byte list"
  x_private :: int
  x_handy :: u32

definition read_ptr :: "byte list \<Rightarrow> int \<Rightarrow> nat \<Rightarrow> byte list" where
  "read_ptr mem p n = (if p < 0 then [] else read_at mem (nat p) n)"

definition write_ptr :: "byte list \<Rightarrow> int \<Rightarrow> byte list \<Rightarrow> byte list" where
  "write_ptr mem p bs = (if p < 0 then mem else write_at mem (nat p) bs)"

definition xdrmem_destroy :: "xdrmem \<Rightarrow> xdrmem" where
  "xdrmem_destroy xdrs = xdrs"

definition xdrmem_getlong_aligned :: "xdrmem \<Rightarrow> xdrmem \<times> u64 option" where
  "xdrmem_getlong_aligned xdrs =
     (if x_handy xdrs < 4 then (xdrs, None)
      else (xdrs\<lparr>x_handy := x_handy xdrs - 4, x_private := x_private xdrs + 4\<rparr>,
            Some (ucast (ntohl (of_le32 (read_ptr (x_mem xdrs) (x_private xdrs) 4))))))"

definition xdrmem_putlong_aligned :: "xdrmem \<Rightarrow> u64 \<Rightarrow> xdrmem \<times> bool" where
  "xdrmem_putlong_aligned xdrs l =
     (if x_handy xdrs < 4 then (xdrs, False)
      else (xdrs\<lparr>x_handy := x_handy xdrs - 4,
                 x_mem := write_ptr (x_mem xdrs) (x_private xdrs) (le32 (htonl (ucast l))),
                 x_private := x_private xdrs + 4\<rparr>, True))"

text \<open>The unaligned variants copy through a local: the bytes of \<open>l\<close> are moved, not stored as a word.\<close>

definition xdrmem_getlong_unaligned :: "xdrmem \<Rightarrow> xdrmem \<times> u64 option" where
  "xdrmem_getlong_unaligned xdrs =
     (if x_handy xdrs < 4 then (xdrs, None)
      else let l = of_le32 (read_ptr (x_mem xdrs) (x_private xdrs) 4) in
           (xdrs\<lparr>x_handy := x_handy xdrs - 4, x_private := x_private xdrs + 4\<rparr>, Some (ucast (ntohl l))))"

definition xdrmem_putlong_unaligned :: "xdrmem \<Rightarrow> u64 \<Rightarrow> xdrmem \<times> bool" where
  "xdrmem_putlong_unaligned xdrs lp =
     (if x_handy xdrs < 4 then (xdrs, False)
      else let l = htonl (ucast lp) in
           (xdrs\<lparr>x_handy := x_handy xdrs - 4,
                 x_mem := write_ptr (x_mem xdrs) (x_private xdrs) (le32 l),
                 x_private := x_private xdrs + 4\<rparr>, True))"

definition xdrmem_getbytes :: "xdrmem \<Rightarrow> u32 \<Rightarrow> xdrmem \<times> byte list option" where
  "xdrmem_getbytes xdrs len =
     (if x_handy xdrs < len then (xdrs, None)
      else (xdrs\<lparr>x_handy := x_handy xdrs - len, x_private := x_private xdrs + uint len\<rparr>,
            Some (read_ptr (x_mem xdrs) (x_private xdrs) (unat len))))"

definition xdrmem_putbytes :: "xdrmem \<Rightarrow> byte list \<Rightarrow> u32 \<Rightarrow> xdrmem \<times> bool" where
  "xdrmem_putbytes xdrs addr len =
     (if x_handy xdrs < len then (xdrs, False)
      else (xdrs\<lparr>x_handy := x_handy xdrs - len,
                 x_mem := write_ptr (x_mem xdrs) (x_private xdrs) (take (unat len) addr),
                 x_private := x_private xdrs + uint len\<rparr>, True))"

definition xdrmem_getpos :: "xdrmem \<Rightarrow> u32" where
  "xdrmem_getpos xdrs = word_of_int (x_private xdrs)"

definition xdrmem_setpos :: "xdrmem \<Rightarrow> u32 \<Rightarrow> xdrmem \<times> bool" where
  "xdrmem_setpos xdrs pos =
     (let newaddr = uint pos; lastaddr = x_private xdrs + uint (x_handy xdrs) in
      if newaddr > lastaddr then (xdrs, False)
      else (xdrs\<lparr>x_private := newaddr, x_handy := word_of_int (lastaddr - newaddr)\<rparr>, True))"

definition xdrmem_inline_aligned :: "xdrmem \<Rightarrow> u32 \<Rightarrow> xdrmem \<times> int option" where
  "xdrmem_inline_aligned xdrs len =
     (if x_handy xdrs \<ge> len
      then (xdrs\<lparr>x_handy := x_handy xdrs - len, x_private := x_private xdrs + uint len\<rparr>,
            Some (x_private xdrs))
      else (xdrs, None))"

definition xdrmem_inline_unaligned :: "xdrmem \<Rightarrow> u32 \<Rightarrow> xdrmem \<times> int option" where
  "xdrmem_inline_unaligned xdrs len = (xdrs, None)"

text \<open>
  \<^verbatim>\<open>RNDUP\<close> on a signed \<^verbatim>\<open>int\<close>: the additions wrap around at 32 bits on the
  target, the division truncates towards zero.
\<close>

definition RNDUP :: "32 word \<Rightarrow> 32 word" where
  "RNDUP x = word_of_int (sint (x + BYTES_PER_XDR_UNIT - 1) sdiv sint BYTES_PER_XDR_UNIT) * BYTES_PER_XDR_UNIT"

text \<open>
  \<^verbatim>\<open>XDR_SKIPBYTES\<close> keeps the rounded length in a signed \<^verbatim>\<open>int\<close>: the test and the
  subtraction from \<open>x_handy\<close> are unsigned, the pointer moves by the signed value.
\<close>

definition xdrmem_control :: "xdrmem \<Rightarrow> xdr_request \<Rightarrow> xdrmem \<times> xdr_reply option" where
  "xdrmem_control xdrs request =
     (case request of
        XDR_GET_BYTES_AVAIL \<Rightarrow> (xdrs, Some (Avail True (x_handy xdrs)))
      | XDR_PEEK \<Rightarrow>
          if x_handy xdrs < 4 then (xdrs, None)
          else (xdrs, Some (Peeked (ntohl (of_le32 (read_ptr (x_mem xdrs) (x_private xdrs) 4)))))
      | XDR_SKIPBYTES l \<Rightarrow>
          let len = RNDUP l in
          if x_handy xdrs < len then (xdrs, None)
          else (xdrs\<lparr>x_handy := x_handy xdrs - len, x_private := x_private xdrs + sint len\<rparr>, Some Skipped))"

definition xdrmem_ops_aligned :: "xdrmem xdr_ops" where
  "xdrmem_ops_aligned = \<lparr>x_getlong = xdrmem_getlong_aligned, x_putlong = xdrmem_putlong_aligned,
     x_getbytes = xdrmem_getbytes, x_putbytes = xdrmem_putbytes, x_getpostn = xdrmem_getpos,
     x_setpostn = xdrmem_setpos, x_inline = xdrmem_inline_aligned, x_destroy = xdrmem_destroy,
     x_control = xdrmem_control\<rparr>"

definition xdrmem_ops_unaligned :: "xdrmem xdr_ops" where
  "xdrmem_ops_unaligned = \<lparr>x_getlong = xdrmem_getlong_unaligned, x_putlong = xdrmem_putlong_unaligned,
     x_getbytes = xdrmem_getbytes, x_putbytes = xdrmem_putbytes, x_getpostn = xdrmem_getpos,
     x_setpostn = xdrmem_setpos, x_inline = xdrmem_inline_unaligned, x_destroy = xdrmem_destroy,
     x_control = xdrmem_control\<rparr>"

definition xdrmem_create :: "u64 \<Rightarrow> byte list \<Rightarrow> u32 \<Rightarrow> xdr_op \<Rightarrow> xdrmem XDR" where
  "xdrmem_create addr mem sz opn =
     \<lparr>x_op = opn,
      x_ops = (if addr AND 3 \<noteq> 0 then xdrmem_ops_unaligned else xdrmem_ops_aligned),
      x_stream = \<lparr>x_base = addr, x_mem = mem, x_private = 0, x_handy = sz\<rparr>\<rparr>"

text \<open>One encoding or decoding session on a fresh stream.\<close>

definition xdrmem_encode :: "u64 \<Rightarrow> byte list \<Rightarrow> u32 \<Rightarrow> (xdrmem, 't) xdrproc \<Rightarrow> 't \<Rightarrow> byte list option" where
  "xdrmem_encode addr mem sz p v =
     (case p (xdrmem_create addr mem sz XDR_ENCODE) v of
        (xdrs, _, b) \<Rightarrow> if b then Some (x_mem (x_stream xdrs)) else None)"

definition xdrmem_decode :: "u64 \<Rightarrow> byte list \<Rightarrow> u32 \<Rightarrow> (xdrmem, 't) xdrproc \<Rightarrow> 't \<Rightarrow> 't option" where
  "xdrmem_decode addr mem sz p v0 =
     (case p (xdrmem_create addr mem sz XDR_DECODE) v0 of
        (xdrs, v, b) \<Rightarrow> if b then Some v else None)"

section \<open>The stream contract\<close>

definition xdrmem_ok :: "xdrmem \<Rightarrow> bool" where
  "xdrmem_ok xdrs \<longleftrightarrow> 0 \<le> x_private xdrs \<and> nat (x_private xdrs) + unat (x_handy xdrs) \<le> length (x_mem xdrs)"

definition xdrmem_written :: "xdrmem \<Rightarrow> byte list" where
  "xdrmem_written xdrs = take (nat (x_private xdrs)) (x_mem xdrs)"

definition xdrmem_ahead :: "xdrmem \<Rightarrow> byte list" where
  "xdrmem_ahead xdrs = read_at (x_mem xdrs) (nat (x_private xdrs)) (unat (x_handy xdrs))"

definition xdrmem_rest :: "xdrmem \<Rightarrow> u64 \<times> nat \<times> byte list" where
  "xdrmem_rest xdrs = (x_base xdrs, length (x_mem xdrs),
     drop (nat (x_private xdrs) + unat (x_handy xdrs)) (x_mem xdrs))"

lemmas xdrmem_stream_defs = xdrmem_ok_def xdrmem_written_def xdrmem_ahead_def xdrmem_rest_def

lemma x_mem_split: "x_mem s = xdrmem_written s @ xdrmem_ahead s @ snd (snd (xdrmem_rest s))"
  by (simp add: xdrmem_stream_defs read_at_def add.commute [of "nat (x_private s)"] flip: drop_drop)

lemma nat_advance [simp]:
  "0 \<le> p \<Longrightarrow> nat (p + uint n) = nat p + unat n" "0 \<le> p \<Longrightarrow> nat (uint n + p) = unat n + nat p"
  by (simp_all add: nat_add_distrib)

lemma ptr_nonneg [simp]:
  "0 \<le> p \<Longrightarrow> read_ptr mem p n = read_at mem (nat p) n"
  "0 \<le> p \<Longrightarrow> write_ptr mem p bs = write_at mem (nat p) bs"
  by (simp_all add: read_ptr_def write_ptr_def)

lemma xdrmem_okD [simp]: "xdrmem_ok s \<Longrightarrow> 0 \<le> x_private s"
  by (simp add: xdrmem_ok_def)

lemma length_xdrmem_ahead: "xdrmem_ok s \<Longrightarrow> length (xdrmem_ahead s) = unat (x_handy s)"
  by (simp add: xdrmem_stream_defs)

text \<open>Moving the cursor over the next \<open>n\<close> bytes, and over \<open>n\<close> bytes just stored there.\<close>

definition advance :: "u32 \<Rightarrow> xdrmem \<Rightarrow> xdrmem" where
  "advance n xdrs = xdrs\<lparr>x_handy := x_handy xdrs - n, x_private := x_private xdrs + uint n\<rparr>"

definition store :: "byte list \<Rightarrow> xdrmem \<Rightarrow> xdrmem" where
  "store bs xdrs = xdrs\<lparr>x_mem := write_ptr (x_mem xdrs) (x_private xdrs) bs\<rparr>"

lemma advance_stream:
  assumes "xdrmem_ok s" "unat n \<le> unat (x_handy s)"
  shows "xdrmem_ok (advance n s)"
    "xdrmem_written (advance n s) = xdrmem_written s @ take (unat n) (xdrmem_ahead s)"
    "xdrmem_ahead (advance n s) = drop (unat n) (xdrmem_ahead s)"
    "xdrmem_rest (advance n s) = xdrmem_rest s"
proof -
  have n: "unat (x_handy s - n) = unat (x_handy s) - unat n"
    using assms(2) by (simp add: unat_sub word_le_nat_alt)
  show "xdrmem_ok (advance n s)"
    using assms n by (simp add: xdrmem_ok_def advance_def)
  show "xdrmem_written (advance n s) = xdrmem_written s @ take (unat n) (xdrmem_ahead s)"
    using assms by (simp add: xdrmem_stream_defs advance_def read_at_def take_add min_def)
  show "xdrmem_ahead (advance n s) = drop (unat n) (xdrmem_ahead s)"
    using assms n by (simp add: xdrmem_stream_defs advance_def read_at_def drop_take add.commute)
  show "xdrmem_rest (advance n s) = xdrmem_rest s"
    using assms n by (simp add: xdrmem_stream_defs advance_def)
qed

lemma store_stream:
  assumes "xdrmem_ok s" "length bs \<le> unat (x_handy s)"
  shows "xdrmem_ok (store bs s)" "xdrmem_written (store bs s) = xdrmem_written s"
    "xdrmem_ahead (store bs s) = bs @ drop (length bs) (xdrmem_ahead s)"
    "x_handy (store bs s) = x_handy s" "xdrmem_rest (store bs s) = xdrmem_rest s"
proof -
  have "nat (x_private s) + length bs \<le> length (x_mem s)"
    using assms by (simp add: xdrmem_ok_def)
  then show "xdrmem_ok (store bs s)" "xdrmem_written (store bs s) = xdrmem_written s"
    "xdrmem_ahead (store bs s) = bs @ drop (length bs) (xdrmem_ahead s)"
    "x_handy (store bs s) = x_handy s" "xdrmem_rest (store bs s) = xdrmem_rest s"
    using assms by (simp_all add: xdrmem_stream_defs store_def read_at_def write_at_def drop_take
        add.commute)
qed

lemma getlong_aligned_eq:
  assumes "xdrmem_ok s"
  shows "xdrmem_getlong_aligned s =
     (if length (xdrmem_ahead s) < 4 then (s, None)
      else (advance 4 s, Some (ucast (of_be32 (take 4 (xdrmem_ahead s))))))"
proof -
  have "x_handy s < 4 \<longleftrightarrow> length (xdrmem_ahead s) < 4"
    using length_xdrmem_ahead [OF assms] by (simp add: word_less_nat_alt)
  moreover have "read_ptr (x_mem s) (x_private s) 4 = take 4 (xdrmem_ahead s)"
    if "\<not> length (xdrmem_ahead s) < 4"
    using that length_xdrmem_ahead [OF assms] assms by (simp add: xdrmem_ahead_def read_at_def)
  ultimately show ?thesis
    by (simp add: xdrmem_getlong_aligned_def advance_def ntohl_of_le32 min_def)
qed

lemma putlong_aligned_eq:
  assumes "xdrmem_ok s"
  shows "xdrmem_putlong_aligned s l =
     (if length (xdrmem_ahead s) < 4 then (s, False) else (advance 4 (store (be32 (ucast l)) s), True))"
  using length_xdrmem_ahead [OF assms]
  by (simp add: xdrmem_putlong_aligned_def advance_def store_def word_less_nat_alt le32_bswap32)

lemma long_unaligned_eq:
  "xdrmem_getlong_unaligned = xdrmem_getlong_aligned"
  "xdrmem_putlong_unaligned = xdrmem_putlong_aligned"
  by (simp_all add: fun_eq_iff xdrmem_getlong_unaligned_def xdrmem_getlong_aligned_def
      xdrmem_putlong_unaligned_def xdrmem_putlong_aligned_def)

lemma getbytes_eq:
  assumes "xdrmem_ok s"
  shows "xdrmem_getbytes s n =
     (if length (xdrmem_ahead s) < unat n then (s, None)
      else (advance n s, Some (take (unat n) (xdrmem_ahead s))))"
  using length_xdrmem_ahead [OF assms] assms
  by (simp add: xdrmem_getbytes_def advance_def word_less_nat_alt xdrmem_stream_defs read_at_def min_def)

lemma putbytes_eq:
  assumes "xdrmem_ok s"
  shows "xdrmem_putbytes s bs n =
     (if length (xdrmem_ahead s) < unat n then (s, False)
      else (advance n (store (take (unat n) bs) s), True))"
  using length_xdrmem_ahead [OF assms]
  by (simp add: xdrmem_putbytes_def advance_def store_def word_less_nat_alt)

lemma xdrmem_contract: "xdr_stream xdrmem_ops_aligned xdrmem_ok xdrmem_written xdrmem_ahead xdrmem_rest"
proof
  fix s and l :: u64
  assume s: "xdrmem_ok s" "4 \<le> length (xdrmem_ahead s)"
  then have len: "length (be32 (ucast l)) \<le> unat (x_handy s)"
    by (simp add: length_xdrmem_ahead)
  note st = store_stream [OF s(1) len]
  have "unat (4 :: u32) \<le> unat (x_handy (store (be32 (ucast l)) s))"
    using st len by simp
  note adv = advance_stream [OF st(1) this]
  show "\<exists>s'. x_putlong xdrmem_ops_aligned s l = (s', True) \<and> xdrmem_ok s' \<and>
      xdrmem_written s' = xdrmem_written s @ be32 (ucast l) \<and> xdrmem_ahead s' = drop 4 (xdrmem_ahead s) \<and>
      xdrmem_rest s' = xdrmem_rest s"
    using s adv st by (simp add: xdrmem_ops_aligned_def putlong_aligned_eq)
next
  fix s
  assume s: "xdrmem_ok s" "4 \<le> length (xdrmem_ahead s)"
  then have "unat (4 :: u32) \<le> unat (x_handy s)"
    by (simp add: length_xdrmem_ahead)
  with s show "\<exists>s'. x_getlong xdrmem_ops_aligned s = (s', Some (ucast (of_be32 (take 4 (xdrmem_ahead s))))) \<and>
      xdrmem_ok s' \<and> xdrmem_written s' = xdrmem_written s @ take 4 (xdrmem_ahead s) \<and>
      xdrmem_ahead s' = drop 4 (xdrmem_ahead s) \<and>
      xdrmem_rest s' = xdrmem_rest s"
    using advance_stream [OF s(1)] by (simp add: xdrmem_ops_aligned_def getlong_aligned_eq)
next
  fix s and n :: u32 and bs :: "byte list"
  assume s: "xdrmem_ok s" "unat n \<le> length (xdrmem_ahead s)" "unat n \<le> length bs"
  then have len: "length (take (unat n) bs) \<le> unat (x_handy s)"
    by (simp add: length_xdrmem_ahead)
  note st = store_stream [OF s(1) len]
  have "unat n \<le> unat (x_handy (store (take (unat n) bs) s))"
    using st s by (simp add: length_xdrmem_ahead)
  note adv = advance_stream [OF st(1) this]
  show "\<exists>s'. x_putbytes xdrmem_ops_aligned s bs n = (s', True) \<and> xdrmem_ok s' \<and>
      xdrmem_written s' = xdrmem_written s @ take (unat n) bs \<and>
      xdrmem_ahead s' = drop (unat n) (xdrmem_ahead s) \<and> xdrmem_rest s' = xdrmem_rest s"
    using s adv st by (simp add: xdrmem_ops_aligned_def putbytes_eq min_def)
next
  fix s and n :: u32
  assume s: "xdrmem_ok s" "unat n \<le> length (xdrmem_ahead s)"
  then have "unat n \<le> unat (x_handy s)"
    by (simp add: length_xdrmem_ahead)
  with s show "\<exists>s'. x_getbytes xdrmem_ops_aligned s n = (s', Some (take (unat n) (xdrmem_ahead s))) \<and>
      xdrmem_ok s' \<and> xdrmem_written s' = xdrmem_written s @ take (unat n) (xdrmem_ahead s) \<and>
      xdrmem_ahead s' = drop (unat n) (xdrmem_ahead s) \<and> xdrmem_rest s' = xdrmem_rest s"
    using advance_stream [OF s(1)] by (simp add: xdrmem_ops_aligned_def getbytes_eq)
qed (simp_all add: xdrmem_ops_aligned_def putlong_aligned_eq getlong_aligned_eq putbytes_eq getbytes_eq)

interpretation mem_al: xdr_stream xdrmem_ops_aligned xdrmem_ok xdrmem_written xdrmem_ahead xdrmem_rest
  by (rule xdrmem_contract)

interpretation mem_un: xdr_stream xdrmem_ops_unaligned xdrmem_ok xdrmem_written xdrmem_ahead xdrmem_rest
  using xdrmem_contract unfolding xdr_stream_def
  by (simp add: xdrmem_ops_aligned_def xdrmem_ops_unaligned_def long_unaligned_eq)

end
