(* ===== verification/XdrProps.thy ===== *)
theory XdrProps
  imports XdrMem
begin

text \<open>
  The properties of the XDR component over memory streams.  \<open>wire_format p f P\<close> is the contract
  between the two ends of a connection: a filter \<open>p\<close> encodes each value of \<open>P\<close> as the bytes
  \<open>f v\<close> at the start of the buffer, touches nothing behind them, fails when they do not fit, and
  decodes those bytes to \<open>v\<close> at any alignment of either buffer.
\<close>

definition wire_format :: "(xdrmem, 't) xdrproc \<Rightarrow> ('t \<Rightarrow> byte list) \<Rightarrow> ('t \<Rightarrow> bool) \<Rightarrow> bool" where
  "wire_format p f P \<longleftrightarrow> (\<forall>addr mem sz v. P v \<longrightarrow> unat sz \<le> length mem \<longrightarrow>
     xdrmem_encode addr mem sz p v =
       (if length (f v) \<le> unat sz then Some (f v @ drop (length (f v)) mem) else None)
     \<and> (\<forall>v0. length (f v) \<le> unat sz \<longrightarrow> take (length (f v)) mem = f v \<longrightarrow>
          xdrmem_decode addr mem sz p v0 = Some v))"

definition fresh :: "u64 \<Rightarrow> byte list \<Rightarrow> u32 \<Rightarrow> xdrmem" where
  "fresh addr mem sz = \<lparr>x_base = addr, x_mem = mem, x_private = 0, x_handy = sz\<rparr>"

lemma xdrmem_create_cases:
  obtains "xdrmem_create addr mem sz opn = mem_al.handle opn (fresh addr mem sz)"
  | "xdrmem_create addr mem sz opn = mem_un.handle opn (fresh addr mem sz)"
  by (cases "addr AND 3 = 0")
    (simp_all add: xdrmem_create_def mem_un.handle_def mem_al.handle_def fresh_def)

lemma fresh_stream:
  assumes "unat sz \<le> length mem"
  shows "xdrmem_ok (fresh addr mem sz)" "xdrmem_written (fresh addr mem sz) = []"
    "xdrmem_ahead (fresh addr mem sz) = take (unat sz) mem"
    "xdrmem_rest (fresh addr mem sz) = (addr, length mem, drop (unat sz) mem)"
  using assms by (simp_all add: fresh_def xdrmem_stream_defs read_at_def)

lemma moved_mem:
  assumes "mem_al.moved (fresh addr mem sz) bs s'" "unat sz \<le> length mem" "length bs \<le> unat sz"
  shows "x_mem s' = bs @ drop (length bs) mem"
proof -
  have parts: "xdrmem_written s' = bs" "xdrmem_ahead s' = drop (length bs) (take (unat sz) mem)"
    "xdrmem_rest s' = (addr, length mem, drop (unat sz) mem)"
    using assms(1) fresh_stream [OF assms(2), of addr] by (simp_all add: mem_al.moved_def)
  have "x_mem s' = bs @ drop (length bs) (take (unat sz) mem) @ drop (unat sz) mem"
    using x_mem_split [of s'] unfolding parts by simp
  also have "drop (length bs) (take (unat sz) mem) @ drop (unat sz) mem = drop (length bs) mem"
    using assms(3) drop_append [of "length bs" "take (unat sz) mem" "drop (unat sz) mem"] assms(2)
    by simp
  finally show ?thesis .
qed

lemma xdrmem_encode_eq:
  assumes "mem_al.enc p v bs" "mem_un.enc p v bs" and sz: "unat sz \<le> length mem"
  shows "xdrmem_encode addr mem sz p v =
     (if length bs \<le> unat sz then Some (bs @ drop (length bs) mem) else None)"
proof -
  note fr = fresh_stream [OF sz, of addr]
  have len: "length (xdrmem_ahead (fresh addr mem sz)) = unat sz"
    using fr sz by simp
  show ?thesis
  proof (cases rule: xdrmem_create_cases [of addr mem sz XDR_ENCODE])
    case 1
    with assms(1) fr(1) len show ?thesis
      by (auto simp: xdrmem_encode_def mem_al.enc_def moved_mem [OF _ sz])
  next
    case 2
    with assms(2) fr(1) len show ?thesis
      by (auto simp: xdrmem_encode_def mem_un.enc_def moved_mem [OF _ sz])
  qed
qed

lemma xdrmem_decode_eq:
  assumes "mem_al.dec p v0 bs v" "mem_un.dec p v0 bs v" "unat sz \<le> length mem"
    and "length bs \<le> unat sz" "take (length bs) mem = bs"
  shows "xdrmem_decode addr mem sz p v0 = Some v"
proof -
  note fr = fresh_stream [OF assms(3), of addr]
  have bs: "take (length bs) (xdrmem_ahead (fresh addr mem sz)) = bs"
    using assms(4,5) by (simp add: fr min_def)
  show ?thesis
  proof (cases rule: xdrmem_create_cases [of addr mem sz XDR_DECODE])
    case 1
    obtain s' where "p (mem_al.handle XDR_DECODE (fresh addr mem sz)) v0 = (mem_al.handle XDR_DECODE s', v, True)"
      using assms(1) fr(1) bs by (rule mem_al.decE)
    with 1 show ?thesis
      by (simp add: xdrmem_decode_def)
  next
    case 2
    obtain s' where "p (mem_un.handle XDR_DECODE (fresh addr mem sz)) v0 = (mem_un.handle XDR_DECODE s', v, True)"
      using assms(2) fr(1) bs by (rule mem_un.decE)
    with 2 show ?thesis
      by (simp add: xdrmem_decode_def)
  qed
qed

lemma wire_formatI:
  assumes "mem_al.codec p f P" "mem_un.codec p f P"
  shows "wire_format p f P"
  unfolding wire_format_def
proof (intro allI impI conjI)
  fix addr :: u64 and mem :: "byte list" and sz :: u32 and v v0
  assume "P v" and sz: "unat sz \<le> length mem"
  then have e: "mem_al.enc p v (f v)" "mem_un.enc p v (f v)"
    and d: "mem_al.dec p v0 (f v) v" "mem_un.dec p v0 (f v) v"
    using assms by (simp_all add: mem_al.codec_def mem_un.codec_def)
  show "xdrmem_encode addr mem sz p v =
      (if length (f v) \<le> unat sz then Some (f v @ drop (length (f v)) mem) else None)"
    using e sz by (rule xdrmem_encode_eq)
  assume "length (f v) \<le> unat sz" "take (length (f v)) mem = f v"
  with d sz show "xdrmem_decode addr mem sz p v0 = Some v"
    by (rule xdrmem_decode_eq)
qed

lemma session_roundtrip:
  assumes "mem_al.enc p v bs" "mem_un.enc p v bs" "mem_al.dec q v0 bs w" "mem_un.dec q v0 bs w"
    and "unat sz \<le> length mem" "length bs \<le> unat sz"
  shows "\<exists>mem'. xdrmem_encode addr mem sz p v = Some mem' \<and> xdrmem_decode addr' mem' sz q v0 = Some w"
proof -
  have "xdrmem_encode addr mem sz p v = Some (bs @ drop (length bs) mem)"
    using xdrmem_encode_eq [OF assms(1,2,5)] assms(6) by simp
  moreover have "xdrmem_decode addr' (bs @ drop (length bs) mem) sz q v0 = Some w"
    using assms(5,6) by (intro xdrmem_decode_eq [OF assms(3,4)]) simp_all
  ultimately show ?thesis
    by simp
qed

section \<open>Scalars\<close>

text \<open>
  The 64-bit filters write the high half and then the low half, each big-endian, and decode the
  eight bytes to the value that was encoded.
\<close>

lemma xdr_64bit_wire:
  "wire_format xdr_int64_t be64 (\<lambda>_. True) \<and> wire_format xdr_uint64_t be64 (\<lambda>_. True)
   \<and> wire_format xdr_hyper be64 (\<lambda>_. True) \<and> wire_format xdr_u_hyper be64 (\<lambda>_. True)
   \<and> wire_format xdr_longlong_t be64 (\<lambda>_. True) \<and> wire_format xdr_u_longlong_t be64 (\<lambda>_. True)"
  by (intro conjI wire_formatI mem_al.codec_int64_t mem_un.codec_int64_t mem_al.codec_int64s mem_un.codec_int64s)

text \<open>
  every 8-, 16- and 32-bit scalar filter puts exactly one big-endian unit of four bytes on the wire,
  sign- or zero-extended as its C type is, leaves the rest of the buffer alone, returns FALSE on a buffer
  of less than four bytes, and decodes the unit to the value that was encoded; \<^verbatim>\<open>xdr_bool\<close>
  does so for the two values a \<^verbatim>\<open>bool_t\<close> has.  The 64-bit filters do the same with eight bytes, the
  high half first.
\<close>

lemma xdr_scalars_wire:
  "wire_format xdr_int be32 (\<lambda>_. True) \<and> wire_format xdr_u_int be32 (\<lambda>_. True)
   \<and> wire_format xdr_int32_t be32 (\<lambda>_. True) \<and> wire_format xdr_uint32_t be32 (\<lambda>_. True)
   \<and> wire_format xdr_enum be32 (\<lambda>_. True)
   \<and> wire_format xdr_short (\<lambda>v. be32 (scast v)) (\<lambda>_. True)
   \<and> wire_format xdr_u_short (\<lambda>v. be32 (ucast v)) (\<lambda>_. True)
   \<and> wire_format xdr_int16_t (\<lambda>v. be32 (scast v)) (\<lambda>_. True)
   \<and> wire_format xdr_uint16_t (\<lambda>v. be32 (ucast v)) (\<lambda>_. True)
   \<and> wire_format xdr_char (\<lambda>v. be32 (scast v)) (\<lambda>_. True)
   \<and> wire_format xdr_u_char (\<lambda>v. be32 (ucast v)) (\<lambda>_. True)
   \<and> wire_format xdr_bool be32 (\<lambda>b. b = 0 \<or> b = 1)
   \<and> wire_format xdr_int64_t be64 (\<lambda>_. True) \<and> wire_format xdr_uint64_t be64 (\<lambda>_. True)
   \<and> wire_format xdr_hyper be64 (\<lambda>_. True) \<and> wire_format xdr_u_hyper be64 (\<lambda>_. True)
   \<and> wire_format xdr_longlong_t be64 (\<lambda>_. True) \<and> wire_format xdr_u_longlong_t be64 (\<lambda>_. True)"
  by (intro conjI wire_formatI mem_al.codec_int mem_un.codec_int mem_al.codec_u_int mem_un.codec_u_int
      mem_al.codec_sized mem_un.codec_sized mem_al.codec_enum mem_un.codec_enum mem_al.codec_short
      mem_un.codec_short mem_al.codec_u_short mem_un.codec_u_short mem_al.codec_char mem_un.codec_char
      mem_al.codec_u_char mem_un.codec_u_char mem_al.codec_bool mem_un.codec_bool xdr_64bit_wire)

text \<open>
  \<^verbatim>\<open>xdr_long\<close> carries only the low 32 bits of a 64-bit \<^verbatim>\<open>long\<close> and decoding
  zero-extends them, so a value comes back as it was if and only if it is below \<open>2 ^ 32\<close>: in
  particular no negative \<^verbatim>\<open>long\<close> survives.
\<close>

lemma xdr_long_truncates:
  assumes "4 \<le> unat sz" "unat sz \<le> length mem"
  shows "\<exists>mem' v'. xdrmem_encode addr mem sz xdr_long v = Some mem'
     \<and> xdrmem_decode addr' mem' sz xdr_long v0 = Some v' \<and> (v' = v \<longleftrightarrow> unat v < 2 ^ 32)"
proof -
  let ?w = "ucast v :: u32" and ?id = "\<lambda>l :: u64. l"
  have session: "\<exists>mem'. xdrmem_encode addr mem sz xdr_long v = Some mem'
      \<and> xdrmem_decode addr' mem' sz xdr_long v0 = Some (ucast ?w)"
    unfolding xdr_long_def
    using mem_al.enc_integer [of ?id ?id v] mem_un.enc_integer [of ?id ?id v]
      mem_al.dec_integer [of ?id ?id v0 ?w] mem_un.dec_integer [of ?id ?id v0 ?w] assms(2)
    by (rule session_roundtrip) (simp add: assms(1))
  have "unat (ucast ?w :: u64) = unat v mod 2 ^ 32"
    by (simp add: unsigned_ucast_eq unsigned_take_bit_eq take_bit_eq_mod unat_mod)
  then have "(ucast ?w :: u64) = v \<longleftrightarrow> unat v mod 2 ^ 32 = unat v"
    by (simp add: word_unat_eq_iff)
  then have "(ucast ?w :: u64) = v \<longleftrightarrow> unat v < 2 ^ 32"
    by (metis mod_less mod_less_divisor zero_less_numeral zero_less_power)
  with session show ?thesis
    by blast
qed

section \<open>Counted objects\<close>

text \<open>
  Counted bytes survive the wire.  Encoding \<open>n\<close> bytes from a buffer and decoding into a null
  pointer yields a newly allocated buffer with the same bytes and the same count, whenever the image (the
  count, the bytes and zero padding to full units) fits.
\<close>

lemma xdr_bytes_roundtrip:
  assumes "length bs = unat n" "n \<noteq> 0" "n \<le> maxsize"
    and "mem_alloc n = Some buf" "length buf = unat n"
    and "4 + length (opaque_bytes bs) \<le> unat sz" "unat sz \<le> length mem"
  shows "\<exists>mem'. xdrmem_encode addr mem sz (bytes_obj mem_alloc maxsize) (Some bs, n) = Some mem'
     \<and> xdrmem_decode addr' mem' sz (bytes_obj mem_alloc maxsize) (None, n0) = Some (Some bs, n)"
proof (rule session_roundtrip [where bs = "be32 n @ opaque_bytes bs"])
  show "mem_al.enc (bytes_obj mem_alloc maxsize) (Some bs, n) (be32 n @ opaque_bytes bs)"
    "mem_un.enc (bytes_obj mem_alloc maxsize) (Some bs, n) (be32 n @ opaque_bytes bs)"
    using mem_al.enc_bytes [of n bs maxsize] mem_un.enc_bytes [of n bs maxsize] assms(1,3) by simp_all
  show "mem_al.dec (bytes_obj mem_alloc maxsize) (None, n0) (be32 n @ opaque_bytes bs) (Some bs, n)"
    "mem_un.dec (bytes_obj mem_alloc maxsize) (None, n0) (be32 n @ opaque_bytes bs) (Some bs, n)"
    unfolding opaque_bytes_def
    using mem_al.dec_bytes [OF assms(2,3), of None mem_alloc buf bs "replicate (xdr_pad (length bs)) 0" n0]
      mem_un.dec_bytes [OF assms(2,3), of None mem_alloc buf bs "replicate (xdr_pad (length bs)) 0" n0]
      assms(1,4,5) by simp_all
qed (use assms(6,7) in simp_all)

text \<open>
  strings survive the wire.  A NUL-terminated string of at most \<open>maxsize\<close> bytes is encoded without
  its terminator; decoding into a null pointer allocates one byte more and the buffer it returns holds the
  same C string.
\<close>

lemma xdr_string_roundtrip:
  assumes "length (cstr sp) < 2 ^ 32 - 1" "length (cstr sp) \<le> unat maxsize"
    and "mem_alloc (of_nat (length (cstr sp)) + 1) = Some buf" "length buf = length (cstr sp) + 1"
    and "4 + length (opaque_bytes (cstr sp)) \<le> unat sz" "unat sz \<le> length mem"
  shows "\<exists>mem' sp'. xdrmem_encode addr mem sz (\<lambda>xdrs cpp. xdr_string mem_alloc xdrs cpp maxsize) (Some sp) = Some mem'
     \<and> xdrmem_decode addr' mem' sz (\<lambda>xdrs cpp. xdr_string mem_alloc xdrs cpp maxsize) None = Some (Some sp')
     \<and> cstr sp' = cstr sp"
proof -
  let ?str = "cstr sp" and ?n = "of_nat (length (cstr sp)) :: u32"
  let ?p = "\<lambda>xdrs cpp. xdr_string mem_alloc xdrs cpp maxsize"
  let ?buf = "?str @ drop (length ?str) (buf[length ?str := 0])"
  have n: "unat ?n = length ?str"
    using assms(1) by (simp add: unat_of_nat)
  have nmax: "?n \<noteq> UINT_MAX" "?n \<le> maxsize"
    using assms(1,2) n by (auto simp: word_unat_eq_iff word_le_nat_alt)
  have "\<exists>mem'. xdrmem_encode addr mem sz ?p (Some sp) = Some mem' \<and> xdrmem_decode addr' mem' sz ?p None = Some (Some ?buf)"
  proof (rule session_roundtrip [where bs = "be32 ?n @ opaque_bytes ?str"])
    show "mem_al.enc ?p (Some sp) (be32 ?n @ opaque_bytes ?str)"
      using mem_al.enc_string [of sp maxsize mem_alloc] assms(1,2) by simp
    show "mem_un.enc ?p (Some sp) (be32 ?n @ opaque_bytes ?str)"
      using mem_un.enc_string [of sp maxsize mem_alloc] assms(1,2) by simp
    show "mem_al.dec ?p None (be32 ?n @ opaque_bytes ?str) (Some ?buf)"
      "mem_un.dec ?p None (be32 ?n @ opaque_bytes ?str) (Some ?buf)"
      unfolding opaque_bytes_def
      using mem_al.dec_string [OF nmax, of None mem_alloc buf ?str "replicate (xdr_pad (length ?str)) 0"]
        mem_un.dec_string [OF nmax, of None mem_alloc buf ?str "replicate (xdr_pad (length ?str)) 0"]
        assms(3) n by simp_all
  qed (use assms(5,6) in simp_all)
  moreover have "cstr ?buf = ?str"
  proof -
    have "drop (length ?str) (buf[length ?str := 0]) = [0]"
      using assms(4) by (intro nth_equalityI) simp_all
    moreover have "0 \<notin> set ?str"
      by (auto simp: cstr_def dest: set_takeWhileD)
    ultimately show ?thesis
      using cstr_terminated [of ?str "[]"] by simp
  qed
  ultimately show ?thesis
    by blast
qed

text \<open>
  C13. counted arrays survive the wire.  For any element filter with a wire format, an array is encoded as
  its count followed by the images of its elements, and decoding into a null pointer allocates an array
  with the same elements, provided the count respects \<open>maxsize\<close> and the byte size fits an
  \<^verbatim>\<open>unsigned\<close>.
\<close>

theorem xdr_array_roundtrip:
  assumes "mem_al.codec p f P" "mem_un.codec p f P" "\<forall>v \<in> set vs. P v" "length vs = unat n"
    and "n \<noteq> 0" "n \<le> maxsize" "n \<le> UINT_MAX div elsize" "mem_alloc (n * elsize)"
    and "4 + length (concat (map f vs)) \<le> unat sz" "unat sz \<le> length mem"
  shows "\<exists>mem'. xdrmem_encode addr mem sz (array_obj mem_alloc zero maxsize elsize p) (Some vs, n) = Some mem'
     \<and> xdrmem_decode addr' mem' sz (array_obj mem_alloc zero maxsize elsize p) (None, n0) = Some (Some vs, n)"
proof (rule session_roundtrip [where bs = "be32 n @ concat (map f vs)"])
  let ?p = "array_obj mem_alloc zero maxsize elsize p"
  show "mem_al.enc ?p (Some vs, n) (be32 n @ concat (map f vs))"
    using mem_al.enc_array [OF assms(1), of n vs maxsize elsize] assms(3,4,6,7) by simp
  show "mem_un.enc ?p (Some vs, n) (be32 n @ concat (map f vs))"
    using mem_un.enc_array [OF assms(2), of n vs maxsize elsize] assms(3,4,6,7) by simp
  show "mem_al.dec ?p (None, n0) (be32 n @ concat (map f vs)) (Some vs, n)"
    using assms(1,4,3,5-8) by (rule mem_al.dec_array)
  show "mem_un.dec ?p (None, n0) (be32 n @ concat (map f vs)) (Some vs, n)"
    using assms(2,4,3,5-8) by (rule mem_un.dec_array)
qed (use assms(9,10) in simp_all)

theorem xdr_array_roundtrip_witness:
  "\<exists>mem'. xdrmem_encode 5 (replicate 20 0) 20 (array_obj (\<lambda>_. True) 0 4 8 xdr_uint64_t) (Some [1, 2 ^ 63], 2) = Some mem'
     \<and> xdrmem_decode 4 mem' 20 (array_obj (\<lambda>_. True) 0 4 8 xdr_uint64_t) (None, 0) = Some (Some [1, 2 ^ 63], 2)"
  by (rule xdr_array_roundtrip [OF mem_al.codec_int64s(1) mem_un.codec_int64s(1)]) (simp_all add: word_le_nat_alt unat_div)

text \<open>
  C11. the size check of \<^verbatim>\<open>xdr_array\<close> is sound.  Whenever it succeeds in encoding or decoding, the
  count respects \<open>maxsize\<close> and the allocation size \<open>c * elsize\<close> did not wrap.
\<close>

theorem xdr_array_size_checked:
  assumes "xdr_array mem_alloc zero xdrs addrp sizep maxsize elsize p = (xdrs', addrp', c, True)"
    and "x_op xdrs \<noteq> XDR_FREE" "elsize \<noteq> 0"
  shows "c \<le> maxsize \<and> unat (c * elsize) = unat c * unat elsize"
proof -
  have c: "c \<le> maxsize" "c \<le> UINT_MAX div elsize"
    using assms(1,2) by (auto simp: xdr_array_def Let_def split: prod.splits if_splits)
  from c(2) have "unat c \<le> (2 ^ 32 - 1) div unat elsize"
    by (simp add: word_le_nat_alt unat_div)
  then have "unat c * unat elsize \<le> 2 ^ 32 - 1"
    using assms(3) by (simp add: less_eq_div_iff_mult_less_eq unat_gt_0)
  then have "unat (c * elsize) = unat c * unat elsize"
    by (simp add: unat_word_ariths)
  with c(1) show ?thesis
    by simp
qed

lemmas xdrmem_eval = xdr_array_def xdr_u_int_def xdr_integer_def XDR_PUTLONG_def XDR_GETLONG_def
  xdrmem_create_def xdrmem_ops_aligned_def xdrmem_putlong_aligned_def xdrmem_getlong_aligned_def
  le32_def of_le32_def bswap32_def write_at_def read_at_def

theorem xdr_array_size_checked_witness:
  "\<exists>xdrs'. xdr_array (\<lambda>_. True) 0 (xdrmem_create 0 (replicate 8 0) 8 XDR_ENCODE) (Some [5]) 1 4 4 xdr_u_int
       = (xdrs', Some [5], 1, True)
     \<and> (1 :: u32) \<le> 4 \<and> unat ((1 :: u32) * 4) = unat (1 :: u32) * unat (4 :: u32)"
proof -
  obtain xdrs' where run: "xdr_array (\<lambda>_. True) 0 (xdrmem_create 0 (replicate 8 0) 8 XDR_ENCODE) (Some [5]) 1 4 4
      xdr_u_int = (xdrs', Some [5], 1, True)"
    by (simp add: xdrmem_eval)
  from xdr_array_size_checked [OF run] run show ?thesis
    by (auto simp: xdrmem_create_def)
qed

section \<open>Confinement\<close>

text \<open>
  The bytes of \<open>t\<close> that lie in the window of \<open>s\<close>, the \<open>x_handy\<close> bytes at
  \<open>x_private\<close>; two streams that differ at most outside their window; an operation that stays in its
  window.  It writes nothing outside: those bytes and the length of the buffer are kept, and the
  window it leaves behind lies in the buffer and ends no later.  It reads nothing outside: on
  every stream that has the same window it gives the same answer, the same position and the same bytes in the
  window.
\<close>

definition window :: "xdrmem \<Rightarrow> xdrmem \<Rightarrow> byte list" where
  "window s t = read_at (x_mem t) (nat (x_private s)) (unat (x_handy s))"

definition same_window :: "xdrmem \<Rightarrow> xdrmem \<Rightarrow> bool" where
  "same_window s t \<longleftrightarrow> x_base t = x_base s \<and> x_private t = x_private s \<and> x_handy t = x_handy s
     \<and> length (x_mem t) = length (x_mem s) \<and> window s t = window s s"

definition writes_inside :: "xdrmem \<Rightarrow> xdrmem \<Rightarrow> bool" where
  "writes_inside s s' \<longleftrightarrow> xdrmem_ok s' \<and> x_base s' = x_base s \<and> length (x_mem s') = length (x_mem s)
     \<and> x_private s' + uint (x_handy s') \<le> x_private s + uint (x_handy s)
     \<and> (\<forall>k. k < nat (x_private s) \<or> nat (x_private s) + unat (x_handy s) \<le> k \<longrightarrow> x_mem s' ! k = x_mem s ! k)"

definition confined :: "(xdrmem \<Rightarrow> xdrmem \<times> 'r) \<Rightarrow> xdrmem \<Rightarrow> bool" where
  "confined f s \<longleftrightarrow> (case f s of (s', r) \<Rightarrow> writes_inside s s'
     \<and> (\<forall>t. same_window s t \<longrightarrow> (case f t of (t', r') \<Rightarrow>
          r' = r \<and> x_private t' = x_private s' \<and> x_handy t' = x_handy s' \<and> window s t' = window s s')))"

lemma same_window_refl: "same_window s s"
  by (simp add: same_window_def)

lemma same_window_stream:
  assumes "xdrmem_ok s" "same_window s t"
  shows "xdrmem_ok t" "xdrmem_ahead t = xdrmem_ahead s" "x_private t = x_private s" "x_handy t = x_handy s"
  using assms by (simp_all add: same_window_def xdrmem_ok_def xdrmem_ahead_def window_def)

text \<open>An operation that only moves the cursor, on every stream with that window alike.\<close>

lemma confined_moveI:
  assumes "xdrmem_ok s" "0 \<le> p" "p + uint h \<le> x_private s + uint (x_handy s)"
    and f: "\<And>t. same_window s t \<Longrightarrow> f t = (t\<lparr>x_private := p, x_handy := h\<rparr>, r)"
  shows "confined f s"
proof -
  have "nat p + unat h \<le> nat (x_private s) + unat (x_handy s)"
    using assms(1-3) by (simp flip: nat_advance add: nat_mono)
  then have "writes_inside s (s\<lparr>x_private := p, x_handy := h\<rparr>)"
    using assms(1-3) by (simp add: writes_inside_def xdrmem_ok_def)
  then show ?thesis
    by (simp add: confined_def f same_window_refl) (simp add: same_window_def window_def)
qed

lemma confined_skipI:
  assumes "xdrmem_ok s" "\<And>t. same_window s t \<Longrightarrow> f t = (t, r)"
  shows "confined f s"
  using assms by (intro confined_moveI [of s "x_private s" "x_handy s"]) (simp_all add: same_window_stream)

lemma confined_advanceI:
  assumes "xdrmem_ok s" "n \<le> x_handy s" "\<And>t. same_window s t \<Longrightarrow> f t = (advance n t, r)"
  shows "confined f s"
proof (rule confined_moveI)
  show "x_private s + uint n + uint (x_handy s - n) \<le> x_private s + uint (x_handy s)"
    using assms(2) by (simp add: uint_minus_simple_alt)
  show "f t = (t\<lparr>x_private := x_private s + uint n, x_handy := x_handy s - n\<rparr>, r)" if "same_window s t" for t
    using that assms(3) [OF that] same_window_stream [OF assms(1) that] by (simp add: advance_def)
qed (use assms(1) in simp_all)

lemma window_store:
  assumes "xdrmem_ok s" "length bs \<le> unat (x_handy s)" "same_window s t"
  shows "window s (advance n (store bs t)) = bs @ drop (length bs) (window s s)"
proof -
  note t = same_window_stream [OF assms(1,3)]
  have "window s (advance n (store bs t)) = xdrmem_ahead (store bs t)"
    by (simp add: window_def xdrmem_ahead_def advance_def store_def t)
  then show ?thesis
    using store_stream(3) [OF t(1)] assms(2) by (simp add: t) (simp add: xdrmem_ahead_def window_def)
qed

lemma confined_storeI:
  assumes ok: "xdrmem_ok s" and n: "length bs \<le> unat n" "n \<le> x_handy s"
    and f: "\<And>t. same_window s t \<Longrightarrow> f t = (advance n (store bs t), r)"
  shows "confined f s"
proof -
  have len: "length bs \<le> unat (x_handy s)" "unat n \<le> unat (x_handy s)"
    using n by (simp_all add: word_le_nat_alt)
  have st: "xdrmem_ok (store bs s)" "x_handy (store bs s) = x_handy s"
    using store_stream [OF ok] len by simp_all
  have "writes_inside s (advance n (store bs s))"
    using advance_stream(1) [of "store bs s" n] st len n ok
    by (auto simp: writes_inside_def advance_def store_def nth_write_at_outside uint_minus_simple_alt xdrmem_ok_def)
  moreover have "x_private (advance n (store bs t)) = x_private s + uint n"
    "x_handy (advance n (store bs t)) = x_handy s - n" if "same_window s t" for t
    using same_window_stream [OF ok that] by (simp_all add: advance_def store_def)
  ultimately show ?thesis
    by (simp add: confined_def f same_window_refl window_store [OF ok len(1)])
qed

lemma confined_getlong: "xdrmem_ok s \<Longrightarrow> confined xdrmem_getlong_aligned s"
proof (cases "length (xdrmem_ahead s) < 4")
  case True
  assume ok: "xdrmem_ok s"
  then show ?thesis
    using True by (intro confined_skipI [where r = None]) (simp_all add: getlong_aligned_eq same_window_stream)
next
  case False
  assume ok: "xdrmem_ok s"
  then show ?thesis
    using False by (intro confined_advanceI [where n = 4])
      (simp_all add: getlong_aligned_eq same_window_stream length_xdrmem_ahead word_le_nat_alt)
qed

lemma confined_putlong: "xdrmem_ok s \<Longrightarrow> confined (\<lambda>s. xdrmem_putlong_aligned s l) s"
proof (cases "length (xdrmem_ahead s) < 4")
  case True
  assume ok: "xdrmem_ok s"
  then show ?thesis
    using True by (intro confined_skipI [where r = False]) (simp_all add: putlong_aligned_eq same_window_stream)
next
  case False
  assume ok: "xdrmem_ok s"
  then show ?thesis
    using False by (intro confined_storeI [where n = 4 and bs = "be32 (ucast l)" and r = True])
      (simp_all add: putlong_aligned_eq same_window_stream length_xdrmem_ahead word_le_nat_alt)
qed

lemma confined_getbytes: "xdrmem_ok s \<Longrightarrow> confined (\<lambda>s. xdrmem_getbytes s n) s"
proof (cases "length (xdrmem_ahead s) < unat n")
  case True
  assume ok: "xdrmem_ok s"
  then show ?thesis
    using True by (intro confined_skipI [where r = None]) (simp_all add: getbytes_eq same_window_stream)
next
  case False
  assume ok: "xdrmem_ok s"
  then show ?thesis
    using False by (intro confined_advanceI [where n = n])
      (simp_all add: getbytes_eq same_window_stream length_xdrmem_ahead word_le_nat_alt)
qed

lemma confined_putbytes: "xdrmem_ok s \<Longrightarrow> confined (\<lambda>s. xdrmem_putbytes s bs n) s"
proof (cases "length (xdrmem_ahead s) < unat n")
  case True
  assume ok: "xdrmem_ok s"
  then show ?thesis
    using True by (intro confined_skipI [where r = False]) (simp_all add: putbytes_eq same_window_stream)
next
  case False
  assume ok: "xdrmem_ok s"
  then show ?thesis
    using False by (intro confined_storeI [where n = n and bs = "take (unat n) bs" and r = True])
      (simp_all add: putbytes_eq same_window_stream length_xdrmem_ahead word_le_nat_alt)
qed

lemma confined_setpos: 
  assumes ok: "xdrmem_ok s"
  shows "confined (\<lambda>s. xdrmem_setpos s pos) s"
proof (cases "uint pos > x_private s + uint (x_handy s)")
  case True
  with ok show ?thesis
    by (intro confined_skipI [where r = False]) (simp_all add: xdrmem_setpos_def same_window_stream)
next
  case False
  define d where "d = x_private s + uint (x_handy s) - uint pos"
  have "0 \<le> d"
    using False by (simp add: d_def)
  then have "uint (word_of_int d :: u32) \<le> d"
    by (simp add: uint_word_of_int_eq take_bit_eq_mod zmod_le_nonneg_dividend)
  with ok False show ?thesis
    by (intro confined_moveI [where p = "uint pos" and h = "word_of_int d" and r = True])
      (simp_all add: xdrmem_setpos_def same_window_stream Let_def, simp_all add: d_def)
qed

lemma confined_inline: "xdrmem_ok s \<Longrightarrow> confined (\<lambda>s. xdrmem_inline_aligned s n) s"
proof (cases "n \<le> x_handy s")
  case True
  assume ok: "xdrmem_ok s"
  then show ?thesis
    using True by (intro confined_advanceI [where n = n and r = "Some (x_private s)"])
      (simp_all add: xdrmem_inline_aligned_def same_window_stream advance_def)
next
  case False
  assume ok: "xdrmem_ok s"
  then show ?thesis
    using False by (intro confined_skipI [where r = None])
      (simp_all add: xdrmem_inline_aligned_def same_window_stream)
qed

lemma control_peek_eq:
  assumes "xdrmem_ok s"
  shows "xdrmem_control s XDR_PEEK =
     (if length (xdrmem_ahead s) < 4 then (s, None) else (s, Some (Peeked (of_be32 (take 4 (xdrmem_ahead s))))))"
proof -
  have "x_handy s < 4 \<longleftrightarrow> length (xdrmem_ahead s) < 4"
    using length_xdrmem_ahead [OF assms] by (simp add: word_less_nat_alt)
  moreover have "read_ptr (x_mem s) (x_private s) 4 = take 4 (xdrmem_ahead s)"
    if "\<not> length (xdrmem_ahead s) < 4"
    using that length_xdrmem_ahead [OF assms] assms by (simp add: xdrmem_ahead_def read_at_def)
  ultimately show ?thesis
    by (simp add: xdrmem_control_def ntohl_of_le32 min_def)
qed

text \<open>
  \<^verbatim>\<open>XDR_SKIPBYTES\<close> with a length that is negative as an \<^verbatim>\<open>int\<close> passes the unsigned test
  only on a window of at least 2 GB.
\<close>

lemma sint_small: "unat (w :: u32) < 2 ^ 31 \<Longrightarrow> sint w = uint w"
proof -
  assume "unat w < 2 ^ 31"
  then have "nat (uint w) < 2 ^ 31"
    by simp
  then have w: "uint w < 2 ^ 31"
    by (simp only: nat_less_iff [OF uint_ge_0]) simp
  then have "\<not> bit (uint w) 31"
    by (simp add: bit_iff_odd)
  with w show "sint w = uint w"
    by (simp add: sint_uint signed_take_bit_eq_if_positive take_bit_int_eq_self)
qed

lemma confined_control:
  assumes ok: "xdrmem_ok s" and small: "(\<forall>n. req \<noteq> XDR_SKIPBYTES n) \<or> unat (x_handy s) < 2 ^ 31"
  shows "confined (\<lambda>s. xdrmem_control s req) s"
proof (cases req)
  case XDR_GET_BYTES_AVAIL
  with ok show ?thesis
    by (intro confined_skipI [where r = "Some (Avail True (x_handy s))"])
      (simp_all add: xdrmem_control_def same_window_stream)
next
  case XDR_PEEK
  let ?r = "if length (xdrmem_ahead s) < 4 then None else Some (Peeked (of_be32 (take 4 (xdrmem_ahead s))))"
  show ?thesis
    using ok XDR_PEEK by (intro confined_skipI [where r = ?r]) (simp_all add: control_peek_eq same_window_stream)
next
  case (XDR_SKIPBYTES l)
  show ?thesis
  proof (cases "x_handy s < RNDUP l")
    case True
    with ok XDR_SKIPBYTES show ?thesis
      by (intro confined_skipI [where r = None]) (simp_all add: xdrmem_control_def same_window_stream)
  next
    case False
    then have "sint (RNDUP l) = uint (RNDUP l)"
      using small XDR_SKIPBYTES by (intro sint_small) (simp add: word_less_nat_alt)
    with ok False XDR_SKIPBYTES show ?thesis
      by (intro confined_advanceI [where n = "RNDUP l" and r = "Some Skipped"])
        (simp_all add: xdrmem_control_def same_window_stream advance_def Let_def)
  qed
qed

lemma skip_backwards:
  assumes "0x80000004 \<le> x_handy s"
  shows "xdrmem_control s (XDR_SKIPBYTES 0x80000000) =
     (s\<lparr>x_handy := x_handy s - 0x80000004, x_private := x_private s - 0x7ffffffc\<rparr>, Some Skipped)"
proof -
  have r: "RNDUP 0x80000000 = 0x80000004"
    by (simp add: RNDUP_def signed_divide_int_def)
  have "sint (0x80000004 :: u32) = - 0x7ffffffc"
    by simp
  with assms show ?thesis
    by (simp add: xdrmem_control_def Let_def r)
qed

text \<open>
  C12. no memory-stream operation leaves its window.  On a stream whose window lies in its buffer, every
  operation writes only there and reads only there: its answer, the position and the bytes of the window
  afterwards depend on no byte outside the \<open>x_handy\<close> bytes at \<open>x_private\<close>, the bytes
  outside are kept, and the window it leaves lies in the buffer and ends no later.  For
  \<^verbatim>\<open>XDR_SKIPBYTES\<close> the window has to be below 2 GB: above, a negative length passes the
  unsigned test and moves the pointer back.
\<close>

theorem xdrmem_ops_confined:
  assumes "xdrmem_ok s"
  shows "confined xdrmem_getlong_aligned s \<and> confined xdrmem_getlong_unaligned s
    \<and> confined (\<lambda>s. xdrmem_putlong_aligned s l) s \<and> confined (\<lambda>s. xdrmem_putlong_unaligned s l) s
    \<and> confined (\<lambda>s. xdrmem_getbytes s n) s \<and> confined (\<lambda>s. xdrmem_putbytes s bs n) s
    \<and> confined (\<lambda>s. (s, xdrmem_getpos s)) s \<and> confined (\<lambda>s. xdrmem_setpos s n) s
    \<and> confined (\<lambda>s. xdrmem_inline_aligned s n) s \<and> confined (\<lambda>s. xdrmem_inline_unaligned s n) s
    \<and> confined (\<lambda>s. (xdrmem_destroy s, ())) s
    \<and> ((\<forall>n. req \<noteq> XDR_SKIPBYTES n) \<or> unat (x_handy s) < 2 ^ 31 \<longrightarrow> confined (\<lambda>s. xdrmem_control s req) s)"
proof -
  have "confined (\<lambda>s. (s, xdrmem_getpos s)) s" "confined (\<lambda>s. xdrmem_inline_unaligned s n) s"
    "confined (\<lambda>s. (xdrmem_destroy s, ())) s"
    using assms by (auto intro!: confined_skipI
        simp: xdrmem_getpos_def xdrmem_inline_unaligned_def xdrmem_destroy_def same_window_stream)
  then show ?thesis
    using assms confined_getlong confined_putlong confined_getbytes confined_putbytes confined_setpos
      confined_inline confined_control by (simp add: long_unaligned_eq)
qed

theorem xdrmem_ops_confined_witness:
  "confined (\<lambda>s. xdrmem_putlong_aligned s 9) \<lparr>x_base = 0, x_mem = [1, 2, 3, 4, 5, 6], x_private = 1, x_handy = 4\<rparr>
   \<and> confined (\<lambda>s. xdrmem_control s (XDR_SKIPBYTES 3)) \<lparr>x_base = 0, x_mem = [1, 2, 3, 4, 5, 6], x_private = 1, x_handy = 4\<rparr>
   \<and> fst (xdrmem_control \<lparr>x_base = 0, x_mem = [1, 2, 3, 4, 5, 6], x_private = 1, x_handy = 4\<rparr> (XDR_SKIPBYTES 3))
       = \<lparr>x_base = 0, x_mem = [1, 2, 3, 4, 5, 6], x_private = 5, x_handy = 0\<rparr>"
  using xdrmem_ops_confined [of "\<lparr>x_base = 0, x_mem = [1, 2, 3, 4, 5, 6], x_private = 1, x_handy = 4\<rparr>" 9]
  by (simp add: xdrmem_ok_def) (simp add: xdrmem_control_def RNDUP_def signed_divide_int_def)

text \<open>
  Positions.  On a stream over a buffer of less than 4 GB, \<^verbatim>\<open>XDR_SETPOS\<close> to a position in
  the buffer part the stream was created on makes \<^verbatim>\<open>XDR_GETPOS\<close> return that position, keeps the
  end of the window, and can be undone; to a position behind the end it fails without effect.
\<close>

lemma xdrmem_setpos_getpos:
  assumes "xdrmem_ok s" "length (x_mem s) < 2 ^ 32"
  shows "(uint pos \<le> x_private s + uint (x_handy s) \<longrightarrow>
      (\<exists>s'. xdrmem_setpos s pos = (s', True) \<and> xdrmem_getpos s' = pos \<and> x_mem s' = x_mem s
         \<and> x_private s' + uint (x_handy s') = x_private s + uint (x_handy s)
         \<and> xdrmem_setpos s' (xdrmem_getpos s) = (s, True)))
    \<and> (x_private s + uint (x_handy s) < uint pos \<longrightarrow> xdrmem_setpos s pos = (s, False))"
proof (intro conjI impI)
  let ?last = "x_private s + uint (x_handy s)"
  define hw :: u32 where "hw = word_of_int (?last - uint pos)"
  let ?s' = "s\<lparr>x_private := uint pos, x_handy := hw\<rparr>"
  have "nat ?last < 2 ^ 32"
    using assms by (simp add: xdrmem_ok_def)
  then have last: "0 \<le> x_private s" "?last < 2 ^ 32"
    using assms(1) nat_less_iff [of ?last "2 ^ 32"] by (simp_all del: nat_advance)
  assume pos: "uint pos \<le> ?last"
  have "0 \<le> ?last - uint pos" "?last - uint pos < 2 ^ 32"
    using pos last(2) uint_ge_0 [of pos] by linarith+
  then have h: "uint hw = ?last - uint pos"
    unfolding hw_def by (subst uint_word_of_int_eq) (simp add: take_bit_eq_mod)
  have "x_private s < 2 ^ 32"
    using last(2) uint_ge_0 [of "x_handy s"] by linarith
  with last(1) have g: "uint (xdrmem_getpos s) = x_private s"
    unfolding xdrmem_getpos_def by (subst uint_word_of_int_eq) (simp add: take_bit_eq_mod)
  have "xdrmem_setpos s pos = (?s', True)"
    using pos by (simp add: xdrmem_setpos_def Let_def hw_def)
  moreover have "xdrmem_setpos ?s' (xdrmem_getpos s) = (s, True)"
    using pos by (simp add: xdrmem_setpos_def Let_def h g)
  ultimately show "\<exists>s'. xdrmem_setpos s pos = (s', True) \<and> xdrmem_getpos s' = pos \<and> x_mem s' = x_mem s
         \<and> x_private s' + uint (x_handy s') = ?last \<and> xdrmem_setpos s' (xdrmem_getpos s) = (s, True)"
    using pos h by (simp add: xdrmem_getpos_def)
qed (simp add: xdrmem_setpos_def)

lemma xdrmem_setpos_getpos_witness:
  "xdrmem_getpos (fst (xdrmem_setpos \<lparr>x_base = 0, x_mem = [1, 2, 3, 4], x_private = 3, x_handy = 1\<rparr> 2)) = 2"
  using xdrmem_setpos_getpos [of "\<lparr>x_base = 0, x_mem = [1, 2, 3, 4], x_private = 3, x_handy = 1\<rparr>" 2]
  by (auto simp: xdrmem_ok_def)

text \<open>
  discriminated unions survive the wire.  The discriminant selects the first choice with its value,
  else the default; the union is encoded as the discriminant followed by the arm and decodes to the same
  discriminant and arm.  With neither a choice nor a default the filter returns FALSE.
\<close>

lemma xdr_union_roundtrip:
  assumes "arm_of choices dfault d = Some p" "mem_al.codec p f P" "mem_un.codec p f P" "P u"
    and "4 + length (f u) \<le> unat sz" "unat sz \<le> length mem"
  shows "\<exists>mem'. xdrmem_encode addr mem sz (xdr_union choices dfault) (d, u) = Some mem'
     \<and> xdrmem_decode addr' mem' sz (xdr_union choices dfault) (d0, u0) = Some (d, u)"
proof (rule session_roundtrip [where bs = "be32 d @ f u"])
  show "mem_al.enc (xdr_union choices dfault) (d, u) (be32 d @ f u)"
    "mem_al.dec (xdr_union choices dfault) (d0, u0) (be32 d @ f u) (d, u)"
    using assms(2,4) mem_al.enc_union [OF assms(1)] mem_al.dec_union [OF assms(1)]
    by (auto simp: mem_al.codec_def)
  show "mem_un.enc (xdr_union choices dfault) (d, u) (be32 d @ f u)"
    "mem_un.dec (xdr_union choices dfault) (d0, u0) (be32 d @ f u) (d, u)"
    using assms(3,4) mem_un.enc_union [OF assms(1)] mem_un.dec_union [OF assms(1)]
    by (auto simp: mem_un.codec_def)
qed (use assms(5,6) in simp_all)

text \<open>Decoding the count at the start of a buffer that holds one.\<close>

lemma decode_count:
  assumes "unat sz \<le> length mem" "4 \<le> unat sz"
  shows "xdr_u_int (xdrmem_create addr mem sz XDR_DECODE) v =
     ((xdrmem_create addr mem sz XDR_DECODE)\<lparr>x_stream := advance 4 (fresh addr mem sz)\<rparr>, of_be32 (take 4 mem), True)"
proof -
  note fr = fresh_stream [OF assms(1), of addr]
  have "xdrmem_getlong_aligned (fresh addr mem sz) =
      (advance 4 (fresh addr mem sz), Some (ucast (of_be32 (take 4 mem))))"
    using assms by (simp add: getlong_aligned_eq [OF fr(1)] fr(3) min_def)
  moreover have "ucast (ucast w :: u64) = (w :: u32)" for w
    by (rule bit_word_eqI) (simp add: bit_simps)
  ultimately show ?thesis
    by (simp add: xdr_u_int_def xdr_integer_def XDR_GETLONG_def xdrmem_create_def xdrmem_ops_aligned_def
        xdrmem_ops_unaligned_def long_unaligned_eq fresh_def)
qed

lemma string_null_iff:
  assumes "unat sz \<le> length mem" "4 \<le> unat sz"
    and "xdr_string mem_alloc (xdrmem_create addr mem sz XDR_DECODE) None maxsize = (xdrs', cp, b)"
  shows "b \<and> cp = None \<longleftrightarrow> of_be32 (take 4 mem) = UINT_MAX \<and> maxsize = UINT_MAX"
    "b \<and> cp = None \<Longrightarrow> x_stream xdrs' = advance 4 (fresh addr mem sz)"
proof -
  let ?c = "of_be32 (take 4 mem)"
  have op: "x_op (xdrmem_create addr mem sz XDR_DECODE) = XDR_DECODE"
    by (simp add: xdrmem_create_def)
  have wrap: "?c + 1 = 0 \<longleftrightarrow> ?c = UINT_MAX"
    by (metis add_eq_0_iff2 eq_neg_iff_add_eq_0)
  have max: "\<not> maxsize < UINT_MAX \<longleftrightarrow> maxsize = UINT_MAX"
    by (simp add: not_less word_order.extremum_unique)
  show "b \<and> cp = None \<longleftrightarrow> ?c = UINT_MAX \<and> maxsize = UINT_MAX"
    "b \<and> cp = None \<Longrightarrow> x_stream xdrs' = advance 4 (fresh addr mem sz)"
    using assms(3) unfolding xdr_string_def
    by (auto simp: op decode_count [OF assms(1,2)] Let_def wrap max split: if_splits option.splits prod.splits)
qed

text \<open>
  C14. \<^verbatim>\<open>xdr_string\<close> and \<^verbatim>\<open>xdr_wrapstring\<close> report success without a string exactly when
  the count wraps.  Decoding into a null pointer from any buffer with a count, the filter returns TRUE with the
  pointer still null if and only if the count on the wire is \<^verbatim>\<open>UINT_MAX\<close> and the bound lets it pass, as
  the one of \<^verbatim>\<open>xdr_wrapstring\<close> does: \<^verbatim>\<open>nodesize = size + 1\<close> is then 0.  Only the four
  bytes of the count have been consumed, and the buffer is as it was, whatever the allocator would have answered.
\<close>

theorem xdr_wrapstring_count_wraps:
  assumes "unat sz \<le> length mem" "4 \<le> unat sz"
  shows "(case xdr_string mem_alloc (xdrmem_create addr mem sz XDR_DECODE) None maxsize of (xdrs', cp, b) \<Rightarrow>
        (b \<and> cp = None \<longleftrightarrow> of_be32 (take 4 mem) = UINT_MAX \<and> maxsize = UINT_MAX))
    \<and> (case xdr_wrapstring mem_alloc (xdrmem_create addr mem sz XDR_DECODE) None of (xdrs', cp, b) \<Rightarrow>
        (b \<and> cp = None \<longleftrightarrow> of_be32 (take 4 mem) = UINT_MAX)
        \<and> (b \<and> cp = None \<longrightarrow> x_private (x_stream xdrs') = 4 \<and> x_handy (x_stream xdrs') = sz - 4
             \<and> x_mem (x_stream xdrs') = mem))"
proof -
  obtain x1 cp1 b1 where run1: "xdr_string mem_alloc (xdrmem_create addr mem sz XDR_DECODE) None maxsize = (x1, cp1, b1)"
    by (cases "xdr_string mem_alloc (xdrmem_create addr mem sz XDR_DECODE) None maxsize") auto
  obtain x2 cp2 b2 where run2: "xdr_string mem_alloc (xdrmem_create addr mem sz XDR_DECODE) None (- 1) = (x2, cp2, b2)"
    by (cases "xdr_string mem_alloc (xdrmem_create addr mem sz XDR_DECODE) None (- 1)") auto
  from string_null_iff [OF assms run2] have "b2 \<and> cp2 = None \<longleftrightarrow> of_be32 (take 4 mem) = UINT_MAX"
    "b2 \<and> cp2 = None \<longrightarrow> x_private (x_stream x2) = 4 \<and> x_handy (x_stream x2) = sz - 4 \<and> x_mem (x_stream x2) = mem"
    by (auto simp: advance_def fresh_def)
  with string_null_iff(1) [OF assms run1] show ?thesis
    unfolding xdr_wrapstring_def run1 run2 prod.case by (intro conjI)
qed

theorem xdr_wrapstring_count_wraps_witness:
  "\<exists>xdrs'. xdr_wrapstring (\<lambda>_. None) (xdrmem_create 3 [255, 255, 255, 255, 7] 5 XDR_DECODE) None = (xdrs', None, True)
     \<and> x_private (x_stream xdrs') = 4"
  using xdr_wrapstring_count_wraps [where sz = 5 and mem = "[255, 255, 255, 255, 7]" and mem_alloc = "\<lambda>_. None" and addr = 3 and maxsize = 0]
  by (auto simp: of_be32_def of_le32_def split: prod.splits)

end
