(* ===== verification/CLib.thy ===== *)
theory CLib
  imports Prelude
begin

text \<open>
  The part of the C standard library that the benchmark programs call, on strings as character
  lists without their terminator: buffered lines (\<^verbatim>\<open>fgets\<close>), bounded and unbounded appends
  (\<^verbatim>\<open>snprintf\<close>, \<^verbatim>\<open>strcat\<close>), tokens (\<^verbatim>\<open>strtok\<close>), searches and decimal numbers.
  The theory \<open>CString\<close> models the routines of the C library in the tree at the level of memory
  and shows that they compute these functions.  An \<open>option\<close> result \<open>None\<close> of \<open>strcat\<close> and
  \<open>atoi\<close> is undefined behaviour of the C call (a write past the buffer, signed overflow).
\<close>

section \<open>Strings in buffers\<close>

text \<open>What a C routine sees of a buffer: the characters before the first NUL.\<close>

definition c_str :: "string \<Rightarrow> string" where
  "c_str s = takeWhile (\<lambda>c. c \<noteq> CHR 0x00) s"

text \<open>\<^verbatim>\<open>snprintf (buf, cap, ...)\<close> keeps at most \<open>cap - 1\<close> characters of its output.\<close>

definition snprintf :: "nat \<Rightarrow> string \<Rightarrow> string" where
  "snprintf cap s = take (cap - 1) s"

text \<open>\<^verbatim>\<open>snprintf (q + strlen (q), sizeof (q) - strlen (q), ...)\<close>.\<close>

definition snprintf_at_end :: "nat \<Rightarrow> string \<Rightarrow> string \<Rightarrow> string" where
  "snprintf_at_end cap q s = q @ snprintf (cap - length q) s"

definition strcat :: "nat \<Rightarrow> string \<Rightarrow> string \<Rightarrow> string option" where
  "strcat cap q s = (if length q + length s < cap then Some (q @ s) else None)"

section \<open>Lines\<close>

fun fgets_chunk :: "nat \<Rightarrow> string \<Rightarrow> string" where
  "fgets_chunk 0 s = []"
| "fgets_chunk (Suc n) [] = []"
| "fgets_chunk (Suc n) (c # s) = (if c = CHR 0x0A then [c] else c # fgets_chunk n s)"

text \<open>
  \<^verbatim>\<open>fgets (buf, n, f)\<close> with the unread part of the stream: the characters stored in the
  buffer and what is left to read, \<open>None\<close> at the end of the file.
\<close>

definition fgets :: "nat \<Rightarrow> string \<Rightarrow> (string \<times> string) option" where
  "fgets n s = (if s = [] then None
     else Some (fgets_chunk (n - 1) s, drop (length (fgets_chunk (n - 1) s)) s))"

definition MAX_LINE_LENGTH :: nat where
  "MAX_LINE_LENGTH = 1024"

lemma length_fgets_chunk: "length (fgets_chunk n s) \<le> n"
  by (induction n s rule: fgets_chunk.induct) auto

lemma fgets_chunk_take: "take (length (fgets_chunk n s)) s = fgets_chunk n s"
  by (induction n s rule: fgets_chunk.induct) auto

lemma fgets_chunk_nonempty: "0 < n \<Longrightarrow> s \<noteq> [] \<Longrightarrow> fgets_chunk n s \<noteq> []"
  by (cases n; cases s) auto

text \<open>The strings that the successive calls of \<^verbatim>\<open>fgets\<close> leave in a line buffer.\<close>

function flines :: "string \<Rightarrow> string list" where
  "flines s = (case fgets MAX_LINE_LENGTH s of None \<Rightarrow> [] | Some (l, s') \<Rightarrow> c_str l # flines s')"
  by auto
termination
proof (relation "measure length")
  fix s y l s' assume "fgets MAX_LINE_LENGTH s = Some y" "(l, s') = y"
  then show "(s', s) \<in> measure length"
    using fgets_chunk_nonempty [of "MAX_LINE_LENGTH - 1" s]
    by (auto simp: fgets_def MAX_LINE_LENGTH_def split: if_splits)
qed simp

declare flines.simps [simp del]

lemma flines_Nil [simp]: "flines [] = []"
  by (simp add: flines.simps fgets_def)

lemma flines_step:
  "s \<noteq> [] \<Longrightarrow> flines s = c_str (fgets_chunk 1023 s) # flines (drop (length (fgets_chunk 1023 s)) s)"
  by (subst flines.simps) (simp add: fgets_def MAX_LINE_LENGTH_def)

lemma length_c_str: "length (c_str s) \<le> length s"
  by (simp add: c_str_def length_takeWhile_le)

lemma flines_length: "l \<in> set (flines s) \<Longrightarrow> length l < MAX_LINE_LENGTH"
proof (induction "length s" arbitrary: s rule: less_induct)
  case less
  show ?case
  proof (cases "s = []")
    case False
    have "length (c_str (fgets_chunk 1023 s)) < MAX_LINE_LENGTH"
      using le_trans [OF length_c_str length_fgets_chunk, of 1023 s] by (simp add: MAX_LINE_LENGTH_def)
    moreover have "length (drop (length (fgets_chunk 1023 s)) s) < length s"
      using False fgets_chunk_nonempty [of 1023 s] by simp
    ultimately show ?thesis
      using less.prems less.hyps [of "drop (length (fgets_chunk 1023 s)) s"] False
      by (auto simp: flines_step)
  qed (use less.prems in simp)
qed

text \<open>A file of short, terminated, NUL-free lines is read line by line.\<close>

lemma fgets_chunk_line:
  "CHR 0x0A \<notin> set l \<Longrightarrow> length l < n \<Longrightarrow> fgets_chunk n (l @ CHR 0x0A # s) = l @ [CHR 0x0A]"
proof (induction l arbitrary: n)
  case Nil then show ?case by (cases n) auto
next
  case (Cons a l) then show ?case by (cases n) auto
qed

definition text_line :: "string \<Rightarrow> bool" where
  "text_line l \<longleftrightarrow> CHR 0x0A \<notin> set l \<and> CHR 0x00 \<notin> set l \<and> length l < 1023"

lemma flines_text:
  assumes "list_all text_line ls"
  shows "flines (concat (map (\<lambda>l. l @ [CHR 0x0A]) ls)) = map (\<lambda>l. l @ [CHR 0x0A]) ls"
  using assms
proof (induction ls)
  case (Cons l ls)
  have l: "CHR 0x0A \<notin> set l" "CHR 0x00 \<notin> set (l @ [CHR 0x0A])" "length l < 1023"
    using Cons.prems by (auto simp: text_line_def)
  have "c_str (l @ [CHR 0x0A]) = l @ [CHR 0x0A]"
    unfolding c_str_def using l(2) by (subst takeWhile_eq_all_conv) auto
  with l Cons show ?case by (simp add: flines_step fgets_chunk_line)
qed simp

section \<open>Tokens\<close>

text \<open>
  One call of \<^verbatim>\<open>strtok\<close> or \<^verbatim>\<open>strtok_r\<close> on the rest of the string: the token and what
  is left behind the delimiter that ended it.
\<close>

definition next_token :: "string \<Rightarrow> string \<Rightarrow> (string \<times> string) option" where
  "next_token ds s =
     (let b = dropWhile (\<lambda>c. c \<in> set ds) s in
      if b = [] then None
      else Some (takeWhile (\<lambda>c. c \<notin> set ds) b, drop 1 (dropWhile (\<lambda>c. c \<notin> set ds) b)))"

lemma next_token_shorter:
  assumes "next_token ds s = Some (t, s')"
  shows "length s' + length t \<le> length s" "t \<noteq> []" "length s' < length s"
proof -
  define b where "b = dropWhile (\<lambda>c. c \<in> set ds) s"
  have t: "b \<noteq> []" "t = takeWhile (\<lambda>c. c \<notin> set ds) b"
    "s' = drop 1 (dropWhile (\<lambda>c. c \<notin> set ds) b)"
    using assms by (auto simp: next_token_def b_def Let_def split: if_splits)
  have len: "length t + length (dropWhile (\<lambda>c. c \<notin> set ds) b) = length b"
    unfolding t(2) by (metis length_append takeWhile_dropWhile_id)
  have bs: "length b \<le> length s" by (simp add: b_def length_dropWhile_le)
  have "hd b \<notin> set ds" using t(1) hd_dropWhile [of "\<lambda>c. c \<in> set ds" s] by (simp add: b_def)
  with t show "t \<noteq> []" by (cases b) auto
  then show "length s' + length t \<le> length s" "length s' < length s"
    using len bs t(3) by (cases t; force)+
qed

function tokens :: "string \<Rightarrow> string \<Rightarrow> string list" where
  "tokens ds s = (case next_token ds s of None \<Rightarrow> [] | Some (t, s') \<Rightarrow> t # tokens ds s')"
  by auto
termination
  by (relation "measure (length \<circ> snd)") (auto dest: next_token_shorter)

declare tokens.simps [simp del]

lemma tokens_Nil [simp]: "tokens ds [] = []"
  by (simp add: tokens.simps next_token_def)

lemma tokens_nonempty: "t \<in> set (tokens ds s) \<Longrightarrow> t \<noteq> []"
proof (induction ds s rule: tokens.induct)
  case (1 ds s)
  show ?case
  proof (cases "next_token ds s")
    case None
    then have "tokens ds s = []" by (subst tokens.simps) simp
    with 1(2) show ?thesis by simp
  next
    case (Some p)
    obtain u s' where p: "p = (u, s')" by force
    have "tokens ds s = u # tokens ds s'" using Some p by (subst tokens.simps) simp
    with 1(2) 1(1) [OF Some p [symmetric]] next_token_shorter(2) [of ds s u s'] Some p
    show ?thesis by auto
  qed
qed

lemma next_token_rest:
  assumes "next_token ds s = Some (t, s')" "s' \<noteq> []"
  shows "length t + length s' < length s"
proof -
  define b where "b = dropWhile (\<lambda>c. c \<in> set ds) s"
  have b: "t = takeWhile (\<lambda>c. c \<notin> set ds) b" "s' = drop 1 (dropWhile (\<lambda>c. c \<notin> set ds) b)"
    using assms(1) by (auto simp: next_token_def b_def Let_def split: if_splits)
  have "length s' < length (dropWhile (\<lambda>c. c \<notin> set ds) b)"
    using assms(2) unfolding b(2) by (cases "dropWhile (\<lambda>c. c \<notin> set ds) b") auto
  moreover have "length t + length (dropWhile (\<lambda>c. c \<notin> set ds) b) = length b"
    unfolding b(1) by (metis length_append takeWhile_dropWhile_id)
  moreover have "length b \<le> length s" by (simp add: b_def length_dropWhile_le)
  ultimately show ?thesis by linarith
qed

lemma tokens_total_length: "sum_list (map length (tokens ds s)) + length (tokens ds s) \<le> length s + 1"
proof (induction ds s rule: tokens.induct)
  case (1 ds s)
  show ?case
  proof (cases "next_token ds s")
    case (Some p)
    obtain t s' where p: "p = (t, s')" by force
    have eq: "tokens ds s = t # tokens ds s'" using Some p by (subst tokens.simps) simp
    show ?thesis
    proof (cases "s' = []")
      case True
      with next_token_shorter(1) [of ds s t s'] Some p show ?thesis by (simp add: eq)
    next
      case False
      with 1 [OF Some p [symmetric]] next_token_rest [of ds s t s'] Some p show ?thesis by (simp add: eq)
    qed
  qed (subst (1 2) tokens.simps, simp)
qed

text \<open>Fields without a delimiter and not empty are the tokens of the joined line.\<close>

lemma tokens_append:
  assumes "f \<noteq> []" "\<forall>c \<in> set f. c \<notin> set ds" "d \<in> set ds"
  shows "tokens ds (f @ d # s) = f # tokens ds s"
proof -
  have "dropWhile (\<lambda>c. c \<in> set ds) (f @ d # s) = f @ d # s" using assms by (cases f) auto
  moreover have "takeWhile (\<lambda>c. c \<notin> set ds) (f @ d # s) = f" using assms by (simp add: takeWhile_append2)
  moreover have "dropWhile (\<lambda>c. c \<notin> set ds) (f @ d # s) = d # s" using assms by (simp add: dropWhile_append2)
  ultimately have "next_token ds (f @ d # s) = Some (f, s)" using assms(1) by (simp add: next_token_def)
  then show ?thesis by (subst tokens.simps) simp
qed

lemma tokens_single:
  assumes "f \<noteq> []" "\<forall>c \<in> set f. c \<notin> set ds"
  shows "tokens ds f = [f]"
proof -
  have "dropWhile (\<lambda>c. c \<in> set ds) f = f" using assms by (cases f) auto
  moreover have "takeWhile (\<lambda>c. c \<notin> set ds) f = f" using assms by (simp add: takeWhile_eq_all_conv)
  moreover have "dropWhile (\<lambda>c. c \<notin> set ds) f = []"
    using assms by (subst dropWhile_eq_Nil_conv) auto
  ultimately have "next_token ds f = Some (f, [])"
    unfolding next_token_def Let_def using assms(1) by (simp del: dropWhile_eq_Nil_conv)
  then show ?thesis by (subst tokens.simps) simp
qed

section \<open>Searches\<close>

text \<open>\<^verbatim>\<open>strstr\<close>: the first suffix of the haystack that begins with the needle.\<close>

fun strstr :: "string \<Rightarrow> string \<Rightarrow> string option" where
  "strstr [] n = (if n = [] then Some [] else None)"
| "strstr (c # h) n = (if take (length n) (c # h) = n then Some (c # h) else strstr h n)"

text \<open>\<^verbatim>\<open>strrchr (s, c) - s\<close>: the index of the last occurrence.\<close>

fun strrchr_index :: "string \<Rightarrow> char \<Rightarrow> nat option" where
  "strrchr_index [] c = None"
| "strrchr_index (a # s) c =
     (case strrchr_index s c of
        Some i \<Rightarrow> Some (Suc i)
      | None \<Rightarrow> if a = c then Some 0 else None)"

lemma strrchr_index_None: "strrchr_index s c = None \<longleftrightarrow> c \<notin> set s"
  by (induction s) (auto split: option.splits)

lemma strstr_Some: "(\<exists>r. strstr h n = Some r) \<longleftrightarrow> (\<exists>p q. h = p @ n @ q)"
proof (induction h)
  case (Cons c h)
  have "(\<exists>p q. c # h = p @ n @ q) \<longleftrightarrow> (\<exists>q. c # h = n @ q) \<or> (\<exists>p q. h = p @ n @ q)"
    by (metis append_Cons append_Nil list.inject neq_Nil_conv)
  moreover have "take (length n) (c # h) = n \<longleftrightarrow> (\<exists>q. c # h = n @ q)"
    by (metis append_eq_conv_conj append_take_drop_id)
  ultimately show ?case using Cons by (auto split: if_splits)
qed auto

lemma strstr_mem: "strstr h n = Some r \<Longrightarrow> c \<in> set n \<Longrightarrow> c \<in> set h"
  using strstr_Some [of h n] by auto

section \<open>Decimal numbers\<close>

definition digit :: "nat \<Rightarrow> char" where
  "digit d = char_of (48 + d)"

fun dec_nat :: "nat \<Rightarrow> string" where
  "dec_nat n = (if n < 10 then [digit n] else dec_nat (n div 10) @ [digit (n mod 10)])"

declare dec_nat.simps [simp del]

text \<open>A code equation whose recursive call is evaluated only when it is needed.\<close>

lemma dec_nat_code [code]:
  "dec_nat n = (case n < 10 of True \<Rightarrow> [digit n] | False \<Rightarrow> dec_nat (n div 10) @ [digit (n mod 10)])"
  by (simp add: dec_nat.simps split: bool.splits)

text \<open>The conversion \<^verbatim>\<open>%d\<close>.\<close>

definition dec :: "int \<Rightarrow> string" where
  "dec i = (if i < 0 then CHR ''-'' # dec_nat (nat (- i)) else dec_nat (nat i))"

definition isspace :: "char \<Rightarrow> bool" where
  "isspace c = (let n = of_char c :: nat in n = 32 \<or> 9 \<le> n \<and> n \<le> 13)"

definition isdigit :: "char \<Rightarrow> bool" where
  "isdigit c = (let n = of_char c :: nat in 48 \<le> n \<and> n \<le> 57)"

fun atoi_digits :: "int \<Rightarrow> string \<Rightarrow> int option" where
  "atoi_digits n [] = Some n"
| "atoi_digits n (c # s) =
     (if isdigit c then
        (let m = 10 * n - (int (of_char c) - 48) in
         if m < - (2 ^ 31) then None else atoi_digits m s)
      else Some n)"

definition atoi :: "string \<Rightarrow> int option" where
  "atoi s =
     (let s = dropWhile isspace s;
          neg = (s \<noteq> [] \<and> hd s = CHR ''-'');
          s = (if s \<noteq> [] \<and> (hd s = CHR ''-'' \<or> hd s = CHR ''+'') then tl s else s) in
      Option.bind (atoi_digits 0 s) (\<lambda>n.
        if neg then Some n else if n = - (2 ^ 31) then None else Some (- n)))"

end
