(* ===== verification/Harness.thy ===== *)
theory Harness
  imports CLib "HOL-Library.Signed_Division"
begin

text \<open>
  The TPC-H benchmark program (\<^verbatim>\<open>baremetal/main.c\<close>, \<^verbatim>\<open>docker/main.c\<close>,
  \<^verbatim>\<open>nanos/main.c\<close>).  Apart from \<^verbatim>\<open>main\<close> the functions of the three files have the same
  text up to constants, so each is one definition that takes the constants as a \<open>target\<close> where it
  depends on them.  \<^verbatim>\<open>main\<close> is translated from each file on its own (\<open>baremetal_main\<close>,
  \<open>docker_main\<close>, \<open>nanos_main\<close>), and \<open>main T\<close> is the common form the proofs work on.  SQLite, the clock and the removal of
  files are outside the sources: they are the fields of a \<open>platform\<close>, over an abstract environment.
  The \<open>world\<close> holds that environment, the data files, the number of open streams and database
  connections and the trace of everything the program asked of its surroundings.  A function of the
  program returns \<open>None\<close> when the C code has undefined behaviour (a write past a buffer, a
  difference with a null pointer, signed overflow).
\<close>

section \<open>Surroundings\<close>

type_synonym callback_fn = "string list \<Rightarrow> string list \<Rightarrow> int"

record 'e platform =
  open_fn :: "string \<Rightarrow> 'e \<Rightarrow> int \<times> 'e"
  exec_fn :: "callback_fn option \<Rightarrow> string \<Rightarrow> 'e \<Rightarrow> int \<times> 'e"
  errmsg_fn :: "'e \<Rightarrow> string"
  exec_msg_fn :: "'e \<Rightarrow> string"
  close_fn :: "'e \<Rightarrow> 'e"
  remove_fn :: "string \<Rightarrow> 'e \<Rightarrow> int \<times> 'e"
  clock_fn :: "'e \<Rightarrow> int \<times> 'e"
  gettime_fn :: "'e \<Rightarrow> int \<times> int"
  seconds_fn :: "int \<Rightarrow> string"

datatype event =
    Open string int
  | Exec string int
  | Close
  | Remove string int
  | Out string
  | Err string

record 'e world =
  env :: 'e
  files :: "string \<Rightarrow> string option"
  dirs :: "string \<Rightarrow> string list option"
  streams :: int
  conns :: int
  trace :: "event list"

record target =
  QUERY_DIR :: string
  TABLES_DIR :: string
  PRELOADS :: int
  OPEN_MSG :: "string option"

definition SQLITE_OK :: int where
  "SQLITE_OK = 0"

definition MAX_QUERY_LENGTH :: nat where
  "MAX_QUERY_LENGTH = 10000"

definition NUM_QUERIES :: int where
  "NUM_QUERIES = 22"

abbreviation nl :: string where
  "nl \<equiv> [CHR 0x0A]"

abbreviation quote :: "string \<Rightarrow> string" where
  "quote t \<equiv> CHR 0x27 # t @ [CHR 0x27]"

definition emit :: "event \<Rightarrow> 'e world \<Rightarrow> 'e world" where
  "emit ev w = w\<lparr>trace := trace w @ [ev]\<rparr>"

definition sqlite3_open :: "'e platform \<Rightarrow> string \<Rightarrow> 'e world \<Rightarrow> int \<times> 'e world" where
  "sqlite3_open P name w =
     (let (rc, e) = open_fn P name (env w) in
      (rc, emit (Open name rc) (w\<lparr>env := e, conns := conns w + 1\<rparr>)))"

definition sqlite3_exec :: "'e platform \<Rightarrow> callback_fn option \<Rightarrow> string \<Rightarrow> 'e world \<Rightarrow> int \<times> 'e world" where
  "sqlite3_exec P cb sql w =
     (let (rc, e) = exec_fn P cb sql (env w) in (rc, emit (Exec sql rc) (w\<lparr>env := e\<rparr>)))"

definition sqlite3_close :: "'e platform \<Rightarrow> 'e world \<Rightarrow> 'e world" where
  "sqlite3_close P w = emit Close (w\<lparr>env := close_fn P (env w), conns := conns w - 1\<rparr>)"

definition remove_file :: "'e platform \<Rightarrow> string \<Rightarrow> 'e world \<Rightarrow> int \<times> 'e world" where
  "remove_file P name w =
     (let (rc, e) = remove_fn P name (env w) in (rc, emit (Remove name rc) (w\<lparr>env := e\<rparr>)))"

definition clock :: "'e platform \<Rightarrow> 'e world \<Rightarrow> int \<times> 'e world" where
  "clock P w = (let (t, e) = clock_fn P (env w) in (t, w\<lparr>env := e\<rparr>))"

definition errmsg :: "'e platform \<Rightarrow> 'e world \<Rightarrow> string" where
  "errmsg P w = errmsg_fn P (env w)"

definition fopen :: "string \<Rightarrow> 'e world \<Rightarrow> (string \<times> 'e world) option" where
  "fopen name w = map_option (\<lambda>s. (s, w\<lparr>streams := streams w + 1\<rparr>)) (files w name)"

definition fclose :: "'e world \<Rightarrow> 'e world" where
  "fclose w = w\<lparr>streams := streams w - 1\<rparr>"

definition opendir :: "string \<Rightarrow> 'e world \<Rightarrow> (string list \<times> 'e world) option" where
  "opendir name w = map_option (\<lambda>ns. (ns, w\<lparr>streams := streams w + 1\<rparr>)) (dirs w name)"

definition closedir :: "'e world \<Rightarrow> 'e world" where
  "closedir w = w\<lparr>streams := streams w - 1\<rparr>"

section \<open>Creating the tables\<close>

definition table_creations :: "string list" where
  "table_creations = [
     ''CREATE TABLE REGION (R_REGIONKEY INTEGER, R_NAME TEXT, R_COMMENT TEXT);'',
     ''CREATE TABLE NATION (N_NATIONKEY INTEGER, N_NAME TEXT, N_REGIONKEY INTEGER, N_COMMENT TEXT);'',
     ''CREATE TABLE PART (P_PARTKEY INTEGER, P_NAME TEXT, P_MFGR TEXT, P_BRAND TEXT, P_TYPE TEXT, P_SIZE INTEGER, P_CONTAINER TEXT, P_RETAILPRICE REAL, P_COMMENT TEXT);'',
     ''CREATE TABLE SUPPLIER (S_SUPPKEY INTEGER, S_NAME TEXT, S_ADDRESS TEXT, S_NATIONKEY INTEGER, S_PHONE TEXT, S_ACCTBAL REAL, S_COMMENT TEXT);'',
     ''CREATE TABLE PARTSUPP (PS_PARTKEY INTEGER, PS_SUPPKEY INTEGER, PS_AVAILQTY INTEGER, PS_SUPPLYCOST REAL, PS_COMMENT TEXT);'',
     ''CREATE TABLE CUSTOMER (C_CUSTKEY INTEGER, C_NAME TEXT, C_ADDRESS TEXT, C_NATIONKEY INTEGER, C_PHONE TEXT, C_ACCTBAL REAL, C_MKTSEGMENT TEXT, C_COMMENT TEXT);'',
     ''CREATE TABLE ORDERS (O_ORDERKEY INTEGER, O_CUSTKEY INTEGER, O_ORDERSTATUS TEXT, O_TOTALPRICE REAL, O_ORDERDATE TEXT, O_ORDERPRIORITY TEXT, O_CLERK TEXT, O_SHIPPRIORITY INTEGER, O_COMMENT TEXT);'',
     ''CREATE TABLE LINEITEM (L_ORDERKEY INTEGER, L_PARTKEY INTEGER, L_SUPPKEY INTEGER, L_LINENUMBER INTEGER, L_QUANTITY REAL, L_EXTENDEDPRICE REAL, L_DISCOUNT REAL, L_TAX REAL, L_RETURNFLAG TEXT, L_LINESTATUS TEXT, L_SHIPDATE TEXT, L_COMMITDATE TEXT, L_RECEIPTDATE TEXT, L_SHIPINSTRUCT TEXT, L_SHIPMODE TEXT, L_COMMENT TEXT);'']"

fun create_loop :: "'e platform \<Rightarrow> string list \<Rightarrow> 'e world \<Rightarrow> int \<times> 'e world" where
  "create_loop P [] w = (1, w)"
| "create_loop P (q # qs) w =
     (let (rc, w) = sqlite3_exec P None q w in
      if rc \<noteq> SQLITE_OK then (0, emit (Err (''Error creating table: '' @ errmsg P w @ nl)) w)
      else create_loop P qs w)"

definition createTables :: "'e platform \<Rightarrow> 'e world \<Rightarrow> int \<times> 'e world" where
  "createTables P w = create_loop P table_creations w"

section \<open>Loading the tables\<close>

text \<open>The token loop of a line: quotes up to \<open>num_columns - 1\<close> tokens into the query buffer.\<close>

fun token_loop :: "int \<Rightarrow> int \<Rightarrow> string list \<Rightarrow> string \<Rightarrow> string option" where
  "token_loop num_columns count [] q = Some q"
| "token_loop num_columns count (t # ts) q =
     (if count \<ge> num_columns - 1 then Some q
      else
        Option.bind (if count > 0 then strcat MAX_QUERY_LENGTH q '', '' else Some q) (\<lambda>q.
        Option.bind (strcat MAX_QUERY_LENGTH q [CHR 0x27]) (\<lambda>q.
        Option.bind (strcat MAX_QUERY_LENGTH q t) (\<lambda>q.
        Option.bind (strcat MAX_QUERY_LENGTH q [CHR 0x27]) (\<lambda>q.
          token_loop num_columns (count + 1) ts q)))))"

definition line_query :: "string \<Rightarrow> int \<Rightarrow> string \<Rightarrow> string option" where
  "line_query table_name num_columns line =
     Option.bind
       (token_loop num_columns 0 (tokens ''|'' line)
         (snprintf MAX_QUERY_LENGTH (''INSERT INTO '' @ table_name @ '' VALUES ('')))
       (\<lambda>q. strcat MAX_QUERY_LENGTH q '');'')"

text \<open>
  The loop over the lines of a file.  The flag is \<open>False\<close> when the function returns 0 from inside
  the loop, with the stream and the directory closed.
\<close>

fun line_loop :: "'e platform \<Rightarrow> string \<Rightarrow> int \<Rightarrow> string list \<Rightarrow> 'e world \<Rightarrow> (bool \<times> 'e world) option" where
  "line_loop P table_name num_columns [] w = Some (True, w)"
| "line_loop P table_name num_columns (line # ls) w =
     Option.bind (line_query table_name num_columns line) (\<lambda>query.
       let (rc, w) = sqlite3_exec P None query w in
       if rc \<noteq> SQLITE_OK
       then Some (False, closedir (fclose (emit (Err (''Error executing query: '' @ errmsg P w @ nl)) w)))
       else line_loop P table_name num_columns ls w)"

definition count_columns :: "string list \<Rightarrow> int" where
  "count_columns ls = (case ls of [] \<Rightarrow> 0 | l # _ \<Rightarrow> int (length (tokens ''|'' l)))"

definition load_file :: "target \<Rightarrow> 'e platform \<Rightarrow> string \<Rightarrow> 'e world \<Rightarrow> (bool \<times> 'e world) option" where
  "load_file T P d_name w =
     (let filepath = snprintf 256 (TABLES_DIR T @ d_name) in
      case fopen filepath w of
        None \<Rightarrow> Some (False, closedir (emit (Err (''Error opening table file '' @ filepath @ nl)) w))
      | Some (content, w) \<Rightarrow>
          Option.bind (strrchr_index d_name (CHR ''.'')) (\<lambda>k.
            let table_name = snprintf 256 (take k d_name);
                ls = flines content in
            Option.bind (line_loop P table_name (count_columns ls) (drop 1 ls) w) (\<lambda>(go, w).
              Some (go, if go then fclose w else w))))"

fun dir_loop :: "target \<Rightarrow> 'e platform \<Rightarrow> string list \<Rightarrow> 'e world \<Rightarrow> (bool \<times> 'e world) option" where
  "dir_loop T P [] w = Some (True, w)"
| "dir_loop T P (d_name # ds) w =
     (if strstr d_name ''.tbl'' \<noteq> None then
        Option.bind (load_file T P d_name w) (\<lambda>(go, w).
          if go then dir_loop T P ds w else Some (False, w))
      else dir_loop T P ds w)"

definition loadTables :: "target \<Rightarrow> 'e platform \<Rightarrow> 'e world \<Rightarrow> (int \<times> 'e world) option" where
  "loadTables T P w =
     (case opendir (TABLES_DIR T) w of
        None \<Rightarrow> Some (0, emit (Err (''Error opening tables directory '' @ TABLES_DIR T @ nl)) w)
      | Some (ds, w) \<Rightarrow>
          let (rc, w) = sqlite3_exec P None ''BEGIN TRANSACTION;'' w in
          if rc \<noteq> SQLITE_OK
          then Some (0, closedir (emit (Err (''Error starting transaction: '' @ errmsg P w @ nl)) w))
          else
            Option.bind (dir_loop T P ds w) (\<lambda>(go, w).
              if \<not> go then Some (0, w)
              else
                let (rc, w) = sqlite3_exec P None ''COMMIT;'' w in
                if rc \<noteq> SQLITE_OK
                then Some (0, closedir (emit (Err (''Error committing transaction: '' @ errmsg P w @ nl)) w))
                else Some (1, closedir w)))"

text \<open>
  The body of the loop of \<^verbatim>\<open>preLoadTables\<close>; the result of \<^verbatim>\<open>createTables\<close> is dropped.
\<close>

definition preload_once :: "target \<Rightarrow> 'e platform \<Rightarrow> int \<Rightarrow> 'e world \<Rightarrow> (bool \<times> 'e world) option" where
  "preload_once T P i w =
     (let db_filename = snprintf 256 (''database_'' @ dec i @ ''.db'');
          (rc, w) = sqlite3_open P db_filename w in
      if rc \<noteq> 0 then Some (False, emit (Err (''Can't open database: '' @ errmsg P w @ nl)) w)
      else
        let (_, w) = createTables P w;
            (start_load, w) = clock P w in
        Option.bind (loadTables T P w) (\<lambda>(ok, w).
          if ok = 0
          then Some (False, sqlite3_close P (emit (Err (''Error loading tables on iteration '' @ dec i @ nl)) w))
          else
            let (end_load, w) = clock P w;
                w = emit (Out (''load tables,'' @ dec i @ '','' @ seconds_fn P (end_load - start_load) @ '' s'' @ nl)) w;
                w = sqlite3_close P w;
                (rc, w) = remove_file P db_filename w in
            if rc \<noteq> 0
            then Some (False, emit (Err (''Error deleting database file '' @ db_filename @ nl)) w)
            else Some (True, w)))"

fun preload_loop :: "target \<Rightarrow> 'e platform \<Rightarrow> int list \<Rightarrow> 'e world \<Rightarrow> (int \<times> 'e world) option" where
  "preload_loop T P [] w = Some (1, w)"
| "preload_loop T P (i # ks) w =
     Option.bind (preload_once T P i w) (\<lambda>(go, w).
       if go then preload_loop T P ks w else Some (0, w))"

definition preLoadTables :: "target \<Rightarrow> 'e platform \<Rightarrow> 'e world \<Rightarrow> (int \<times> 'e world) option" where
  "preLoadTables T P w = preload_loop T P [1..PRELOADS T] w"

section \<open>Refreshing the sales data\<close>

text \<open>
  The token loop of \<^verbatim>\<open>refreshRF1\<close>: appends quoted tokens by \<^verbatim>\<open>snprintf\<close> until the
  counter, incremented after each one, exceeds \<open>last\<close>.
\<close>

fun refresh_loop :: "nat \<Rightarrow> nat \<Rightarrow> string list \<Rightarrow> string \<Rightarrow> string" where
  "refresh_loop last_col i [] q = q"
| "refresh_loop last_col i (t # ts) q =
     (let q = (if i > 0 then snprintf_at_end MAX_LINE_LENGTH q '', '' else q);
          q = snprintf_at_end MAX_LINE_LENGTH q (quote t) in
      if i + 1 > last_col then q else refresh_loop last_col (i + 1) ts q)"

definition orders_query :: "string \<Rightarrow> string" where
  "orders_query line =
     snprintf_at_end MAX_LINE_LENGTH
       (refresh_loop 8 0 (tokens ''|'' line) (snprintf MAX_LINE_LENGTH ''INSERT INTO ORDERS VALUES (''))
       '');''"

definition lineitem_query :: "string \<Rightarrow> string" where
  "lineitem_query line =
     snprintf_at_end MAX_LINE_LENGTH
       (refresh_loop 15 0 (tokens ''|'' line) (snprintf MAX_LINE_LENGTH ''INSERT INTO LINEITEM VALUES (''))
       '');''"

fun rf1_loop :: "'e platform \<Rightarrow> string list \<Rightarrow> string list \<Rightarrow> 'e world \<Rightarrow> bool \<times> 'e world" where
  "rf1_loop P (orders_line # os) (lineitem_line # ls) w =
     (let (rc, w) = sqlite3_exec P None (orders_query orders_line) w in
      if rc \<noteq> SQLITE_OK
      then (False, fclose (fclose (emit (Err (''Error executing ORDERS query: '' @ errmsg P w @ nl)) w)))
      else
        let (rc, w) = sqlite3_exec P None (lineitem_query lineitem_line) w in
        if rc \<noteq> SQLITE_OK
        then (False, fclose (fclose (emit (Err (''Error executing LINEITEM query: '' @ errmsg P w @ nl)) w)))
        else rf1_loop P os ls w)"
| "rf1_loop P _ _ w = (True, w)"

definition refreshRF1 :: "'e platform \<Rightarrow> string \<Rightarrow> string \<Rightarrow> 'e world \<Rightarrow> int \<times> 'e world" where
  "refreshRF1 P orders_filename lineitem_filename w =
     (let (rc, w) = sqlite3_exec P None ''BEGIN TRANSACTION;'' w in
      if rc \<noteq> SQLITE_OK
      then (0, emit (Err (''Error starting transaction: '' @ errmsg P w @ nl)) w)
      else case fopen orders_filename w of
        None \<Rightarrow> (0, emit (Err (''Error opening orders file '' @ orders_filename @ nl)) w)
      | Some (orders_file, w) \<Rightarrow>
          (case fopen lineitem_filename w of
             None \<Rightarrow> (0, fclose (emit (Err (''Error opening lineitem file '' @ lineitem_filename @ nl)) w))
           | Some (lineitem_file, w) \<Rightarrow>
               let (go, w) = rf1_loop P (flines orders_file) (flines lineitem_file) w in
               if \<not> go then (0, w)
               else
                 let (rc, w) = sqlite3_exec P None ''COMMIT;'' w in
                 if rc \<noteq> SQLITE_OK
                 then (0, emit (Err (''Error committing transaction: '' @ errmsg P w @ nl)) w)
                 else (1, fclose (fclose w))))"

text \<open>
  A line of delimiters only has no token; the null pointer is then printed as \<^verbatim>\<open>(null)\<close> by the
  C library.
\<close>

definition delete_query :: "string \<Rightarrow> string" where
  "delete_query line =
     snprintf_at_end MAX_LINE_LENGTH
       (snprintf MAX_LINE_LENGTH ''DELETE FROM ORDERS WHERE O_ORDERKEY ='')
       (quote (case tokens ''|'' line of [] \<Rightarrow> ''(null)'' | t # _ \<Rightarrow> t))"

fun rf2_loop :: "'e platform \<Rightarrow> string list \<Rightarrow> 'e world \<Rightarrow> bool \<times> 'e world" where
  "rf2_loop P [] w = (True, w)"
| "rf2_loop P (delete_line # ls) w =
     (let (rc, w) = sqlite3_exec P None (delete_query delete_line) w in
      if rc \<noteq> SQLITE_OK
      then (False, fclose (emit (Err (''Error executing delete query: '' @ errmsg P w @ nl)) w))
      else rf2_loop P ls w)"

definition refreshRF2 :: "'e platform \<Rightarrow> string \<Rightarrow> 'e world \<Rightarrow> int \<times> 'e world" where
  "refreshRF2 P delete_filename w =
     (let (rc, w) = sqlite3_exec P None ''BEGIN TRANSACTION;'' w in
      if rc \<noteq> SQLITE_OK
      then (0, emit (Err (''Error starting transaction: '' @ errmsg P w @ nl)) w)
      else case fopen delete_filename w of
        None \<Rightarrow> (0, emit (Err (''Error opening delete file '' @ delete_filename @ nl)) w)
      | Some (delete_file, w) \<Rightarrow>
          let (go, w) = rf2_loop P (flines delete_file) w in
          if \<not> go then (0, w)
          else
            let (rc, w) = sqlite3_exec P None ''COMMIT;'' w in
            if rc \<noteq> SQLITE_OK
            then (0, emit (Err (''Error committing transaction: '' @ errmsg P w @ nl)) w)
            else (1, fclose w))"

section \<open>Running the queries\<close>

definition callback :: callback_fn where
  "callback argv azColName = 0"

definition milliseconds :: "int \<Rightarrow> int \<Rightarrow> int" where
  "milliseconds tv_sec tv_nsec = tv_sec * 1000 + (tv_nsec sdiv 1000000)"

definition print_time :: "'e platform \<Rightarrow> 'e world \<Rightarrow> 'e world" where
  "print_time P w =
     (let (tv_sec, tv_nsec) = gettime_fn P (env w) in
      emit (Out (''boot finish timestamp: '' @ dec (milliseconds tv_sec tv_nsec) @ nl)) w)"

definition log_message :: "string \<Rightarrow> 'e world \<Rightarrow> 'e world" where
  "log_message message w = emit (Out (message @ nl)) w"

text \<open>One pass of the inner loop of \<^verbatim>\<open>main\<close>.\<close>

definition run_query :: "target \<Rightarrow> 'e platform \<Rightarrow> int \<Rightarrow> int \<Rightarrow> 'e world \<Rightarrow> 'e world" where
  "run_query T P itr i w =
     (let query_file = snprintf 256 (QUERY_DIR T @ ''query'' @ dec i @ ''.sql'') in
      case fopen query_file w of
        None \<Rightarrow> emit (Err (''Can't open query file '' @ query_file @ nl)) w
      | Some (content, w) \<Rightarrow>
          let query = c_str (take (MAX_QUERY_LENGTH - 1) content);
              w = fclose w;
              (t_start, w) = clock P w;
              (rc, w) = sqlite3_exec P (Some callback) query w;
              (t_end, w) = clock P w;
              w = emit (Out (dec itr @ '','' @ dec i @ '','' @ seconds_fn P (t_end - t_start) @ nl)) w in
          if rc \<noteq> SQLITE_OK then emit (Err (''SQL error: '' @ exec_msg_fn P (env w) @ nl)) w else w)"

definition run_iteration :: "target \<Rightarrow> 'e platform \<Rightarrow> int \<Rightarrow> 'e world \<Rightarrow> 'e world" where
  "run_iteration T P itr w = fold (run_query T P itr) [1..NUM_QUERIES] w"

definition main :: "target \<Rightarrow> 'e platform \<Rightarrow> string list \<Rightarrow> 'e world \<Rightarrow> (int \<times> 'e world) option" where
  "main T P argv w =
     (if length argv < 3 then
        Some (1, emit (Err (''Usage: '' @ (case argv of [] \<Rightarrow> ''(null)'' | a # _ \<Rightarrow> a)
                            @ '' [db_file] [num_iterations]'' @ nl)) w)
      else
        Option.bind (atoi (argv ! 2)) (\<lambda>num_iterations.
          let (rc, w) = sqlite3_open P (argv ! 1) w in
          if rc \<noteq> 0 then Some (1, emit (Err (''Can't open database: '' @ errmsg P w @ nl)) w)
          else if num_iterations = 2147483647 then None
          else
            let w = (case OPEN_MSG T of None \<Rightarrow> w | Some m \<Rightarrow> emit (Err m) w);
                w = emit (Out (''iteration,query,time(s)'' @ nl)) w;
                w = fold (run_iteration T P) [1..num_iterations] w in
            Some (0, sqlite3_close P w)))"

section \<open>The three programs\<close>

definition baremetal :: target where
  "baremetal = \<lparr>QUERY_DIR = ''../queries/'', TABLES_DIR = ''../tables/'', PRELOADS = 17,
     OPEN_MSG = Some (''Opened database successfully'' @ nl)\<rparr>"

definition docker :: target where
  "docker = \<lparr>QUERY_DIR = ''./queries/'', TABLES_DIR = ''./tables/'', PRELOADS = 50, OPEN_MSG = None\<rparr>"

definition nanos :: target where
  "nanos = \<lparr>QUERY_DIR = ''./queries/'', TABLES_DIR = ''./tables/'', PRELOADS = 17,
     OPEN_MSG = Some (''Opened database successfully'' @ nl)\<rparr>"

definition baremetal_createTables :: "'e platform \<Rightarrow> 'e world \<Rightarrow> int \<times> 'e world" where
  "baremetal_createTables = createTables"

definition baremetal_loadTables :: "'e platform \<Rightarrow> 'e world \<Rightarrow> (int \<times> 'e world) option" where
  "baremetal_loadTables = loadTables baremetal"

definition baremetal_preLoadTables :: "'e platform \<Rightarrow> 'e world \<Rightarrow> (int \<times> 'e world) option" where
  "baremetal_preLoadTables = preLoadTables baremetal"

definition baremetal_refreshRF1 :: "'e platform \<Rightarrow> string \<Rightarrow> string \<Rightarrow> 'e world \<Rightarrow> int \<times> 'e world" where
  "baremetal_refreshRF1 = refreshRF1"

definition baremetal_refreshRF2 :: "'e platform \<Rightarrow> string \<Rightarrow> 'e world \<Rightarrow> int \<times> 'e world" where
  "baremetal_refreshRF2 = refreshRF2"

definition baremetal_print_time :: "'e platform \<Rightarrow> 'e world \<Rightarrow> 'e world" where
  "baremetal_print_time = print_time"

definition baremetal_run_query :: "'e platform \<Rightarrow> int \<Rightarrow> int \<Rightarrow> 'e world \<Rightarrow> 'e world" where
  "baremetal_run_query P itr i w =
     (let query_file = snprintf 256 (''../queries/'' @ ''query'' @ dec i @ ''.sql'') in
      case fopen query_file w of
        None \<Rightarrow> emit (Err (''Can't open query file '' @ query_file @ nl)) w
      | Some (fp, w) \<Rightarrow>
          let query = c_str (take (MAX_QUERY_LENGTH - 1) fp);
              w = fclose w;
              (t_start, w) = clock P w;
              (rc, w) = sqlite3_exec P (Some callback) query w;
              (t_end, w) = clock P w;
              w = emit (Out (dec itr @ '','' @ dec i @ '','' @ seconds_fn P (t_end - t_start) @ nl)) w in
          if rc \<noteq> SQLITE_OK then emit (Err (''SQL error: '' @ exec_msg_fn P (env w) @ nl)) w else w)"

definition baremetal_main :: "'e platform \<Rightarrow> string list \<Rightarrow> 'e world \<Rightarrow> (int \<times> 'e world) option" where
  "baremetal_main P argv w =
     (if length argv < 3 then
        Some (1, emit (Err (''Usage: '' @ (case argv of [] \<Rightarrow> ''(null)'' | a # _ \<Rightarrow> a)
                            @ '' [db_file] [num_iterations]'' @ nl)) w)
      else
        Option.bind (atoi (argv ! 2)) (\<lambda>num_iterations.
          let (rc, w) = sqlite3_open P (argv ! 1) w in
          if rc \<noteq> 0 then Some (1, emit (Err (''Can't open database: '' @ errmsg P w @ nl)) w)
          else if num_iterations = 2147483647 then None
          else
            let w = emit (Err (''Opened database successfully'' @ nl)) w;
                w = emit (Out (''iteration,query,time(s)'' @ nl)) w;
                w = fold (\<lambda>itr. fold (baremetal_run_query P itr) [1..NUM_QUERIES]) [1..num_iterations] w in
            Some (0, sqlite3_close P w)))"

definition docker_createTables :: "'e platform \<Rightarrow> 'e world \<Rightarrow> int \<times> 'e world" where
  "docker_createTables = createTables"

definition docker_loadTables :: "'e platform \<Rightarrow> 'e world \<Rightarrow> (int \<times> 'e world) option" where
  "docker_loadTables = loadTables docker"

definition docker_preLoadTables :: "'e platform \<Rightarrow> 'e world \<Rightarrow> (int \<times> 'e world) option" where
  "docker_preLoadTables = preLoadTables docker"

definition docker_refreshRF1 :: "'e platform \<Rightarrow> string \<Rightarrow> string \<Rightarrow> 'e world \<Rightarrow> int \<times> 'e world" where
  "docker_refreshRF1 = refreshRF1"

definition docker_refreshRF2 :: "'e platform \<Rightarrow> string \<Rightarrow> 'e world \<Rightarrow> int \<times> 'e world" where
  "docker_refreshRF2 = refreshRF2"

definition docker_print_time :: "'e platform \<Rightarrow> 'e world \<Rightarrow> 'e world" where
  "docker_print_time = print_time"

definition docker_run_query :: "'e platform \<Rightarrow> int \<Rightarrow> int \<Rightarrow> 'e world \<Rightarrow> 'e world" where
  "docker_run_query P itr i w =
     (let query_file = snprintf 256 (''./queries/'' @ ''query'' @ dec i @ ''.sql'') in
      case fopen query_file w of
        None \<Rightarrow> emit (Err (''Can't open query file '' @ query_file @ nl)) w
      | Some (fp, w) \<Rightarrow>
          let query = c_str (take (MAX_QUERY_LENGTH - 1) fp);
              w = fclose w;
              (t_start, w) = clock P w;
              (rc, w) = sqlite3_exec P (Some callback) query w;
              (t_end, w) = clock P w;
              w = emit (Out (dec itr @ '','' @ dec i @ '','' @ seconds_fn P (t_end - t_start) @ nl)) w in
          if rc \<noteq> SQLITE_OK then emit (Err (''SQL error: '' @ exec_msg_fn P (env w) @ nl)) w else w)"

definition docker_main :: "'e platform \<Rightarrow> string list \<Rightarrow> 'e world \<Rightarrow> (int \<times> 'e world) option" where
  "docker_main P argv w =
     (if length argv < 3 then
        Some (1, emit (Err (''Usage: '' @ (case argv of [] \<Rightarrow> ''(null)'' | a # _ \<Rightarrow> a)
                            @ '' [db_file] [num_iterations]'' @ nl)) w)
      else
        Option.bind (atoi (argv ! 2)) (\<lambda>num_iterations.
          let (rc, w) = sqlite3_open P (argv ! 1) w in
          if rc \<noteq> 0 then Some (1, emit (Err (''Can't open database: '' @ errmsg P w @ nl)) w)
          else if num_iterations = 2147483647 then None
          else
            let w = emit (Out (''iteration,query,time(s)'' @ nl)) w;
                w = fold (\<lambda>itr. fold (docker_run_query P itr) [1..NUM_QUERIES]) [1..num_iterations] w in
            Some (0, sqlite3_close P w)))"

definition nanos_createTables :: "'e platform \<Rightarrow> 'e world \<Rightarrow> int \<times> 'e world" where
  "nanos_createTables = createTables"

definition nanos_loadTables :: "'e platform \<Rightarrow> 'e world \<Rightarrow> (int \<times> 'e world) option" where
  "nanos_loadTables = loadTables nanos"

definition nanos_preLoadTables :: "'e platform \<Rightarrow> 'e world \<Rightarrow> (int \<times> 'e world) option" where
  "nanos_preLoadTables = preLoadTables nanos"

definition nanos_refreshRF1 :: "'e platform \<Rightarrow> string \<Rightarrow> string \<Rightarrow> 'e world \<Rightarrow> int \<times> 'e world" where
  "nanos_refreshRF1 = refreshRF1"

definition nanos_refreshRF2 :: "'e platform \<Rightarrow> string \<Rightarrow> 'e world \<Rightarrow> int \<times> 'e world" where
  "nanos_refreshRF2 = refreshRF2"

definition nanos_print_time :: "'e platform \<Rightarrow> 'e world \<Rightarrow> 'e world" where
  "nanos_print_time = print_time"

definition nanos_run_query :: "'e platform \<Rightarrow> int \<Rightarrow> int \<Rightarrow> 'e world \<Rightarrow> 'e world" where
  "nanos_run_query P itr i w =
     (let query_file = snprintf 256 (''./queries/'' @ ''query'' @ dec i @ ''.sql'') in
      case fopen query_file w of
        None \<Rightarrow> emit (Err (''Can't open query file '' @ query_file @ nl)) w
      | Some (fp, w) \<Rightarrow>
          let query = c_str (take (MAX_QUERY_LENGTH - 1) fp);
              w = fclose w;
              (t_start, w) = clock P w;
              (rc, w) = sqlite3_exec P (Some callback) query w;
              (t_end, w) = clock P w;
              w = emit (Out (dec itr @ '','' @ dec i @ '','' @ seconds_fn P (t_end - t_start) @ nl)) w in
          if rc \<noteq> SQLITE_OK then emit (Err (''SQL error: '' @ exec_msg_fn P (env w) @ nl)) w else w)"

definition nanos_main :: "'e platform \<Rightarrow> string list \<Rightarrow> 'e world \<Rightarrow> (int \<times> 'e world) option" where
  "nanos_main P argv w =
     (if length argv < 3 then
        Some (1, emit (Err (''Usage: '' @ (case argv of [] \<Rightarrow> ''(null)'' | a # _ \<Rightarrow> a)
                            @ '' [db_file] [num_iterations]'' @ nl)) w)
      else
        Option.bind (atoi (argv ! 2)) (\<lambda>num_iterations.
          let (rc, w) = sqlite3_open P (argv ! 1) w in
          if rc \<noteq> 0 then Some (1, emit (Err (''Can't open database: '' @ errmsg P w @ nl)) w)
          else if num_iterations = 2147483647 then None
          else
            let w = emit (Err (''Opened database successfully'' @ nl)) w;
                w = emit (Out (''iteration,query,time(s)'' @ nl)) w;
                w = fold (\<lambda>itr. fold (nanos_run_query P itr) [1..NUM_QUERIES]) [1..num_iterations] w in
            Some (0, sqlite3_close P w)))"

lemmas baremetal_defs = baremetal_def baremetal_createTables_def baremetal_loadTables_def baremetal_preLoadTables_def baremetal_refreshRF1_def baremetal_refreshRF2_def baremetal_print_time_def

lemmas docker_defs = docker_def docker_createTables_def docker_loadTables_def docker_preLoadTables_def docker_refreshRF1_def docker_refreshRF2_def docker_print_time_def

lemmas nanos_defs = nanos_def nanos_createTables_def nanos_loadTables_def nanos_preLoadTables_def nanos_refreshRF1_def nanos_refreshRF2_def nanos_print_time_def

text \<open>What each file's \<^verbatim>\<open>main\<close> has in common with the other two.\<close>

lemma run_query_instances:
  "baremetal_run_query = run_query baremetal" "docker_run_query = run_query docker" "nanos_run_query = run_query nanos"
  by (simp_all add: fun_eq_iff run_query_def baremetal_run_query_def baremetal_def docker_run_query_def docker_def
      nanos_run_query_def nanos_def)

lemma main_instances:
  "baremetal_main = main baremetal" "docker_main = main docker" "nanos_main = main nanos"
proof -
  have it: "(\<lambda>itr. fold (run_query T P itr) [1..NUM_QUERIES]) = run_iteration T P" for T and P :: "'e platform"
    by (simp add: fun_eq_iff run_iteration_def)
  have open_msgs: "OPEN_MSG baremetal = Some (''Opened database successfully'' @ nl)" "OPEN_MSG docker = None"
    "OPEN_MSG nanos = Some (''Opened database successfully'' @ nl)"
    by (simp_all add: baremetal_def docker_def nanos_def)
  show "baremetal_main = main baremetal" "docker_main = main docker" "nanos_main = main nanos"
    unfolding fun_eq_iff main_def baremetal_main_def docker_main_def nanos_main_def run_query_instances it
      open_msgs option.case Let_def by simp_all
qed

end
