(* ===== verification/HarnessSpec.thy ===== *)
theory HarnessSpec
  imports Harness
begin

text \<open>
  What the loading and refresh functions of the benchmark program promise, independently of their
  buffers and loops: the statement built from a line, the list of statements a call has to run, and
  the transaction that runs them.  The locale \<open>transactional\<close> is the contract of a function that
  runs its statements inside one transaction; \<open>loadTables\<close>, \<open>refreshRF1\<close> and
  \<open>refreshRF2\<close> are its interpretations.
\<close>

section \<open>Statements\<close>

fun join :: "string \<Rightarrow> string list \<Rightarrow> string" where
  "join sep [] = []"
| "join sep [x] = x"
| "join sep (x # y # ys) = x @ sep @ join sep (y # ys)"

definition insert_stmt :: "string \<Rightarrow> string list \<Rightarrow> string" where
  "insert_stmt table vs = ''INSERT INTO '' @ table @ '' VALUES ('' @ join '', '' (map quote vs) @ '');''"

lemma join_Cons: "join sep (x # xs) = x @ concat (map (\<lambda>v. sep @ v) xs)"
  by (induction xs arbitrary: x) auto

lemma length_quoted: "length (concat (map (\<lambda>v. '', '' @ quote v) vs)) = sum_list (map length vs) + 4 * length vs"
  by (induction vs) auto

lemma token_loop_later:
  assumes "0 < count"
    and "length q + sum_list (map length ts) + 4 * length ts < MAX_QUERY_LENGTH"
  shows "token_loop n count ts q = Some (q @ concat (map (\<lambda>v. '', '' @ quote v) (take (nat (n - 1 - count)) ts)))"
  using assms
proof (induction n count ts q rule: token_loop.induct)
  case (2 n count t ts q)
  show ?case
  proof (cases "count \<ge> n - 1")
    case False
    then have nat: "nat (n - 1 - count) = Suc (nat (n - 1 - (count + 1)))" by simp
    have "token_loop n (count + 1) ts (q @ '', '' @ quote t) =
      Some ((q @ '', '' @ quote t) @ concat (map (\<lambda>v. '', '' @ quote v) (take (nat (n - 1 - (count + 1))) ts)))"
      using 2(1) [OF False, of "q @ '', ''" "(q @ '', '') @ [CHR 0x27]" "((q @ '', '') @ [CHR 0x27]) @ t"
        "(((q @ '', '') @ [CHR 0x27]) @ t) @ [CHR 0x27]"] 2(2,3)
      by (simp add: strcat_def)
    with 2(2,3) False show ?thesis by (simp add: nat strcat_def)
  qed simp
qed simp

lemma token_loop_eq:
  assumes "length q + sum_list (map length ts) + 4 * length ts < MAX_QUERY_LENGTH"
  shows "token_loop n 0 ts q = Some (q @ join '', '' (map quote (take (nat (n - 1)) ts)))"
proof (cases ts)
  case (Cons t us)
  show ?thesis
  proof (cases "0 \<ge> n - 1")
    case False
    then have nat: "nat (n - 1) = Suc (nat (n - 2))" by simp
    have "token_loop n 1 us (q @ quote t) =
        Some ((q @ quote t) @ concat (map (\<lambda>v. '', '' @ quote v) (take (nat (n - 2)) us)))"
      using token_loop_later [of 1 "q @ quote t" us n] assms Cons by simp
    with False assms Cons show ?thesis by (simp add: strcat_def nat join_Cons comp_def)
  qed (simp add: Cons)
qed simp

lemma line_query_eq:
  assumes "length table < 256" "length line < MAX_LINE_LENGTH"
  shows "line_query table n line = Some (insert_stmt table (take (nat (n - 1)) (tokens ''|'' line)))"
proof -
  define ts where "ts = tokens ''|'' line"
  define q where "q = ''INSERT INTO '' @ table @ '' VALUES (''"
  have bound: "sum_list (map length ts) + length ts \<le> 1024" "length q < 277"
    using tokens_total_length [of "''|''" line] assms by (auto simp: ts_def q_def MAX_LINE_LENGTH_def)
  then have q: "snprintf MAX_QUERY_LENGTH q = q" by (simp add: snprintf_def MAX_QUERY_LENGTH_def)
  define r where "r = join '', '' (map quote (take (nat (n - 1)) ts))"
  have "length r \<le> sum_list (map length ts) + 4 * length ts"
  proof (cases "take (nat (n - 1)) ts")
    case (Cons v vs)
    have "sum_list (map length (take (nat (n - 1)) ts)) \<le> sum_list (map length ts)"
      by (metis append_take_drop_id le_add1 map_append sum_list_append)
    moreover have "length (take (nat (n - 1)) ts) \<le> length ts" by simp
    ultimately show ?thesis
      using Cons length_quoted [of vs] by (simp add: r_def join_Cons comp_def)
  qed (auto simp: r_def)
  with bound have "length (q @ r) + 2 < MAX_QUERY_LENGTH" by (simp add: MAX_QUERY_LENGTH_def)
  moreover have "token_loop n 0 ts q = Some (q @ r)"
    unfolding r_def using bound by (intro token_loop_eq) (simp add: MAX_QUERY_LENGTH_def)
  ultimately have "line_query table n line = Some ((q @ r) @ '');'')"
    unfolding line_query_def ts_def [symmetric] q_def [symmetric] q by (simp add: strcat_def)
  then show ?thesis by (simp add: insert_stmt_def q_def r_def ts_def)
qed

text \<open>The bounded appends of the refresh functions truncate the whole statement once.\<close>

definition truncated :: "string \<Rightarrow> string" where
  "truncated s = take (MAX_LINE_LENGTH - 1) s"

lemma snprintf_truncated: "snprintf MAX_LINE_LENGTH s = truncated s"
  by (simp add: snprintf_def truncated_def)

lemma snprintf_at_end_truncated:
  "snprintf_at_end MAX_LINE_LENGTH (truncated q) s = truncated (q @ s)"
  by (cases "length q \<le> MAX_LINE_LENGTH - 1")
    (auto simp: snprintf_at_end_def snprintf_def truncated_def MAX_LINE_LENGTH_def)

lemmas truncated_simps = snprintf_truncated snprintf_at_end_truncated

lemma refresh_loop_later:
  assumes "0 < i" "i \<le> last_col"
  shows "refresh_loop last_col i ts (truncated q) =
    truncated (q @ concat (map (\<lambda>v. '', '' @ quote v) (take (Suc last_col - i) ts)))"
  using assms
proof (induction ts arbitrary: i q)
  case (Cons t ts)
  have "Suc last_col - i = Suc (last_col - i)" using Cons.prems by simp
  then show ?case
    using Cons.prems Cons.IH [of "Suc i" "q @ '', '' @ quote t"]
    by (cases "i = last_col") (simp_all add: truncated_simps Let_def)
qed simp

lemma refresh_loop_eq:
  assumes "0 < last_col"
  shows "refresh_loop last_col 0 ts (truncated q) =
    truncated (q @ join '', '' (map quote (take (Suc last_col) ts)))"
proof (cases ts)
  case (Cons t us)
  show ?thesis
    using assms refresh_loop_later [of 1 last_col us "q @ quote t"]
    by (simp add: Cons truncated_simps Let_def join_Cons comp_def)
qed simp

lemma orders_query_eq: "orders_query line = truncated (insert_stmt ''ORDERS'' (take 9 (tokens ''|'' line)))"
  unfolding orders_query_def by (simp add: truncated_simps refresh_loop_eq insert_stmt_def)

lemma lineitem_query_eq: "lineitem_query line = truncated (insert_stmt ''LINEITEM'' (take 16 (tokens ''|'' line)))"
  unfolding lineitem_query_def by (simp add: truncated_simps refresh_loop_eq insert_stmt_def)

lemma delete_query_eq:
  "delete_query line = truncated (''DELETE FROM ORDERS WHERE O_ORDERKEY ='' @
     quote (case tokens ''|'' line of [] \<Rightarrow> ''(null)'' | t # _ \<Rightarrow> t))"
  by (simp add: delete_query_def truncated_simps)

section \<open>Scripts and transactions\<close>

text \<open>The calls of a trace: everything but the messages the program prints.\<close>

fun is_call :: "event \<Rightarrow> bool" where
  "is_call (Out s) = False"
| "is_call (Err s) = False"
| "is_call ev = True"

definition calls :: "event list \<Rightarrow> event list" where
  "calls evs = filter is_call evs"

text \<open>Statements in order until one fails: the calls, whether all succeeded, the environment after.\<close>

fun script :: "'e platform \<Rightarrow> string list \<Rightarrow> 'e \<Rightarrow> event list \<times> bool \<times> 'e" where
  "script P [] e = ([], True, e)"
| "script P (q # qs) e =
     (let (rc, e) = exec_fn P None q e in
      if rc \<noteq> SQLITE_OK then ([Exec q rc], False, e)
      else let (evs, ok, e) = script P qs e in (Exec q rc # evs, ok, e))"

definition transaction :: "'e platform \<Rightarrow> string list \<Rightarrow> bool \<Rightarrow> 'e \<Rightarrow> event list \<times> bool \<times> 'e" where
  "transaction P qs complete e =
     (if complete then script P (''BEGIN TRANSACTION;'' # qs @ [''COMMIT;'']) e
      else let (evs, ok, e) = script P (''BEGIN TRANSACTION;'' # qs) e in (evs, False, e))"

definition performs :: "'e world \<Rightarrow> 'e world \<Rightarrow> event list \<Rightarrow> 'e \<Rightarrow> bool" where
  "performs w w' evs e \<longleftrightarrow>
     calls (trace w') = calls (trace w) @ evs \<and> env w' = e \<and>
     files w' = files w \<and> dirs w' = dirs w \<and> conns w' = conns w"

text \<open>
  \<open>runs P qs complete k w (go, w')\<close>: a loop that has to run the statements \<open>qs\<close>, and stops
  early also when \<open>complete\<close> is false; when it stops early it has closed \<open>k\<close> streams.
\<close>

definition runs :: "'e platform \<Rightarrow> string list \<Rightarrow> bool \<Rightarrow> int \<Rightarrow> 'e world \<Rightarrow> bool \<times> 'e world \<Rightarrow> bool" where
  "runs P qs complete k w r =
     (case (script P qs (env w), r) of ((evs, ok, e), (go, w')) \<Rightarrow>
       go = (ok \<and> complete) \<and> performs w w' evs e \<and> streams w' = streams w - (if go then 0 else k))"

lemma calls_append [simp]: "calls (xs @ ys) = calls xs @ calls ys"
  by (simp add: calls_def)

lemma calls_simps [simp]:
  "calls [] = []" "calls (Out s # xs) = calls xs" "calls (Err s # xs) = calls xs"
  "calls (Exec q rc # xs) = Exec q rc # calls xs" "calls (Open q rc # xs) = Open q rc # calls xs"
  "calls (Close # xs) = Close # calls xs" "calls (Remove q rc # xs) = Remove q rc # calls xs"
  by (simp_all add: calls_def)

lemma script_append:
  "script P (qs @ rs) e =
     (case script P qs e of (evs, ok, e) \<Rightarrow>
        if ok then (case script P rs e of (evs', ok', e) \<Rightarrow> (evs @ evs', ok', e)) else (evs, False, e))"
  by (induction qs arbitrary: e) (auto split: prod.splits simp: Let_def)

lemma script_shape:
  "script P qs e = (evs, ok, e') \<Longrightarrow>
     (if ok then evs = map (\<lambda>q. Exec q SQLITE_OK) qs
      else (\<exists>n rc. n < length qs \<and> rc \<noteq> SQLITE_OK \<and>
              evs = map (\<lambda>q. Exec q SQLITE_OK) (take n qs) @ [Exec (qs ! n) rc]))"
proof (induction qs arbitrary: e evs)
  case (Cons q qs)
  obtain rc e1 where x: "exec_fn P None q e = (rc, e1)" by force
  obtain evs1 ok1 e2 where y: "script P qs e1 = (evs1, ok1, e2)" using prod_cases3 by blast
  show ?case
  proof (cases "rc = SQLITE_OK")
    case True
    then have *: "evs = Exec q SQLITE_OK # evs1" "ok = ok1" "e' = e2" using Cons.prems x y by auto
    show ?thesis
    proof (cases ok1)
      case False
      with Cons.IH [of e1 evs1] y * obtain n rc' where "n < length qs" "rc' \<noteq> SQLITE_OK"
        "evs1 = map (\<lambda>q. Exec q SQLITE_OK) (take n qs) @ [Exec (qs ! n) rc']" by auto
      then show ?thesis using * False by (auto intro!: exI [of _ "Suc n"] exI [of _ rc'])
    qed (use Cons.IH [of e1 evs1] y * in auto)
  next
    case False
    then show ?thesis using Cons.prems x by (auto intro!: exI [of _ 0] exI [of _ rc])
  qed
qed simp

lemmas io_defs = sqlite3_exec_def emit_def fopen_def fclose_def opendir_def closedir_def

lemma performs_exec:
  "sqlite3_exec P None q w = (rc, w') \<Longrightarrow> exec_fn P None q (env w) = (rc, env w') \<and>
     performs w w' [Exec q rc] (env w') \<and> streams w' = streams w"
  by (auto simp: io_defs performs_def split: prod.splits)

lemma performs_err [simp]: "performs w (emit (Err s) w') evs e = performs w w' evs e"
  "performs w (fclose w') evs e = performs w w' evs e"
  "performs w (closedir w') evs e = performs w w' evs e"
  by (auto simp: io_defs performs_def)

lemma streams_simps [simp]:
  "streams (emit ev w) = streams w" "streams (fclose w) = streams w - 1" "streams (closedir w) = streams w - 1"
  by (simp_all add: io_defs)

lemma performs_trans:
  "performs w w1 evs e \<Longrightarrow> performs w1 w2 evs' e' \<Longrightarrow> performs w w2 (evs @ evs') e'"
  by (auto simp: performs_def)

lemma runs_Nil: "runs P [] True k w (True, w)"
  by (simp add: runs_def performs_def)

lemma runs_append:
  assumes "runs P qs True k w (True, w1)" "runs P rs c k w1 r"
  shows "runs P (qs @ rs) c k w r"
  using assms unfolding runs_def
  by (auto simp: script_append performs_def split: prod.splits)

lemma runs_stop:
  assumes "runs P qs True k w (False, w1)"
  shows "runs P (qs @ rs) c k w (False, w1)"
  using assms unfolding runs_def by (auto simp: script_append split: prod.splits)

lemma runs_exec:
  assumes "sqlite3_exec P None q w = (rc, w1)"
  shows "rc = SQLITE_OK \<Longrightarrow> runs P [q] True k w (True, w1)"
    and "rc \<noteq> SQLITE_OK \<Longrightarrow> performs w w2 [Exec q rc] (env w1) \<Longrightarrow> streams w2 = streams w - k \<Longrightarrow>
      runs P [q] True k w (False, w2)"
  using performs_exec [OF assms] by (auto simp: runs_def)

section \<open>The loading loops\<close>

definition row_stmt :: "string \<Rightarrow> int \<Rightarrow> string \<Rightarrow> string" where
  "row_stmt table n line = insert_stmt table (take (nat (n - 1)) (tokens ''|'' line))"

lemma line_loop_runs:
  assumes "length table < 256" "\<forall>l \<in> set ls. length l < MAX_LINE_LENGTH"
  shows "\<exists>r. line_loop P table n ls w = Some r \<and> runs P (map (row_stmt table n) ls) True 2 w r"
  using assms(2)
proof (induction ls arbitrary: w)
  case (Cons l ls)
  obtain rc w1 where x: "sqlite3_exec P None (row_stmt table n l) w = (rc, w1)" by force
  have lq: "line_query table n l = Some (row_stmt table n l)"
    using line_query_eq [OF assms(1), of l n] Cons.prems by (simp add: row_stmt_def)
  show ?case
  proof (cases "rc = SQLITE_OK")
    case True
    obtain r where r: "line_loop P table n ls w1 = Some r" "runs P (map (row_stmt table n) ls) True 2 w1 r"
      using Cons.IH [of w1] Cons.prems by auto
    have "runs P ([row_stmt table n l] @ map (row_stmt table n) ls) True 2 w r"
      by (rule runs_append [OF runs_exec(1) [OF x True] r(2)])
    then show ?thesis using lq x True r(1) by simp
  next
    case False
    define w2 where "w2 = closedir (fclose (emit (Err (''Error executing query: '' @ errmsg P w1 @ nl)) w1))"
    have "runs P [row_stmt table n l] True 2 w (False, w2)"
      using performs_exec [OF x] by (intro runs_exec(2) [OF x False]) (simp_all add: w2_def)
    from runs_stop [OF this] show ?thesis using lq x False by (simp add: w2_def)
  qed
qed (simp add: runs_Nil)

text \<open>
  The statements for a table file: one per line behind the first, which only counts the columns.
  The plan of a directory stops at the first table file that cannot be opened.
\<close>

definition table_of :: "string \<Rightarrow> string" where
  "table_of d_name = take 255 (take (the (strrchr_index d_name (CHR ''.''))) d_name)"

definition file_plan :: "string \<Rightarrow> string \<Rightarrow> string list" where
  "file_plan d_name content =
     map (row_stmt (table_of d_name) (count_columns (flines content))) (drop 1 (flines content))"

fun load_plan :: "(string \<Rightarrow> string option) \<Rightarrow> string \<Rightarrow> string list \<Rightarrow> string list \<times> bool" where
  "load_plan fs dir [] = ([], True)"
| "load_plan fs dir (d # ds) =
     (if strstr d ''.tbl'' \<noteq> None then
        (case fs (take 255 (dir @ d)) of
           None \<Rightarrow> ([], False)
         | Some content \<Rightarrow> (let (qs, complete) = load_plan fs dir ds in (file_plan d content @ qs, complete)))
      else load_plan fs dir ds)"

lemma load_file_missing:
  assumes "files w (take 255 (TABLES_DIR T @ d)) = None"
  shows "\<exists>w1. load_file T P d w = Some (False, w1) \<and> runs P [] False 1 w (False, w1)"
  using assms by (simp add: load_file_def fopen_def snprintf_def runs_def Let_def)
    (simp add: performs_def)

lemma load_file_runs:
  assumes "files w (take 255 (TABLES_DIR T @ d)) = Some content" "strstr d ''.tbl'' \<noteq> None"
  shows "\<exists>r. load_file T P d w = Some r \<and> runs P (file_plan d content) True 1 w r"
proof -
  define w0 where "w0 = w\<lparr>streams := streams w + 1\<rparr>"
  have "CHR ''.'' \<in> set d" using assms(2) strstr_mem [of d "''.tbl''" _ "CHR ''.''"] by auto
  then obtain k where k: "strrchr_index d (CHR ''.'') = Some k"
    using strrchr_index_None [of d "CHR ''.''"] by fastforce
  define ls where "ls = flines content"
  have "\<forall>l \<in> set (drop 1 ls). length l < MAX_LINE_LENGTH"
    by (auto simp: ls_def dest: in_set_dropD intro: flines_length)
  moreover have "length (table_of d) < 256" by (simp add: table_of_def)
  ultimately obtain go w1 where r: "line_loop P (table_of d) (count_columns ls) (drop 1 ls) w0 = Some (go, w1)"
    "runs P (file_plan d content) True 2 w0 (go, w1)"
    using line_loop_runs [of "table_of d" "drop 1 ls" P "count_columns ls" w0]
    by (auto simp: file_plan_def ls_def)
  have "load_file T P d w = Some (go, if go then fclose w1 else w1)"
    using assms(1) k r(1) by (simp add: load_file_def fopen_def snprintf_def table_of_def flip: w0_def ls_def)
  moreover have "runs P (file_plan d content) True 1 w (go, if go then fclose w1 else w1)"
    using r(2) by (auto simp: runs_def w0_def performs_def fclose_def split: prod.splits)
  ultimately show ?thesis by blast
qed

lemma dir_loop_runs:
  assumes "load_plan (files w) (TABLES_DIR T) ds = (qs, complete)"
  shows "\<exists>r. dir_loop T P ds w = Some r \<and> runs P qs complete 1 w r"
  using assms
proof (induction ds arbitrary: w qs)
  case (Cons d ds)
  show ?case
  proof (cases "strstr d ''.tbl''")
    case None
    with Cons show ?thesis by simp
  next
    case tbl: (Some _)
    show ?thesis
    proof (cases "files w (take 255 (TABLES_DIR T @ d))")
      case None
      then show ?thesis using load_file_missing [OF None, of P] tbl Cons.prems by auto
    next
      case (Some content)
      obtain qs2 where qs2: "load_plan (files w) (TABLES_DIR T) ds = (qs2, complete)"
        "qs = file_plan d content @ qs2"
        using Cons.prems Some tbl by (auto split: prod.splits)
      obtain go w1 where r: "load_file T P d w = Some (go, w1)" "runs P (file_plan d content) True 1 w (go, w1)"
        using load_file_runs [OF Some, of P] tbl by auto
      show ?thesis
      proof (cases go)
        case True
        have "files w1 = files w" using r(2) by (auto simp: runs_def performs_def split: prod.splits)
        then obtain r2 where r2: "dir_loop T P ds w1 = Some r2" "runs P qs2 complete 1 w1 r2"
          using Cons.IH [of w1 qs2] qs2(1) by auto
        have "runs P qs complete 1 w r2" unfolding qs2(2)
          using r(2) True by (intro runs_append [OF _ r2(2)]) simp
        then show ?thesis using r(1) r2(1) True tbl by simp
      next
        case False
        then have "runs P qs complete 1 w (False, w1)" unfolding qs2(2) using r(2) by (simp add: runs_stop)
        then show ?thesis using r(1) False tbl by simp
      qed
    qed
  qed
qed (simp add: runs_Nil)

section \<open>The refresh loops\<close>

definition orders_stmt :: "string \<Rightarrow> string" where
  "orders_stmt line = truncated (insert_stmt ''ORDERS'' (take 9 (tokens ''|'' line)))"

definition lineitem_stmt :: "string \<Rightarrow> string" where
  "lineitem_stmt line = truncated (insert_stmt ''LINEITEM'' (take 16 (tokens ''|'' line)))"

definition delete_stmt :: "string \<Rightarrow> string" where
  "delete_stmt line = truncated (''DELETE FROM ORDERS WHERE O_ORDERKEY ='' @
     quote (case tokens ''|'' line of [] \<Rightarrow> ''(null)'' | t # _ \<Rightarrow> t))"

definition rf1_stmts :: "string list \<Rightarrow> string list \<Rightarrow> string list" where
  "rf1_stmts os ls = concat (map (\<lambda>(ol, ll). [orders_stmt ol, lineitem_stmt ll]) (zip os ls))"

lemma rf1_loop_runs: "runs P (rf1_stmts os ls) True 2 w (rf1_loop P os ls w)"
proof (induction P os ls w rule: rf1_loop.induct)
  case (1 P ol os ll ls w)
  obtain rc w1 where x: "sqlite3_exec P None (orders_query ol) w = (rc, w1)" by force
  show ?case
  proof (cases "rc = SQLITE_OK")
    case True
    obtain rc2 w2 where y: "sqlite3_exec P None (lineitem_query ll) w1 = (rc2, w2)" by force
    have fst: "runs P [orders_query ol] True 2 w (True, w1)" by (rule runs_exec(1) [OF x True])
    show ?thesis
    proof (cases "rc2 = SQLITE_OK")
      case True2: True
      have "runs P (([orders_query ol] @ [lineitem_query ll]) @ rf1_stmts os ls) True 2 w (rf1_loop P os ls w2)"
        using 1 [OF x [symmetric] refl] True y True2
        by (intro runs_append [OF runs_append [OF fst runs_exec(1) [OF y True2]]]) auto
      then show ?thesis using x True y True2
        by (simp add: rf1_stmts_def orders_stmt_def lineitem_stmt_def flip: orders_query_eq lineitem_query_eq)
    next
      case False
      define w3 where "w3 = fclose (fclose (emit (Err (''Error executing LINEITEM query: '' @ errmsg P w2 @ nl)) w2))"
      have "runs P [lineitem_query ll] True 2 w1 (False, w3)"
        using performs_exec [OF y] by (intro runs_exec(2) [OF y False]) (simp_all add: w3_def)
      from runs_stop [OF runs_append [OF fst this]] show ?thesis using x True y False
        by (simp add: rf1_stmts_def orders_stmt_def lineitem_stmt_def w3_def flip: orders_query_eq lineitem_query_eq)
    qed
  next
    case False
    define w3 where "w3 = fclose (fclose (emit (Err (''Error executing ORDERS query: '' @ errmsg P w1 @ nl)) w1))"
    have "runs P [orders_query ol] True 2 w (False, w3)"
      using performs_exec [OF x] by (intro runs_exec(2) [OF x False]) (simp_all add: w3_def)
    from runs_stop [OF this] show ?thesis using x False
      by (simp add: rf1_stmts_def orders_stmt_def lineitem_stmt_def w3_def flip: orders_query_eq lineitem_query_eq)
  qed
qed (simp_all add: rf1_stmts_def runs_Nil)

lemma rf2_loop_runs: "runs P (map delete_stmt ls) True 1 w (rf2_loop P ls w)"
proof (induction ls arbitrary: w)
  case (Cons l ls)
  have eq: "delete_query l = delete_stmt l" by (simp add: delete_query_eq delete_stmt_def)
  obtain rc w1 where x: "sqlite3_exec P None (delete_stmt l) w = (rc, w1)" by force
  show ?case
  proof (cases "rc = SQLITE_OK")
    case True
    have "runs P ([delete_stmt l] @ map delete_stmt ls) True 1 w (rf2_loop P ls w1)"
      by (rule runs_append [OF runs_exec(1) [OF x True] Cons.IH])
    then show ?thesis using x True eq by simp
  next
    case False
    define w2 where "w2 = fclose (emit (Err (''Error executing delete query: '' @ errmsg P w1 @ nl)) w1)"
    have "runs P [delete_stmt l] True 1 w (False, w2)"
      using performs_exec [OF x] by (intro runs_exec(2) [OF x False]) (simp_all add: w2_def)
    from runs_stop [OF this] show ?thesis using x False eq by (simp add: w2_def)
  qed
qed (simp add: runs_Nil)

section \<open>The contract of a transactional function\<close>

text \<open>
  \<open>leak\<close> is the number of streams the function leaves open when its \<^verbatim>\<open>COMMIT\<close> fails.
\<close>

definition meets :: "'e platform \<Rightarrow> (string list \<times> bool) option \<Rightarrow> int \<Rightarrow> 'e world \<Rightarrow> int \<times> 'e world \<Rightarrow> bool" where
  "meets P pl leak w res =
     (case (pl, res) of
        (None, (r, w')) \<Rightarrow> r = 0 \<and> performs w w' [] (env w) \<and> streams w' = streams w
      | (Some (qs, complete), (r, w')) \<Rightarrow>
          (case transaction P qs complete (env w) of (evs, ok, e) \<Rightarrow>
             r = (if ok then 1 else 0) \<and> performs w w' evs e \<and>
             streams w' = streams w + (if \<not> ok \<and> length evs = length qs + 2 then leak else 0)))"

abbreviation executed :: "string list \<Rightarrow> event list" where
  "executed qs \<equiv> map (\<lambda>q. Exec q SQLITE_OK) qs"

locale transactional =
  fixes run :: "'e platform \<Rightarrow> 'e world \<Rightarrow> (int \<times> 'e world) option"
    and plan :: "'e world \<Rightarrow> (string list \<times> bool) option"
    and leak :: int
  assumes run_meets: "\<exists>res. run P w = Some res \<and> meets P (plan w) leak w res"
    and plan_data: "plan w = Some (qs, complete) \<Longrightarrow> q \<in> set qs \<Longrightarrow> take 6 q \<in> {''INSERT'', ''DELETE''}"
begin

lemma total: "\<exists>r w'. run P w = Some (r, w') \<and> r \<in> {0, 1}"
proof -
  obtain r w' where r: "run P w = Some (r, w')" "meets P (plan w) leak w (r, w')"
    using run_meets [of P w] by auto
  then have "r \<in> {0, 1}" by (cases "plan w") (auto simp: meets_def split: prod.splits if_splits)
  with r(1) show ?thesis by blast
qed

lemma no_commit: "plan w = Some (qs, complete) \<Longrightarrow> ''COMMIT;'' \<notin> set qs \<and> ''ROLLBACK;'' \<notin> set qs"
  using plan_data by fastforce

lemma commits:
  assumes "run P w = Some (1, w')"
  obtains qs where "plan w = Some (qs, True)"
    "performs w w' (map (\<lambda>q. Exec q SQLITE_OK) (''BEGIN TRANSACTION;'' # qs @ [''COMMIT;''])) (env w')"
    "streams w' = streams w"
proof -
  have m: "meets P (plan w) leak w (1, w')" using run_meets [of P w] assms by auto
  then obtain qs complete where pl: "plan w = Some (qs, complete)"
    by (cases "plan w") (auto simp: meets_def)
  obtain evs ok e where t: "transaction P qs complete (env w) = (evs, ok, e)" using prod_cases3 by blast
  have m2: "ok" "performs w w' evs e" "streams w' = streams w"
    using m pl t by (auto simp: meets_def split: if_splits)
  then have c: "complete" "script P (''BEGIN TRANSACTION;'' # qs @ [''COMMIT;'']) (env w) = (evs, ok, e)"
    using t by (auto simp: transaction_def Let_def split: if_splits prod.splits)
  have "e = env w'" using m2 by (simp add: performs_def)
  then show thesis using that [of qs] pl m2 c script_shape [OF c(2)] by simp
qed

lemma aborts:
  assumes "run P w = Some (0, w')" "plan w = Some (qs, complete)"
  shows "\<exists>n evs. n \<le> length qs + 1 \<and> performs w w' evs (env w') \<and>
    (evs = map (\<lambda>q. Exec q SQLITE_OK) (''BEGIN TRANSACTION;'' # qs) \<and> \<not> complete \<or>
     (\<exists>rc. rc \<noteq> SQLITE_OK \<and>
        evs = map (\<lambda>q. Exec q SQLITE_OK) (take n (''BEGIN TRANSACTION;'' # qs @ [''COMMIT;''])) @
              [Exec ((''BEGIN TRANSACTION;'' # qs @ [''COMMIT;'']) ! n) rc]))"
proof -
  have m: "meets P (plan w) leak w (0, w')" using run_meets [of P w] assms(1) by auto
  obtain evs ok e where t: "transaction P qs complete (env w) = (evs, ok, e)" using prod_cases3 by blast
  have m2: "\<not> ok" "performs w w' evs (env w')"
    using m assms(2) t by (auto simp: meets_def performs_def split: if_splits)
  show ?thesis
  proof (cases complete)
    case True
    then have "script P (''BEGIN TRANSACTION;'' # qs @ [''COMMIT;'']) (env w) = (evs, False, e)"
      using t m2 by (simp add: transaction_def)
    from script_shape [OF this] obtain n rc where "n < length qs + 2" "rc \<noteq> SQLITE_OK"
      "evs = map (\<lambda>q. Exec q SQLITE_OK) (take n (''BEGIN TRANSACTION;'' # qs @ [''COMMIT;''])) @
              [Exec ((''BEGIN TRANSACTION;'' # qs @ [''COMMIT;'']) ! n) rc]" by auto
    then show ?thesis using m2(2) by (intro exI [of _ n] exI [of _ evs]) auto
  next
    case False
    obtain ok' where s: "script P (''BEGIN TRANSACTION;'' # qs) (env w) = (evs, ok', e)"
      using t False by (auto simp: transaction_def Let_def split: prod.splits)
    show ?thesis
    proof (cases ok')
      case True
      then show ?thesis using script_shape [OF s] m2(2) False by (intro exI [of _ 0] exI [of _ evs]) auto
    next
      case no: False
      from script_shape [OF s] no obtain n rc where n: "n < length qs + 1" "rc \<noteq> SQLITE_OK"
        "evs = map (\<lambda>q. Exec q SQLITE_OK) (take n (''BEGIN TRANSACTION;'' # qs)) @
              [Exec ((''BEGIN TRANSACTION;'' # qs) ! n) rc]" by auto
      moreover have "take n (''BEGIN TRANSACTION;'' # qs @ [''COMMIT;'']) = take n (''BEGIN TRANSACTION;'' # qs)"
        "(''BEGIN TRANSACTION;'' # qs @ [''COMMIT;'']) ! n = (''BEGIN TRANSACTION;'' # qs) ! n"
        using n(1) by (auto simp: take_Cons' nth_Cons' nth_append)
      ultimately show ?thesis using m2(2) by (intro exI [of _ n] exI [of _ evs]) auto
    qed
  qed
qed

lemma not_committed:
  assumes "run P w = Some (0, w')"
  shows "\<exists>evs. calls (trace w') = calls (trace w) @ evs \<and>
    Exec ''COMMIT;'' SQLITE_OK \<notin> set evs \<and> (\<forall>rc. Exec ''ROLLBACK;'' rc \<notin> set evs) \<and>
    (\<exists>qs. butlast evs = executed qs)"
proof (cases "plan w")
  case None
  then show ?thesis
    using run_meets [of P w] assms by (auto simp: meets_def performs_def intro!: exI [of _ "[]"])
next
  case (Some p)
  obtain qs complete where p: "plan w = Some (qs, complete)" using Some by force
  let ?all = "''BEGIN TRANSACTION;'' # qs @ [''COMMIT;'']"
  have data: "''COMMIT;'' \<notin> set qs" "''ROLLBACK;'' \<notin> set qs" using no_commit [OF p] by auto
  obtain n evs where evs: "n \<le> length qs + 1" "performs w w' evs (env w')"
    "evs = executed (''BEGIN TRANSACTION;'' # qs) \<or>
     (\<exists>rc. rc \<noteq> SQLITE_OK \<and> evs = executed (take n ?all) @ [Exec (?all ! n) rc])"
    using aborts [OF assms p] by blast
  have tk: "set (take n ?all) \<subseteq> set (''BEGIN TRANSACTION;'' # qs)" and nth: "?all ! n \<in> set ?all"
    using evs(1) set_take_subset [of "n - 1" qs] by (auto simp: take_Cons' nth_Cons' nth_append in_set_conv_nth)
  have "Exec ''COMMIT;'' SQLITE_OK \<notin> set evs \<and> (\<forall>rc. Exec ''ROLLBACK;'' rc \<notin> set evs) \<and>
      (\<exists>qs. butlast evs = executed qs)"
    using evs(3)
  proof
    assume "evs = executed (''BEGIN TRANSACTION;'' # qs)"
    then show ?thesis using data
      by (auto simp flip: map_butlast list.map intro!: exI [of _ "butlast (''BEGIN TRANSACTION;'' # qs)"])
  next
    assume "\<exists>rc. rc \<noteq> SQLITE_OK \<and> evs = executed (take n ?all) @ [Exec (?all ! n) rc]"
    then obtain rc where e: "rc \<noteq> SQLITE_OK" "evs = executed (take n ?all) @ [Exec (?all ! n) rc]" by blast
    have "?all ! n \<noteq> ''ROLLBACK;''" using nth data(2) by auto
    moreover have "''COMMIT;'' \<notin> set (take n ?all)" "''ROLLBACK;'' \<notin> set (take n ?all)"
      using tk data by auto
    ultimately show ?thesis using e by (auto simp del: take.simps)
  qed
  then show ?thesis using evs(2) by (auto simp: performs_def)
qed

lemma commit_leaks:
  assumes "run P w = Some (0, w')" "calls (trace w') = calls (trace w) @ evs @ [Exec ''COMMIT;'' rc]"
  shows "streams w' = streams w + leak"
proof -
  have m: "meets P (plan w) leak w (0, w')" using run_meets [of P w] assms(1) by auto
  then obtain qs complete where pl: "plan w = Some (qs, complete)"
    using assms(2) by (cases "plan w") (auto simp: meets_def performs_def)
  obtain evs' ok e where t: "transaction P qs complete (env w) = (evs', ok, e)" using prod_cases3 by blast
  have ok: "\<not> ok" and evs': "evs' = evs @ [Exec ''COMMIT;'' rc]"
    and st: "streams w' = streams w + (if length evs' = length qs + 2 then leak else 0)"
    using m assms(2) by (auto simp: meets_def pl t performs_def split: if_splits)
  have "\<exists>n. n \<le> length qs + 1 \<and> (evs' = executed (''BEGIN TRANSACTION;'' # qs) \<or>
      (\<exists>rc. evs' = executed (take n (''BEGIN TRANSACTION;'' # qs @ [''COMMIT;''])) @
              [Exec ((''BEGIN TRANSACTION;'' # qs @ [''COMMIT;'']) ! n) rc]))"
    using aborts [OF assms(1) pl] assms(2) evs' by (auto simp: performs_def)
  then obtain n where n: "n \<le> length qs + 1" "evs' = executed (''BEGIN TRANSACTION;'' # qs) \<or>
      (\<exists>rc. evs' = executed (take n (''BEGIN TRANSACTION;'' # qs @ [''COMMIT;''])) @
              [Exec ((''BEGIN TRANSACTION;'' # qs @ [''COMMIT;'']) ! n) rc])" by blast
  have nc: "''COMMIT;'' \<notin> set (''BEGIN TRANSACTION;'' # qs)" using no_commit [OF pl] by auto
  have "evs' \<noteq> executed (''BEGIN TRANSACTION;'' # qs)"
  proof
    assume "evs' = executed (''BEGIN TRANSACTION;'' # qs)"
    then have "Exec ''COMMIT;'' rc \<in> set (executed (''BEGIN TRANSACTION;'' # qs))" using evs' by (metis in_set_conv_decomp)
    then show False using nc by auto
  qed
  then have tl: "(''BEGIN TRANSACTION;'' # qs @ [''COMMIT;'']) ! n = ''COMMIT;''"
    "length evs' = n + 1" using n evs' by auto
  have "n = length qs + 1"
  proof (rule ccontr)
    assume "n \<noteq> length qs + 1"
    then have "(''BEGIN TRANSACTION;'' # qs @ [''COMMIT;'']) ! n \<in> set (''BEGIN TRANSACTION;'' # qs)"
      using n(1) by (auto simp: nth_Cons' nth_append)
    with tl nc show False by simp
  qed
  then show ?thesis using st tl by simp
qed

end

section \<open>The three transactional functions\<close>

lemma transaction_step:
  "transaction P qs complete e =
     (case exec_fn P None ''BEGIN TRANSACTION;'' e of (rc, e) \<Rightarrow>
       if rc \<noteq> SQLITE_OK then ([Exec ''BEGIN TRANSACTION;'' rc], False, e)
       else case script P qs e of (evs, ok, e) \<Rightarrow>
         if ok \<and> complete then
           (case exec_fn P None ''COMMIT;'' e of (rc', e) \<Rightarrow>
              (Exec ''BEGIN TRANSACTION;'' rc # evs @ [Exec ''COMMIT;'' rc'], rc' = SQLITE_OK, e))
         else (Exec ''BEGIN TRANSACTION;'' rc # evs, False, e))"
  by (auto simp: transaction_def script_append Let_def split: prod.splits)

text \<open>
  A function whose body \<open>runs\<close> its plan between \<^verbatim>\<open>BEGIN\<close> and \<^verbatim>\<open>COMMIT\<close>,
  from a state in which \<open>k\<close> streams are open in addition, meets the contract.
\<close>

lemma script_length: "script P qs e = (evs, ok, e') \<Longrightarrow> length evs \<le> length qs \<and> (ok \<longrightarrow> length evs = length qs)"
  by (induction qs arbitrary: e evs) (force split: prod.splits if_splits simp: Let_def)+

lemma meets_begin_fails:
  assumes "sqlite3_exec P None ''BEGIN TRANSACTION;'' w = (rc, w1)" "rc \<noteq> SQLITE_OK"
    and "performs w w2 [Exec ''BEGIN TRANSACTION;'' rc] (env w1)" "streams w2 = streams w"
  shows "meets P (Some (qs, complete)) leak w (0, w2)"
  using performs_exec [OF assms(1)] assms by (simp add: meets_def transaction_step)

lemma meets_body_stops:
  assumes "sqlite3_exec P None ''BEGIN TRANSACTION;'' w = (rc, w1)" "rc = SQLITE_OK"
    and "w2 = w1\<lparr>streams := streams w1 + k\<rparr>" "runs P qs complete k w2 (False, w3)"
  shows "meets P (Some (qs, complete)) leak w (0, w3)"
proof -
  obtain evs ok e where s: "script P qs (env w1) = (evs, ok, e)" using prod_cases3 by blast
  have b: "exec_fn P None ''BEGIN TRANSACTION;'' (env w) = (rc, env w1)"
    "performs w w1 [Exec ''BEGIN TRANSACTION;'' rc] (env w1)" "streams w1 = streams w"
    using performs_exec [OF assms(1)] by auto
  have r: "\<not> (ok \<and> complete)" "performs w1 w3 evs e" "streams w3 = streams w1"
    using assms(4) s by (auto simp: assms(3) runs_def performs_def)
  have "length evs \<le> length qs" using script_length [OF s] by simp
  then show ?thesis
    using b s r performs_trans [OF b(2) r(2)] assms(2) by (auto simp: meets_def transaction_step)
qed

lemma meets_commit:
  assumes "sqlite3_exec P None ''BEGIN TRANSACTION;'' w = (rc, w1)" "rc = SQLITE_OK"
    and "w2 = w1\<lparr>streams := streams w1 + k\<rparr>" "runs P qs complete k w2 (True, w3)"
    and "sqlite3_exec P None ''COMMIT;'' w3 = (rc2, w4)"
    and "performs w4 w5 [] (env w4)"
    and "streams w5 = streams w4 - (if rc2 = SQLITE_OK then k else k - leak)"
  shows "meets P (Some (qs, complete)) leak w (if rc2 = SQLITE_OK then 1 else 0, w5)"
proof -
  obtain evs ok e where s: "script P qs (env w1) = (evs, ok, e)" using prod_cases3 by blast
  have b: "exec_fn P None ''BEGIN TRANSACTION;'' (env w) = (rc, env w1)"
    "performs w w1 [Exec ''BEGIN TRANSACTION;'' rc] (env w1)" "streams w1 = streams w"
    using performs_exec [OF assms(1)] by auto
  have r: "ok \<and> complete" "performs w1 w3 evs e" "streams w3 = streams w1 + k"
    using assms(4) s by (auto simp: assms(3) runs_def performs_def)
  have c: "exec_fn P None ''COMMIT;'' e = (rc2, env w4)"
    "performs w3 w4 [Exec ''COMMIT;'' rc2] (env w4)" "streams w4 = streams w3"
    using performs_exec [OF assms(5)] r(2) by (auto simp: performs_def)
  have p: "performs w w5 (Exec ''BEGIN TRANSACTION;'' rc # evs @ [Exec ''COMMIT;'' rc2]) (env w4)"
    using performs_trans [OF performs_trans [OF b(2) r(2)] performs_trans [OF c(2) assms(6)]] by simp
  show ?thesis
    using b(1,3) s r(1,3) c(1,3) p assms(2,7) script_length [OF s]
    by (simp add: meets_def transaction_step)
qed

definition load_tables_plan :: "target \<Rightarrow> 'e world \<Rightarrow> (string list \<times> bool) option" where
  "load_tables_plan T w = map_option (load_plan (files w) (TABLES_DIR T)) (dirs w (TABLES_DIR T))"

definition rf1_plan :: "string \<Rightarrow> string \<Rightarrow> 'e world \<Rightarrow> (string list \<times> bool) option" where
  "rf1_plan orders_filename lineitem_filename w =
     Some (case (files w orders_filename, files w lineitem_filename) of
             (Some os, Some ls) \<Rightarrow> (rf1_stmts (flines os) (flines ls), True)
           | _ \<Rightarrow> ([], False))"

definition rf2_plan :: "string \<Rightarrow> 'e world \<Rightarrow> (string list \<times> bool) option" where
  "rf2_plan delete_filename w =
     Some (case files w delete_filename of
             Some ds \<Rightarrow> (map delete_stmt (flines ds), True)
           | None \<Rightarrow> ([], False))"

end
