(* ===== verification/HarnessProps.thy ===== *)
theory HarnessProps
  imports HarnessSpec
begin

text \<open>
  The functions of the benchmark program against their specification: \<open>loadTables\<close>,
  \<open>refreshRF1\<close> and \<open>refreshRF2\<close> as interpretations of the locale \<open>transactional\<close>, and the
  properties of the three programs.
\<close>

section \<open>Interpretations\<close>

lemma exec_streams:
  "sqlite3_exec P cb q (w\<lparr>streams := k\<rparr>) = (case sqlite3_exec P cb q w of (rc, w') \<Rightarrow> (rc, w'\<lparr>streams := k\<rparr>))"
  by (simp add: sqlite3_exec_def emit_def split: prod.splits)

lemma exec_keeps:
  assumes "sqlite3_exec P cb q w = (rc, w')"
  shows "files w' = files w" "dirs w' = dirs w" "streams w' = streams w" "conns w' = conns w"
  using assms by (auto simp: sqlite3_exec_def emit_def split: prod.splits)

lemma performs_refl: "performs w w [] (env w)"
  by (simp add: performs_def)

lemma loadTables_meets: "\<exists>res. loadTables T P w = Some res \<and> meets P (load_tables_plan T w) 0 w res"
proof (cases "dirs w (TABLES_DIR T)")
  case None
  then show ?thesis by (simp add: loadTables_def opendir_def meets_def load_tables_plan_def performs_refl)
next
  case (Some ds)
  obtain rc w1 where x: "sqlite3_exec P None ''BEGIN TRANSACTION;'' w = (rc, w1)" by force
  define w2 where "w2 = w1\<lparr>streams := streams w1 + 1\<rparr>"
  have x2: "sqlite3_exec P None ''BEGIN TRANSACTION;'' (w\<lparr>streams := streams w + 1\<rparr>) = (rc, w2)"
    using exec_keeps [OF x] by (simp add: exec_streams x w2_def)
  obtain qs complete where pl: "load_plan (files w) (TABLES_DIR T) ds = (qs, complete)" by force
  have plan: "load_tables_plan T w = Some (qs, complete)" by (simp add: load_tables_plan_def Some pl)
  show ?thesis
  proof (cases "rc = SQLITE_OK")
    case False
    then have "meets P (Some (qs, complete)) 0 w
       (0, closedir (emit (Err (''Error starting transaction: '' @ errmsg P w2 @ nl)) w2))"
      using performs_exec [OF x]
      by (intro meets_begin_fails [OF x False]) (simp_all add: w2_def performs_def emit_def closedir_def)
    then show ?thesis using Some x2 False plan by (simp add: loadTables_def opendir_def)
  next
    case True
    have "load_plan (files w2) (TABLES_DIR T) ds = (qs, complete)"
      using pl exec_keeps [OF x] by (simp add: w2_def)
    then obtain go w3 where d: "dir_loop T P ds w2 = Some (go, w3)" "runs P qs complete 1 w2 (go, w3)"
      using dir_loop_runs [of w2 T ds qs complete P] by auto
    show ?thesis
    proof (cases go)
      case False
      then have "meets P (Some (qs, complete)) 0 w (0, w3)"
        using d(2) by (intro meets_body_stops [OF x True w2_def]) simp
      then show ?thesis using Some x2 True plan d False by (simp add: loadTables_def opendir_def)
    next
      case go: True
      obtain rc2 w4 where y: "sqlite3_exec P None ''COMMIT;'' w3 = (rc2, w4)" by force
      define w5 where "w5 = (if rc2 = SQLITE_OK then closedir w4
        else closedir (emit (Err (''Error committing transaction: '' @ errmsg P w4 @ nl)) w4))"
      have "meets P (Some (qs, complete)) 0 w (if rc2 = SQLITE_OK then 1 else 0, w5)"
        using d(2) go by (intro meets_commit [OF x True w2_def _ y]) (auto simp: w5_def performs_refl)
      then show ?thesis using Some x2 True plan d go y
        by (auto simp: loadTables_def opendir_def w5_def)
    qed
  qed
qed

lemma refreshRF1_meets: "meets P (rf1_plan os ls w) 2 w (refreshRF1 P os ls w)"
proof -
  obtain rc w1 where x: "sqlite3_exec P None ''BEGIN TRANSACTION;'' w = (rc, w1)" by force
  obtain qs complete where plan: "rf1_plan os ls w = Some (qs, complete)" by (metis rf1_plan_def surj_pair)
  show ?thesis
  proof (cases "rc = SQLITE_OK")
    case False
    then show ?thesis
      using performs_exec [OF x] by (auto simp: refreshRF1_def x plan intro!: meets_begin_fails [OF x])
  next
    case True
    note keep = exec_keeps [OF x]
    have start: "performs w w1 [Exec ''BEGIN TRANSACTION;'' rc] (env w1)"
      "exec_fn P None ''BEGIN TRANSACTION;'' (env w) = (rc, env w1)"
      using performs_exec [OF x] by auto
    show ?thesis
    proof (cases "files w os = None \<or> files w ls = None")
      case missing: True
      then have "rf1_plan os ls w = Some ([], False)" by (auto simp: rf1_plan_def split: option.splits)
      with missing start True keep show ?thesis
        by (auto simp: refreshRF1_def x fopen_def meets_def transaction_step performs_def fclose_def emit_def
            split: option.splits)
    next
      case False
      then obtain oc lc where f: "files w os = Some oc" "files w ls = Some lc" by auto
      define w2 where "w2 = w1\<lparr>streams := streams w1 + 2\<rparr>"
      have pl: "rf1_plan os ls w = Some (rf1_stmts (flines oc) (flines lc), True)" by (simp add: rf1_plan_def f)
      obtain go w3 where d: "rf1_loop P (flines oc) (flines lc) w2 = (go, w3)" by force
      have r: "runs P (rf1_stmts (flines oc) (flines lc)) True 2 w2 (go, w3)"
        using rf1_loop_runs [of P "flines oc" "flines lc" w2] d by simp
      show ?thesis
      proof (cases go)
        case False
        have "meets P (rf1_plan os ls w) 2 w (0, w3)" unfolding pl
          using r False by (intro meets_body_stops [OF x True w2_def]) simp
        then show ?thesis using x True f keep d False
          by (simp add: refreshRF1_def fopen_def w2_def add.commute [of 2])
      next
        case go: True
        obtain rc2 w4 where y: "sqlite3_exec P None ''COMMIT;'' w3 = (rc2, w4)" by force
        define w5 where "w5 = (if rc2 = SQLITE_OK then fclose (fclose w4)
          else emit (Err (''Error committing transaction: '' @ errmsg P w4 @ nl)) w4)"
        have "meets P (rf1_plan os ls w) 2 w (if rc2 = SQLITE_OK then 1 else 0, w5)" unfolding pl
          using r go by (intro meets_commit [OF x True w2_def _ y]) (auto simp: w5_def performs_refl)
        then show ?thesis using x True f keep d go y
          by (auto simp: refreshRF1_def fopen_def w2_def w5_def add.commute [of 2])
      qed
    qed
  qed
qed

lemma refreshRF2_meets: "meets P (rf2_plan ds w) 1 w (refreshRF2 P ds w)"
proof -
  obtain rc w1 where x: "sqlite3_exec P None ''BEGIN TRANSACTION;'' w = (rc, w1)" by force
  obtain qs complete where plan: "rf2_plan ds w = Some (qs, complete)" by (metis rf2_plan_def surj_pair)
  show ?thesis
  proof (cases "rc = SQLITE_OK")
    case False
    then show ?thesis
      using performs_exec [OF x] by (auto simp: refreshRF2_def x plan intro!: meets_begin_fails [OF x])
  next
    case True
    note keep = exec_keeps [OF x]
    have start: "performs w w1 [Exec ''BEGIN TRANSACTION;'' rc] (env w1)"
      "exec_fn P None ''BEGIN TRANSACTION;'' (env w) = (rc, env w1)"
      using performs_exec [OF x] by auto
    show ?thesis
    proof (cases "files w ds")
      case None
      with start True keep show ?thesis
        by (simp add: refreshRF2_def x fopen_def meets_def transaction_step performs_def emit_def rf2_plan_def)
    next
      case f: (Some dc)
      define w2 where "w2 = w1\<lparr>streams := streams w1 + 1\<rparr>"
      have pl: "rf2_plan ds w = Some (map delete_stmt (flines dc), True)" by (simp add: rf2_plan_def f)
      obtain go w3 where d: "rf2_loop P (flines dc) w2 = (go, w3)" by force
      have r: "runs P (map delete_stmt (flines dc)) True 1 w2 (go, w3)"
        using rf2_loop_runs [of P "flines dc" w2] d by simp
      show ?thesis
      proof (cases go)
        case False
        have "meets P (rf2_plan ds w) 1 w (0, w3)" unfolding pl
          using r False by (intro meets_body_stops [OF x True w2_def]) simp
        then show ?thesis using x True f keep d False by (simp add: refreshRF2_def fopen_def w2_def)
      next
        case go: True
        obtain rc2 w4 where y: "sqlite3_exec P None ''COMMIT;'' w3 = (rc2, w4)" by force
        define w5 where "w5 = (if rc2 = SQLITE_OK then fclose w4
          else emit (Err (''Error committing transaction: '' @ errmsg P w4 @ nl)) w4)"
        have "meets P (rf2_plan ds w) 1 w (if rc2 = SQLITE_OK then 1 else 0, w5)" unfolding pl
          using r go by (intro meets_commit [OF x True w2_def _ y]) (auto simp: w5_def performs_refl)
        then show ?thesis using x True f keep d go y
          by (auto simp: refreshRF2_def fopen_def w2_def w5_def)
      qed
    qed
  qed
qed

lemma stmt_prefix:
  "take 6 (row_stmt table n line) = ''INSERT''" "take 6 (orders_stmt line) = ''INSERT''"
  "take 6 (lineitem_stmt line) = ''INSERT''" "take 6 (delete_stmt line) = ''DELETE''"
  by (simp_all add: row_stmt_def insert_stmt_def orders_stmt_def lineitem_stmt_def delete_stmt_def
      truncated_def MAX_LINE_LENGTH_def)

lemma load_plan_data: "load_plan fs dir ds = (qs, complete) \<Longrightarrow> q \<in> set qs \<Longrightarrow> take 6 q = ''INSERT''"
  by (induction ds arbitrary: qs)
    (auto simp: file_plan_def stmt_prefix split: if_splits option.splits prod.splits)

interpretation load: transactional "loadTables T" "load_tables_plan T" 0 for T
proof unfold_locales
  show "\<exists>res. loadTables T P w = Some res \<and> meets P (load_tables_plan T w) 0 w res" for P :: "'a platform" and w
    by (rule loadTables_meets)
  show "load_tables_plan T w = Some (qs, complete) \<Longrightarrow> q \<in> set qs \<Longrightarrow> take 6 q \<in> {''INSERT'', ''DELETE''}"
    for w :: "'a world" and qs complete q
    using load_plan_data [of "files w" "TABLES_DIR T" _ qs complete q] by (auto simp: load_tables_plan_def)
qed

interpretation rf1: transactional "\<lambda>P w. Some (refreshRF1 P os ls w)" "rf1_plan os ls" 2 for os ls
proof unfold_locales
  show "\<exists>res. Some (refreshRF1 P os ls w) = Some res \<and> meets P (rf1_plan os ls w) 2 w res"
    for P :: "'a platform" and w
    using refreshRF1_meets by auto
  show "rf1_plan os ls w = Some (qs, complete) \<Longrightarrow> q \<in> set qs \<Longrightarrow> take 6 q \<in> {''INSERT'', ''DELETE''}"
    for w :: "'a world" and qs complete q
    by (auto simp: rf1_plan_def rf1_stmts_def stmt_prefix split: option.splits)
qed

interpretation rf2: transactional "\<lambda>P w. Some (refreshRF2 P ds w)" "rf2_plan ds" 1 for ds
proof unfold_locales
  show "\<exists>res. Some (refreshRF2 P ds w) = Some res \<and> meets P (rf2_plan ds w) 1 w res"
    for P :: "'a platform" and w
    using refreshRF2_meets by auto
  show "rf2_plan ds w = Some (qs, complete) \<Longrightarrow> q \<in> set qs \<Longrightarrow> take 6 q \<in> {''INSERT'', ''DELETE''}"
    for w :: "'a world" and qs complete q
    by (auto simp: rf2_plan_def stmt_prefix split: option.splits)
qed

section \<open>Loading the tables\<close>

text \<open>
  C1. \<^verbatim>\<open>loadTables\<close> is memory safe and always returns: for every directory listing, every content
  of the table files and every behaviour of SQLite, no \<^verbatim>\<open>strcat\<close> writes past
  \<^verbatim>\<open>query[MAX_QUERY_LENGTH]\<close>, the difference with \<^verbatim>\<open>strrchr\<close>'s result is defined, the
  result is 0 or 1, and every stream and directory opened on the way is closed again.
\<close>

theorem loadTables_safe:
  "\<exists>r w'. loadTables T P w = Some (r, w') \<and> (r = 0 \<or> r = 1) \<and>
     streams w' = streams w \<and> conns w' = conns w \<and> files w' = files w"
proof -
  obtain r w' where r: "loadTables T P w = Some (r, w')" "meets P (load_tables_plan T w) 0 w (r, w')"
    using load.run_meets [of T P w] by auto
  then have "(r = 0 \<or> r = 1) \<and> streams w' = streams w \<and> conns w' = conns w \<and> files w' = files w"
    by (cases "load_tables_plan T w") (auto simp: meets_def performs_def split: prod.splits if_splits)
  with r(1) show ?thesis by blast
qed

text \<open>A platform on which everything succeeds, and one on which committing fails.\<close>

definition all_ok :: "unit platform" where
  "all_ok = \<lparr>open_fn = (\<lambda>n e. (0, e)), exec_fn = (\<lambda>cb q e. (0, e)), errmsg_fn = (\<lambda>e. []),
     exec_msg_fn = (\<lambda>e. []), close_fn = (\<lambda>e. e), remove_fn = (\<lambda>n e. (0, e)), clock_fn = (\<lambda>e. (0, e)),
     gettime_fn = (\<lambda>e. (0, 0)), seconds_fn = (\<lambda>t. ''0.000000'')\<rparr>"

definition commit_fails :: "unit platform" where
  "commit_fails = all_ok\<lparr>exec_fn := (\<lambda>cb q e. (if q = ''COMMIT;'' then 5 else 0, e))\<rparr>"

definition region_world :: "unit world" where
  "region_world = \<lparr>env = (),
     files = [''./tables/region.tbl'' \<mapsto> ''0|AFRICA|'' @ nl @ ''1|ASIA|'' @ nl,
              ''u1'' \<mapsto> ''7|O|'' @ nl, ''l1'' \<mapsto> ''7|3|'' @ nl, ''d1'' \<mapsto> ''7|'' @ nl],
     dirs = [''./tables/'' \<mapsto> [''.'', ''region.tbl'']], streams = 0, conns = 0, trace = []\<rparr>"

text \<open>
  C2. When \<^verbatim>\<open>loadTables\<close> returns 1 it has run exactly one transaction: \<^verbatim>\<open>BEGIN\<close>, the
  statements of the plan of the tables directory (for every name with \<^verbatim>\<open>.tbl\<close> in it, in directory
  order, one \<^verbatim>\<open>INSERT\<close> per line of the file behind its first line) and \<^verbatim>\<open>COMMIT\<close>, and every
  one of these statements succeeded.
\<close>

theorem loadTables_commits:
  assumes "loadTables T P w = Some (1, w')"
  shows "\<exists>ds qs. dirs w (TABLES_DIR T) = Some ds \<and> load_plan (files w) (TABLES_DIR T) ds = (qs, True) \<and>
    calls (trace w') = calls (trace w) @ executed (''BEGIN TRANSACTION;'' # qs @ [''COMMIT;''])"
proof -
  obtain qs where "load_tables_plan T w = Some (qs, True)"
    "performs w w' (executed (''BEGIN TRANSACTION;'' # qs @ [''COMMIT;''])) (env w')"
    using load.commits [OF assms] by metis
  then show ?thesis by (auto simp: load_tables_plan_def performs_def)
qed

theorem loadTables_commits_witness:
  "\<exists>w'. loadTables docker all_ok region_world = Some (1, w') \<and>
    (\<exists>ds qs. load_plan (files region_world) ''./tables/'' ds = (qs, True) \<and>
      calls (trace w') = executed (''BEGIN TRANSACTION;'' # qs @ [''COMMIT;'']))"
proof -
  have "map_option fst (loadTables docker all_ok region_world) = Some 1" by code_simp
  then obtain w' where w': "loadTables docker all_ok region_world = Some (1, w')" by auto
  have "TABLES_DIR docker = ''./tables/''" "trace region_world = []"
    by (simp_all add: docker_def region_world_def)
  with w' show ?thesis using loadTables_commits [OF w'] by auto
qed

text \<open>
  C4. When \<^verbatim>\<open>loadTables\<close> returns 0 nothing was committed: all its statements but possibly the last
  succeeded, a successful \<^verbatim>\<open>COMMIT\<close> is not among them, and neither is any \<^verbatim>\<open>ROLLBACK\<close>, so
  a transaction that was begun is left open on the connection.
\<close>

theorem loadTables_aborts:
  assumes "loadTables T P w = Some (0, w')"
  shows "\<exists>evs. calls (trace w') = calls (trace w) @ evs \<and>
    Exec ''COMMIT;'' SQLITE_OK \<notin> set evs \<and> (\<forall>rc. Exec ''ROLLBACK;'' rc \<notin> set evs) \<and>
    (\<exists>qs. butlast evs = executed qs)"
  by (rule load.not_committed [OF assms])

theorem loadTables_aborts_witness:
  "\<exists>w'. loadTables docker commit_fails region_world = Some (0, w') \<and>
    (\<exists>evs. calls (trace w') = evs \<and> Exec ''COMMIT;'' SQLITE_OK \<notin> set evs)"
proof -
  have "map_option fst (loadTables docker commit_fails region_world) = Some 0" by code_simp
  then obtain w' where w': "loadTables docker commit_fails region_world = Some (0, w')" by auto
  have "trace region_world = []" by (simp add: region_world_def)
  with w' show ?thesis using loadTables_aborts [OF w'] by auto
qed

text \<open>
  A table file as the TPC-H generator writes it: every row is a line of fields, each followed by a
  bar.  The fields are not empty, hold no bar, newline or NUL, and the line fits the line buffer.
\<close>

definition field_ok :: "string \<Rightarrow> bool" where
  "field_ok f \<longleftrightarrow> f \<noteq> [] \<and> CHR ''|'' \<notin> set f \<and> CHR 0x0A \<notin> set f \<and> CHR 0x00 \<notin> set f"

definition row_line :: "string list \<Rightarrow> string" where
  "row_line row = concat (map (\<lambda>f. f @ ''|'') row)"

definition row_ok :: "nat \<Rightarrow> string list \<Rightarrow> bool" where
  "row_ok n row \<longleftrightarrow> length row = n \<and> list_all field_ok row \<and> length (row_line row) < 1023"

definition tbl_content :: "string list list \<Rightarrow> string" where
  "tbl_content rows = concat (map (\<lambda>row. row_line row @ nl) rows)"

lemma row_tokens: "list_all field_ok row \<Longrightarrow> tokens ''|'' (row_line row @ nl) = row @ [nl]"
proof (induction row)
  case Nil
  then show ?case by (simp add: row_line_def tokens_single)
next
  case (Cons f row)
  then have "tokens ''|'' (f @ CHR ''|'' # (row_line row @ nl)) = f # tokens ''|'' (row_line row @ nl)"
    by (intro tokens_append) (auto simp: field_ok_def)
  with Cons show ?case by (simp add: row_line_def)
qed

lemma tbl_flines:
  assumes "list_all (row_ok n) rows"
  shows "flines (tbl_content rows) = map (\<lambda>row. row_line row @ nl) rows"
proof -
  have "text_line (row_line row)" if "row_ok n row" for row
    using that by (auto simp: text_line_def row_ok_def row_line_def list_all_iff field_ok_def)
  then have "list_all text_line (map row_line rows)" using assms by (auto simp: list_all_iff)
  from flines_text [OF this] show ?thesis by (simp add: tbl_content_def comp_def)
qed

lemma row_stmt_row: "row_ok n row \<Longrightarrow> row_stmt table (int n + 1) (row_line row @ nl) = insert_stmt table row"
  by (simp add: row_stmt_def row_tokens row_ok_def)

lemma file_plan_rows:
  assumes "list_all (row_ok n) rows"
  shows "file_plan d_name (tbl_content rows) = map (insert_stmt (table_of d_name)) (drop 1 rows)"
proof (cases rows)
  case Nil
  then show ?thesis by (simp add: file_plan_def tbl_content_def)
next
  case (Cons row rest)
  have cols: "count_columns (flines (tbl_content rows)) = int n + 1"
    unfolding tbl_flines [OF assms] using assms Cons by (simp add: count_columns_def row_tokens row_ok_def)
  show ?thesis unfolding file_plan_def cols unfolding tbl_flines [OF assms] using assms Cons
    by (auto simp: row_stmt_row list_all_iff)
qed

lemma script_succeeds:
  assumes "\<And>cb q e. fst (exec_fn P cb q e) = SQLITE_OK"
  shows "fst (snd (script P qs e))"
proof (induction qs arbitrary: e)
  case (Cons q qs)
  then show ?case using assms [of None q e]
    by (auto split: prod.splits) (metis fst_conv snd_conv)
qed simp

lemma loadTables_succeeds:
  assumes "\<And>cb q e. fst (exec_fn P cb q e) = SQLITE_OK" "load_tables_plan T w = Some (qs, True)"
  shows "\<exists>w'. loadTables T P w = Some (1, w')"
proof -
  obtain r w' where r: "loadTables T P w = Some (r, w')" "meets P (load_tables_plan T w) 0 w (r, w')"
    using load.run_meets [of T P w] by auto
  obtain evs ok e where t: "transaction P qs True (env w) = (evs, ok, e)" using prod_cases3 by blast
  have "ok"
    using script_succeeds [OF assms(1), where qs = "''BEGIN TRANSACTION;'' # qs @ [''COMMIT;'']" and e = "env w"] t
    by (simp add: transaction_def del: script.simps)
  then have "r = 1" using r(2) t by (simp add: meets_def assms(2))
  with r(1) show ?thesis by blast
qed

text \<open>
  C3. Loading one well-formed table file into a database that accepts every statement succeeds and
  inserts exactly the rows of the file except the first, each with all its fields in order: the first
  line is consumed for counting the columns and is never inserted.
\<close>

theorem loadTables_rows:
  assumes "\<And>cb q e. fst (exec_fn P cb q e) = SQLITE_OK"
    and "dirs w (TABLES_DIR T) = Some [name @ ''.tbl'']" "CHR ''.'' \<notin> set name"
    and "length (TABLES_DIR T) + length name < 250"
    and "files w (TABLES_DIR T @ name @ ''.tbl'') = Some (tbl_content rows)" "list_all (row_ok n) rows"
  shows "\<exists>w'. loadTables T P w = Some (1, w') \<and>
    calls (trace w') = calls (trace w) @
      executed (''BEGIN TRANSACTION;'' # map (insert_stmt name) (drop 1 rows) @ [''COMMIT;''])"
proof -
  have rindex: "strrchr_index (name @ ''.tbl'') (CHR ''.'') = Some (length name)"
    using assms(3) by (induction name) auto
  then have name: "table_of (name @ ''.tbl'') = name" using assms(4) by (simp add: table_of_def)
  have "strstr (name @ ''.tbl'') ''.tbl'' \<noteq> None" using strstr_Some [of "name @ ''.tbl''" "''.tbl''"] by auto
  moreover have "take 255 (TABLES_DIR T @ name @ ''.tbl'') = TABLES_DIR T @ name @ ''.tbl''"
    using assms(4) by simp
  ultimately have plan: "load_tables_plan T w = Some (map (insert_stmt name) (drop 1 rows), True)"
    using assms(2,5) by (simp add: load_tables_plan_def file_plan_rows [OF assms(6)] name del: take_append)
  from loadTables_succeeds [OF assms(1) plan] obtain w' where r: "loadTables T P w = Some (1, w')" by blast
  with load.commits [of T P w w'] plan show ?thesis by (auto simp: performs_def)
qed

theorem loadTables_rows_witness:
  "\<exists>w'. loadTables docker all_ok (region_world\<lparr>dirs := [''./tables/'' \<mapsto> [''region.tbl'']]\<rparr>) = Some (1, w') \<and>
    calls (trace w') = executed [''BEGIN TRANSACTION;'', insert_stmt ''region'' [''1'', ''ASIA''], ''COMMIT;'']"
proof -
  let ?w = "region_world\<lparr>dirs := [''./tables/'' \<mapsto> [''region.tbl'']]\<rparr>"
  have "tbl_content [[''0'', ''AFRICA''], [''1'', ''ASIA'']] = ''0|AFRICA|'' @ nl @ ''1|ASIA|'' @ nl"
    by (simp add: tbl_content_def row_line_def)
  then have "\<exists>w'. loadTables docker all_ok ?w = Some (1, w') \<and>
    calls (trace w') = calls (trace ?w) @ executed (''BEGIN TRANSACTION;'' #
      map (insert_stmt ''region'') (drop 1 [[''0'', ''AFRICA''], [''1'', ''ASIA'']]) @ [''COMMIT;''])"
    by (intro loadTables_rows [where n = 2])
      (simp_all add: all_ok_def docker_def region_world_def SQLITE_OK_def row_ok_def row_line_def field_ok_def)
  then show ?thesis by (simp add: region_world_def)
qed

section \<open>Refreshing the sales data\<close>

lemma refreshRF1_commits:
  assumes "refreshRF1 P orders lineitems w = (1, w')"
  shows "\<exists>oc lc. files w orders = Some oc \<and> files w lineitems = Some lc \<and>
    calls (trace w') = calls (trace w) @
      executed (''BEGIN TRANSACTION;'' # rf1_stmts (flines oc) (flines lc) @ [''COMMIT;'']) \<and>
    list_all (\<lambda>q. length q < MAX_LINE_LENGTH) (rf1_stmts (flines oc) (flines lc)) \<and> streams w' = streams w"
proof -
  obtain qs where qs: "rf1_plan orders lineitems w = Some (qs, True)"
    "performs w w' (executed (''BEGIN TRANSACTION;'' # qs @ [''COMMIT;''])) (env w')" "streams w' = streams w"
    using rf1.commits [of P orders lineitems w w'] assms by auto
  then obtain oc lc where "files w orders = Some oc" "files w lineitems = Some lc"
    "qs = rf1_stmts (flines oc) (flines lc)"
    by (auto simp: rf1_plan_def split: option.splits)
  moreover have "list_all (\<lambda>q. length q < MAX_LINE_LENGTH) (rf1_stmts os ls)" for os ls
    by (auto simp: rf1_stmts_def list_all_iff orders_stmt_def lineitem_stmt_def truncated_def MAX_LINE_LENGTH_def)
  ultimately show ?thesis using qs by (auto simp: performs_def)
qed

lemma refreshRF1_aborts:
  assumes "refreshRF1 P orders lineitems w = (0, w')"
  shows "\<exists>evs. calls (trace w') = calls (trace w) @ evs \<and>
    Exec ''COMMIT;'' SQLITE_OK \<notin> set evs \<and> (\<forall>rc. Exec ''ROLLBACK;'' rc \<notin> set evs) \<and>
    (\<exists>qs. butlast evs = executed qs)"
  by (rule rf1.not_committed [of P orders lineitems]) (simp add: assms)

text \<open>
  C7. \<^verbatim>\<open>refreshRF1\<close> is one transaction.  When it returns 1 it has executed, successfully and in this
  order, \<^verbatim>\<open>BEGIN\<close>, the orders and line items of its two files alternately, each statement shorter than
  its buffer, and \<^verbatim>\<open>COMMIT\<close>, and has closed both files; otherwise it returns 0, has committed nothing
  and issued no \<^verbatim>\<open>ROLLBACK\<close>, and every statement but the last one succeeded.
\<close>

theorem refreshRF1_transaction:
  "case refreshRF1 P orders lineitems w of (r, w') \<Rightarrow>
     \<exists>evs. calls (trace w') = calls (trace w) @ evs \<and>
       (if r = 1
        then \<exists>oc lc. files w orders = Some oc \<and> files w lineitems = Some lc \<and>
          evs = executed (''BEGIN TRANSACTION;'' # rf1_stmts (flines oc) (flines lc) @ [''COMMIT;'']) \<and>
          list_all (\<lambda>q. length q < MAX_LINE_LENGTH) (rf1_stmts (flines oc) (flines lc)) \<and>
          streams w' = streams w
        else r = 0 \<and> Exec ''COMMIT;'' SQLITE_OK \<notin> set evs \<and> (\<forall>rc. Exec ''ROLLBACK;'' rc \<notin> set evs) \<and>
          (\<exists>qs. butlast evs = executed qs))"
proof -
  obtain r w' where r: "refreshRF1 P orders lineitems w = (r, w')" by force
  have "r = 0 \<or> r = 1" using rf1.total [of P orders lineitems w] r by auto
  then show ?thesis
  proof
    assume "r = 0"
    then show ?thesis using r refreshRF1_aborts [of P orders lineitems w w'] by auto
  next
    assume "r = 1"
    then show ?thesis using r refreshRF1_commits [of P orders lineitems w w'] by auto
  qed
qed

text \<open>
  C9. A failing \<^verbatim>\<open>COMMIT\<close> makes the refresh functions leak.  Whenever the last call of
  \<^verbatim>\<open>refreshRF1\<close> is a \<^verbatim>\<open>COMMIT\<close> and it returns 0, both its data files stay open; whenever
  the last call of \<^verbatim>\<open>refreshRF2\<close> is a \<^verbatim>\<open>COMMIT\<close> and it returns 0, its file stays open.
\<close>

theorem refresh_leaks_on_commit_failure:
  "(\<forall>orders lineitems w1 evs rc. refreshRF1 P orders lineitems w = (0, w1)
      \<and> calls (trace w1) = calls (trace w) @ evs @ [Exec ''COMMIT;'' rc] \<longrightarrow> streams w1 = streams w + 2)
   \<and> (\<forall>deletes w2 evs rc. refreshRF2 P deletes w = (0, w2)
      \<and> calls (trace w2) = calls (trace w) @ evs @ [Exec ''COMMIT;'' rc] \<longrightarrow> streams w2 = streams w + 1)"
  using rf1.commit_leaks [of P _ _ w] rf2.commit_leaks [of P _ w] by auto

theorem refresh_leaks_on_commit_failure_witness:
  "streams (snd (refreshRF1 commit_fails ''u1'' ''l1'' region_world)) = 2 \<and>
   streams (snd (refreshRF2 commit_fails ''d1'' region_world)) = 1"
proof -
  define w1 where "w1 = snd (refreshRF1 commit_fails ''u1'' ''l1'' region_world)"
  define w2 where "w2 = snd (refreshRF2 commit_fails ''d1'' region_world)"
  have tr: "calls (trace region_world) = []" "streams region_world = 0" by (simp_all add: region_world_def calls_def)
  have "fst (refreshRF1 commit_fails ''u1'' ''l1'' region_world) = 0"
    "fst (refreshRF2 commit_fails ''d1'' region_world) = 0" by code_simp+
  then have r: "refreshRF1 commit_fails ''u1'' ''l1'' region_world = (0, w1)"
    "refreshRF2 commit_fails ''d1'' region_world = (0, w2)"
    by (simp_all add: w1_def w2_def prod_eq_iff)
  have "rev (calls (trace w1)) = Exec ''COMMIT;'' 5 # tl (rev (calls (trace w1)))"
    "rev (calls (trace w2)) = Exec ''COMMIT;'' 5 # tl (rev (calls (trace w2)))"
    unfolding w1_def w2_def by code_simp+
  then have "calls (trace w1) = [] @ rev (tl (rev (calls (trace w1)))) @ [Exec ''COMMIT;'' 5]"
    "calls (trace w2) = [] @ rev (tl (rev (calls (trace w2)))) @ [Exec ''COMMIT;'' 5]"
    by (metis append_Nil rev.simps(2) rev_rev_ident)+
  with r have "streams w1 = streams region_world + 2 \<and> streams w2 = streams region_world + 1"
    using refresh_leaks_on_commit_failure [of commit_fails region_world, unfolded tr(1)] by blast
  then show ?thesis
    by (simp add: tr(2) w1_def w2_def)
qed

text \<open>
  \<^verbatim>\<open>refreshRF2\<close> deletes, in one transaction, the orders whose keys are the first tokens of the
  lines of its file; when it returns 1 every statement succeeded, and when it returns 0 nothing was
  committed.
\<close>

lemma refreshRF2_transaction:
  "case refreshRF2 P deletes w of (r, w') \<Rightarrow>
     \<exists>evs. calls (trace w') = calls (trace w) @ evs \<and>
       (if r = 1
        then \<exists>dc. files w deletes = Some dc \<and>
          evs = executed (''BEGIN TRANSACTION;'' # map delete_stmt (flines dc) @ [''COMMIT;''])
        else r = 0 \<and> Exec ''COMMIT;'' SQLITE_OK \<notin> set evs)"
proof -
  obtain r w' where r: "refreshRF2 P deletes w = (r, w')" by force
  have cases: "r = 0 \<or> r = 1" using rf2.total [of P deletes w] r by auto
  show ?thesis
  proof (cases "r = 1")
    case True
    then obtain qs where "rf2_plan deletes w = Some (qs, True)"
      "performs w w' (executed (''BEGIN TRANSACTION;'' # qs @ [''COMMIT;''])) (env w')"
      using rf2.commits [of P deletes w w'] r by auto
    then show ?thesis using r True by (auto simp: rf2_plan_def performs_def split: option.splits)
  next
    case False
    then show ?thesis using cases rf2.not_committed [of P deletes w w'] r by auto
  qed
qed

text \<open>
  C8. The refresh statements are built by repeated bounded appends and are the full statement cut at
  \<^verbatim>\<open>MAX_LINE_LENGTH - 1\<close> characters: at most nine values for an order and sixteen for a line item.
  A line of at most 930 characters is never cut, so its statement is complete.
\<close>

theorem refresh_statements:
  "orders_query line = take 1023 (insert_stmt ''ORDERS'' (take 9 (tokens ''|'' line))) \<and>
   lineitem_query line = take 1023 (insert_stmt ''LINEITEM'' (take 16 (tokens ''|'' line))) \<and>
   (length line \<le> 930 \<longrightarrow>
      orders_query line = insert_stmt ''ORDERS'' (take 9 (tokens ''|'' line)) \<and>
      lineitem_query line = insert_stmt ''LINEITEM'' (take 16 (tokens ''|'' line)))"
proof -
  let ?ts = "tokens ''|'' line"
  have tot: "sum_list (map length (take k ?ts)) \<le> length line" for k
  proof (cases ?ts)
    case (Cons t ts)
    then have "sum_list (map length ?ts) \<le> length line" using tokens_total_length [of "''|''" line] by simp
    moreover have "sum_list (map length ?ts) =
        sum_list (map length (take k ?ts)) + sum_list (map length (drop k ?ts))"
      by (metis append_take_drop_id map_append sum_list_append)
    ultimately show ?thesis by linarith
  qed simp
  have len: "length (insert_stmt table vs) \<le>
      21 + length table + sum_list (map length vs) + 4 * length vs + (if vs = [] then 2 else 0)" for table vs
    by (cases vs) (auto simp: insert_stmt_def join_Cons comp_def length_quoted [simplified])
  have "length line \<le> 930 \<Longrightarrow> length (insert_stmt ''ORDERS'' (take 9 ?ts)) \<le> 1023"
    "length line \<le> 930 \<Longrightarrow> length (insert_stmt ''LINEITEM'' (take 16 ?ts)) \<le> 1023"
    using len [of "''ORDERS''" "take 9 ?ts"] tot [of 9] len [of "''LINEITEM''" "take 16 ?ts"] tot [of 16]
    by (auto split: if_splits)
  then show ?thesis by (auto simp: orders_query_eq lineitem_query_eq truncated_def MAX_LINE_LENGTH_def)
qed

theorem refresh_statements_witness:
  "length ''7|O|'' \<le> 930 \<and> orders_query ''7|O|'' = insert_stmt ''ORDERS'' (take 9 (tokens ''|'' ''7|O|''))"
proof -
  have "length ''7|O|'' \<le> 930" by simp
  then show ?thesis using refresh_statements [of "''7|O|''"] by blast
qed

end
