(* ===== verification/HarnessMain.thy ===== *)
theory HarnessMain
  imports HarnessProps
begin

text \<open>
  The remaining functions of the benchmark program: creating the tables, the repeated load of
  \<^verbatim>\<open>preLoadTables\<close>, the query loop of \<^verbatim>\<open>main\<close>, the time stamp, and how the programs of
  the three platforms relate.
\<close>

section \<open>Creating the tables\<close>

lemma create_loop_script:
  "case (create_loop P qs w, script P qs (env w)) of ((r, w'), (evs, ok, e)) \<Rightarrow>
     r = (if ok then 1 else 0) \<and> performs w w' evs e \<and> streams w' = streams w"
proof (induction qs arbitrary: w)
  case (Cons q qs)
  obtain rc w1 where x: "sqlite3_exec P None q w = (rc, w1)" by force
  note p = performs_exec [OF x]
  obtain r w2 where c: "create_loop P qs w1 = (r, w2)" by force
  obtain evs ok e where s: "script P qs (env w1) = (evs, ok, e)" using prod_cases3 by blast
  show ?case
  proof (cases "rc = SQLITE_OK")
    case True
    then show ?thesis using Cons [of w1] x p c s performs_trans [of w w1 "[Exec q rc]" "env w1" w2 evs e] by auto
  qed (use x p in simp)
qed (simp add: performs_def)

text \<open>
  \<^verbatim>\<open>createTables\<close> runs the eight \<^verbatim>\<open>CREATE TABLE\<close> statements in order and stops at the
  first that fails; it returns 1 exactly when all of them succeeded.
\<close>

lemma createTables_spec:
  "case createTables P w of (r, w') \<Rightarrow>
     \<exists>n \<le> 8. \<exists>evs. calls (trace w') = calls (trace w) @ executed (take n table_creations) @ evs \<and>
       (if r = 1 then n = 8 \<and> evs = []
        else r = 0 \<and> n < 8 \<and> (\<exists>rc. rc \<noteq> SQLITE_OK \<and> evs = [Exec (table_creations ! n) rc]))"
proof -
  obtain r w' where c: "createTables P w = (r, w')" by force
  obtain evs ok e where s: "script P table_creations (env w) = (evs, ok, e)" using prod_cases3 by blast
  have m: "r = (if ok then 1 else 0)" "calls (trace w') = calls (trace w) @ evs"
    using create_loop_script [where P = P and qs = table_creations and w = w] c s by (auto simp: createTables_def performs_def)
  have len: "length table_creations = 8" by (simp add: table_creations_def)
  show ?thesis
  proof (cases ok)
    case True
    then show ?thesis using script_shape [OF s] c m len by (auto intro!: exI [of _ 8])
  next
    case False
    then obtain n rc where "n < 8" "rc \<noteq> SQLITE_OK"
      "evs = executed (take n table_creations) @ [Exec (table_creations ! n) rc]"
      using script_shape [OF s] len by auto
    then show ?thesis using c m False by (auto intro!: exI [of _ n])
  qed
qed

section \<open>The repeated load\<close>

definition db_name :: "int \<Rightarrow> string" where
  "db_name i = snprintf 256 (''database_'' @ dec i @ ''.db'')"

lemmas preload_once_eq = preload_once_def [folded db_name_def]

text \<open>What a function leaves alone: the data files, and the number of open streams.\<close>

definition steady :: "'e world \<Rightarrow> 'e world \<Rightarrow> bool" where
  "steady w w' \<longleftrightarrow> files w' = files w \<and> dirs w' = dirs w \<and> streams w' = streams w"

lemma steady_trans: "steady w w1 \<Longrightarrow> steady w1 w2 \<Longrightarrow> steady w w2"
  by (simp add: steady_def)

lemma createTables_calls:
  assumes "createTables P w = (r, w')"
  shows "\<exists>evs. calls (trace w') = calls (trace w) @ evs" "conns w' = conns w" "steady w w'"
  using create_loop_script [where P = P and qs = table_creations and w = w] assms
  by (auto simp: createTables_def performs_def steady_def split: prod.splits)

lemma clock_calls:
  assumes "clock P w = (t, w')"
  shows "calls (trace w') = calls (trace w)" "conns w' = conns w" "steady w w'"
  using assms by (auto simp: clock_def steady_def split: prod.splits)

lemma loadTables_calls:
  obtains r w' evs where "loadTables T P w = Some (r, w')" "r = 0 \<or> r = 1"
    "calls (trace w') = calls (trace w) @ evs" "conns w' = conns w" "steady w w'"
    "r = 1 \<longrightarrow> Exec ''COMMIT;'' SQLITE_OK \<in> set evs"
proof -
  obtain r w' where r: "loadTables T P w = Some (r, w')" "meets P (load_tables_plan T w) 0 w (r, w')"
    using load.run_meets [of T P w] by auto
  then have rr: "r = 0 \<or> r = 1" and rest: "\<exists>evs. calls (trace w') = calls (trace w) @ evs"
    "conns w' = conns w" "steady w w'"
    by (cases "load_tables_plan T w";
        auto simp: meets_def performs_def steady_def split: prod.splits if_splits)+
  show thesis
  proof (cases "r = 1")
    case True
    then obtain qs where "performs w w' (executed (''BEGIN TRANSACTION;'' # qs @ [''COMMIT;''])) (env w')"
      using load.commits [of T P w w'] r(1) by auto
    then show thesis
      using that [OF r(1) rr, of "executed (''BEGIN TRANSACTION;'' # qs @ [''COMMIT;''])"] rest
      by (simp add: performs_def)
  next
    case False
    then show thesis using that [OF r(1) rr] rest by auto
  qed
qed

lemma preload_once_effect:
  obtains go w' where "preload_once T P i w = Some (go, w')" "steady w w'"
    "go \<longrightarrow> conns w' = conns w \<and> (\<exists>body. Exec ''COMMIT;'' SQLITE_OK \<in> set body \<and>
       calls (trace w') = calls (trace w) @ Open (db_name i) 0 # body @ [Close, Remove (db_name i) 0])"
    "\<not> go \<longrightarrow> conns w' = conns w \<or>
       conns w' = conns w + 1 \<and> (\<exists>rc. rc \<noteq> 0 \<and> calls (trace w') = calls (trace w) @ [Open (db_name i) rc])"
proof -
  obtain rc w1 where o: "sqlite3_open P (db_name i) w = (rc, w1)" by force
  have o1: "calls (trace w1) = calls (trace w) @ [Open (db_name i) rc]" "conns w1 = conns w + 1" "steady w w1"
    using o by (auto simp: sqlite3_open_def emit_def steady_def split: prod.splits)
  show thesis
  proof (cases "rc = 0")
    case False
    show thesis
      by (rule that [of False "emit (Err (''Can't open database: '' @ errmsg P w1 @ nl)) w1"])
        (use o o1 False in \<open>auto simp: preload_once_eq emit_def steady_def\<close>)
  next
    case True
    obtain rc2 w2 where c: "createTables P w1 = (rc2, w2)" by force
    obtain t1 w3 where k1: "clock P w2 = (t1, w3)" by force
    obtain ok w4 evs where l: "loadTables T P w3 = Some (ok, w4)" "ok = 0 \<or> ok = 1"
      "calls (trace w4) = calls (trace w3) @ evs" "conns w4 = conns w3" "steady w3 w4"
      "ok = 1 \<longrightarrow> Exec ''COMMIT;'' SQLITE_OK \<in> set evs" by (rule loadTables_calls [of T P w3])
    obtain evs2 where evs2: "calls (trace w2) = calls (trace w1) @ evs2" using createTables_calls(1) [OF c] by blast
    have tr: "calls (trace w4) = calls (trace w) @ Open (db_name i) 0 # evs2 @ evs" "conns w4 = conns w + 1" "steady w w4"
      using o1 createTables_calls [OF c] clock_calls [OF k1] l evs2 True by (auto simp: steady_def)
    show thesis
    proof (cases "ok = 0")
      case fail: True
      show thesis
        by (rule that [of False "sqlite3_close P (emit (Err (''Error loading tables on iteration '' @ dec i @ nl)) w4)"])
          (use o True c k1 l(1) fail tr in
            \<open>auto simp: preload_once_eq emit_def steady_def sqlite3_close_def\<close>)
    next
      case load_ok: False
      obtain t2 w5 where k2: "clock P w4 = (t2, w5)" by force
      define w6 where "w6 = sqlite3_close P (emit (Out (''load tables,'' @ dec i @ '','' @ seconds_fn P (t2 - t1) @ '' s'' @ nl)) w5)"
      have w6: "calls (trace w6) = calls (trace w) @ Open (db_name i) 0 # evs2 @ evs @ [Close]" "conns w6 = conns w" "steady w w6"
        using tr clock_calls [OF k2] by (auto simp: w6_def sqlite3_close_def emit_def steady_def)
      obtain rc3 w7 where r: "remove_file P (db_name i) w6 = (rc3, w7)" by force
      have w7: "calls (trace w7) = calls (trace w6) @ [Remove (db_name i) rc3]" "conns w7 = conns w6" "steady w6 w7"
        using r by (auto simp: remove_file_def emit_def steady_def split: prod.splits)
      have res: "preload_once T P i w = Some (if rc3 \<noteq> 0
          then (False, emit (Err (''Error deleting database file '' @ db_name i @ nl)) w7) else (True, w7))"
        using o True c k1 l(1) load_ok k2 r by (simp add: preload_once_eq Let_def w6_def)
      show thesis
      proof (cases "rc3 = 0")
        case True
        have "calls (trace w7) = calls (trace w) @ Open (db_name i) 0 # (evs2 @ evs) @ [Close, Remove (db_name i) 0]"
          using w6 w7 True by simp
        then show thesis using that [of True w7] res w6 w7 True l(2,6) load_ok steady_trans by fastforce
      next
        case False
        then show thesis using that [of False "emit (Err (''Error deleting database file '' @ db_name i @ nl)) w7"] res w6 w7
          by (simp add: emit_def steady_def)
      qed
    qed
  qed
qed

lemma preload_loop_effect:
  "\<exists>r w'. preload_loop T P ks w = Some (r, w') \<and> (r = 0 \<or> r = 1) \<and> steady w w' \<and>
     (r = 1 \<longrightarrow> conns w' = conns w \<and> (\<exists>bodies. length bodies = length ks \<and>
        (\<forall>body \<in> set bodies. Exec ''COMMIT;'' SQLITE_OK \<in> set body) \<and>
        calls (trace w') = calls (trace w) @ concat (map (\<lambda>(i, body).
          Open (db_name i) 0 # body @ [Close, Remove (db_name i) 0]) (zip ks bodies)))) \<and>
     (conns w' = conns w \<or> r = 0 \<and> conns w' = conns w + 1 \<and>
        (\<exists>i rc. rc \<noteq> 0 \<and> last (calls (trace w')) = Open (db_name i) rc))"
proof (induction ks arbitrary: w)
  case (Cons i ks)
  obtain go w1 where p: "preload_once T P i w = Some (go, w1)" "steady w w1"
    "go \<longrightarrow> conns w1 = conns w \<and> (\<exists>body. Exec ''COMMIT;'' SQLITE_OK \<in> set body \<and>
       calls (trace w1) = calls (trace w) @ Open (db_name i) 0 # body @ [Close, Remove (db_name i) 0])"
    "\<not> go \<longrightarrow> conns w1 = conns w \<or>
       conns w1 = conns w + 1 \<and> (\<exists>rc. rc \<noteq> 0 \<and> calls (trace w1) = calls (trace w) @ [Open (db_name i) rc])"
    by (rule preload_once_effect [of T P i w])
  show ?case
  proof (cases go)
    case True
    obtain body where body: "Exec ''COMMIT;'' SQLITE_OK \<in> set body"
       "calls (trace w1) = calls (trace w) @ Open (db_name i) 0 # body @ [Close, Remove (db_name i) 0]"
      using p(3) True by blast
    obtain r w' where r: "preload_loop T P ks w1 = Some (r, w')" "r = 0 \<or> r = 1" "steady w1 w'"
      "conns w' = conns w1 \<or> r = 0 \<and> conns w' = conns w1 + 1 \<and>
        (\<exists>i rc. rc \<noteq> 0 \<and> last (calls (trace w')) = Open (db_name i) rc)"
      "r = 1 \<longrightarrow> conns w' = conns w1 \<and> (\<exists>bodies. length bodies = length ks \<and>
        (\<forall>body \<in> set bodies. Exec ''COMMIT;'' SQLITE_OK \<in> set body) \<and>
        calls (trace w') = calls (trace w1) @ concat (map (\<lambda>(i, body).
          Open (db_name i) 0 # body @ [Close, Remove (db_name i) 0]) (zip ks bodies)))"
      using Cons.IH [of w1] by blast
    have "\<exists>bodies. length bodies = length (i # ks) \<and>
        (\<forall>body \<in> set bodies. Exec ''COMMIT;'' SQLITE_OK \<in> set body) \<and>
        calls (trace w') = calls (trace w) @ concat (map (\<lambda>(i, body).
          Open (db_name i) 0 # body @ [Close, Remove (db_name i) 0]) (zip (i # ks) bodies))" if "r = 1"
    proof -
      obtain bodies where "length bodies = length ks"
        "\<forall>body \<in> set bodies. Exec ''COMMIT;'' SQLITE_OK \<in> set body"
        "calls (trace w') = calls (trace w1) @ concat (map (\<lambda>(i, body).
          Open (db_name i) 0 # body @ [Close, Remove (db_name i) 0]) (zip ks bodies))"
        using r(5) \<open>r = 1\<close> by blast
      then show ?thesis using body by (intro exI [of _ "body # bodies"]) simp
    qed
    with p True r show ?thesis using steady_trans [OF p(2) r(3)] by simp
  next
    case False
    then show ?thesis using p by auto
  qed
qed (simp add: steady_def)

text \<open>On a platform on which nothing fails, and with readable table files, every iteration succeeds.\<close>

lemma preload_loop_succeeds:
  assumes "\<And>cb q e. fst (exec_fn P cb q e) = SQLITE_OK" "\<And>n e. fst (open_fn P n e) = 0"
    and "\<And>n e. fst (remove_fn P n e) = 0" "load_tables_plan T w = Some (qs, True)"
  shows "\<exists>w'. preload_loop T P ks w = Some (1, w')"
  using assms(4)
proof (induction ks arbitrary: w)
  case (Cons i ks)
  obtain w1 where o: "sqlite3_open P (db_name i) w = (0, w1)" "steady w w1"
    using assms(2) [of "db_name i" "env w"]
    by (cases "open_fn P (db_name i) (env w)") (auto simp: sqlite3_open_def emit_def steady_def)
  obtain rc w2 where c: "createTables P w1 = (rc, w2)" by force
  obtain t1 w3 where k1: "clock P w2 = (t1, w3)" by force
  have "load_tables_plan T w3 = Some (qs, True)"
    using Cons.prems o(2) createTables_calls(3) [OF c] clock_calls(3) [OF k1]
    by (simp add: load_tables_plan_def steady_def)
  then obtain w4 where l: "loadTables T P w3 = Some (1, w4)" using loadTables_succeeds [OF assms(1)] by blast
  obtain t2 w5 where k2: "clock P w4 = (t2, w5)" by force
  define w6 where "w6 = sqlite3_close P (emit (Out (''load tables,'' @ dec i @ '','' @ seconds_fn P (t2 - t1) @ '' s'' @ nl)) w5)"
  obtain w7 where r: "remove_file P (db_name i) w6 = (0, w7)"
    using assms(3) [of "db_name i" "env w6"]
    by (cases "remove_fn P (db_name i) (env w6)") (auto simp: remove_file_def)
  have p: "preload_once T P i w = Some (True, w7)"
    using o(1) c k1 l k2 r by (simp add: preload_once_eq Let_def w6_def)
  then have "steady w w7" using preload_once_effect [of T P i w] by (metis option.inject prod.inject)
  then have "load_tables_plan T w7 = Some (qs, True)"
    using Cons.prems by (simp add: load_tables_plan_def steady_def)
  then show ?case using Cons.IH [of w7] p by simp
qed simp

text \<open>
  C10. When \<^verbatim>\<open>preLoadTables\<close> returns 1 it went through all its iterations; iteration \<open>i\<close>
  opened \<^verbatim>\<open>database_i.db\<close>, committed a load, closed the connection and removed the file, in that
  order, and no connection or stream is left open.
\<close>

theorem preLoadTables_cycles:
  assumes "preLoadTables T P w = Some (1, w')"
  shows "conns w' = conns w \<and> streams w' = streams w \<and>
    (\<exists>bodies. length bodies = nat (PRELOADS T) \<and>
      (\<forall>body \<in> set bodies. Exec ''COMMIT;'' SQLITE_OK \<in> set body) \<and>
      calls (trace w') = calls (trace w) @ concat (map (\<lambda>(i, body).
        Open (db_name i) 0 # body @ [Close, Remove (db_name i) 0]) (zip [1..PRELOADS T] bodies)))"
  using preload_loop_effect [of T P "[1..PRELOADS T]" w] assms by (auto simp: preLoadTables_def steady_def)

theorem preLoadTables_cycles_witness:
  "\<exists>w' bodies. preLoadTables nanos all_ok region_world = Some (1, w') \<and> length bodies = (17::nat) \<and>
    calls (trace w') = concat (map (\<lambda>(i, body).
        Open (db_name i) 0 # body @ [Close, Remove (db_name i) 0]) (zip [1..17] bodies))"
proof -
  have "map_option snd (load_tables_plan nanos region_world) = Some True" by code_simp
  then obtain qs where "load_tables_plan nanos region_world = Some (qs, True)" by auto
  then obtain w' where w': "preLoadTables nanos all_ok region_world = Some (1, w')"
    using preload_loop_succeeds [of all_ok nanos region_world qs "[1..PRELOADS nanos]"]
    by (auto simp: preLoadTables_def all_ok_def SQLITE_OK_def)
  have "PRELOADS nanos = 17" "trace region_world = []" by (simp_all add: nanos_def region_world_def)
  with w' show ?thesis using preLoadTables_cycles [OF w'] by (auto simp del: upto_rec_numeral)
qed

text \<open>
  \<^verbatim>\<open>preLoadTables\<close> always returns, with 0 or 1 and every stream closed.  A connection stays
  open only when \<^verbatim>\<open>sqlite3_open\<close> itself failed: then the function returns 0 right after the failed
  call, without the \<^verbatim>\<open>sqlite3_close\<close> that SQLite asks for.
\<close>

lemma preLoadTables_total:
  "\<exists>r w'. preLoadTables T P w = Some (r, w') \<and> (r = 0 \<or> r = 1) \<and> streams w' = streams w \<and>
     (conns w' = conns w \<or> r = 0 \<and> conns w' = conns w + 1 \<and>
        (\<exists>i rc. rc \<noteq> 0 \<and> last (calls (trace w')) = Open (db_name i) rc))"
  using preload_loop_effect [of T P "[1..PRELOADS T]" w] by (auto simp: preLoadTables_def steady_def)

section \<open>The query loop\<close>

definition query_file :: "target \<Rightarrow> int \<Rightarrow> string" where
  "query_file T i = snprintf 256 (QUERY_DIR T @ ''query'' @ dec i @ ''.sql'')"

lemmas run_query_eq = run_query_def [folded query_file_def]

text \<open>The SQL text that is sent for a query file, and the texts of one iteration.\<close>

definition query_text :: "string \<Rightarrow> string" where
  "query_text content = c_str (take 9999 content)"

definition query_texts :: "target \<Rightarrow> (string \<Rightarrow> string option) \<Rightarrow> string list" where
  "query_texts T fs = map query_text (List.map_filter (\<lambda>i. fs (query_file T i)) [1..NUM_QUERIES])"

fun sql_of :: "event list \<Rightarrow> string list" where
  "sql_of [] = []"
| "sql_of (Exec q rc # evs) = q # sql_of evs"
| "sql_of (_ # evs) = sql_of evs"

fun printed :: "event list \<Rightarrow> string list" where
  "printed [] = []"
| "printed (Out s # evs) = s # printed evs"
| "printed (_ # evs) = printed evs"

lemma sql_of_append [simp]: "sql_of (xs @ ys) = sql_of xs @ sql_of ys"
  by (induction xs rule: sql_of.induct) auto

lemma printed_append [simp]: "printed (xs @ ys) = printed xs @ printed ys"
  by (induction xs rule: printed.induct) auto

text \<open>
  \<open>queried w w' qs rows\<close>: between the two worlds the program ran the statements \<open>qs\<close> and printed
  a line for each, the text of the line beginning with the given row label.
\<close>

definition queried :: "'e world \<Rightarrow> 'e world \<Rightarrow> string list \<Rightarrow> string list \<Rightarrow> bool" where
  "queried w w' qs rows \<longleftrightarrow> steady w w' \<and> conns w' = conns w \<and>
     sql_of (trace w') = sql_of (trace w) @ qs \<and>
     (\<exists>outs. printed (trace w') = printed (trace w) @ outs \<and>
        list_all2 (\<lambda>r s. take (length r) s = r) rows outs)"

lemma queried_refl: "queried w w [] []"
  by (simp add: queried_def steady_def)

lemma queried_trans:
  assumes "queried w w1 qs rows" "queried w1 w2 qs' rows'"
  shows "queried w w2 (qs @ qs') (rows @ rows')"
proof -
  obtain outs outs' where o: "printed (trace w1) = printed (trace w) @ outs"
    "list_all2 (\<lambda>r s. take (length r) s = r) rows outs"
    "printed (trace w2) = printed (trace w1) @ outs'"
    "list_all2 (\<lambda>r s. take (length r) s = r) rows' outs'"
    using assms unfolding queried_def by blast
  have "list_all2 (\<lambda>r s. take (length r) s = r) (rows @ rows') (outs @ outs')"
    by (rule list_all2_appendI [OF o(2,4)])
  then show ?thesis using assms o(1,3) unfolding queried_def steady_def by auto
qed

definition row_label :: "int \<Rightarrow> int \<Rightarrow> string" where
  "row_label itr i = dec itr @ '','' @ dec i @ '',''"

lemma run_query_effect:
  "queried w (run_query T P itr i w)
     (case files w (query_file T i) of None \<Rightarrow> [] | Some c \<Rightarrow> [query_text c])
     (case files w (query_file T i) of None \<Rightarrow> [] | Some c \<Rightarrow> [row_label itr i])"
proof (cases "files w (query_file T i)")
  case None
  then show ?thesis by (simp add: run_query_eq fopen_def emit_def queried_def steady_def)
next
  case (Some c)
  obtain t1 w1 where k1: "clock P w = (t1, w1)" by force
  obtain rc w2 where x: "sqlite3_exec P (Some callback) (query_text c) w1 = (rc, w2)" by force
  obtain t2 w3 where k2: "clock P w2 = (t2, w3)" by force
  define line where "line = dec itr @ '','' @ dec i @ '','' @ seconds_fn P (t2 - t1) @ nl"
  have "fclose (w\<lparr>streams := streams w + 1\<rparr>) = w" by (simp add: fclose_def)
  then have run: "run_query T P itr i w = (if rc \<noteq> SQLITE_OK
      then emit (Err (''SQL error: '' @ exec_msg_fn P (env w3) @ nl)) (emit (Out line) w3) else emit (Out line) w3)"
    using Some k1 x k2
    by (simp add: run_query_eq fopen_def Let_def query_text_def MAX_QUERY_LENGTH_def line_def emit_def)
  have q: "queried w (emit (Out line) w3) [query_text c] [row_label itr i]"
    using k1 x k2 by (auto simp: queried_def steady_def clock_def sqlite3_exec_def emit_def row_label_def line_def
        split: prod.splits)
  have "queried w (emit (Err s) w') qs rows = queried w w' qs rows" for s w' qs rows
    by (simp add: queried_def steady_def emit_def)
  then show ?thesis using q Some run by simp
qed

lemma queries_effect:
  "queried w (fold (run_query T P itr) ks w)
     (map query_text (List.map_filter (\<lambda>i. files w (query_file T i)) ks))
     (map (row_label itr) (filter (\<lambda>i. files w (query_file T i) \<noteq> None) ks))"
proof (induction ks arbitrary: w)
  case (Cons i ks)
  have f: "files (run_query T P itr i w) = files w"
    using run_query_effect [of w T P itr i] by (simp add: queried_def steady_def)
  show ?case
    using queried_trans [OF run_query_effect [of w T P itr i] Cons.IH [of "run_query T P itr i w"]]
    by (auto simp: f map_filter_simps split: option.splits)
qed (simp add: queried_refl map_filter_simps)

lemma run_iteration_effect:
  "queried w (run_iteration T P itr w) (query_texts T (files w))
     (map (row_label itr) (filter (\<lambda>i. files w (query_file T i) \<noteq> None) [1..NUM_QUERIES]))"
  unfolding run_iteration_def query_texts_def by (rule queries_effect)

lemma iterations_effect:
  "queried w (fold (run_iteration T P) ks w)
     (concat (replicate (length ks) (query_texts T (files w))))
     (concat (map (\<lambda>itr. map (row_label itr) (filter (\<lambda>i. files w (query_file T i) \<noteq> None) [1..NUM_QUERIES])) ks))"
proof (induction ks arbitrary: w)
  case (Cons itr ks)
  have f: "files (run_iteration T P itr w) = files w"
    using run_iteration_effect [of w T P itr] by (simp add: queried_def steady_def)
  show ?case
    using queried_trans [OF run_iteration_effect [of w T P itr] Cons.IH [of "run_iteration T P itr w"]]
    by (simp add: f)
qed (simp add: queried_refl)

lemma open_succeeds:
  assumes "fst (open_fn P name (env w)) = 0"
  obtains w1 where "sqlite3_open P name w = (0, w1)" "steady w w1" "conns w1 = conns w + 1"
    "trace w1 = trace w @ [Open name 0]"
  using assms by (cases "open_fn P name (env w)") (auto simp: sqlite3_open_def emit_def steady_def)

lemma main_after_open:
  assumes "3 \<le> length argv" "atoi (argv ! 2) = Some n" "n < 2147483647"
    and "sqlite3_open P (argv ! 1) w = (0, w1)"
  shows "main T P argv w = Some (0, sqlite3_close P (fold (run_iteration T P) [1..n]
    (emit (Out (''iteration,query,time(s)'' @ nl)) (case OPEN_MSG T of None \<Rightarrow> w1 | Some m \<Rightarrow> emit (Err m) w1))))"
  using assms by (simp add: main_def Let_def)

text \<open>
  C5. With its two arguments and a database that opens, \<^verbatim>\<open>main\<close> returns 0 and has run, in each of
  its iterations, the queries 1 to 22 whose files can be read, in order and whether or not SQLite accepts
  them: the SQL sent is the first 9999 bytes of the file.  It prints the header and then one line per
  query that starts with the iteration and the query number, closes the database and every file.
\<close>

theorem main_runs_queries:
  assumes "3 \<le> length argv" "atoi (argv ! 2) = Some n" "n < 2147483647"
    and "fst (open_fn P (argv ! 1) (env w)) = 0"
  shows "\<exists>w'. main T P argv w = Some (0, w') \<and> streams w' = streams w \<and> conns w' = conns w \<and>
    sql_of (trace w') = sql_of (trace w) @ concat (replicate (nat n) (query_texts T (files w))) \<and>
    (\<exists>outs. printed (trace w') = printed (trace w) @ (''iteration,query,time(s)'' @ nl) # outs \<and>
       list_all2 (\<lambda>r s. take (length r) s = r)
         (concat (map (\<lambda>itr. map (row_label itr) (filter (\<lambda>i. files w (query_file T i) \<noteq> None) [1..NUM_QUERIES])) [1..n]))
         outs)"
proof -
  obtain w1 where o: "sqlite3_open P (argv ! 1) w = (0, w1)" "steady w w1" "conns w1 = conns w + 1"
    "trace w1 = trace w @ [Open (argv ! 1) 0]"
    using open_succeeds [OF assms(4)] by metis
  define w2 where "w2 = emit (Out (''iteration,query,time(s)'' @ nl))
    (case OPEN_MSG T of None \<Rightarrow> w1 | Some m \<Rightarrow> emit (Err m) w1)"
  have w2: "steady w w2" "conns w2 = conns w + 1" "sql_of (trace w2) = sql_of (trace w)"
    "printed (trace w2) = printed (trace w) @ [''iteration,query,time(s)'' @ nl]"
    using o(2-4) by (auto simp: w2_def emit_def steady_def split: option.splits)
  define w3 where "w3 = fold (run_iteration T P) [1..n] w2"
  have f: "files w2 = files w" using w2 by (simp add: steady_def)
  have q: "queried w2 w3 (concat (replicate (nat n) (query_texts T (files w))))
     (concat (map (\<lambda>itr. map (row_label itr) (filter (\<lambda>i. files w (query_file T i) \<noteq> None) [1..NUM_QUERIES])) [1..n]))"
    using iterations_effect [of w2 T P "[1..n]"] by (simp add: w3_def f)
  have "main T P argv w = Some (0, sqlite3_close P w3)"
    using main_after_open [OF assms(1-3) o(1), of T] by (simp add: w3_def w2_def)
  then show ?thesis using q w2
    by (auto simp: queried_def steady_def sqlite3_close_def emit_def)
qed

definition query_world :: "unit world" where
  "query_world = \<lparr>env = (), files = [''./queries/query6.sql'' \<mapsto> ''SELECT 1;''], dirs = (\<lambda>d. None),
     streams = 0, conns = 0, trace = []\<rparr>"

theorem main_runs_queries_witness:
  "\<exists>w'. main docker all_ok [''main'', ''tpch.db'', ''2''] query_world = Some (0, w') \<and>
     sql_of (trace w') = [''SELECT 1;'', ''SELECT 1;'']"
proof -
  have "query_texts docker (files query_world) = [''SELECT 1;'']" by code_simp
  moreover have "atoi ''2'' = Some 2" by code_simp
  moreover have "trace query_world = []" by (simp add: query_world_def)
  ultimately show ?thesis
    using main_runs_queries [of "[''main'', ''tpch.db'', ''2'']" 2 all_ok query_world docker]
    by (auto simp: all_ok_def numeral_2_eq_2)
qed

text \<open>
  The error paths of \<^verbatim>\<open>main\<close>: with too few arguments it prints the usage line and returns 1
  without any call; when the database does not open it returns 1 right after the failed call, with nothing
  executed and nothing printed to the standard output.
\<close>

lemma main_errors:
  "(length argv < 3 \<longrightarrow>
      (\<exists>m. main T P argv w = Some (1, w\<lparr>trace := trace w @ [Err m]\<rparr>))) \<and>
   (3 \<le> length argv \<and> atoi (argv ! 2) = Some n \<and> fst (open_fn P (argv ! 1) (env w)) \<noteq> 0 \<longrightarrow>
      (\<exists>w' rc m. main T P argv w = Some (1, w') \<and> rc \<noteq> 0 \<and> streams w' = streams w \<and>
         trace w' = trace w @ [Open (argv ! 1) rc, Err m] \<and> conns w' = conns w + 1))"
  by (cases "open_fn P (argv ! 1) (env w)") (auto simp: main_def emit_def sqlite3_open_def Let_def)

section \<open>The three programs compared\<close>

text \<open>The trace without the diagnostics on the standard error stream.\<close>

fun is_Err :: "event \<Rightarrow> bool" where
  "is_Err (Err s) = True"
| "is_Err ev = False"

definition visible :: "event list \<Rightarrow> event list" where
  "visible evs = filter (\<lambda>ev. \<not> is_Err ev) evs"

definition same_run :: "'e world \<Rightarrow> 'e world \<Rightarrow> bool" where
  "same_run w v \<longleftrightarrow> env v = env w \<and> visible (trace v) = visible (trace w) \<and> conns v = conns w \<and> streams v = streams w"

definition same_queries :: "target \<Rightarrow> target \<Rightarrow> 'e world \<Rightarrow> 'e world \<Rightarrow> bool" where
  "same_queries T U w v \<longleftrightarrow>
     list_all (\<lambda>i. files v (query_file U i) = files w (query_file T i)) [1..NUM_QUERIES]"

lemma visible_simps [simp]:
  "visible (xs @ ys) = visible xs @ visible ys" "visible [] = []" "visible [Err s] = []"
  "visible [Out s] = [Out s]" "visible [Exec q rc] = [Exec q rc]" "visible [Open n rc] = [Open n rc]"
  "visible [Close] = [Close]"
  by (simp_all add: visible_def)

lemma same_run_ops:
  assumes "same_run w v"
  shows "same_run w (emit (Err s) v)" "same_run (emit (Err s) w) v" "same_run (emit (Out s) w) (emit (Out s) v)"
    "same_run (sqlite3_close P w) (sqlite3_close P v)" "same_run (fclose w) (fclose v)"
    "same_run (w\<lparr>streams := streams w + 1\<rparr>) (v\<lparr>streams := streams v + 1\<rparr>)"
  using assms by (auto simp: same_run_def emit_def sqlite3_close_def fclose_def)

lemma same_run_calls:
  assumes "same_run w v"
  shows "rel_prod (=) same_run (clock P w) (clock P v)"
    "rel_prod (=) same_run (sqlite3_exec P cb q w) (sqlite3_exec P cb q v)"
    "rel_prod (=) same_run (sqlite3_open P n w) (sqlite3_open P n v)"
  using assms
  by (auto simp: same_run_def clock_def sqlite3_exec_def sqlite3_open_def emit_def split: prod.splits)

lemma run_query_same:
  assumes "same_run w v" "files v (query_file U i) = files w (query_file T i)"
  shows "same_run (run_query T P itr i w) (run_query U P itr i v)"
proof (cases "files w (query_file T i)")
  case None
  then show ?thesis using assms by (simp add: run_query_eq fopen_def same_run_ops)
next
  case (Some c)
  have 0: "fclose (x\<lparr>streams := streams x + 1\<rparr>) = x" for x :: "'a world" by (simp add: fclose_def)
  obtain t1 w1 v1 where 1: "clock P w = (t1, w1)" "clock P v = (t1, v1)" "same_run w1 v1"
    using same_run_calls(1) [OF assms(1), of P] by (auto simp: rel_prod_sel prod_eq_iff)
  obtain rc w2 v2 where 2: "sqlite3_exec P (Some callback) (query_text c) w1 = (rc, w2)"
      "sqlite3_exec P (Some callback) (query_text c) v1 = (rc, v2)" "same_run w2 v2"
    using same_run_calls(2) [OF 1(3), of P "Some callback" "query_text c"] by (auto simp: rel_prod_sel prod_eq_iff)
  obtain t2 w3 v3 where 3: "clock P w2 = (t2, w3)" "clock P v2 = (t2, v3)" "same_run w3 v3"
    using same_run_calls(1) [OF 2(3), of P] by (auto simp: rel_prod_sel prod_eq_iff)
  note eqs = run_query_eq fopen_def Let_def MAX_QUERY_LENGTH_def 0
  show ?thesis using assms(2) Some 1 2 3
    by (simp add: eqs query_text_def) (auto intro!: same_run_ops)
qed

lemma run_query_files: "files (run_query T P itr i w) = files w"
  using run_query_effect [of w T P itr i] by (simp add: queried_def steady_def)

lemma run_iteration_files: "files (run_iteration T P itr w) = files w"
  using run_iteration_effect [of w T P itr] by (simp add: queried_def steady_def)

lemma run_iteration_same:
  assumes "same_run w v" "same_queries T U w v"
  shows "same_run (run_iteration T P itr w) (run_iteration U P itr v)"
proof -
  have "same_run (fold (run_query T P itr) ks w) (fold (run_query U P itr) ks v)"
    if "same_run w v" "list_all (\<lambda>i. files v (query_file U i) = files w (query_file T i)) ks" for ks
    using that
  proof (induction ks arbitrary: w v)
    case (Cons i ks)
    show ?case
      using Cons.IH [of "run_query T P itr i w" "run_query U P itr i v"] Cons.prems
      by (simp add: run_query_same run_query_files)
  qed simp
  then show ?thesis using assms by (simp add: run_iteration_def same_queries_def)
qed

lemma iterations_same:
  assumes "same_run w v" "same_queries T U w v"
  shows "same_run (fold (run_iteration T P) ks w) (fold (run_iteration U P) ks v)"
  using assms
proof (induction ks arbitrary: w v)
  case (Cons i ks)
  show ?case
    using Cons.IH [of "run_iteration T P i w" "run_iteration U P i v"] Cons.prems
    by (simp add: run_iteration_same same_queries_def run_iteration_files)
qed simp

lemma main_same:
  assumes "same_run w v" "same_queries T U w v"
  shows "rel_option (rel_prod (=) same_run) (main T P argv w) (main U P argv v)"
proof (cases "length argv < 3 \<or> atoi (argv ! 2) = None")
  case True
  then show ?thesis using assms by (auto simp: main_def intro!: same_run_ops)
next
  case False
  then obtain n where n: "atoi (argv ! 2) = Some n" "\<not> length argv < 3" by auto
  obtain rc w1 v1 where o: "sqlite3_open P (argv ! 1) w = (rc, w1)" "sqlite3_open P (argv ! 1) v = (rc, v1)"
    "same_run w1 v1"
    using same_run_calls(3) [OF assms(1), of P "argv ! 1"] by (auto simp: rel_prod_sel prod_eq_iff)
  have f: "files w1 = files w" "files v1 = files v" using o by (auto simp: sqlite3_open_def emit_def split: prod.splits)
  define start where "start T x = emit (Out (''iteration,query,time(s)'' @ nl))
    (case OPEN_MSG T of None \<Rightarrow> x | Some m \<Rightarrow> emit (Err m) x)" for T :: target and x :: "'a world"
  have s: "same_run (start T w1) (start U v1)"
    unfolding start_def using o(3) by (auto intro!: same_run_ops split: option.splits)
  have "files (start T x) = files x" for T x by (simp add: start_def emit_def split: option.splits)
  then have "same_queries T U (start T w1) (start U v1)" using assms(2) f by (simp add: same_queries_def)
  from same_run_ops(4) [OF iterations_same [OF s this]]
  have fin: "same_run (sqlite3_close P (fold (run_iteration T P) ks (start T w1)))
      (sqlite3_close P (fold (run_iteration U P) ks (start U v1)))" for ks .
  show ?thesis
  proof (cases "rc = 0")
    case True
    then show ?thesis using n o(1,2) fin [of "[1..n]"] by (auto simp: main_def Let_def start_def)
  next
    case False
    then show ?thesis using n o by (auto simp: main_def intro!: same_run_ops)
  qed
qed

text \<open>
  C6. The three programs compute the same, each \<^verbatim>\<open>main\<close> taken from its own file: started in the same environment with the same query files
  (which the bare-metal program looks for one directory higher), they return the same code, leave the
  environment in the same state and produce the same calls and the same standard output, in the same
  order; only diagnostics differ.
\<close>

theorem programs_agree:
  assumes "same_run w v" "same_queries baremetal docker w v"
  shows "rel_option (rel_prod (=) same_run) (baremetal_main P argv w) (docker_main P argv v) \<and>
    rel_option (rel_prod (=) same_run) (docker_main P argv v) (nanos_main P argv v)"
proof
  show "rel_option (rel_prod (=) same_run) (baremetal_main P argv w) (docker_main P argv v)"
    unfolding main_instances by (rule main_same [OF assms])
  have "same_queries docker nanos v v"
    by (simp add: same_queries_def query_file_def docker_def nanos_def list_all_iff)
  then show "rel_option (rel_prod (=) same_run) (docker_main P argv v) (nanos_main P argv v)"
    unfolding main_instances by (intro main_same) (simp_all add: same_run_def)
qed

theorem programs_agree_witness:
  "rel_option (rel_prod (=) same_run)
     (baremetal_main all_ok [''main'', ''tpch.db'', ''1'']
        (query_world\<lparr>files := [''../queries/query6.sql'' \<mapsto> ''SELECT 1;'']\<rparr>))
     (docker_main all_ok [''main'', ''tpch.db'', ''1''] query_world)"
proof -
  let ?w = "query_world\<lparr>files := [''../queries/query6.sql'' \<mapsto> ''SELECT 1;'']\<rparr>"
  have "same_queries baremetal docker ?w query_world" by code_simp
  moreover have "same_run ?w query_world" by (simp add: same_run_def)
  ultimately show ?thesis using programs_agree [of ?w query_world] by blast
qed

section \<open>Time stamps and numbers\<close>

text \<open>
  \<^verbatim>\<open>print_time\<close> prints the whole milliseconds of the clock: for a normalised \<^verbatim>\<open>timespec\<close>
  the value is the largest number of milliseconds not after it, and the 64-bit arithmetic does not overflow
  for any time of less than 292 million years.
\<close>

lemma print_time_milliseconds:
  assumes "gettime_fn P (env w) = (s, n)" "0 \<le> n" "n < 1000000000" "\<bar>s\<bar> \<le> 9223372036854774"
  shows "\<exists>ms. trace (print_time P w) = trace w @ [Out (''boot finish timestamp: '' @ dec ms @ nl)] \<and>
    ms * 1000000 \<le> s * 1000000000 + n \<and> s * 1000000000 + n < (ms + 1) * 1000000 \<and>
    - (2 ^ 63) \<le> ms \<and> ms < 2 ^ 63"
proof -
  have "n sdiv 1000000 = n div 1000000" using assms(2) by (cases "n = 0") (simp_all add: signed_divide_int_def)
  then have ms: "milliseconds s n = s * 1000 + n div 1000000" by (simp add: milliseconds_def)
  have "n div 1000000 * 1000000 \<le> n" "n < (n div 1000000 + 1) * 1000000" "0 \<le> n div 1000000" "n div 1000000 \<le> 999"
    using assms(2,3) by auto
  then show ?thesis using assms(1,4)
    by (auto simp: print_time_def emit_def ms intro!: exI [of _ "milliseconds s n"])
qed

lemma print_time_milliseconds_witness:
  "\<exists>ms. trace (print_time (all_ok\<lparr>gettime_fn := \<lambda>e. (1700000000, 999999999)\<rparr>) query_world) =
     [Out (''boot finish timestamp: '' @ dec ms @ nl)] \<and> ms * 1000000 \<le> 1700000000999999999"
  using print_time_milliseconds [of "all_ok\<lparr>gettime_fn := \<lambda>e. (1700000000, 999999999)\<rparr>" query_world 1700000000 999999999]
  by (auto simp: query_world_def)

lemma digit_char: "d < 10 \<Longrightarrow> (of_char (digit d) :: nat) = 48 + d" "d < 10 \<Longrightarrow> isdigit (digit d)"
  by (simp_all add: digit_def isdigit_def Let_def)

lemma atoi_digits_dec:
  "k \<le> 2 ^ 31 \<Longrightarrow> atoi_digits 0 (dec_nat k @ rest) = atoi_digits (- int k) rest"
proof (induction k arbitrary: rest rule: dec_nat.induct)
  case (1 k)
  show ?case
  proof (cases "k < 10")
    case True
    then show ?thesis by (simp add: dec_nat.simps [of k] digit_char)
  next
    case False
    have "int (of_char (digit (k mod 10))) - 48 = int (k mod 10)" using digit_char(1) [of "k mod 10"] by simp
    then have m: "10 * (- int (k div 10)) - (int (of_char (digit (k mod 10))) - 48) = - int k" by presburger
    have "atoi_digits 0 (dec_nat k @ rest) = atoi_digits (- int (k div 10)) (digit (k mod 10) # rest)"
      using 1 False by (simp add: dec_nat.simps [of k])
    also have "\<dots> = atoi_digits (- int k) rest"
      unfolding atoi_digits.simps m Let_def using 1(2) digit_char(2) by simp
    finally show ?thesis .
  qed
qed

lemma dec_nat_head: "\<exists>d s. dec_nat k = digit d # s \<and> d < 10"
proof (induction k rule: dec_nat.induct)
  case (1 k)
  then show ?case by (cases "k < 10") (auto simp: dec_nat.simps [of k])
qed

text \<open>
  \<^verbatim>\<open>atoi\<close> reads back every 32-bit integer that \<^verbatim>\<open>%d\<close> prints: the number of iterations
  given on the command line is the number the program uses.
\<close>

lemma atoi_dec:
  assumes "- (2 ^ 31) \<le> i" "i < 2 ^ 31"
  shows "atoi (dec i) = Some i"
proof -
  obtain d s where d: "dec_nat (nat \<bar>i\<bar>) = digit d # s" "d < 10" using dec_nat_head by blast
  have e: "atoi_digits 0 (dec_nat (nat \<bar>i\<bar>)) = Some (- \<bar>i\<bar>)"
    using atoi_digits_dec [of "nat \<bar>i\<bar>" "[]"] assms by auto
  have c: "of_char (digit d) = (48 + d :: nat)" using d(2) digit_char by simp
  have "\<not> isspace (digit d)" "digit d \<noteq> CHR ''-''" "digit d \<noteq> CHR ''+''"
    using d(2) c by (auto simp: isspace_def Let_def)
  then show ?thesis
    using d e assms by (cases "i < 0") (auto simp: dec_def atoi_def isspace_def Let_def)
qed

end
