(* ===== verification/CString.thy ===== *)
theory CString
  imports CLib
begin

text \<open>
  The string routines of the C library in the OSv tree (\<^verbatim>\<open>musl_1.1.24/src/string\<close>) that the
  benchmark program relies on.  Memory maps every address to a \<^verbatim>\<open>char\<close>; a pointer is an address
  and \<open>None\<close> the null pointer.  A loop that may run forever is a \<open>partial_function\<close>, so the
  outer \<open>option\<close> of a routine is \<open>None\<close> exactly when the routine does not return.
  \<open>cstr_at m s str\<close> says that the NUL-terminated string \<open>str\<close> stands at address \<open>s\<close>.
\<close>

type_synonym mem = "nat \<Rightarrow> char"

abbreviation NUL :: char where
  "NUL \<equiv> CHR 0x00"

section \<open>Scanning memory\<close>

text \<open>
  \<open>scan step stop s\<close> is the first of \<open>s\<close>, \<open>s + step\<close>, \<dots> where \<open>stop\<close> holds:
  the shape of every pointer loop below, with the loop's condition negated.
\<close>

partial_function (option) scan :: "nat \<Rightarrow> (nat \<Rightarrow> bool) \<Rightarrow> nat \<Rightarrow> nat option" where
  "scan step stop s = (if stop s then Some s else scan step stop (s + step))"

section \<open>Words\<close>

text \<open>The macros of the word-at-a-time loops, on the 64-bit word stored at an address.\<close>

definition ONES :: u64 where
  "ONES = 0x0101010101010101"

definition HIGHS :: u64 where
  "HIGHS = 0x8080808080808080"

definition HASZERO :: "u64 \<Rightarrow> bool" where
  "HASZERO x \<longleftrightarrow> (x - ONES) AND NOT x AND HIGHS \<noteq> 0"

definition load64 :: "mem \<Rightarrow> nat \<Rightarrow> u64" where
  "load64 m a =
     of_char (m a) OR push_bit 8 (of_char (m (a + 1))) OR push_bit 16 (of_char (m (a + 2))) OR
     push_bit 24 (of_char (m (a + 3))) OR push_bit 32 (of_char (m (a + 4))) OR
     push_bit 40 (of_char (m (a + 5))) OR push_bit 48 (of_char (m (a + 6))) OR
     push_bit 56 (of_char (m (a + 7)))"

section \<open>The routines\<close>

text \<open>\<^verbatim>\<open>strlen\<close>: byte steps to an aligned address, then words, then bytes.\<close>

definition strlen :: "mem \<Rightarrow> nat \<Rightarrow> nat option" where
  "strlen m a =
     Option.bind (scan 1 (\<lambda>s. s mod 8 = 0 \<or> m s = NUL) a) (\<lambda>s.
       if s mod 8 \<noteq> 0 then Some (s - a)
       else Option.bind (scan 8 (\<lambda>w. HASZERO (load64 m w)) s) (\<lambda>w.
         Option.bind (scan 1 (\<lambda>s. m s = NUL) w) (\<lambda>s. Some (s - a))))"

definition strchrnul :: "mem \<Rightarrow> nat \<Rightarrow> char \<Rightarrow> nat option" where
  "strchrnul m s c =
     (if c = NUL then Option.bind (strlen m s) (\<lambda>n. Some (s + n))
      else
        Option.bind (scan 1 (\<lambda>s. s mod 8 = 0 \<or> m s = NUL \<or> m s = c) s) (\<lambda>s.
          if s mod 8 \<noteq> 0 then Some s
          else
            let k = ONES * of_char c in
            Option.bind (scan 8 (\<lambda>w. HASZERO (load64 m w) \<or> HASZERO (load64 m w XOR k)) s) (\<lambda>w.
              scan 1 (\<lambda>s. m s = NUL \<or> m s = c) w)))"

definition strchr :: "mem \<Rightarrow> nat \<Rightarrow> char \<Rightarrow> nat option option" where
  "strchr m s c = Option.bind (strchrnul m s c) (\<lambda>r. Some (if m r = c then Some r else None))"

fun memrchr :: "mem \<Rightarrow> nat \<Rightarrow> char \<Rightarrow> nat \<Rightarrow> nat option" where
  "memrchr m s c 0 = None"
| "memrchr m s c (Suc n) = (if m (s + n) = c then Some (s + n) else memrchr m s c n)"

definition strrchr :: "mem \<Rightarrow> nat \<Rightarrow> char \<Rightarrow> nat option option" where
  "strrchr m s c = Option.bind (strlen m s) (\<lambda>n. Some (memrchr m s c (n + 1)))"

text \<open>
  \<^verbatim>\<open>BITOP\<close> over the 256-bit set of \<^verbatim>\<open>strspn\<close> and \<^verbatim>\<open>strcspn\<close>: four
  64-bit words.  The value of the assignment is never zero, so the fill loop runs to the terminator.
\<close>

definition bitop_get :: "u64 list \<Rightarrow> char \<Rightarrow> bool" where
  "bitop_get bs c = (let b = of_char c :: nat in bs ! (b div 64) AND push_bit (b mod 64) 1 \<noteq> 0)"

definition bitop_set :: "u64 list \<Rightarrow> char \<Rightarrow> u64 list" where
  "bitop_set bs c = (let b = of_char c :: nat in bs[b div 64 := (bs ! (b div 64)) OR push_bit (b mod 64) 1])"

partial_function (option) fill_byteset :: "mem \<Rightarrow> nat \<Rightarrow> u64 list \<Rightarrow> u64 list option" where
  "fill_byteset m c bs = (if m c \<noteq> NUL \<and> bitop_get (bitop_set bs (m c)) (m c)
     then fill_byteset m (c + 1) (bitop_set bs (m c)) else Some bs)"

definition strspn :: "mem \<Rightarrow> nat \<Rightarrow> nat \<Rightarrow> nat option" where
  "strspn m s c =
     (if m c = NUL then Some 0
      else if m (c + 1) = NUL then Option.bind (scan 1 (\<lambda>t. m t \<noteq> m c) s) (\<lambda>t. Some (t - s))
      else Option.bind (fill_byteset m c [0, 0, 0, 0]) (\<lambda>bs.
        Option.bind (scan 1 (\<lambda>t. m t = NUL \<or> \<not> bitop_get bs (m t)) s) (\<lambda>t. Some (t - s))))"

definition strcspn :: "mem \<Rightarrow> nat \<Rightarrow> nat \<Rightarrow> nat option" where
  "strcspn m s c =
     (if m c = NUL \<or> m (c + 1) = NUL then Option.bind (strchrnul m s (m c)) (\<lambda>t. Some (t - s))
      else Option.bind (fill_byteset m c [0, 0, 0, 0]) (\<lambda>bs.
        Option.bind (scan 1 (\<lambda>t. m t = NUL \<or> bitop_get bs (m t)) s) (\<lambda>t. Some (t - s))))"

text \<open>
  \<^verbatim>\<open>strtok\<close> takes its static pointer and returns it with the memory and the token; in
  \<^verbatim>\<open>strtok_r\<close> that pointer is the caller's.  The two bodies are the same.
\<close>

definition strtok_r :: "mem \<Rightarrow> nat option \<Rightarrow> nat \<Rightarrow> nat option \<Rightarrow> (mem \<times> nat option \<times> nat option) option" where
  "strtok_r m s sep p =
     (case (case s of None \<Rightarrow> p | Some a \<Rightarrow> Some a) of
        None \<Rightarrow> Some (m, p, None)
      | Some a \<Rightarrow>
          Option.bind (strspn m a sep) (\<lambda>n.
            let b = a + n in
            if m b = NUL then Some (m, None, None)
            else Option.bind (strcspn m b sep) (\<lambda>k.
              let e = b + k in
              if m e \<noteq> NUL then Some (m(e := NUL), Some (e + 1), Some b) else Some (m, None, Some b))))"

definition strtok :: "mem \<Rightarrow> nat option \<Rightarrow> nat \<Rightarrow> nat option \<Rightarrow> (mem \<times> nat option \<times> nat option) option" where
  "strtok m s sep p =
     (case (case s of None \<Rightarrow> p | Some a \<Rightarrow> Some a) of
        None \<Rightarrow> Some (m, p, None)
      | Some a \<Rightarrow>
          Option.bind (strspn m a sep) (\<lambda>n.
            let b = a + n in
            if m b = NUL then Some (m, None, None)
            else Option.bind (strcspn m b sep) (\<lambda>k.
              let e = b + k in
              if m e \<noteq> NUL then Some (m(e := NUL), Some (e + 1), Some b) else Some (m, None, Some b))))"

end
