(* ===== verification/CStringLemmas.thy ===== *)
theory CStringLemmas
  imports CString
begin

text \<open>
  Correctness of the string routines: pointer scans find the first place where they may stop, the
  zero-byte test of the word loops misses no zero byte, and each routine computes the corresponding list
  function on the NUL-terminated strings it is given.
\<close>

section \<open>Scans\<close>

lemma scan_first:
  assumes "stop (s + k * step)"
  obtains j where "j \<le> k" "scan step stop s = Some (s + j * step)" "stop (s + j * step)"
    "\<And>i. i < j \<Longrightarrow> \<not> stop (s + i * step)"
  using assms
proof (induction k arbitrary: s thesis)
  case 0
  then show ?case by (subst (asm) scan.simps) simp
next
  case (Suc k)
  show ?case
  proof (cases "stop s")
    case True
    then show ?thesis using Suc.prems(1) [of 0] by (simp add: scan.simps)
  next
    case False
    have "stop (s + step + k * step)" using Suc.prems(2) by (simp add: algebra_simps)
    then obtain j where j: "j \<le> k" "scan step stop (s + step) = Some (s + step + j * step)"
      "stop (s + step + j * step)" "\<And>i. i < j \<Longrightarrow> \<not> stop (s + step + i * step)"
      using Suc.IH [of "s + step"] by blast
    have "scan step stop s = Some (s + Suc j * step)" using False j(2) by (subst scan.simps) (simp add: algebra_simps)
    moreover have "\<not> stop (s + i * step)" if "i < Suc j" for i
      using that False j(4) by (cases i) (auto simp: algebra_simps)
    ultimately show ?thesis using Suc.prems(1) [of "Suc j"] j(1,3) by (simp add: algebra_simps)
  qed
qed

lemma scan_bytes:
  assumes "P (a + n)" "\<And>i. i < n \<Longrightarrow> \<not> P (a + i)"
  shows "scan 1 P a = Some (a + n)"
proof -
  obtain j where j: "j \<le> n" "scan 1 P a = Some (a + j)" "P (a + j)" "\<And>i. i < j \<Longrightarrow> \<not> P (a + i)"
    by (rule scan_first [of P a n 1]) (use assms in auto)
  then show ?thesis using assms(2) [of j] by (cases "j = n") auto
qed

text \<open>
  The word loops: bytes up to an aligned address, then words until a test that misses no place where
  \<open>P\<close> holds, then bytes.  The three scans meet at the first place where \<open>P\<close> holds.
\<close>

lemma word_search:
  assumes "P (a + n)" "\<And>i. i < n \<Longrightarrow> \<not> P (a + i)" "\<And>w i. i < 8 \<Longrightarrow> P (w + i) \<Longrightarrow> W w"
  obtains s w where "scan 1 (\<lambda>s. s mod 8 = 0 \<or> P s) a = Some s" "s mod 8 \<noteq> 0 \<longrightarrow> s = a + n"
    "scan 8 W s = Some w" "scan 1 P w = Some (a + n)"
proof -
  obtain j where j: "j \<le> n" "scan 1 (\<lambda>s. s mod 8 = 0 \<or> P s) a = Some (a + j)" "(a + j) mod 8 = 0 \<or> P (a + j)"
    by (rule scan_first [of "\<lambda>s. s mod 8 = 0 \<or> P s" a n 1]) (use assms in auto)
  define k where "k = (n - j) div 8"
  have "W (a + j + k * 8)"
  proof (rule assms(3))
    show "(n - j) mod 8 < 8" by simp
    have "a + j + k * 8 + (n - j) mod 8 = a + n" using j(1) by (simp add: k_def)
    then show "P (a + j + k * 8 + (n - j) mod 8)" using assms(1) by metis
  qed
  then obtain l where l: "l \<le> k" "scan 8 W (a + j) = Some (a + j + l * 8)"
    by (rule scan_first [of W "a + j" k 8]) auto
  have le: "j + l * 8 \<le> n" using l(1) j(1) by (auto simp: k_def)
  have "scan 1 P (a + j + l * 8) = Some (a + j + l * 8 + (n - (j + l * 8)))"
    by (rule scan_bytes) (use assms le in \<open>auto simp: add.assoc\<close>)
  then have "scan 1 P (a + j + l * 8) = Some (a + n)" using le by simp
  moreover have "(a + j) mod 8 \<noteq> 0 \<longrightarrow> a + j = a + n"
    using j(1,3) assms(2) [of j] by (cases "j = n") auto
  ultimately show thesis using that [OF j(2) _ l(2)] by blast
qed

section \<open>The zero-byte test\<close>

definition byte_of :: "u64 \<Rightarrow> nat \<Rightarrow> u64" where
  "byte_of x j = take_bit 8 (drop_bit (8 * j) x)"

lemma uint_byte_of: "uint (byte_of x j) = uint x div 256 ^ j mod 256"
proof -
  have "(256 :: int) ^ j = 2 ^ (8 * j)" by (simp add: power_mult)
  moreover have "take_bit LENGTH(64) (uint x) = uint x" by (metis take_bit_word_eq_self unsigned_take_bit_eq order_refl)
  ultimately show ?thesis
    unfolding byte_of_def unsigned_take_bit_eq unsigned_drop_bit_eq
    by (simp only: take_bit_eq_mod [of 8] drop_bit_eq_div) simp
qed

lemma ones_le:
  fixes X :: int
  assumes "0 \<le> X" "\<And>j. j < i \<Longrightarrow> 1 \<le> X div 256 ^ j mod 256"
  shows "(\<Sum>j < i. 256 ^ j) \<le> X mod 256 ^ i"
  using assms(2)
proof (induction i)
  case (Suc i)
  have "X mod 256 ^ Suc i = 256 ^ i * (X div 256 ^ i mod 256) + X mod 256 ^ i"
    using mod_mult2_eq' [of X "256 ^ i" 256] by (simp add: mult.commute)
  moreover have "256 ^ i * 1 \<le> 256 ^ i * (X div 256 ^ i mod 256)"
    using Suc.prems [of i] by (intro mult_left_mono) auto
  moreover have "(\<Sum>j < i. 256 ^ j) \<le> X mod 256 ^ i" using Suc by simp
  moreover have "(\<Sum>j < Suc i. (256 :: int) ^ j) = (\<Sum>j < i. 256 ^ j) + 256 ^ i" by simp
  ultimately show ?case by linarith
qed simp

text \<open>The bytes of a loaded word, of a repeated character and of a difference of words.\<close>

lemma bit_of_char: "bit (of_char c :: u64) n \<Longrightarrow> n < 8"
  unfolding of_char_def bit_horner_sum_bit_iff by simp

lemma bit_pushed_char:
  assumes "n < 8" "i < 8" "k = 8 * j"
  shows "bit (push_bit k (of_char c) :: u64) (8 * i + n) \<longleftrightarrow> i = j \<and> bit (of_char c :: u64) n"
proof (cases "i = j")
  case False
  then have "8 * i + n < k \<or> 8 \<le> 8 * i + n - k" using assms by auto
  then show ?thesis using False bit_of_char [of c "8 * i + n - k"] by (auto simp: bit_simps)
qed (use assms in \<open>simp add: bit_simps\<close>)

lemma byte_of_load64:
  assumes "i < 8"
  shows "byte_of (load64 m a) i = of_char (m (a + i))"
proof (rule bit_word_eqI)
  fix n assume "n < LENGTH(64)"
  show "bit (byte_of (load64 m a) i) n = bit (of_char (m (a + i)) :: u64) n"
  proof (cases "n < 8")
    case True
    note p = bit_pushed_char [OF True assms]
    have "i \<in> {0, 1, 2, 3, 4, 5, 6, 7}" using assms by auto
    then have "bit (load64 m a) (8 * i + n) = bit (of_char (m (a + i)) :: u64) n"
      unfolding load64_def bit_or_iff
      using p [of 0 0 "m a"] p [of 8 1 "m (a + 1)"] p [of 16 2 "m (a + 2)"] p [of 24 3 "m (a + 3)"]
        p [of 32 4 "m (a + 4)"] p [of 40 5 "m (a + 5)"] p [of 48 6 "m (a + 6)"] p [of 56 7 "m (a + 7)"]
      by (elim insertE) simp_all
    then show ?thesis using True by (simp add: byte_of_def bit_simps add.commute)
  next
    case False
    then show ?thesis using bit_of_char [of "m (a + i)" n] by (auto simp: byte_of_def bit_simps)
  qed
qed

lemma byte_of_xor: "byte_of (x XOR y) i = byte_of x i XOR byte_of y i"
  by (simp add: byte_of_def)

lemma uint_of_char: "uint (of_char c :: u64) = of_char c" "(of_char c :: int) < 256" "0 \<le> (of_char c :: int)"
proof -
  show lt: "(of_char c :: int) < 256" and ge: "0 \<le> (of_char c :: int)"
    using of_char_mod_256 [of c, where 'a = int] by (metis pos_mod_bound pos_mod_sign zero_less_numeral)+
  have "(of_char c :: u64) = word_of_int (of_char c)" by (metis of_int_of_char)
  then show "uint (of_char c :: u64) = of_char c" using lt ge
    by (simp add: uint_word_of_int_eq take_bit_int_eq_self)
qed

lemma digit_of_sum:
  fixes N :: int
  assumes "N = (256 * a + x) * P + r" "0 \<le> r" "r < P" "0 \<le> x" "x < 256"
  shows "N div P mod 256 = x"
proof -
  have "N div P = 256 * a + x" using assms(1-3) by (intro int_div_pos_eq [where r = r]) auto
  then show ?thesis using assms(4,5) by simp
qed

lemma byte_of_repeat:
  assumes "i < 8"
  shows "byte_of (ONES * of_char c) i = of_char c"
proof -
  define x where "x = (of_char c :: int)"
  have x: "0 \<le> x" "x < 256" by (simp_all add: x_def uint_of_char)
  have "uint (ONES * of_char c) = 0x0101010101010101 * x"
    using x by (simp add: uint_word_ariths uint_of_char ONES_def flip: x_def)
  then have u: "uint (byte_of (ONES * of_char c) i) = (0x0101010101010101 * x) div 256 ^ i mod 256"
    by (simp add: uint_byte_of)
  have "i \<in> {0, 1, 2, 3, 4, 5, 6, 7}" using assms by auto
  then have "(0x0101010101010101 * x) div 256 ^ i mod 256 = x"
    using x by (intro digit_of_sum [where a = "(\<Sum>j < 7 - i. 256 ^ j) * x" and r = "(\<Sum>j < i. 256 ^ j) * x"])
      (auto simp: lessThan_nat_numeral lessThan_Suc)
  then show ?thesis using u uint_of_char(1) [of c] by (simp add: x_def word_uint_eq_iff)
qed

lemma HASZERO_complete:
  assumes "i < 8" "byte_of x i = 0"
  shows "HASZERO x"
proof -
  obtain k where k: "byte_of x k = 0" "k \<le> i" "\<And>j. j < k \<Longrightarrow> byte_of x j \<noteq> 0"
    using ex_least_nat_le [of "\<lambda>i. byte_of x i = 0" i] assms(2) by auto
  define X p where "X = uint x" and "p = (256 :: int) ^ k"
  define s where "s = (\<Sum>j < k. (256 :: int) ^ j)"
  have z: "X div p mod 256 = 0" using k(1) uint_byte_of [of x k] by (simp add: X_def p_def)
  have nz: "1 \<le> X div 256 ^ j mod 256" if "j < k" for j
  proof -
    have "uint (byte_of x j) \<noteq> 0" using k(3) [OF that] by (simp add: unsigned_eq_0_iff)
    moreover have "0 \<le> uint (byte_of x j)" by simp
    ultimately show ?thesis unfolding uint_byte_of X_def by linarith
  qed
  have a: "s \<le> X mod p" "X mod p < p" "0 < p"
    using ones_le [of X k] nz by (auto simp: s_def p_def X_def)
  have s0: "0 \<le> s" by (simp add: s_def sum_nonneg)
  have "k < 8" using k(2) assms(1) by simp
  then have k8: "k \<in> {0, 1, 2, 3, 4, 5, 6, 7}" by auto
  define t where "t = (0x0101010101010101 :: int) div (256 * p)"
  have t: "(0x0101010101010101 :: int) = s + p + 256 * p * t"
    using k8 by (auto simp: s_def p_def t_def lessThan_nat_numeral)
  define q where "q = X div p div 256"
  have X: "X = X mod p + 256 * p * q"
  proof -
    have "X div p = 256 * q" using z mult_div_mod_eq [of 256 "X div p"] unfolding q_def by linarith
    then have "p * (X div p) = 256 * p * q" by simp
    then show ?thesis using mult_div_mod_eq [of p X] by linarith
  qed
  have "bit (x - ONES) (8 * k + 7)"
  proof -
    have w: "x - ONES = word_of_int (X - 0x0101010101010101)" by (simp add: X_def ONES_def)
    have e: "X - 0x0101010101010101 = (255 * p + (X mod p - s)) + 128 * p * (2 * (q - t - 1))"
      using X t by (simp add: algebra_simps)
    have "(255 * p + (X mod p - s)) div (128 * p) = 1"
      using a s0 by (intro int_div_pos_eq [where r = "127 * p + (X mod p - s)"]) linarith+
    then have "(X - 0x0101010101010101) div (128 * p) = 1 + 2 * (q - t - 1)"
      unfolding e using a(3) by (simp add: div_mult_self2)
    moreover have "128 * p = 2 ^ (8 * k + 7)" by (simp add: p_def power_add power_mult)
    ultimately have "bit (X - 0x0101010101010101) (8 * k + 7)" by (simp add: bit_iff_odd)
    moreover have "8 * k + 7 < LENGTH(64)" using k8 by auto
    ultimately show ?thesis unfolding w bit_word_of_int_iff by blast
  qed
  moreover have "\<not> bit x (8 * k + 7)"
  proof -
    have "\<not> bit (byte_of x k) 7" by (simp add: k(1))
    then show ?thesis by (simp add: byte_of_def bit_simps add.commute)
  qed
  moreover have "bit HIGHS (8 * k + 7)"
  proof -
    have "HIGHS = ONES * of_char (CHR 0x80)" by (simp add: HIGHS_def ONES_def)
    then have "byte_of HIGHS k = 0x80" using byte_of_repeat [OF \<open>k < 8\<close>, of "CHR 0x80"] by simp
    then have "bit (byte_of HIGHS k) 7" by simp
    then show ?thesis by (simp add: byte_of_def bit_simps add.commute)
  qed
  moreover have "8 * k + 7 < 64" using k8 by auto
  ultimately have "bit ((x - ONES) AND NOT x AND HIGHS) (8 * k + 7)" by (simp add: bit_simps)
  then have "(x - ONES) AND NOT x AND HIGHS \<noteq> 0" by (intro notI) (simp only: bit_0_eq bot_apply bot_bool_def)
  then show ?thesis unfolding HASZERO_def .
qed

lemma HASZERO_load64: "i < 8 \<Longrightarrow> m (w + i) = NUL \<Longrightarrow> HASZERO (load64 m w)"
  by (rule HASZERO_complete [of i]) (simp_all add: byte_of_load64)

lemma HASZERO_load64_xor:
  "i < 8 \<Longrightarrow> m (w + i) = c \<Longrightarrow> HASZERO (load64 m w XOR ONES * of_char c)"
  by (rule HASZERO_complete [of i]) (simp_all add: byte_of_xor byte_of_load64 byte_of_repeat)

section \<open>Strings in memory\<close>

text \<open>\<open>cstr_at m a s\<close>: the NUL-terminated string \<open>s\<close> stands at address \<open>a\<close>.\<close>

definition cstr_at :: "mem \<Rightarrow> nat \<Rightarrow> string \<Rightarrow> bool" where
  "cstr_at m a s \<longleftrightarrow> (\<forall>i < length s. m (a + i) = s ! i) \<and> NUL \<notin> set s \<and> m (a + length s) = NUL"

lemma cstr_at_nth: "cstr_at m a s \<Longrightarrow> i < length s \<Longrightarrow> m (a + i) = s ! i \<and> s ! i \<noteq> NUL"
  by (metis cstr_at_def nth_mem)

lemma cstr_at_end: "cstr_at m a s \<Longrightarrow> m (a + length s) = NUL"
  by (simp add: cstr_at_def)

lemma cstr_at_drop: "cstr_at m a s \<Longrightarrow> k \<le> length s \<Longrightarrow> cstr_at m (a + k) (drop k s)"
  by (auto simp: cstr_at_def add.assoc dest: in_set_dropD)

lemma cstr_at_Cons: "cstr_at m a (c # s) \<longleftrightarrow> m a = c \<and> c \<noteq> NUL \<and> cstr_at m (a + 1) s"
proof
  assume l: "cstr_at m a (c # s)"
  have "m (a + 0) = c \<and> c \<noteq> NUL" using cstr_at_nth [OF l, of 0] by simp
  moreover have "cstr_at m (a + 1) s" using cstr_at_drop [OF l, of 1] by simp
  ultimately show "m a = c \<and> c \<noteq> NUL \<and> cstr_at m (a + 1) s" by simp
next
  assume r: "m a = c \<and> c \<noteq> NUL \<and> cstr_at m (a + 1) s"
  then show "cstr_at m a (c # s)"
    by (auto simp: cstr_at_def nth_Cons' less_Suc_eq_0_disj)
qed

lemma cstr_at_Nil: "cstr_at m a [] \<longleftrightarrow> m a = NUL"
  by (simp add: cstr_at_def)

text \<open>The first place where a condition on characters holds that holds of NUL.\<close>

lemma cstr_at_takeWhile:
  assumes "cstr_at m a s" "Q NUL"
  shows "Q (m (a + length (takeWhile (\<lambda>c. \<not> Q c) s)))"
    "i < length (takeWhile (\<lambda>c. \<not> Q c) s) \<Longrightarrow> \<not> Q (m (a + i))"
proof -
  let ?n = "length (takeWhile (\<lambda>c. \<not> Q c) s)"
  show "Q (m (a + ?n))"
  proof (cases "?n < length s")
    case True
    then show ?thesis using cstr_at_nth [OF assms(1) True] nth_length_takeWhile [OF True] by simp
  next
    case False
    then have "?n = length s" using length_takeWhile_le [of "\<lambda>c. \<not> Q c" s] by linarith
    then show ?thesis using cstr_at_end [OF assms(1)] assms(2) by simp
  qed
  show "\<not> Q (m (a + i))" if "i < ?n"
  proof -
    have "i < length s" using that length_takeWhile_le [of "\<lambda>c. \<not> Q c" s] by linarith
    moreover have "\<not> Q (s ! i)" using that by (metis nth_mem set_takeWhileD takeWhile_nth)
    ultimately show ?thesis using cstr_at_nth [OF assms(1)] by simp
  qed
qed

lemma takeWhile_not_NUL: "cstr_at m a s \<Longrightarrow> takeWhile (\<lambda>c. c \<noteq> NUL) s = s"
  by (auto simp: cstr_at_def takeWhile_eq_all_conv)

lemma strlen_eq:
  assumes "cstr_at m a s"
  shows "strlen m a = Some (length s)"
proof -
  have q: "m (a + length s) = NUL" "\<And>i. i < length s \<Longrightarrow> m (a + i) \<noteq> NUL"
    using cstr_at_end [OF assms] cstr_at_nth [OF assms] by auto
  obtain s1 w where "scan 1 (\<lambda>s. s mod 8 = 0 \<or> m s = NUL) a = Some s1" "s1 mod 8 \<noteq> 0 \<longrightarrow> s1 = a + length s"
    "scan 8 (\<lambda>w. HASZERO (load64 m w)) s1 = Some w" "scan 1 (\<lambda>s. m s = NUL) w = Some (a + length s)"
    using word_search [of "\<lambda>s. m s = NUL" a "length s" "\<lambda>w. HASZERO (load64 m w)"] q HASZERO_load64 by blast
  then show ?thesis by (auto simp: strlen_def)
qed

lemma strchrnul_eq:
  assumes "cstr_at m a s"
  shows "strchrnul m a c = Some (a + length (takeWhile (\<lambda>x. x \<noteq> c) s))"
proof (cases "c = NUL")
  case True
  then show ?thesis unfolding True takeWhile_not_NUL [OF assms] strchrnul_def by (simp add: strlen_eq [OF assms])
next
  case False
  let ?P = "\<lambda>s. m s = NUL \<or> m s = c"
  let ?n = "length (takeWhile (\<lambda>x. x \<noteq> c) s)"
  have "takeWhile (\<lambda>x. \<not> (x = NUL \<or> x = c)) s = takeWhile (\<lambda>x. x \<noteq> c) s"
    using assms by (intro takeWhile_cong) (auto simp: cstr_at_def)
  then have q: "?P (a + ?n)" "\<And>i. i < ?n \<Longrightarrow> \<not> ?P (a + i)"
    using cstr_at_takeWhile [OF assms, of "\<lambda>x. x = NUL \<or> x = c"] by auto
  have w: "HASZERO (load64 m w) \<or> HASZERO (load64 m w XOR ONES * of_char c)" if "i < 8" "?P (w + i)" for w i
    using that HASZERO_load64 HASZERO_load64_xor by auto
  obtain s1 w where "scan 1 (\<lambda>s. s mod 8 = 0 \<or> ?P s) a = Some s1" "s1 mod 8 \<noteq> 0 \<longrightarrow> s1 = a + ?n"
    "scan 8 (\<lambda>w. HASZERO (load64 m w) \<or> HASZERO (load64 m w XOR ONES * of_char c)) s1 = Some w"
    "scan 1 ?P w = Some (a + ?n)"
    using word_search [of ?P a ?n "\<lambda>w. HASZERO (load64 m w) \<or> HASZERO (load64 m w XOR ONES * of_char c)"] q w
    by blast
  then show ?thesis using False by (auto simp: strchrnul_def Let_def)
qed

lemma memrchr_eq:
  "(\<And>i. i < n \<Longrightarrow> m (a + i) = s ! i) \<Longrightarrow> n = length s \<Longrightarrow>
     memrchr m a c n = map_option (\<lambda>i. a + i) (strrchr_index s c)"
proof (induction n arbitrary: s)
  case (Suc n)
  obtain xs x where s: "s = xs @ [x]" using Suc.prems(2) by (cases s rule: rev_cases) auto
  have idx: "strrchr_index (xs @ [x]) c = (if x = c then Some (length xs) else strrchr_index xs c)"
    by (induction xs) auto
  have "m (a + n) = x" using Suc.prems(1) [of n] Suc.prems(2) by (simp add: s)
  moreover have "memrchr m a c n = map_option (\<lambda>i. a + i) (strrchr_index xs c)"
    using Suc.prems by (intro Suc.IH) (auto simp: s nth_append dest: less_SucI)
  ultimately show ?case using Suc.prems(2) by (simp add: s idx)
qed simp

lemma strrchr_eq:
  assumes "cstr_at m a s" "c \<noteq> NUL"
  shows "strrchr m a c = Some (map_option (\<lambda>i. a + i) (strrchr_index s c))"
proof -
  have "memrchr m a c (length s) = map_option (\<lambda>i. a + i) (strrchr_index s c)"
    using assms(1) by (intro memrchr_eq) (auto simp: cstr_at_def)
  moreover have "m (a + length s) \<noteq> c" using assms by (auto simp: cstr_at_def)
  ultimately show ?thesis by (simp add: strrchr_def strlen_eq [OF assms(1)])
qed

section \<open>Sets of characters\<close>

lemma bitop_get_set:
  assumes "length bs = 4"
  shows "bitop_get (bitop_set bs c) x \<longleftrightarrow> x = c \<or> bitop_get bs x" "length (bitop_set bs c) = 4"
proof -
  define b d where "b = (of_char c :: nat)" and "d = (of_char x :: nat)"
  have lt: "b < 256" "d < 256" by (simp_all add: b_def d_def)
  have bd: "b = d \<longleftrightarrow> x = c" by (auto simp: b_def d_def)
  have get: "bitop_get ys x \<longleftrightarrow> bit (ys ! (d div 64)) (d mod 64)" for ys
  proof -
    have "(w AND push_bit n 1 \<noteq> 0) = bit w n" if "n < 64" for w :: u64 and n
    proof -
      have "w AND push_bit n 1 = (if bit w n then push_bit n 1 else 0)"
        by (rule bit_word_eqI) (auto simp: bit_simps)
      moreover have "bit (push_bit n (1 :: u64)) n" using that by (simp add: bit_simps)
      then have "push_bit n (1 :: u64) \<noteq> 0" by (metis bit_0_eq bot_apply bot_bool_def)
      ultimately show ?thesis by simp
    qed
    then show ?thesis by (simp add: bitop_get_def Let_def d_def)
  qed
  have idx: "b div 64 < 4" using lt by simp
  show "length (bitop_set bs c) = 4" by (simp add: bitop_set_def Let_def assms)
  show "bitop_get (bitop_set bs c) x \<longleftrightarrow> x = c \<or> bitop_get bs x"
  proof (cases "d div 64 = b div 64")
    case True
    then have "d mod 64 = b mod 64 \<longleftrightarrow> x = c" using bd by (metis div_mult_mod_eq)
    then show ?thesis using True idx assms
      by (auto simp: get bitop_set_def Let_def bit_simps simp flip: b_def)
  next
    case False
    then have "x \<noteq> c" using bd by auto
    then show ?thesis using False by (simp add: get bitop_set_def Let_def flip: b_def)
  qed
qed

lemma bitop_get_empty: "\<not> bitop_get [0, 0, 0, 0] x"
proof -
  have "(of_char x :: nat) div 64 < 4" by (simp add: div_less_iff_less_mult)
  moreover have "k < 4 \<Longrightarrow> [0, 0, 0, 0 :: u64] ! k = 0" for k by (auto simp: less_Suc_eq numeral_eq_Suc)
  ultimately show ?thesis by (simp add: bitop_get_def Let_def)
qed

lemma fill_byteset_eq:
  assumes "cstr_at m c ds" "length bs = 4"
  shows "\<exists>bs'. fill_byteset m c bs = Some bs' \<and> (\<forall>x. bitop_get bs' x \<longleftrightarrow> x \<in> set ds \<or> bitop_get bs x)"
  using assms
proof (induction ds arbitrary: c bs)
  case Nil
  then have "fill_byteset m c bs = Some bs" by (subst fill_byteset.simps) (simp add: cstr_at_Nil)
  then show ?case by simp
next
  case (Cons d ds)
  note g = bitop_get_set [OF Cons.prems(2)]
  have c: "m c = d" "d \<noteq> NUL" "cstr_at m (c + 1) ds" using Cons.prems(1) by (simp_all add: cstr_at_Cons)
  obtain bs' where bs': "fill_byteset m (c + 1) (bitop_set bs d) = Some bs'"
    "\<forall>x. bitop_get bs' x \<longleftrightarrow> x \<in> set ds \<or> bitop_get (bitop_set bs d) x"
    using Cons.IH [OF c(3) g(2)] by blast
  have "fill_byteset m c bs = Some bs'" using c bs'(1) g(1) by (subst fill_byteset.simps) simp
  then show ?case using bs'(2) g(1) by auto
qed

lemma byteset:
  assumes "cstr_at m c ds"
  obtains bs where "fill_byteset m c [0, 0, 0, 0] = Some bs" "\<forall>x. bitop_get bs x \<longleftrightarrow> x \<in> set ds"
  using fill_byteset_eq [OF assms, of "[0, 0, 0, 0]"] bitop_get_empty by auto

lemma strcspn_eq:
  assumes "cstr_at m a s" "cstr_at m c ds"
  shows "strcspn m a c = Some (length (takeWhile (\<lambda>x. x \<notin> set ds) s))"
proof (cases "m c = NUL \<or> m (c + 1) = NUL")
  case True
  have "takeWhile (\<lambda>x. x \<noteq> m c) s = takeWhile (\<lambda>x. x \<notin> set ds) s"
  proof (cases ds)
    case Nil
    then have "m c = NUL" using assms(2) by (simp add: cstr_at_Nil)
    then show ?thesis using assms(1) Nil by (intro takeWhile_cong) (auto simp: cstr_at_def)
  next
    case (Cons d es)
    then have "m c = d" "es = []"
      using assms(2) True by (auto simp: cstr_at_Cons, cases es, auto simp: cstr_at_Cons)
    then show ?thesis using Cons by simp
  qed
  then show ?thesis using True strchrnul_eq [OF assms(1), of "m c"] by (simp add: strcspn_def)
next
  case False
  obtain bs where bs: "fill_byteset m c [0, 0, 0, 0] = Some bs" "\<forall>x. bitop_get bs x \<longleftrightarrow> x \<in> set ds"
    using byteset [OF assms(2)] .
  have "takeWhile (\<lambda>x. \<not> (x = NUL \<or> x \<in> set ds)) s = takeWhile (\<lambda>x. x \<notin> set ds) s"
    using assms(1) by (intro takeWhile_cong) (auto simp: cstr_at_def)
  then have "scan 1 (\<lambda>t. m t = NUL \<or> bitop_get bs (m t)) a = Some (a + length (takeWhile (\<lambda>x. x \<notin> set ds) s))"
    using cstr_at_takeWhile [OF assms(1), of "\<lambda>x. x = NUL \<or> x \<in> set ds"]
    by (intro scan_bytes) (auto simp: bs(2))
  then show ?thesis using False bs(1) by (simp add: strcspn_def)
qed

lemma strspn_eq:
  assumes "cstr_at m a s" "cstr_at m c ds"
  shows "strspn m a c = Some (length (takeWhile (\<lambda>x. x \<in> set ds) s))"
proof -
  have tw: "length (takeWhile (\<lambda>x. \<not> (x = NUL \<or> x \<notin> set ds)) s) = length (takeWhile (\<lambda>x. x \<in> set ds) s)"
    using assms(1) by (intro arg_cong [of _ _ length] takeWhile_cong) (auto simp: cstr_at_def)
  note tw2 = cstr_at_takeWhile [OF assms(1), of "\<lambda>x. x = NUL \<or> x \<notin> set ds", unfolded tw]
  show ?thesis
  proof (cases "m c = NUL")
    case True
    then have "ds = []" using assms(2) by (cases ds) (auto simp: cstr_at_Cons)
    then show ?thesis using True by (cases s) (auto simp: strspn_def)
  next
    case c: False
    show ?thesis
    proof (cases "m (c + 1) = NUL")
      case True
      then have ds: "ds = [m c]"
        using c assms(2) by (cases ds; cases "tl ds") (auto simp: cstr_at_Cons cstr_at_Nil)
      have nul: "NUL \<notin> set ds" using c ds by simp
      have "scan 1 (\<lambda>t. m t \<noteq> m c) a = Some (a + length (takeWhile (\<lambda>x. x \<in> set ds) s))"
        using tw2 nul by (intro scan_bytes) (auto simp: ds)
      then show ?thesis using True c by (simp add: strspn_def)
    next
      case False
      obtain bs where bs: "fill_byteset m c [0, 0, 0, 0] = Some bs" "\<forall>x. bitop_get bs x \<longleftrightarrow> x \<in> set ds"
        using byteset [OF assms(2)] .
      have "scan 1 (\<lambda>t. m t = NUL \<or> \<not> bitop_get bs (m t)) a = Some (a + length (takeWhile (\<lambda>x. x \<in> set ds) s))"
        using tw2 by (intro scan_bytes) (auto simp: bs(2))
      then show ?thesis using False c bs(1) by (simp add: strspn_def)
    qed
  qed
qed

end
