(* ===== verification/CStringProps.thy ===== *)
theory CStringProps
  imports CStringLemmas
begin

text \<open>
  The properties of the string routines, and the tie between the two levels of the development: the
  loop over \<^verbatim>\<open>strtok\<close> calls in memory produces the list \<open>tokens\<close> on which the model of the
  benchmark program is built.
\<close>

section \<open>Tokens in memory\<close>

definition apart :: "nat \<Rightarrow> nat \<Rightarrow> nat \<Rightarrow> nat \<Rightarrow> bool" where
  "apart a n b k \<longleftrightarrow> a + n < b \<or> b + k < a"

lemma cstr_at_upd: "cstr_at m a s \<Longrightarrow> e < a \<or> a + length s < e \<Longrightarrow> cstr_at (m(e := v)) a s"
  by (auto simp: cstr_at_def)

lemma strtok_step:
  assumes "cstr_at m a s" "cstr_at m sep ds" "apart a (length s) sep (length ds)"
  shows "case next_token ds s of
      None \<Rightarrow> strtok m (Some a) sep p = Some (m, None, None)
    | Some (t, r) \<Rightarrow> \<exists>m' p' b. strtok m (Some a) sep p = Some (m', p', Some b) \<and>
        cstr_at m' b t \<and> cstr_at m' sep ds \<and>
        (case p' of None \<Rightarrow> r = [] | Some q \<Rightarrow> cstr_at m' q r \<and> apart q (length r) sep (length ds))"
proof -
  define n where "n = length (takeWhile (\<lambda>x. x \<in> set ds) s)"
  define u where "u = dropWhile (\<lambda>x. x \<in> set ds) s"
  define k where "k = length (takeWhile (\<lambda>x. x \<notin> set ds) u)"
  have n: "n \<le> length s" "u = drop n s" "n + length u = length s"
    unfolding n_def u_def by (auto simp: length_takeWhile_le dropWhile_eq_drop)
  have u: "cstr_at m (a + n) u" using cstr_at_drop [OF assms(1) n(1)] n(2) by simp
  have sp: "strspn m a sep = Some n" using strspn_eq [OF assms(1,2)] by (simp add: n_def)
  have cs: "strcspn m (a + n) sep = Some k" using strcspn_eq [OF u assms(2)] by (simp add: k_def)
  show ?thesis
  proof (cases "u = []")
    case True
    then have "m (a + n) = NUL" using u by (simp add: cstr_at_Nil)
    then show ?thesis using True sp by (simp add: strtok_def next_token_def Let_def flip: u_def)
  next
    case False
    then have mn: "m (a + n) \<noteq> NUL" using u by (cases u) (auto simp: cstr_at_Cons)
    have nt: "next_token ds s = Some (take k u, drop (k + 1) u)"
    proof -
      have "takeWhile (\<lambda>c. c \<notin> set ds) u = take k u" unfolding k_def by (rule takeWhile_eq_take)
      moreover have "dropWhile (\<lambda>c. c \<notin> set ds) u = drop k u" unfolding k_def by (rule dropWhile_eq_drop)
      ultimately show ?thesis using False unfolding next_token_def Let_def u_def [symmetric] by simp
    qed
    have kl: "k \<le> length u" by (simp add: k_def length_takeWhile_le)
    show ?thesis
    proof (cases "k = length u")
      case True
      then have "m (a + n + k) = NUL" using cstr_at_end [OF u] by simp
      then have "strtok m (Some a) sep p = Some (m, None, Some (a + n))"
        using sp cs mn by (simp add: strtok_def Let_def)
      then show ?thesis using nt u True assms(2) by simp
    next
      case False
      then have kl: "k < length u" using kl by simp
      define e where "e = a + n + k"
      have "m e \<noteq> NUL" using cstr_at_nth [OF u kl] by (simp add: e_def)
      then have st: "strtok m (Some a) sep p = Some (m(e := NUL), Some (e + 1), Some (a + n))"
        using sp cs mn by (simp add: strtok_def Let_def e_def)
      have "cstr_at (m(e := NUL)) (a + n) (take k u)"
        using u kl by (auto simp: cstr_at_def e_def dest: in_set_takeD)
      moreover have "cstr_at (m(e := NUL)) sep ds"
        using assms(2,3) n(3) kl by (intro cstr_at_upd) (auto simp: apart_def e_def)
      moreover have "cstr_at (m(e := NUL)) (e + 1) (drop (k + 1) u)"
        using cstr_at_drop [OF u, of "k + 1"] kl by (intro cstr_at_upd) (auto simp: e_def add.assoc)
      moreover have "apart (e + 1) (length (drop (k + 1) u)) sep (length ds)"
        using assms(3) n(3) kl by (auto simp: apart_def e_def)
      ultimately show ?thesis using nt st by simp
    qed
  qed
qed

text \<open>The string at an address, and the loop that collects the tokens of a line.\<close>

definition read_cstr :: "mem \<Rightarrow> nat \<Rightarrow> string option" where
  "read_cstr m b = map_option (\<lambda>n. map m [b ..< b + n]) (strlen m b)"

partial_function (option) strtok_loop :: "mem \<Rightarrow> nat option \<Rightarrow> nat \<Rightarrow> nat option \<Rightarrow> string list option" where
  "strtok_loop m s sep p =
     Option.bind (strtok m s sep p) (\<lambda>(m', p', tok).
       case tok of
         None \<Rightarrow> Some []
       | Some b \<Rightarrow> Option.bind (read_cstr m' b) (\<lambda>t.
           Option.bind (strtok_loop m' None sep p') (\<lambda>ts. Some (t # ts))))"

lemma read_cstr_eq: "cstr_at m b t \<Longrightarrow> read_cstr m b = Some t"
  by (auto simp: read_cstr_def strlen_eq cstr_at_def intro!: nth_equalityI)

lemma strtok_continue: "strtok m None sep (Some q) = strtok m (Some q) sep p0"
  by (simp add: strtok_def)

lemma strtok_loop_eq:
  assumes "cstr_at m a s" "cstr_at m sep ds" "apart a (length s) sep (length ds)"
  shows "strtok_loop m (Some a) sep p = Some (tokens ds s)"
  using assms
proof (induction ds s arbitrary: m a p rule: tokens.induct)
  case (1 ds s)
  note step = strtok_step [OF 1(2-4), of p]
  show ?case
  proof (cases "next_token ds s")
    case None
    then show ?thesis using step by (subst strtok_loop.simps, subst tokens.simps) simp
  next
    case (Some tr)
    obtain t r where tr: "tr = (t, r)" by force
    obtain m' p' b where st: "strtok m (Some a) sep p = Some (m', p', Some b)" "cstr_at m' b t" "cstr_at m' sep ds"
        "case p' of None \<Rightarrow> r = [] | Some q \<Rightarrow> cstr_at m' q r \<and> apart q (length r) sep (length ds)"
      using step Some tr by auto
    have "strtok_loop m' None sep p' = Some (tokens ds r)"
    proof (cases p')
      case None
      then show ?thesis using st(4) by (subst strtok_loop.simps) (simp add: strtok_def)
    next
      case q: (Some q)
      have "strtok_loop m' None sep (Some q) = strtok_loop m' (Some q) sep None"
        by (subst (1 2) strtok_loop.simps) (simp add: strtok_continue [of _ _ _ None])
      then show ?thesis using 1(1) [OF Some tr [symmetric], of m' q None] st q by simp
    qed
    then show ?thesis using st read_cstr_eq [OF st(2)] Some tr
      by (subst strtok_loop.simps, subst tokens.simps) simp
  qed
qed

section \<open>Properties\<close>

definition demo_mem :: mem where
  "demo_mem a = (let s = ''7||O|x'' @ [NUL] @ ''|'' @ [NUL] in if a < length s then s ! a else CHR ''?'')"

lemma demo_mem_strings: "cstr_at demo_mem 0 ''7||O|x''" "cstr_at demo_mem 7 ''|''"
  by (auto simp: cstr_at_def demo_mem_def less_Suc_eq numeral_eq_Suc)

text \<open>
  C39. The word-at-a-time \<^verbatim>\<open>strlen\<close> returns, and returns the length of the string, at every
  alignment: the test on eight bytes at once never steps over the terminator.
  \<^verbatim>\<open>strchr\<close> and \<^verbatim>\<open>strrchr\<close> find the first and the last occurrence of a character and
  return a null pointer exactly when there is none.
\<close>

theorem strlen_strchr_strrchr_correct:
  assumes "cstr_at m a s" "c \<noteq> NUL"
  shows "strlen m a = Some (length s) \<and>
    strchr m a c = Some (if c \<in> set s then Some (a + length (takeWhile (\<lambda>x. x \<noteq> c) s)) else None) \<and>
    strrchr m a c = Some (map_option (\<lambda>i. a + i) (strrchr_index s c))"
proof (intro conjI)
  let ?n = "length (takeWhile (\<lambda>x. x \<noteq> c) s)"
  show "strlen m a = Some (length s)" by (rule strlen_eq [OF assms(1)])
  have "m (a + ?n) = c \<longleftrightarrow> c \<in> set s"
  proof (cases "c \<in> set s")
    case True
    then have "?n < length s" by (induction s) auto
    then show ?thesis using True cstr_at_nth [OF assms(1)] nth_length_takeWhile [of "\<lambda>x. x \<noteq> c" s] by simp
  next
    case False
    then have "takeWhile (\<lambda>x. x \<noteq> c) s = s" by (auto simp: takeWhile_eq_all_conv)
    then show ?thesis using False cstr_at_end [OF assms(1)] assms(2) by (simp del: takeWhile_eq_all_conv)
  qed
  then show "strchr m a c = Some (if c \<in> set s then Some (a + ?n) else None)"
    by (simp add: strchr_def strchrnul_eq [OF assms(1)])
  show "strrchr m a c = Some (map_option (\<lambda>i. a + i) (strrchr_index s c))" by (rule strrchr_eq [OF assms])
qed

theorem strlen_strchr_strrchr_correct_witness:
  "strlen demo_mem 0 = Some 6 \<and> strchr demo_mem 0 (CHR ''|'') = Some (Some 1) \<and> strrchr demo_mem 0 (CHR ''|'') = Some (Some 4)"
  using strlen_strchr_strrchr_correct [OF demo_mem_strings(1), of "CHR ''|''"] by simp

text \<open>
  \<^verbatim>\<open>strspn\<close> and \<^verbatim>\<open>strcspn\<close>, with their special cases for short sets and their
  256-bit tables, return the length of the longest prefix inside and outside the set of characters.
\<close>

lemma strspn_strcspn_correct:
  assumes "cstr_at m a s" "cstr_at m c ds"
  shows "strspn m a c = Some (length (takeWhile (\<lambda>x. x \<in> set ds) s)) \<and>
    strcspn m a c = Some (length (takeWhile (\<lambda>x. x \<notin> set ds) s))"
  using strspn_eq [OF assms] strcspn_eq [OF assms] by simp

text \<open>
  C40. The token loop of the benchmark program: calling \<^verbatim>\<open>strtok\<close> on a line and then with a null
  pointer until it returns one ends, and yields the maximal runs of non-delimiters in order.
  \<^verbatim>\<open>strtok_r\<close> does the same with the caller's pointer.
\<close>

theorem strtok_tokens:
  assumes "cstr_at m a s" "cstr_at m sep ds" "apart a (length s) sep (length ds)"
  shows "strtok_loop m (Some a) sep p = Some (tokens ds s) \<and> strtok_r m v sep q = strtok m v sep q"
  using strtok_loop_eq [OF assms] by (simp add: strtok_def strtok_r_def)

theorem strtok_tokens_witness: "strtok_loop demo_mem (Some 0) 7 None = Some [''7'', ''O'', ''x'']"
proof -
  have "tokens ''|'' ''7||O|x'' = [''7'', ''O'', ''x'']" by code_simp
  then show ?thesis using strtok_tokens [OF demo_mem_strings, of None] by (simp add: apart_def)
qed

end
