(* ===== verification/Kvprintf.thy ===== *)
theory Kvprintf
  imports CLib
begin

text \<open>
  The kernel's formatted output (\<^verbatim>\<open>ksprintn\<close> and \<^verbatim>\<open>kvprintf\<close> in
  \<^verbatim>\<open>bsd/sys/kern/subr_sbuf.c\<close>).  The format is a C string without its terminator, the arguments
  are a list of slots, and the result is the list of characters given to the output function, the return
  value and the values stored through \<^verbatim>\<open>%n\<close> pointers.  \<open>None\<close> stands for undefined
  behaviour: a missing argument or one of the wrong kind, reading behind the end of the format, a bad
  base, a shift out of range.
\<close>

section \<open>Numbers\<close>

definition hex2ascii :: "nat \<Rightarrow> char" where
  "hex2ascii d = ''0123456789abcdefghijklmnopqrstuvwxyz'' ! d"

definition toupper :: "char \<Rightarrow> char" where
  "toupper c = (let n = of_char c :: nat in if 97 \<le> n \<and> n \<le> 122 then char_of (n - 32) else c)"

text \<open>
  The digits in the order in which \<^verbatim>\<open>ksprintn\<close> writes them behind the NUL of its buffer, least
  significant first.
\<close>

function ksprintn_digits :: "nat \<Rightarrow> nat \<Rightarrow> bool \<Rightarrow> string" where
  "ksprintn_digits num base up =
     (let c = hex2ascii (num mod base) in
      (if up then toupper c else c) #
      (if base < 2 \<or> num div base = 0 then [] else ksprintn_digits (num div base) base up))"
  by auto
termination
  by (relation "measure (\<lambda>(num, base, up). num)") (auto intro!: div_less_dividend intro: gr0I)

declare ksprintn_digits.simps [simp del]

definition MAXNBUF :: nat where
  "MAXNBUF = 65"

text \<open>
  The text that the callers read backwards out of the buffer, \<open>None\<close> when the base is not between
  2 and 36 or the buffer would overflow.
\<close>

definition ksprintn :: "u64 \<Rightarrow> nat \<Rightarrow> bool \<Rightarrow> string option" where
  "ksprintn num base up =
     (if base < 2 \<or> 36 < base then None
      else let ds = ksprintn_digits (unat num) base up in
        if MAXNBUF \<le> length ds then None else Some (rev ds))"

section \<open>Arguments and flags\<close>

datatype va =
    VInt u64
  | VStr "string option"
  | VBytes "byte list"
  | VPtr

record kvspec =
  padc :: char
  width :: int
  ladjust :: bool
  sharpflag :: bool
  sign :: bool
  dot :: bool
  dwidth :: int
  upper :: bool
  qflag :: bool
  lflag :: bool
  cflag :: bool
  hflag :: bool
  jflag :: bool
  tflag :: bool
  zflag :: bool

definition kv_start :: kvspec where
  "kv_start = \<lparr>padc = CHR '' '', width = 0, ladjust = False, sharpflag = False, sign = False, dot = False,
     dwidth = 0, upper = False, qflag = False, lflag = False, cflag = False, hflag = False, jflag = False,
     tflag = False, zflag = False\<rparr>"

datatype store_size = Store_intmax | Store_quad | Store_long | Store_size_t | Store_short | Store_char | Store_int

definition store_size_of :: "kvspec \<Rightarrow> store_size" where
  "store_size_of sp =
     (if jflag sp then Store_intmax else if qflag sp then Store_quad else if lflag sp then Store_long
      else if zflag sp then Store_size_t else if hflag sp then Store_short else if cflag sp then Store_char
      else Store_int)"

definition handle_nosign :: "kvspec \<Rightarrow> u64 \<Rightarrow> u64" where
  "handle_nosign sp v =
     (if jflag sp \<or> qflag sp \<or> tflag sp \<or> lflag sp \<or> zflag sp then v
      else if hflag sp then ucast (ucast v :: u16)
      else if cflag sp then ucast (ucast v :: byte)
      else ucast (ucast v :: u32))"

definition handle_sign :: "kvspec \<Rightarrow> u64 \<Rightarrow> u64" where
  "handle_sign sp v =
     (if jflag sp \<or> qflag sp \<or> tflag sp \<or> lflag sp \<or> zflag sp then v
      else if hflag sp then scast (ucast v :: 16 word)
      else if cflag sp then scast (ucast v :: 8 word)
      else scast (ucast v :: 32 word))"

section \<open>Conversions\<close>

text \<open>The code at the label \<^verbatim>\<open>number\<close>.\<close>

definition kv_number :: "kvspec \<Rightarrow> nat \<Rightarrow> u64 \<Rightarrow> string option" where
  "kv_number sp base num =
     (let neg = (sign sp \<and> sint num < 0);
          num = (if neg then - num else num) in
      Option.bind (ksprintn num base (upper sp)) (\<lambda>digits.
        let n = int (length digits);
            tmp = (if sharpflag sp \<and> num \<noteq> 0 then (if base = 8 then 1 else if base = 16 then 2 else 0) else 0)
                  + (if neg then 1 else 0);
            dw = (if \<not> ladjust sp \<and> padc sp = CHR ''0'' then width sp - tmp else dwidth sp);
            w = width sp - (tmp + max dw n);
            dw = dw - n in
        Some ((if ladjust sp then [] else replicate (nat w) (CHR '' ''))
              @ (if neg then ''-'' else [])
              @ (if sharpflag sp \<and> num \<noteq> 0 then (if base = 8 then ''0'' else if base = 16 then ''0x'' else []) else [])
              @ replicate (nat dw) (CHR ''0'')
              @ digits
              @ (if ladjust sp then replicate (nat w) (CHR '' '') else []))))"

definition kv_string :: "kvspec \<Rightarrow> string option \<Rightarrow> string" where
  "kv_string sp arg =
     (let p = (case arg of None \<Rightarrow> ''(null)'' | Some s \<Rightarrow> s);
          n = (if dot sp then min (nat (dwidth sp)) (length p) else length p);
          w = width sp - int n;
          pad = (if w > 0 then replicate (nat w) (padc sp) else []) in
      (if ladjust sp then [] else pad) @ take n p @ (if ladjust sp then pad else []))"

text \<open>\<^verbatim>\<open>%D\<close>: a hexadecimal dump of \<open>n\<close> bytes with a separator.\<close>

fun kv_dump :: "nat \<Rightarrow> byte list \<Rightarrow> string \<Rightarrow> string option" where
  "kv_dump 0 up sep = Some []"
| "kv_dump (Suc n) [] sep = None"
| "kv_dump (Suc n) (b # up) sep =
     Option.bind (kv_dump n up sep) (\<lambda>rest.
       Some (hex2ascii (unat (drop_bit 4 b)) # hex2ascii (unat (b AND 0x0f)) #
             (if n \<noteq> 0 then sep else []) @ rest))"

text \<open>
  \<^verbatim>\<open>%b\<close>: the names of the bits that are set.  Plain characters are signed, so a name consists of
  the characters 33 to 127.
\<close>

definition name_char :: "char \<Rightarrow> bool" where
  "name_char c = (let n = of_char c :: nat in 32 < n \<and> n < 128)"

function kv_bits :: "u64 \<Rightarrow> bool \<Rightarrow> string \<Rightarrow> string option" where
  "kv_bits num tmp [] = Some (if tmp then ''>'' else [])"
| "kv_bits num tmp (c # p) =
     (let n = of_char c :: nat in
      if n < 1 \<or> 32 < n then None
      else if bit num (n - 1)
      then Option.bind (kv_bits num True (dropWhile name_char p)) (\<lambda>rest.
             Some ((if tmp then CHR '','' else CHR ''<'') # takeWhile name_char p @ rest))
      else kv_bits num tmp (dropWhile name_char p))"
  by pat_completeness auto
termination
  by (relation "measure (\<lambda>(num, tmp, p). length p)") (auto simp: le_imp_less_Suc length_dropWhile_le)

definition kv_bitnames :: "u64 \<Rightarrow> string \<Rightarrow> string option" where
  "kv_bitnames v p =
     (case p of
        [] \<Rightarrow> None
      | b # p \<Rightarrow>
          let num = ucast (ucast v :: u32) in
          Option.bind (ksprintn num (of_char b) False) (\<lambda>digits.
            if num = 0 then Some digits
            else Option.bind (kv_bits num False p) (\<lambda>names. Some (digits @ names))))"

section \<open>Directives\<close>

text \<open>What a directive leaves: its output, the rest of format and arguments, stores, and the stop flag.\<close>

record kvout =
  kv_out :: string
  kv_fmt :: string
  kv_args :: "va list"
  kv_stores :: "(store_size \<times> int) list"
  kv_stop :: bool

definition kv_done :: "string \<Rightarrow> string \<Rightarrow> va list \<Rightarrow> kvout" where
  "kv_done out fmt args = \<lparr>kv_out = out, kv_fmt = fmt, kv_args = args, kv_stores = [], kv_stop = False\<rparr>"

definition int_arg :: "va list \<Rightarrow> (u64 \<times> va list) option" where
  "int_arg args = (case args of VInt v # rest \<Rightarrow> Some (v, rest) | _ \<Rightarrow> None)"

definition kv_convert :: "(u64 \<Rightarrow> u64) \<Rightarrow> kvspec \<Rightarrow> nat \<Rightarrow> string \<Rightarrow> va list \<Rightarrow> kvout option" where
  "kv_convert handle sp base fmt args =
     Option.bind (int_arg args) (\<lambda>(v, args).
       Option.bind (kv_number sp base (handle v)) (\<lambda>out. Some (kv_done out fmt args)))"

definition kv_sign :: "kvspec \<Rightarrow> nat \<Rightarrow> string \<Rightarrow> va list \<Rightarrow> kvout option" where
  "kv_sign sp base fmt args = kv_convert (handle_sign sp) sp base fmt args"

definition kv_nosign :: "kvspec \<Rightarrow> nat \<Rightarrow> string \<Rightarrow> va list \<Rightarrow> kvout option" where
  "kv_nosign sp base fmt args = kv_convert (handle_nosign sp) (sp\<lparr>sign := False\<rparr>) base fmt args"

text \<open>The conversions that end a directive, and the default case, which prints it and stops.\<close>

definition kv_final :: "nat \<Rightarrow> kvspec \<Rightarrow> string \<Rightarrow> char \<Rightarrow> string \<Rightarrow> va list \<Rightarrow> int \<Rightarrow> kvout option" where
  "kv_final radix sp seen ch fmt args ret =
     (if ch = CHR ''%'' then Some (kv_done [ch] fmt args)
      else if ch = CHR ''b'' then
        (case args of
           VInt v # VStr (Some p) # args \<Rightarrow> Option.bind (kv_bitnames v p) (\<lambda>out. Some (kv_done out fmt args))
         | _ \<Rightarrow> None)
      else if ch = CHR ''c'' then
        Option.bind (int_arg args) (\<lambda>(v, args). Some (kv_done [char_of (unat v)] fmt args))
      else if ch = CHR ''D'' then
        (case args of
           VBytes up # VStr (Some p) # args \<Rightarrow>
             Option.bind (kv_dump (nat (if width sp = 0 then 16 else width sp)) up p) (\<lambda>out.
               Some (kv_done out fmt args))
         | _ \<Rightarrow> None)
      else if ch = CHR ''d'' \<or> ch = CHR ''i'' then kv_sign (sp\<lparr>sign := True\<rparr>) 10 fmt args
      else if ch = CHR ''n'' then
        (case args of
           VPtr # args \<Rightarrow> Some ((kv_done [] fmt args)\<lparr>kv_stores := [(store_size_of sp, ret)]\<rparr>)
         | _ \<Rightarrow> None)
      else if ch = CHR ''o'' then kv_nosign sp 8 fmt args
      else if ch = CHR ''p'' then
        kv_convert (\<lambda>v. v) (sp\<lparr>sharpflag := (width sp = 0), sign := False\<rparr>) 16 fmt args
      else if ch = CHR ''r'' then
        (if sign sp then kv_sign sp radix fmt args else kv_nosign sp radix fmt args)
      else if ch = CHR ''s'' then
        (case args of VStr p # args \<Rightarrow> Some (kv_done (kv_string sp p) fmt args) | _ \<Rightarrow> None)
      else if ch = CHR ''u'' then kv_nosign sp 10 fmt args
      else if ch = CHR ''X'' then kv_nosign (sp\<lparr>upper := True\<rparr>) 16 fmt args
      else if ch = CHR ''x'' then kv_nosign sp 16 fmt args
      else if ch = CHR ''y'' then kv_sign (sp\<lparr>sign := True\<rparr>) 16 fmt args
      else Some ((kv_done (seen @ [ch]) fmt args)\<lparr>kv_stop := True\<rparr>))"

definition digits_value :: "string \<Rightarrow> int" where
  "digits_value ds = foldl (\<lambda>n d. n * 10 + (int (of_char d) - 48)) 0 ds"

text \<open>The characters that only set a flag and go back to the label \<^verbatim>\<open>reswitch\<close>.\<close>

definition kv_modifier :: "kvspec \<Rightarrow> char \<Rightarrow> kvspec option" where
  "kv_modifier sp ch =
     (if ch = CHR ''.'' then Some (sp\<lparr>dot := True\<rparr>)
      else if ch = CHR ''#'' then Some (sp\<lparr>sharpflag := True\<rparr>)
      else if ch = CHR ''+'' then Some (sp\<lparr>sign := True\<rparr>)
      else if ch = CHR ''-'' then Some (sp\<lparr>ladjust := True\<rparr>)
      else if ch = CHR ''0'' \<and> \<not> dot sp then Some (sp\<lparr>padc := CHR ''0''\<rparr>)
      else if ch = CHR ''h'' then Some (if hflag sp then sp\<lparr>hflag := False, cflag := True\<rparr> else sp\<lparr>hflag := True\<rparr>)
      else if ch = CHR ''j'' then Some (sp\<lparr>jflag := True\<rparr>)
      else if ch = CHR ''l'' then Some (if lflag sp then sp\<lparr>lflag := False, qflag := True\<rparr> else sp\<lparr>lflag := True\<rparr>)
      else if ch = CHR ''q'' then Some (sp\<lparr>qflag := True\<rparr>)
      else if ch = CHR ''t'' then Some (sp\<lparr>tflag := True\<rparr>)
      else if ch = CHR ''z'' then Some (sp\<lparr>zflag := True\<rparr>)
      else None)"

text \<open>A width or precision given as an argument, or as digits.\<close>

definition kv_star :: "kvspec \<Rightarrow> u64 \<Rightarrow> kvspec" where
  "kv_star sp v =
     (let i = sint (ucast v :: u32) in
      if dot sp then sp\<lparr>dwidth := i\<rparr>
      else if i < 0 then sp\<lparr>width := - i, ladjust := \<not> ladjust sp\<rparr>
      else sp\<lparr>width := i\<rparr>)"

definition kv_digits :: "kvspec \<Rightarrow> int \<Rightarrow> kvspec" where
  "kv_digits sp n = (if dot sp then sp\<lparr>dwidth := n\<rparr> else sp\<lparr>width := n\<rparr>)"

text \<open>
  The switch behind the label \<^verbatim>\<open>reswitch\<close>.  At the end of the format the code prints the
  directive with the terminator and goes on reading behind it, which is undefined.
\<close>

function kv_directive :: "nat \<Rightarrow> kvspec \<Rightarrow> string \<Rightarrow> string \<Rightarrow> va list \<Rightarrow> int \<Rightarrow> kvout option" where
  "kv_directive radix sp seen [] args ret = None"
| "kv_directive radix sp seen (ch # fmt) args ret =
     (case kv_modifier sp ch of
        Some sp' \<Rightarrow> kv_directive radix sp' (seen @ [ch]) fmt args ret
      | None \<Rightarrow>
          if ch = CHR ''*'' then
            (case int_arg args of
               None \<Rightarrow> None
             | Some (v, args') \<Rightarrow> kv_directive radix (kv_star sp v) (seen @ [ch]) fmt args' ret)
          else if isdigit ch then
            (if 2147483647 < digits_value (ch # takeWhile isdigit fmt) then None
             else kv_directive radix (kv_digits sp (digits_value (ch # takeWhile isdigit fmt)))
               (seen @ ch # takeWhile isdigit fmt) (dropWhile isdigit fmt) args ret)
          else kv_final radix sp seen ch fmt args ret)"
  by pat_completeness auto
termination
  by (relation "measure (\<lambda>(radix, sp, seen, fmt, args, ret). length fmt)")
    (auto simp: le_imp_less_Suc length_dropWhile_le)

declare kv_directive.simps(2) [simp del]

lemma kv_final_fmt: "kv_final radix sp seen ch fmt args ret = Some r \<Longrightarrow> kv_fmt r = fmt"
  by (auto simp: kv_final_def kv_sign_def kv_nosign_def kv_convert_def kv_done_def bind_eq_Some_conv
      split: if_splits list.splits va.splits option.splits)

lemma kv_directive_shorter:
  "kv_directive radix sp seen fmt args ret = Some r \<Longrightarrow> length (kv_fmt r) < length fmt"
proof (induction radix sp seen fmt args ret rule: kv_directive.induct)
  case (2 radix sp seen ch fmt args ret)
  have "length (dropWhile isdigit fmt) \<le> length fmt" by (rule length_dropWhile_le)
  then show ?case
    using 2 by (fastforce simp: kv_directive.simps(2) dest: kv_final_fmt
        split: option.splits if_splits prod.splits)
qed simp

section \<open>The main loop\<close>

record kvresult =
  kvr_out :: string
  kvr_ret :: int
  kvr_stores :: "(store_size \<times> int) list"

function kv_loop :: "nat \<Rightarrow> bool \<Rightarrow> string \<Rightarrow> va list \<Rightarrow> int \<Rightarrow> kvresult option" where
  "kv_loop radix stop [] args ret = Some \<lparr>kvr_out = [], kvr_ret = ret, kvr_stores = []\<rparr>"
| "kv_loop radix stop (ch # fmt) args ret =
     (if ch \<noteq> CHR ''%'' \<or> stop then
        map_option (\<lambda>r. r\<lparr>kvr_out := ch # kvr_out r\<rparr>) (kv_loop radix stop fmt args (ret + 1))
      else
        (case kv_directive radix kv_start ''%'' fmt args ret of
           None \<Rightarrow> None
         | Some d \<Rightarrow>
             map_option (\<lambda>r. r\<lparr>kvr_out := kv_out d @ kvr_out r, kvr_stores := kv_stores d @ kvr_stores r\<rparr>)
               (kv_loop radix (kv_stop d) (kv_fmt d) (kv_args d) (ret + int (length (kv_out d))))))"
  by pat_completeness auto
termination
  by (relation "measure (\<lambda>(radix, stop, fmt, args, ret). length fmt)")
    (auto dest: kv_directive_shorter)

definition kvprintf :: "string option \<Rightarrow> nat \<Rightarrow> va list \<Rightarrow> kvresult option" where
  "kvprintf fmt radix args =
     kv_loop (if radix < 2 \<or> 36 < radix then 10 else radix) False
       (case fmt of None \<Rightarrow> ''(fmt null)'' @ [CHR 0x0A] | Some f \<Rightarrow> f) args 0"

end
