(* ===== verification/Sbuf.thy ===== *)
theory Sbuf
  imports Kvprintf
begin

text \<open>
  The kernel's string buffers (\<^verbatim>\<open>bsd/sys/kern/subr_sbuf.c\<close>).  The storage is a character list
  as long as the allocation, \<open>None\<close> for a null pointer.  A drain function turns its argument and the
  buffered characters into a count and a new argument.  Allocation is a parameter \<open>A\<close>: it yields the
  contents of a fresh buffer or fails.  An operation returns \<open>None\<close> where an assertion
  (\<^verbatim>\<open>KASSERT\<close>) stops the kernel or the C code would write outside the buffer.
\<close>

type_synonym 'd drain = "'d option \<Rightarrow> string \<Rightarrow> int \<times> 'd option"
type_synonym alloc = "int \<Rightarrow> string option"

record 'd sbuf =
  s_buf :: "string option"
  s_drain_func :: "'d drain option"
  s_drain_arg :: "'d option"
  s_error :: int
  s_size :: int
  s_len :: int
  s_flags :: u32

definition SBUF_AUTOEXTEND :: u32 where "SBUF_AUTOEXTEND = 0x00000001"
definition SBUF_USRFLAGMSK :: u32 where "SBUF_USRFLAGMSK = 0x0000ffff"
definition SBUF_DYNAMIC :: u32 where "SBUF_DYNAMIC = 0x00010000"
definition SBUF_FINISHED :: u32 where "SBUF_FINISHED = 0x00020000"
definition SBUF_DYNSTRUCT :: u32 where "SBUF_DYNSTRUCT = 0x00080000"

definition SBUF_MINEXTENDSIZE :: int where "SBUF_MINEXTENDSIZE = 16"
definition SBUF_MAXEXTENDSIZE :: int where "SBUF_MAXEXTENDSIZE = 4096"

definition ENOMEM :: int where "ENOMEM = 12"

definition SBUF_ISDYNAMIC :: "'d sbuf \<Rightarrow> bool" where
  "SBUF_ISDYNAMIC s \<longleftrightarrow> s_flags s AND SBUF_DYNAMIC \<noteq> 0"

definition SBUF_ISDYNSTRUCT :: "'d sbuf \<Rightarrow> bool" where
  "SBUF_ISDYNSTRUCT s \<longleftrightarrow> s_flags s AND SBUF_DYNSTRUCT \<noteq> 0"

definition SBUF_ISFINISHED :: "'d sbuf \<Rightarrow> bool" where
  "SBUF_ISFINISHED s \<longleftrightarrow> s_flags s AND SBUF_FINISHED \<noteq> 0"

definition SBUF_CANEXTEND :: "'d sbuf \<Rightarrow> bool" where
  "SBUF_CANEXTEND s \<longleftrightarrow> s_flags s AND SBUF_AUTOEXTEND \<noteq> 0"

definition SBUF_FREESPACE :: "'d sbuf \<Rightarrow> int" where
  "SBUF_FREESPACE s = s_size s - (s_len s + 1)"

definition SBUF_SETFLAG :: "u32 \<Rightarrow> 'd sbuf \<Rightarrow> 'd sbuf" where
  "SBUF_SETFLAG f s = s\<lparr>s_flags := s_flags s OR f\<rparr>"

definition SBUF_CLEARFLAG :: "u32 \<Rightarrow> 'd sbuf \<Rightarrow> 'd sbuf" where
  "SBUF_CLEARFLAG f s = s\<lparr>s_flags := s_flags s AND NOT f\<rparr>"

section \<open>Sizes\<close>

text \<open>Conversion to a 32-bit \<^verbatim>\<open>int\<close>.\<close>

definition to_int :: "int \<Rightarrow> int" where
  "to_int i = sint (word_of_int i :: u32)"

function double_until :: "int \<Rightarrow> int \<Rightarrow> int" where
  "double_until newsize sz = (if 0 < newsize \<and> newsize < sz then double_until (newsize * 2) sz else newsize)"
  by auto
termination
  by (relation "measure (\<lambda>(newsize, sz). nat (sz - newsize))") auto

declare double_until.simps [simp del]

definition sbuf_extendsize :: "int \<Rightarrow> int option" where
  "sbuf_extendsize sz =
     (let newsize =
        (if sz < SBUF_MAXEXTENDSIZE then double_until SBUF_MINEXTENDSIZE sz
         else to_int ((sz + 4095) div 4096 * 4096)) in
      require (newsize \<ge> sz) (Some newsize))"

definition sbuf_extend :: "alloc \<Rightarrow> 'd sbuf \<Rightarrow> int \<Rightarrow> (int \<times> 'd sbuf) option" where
  "sbuf_extend A s addlen =
     (if \<not> SBUF_CANEXTEND s then Some (- 1, s)
      else
        Option.bind (sbuf_extendsize (to_int (s_size s + addlen))) (\<lambda>newsize.
          case A newsize of
            None \<Rightarrow> Some (- 1, s)
          | Some newbuf \<Rightarrow>
              (case s_buf s of
                 None \<Rightarrow> None
               | Some b \<Rightarrow>
                   require (nat (s_size s) \<le> length newbuf)
                     (let s = (if SBUF_ISDYNAMIC s then s else SBUF_SETFLAG SBUF_DYNAMIC s) in
                      Some (0, s\<lparr>s_buf := Some (take (nat (s_size s)) b @ drop (nat (s_size s)) newbuf),
                                  s_size := newsize\<rparr>)))))"

section \<open>Creation\<close>

definition sbuf_zero :: "'d sbuf" where
  "sbuf_zero = \<lparr>s_buf = None, s_drain_func = None, s_drain_arg = None, s_error = 0, s_size = 0, s_len = 0, s_flags = 0\<rparr>"

text \<open>The inner \<open>option\<close> is the returned pointer.\<close>

definition sbuf_newbuf :: "alloc \<Rightarrow> string option \<Rightarrow> int \<Rightarrow> u32 \<Rightarrow> 'd sbuf option option" where
  "sbuf_newbuf A buf len flags =
     (let s = sbuf_zero\<lparr>s_flags := flags, s_size := len, s_buf := buf\<rparr> in
      require (s_flags s AND SBUF_AUTOEXTEND = 0 \<longrightarrow> s_size s \<ge> 0)
       (if s_buf s \<noteq> None then Some (Some s)
        else
          Option.bind (if flags AND SBUF_AUTOEXTEND \<noteq> 0 then sbuf_extendsize (s_size s) else Some (s_size s)) (\<lambda>sz.
            case A sz of
              None \<Rightarrow> Some None
            | Some b \<Rightarrow> Some (Some (SBUF_SETFLAG SBUF_DYNAMIC (s\<lparr>s_size := sz, s_buf := Some b\<rparr>))))))"

text \<open>
  \<^verbatim>\<open>sbuf_new\<close> with the caller's structure (\<open>own\<close> false) or a null pointer for it;
  \<open>struct_ok\<close> tells whether the allocation of the structure succeeds.
\<close>

definition sbuf_new :: "alloc \<Rightarrow> bool \<Rightarrow> bool \<Rightarrow> string option \<Rightarrow> int \<Rightarrow> u32 \<Rightarrow> 'd sbuf option option" where
  "sbuf_new A own struct_ok buf len flags =
     require (len \<ge> 0) (require (flags AND NOT SBUF_USRFLAGMSK = 0)
       (let flags = flags AND SBUF_USRFLAGMSK in
        if \<not> own then sbuf_newbuf A buf len flags
        else if \<not> struct_ok then Some None
        else Option.bind (sbuf_newbuf A buf len flags) (\<lambda>r.
          Some (map_option (SBUF_SETFLAG SBUF_DYNSTRUCT) r))))"

definition sbuf_clear :: "'d sbuf \<Rightarrow> 'd sbuf" where
  "sbuf_clear s = (SBUF_CLEARFLAG SBUF_FINISHED s)\<lparr>s_error := 0, s_len := 0\<rparr>"

definition sbuf_setpos :: "'d sbuf \<Rightarrow> int \<Rightarrow> (int \<times> 'd sbuf) option" where
  "sbuf_setpos s pos =
     require (pos \<ge> 0) (require (pos < s_size s)
       (if pos < 0 \<or> pos > s_len s then Some (- 1, s) else Some (0, s\<lparr>s_len := pos\<rparr>)))"

definition sbuf_set_drain :: "'d sbuf \<Rightarrow> 'd drain option \<Rightarrow> bool \<Rightarrow> 'd option \<Rightarrow> 'd sbuf option" where
  "sbuf_set_drain s func same ctx =
     require (same \<or> s_len s = 0) (Some (s\<lparr>s_drain_func := func, s_drain_arg := ctx\<rparr>))"

section \<open>Appending\<close>

definition sbuf_drain :: "'d sbuf \<Rightarrow> (int \<times> 'd sbuf) option" where
  "sbuf_drain s =
     require (s_len s > 0) (require (s_error s = 0)
       (case (s_drain_func s, s_buf s) of
          (Some func, Some b) \<Rightarrow>
            let (len, ctx) = func (s_drain_arg s) (take (nat (s_len s)) b);
                s = s\<lparr>s_drain_arg := ctx\<rparr> in
            if len < 0 then let s = s\<lparr>s_error := - len\<rparr> in Some (s_error s, s)
            else
              require (len > 0 \<and> len \<le> s_len s)
               (let s = s\<lparr>s_len := s_len s - len\<rparr> in
                if s_len s = 0 then Some (0, s)
                else Some (0, s\<lparr>s_buf := Some (take (nat (s_len s)) (drop (nat len) b) @ drop (nat (s_len s)) b)\<rparr>))
        | _ \<Rightarrow> None))"

definition sbuf_put_byte :: "alloc \<Rightarrow> 'd sbuf \<Rightarrow> char \<Rightarrow> 'd sbuf option" where
  "sbuf_put_byte A s c =
     (if s_error s \<noteq> 0 then Some s
      else
        Option.bind
          (if SBUF_FREESPACE s \<le> 0 then
             (if s_drain_func s \<noteq> None then map_option snd (sbuf_drain s)
              else map_option (\<lambda>(rc, s). if rc < 0 then s\<lparr>s_error := ENOMEM\<rparr> else s) (sbuf_extend A s 1))
           else Some s)
          (\<lambda>s. if s_error s \<noteq> 0 then Some s
               else case s_buf s of
                 None \<Rightarrow> None
               | Some b \<Rightarrow>
                   require (0 \<le> s_len s \<and> nat (s_len s) < length b)
                     (Some (s\<lparr>s_buf := Some (b[nat (s_len s) := c]), s_len := s_len s + 1\<rparr>))))"

fun bcat_loop :: "alloc \<Rightarrow> 'd sbuf \<Rightarrow> string \<Rightarrow> (int \<times> 'd sbuf) option" where
  "bcat_loop A s [] = Some (0, s)"
| "bcat_loop A s (c # str) =
     Option.bind (sbuf_put_byte A s c) (\<lambda>s.
       if s_error s \<noteq> 0 then Some (- 1, s) else bcat_loop A s str)"

definition sbuf_bcat :: "alloc \<Rightarrow> 'd sbuf \<Rightarrow> string \<Rightarrow> (int \<times> 'd sbuf) option" where
  "sbuf_bcat A s str = (if s_error s \<noteq> 0 then Some (- 1, s) else bcat_loop A s str)"

definition sbuf_bcpy :: "alloc \<Rightarrow> 'd sbuf \<Rightarrow> string \<Rightarrow> (int \<times> 'd sbuf) option" where
  "sbuf_bcpy A s str = sbuf_bcat A (sbuf_clear s) str"

text \<open>\<^verbatim>\<open>sbuf_cat\<close> is given the characters of its string before the terminator.\<close>

definition sbuf_cat :: "alloc \<Rightarrow> 'd sbuf \<Rightarrow> string \<Rightarrow> (int \<times> 'd sbuf) option" where
  "sbuf_cat A s str = (if s_error s \<noteq> 0 then Some (- 1, s) else bcat_loop A s (c_str str))"

definition sbuf_cpy :: "alloc \<Rightarrow> 'd sbuf \<Rightarrow> string \<Rightarrow> (int \<times> 'd sbuf) option" where
  "sbuf_cpy A s str = sbuf_cat A (sbuf_clear s) str"

definition sbuf_putc_func :: "alloc \<Rightarrow> char \<Rightarrow> 'd sbuf \<Rightarrow> 'd sbuf option" where
  "sbuf_putc_func A c s = (if c \<noteq> CHR 0x00 then sbuf_put_byte A s c else Some s)"

fun put_all :: "alloc \<Rightarrow> string \<Rightarrow> 'd sbuf \<Rightarrow> 'd sbuf option" where
  "put_all A [] s = Some s"
| "put_all A (c # cs) s = Option.bind (sbuf_putc_func A c s) (put_all A cs)"

definition sbuf_vprintf :: "alloc \<Rightarrow> 'd sbuf \<Rightarrow> string \<Rightarrow> va list \<Rightarrow> (int \<times> 'd sbuf) option" where
  "sbuf_vprintf A s fmt ap =
     Option.bind (kvprintf (Some fmt) 10 ap) (\<lambda>r.
       Option.bind (put_all A (kvr_out r) s) (\<lambda>s.
         Some (if s_error s \<noteq> 0 then - 1 else 0, s)))"

definition sbuf_printf :: "alloc \<Rightarrow> 'd sbuf \<Rightarrow> string \<Rightarrow> va list \<Rightarrow> (int \<times> 'd sbuf) option" where
  "sbuf_printf A s fmt ap = sbuf_vprintf A s fmt ap"

definition sbuf_putc :: "alloc \<Rightarrow> 'd sbuf \<Rightarrow> char \<Rightarrow> (int \<times> 'd sbuf) option" where
  "sbuf_putc A s c = map_option (\<lambda>s. (if s_error s \<noteq> 0 then - 1 else 0, s)) (sbuf_put_byte A s c)"

section \<open>Finishing\<close>

fun trim_loop :: "string \<Rightarrow> nat \<Rightarrow> nat" where
  "trim_loop b 0 = 0"
| "trim_loop b (Suc n) = (if isspace (b ! n) then trim_loop b n else Suc n)"

definition sbuf_trim :: "'d sbuf \<Rightarrow> (int \<times> 'd sbuf) option" where
  "sbuf_trim s =
     require (s_drain_func s = None)
      (if s_error s \<noteq> 0 then Some (- 1, s)
       else case s_buf s of
         None \<Rightarrow> None
       | Some b \<Rightarrow>
           require (nat (s_len s) \<le> length b)
             (Some (0, s\<lparr>s_len := (if s_len s > 0 then int (trim_loop b (nat (s_len s))) else s_len s)\<rparr>)))"

text \<open>The drain loop of \<^verbatim>\<open>sbuf_finish\<close> ends because every successful drain shortens the string.\<close>

function finish_loop :: "'d sbuf \<Rightarrow> 'd sbuf option" where
  "finish_loop s =
     (if s_len s > 0 \<and> s_error s = 0 then
        (case sbuf_drain s of
           None \<Rightarrow> None
         | Some (e, s') \<Rightarrow>
             if s_len s' < s_len s \<or> e \<noteq> 0 then finish_loop (s'\<lparr>s_error := e\<rparr>) else None)
      else Some s)"
  by auto
termination
  by (relation "measure (\<lambda>s. (if s_error s = 0 then 1 else 0) + (if s_error s = 0 then nat (s_len s) else 0))") auto

declare finish_loop.simps [simp del]

text \<open>The return of the kernel build (\<^verbatim>\<open>_KERNEL\<close>), which is the error itself; user space gets it in \<^verbatim>\<open>errno\<close>.\<close>

definition sbuf_finish :: "'d sbuf \<Rightarrow> (int \<times> 'd sbuf) option" where
  "sbuf_finish s =
     Option.bind (if s_drain_func s \<noteq> None then finish_loop s else Some s) (\<lambda>s.
       case s_buf s of
         None \<Rightarrow> None
       | Some b \<Rightarrow>
           require (0 \<le> s_len s \<and> nat (s_len s) < length b)
            (let s = SBUF_SETFLAG SBUF_FINISHED (s\<lparr>s_buf := Some (b[nat (s_len s) := CHR 0x00])\<rparr>) in
             Some (s_error s, s)))"

definition sbuf_error :: "'d sbuf \<Rightarrow> int" where
  "sbuf_error s = s_error s"

definition sbuf_data :: "'d sbuf \<Rightarrow> string option option" where
  "sbuf_data s = require (s_drain_func s = None) (Some (s_buf s))"

definition sbuf_len :: "'d sbuf \<Rightarrow> int option" where
  "sbuf_len s = require (s_drain_func s = None) (Some (if s_error s \<noteq> 0 then - 1 else s_len s))"

text \<open>\<^verbatim>\<open>sbuf_delete\<close>: the cleared structure, and whether the storage and the structure are freed.\<close>

definition sbuf_delete :: "'d sbuf \<Rightarrow> 'd sbuf \<times> bool \<times> bool" where
  "sbuf_delete s = (sbuf_zero, SBUF_ISDYNAMIC s, SBUF_ISDYNSTRUCT s)"

definition sbuf_done :: "'d sbuf \<Rightarrow> bool" where
  "sbuf_done s = SBUF_ISFINISHED s"

end
