(* ===== verification/SbufProps.thy ===== *)
theory SbufProps
  imports Sbuf
begin

text \<open>
  Correctness of string buffers and formatted output: an invariant that every operation keeps, what
  appending does to the text in the three modes of a buffer (automatic extension, fixed size, drain), the
  finished string, and the numbers that \<^verbatim>\<open>kvprintf\<close> prints.
\<close>

section \<open>Flags\<close>

lemmas flag_defs = SBUF_AUTOEXTEND_def SBUF_USRFLAGMSK_def SBUF_DYNAMIC_def SBUF_FINISHED_def SBUF_DYNSTRUCT_def

lemma single_bit_flag: "(f AND push_bit n 1 \<noteq> 0) = bit f n" if "n < 32" for f :: u32
proof -
  have "f AND push_bit n 1 = (if bit f n then push_bit n 1 else 0)"
    by (rule bit_word_eqI) (auto simp: bit_simps)
  moreover have "bit (push_bit n (1 :: u32)) n" using that by (simp add: bit_simps)
  then have "push_bit n (1 :: u32) \<noteq> 0" by (metis bit_0_eq bot_apply bot_bool_def)
  ultimately show ?thesis by simp
qed

lemma flag_bits:
  "SBUF_AUTOEXTEND = push_bit 0 1" "SBUF_DYNAMIC = push_bit 16 1" "SBUF_FINISHED = push_bit 17 1"
  "SBUF_DYNSTRUCT = push_bit 19 1"
  by (simp_all add: flag_defs)

lemma flag_tests:
  "SBUF_CANEXTEND s \<longleftrightarrow> bit (s_flags s) 0" "SBUF_ISDYNAMIC s \<longleftrightarrow> bit (s_flags s) 16"
  "SBUF_ISFINISHED s \<longleftrightarrow> bit (s_flags s) 17" "SBUF_ISDYNSTRUCT s \<longleftrightarrow> bit (s_flags s) 19"
  unfolding SBUF_CANEXTEND_def SBUF_ISDYNAMIC_def SBUF_ISFINISHED_def SBUF_ISDYNSTRUCT_def flag_bits
  by (subst single_bit_flag, simp, rule refl)+

lemma flag_updates:
  "SBUF_CANEXTEND (SBUF_SETFLAG SBUF_DYNAMIC s) = SBUF_CANEXTEND s"
  "SBUF_CANEXTEND (SBUF_SETFLAG SBUF_FINISHED s) = SBUF_CANEXTEND s"
  "SBUF_CANEXTEND (SBUF_CLEARFLAG SBUF_FINISHED s) = SBUF_CANEXTEND s"
  "SBUF_ISFINISHED (SBUF_SETFLAG SBUF_FINISHED s)"
  "SBUF_ISDYNAMIC (SBUF_SETFLAG SBUF_DYNAMIC s)"
  by (simp_all add: flag_tests SBUF_SETFLAG_def SBUF_CLEARFLAG_def flag_bits bit_simps)

lemma setflag_fields [simp]:
  "s_buf (SBUF_SETFLAG f s) = s_buf s" "s_drain_func (SBUF_SETFLAG f s) = s_drain_func s"
  "s_drain_arg (SBUF_SETFLAG f s) = s_drain_arg s" "s_error (SBUF_SETFLAG f s) = s_error s"
  "s_size (SBUF_SETFLAG f s) = s_size s" "s_len (SBUF_SETFLAG f s) = s_len s"
  by (simp_all add: SBUF_SETFLAG_def)

lemma canextend_cong [simp]:
  "SBUF_CANEXTEND (s\<lparr>s_buf := b\<rparr>) = SBUF_CANEXTEND s" "SBUF_CANEXTEND (s\<lparr>s_size := n\<rparr>) = SBUF_CANEXTEND s"
  "SBUF_CANEXTEND (s\<lparr>s_len := n\<rparr>) = SBUF_CANEXTEND s" "SBUF_CANEXTEND (s\<lparr>s_error := n\<rparr>) = SBUF_CANEXTEND s"
  by (simp_all add: SBUF_CANEXTEND_def)

section \<open>Sizes\<close>

lemma to_int_id: "- (2 ^ 31) \<le> i \<Longrightarrow> i < 2 ^ 31 \<Longrightarrow> to_int i = i"
  by (simp add: to_int_def sint_sbintrunc' signed_take_bit_int_eq_self)

lemma double_until_ge: "0 < n \<Longrightarrow> k \<le> double_until n k \<and> n \<le> double_until n k \<and> double_until n k < max (n + 1) (2 * k)"
proof (induction n k rule: double_until.induct)
  case (1 n k)
  show ?case
  proof (cases "n < k")
    case True
    then have "double_until n k = double_until (n * 2) k" using 1 by (subst double_until.simps) simp
    then show ?thesis using 1 True by auto
  next
    case False
    then have "double_until n k = n" by (subst double_until.simps) simp
    then show ?thesis using False by simp
  qed
qed

lemma sbuf_extendsize_ok:
  assumes "0 \<le> k" "k \<le> 2147479552"
  obtains n where "sbuf_extendsize k = Some n" "k \<le> n" "16 \<le> n" "n < 2 ^ 31"
proof (cases "k < 4096")
  case True
  then have "sbuf_extendsize k = Some (double_until 16 k)" "16 \<le> double_until 16 k" "k \<le> double_until 16 k"
    "double_until 16 k < max 17 (2 * k)"
    using double_until_ge [of 16 k]
    by (simp_all add: sbuf_extendsize_def SBUF_MAXEXTENDSIZE_def SBUF_MINEXTENDSIZE_def require_def)
  then show thesis using that True by force
next
  case False
  define n where "n = (k + 4095) div 4096 * 4096"
  have "(k + 4095) div 4096 * 4096 + (k + 4095) mod 4096 = k + 4095" by (rule div_mult_mod_eq)
  moreover have "0 \<le> (k + 4095) mod 4096" "(k + 4095) mod 4096 < 4096" by simp_all
  ultimately have n: "k \<le> n" "n \<le> k + 4095" unfolding n_def by linarith+
  have "n = (k + 4095) div 4096 * 4096" by (simp add: n_def)
  moreover have "(k + 4095) div 4096 \<le> (2147479552 + 4095) div 4096" using assms(2) by (intro zdiv_mono1) auto
  ultimately have "n < 2 ^ 31" by simp
  then have "sbuf_extendsize k = Some n"
    using False n assms by (simp add: sbuf_extendsize_def SBUF_MAXEXTENDSIZE_def require_def to_int_id flip: n_def)
  then show thesis using that n False \<open>n < 2 ^ 31\<close> by simp
qed

section \<open>The invariant\<close>

definition sbuf_wf :: "'d sbuf \<Rightarrow> bool" where
  "sbuf_wf s \<longleftrightarrow> (case s_buf s of None \<Rightarrow> False | Some b \<Rightarrow> int (length b) = s_size s) \<and>
     0 \<le> s_len s \<and> s_len s < s_size s \<and> s_size s < 2 ^ 31"

definition sbuf_text :: "'d sbuf \<Rightarrow> string" where
  "sbuf_text s = (case s_buf s of None \<Rightarrow> [] | Some b \<Rightarrow> take (nat (s_len s)) b)"

text \<open>The allocator gives buffers of the size asked for; it may fail.\<close>

definition alloc_sized :: "alloc \<Rightarrow> bool" where
  "alloc_sized A \<longleftrightarrow> (\<forall>n b. 0 \<le> n \<longrightarrow> A n = Some b \<longrightarrow> int (length b) = n)"

text \<open>A step that appends \<open>c\<close>, or sets the error and leaves the text.\<close>

definition put_ok :: "'d sbuf \<Rightarrow> char \<Rightarrow> 'd sbuf \<Rightarrow> bool" where
  "put_ok s c s' \<longleftrightarrow> sbuf_wf s' \<and> s_drain_func s' = s_drain_func s \<and> s_drain_arg s' = s_drain_arg s \<and>
     SBUF_CANEXTEND s' = SBUF_CANEXTEND s \<and>
     (if s_error s' = 0 then sbuf_text s' = sbuf_text s @ [c] \<and> s_len s' = s_len s + 1
      else s_error s' = ENOMEM \<and> sbuf_text s' = sbuf_text s \<and> s_len s' = s_len s \<and> s_size s' = s_size s)"

lemma store_ok:
  assumes "s_buf s = Some b" "int (length b) = s_size s" "0 \<le> s_len s" "s_len s + 1 < s_size s" "s_size s < 2 ^ 31"
  shows "sbuf_wf (s\<lparr>s_buf := Some (b[nat (s_len s) := c]), s_len := s_len s + 1\<rparr>)"
    "sbuf_text (s\<lparr>s_buf := Some (b[nat (s_len s) := c]), s_len := s_len s + 1\<rparr>) = sbuf_text s @ [c]"
proof -
  have "nat (s_len s) < length b" using assms by linarith
  then have "take (Suc (nat (s_len s))) (b[nat (s_len s) := c]) = take (nat (s_len s)) b @ [c]"
    by (simp add: take_Suc_conv_app_nth)
  moreover have "nat (s_len s + 1) = Suc (nat (s_len s))" using assms(3) by simp
  ultimately show "sbuf_text (s\<lparr>s_buf := Some (b[nat (s_len s) := c]), s_len := s_len s + 1\<rparr>) = sbuf_text s @ [c]"
    using assms(1) by (simp add: sbuf_text_def)
  show "sbuf_wf (s\<lparr>s_buf := Some (b[nat (s_len s) := c]), s_len := s_len s + 1\<rparr>)"
    using assms by (simp add: sbuf_wf_def)
qed

lemma put_byte_room:
  assumes "sbuf_wf s" "s_error s = 0" "SBUF_FREESPACE s > 0"
  shows "\<exists>s'. sbuf_put_byte A s c = Some s' \<and> put_ok s c s' \<and> s_error s' = 0 \<and> s_size s' = s_size s"
proof -
  obtain b where b: "s_buf s = Some b" "int (length b) = s_size s" "0 \<le> s_len s" "s_len s + 1 < s_size s" "s_size s < 2 ^ 31"
    using assms by (auto simp: sbuf_wf_def SBUF_FREESPACE_def split: option.splits)
  have "nat (s_len s) < length b" using b by linarith
  then have "sbuf_put_byte A s c = Some (s\<lparr>s_buf := Some (b[nat (s_len s) := c]), s_len := s_len s + 1\<rparr>)"
    using assms(2,3) b(1,3) by (simp add: sbuf_put_byte_def require_def)
  then show ?thesis using store_ok [OF b] assms(2) by (simp add: put_ok_def)
qed
lemma extend_ok:
  assumes "sbuf_wf s" "SBUF_CANEXTEND s" "alloc_sized A" "s_size s \<le> 2147475456"
  obtains n where "16 \<le> n" "s_size s < n" "n < 2 ^ 31" "A n = None \<longrightarrow> sbuf_extend A s 1 = Some (- 1, s)"
    "A n \<noteq> None \<longrightarrow> (\<exists>s'. sbuf_extend A s 1 = Some (0, s') \<and> sbuf_wf s' \<and> s_size s' = n \<and>
       s_len s' = s_len s \<and> sbuf_text s' = sbuf_text s \<and> s_error s' = s_error s \<and>
       s_drain_func s' = s_drain_func s \<and> s_drain_arg s' = s_drain_arg s \<and> SBUF_CANEXTEND s' = SBUF_CANEXTEND s)"
proof -
  obtain b where b: "s_buf s = Some b" "int (length b) = s_size s" "0 \<le> s_len s" "s_len s < s_size s"
    using assms by (auto simp: sbuf_wf_def split: option.splits)
  have i: "to_int (s_size s + 1) = s_size s + 1" using b assms(4) by (intro to_int_id) auto
  obtain n where n: "sbuf_extendsize (s_size s + 1) = Some n" "s_size s + 1 \<le> n" "16 \<le> n" "n < 2 ^ 31"
    using sbuf_extendsize_ok [of "s_size s + 1"] b assms(4) by auto
  have "A n = None \<longrightarrow> sbuf_extend A s 1 = Some (- 1, s)"
    using assms(2) i n(1) by (simp add: sbuf_extend_def)
  moreover have "\<exists>s'. sbuf_extend A s 1 = Some (0, s') \<and> sbuf_wf s' \<and> s_size s' = n \<and>
       s_len s' = s_len s \<and> sbuf_text s' = sbuf_text s \<and> s_error s' = s_error s \<and>
       s_drain_func s' = s_drain_func s \<and> s_drain_arg s' = s_drain_arg s \<and> SBUF_CANEXTEND s' = SBUF_CANEXTEND s"
    if nb: "A n = Some nb" for nb
  proof -
    have l: "int (length nb) = n" using assms(3) nb n(3) by (auto simp: alloc_sized_def)
    define s1 where "s1 = (if SBUF_ISDYNAMIC s then s else SBUF_SETFLAG SBUF_DYNAMIC s)"
    define s2 where "s2 = s1\<lparr>s_buf := Some (take (nat (s_size s)) b @ drop (nat (s_size s)) nb), s_size := n\<rparr>"
    have s1: "s_size s1 = s_size s" "s_len s1 = s_len s" "s_error s1 = s_error s" "s_drain_func s1 = s_drain_func s"
      "s_drain_arg s1 = s_drain_arg s" "SBUF_CANEXTEND s1 = SBUF_CANEXTEND s"
      by (simp_all add: s1_def flag_updates)
    have "nat (s_size s) \<le> length nb" using l n(2) by linarith
    then have e: "sbuf_extend A s 1 = Some (0, s2)"
      using assms(2) i n(1) nb b(1) s1 by (simp add: sbuf_extend_def require_def s2_def Let_def flip: s1_def)
    have "length b = nat (s_size s)" using b(2) by linarith
    moreover have "nat (s_len s) \<le> nat (s_size s)" using b(4) by simp
    ultimately have "sbuf_text s2 = sbuf_text s" using b(1) by (simp add: sbuf_text_def s2_def s1)
    moreover have "sbuf_wf s2" using b l n(2,4) s1 by (simp add: sbuf_wf_def s2_def)
    ultimately show ?thesis using e s1 by (simp add: s2_def)
  qed
  ultimately show thesis using that [of n] n by auto
qed

lemma put_byte_nodrain:
  assumes "sbuf_wf s" "s_error s = 0" "s_drain_func s = None" "alloc_sized A" "s_len s \<le> 2147475455"
  obtains s' where "sbuf_put_byte A s c = Some s'" "put_ok s c s'"
    "s_len s + 1 < s_size s \<longrightarrow> s_error s' = 0 \<and> s_size s' = s_size s"
    "SBUF_CANEXTEND s \<and> (\<forall>n. 0 \<le> n \<longrightarrow> A n \<noteq> None) \<longrightarrow> s_error s' = 0"
    "\<not> SBUF_CANEXTEND s \<and> s_size s \<le> s_len s + 1 \<longrightarrow> s_error s' = ENOMEM"
proof (cases "SBUF_FREESPACE s > 0")
  case True
  then show thesis using put_byte_room [OF assms(1,2) True, of A c] that by (auto simp: SBUF_FREESPACE_def)
next
  case full: False
  have sz: "s_size s = s_len s + 1" using full assms(1) by (auto simp: SBUF_FREESPACE_def sbuf_wf_def)
  have err: "put_ok s c (s\<lparr>s_error := ENOMEM\<rparr>)"
    using assms(1) by (auto simp: put_ok_def ENOMEM_def sbuf_wf_def sbuf_text_def split: option.splits)
  show thesis
  proof (cases "SBUF_CANEXTEND s")
    case False
    then have "sbuf_put_byte A s c = Some (s\<lparr>s_error := ENOMEM\<rparr>)"
      using assms(2,3) full by (simp add: sbuf_put_byte_def sbuf_extend_def ENOMEM_def)
    then show thesis using that err False sz by (simp add: ENOMEM_def)
  next
    case True
    have le: "s_size s \<le> 2147475456" using assms(5) sz by simp
    obtain n where n: "16 \<le> n" "s_size s < n" "n < 2 ^ 31" "A n = None \<longrightarrow> sbuf_extend A s 1 = Some (- 1, s)"
      "A n \<noteq> None \<longrightarrow> (\<exists>s'. sbuf_extend A s 1 = Some (0, s') \<and> sbuf_wf s' \<and> s_size s' = n \<and>
       s_len s' = s_len s \<and> sbuf_text s' = sbuf_text s \<and> s_error s' = s_error s \<and>
       s_drain_func s' = s_drain_func s \<and> s_drain_arg s' = s_drain_arg s \<and> SBUF_CANEXTEND s' = SBUF_CANEXTEND s)"
      by (rule extend_ok [OF assms(1) True assms(4) le])
    show thesis
    proof (cases "A n")
      case None
      then have "sbuf_put_byte A s c = Some (s\<lparr>s_error := ENOMEM\<rparr>)"
        using assms(2,3) full n(4) by (simp add: sbuf_put_byte_def ENOMEM_def)
      moreover have "\<not> (\<forall>n. 0 \<le> n \<longrightarrow> A n \<noteq> None)" using None n(1) by (metis le_numeral_extra(3) order_trans zero_le_numeral)
      ultimately show thesis using that [OF _ err] True sz by fastforce
    next
      case (Some nb)
      then obtain s1 where s1: "sbuf_extend A s 1 = Some (0, s1)" "sbuf_wf s1" "s_size s1 = n"
       "s_len s1 = s_len s" "sbuf_text s1 = sbuf_text s" "s_error s1 = s_error s"
       "s_drain_func s1 = s_drain_func s" "s_drain_arg s1 = s_drain_arg s" "SBUF_CANEXTEND s1 = SBUF_CANEXTEND s"
        using n(5) by auto
      have "SBUF_FREESPACE s1 > 0" using s1 n sz by (simp add: SBUF_FREESPACE_def)
      then obtain s2 where s2: "sbuf_put_byte A s1 c = Some s2" "put_ok s1 c s2" "s_error s2 = 0"
        using put_byte_room [OF s1(2), of A c] s1(6) assms(2) by auto
      have "sbuf_put_byte A s c = sbuf_put_byte A s1 c"
        using assms(2,3) full s1(1,6) \<open>SBUF_FREESPACE s1 > 0\<close> by (simp add: sbuf_put_byte_def)
      moreover have "put_ok s c s2" using s2(2) s1 s2(3) by (simp add: put_ok_def)
      ultimately show thesis using that [of s2] s2 True sz by simp
    qed
  qed
qed

section \<open>Appending strings\<close>

lemma bcat_loop_auto:
  assumes "sbuf_wf s" "s_error s = 0" "s_drain_func s = None" "alloc_sized A" "SBUF_CANEXTEND s"
    "\<forall>n. 0 \<le> n \<longrightarrow> A n \<noteq> None" "s_len s + int (length str) \<le> 2147475456"
  shows "\<exists>s'. bcat_loop A s str = Some (0, s') \<and> sbuf_wf s' \<and> sbuf_text s' = sbuf_text s @ str \<and>
    s_error s' = 0 \<and> s_drain_func s' = None \<and> SBUF_CANEXTEND s'"
  using assms
proof (induction str arbitrary: s)
  case (Cons c str)
  have "s_len s \<le> 2147475455" using Cons.prems(7) by simp
  then obtain s1 where s1: "sbuf_put_byte A s c = Some s1" "put_ok s c s1" "s_error s1 = 0"
    using put_byte_nodrain [OF Cons.prems(1-4), of c] Cons.prems(5,6) by metis
  then obtain s' where "bcat_loop A s1 str = Some (0, s')" "sbuf_wf s'" "sbuf_text s' = sbuf_text s1 @ str"
    "s_error s' = 0" "s_drain_func s' = None" "SBUF_CANEXTEND s'"
    using Cons.IH [of s1] Cons.prems by (auto simp: put_ok_def)
  then show ?case using s1 by (simp add: put_ok_def)
qed simp

lemma bcat_loop_fixed:
  assumes "sbuf_wf s" "s_error s = 0" "s_drain_func s = None" "alloc_sized A" "\<not> SBUF_CANEXTEND s"
    "s_size s \<le> 2147475456"
  shows "\<exists>rc s'. bcat_loop A s str = Some (rc, s') \<and> sbuf_wf s' \<and> s_size s' = s_size s \<and>
    sbuf_text s' = take (nat (s_size s) - 1) (sbuf_text s @ str) \<and>
    (if s_len s + int (length str) < s_size s then rc = 0 \<and> s_error s' = 0 else rc = - 1 \<and> s_error s' = ENOMEM)"
  using assms
proof (induction str arbitrary: s)
  case Nil
  then have "length (sbuf_text s) \<le> nat (s_size s) - 1" by (auto simp: sbuf_text_def sbuf_wf_def split: option.splits)
  then show ?case using Nil by (simp add: sbuf_wf_def)
next
  case (Cons c str)
  have len: "length (sbuf_text s) = nat (s_len s)"
    using Cons.prems(1) by (auto simp: sbuf_text_def sbuf_wf_def split: option.splits)
  have "s_len s \<le> 2147475455" using Cons.prems(1,6) by (simp add: sbuf_wf_def)
  then obtain s1 where s1: "sbuf_put_byte A s c = Some s1" "put_ok s c s1"
    "s_len s + 1 < s_size s \<longrightarrow> s_error s1 = 0 \<and> s_size s1 = s_size s"
    "s_size s \<le> s_len s + 1 \<longrightarrow> s_error s1 = ENOMEM"
    using put_byte_nodrain [OF Cons.prems(1-4), of c] Cons.prems(5) by metis
  show ?case
  proof (cases "s_len s + 1 < s_size s")
    case True
    then have ok: "s_error s1 = 0" "s_size s1 = s_size s" using s1(3) by auto
    then obtain rc s' where "bcat_loop A s1 str = Some (rc, s')" "sbuf_wf s'" "s_size s' = s_size s1"
      "sbuf_text s' = take (nat (s_size s1) - 1) (sbuf_text s1 @ str)"
      "if s_len s1 + int (length str) < s_size s1 then rc = 0 \<and> s_error s' = 0 else rc = - 1 \<and> s_error s' = ENOMEM"
      using Cons.IH [of s1] Cons.prems s1(2) by (auto simp: put_ok_def)
    then show ?thesis using s1(1,2) ok by (simp add: put_ok_def algebra_simps del: take_append)
  next
    case False
    then have e: "s_error s1 = ENOMEM" using s1(4) by simp
    have sz: "s_size s = s_len s + 1" using False Cons.prems(1) by (simp add: sbuf_wf_def)
    then have "take (nat (s_size s) - 1) (sbuf_text s @ c # str) = sbuf_text s" using len by simp
    then show ?thesis using s1(1,2) e sz by (simp add: put_ok_def ENOMEM_def)
  qed
qed

section \<open>Drains\<close>

text \<open>
  A well-behaved drain takes at least one and at most all of the characters it is shown; \<open>seen\<close> reads
  everything it has taken so far off its argument.
\<close>

definition good_drain :: "'d drain \<Rightarrow> ('d option \<Rightarrow> string) \<Rightarrow> bool" where
  "good_drain f seen \<longleftrightarrow> (\<forall>d bs. bs \<noteq> [] \<longrightarrow>
     (case f d bs of (n, d') \<Rightarrow> 0 < n \<and> n \<le> int (length bs) \<and> seen d' = seen d @ take (nat n) bs))"

definition drained_text :: "('d option \<Rightarrow> string) \<Rightarrow> 'd sbuf \<Rightarrow> string" where
  "drained_text seen s = seen (s_drain_arg s) @ sbuf_text s"

definition drain_mode :: "'d drain \<Rightarrow> 'd sbuf \<Rightarrow> bool" where
  "drain_mode f s \<longleftrightarrow> sbuf_wf s \<and> s_error s = 0 \<and> s_drain_func s = Some f"

lemma sbuf_drain_ok:
  assumes "good_drain f seen" "drain_mode f s" "0 < s_len s"
  obtains s' where "sbuf_drain s = Some (0, s')" "drain_mode f s'" "s_len s' < s_len s" "s_size s' = s_size s"
    "drained_text seen s' = drained_text seen s"
proof -
  obtain b where b: "s_buf s = Some b" "int (length b) = s_size s" "0 \<le> s_len s" "s_len s < s_size s" "s_size s < 2 ^ 31"
    using assms(2) by (auto simp: drain_mode_def sbuf_wf_def split: option.splits)
  define t where "t = take (nat (s_len s)) b"
  have lt: "int (length t) = s_len s" "t \<noteq> []" using b assms(3) by (auto simp: t_def)
  obtain n d where f: "f (s_drain_arg s) t = (n, d)" by force
  have n: "0 < n" "n \<le> s_len s" "seen d = seen (s_drain_arg s) @ take (nat n) t"
  proof -
    have "case f (s_drain_arg s) t of (n, d') \<Rightarrow>
        0 < n \<and> n \<le> int (length t) \<and> seen d' = seen (s_drain_arg s) @ take (nat n) t"
      using assms(1) [unfolded good_drain_def, THEN spec, THEN spec, THEN mp, OF lt(2)] .
    then show "0 < n" "n \<le> s_len s" "seen d = seen (s_drain_arg s) @ take (nat n) t" using f lt(1) by auto
  qed
  define k where "k = s_len s - n"
  define b' where "b' = (if k = 0 then b else take (nat k) (drop (nat n) b) @ drop (nat k) b)"
  define s' where "s' = s\<lparr>s_drain_arg := d, s_len := k, s_buf := Some b'\<rparr>"
  have k0: "0 \<le> k" "k < s_len s" using n by (auto simp: k_def)
  have e: "sbuf_drain s = Some (0, s')"
    using assms(2,3) b(1) f n(1,2)
    by (auto simp: sbuf_drain_def drain_mode_def require_def Let_def s'_def b'_def k_def t_def)
  have lb: "length b' = length b"
    using b n k0 by (auto simp: b'_def k_def)
  have tx: "take (nat k) b' = drop (nat n) t"
  proof (cases "k = 0")
    case True
    then show ?thesis using lt(1) n(2) by (simp add: k_def b'_def)
  next
    case False
    have "take (nat k) b' = take (nat k) (drop (nat n) b)"
      using False b n k0 by (simp add: b'_def k_def)
    also have "\<dots> = drop (nat n) t" using n k0 by (simp add: t_def drop_take k_def nat_diff_distrib)
    finally show ?thesis .
  qed
  have "sbuf_wf s'" using b k0 lb by (simp add: sbuf_wf_def s'_def)
  moreover have "drained_text seen s' = drained_text seen s"
    using n(3) tx b(1) by (simp add: drained_text_def sbuf_text_def s'_def flip: t_def)
  ultimately show thesis using that [OF e] assms(2) k0 by (simp add: drain_mode_def s'_def)
qed

lemma put_byte_drain:
  assumes "good_drain f seen" "drain_mode f s" "2 \<le> s_size s"
  shows "\<exists>s'. sbuf_put_byte A s c = Some s' \<and> drain_mode f s' \<and> s_size s' = s_size s \<and>
    drained_text seen s' = drained_text seen s @ [c]"
proof (cases "SBUF_FREESPACE s > 0")
  case True
  then show ?thesis
    using put_byte_room [of s A c] assms(2) by (auto simp: put_ok_def drain_mode_def drained_text_def)
next
  case False
  then have "0 < s_len s" using assms(3) by (simp add: SBUF_FREESPACE_def)
  then obtain s1 where s1: "sbuf_drain s = Some (0, s1)" "drain_mode f s1" "s_len s1 < s_len s" "s_size s1 = s_size s"
    "drained_text seen s1 = drained_text seen s"
    by (rule sbuf_drain_ok [OF assms(1,2)])
  have fs: "SBUF_FREESPACE s1 > 0"
    using s1(3,4) assms(2) by (simp add: SBUF_FREESPACE_def drain_mode_def sbuf_wf_def)
  then obtain s2 where s2: "sbuf_put_byte A s1 c = Some s2" "put_ok s1 c s2" "s_error s2 = 0" "s_size s2 = s_size s1"
    using put_byte_room [of s1 A c] s1(2) by (auto simp: drain_mode_def)
  have "sbuf_put_byte A s c = sbuf_put_byte A s1 c"
    using False fs s1(1,2) assms(2) by (simp add: sbuf_put_byte_def drain_mode_def)
  then show ?thesis using s2 s1 by (auto simp: put_ok_def drain_mode_def drained_text_def)
qed

lemma bcat_loop_drain:
  assumes "good_drain f seen" "drain_mode f s" "2 \<le> s_size s"
  shows "\<exists>s'. bcat_loop A s str = Some (0, s') \<and> drain_mode f s' \<and> s_size s' = s_size s \<and>
    drained_text seen s' = drained_text seen s @ str"
  using assms(2,3)
proof (induction str arbitrary: s)
  case (Cons c str)
  obtain s1 where s1: "sbuf_put_byte A s c = Some s1" "drain_mode f s1" "s_size s1 = s_size s"
    "drained_text seen s1 = drained_text seen s @ [c]"
    using put_byte_drain [OF assms(1) Cons.prems] by blast
  then obtain s' where "bcat_loop A s1 str = Some (0, s')" "drain_mode f s'" "s_size s' = s_size s1"
    "drained_text seen s' = drained_text seen s1 @ str"
    using Cons.IH [of s1] Cons.prems(2) by auto
  then show ?case using s1 by (simp add: drain_mode_def)
qed simp

lemma finish_loop_ok:
  assumes "good_drain f seen" "drain_mode f s"
  shows "\<exists>s'. finish_loop s = Some s' \<and> drain_mode f s' \<and> s_len s' = 0 \<and> drained_text seen s' = drained_text seen s"
  using assms(2)
proof (induction "nat (s_len s)" arbitrary: s rule: less_induct)
  case less
  show ?case
  proof (cases "0 < s_len s")
    case True
    obtain s1 where s1: "sbuf_drain s = Some (0, s1)" "drain_mode f s1" "s_len s1 < s_len s"
      "drained_text seen s1 = drained_text seen s"
      by (rule sbuf_drain_ok [OF assms(1) less.prems True])
    have "s1\<lparr>s_error := 0\<rparr> = s1" using s1(2) by (simp add: drain_mode_def)
    then have "finish_loop s = finish_loop s1"
      using True s1(1,3) less.prems by (subst finish_loop.simps) (simp add: drain_mode_def)
    moreover have "nat (s_len s1) < nat (s_len s)" using s1(3) True by simp
    ultimately show ?thesis using less.hyps [of s1] s1(2,4) by simp
  next
    case False
    then have "finish_loop s = Some s" by (subst finish_loop.simps) simp
    moreover have "s_len s = 0" using False less.prems by (simp add: drain_mode_def sbuf_wf_def)
    ultimately show ?thesis using less.prems by simp
  qed
qed

section \<open>Properties of string buffers\<close>

text \<open>Concrete buffers and allocators for the witnesses.\<close>

definition ok_alloc :: alloc where
  "ok_alloc n = Some (replicate (nat n) (CHR ''?''))"

lemma ok_alloc: "alloc_sized ok_alloc" "\<forall>n. 0 \<le> n \<longrightarrow> ok_alloc n \<noteq> None"
  by (simp_all add: alloc_sized_def ok_alloc_def)

definition fixed4 :: "string sbuf" where
  "fixed4 = sbuf_zero\<lparr>s_buf := Some ''????'', s_size := 4\<rparr>"

definition half_drain :: "string drain" where
  "half_drain d bs = (int ((length bs + 1) div 2), Some ((case d of None \<Rightarrow> [] | Some s \<Rightarrow> s) @ take ((length bs + 1) div 2) bs))"

text \<open>
  C36. Appending to a buffer that may be extended never loses a character: while memory lasts and the
  text stays below 2 GB, \<^verbatim>\<open>sbuf_bcat\<close> returns 0, keeps the buffer well formed and appends exactly
  the given characters.
\<close>

theorem sbuf_bcat_auto:
  assumes "sbuf_wf s" "s_error s = 0" "s_drain_func s = None" "alloc_sized A" "SBUF_CANEXTEND s"
    "\<forall>n. 0 \<le> n \<longrightarrow> A n \<noteq> None" "s_len s + int (length str) \<le> 2147475456"
  shows "\<exists>s'. sbuf_bcat A s str = Some (0, s') \<and> sbuf_wf s' \<and> sbuf_text s' = sbuf_text s @ str \<and> s_error s' = 0"
  using bcat_loop_auto [OF assms] assms(2) by (auto simp: sbuf_bcat_def)

theorem sbuf_bcat_auto_witness:
  "\<exists>s'. sbuf_bcat ok_alloc (fixed4\<lparr>s_flags := 1\<rparr>) ''hello world'' = Some (0, s') \<and> sbuf_text s' = ''hello world''"
proof -
  have "sbuf_wf (fixed4\<lparr>s_flags := 1\<rparr>)" "SBUF_CANEXTEND (fixed4\<lparr>s_flags := 1\<rparr>)" "sbuf_text (fixed4\<lparr>s_flags := 1\<rparr>) = []"
    by (simp_all add: fixed4_def sbuf_zero_def sbuf_wf_def SBUF_CANEXTEND_def SBUF_AUTOEXTEND_def sbuf_text_def)
  then show ?thesis
    using sbuf_bcat_auto [of "fixed4\<lparr>s_flags := 1\<rparr>" ok_alloc "''hello world''"] ok_alloc
    by (auto simp: fixed4_def sbuf_zero_def)
qed

text \<open>
  C37. Appending to a buffer of fixed size keeps what fits: the text is cut at one character less than the
  size, and the call returns -1 and records \<^verbatim>\<open>ENOMEM\<close> exactly when something did not fit.  Once an
  error is recorded, appending returns -1 and changes nothing.
\<close>

theorem sbuf_bcat_fixed:
  assumes "sbuf_wf s" "s_drain_func s = None" "alloc_sized A" "\<not> SBUF_CANEXTEND s" "s_size s \<le> 2147475456"
  shows "if s_error s = 0
    then \<exists>rc s'. sbuf_bcat A s str = Some (rc, s') \<and> sbuf_wf s' \<and>
      sbuf_text s' = take (nat (s_size s) - 1) (sbuf_text s @ str) \<and>
      (if s_len s + int (length str) < s_size s then rc = 0 \<and> s_error s' = 0 else rc = - 1 \<and> s_error s' = ENOMEM)
    else sbuf_bcat A s str = Some (- 1, s) \<and> sbuf_cat A s str = Some (- 1, s)"
proof (cases "s_error s = 0")
  case True
  then have "sbuf_bcat A s str = bcat_loop A s str" by (simp add: sbuf_bcat_def)
  then have "\<exists>rc s'. sbuf_bcat A s str = Some (rc, s') \<and> sbuf_wf s' \<and>
      sbuf_text s' = take (nat (s_size s) - 1) (sbuf_text s @ str) \<and>
      (if s_len s + int (length str) < s_size s then rc = 0 \<and> s_error s' = 0 else rc = - 1 \<and> s_error s' = ENOMEM)"
    using bcat_loop_fixed [OF assms(1) True assms(2-5), of str] by metis
  with True show ?thesis by argo
qed (simp add: sbuf_bcat_def sbuf_cat_def)

theorem sbuf_bcat_fixed_witness:
  "\<exists>s'. sbuf_bcat ok_alloc fixed4 ''hello'' = Some (- 1, s') \<and> sbuf_text s' = ''hel'' \<and> s_error s' = ENOMEM"
proof -
  have "sbuf_wf fixed4" "\<not> SBUF_CANEXTEND fixed4" "sbuf_text fixed4 = []"
    by (simp_all add: fixed4_def sbuf_zero_def sbuf_wf_def SBUF_CANEXTEND_def sbuf_text_def)
  then show ?thesis
    using sbuf_bcat_fixed [of fixed4 ok_alloc "''hello''"] ok_alloc(1) by (auto simp: fixed4_def sbuf_zero_def)
qed

text \<open>
  C38. With a drain nothing is lost or reordered: for every drain that takes at least one of the
  characters it is offered, appending and then finishing succeeds, and what the drain has received in the
  end is what was pending followed by the appended characters.
\<close>

theorem sbuf_drain_lossless:
  assumes "good_drain f seen" "sbuf_wf s" "s_error s = 0" "s_drain_func s = Some f" "2 \<le> s_size s"
  shows "\<exists>s1 s2. sbuf_bcat A s str = Some (0, s1) \<and> sbuf_finish s1 = Some (0, s2) \<and> s_len s2 = 0 \<and>
    seen (s_drain_arg s2) = seen (s_drain_arg s) @ sbuf_text s @ str \<and> sbuf_done s2"
proof -
  have dm: "drain_mode f s" using assms by (simp add: drain_mode_def)
  obtain s1 where s1: "bcat_loop A s str = Some (0, s1)" "drain_mode f s1"
    "drained_text seen s1 = drained_text seen s @ str"
    using bcat_loop_drain [OF assms(1) dm assms(5)] by blast
  obtain s2 where s2: "finish_loop s1 = Some s2" "drain_mode f s2" "s_len s2 = 0"
    "drained_text seen s2 = drained_text seen s1"
    using finish_loop_ok [OF assms(1) s1(2)] by blast
  obtain b where b: "s_buf s2 = Some b" "int (length b) = s_size s2" "s_len s2 < s_size s2"
    using s2(2) by (cases "s_buf s2") (auto simp: drain_mode_def sbuf_wf_def)
  then have "0 < length b" using s2(3) by linarith
  note b = b(1) this
  define s3 where "s3 = SBUF_SETFLAG SBUF_FINISHED (s2\<lparr>s_buf := Some (b[0 := CHR 0x00])\<rparr>)"
  have "sbuf_finish s1 = Some (0, s3)"
    using s1(2) s2 b by (simp add: sbuf_finish_def drain_mode_def require_def s3_def)
  moreover have "sbuf_text s2 = []" using s2(3) b by (simp add: sbuf_text_def)
  then have "seen (s_drain_arg s3) = seen (s_drain_arg s) @ sbuf_text s @ str"
    using s1(3) s2(4) by (simp add: drained_text_def s3_def)
  ultimately show ?thesis
    using s1(1) s2(3) assms(3) by (auto simp: sbuf_bcat_def s3_def sbuf_done_def flag_updates)
qed

theorem sbuf_drain_lossless_witness:
  "\<exists>s1 s2. sbuf_bcat ok_alloc (fixed4\<lparr>s_drain_func := Some half_drain\<rparr>) ''hello world'' = Some (0, s1) \<and>
     sbuf_finish s1 = Some (0, s2) \<and> s_drain_arg s2 = Some ''hello world''"
proof -
  let ?seen = "\<lambda>d. case d of None \<Rightarrow> [] | Some s \<Rightarrow> s"
  let ?s = "fixed4\<lparr>s_drain_func := Some half_drain\<rparr>"
  have g: "good_drain half_drain ?seen" by (auto simp: good_drain_def half_drain_def Suc_le_eq nat_div_distrib)
  have e: "?seen (s_drain_arg ?s) = []" "sbuf_text ?s = []"
    by (simp_all add: fixed4_def sbuf_zero_def sbuf_text_def)
  obtain s1 s2 where r: "sbuf_bcat ok_alloc ?s ''hello world'' = Some (0, s1)" "sbuf_finish s1 = Some (0, s2)"
    "?seen (s_drain_arg s2) = ?seen (s_drain_arg ?s) @ sbuf_text ?s @ ''hello world''"
    using sbuf_drain_lossless [OF g, of ?s ok_alloc "''hello world''"]
    by (auto simp: fixed4_def sbuf_zero_def sbuf_wf_def)
  have "s_drain_arg s2 = Some ''hello world''" using r(3) unfolding e by (cases "s_drain_arg s2") auto
  with r(1,2) show ?thesis by blast
qed

text \<open>
  Life of a buffer: after \<^verbatim>\<open>sbuf_new\<close> with automatic extension, \<^verbatim>\<open>sbuf_cat\<close> of a string
  and \<^verbatim>\<open>sbuf_finish\<close>, the storage returned by \<^verbatim>\<open>sbuf_data\<close> is the C string that was put in,
  \<^verbatim>\<open>sbuf_len\<close> is its length and the buffer is marked as finished.
\<close>

lemma sbuf_lifecycle:
  assumes "alloc_sized A" "\<forall>n. 0 \<le> n \<longrightarrow> A n \<noteq> None" "CHR 0x00 \<notin> set str" "length str \<le> 2147475456"
  shows "\<exists>(s :: 'd sbuf) s1 s2 b. sbuf_new A True True None 0 SBUF_AUTOEXTEND = Some (Some s) \<and>
    sbuf_cat A s str = Some (0, s1) \<and> sbuf_finish s1 = Some (0, s2) \<and> sbuf_data s2 = Some (Some b) \<and>
    c_str b = str \<and> sbuf_len s2 = Some (int (length str)) \<and> sbuf_done s2"
proof -
  have es: "sbuf_extendsize 0 = Some 16" by (simp add: sbuf_extendsize_def SBUF_MAXEXTENDSIZE_def
      SBUF_MINEXTENDSIZE_def require_def double_until.simps)
  obtain b0 where b0: "A 16 = Some b0" "length b0 = 16" proof -
    obtain b where "A 16 = Some b" using assms(2) [rule_format, of 16] by auto
    then show thesis using that assms(1) unfolding alloc_sized_def
      by (metis nat_int nat_numeral zero_le_numeral)
  qed
  define s where "s = SBUF_SETFLAG SBUF_DYNSTRUCT (SBUF_SETFLAG SBUF_DYNAMIC
    (sbuf_zero\<lparr>s_flags := SBUF_AUTOEXTEND, s_size := 16, s_buf := Some b0\<rparr>) :: 'd sbuf)"
  have new: "sbuf_new A True True None 0 SBUF_AUTOEXTEND = Some (Some s)"
    using es b0 by (simp add: sbuf_new_def sbuf_newbuf_def require_def s_def sbuf_zero_def flag_defs)
  have s: "sbuf_wf s" "s_error s = 0" "s_drain_func s = None" "SBUF_CANEXTEND s" "s_len s = 0" "sbuf_text s = []"
    using b0 by (simp_all add: s_def sbuf_wf_def sbuf_zero_def sbuf_text_def flag_tests SBUF_SETFLAG_def
        flag_bits bit_simps)
  have cs: "c_str str = str" using assms(3) by (auto simp: c_str_def takeWhile_eq_all_conv)
  obtain s1 where s1: "sbuf_cat A s str = Some (0, s1)" "sbuf_wf s1" "sbuf_text s1 = str" "s_error s1 = 0"
    "s_drain_func s1 = None"
    using bcat_loop_auto [OF s(1-3) assms(1) s(4) assms(2), of str] s assms(4) cs by (auto simp: sbuf_cat_def)
  obtain b where b: "s_buf s1 = Some b" "nat (s_len s1) < length b" "0 \<le> s_len s1"
    using s1(2) by (cases "s_buf s1") (auto simp: sbuf_wf_def)
  have t: "take (nat (s_len s1)) b = str" using s1(3) b(1) by (simp add: sbuf_text_def)
  define b' where "b' = b[nat (s_len s1) := CHR 0x00]"
  define s2 where "s2 = SBUF_SETFLAG SBUF_FINISHED (s1\<lparr>s_buf := Some b'\<rparr>)"
  have f: "sbuf_finish s1 = Some (0, s2)"
    using s1(4,5) b by (simp add: sbuf_finish_def require_def s2_def b'_def)
  have "b' = str @ CHR 0x00 # drop (Suc (nat (s_len s1))) b"
    unfolding b'_def t [symmetric] using b(2) by (simp add: upd_conv_take_nth_drop)
  then have "c_str b' = str" using assms(3) by (auto simp: c_str_def takeWhile_tail)
  moreover have "s_len s1 = int (length str)" using t b by auto
  moreover have "sbuf_data s2 = Some (Some b')" "sbuf_len s2 = Some (s_len s1)" "sbuf_done s2"
    using s1(4,5) by (simp_all add: sbuf_data_def sbuf_len_def require_def s2_def sbuf_done_def flag_updates)
  ultimately have "sbuf_data s2 = Some (Some b') \<and> c_str b' = str \<and> sbuf_len s2 = Some (int (length str)) \<and> sbuf_done s2"
    by simp
  with new s1(1) f show ?thesis by blast
qed

section \<open>Properties of formatted output\<close>

text \<open>The value of a string of digits in a base, most significant first.\<close>

definition digit_value :: "char \<Rightarrow> nat" where
  "digit_value c = (let n = of_char c in if 97 \<le> n then n - 87 else if 65 \<le> n then n - 55 else n - 48)"

definition number_value :: "nat \<Rightarrow> string \<Rightarrow> nat" where
  "number_value base ds = foldl (\<lambda>v d. v * base + digit_value d) 0 ds"

lemma digit_value_hex:
  assumes "d < 36"
  shows "digit_value (hex2ascii d) = d" "digit_value (toupper (hex2ascii d)) = d"
proof -
  have "list_all (\<lambda>d. digit_value (hex2ascii d) = d \<and> digit_value (toupper (hex2ascii d)) = d) [0 ..< 36]"
    by code_simp
  then show "digit_value (hex2ascii d) = d" "digit_value (toupper (hex2ascii d)) = d"
    using assms by (auto simp: list_all_iff)
qed

lemma ksprintn_digits_step:
  "2 \<le> base \<Longrightarrow> rev (ksprintn_digits num base up) =
     (if num div base = 0 then [] else rev (ksprintn_digits (num div base) base up)) @
     [if up then toupper (hex2ascii (num mod base)) else hex2ascii (num mod base)]"
  by (subst ksprintn_digits.simps) (simp add: Let_def)

lemma digits_correct:
  assumes "2 \<le> base" "base \<le> 36"
  shows "number_value base (rev (ksprintn_digits num base up)) = num"
proof (induction num rule: less_induct)
  case (less num)
  have app: "number_value base (xs @ [c]) = number_value base xs * base + digit_value c" for xs c
    by (simp add: number_value_def)
  have d: "digit_value (if up then toupper (hex2ascii (num mod base)) else hex2ascii (num mod base)) = num mod base"
  proof -
    have "num mod base < base" using assms(1) by (intro mod_less_divisor) simp
    then have "num mod base < 36" using assms(2) by simp
    then show ?thesis by (simp add: digit_value_hex)
  qed
  show ?case
  proof (cases "num div base = 0")
    case True
    then show ?thesis using assms d by (simp add: ksprintn_digits_step app number_value_def div_eq_0_iff)
  next
    case False
    then have "num div base < num" using assms by (intro div_less_dividend) (auto intro: gr0I)
    then have "number_value base (rev (ksprintn_digits (num div base) base up)) = num div base" by (rule less)
    then show ?thesis unfolding ksprintn_digits_step [OF assms(1), of num] app d using False by simp
  qed
qed

lemma digits_length:
  "2 \<le> base \<Longrightarrow> num < base ^ Suc k \<Longrightarrow> length (ksprintn_digits num base up) \<le> Suc k"
proof (induction k arbitrary: num)
  case 0
  then show ?case by (subst ksprintn_digits.simps) (simp add: Let_def)
next
  case (Suc k)
  have "num div base < base ^ Suc k" using Suc.prems by (simp add: div_less_iff_less_mult mult.commute)
  then have "length (ksprintn_digits (num div base) base up) \<le> Suc k" using Suc by blast
  then show ?case by (subst ksprintn_digits.simps) (simp add: Let_def)
qed

lemma digits_decimal: "rev (ksprintn_digits num 10 False) = dec_nat num"
proof (induction num rule: less_induct)
  case (less num)
  have h: "d < 10 \<Longrightarrow> hex2ascii d = digit d" for d
  proof -
    have "list_all (\<lambda>d. hex2ascii d = digit d) [0 ..< 10]" by code_simp
    then show "d < 10 \<Longrightarrow> hex2ascii d = digit d" by (auto simp: list_all_iff)
  qed
  show ?case
  proof (cases "num < 10")
    case True
    then show ?thesis by (simp add: ksprintn_digits_step dec_nat.simps [of num] h)
  next
    case False
    then have "num div 10 \<noteq> 0" "num div 10 < num" by auto
    moreover have "dec_nat num = dec_nat (num div 10) @ [digit (num mod 10)]"
      using False by (simp add: dec_nat.simps [of num])
    ultimately show ?thesis using less [of "num div 10"] ksprintn_digits_step [of 10 num False] h [of "num mod 10"]
      by simp
  qed
qed

text \<open>
  \<^verbatim>\<open>ksprintn\<close> is right for every base from 2 to 36: the digits denote the number, and even
  the longest, 64 binary digits with the terminator, fits the buffer of \<^verbatim>\<open>MAXNBUF\<close> characters.
\<close>

lemma ksprintn_correct:
  assumes "2 \<le> base" "base \<le> 36"
  shows "\<exists>ds. ksprintn num base up = Some ds \<and> number_value base ds = unat num \<and> length ds < MAXNBUF"
proof -
  have "unat num < 2 ^ Suc 63" using unsigned_less [of num, where 'a = nat] by simp
  also have "\<dots> \<le> base ^ Suc 63" using assms(1) by (rule power_mono) simp
  finally have "length (ksprintn_digits (unat num) base up) \<le> 64"
    using digits_length [OF assms(1), of "unat num" 63 up] by simp
  then show ?thesis using digits_correct [OF assms, of "unat num" up] assms
    by (simp add: ksprintn_def Let_def MAXNBUF_def)
qed

lemma kv_loop_ret: "kv_loop radix stop fmt args ret = Some r \<Longrightarrow> kvr_ret r = ret + int (length (kvr_out r))"
proof (induction radix stop fmt args ret arbitrary: r rule: kv_loop.induct)
  case (2 radix stop ch fmt args ret)
  show ?case
  proof (cases "ch \<noteq> CHR ''%'' \<or> stop")
    case True
    then obtain r1 where "kv_loop radix stop fmt args (ret + 1) = Some r1" "r = r1\<lparr>kvr_out := ch # kvr_out r1\<rparr>"
      using 2(3) by auto
    then show ?thesis using 2(1) [OF True] by simp
  next
    case False
    then obtain d r1 where d: "kv_directive radix kv_start ''%'' fmt args ret = Some d"
      "kv_loop radix (kv_stop d) (kv_fmt d) (kv_args d) (ret + int (length (kv_out d))) = Some r1"
      "r = r1\<lparr>kvr_out := kv_out d @ kvr_out r1, kvr_stores := kv_stores d @ kvr_stores r1\<rparr>"
      using 2(3) by (auto split: option.splits)
    then show ?thesis using 2(2) [OF False d(1) d(2)] by simp
  qed
qed simp

text \<open>
  The value that \<^verbatim>\<open>kvprintf\<close> returns is the number of characters it has put out, for every
  format and every list of arguments on which it is defined.
\<close>

lemma kvprintf_returns_length:
  assumes "kvprintf fmt radix args = Some r"
  shows "kvr_ret r = int (length (kvr_out r))"
  using kv_loop_ret assms by (fastforce simp: kvprintf_def)

lemma kvprintf_returns_length_witness:
  "\<exists>r. kvprintf (Some ''%5s|%-4x|'') 10 [VStr (Some ''ab''), VInt 255] = Some r \<and>
     kvr_out r = ''   ab|ff  |'' \<and> kvr_ret r = 11"
proof -
  have "map_option kvr_out (kvprintf (Some ''%5s|%-4x|'') 10 [VStr (Some ''ab''), VInt 255]) = Some ''   ab|ff  |''"
    by code_simp
  then obtain r where "kvprintf (Some ''%5s|%-4x|'') 10 [VStr (Some ''ab''), VInt 255] = Some r"
    "kvr_out r = ''   ab|ff  |''" by auto
  then show ?thesis using kvprintf_returns_length [of "Some ''%5s|%-4x|''" 10 "[VStr (Some ''ab''), VInt 255]" r] by simp
qed

lemma kv_loop_text:
  "CHR ''%'' \<notin> set pre \<Longrightarrow> kv_loop radix False (pre @ fmt) args ret =
     map_option (\<lambda>r. r\<lparr>kvr_out := pre @ kvr_out r\<rparr>) (kv_loop radix False fmt args (ret + int (length pre)))"
proof (induction pre arbitrary: ret)
  case Nil
  then show ?case by (cases "kv_loop radix False fmt args ret") auto
next
  case (Cons c pre)
  then show ?case
    by (cases "kv_loop radix False fmt args (ret + int (length (c # pre)))") (auto simp: algebra_simps)
qed

lemma uint_of_int_small: "0 \<le> i \<Longrightarrow> i < 2 ^ 64 \<Longrightarrow> uint (word_of_int i :: u64) = i"
  by (simp add: uint_word_of_int_eq take_bit_int_eq_self)

lemma neg_uint: "sint w < 0 \<Longrightarrow> unat (- w) = nat (- sint w)" for w :: u64
proof -
  assume "sint w < 0"
  then have "uint (word_of_int (- sint w) :: u64) = - sint w"
    using sint_ge [of w] by (intro uint_of_int_small) auto
  moreover have "(word_of_int (- sint w) :: u64) = - w" by simp
  ultimately show ?thesis unfolding unat_eq_nat_uint by argo
qed

lemma pos_uint: "0 \<le> sint w \<Longrightarrow> unat w = nat (sint w)" for w :: u64
proof -
  assume "0 \<le> sint w"
  then have "uint (word_of_int (sint w) :: u64) = sint w"
    using sint_lt [of w] by (intro uint_of_int_small) auto
  moreover have "(word_of_int (sint w) :: u64) = w" by simp
  ultimately show ?thesis unfolding unat_eq_nat_uint by argo
qed

lemma kv_number_decimal: "kv_number (kv_start\<lparr>sign := True\<rparr>) 10 num = Some (dec (sint num))"
proof -
  have len: "length (dec_nat (unat n)) < 65" for n :: u64
    using digits_length [of 10 "unat n" 63 False] unsigned_less [of n, where 'a = nat]
    by (simp flip: digits_decimal)
  have k: "ksprintn n 10 False = Some (dec_nat (unat n))" for n
    using len [of n] by (simp add: ksprintn_def Let_def digits_decimal MAXNBUF_def flip: length_rev [of "ksprintn_digits (unat n) 10 False"])
  show ?thesis
    by (cases "sint num < 0") (auto simp: kv_number_def kv_start_def k Let_def dec_def neg_uint pos_uint)
qed

lemma sint_scast_int: "sint (scast (ucast v :: u32) :: u64) = sint (ucast v :: u32)"
  by (rule sint_up_scast) (simp add: is_up)

text \<open>
  Formatted output in context: for any text around the directives, \<^verbatim>\<open>%d\<close> prints its
  \<^verbatim>\<open>int\<close> argument in decimal, negative numbers included, \<^verbatim>\<open>%s\<close> its string, and the text is
  copied.
\<close>

lemma kvprintf_decimal_string:
  assumes "CHR ''%'' \<notin> set pre" "CHR ''%'' \<notin> set mid" "CHR ''%'' \<notin> set post"
  shows "map_option kvr_out (kvprintf (Some (pre @ ''%d'' @ mid @ ''%s'' @ post)) 10 [VInt v, VStr (Some str)]) =
    Some (pre @ dec (sint (ucast v :: u32)) @ mid @ str @ post)"
proof -
  have d: "kv_directive 10 kv_start ''%'' (CHR ''d'' # f) (VInt v # as) ret =
      Some (kv_done (dec (sint (ucast v :: u32))) f as)" for f as ret
    using kv_number_decimal [of "scast (ucast v :: u32)"]
    by (simp add: kv_directive.simps(2) kv_modifier_def isdigit_def kv_final_def kv_sign_def kv_convert_def
        int_arg_def handle_sign_def kv_start_def sint_scast_int)
  have s: "kv_directive 10 kv_start ''%'' (CHR ''s'' # f) (VStr (Some str) # as) ret = Some (kv_done str f as)" for f as ret
    by (simp add: kv_directive.simps(2) kv_modifier_def isdigit_def kv_final_def kv_string_def kv_start_def)
  have e: "kv_loop 10 False post as ret = Some \<lparr>kvr_out = post, kvr_ret = ret + int (length post), kvr_stores = []\<rparr>" for as ret
    using kv_loop_text [OF assms(3), of 10 "[]" as ret] by simp
  show ?thesis
    by (simp add: kvprintf_def kv_loop_text [OF assms(1)] kv_loop_text [OF assms(2)] d s e kv_done_def option.map_comp comp_def)
qed

end
