(* ===== verification/Avl.thy ===== *)
theory Avl
  imports Prelude
begin

text \<open>
  The AVL trees of the Solaris compatibility layer
  (\<^verbatim>\<open>bsd/sys/cddl/contrib/opensolaris/common/avl/avl.c\<close>).  The C nodes are embedded in the caller's
  objects and linked by child and parent pointers.  Here a subtree is a value of \<open>avl_node\<close>; a
  pointer to a node is the object it is embedded in, an element of \<open>'a\<close> that occurs once in the
  tree.  \<open>node_at\<close> follows such a pointer to the node and to the frames above it, innermost first:
  these are what \<^verbatim>\<open>AVL_XPARENT\<close> and \<^verbatim>\<open>AVL_XCHILD\<close> read, so every loop that climbs parent
  pointers is a recursion over the frames.  A child index is a truth value, \<open>False\<close> for 0 and
  \<open>True\<close> for 1.  A null pointer dereference, a pointer to a node that is not in the tree, a panic
  and a failed \<^verbatim>\<open>ASSERT\<close> all yield \<open>None\<close>.
\<close>

section \<open>Nodes, pointers, trees\<close>

datatype 'a avl_node = Null | Node "'a avl_node" 'a int "'a avl_node"

datatype 'a frame = Frame bool 'a int "'a avl_node"

type_synonym 'a place = "'a avl_node \<times> 'a frame list"
type_synonym 'a avl_index = "'a option \<times> bool"

record 'a avl_tree =
  avl_root :: "'a avl_node"
  avl_compar :: "'a \<Rightarrow> 'a \<Rightarrow> int"
  avl_numnodes :: nat

abbreviation (input) AVL_BEFORE :: bool where
  "AVL_BEFORE \<equiv> False"

abbreviation (input) AVL_AFTER :: bool where
  "AVL_AFTER \<equiv> True"

text \<open>
  \<open>node_with c x b t s\<close> is the node with object \<open>x\<close> and balance \<open>b\<close> whose child \<open>c\<close> is
  \<open>t\<close> and whose other child is \<open>s\<close>.
\<close>

definition node_with :: "bool \<Rightarrow> 'a \<Rightarrow> int \<Rightarrow> 'a avl_node \<Rightarrow> 'a avl_node \<Rightarrow> 'a avl_node" where
  "node_with c x b t s = (if c then Node s x b t else Node t x b s)"

fun avl_child :: "'a avl_node \<Rightarrow> bool \<Rightarrow> 'a avl_node" where
  "avl_child Null c = Null"
| "avl_child (Node l x b r) c = (if c then r else l)"

fun is_null :: "'a avl_node \<Rightarrow> bool" where
  "is_null Null = True"
| "is_null (Node l x b r) = False"

fun node_data :: "'a avl_node \<Rightarrow> 'a option" where
  "node_data Null = None"
| "node_data (Node l x b r) = Some x"

fun plug :: "'a avl_node \<Rightarrow> 'a frame list \<Rightarrow> 'a avl_node" where
  "plug t [] = t"
| "plug t (Frame c x b s # p) = plug (node_with c x b t s) p"

fun node_at :: "'a \<Rightarrow> 'a avl_node \<Rightarrow> 'a frame list \<Rightarrow> 'a place option" where
  "node_at d Null p = None"
| "node_at d (Node l x b r) p =
     (if x = d then Some (Node l x b r, p)
      else case node_at d l (Frame False x b r # p) of
        Some q \<Rightarrow> Some q
      | None \<Rightarrow> node_at d r (Frame True x b l # p))"

definition avl_child2balance :: "bool \<Rightarrow> int" where
  "avl_child2balance c = (if c then 1 else - 1)"

definition avl_balance2child :: "int \<Rightarrow> bool" where
  "avl_balance2child b = (b = 1)"

section \<open>Walking and searching\<close>

text \<open>\<open>descend\<close> is the loop that follows child \<open>c\<close> while there is one.\<close>

fun descend :: "bool \<Rightarrow> 'a avl_node \<Rightarrow> 'a frame list \<Rightarrow> 'a place" where
  "descend c Null p = (Null, p)"
| "descend c (Node l x b r) p =
     (if is_null (if c then r else l) then (Node l x b r, p)
      else if c then descend c r (Frame c x b l # p)
      else descend c l (Frame c x b r # p))"

fun ascend :: "bool \<Rightarrow> 'a frame list \<Rightarrow> 'a option" where
  "ascend right [] = None"
| "ascend right (Frame c x b s # p) = (if c = right then Some x else ascend right p)"

definition avl_walk :: "'a avl_tree \<Rightarrow> 'a \<Rightarrow> bool \<Rightarrow> 'a option option" where
  "avl_walk tree oldnode left =
     (case node_at oldnode (avl_root tree) [] of
        None \<Rightarrow> None
      | Some (node, p) \<Rightarrow>
          (if \<not> is_null (avl_child node left)
           then Some (node_data (fst (descend (\<not> left) (avl_child node left) [])))
           else Some (ascend (\<not> left) p)))"

fun far :: "bool \<Rightarrow> 'a avl_node \<Rightarrow> 'a option \<Rightarrow> 'a option" where
  "far c Null prev = prev"
| "far c (Node l x b r) prev = (if c then far c r (Some x) else far c l (Some x))"

definition avl_first :: "'a avl_tree \<Rightarrow> 'a option" where
  "avl_first tree = far False (avl_root tree) None"

definition avl_last :: "'a avl_tree \<Rightarrow> 'a option" where
  "avl_last tree = far True (avl_root tree) None"

definition avl_nearest :: "'a avl_tree \<Rightarrow> 'a avl_index \<Rightarrow> bool \<Rightarrow> 'a option option" where
  "avl_nearest tree where direction =
     (case where of
        (None, child) \<Rightarrow> if is_null (avl_root tree) then Some None else None
      | (Some data, child) \<Rightarrow> if child \<noteq> direction then Some (Some data) else avl_walk tree data direction)"

text \<open>
  \<^verbatim>\<open>avl_find\<close> returns the object found (\<open>Inl\<close>) or the insertion point (\<open>Inr\<close>).  Its
  \<^verbatim>\<open>ASSERT(-1 <= diff && diff <= 1)\<close> is an obligation on the comparison function alone: the first law of
  the locale \<open>avl_order\<close>, discharged for every comparison function of the development.
\<close>

fun find_loop :: "('a \<Rightarrow> 'a \<Rightarrow> int) \<Rightarrow> 'a \<Rightarrow> 'a avl_node \<Rightarrow> 'a avl_index \<Rightarrow> 'a + 'a avl_index" where
  "find_loop cmp v Null index = Inr index"
| "find_loop cmp v (Node l x b r) index =
     (let diff = cmp v x in
      if diff = 0 then Inl x
      else if avl_balance2child diff then find_loop cmp v r (Some x, True)
      else find_loop cmp v l (Some x, False))"

definition avl_find :: "'a avl_tree \<Rightarrow> 'a \<Rightarrow> 'a + 'a avl_index" where
  "avl_find tree v = find_loop (avl_compar tree) v (avl_root tree) (None, False)"

section \<open>Insertion\<close>

definition avl_rotation :: "'a avl_node \<Rightarrow> int \<Rightarrow> ('a avl_node \<times> bool) option" where
  "avl_rotation node balance =
     (let left = (\<not> balance < 0);
          right = (\<not> left);
          left_heavy = balance div 2;
          right_heavy = - left_heavy;
          child = avl_child node left;
          other = avl_child node right
      in case (node, child) of
        (Node _ x _ _, Node _ y child_bal _) \<Rightarrow>
          (if child_bal \<noteq> right_heavy then
             let child_bal' = child_bal + right_heavy;
                 cright = avl_child child right;
                 node' = node_with left x (- child_bal') cright other
             in Some (node_with right y child_bal' node' (avl_child child left), child_bal' = 0)
           else
             let gchild = avl_child child right;
                 gleft = avl_child gchild left;
                 gright = avl_child gchild right
             in case gchild of
                  Null \<Rightarrow> None
                | Node _ z bal _ \<Rightarrow>
                    let child' = node_with left y (if bal = right_heavy then left_heavy else 0)
                          (avl_child child left) gleft;
                        node' = node_with left x (if bal = left_heavy then right_heavy else 0) gright other
                    in Some (node_with left z 0 child' node', True))
      | _ \<Rightarrow> None)"

text \<open>The loop of \<^verbatim>\<open>avl_insert\<close>: \<open>t\<close> is the subtree that has just grown.\<close>

fun insert_up :: "'a avl_node \<Rightarrow> 'a frame list \<Rightarrow> 'a avl_node option" where
  "insert_up t [] = Some t"
| "insert_up t (Frame which_child x old_balance s # p) =
     (let new_balance = old_balance + avl_child2balance which_child in
      if new_balance = 0 then Some (plug (node_with which_child x 0 t s) p)
      else if old_balance \<noteq> 0 then
        (case avl_rotation (node_with which_child x old_balance t s) new_balance of
           None \<Rightarrow> None
         | Some (t', shorter) \<Rightarrow> Some (plug t' p))
      else insert_up (node_with which_child x new_balance t s) p)"

definition avl_insert :: "'a avl_tree \<Rightarrow> 'a \<Rightarrow> 'a avl_index \<Rightarrow> 'a avl_tree option" where
  "avl_insert tree new_data where =
     (let node = Node Null new_data 0 Null;
          tree' = tree\<lparr>avl_numnodes := avl_numnodes tree + 1\<rparr>
      in case where of
           (None, which_child) \<Rightarrow>
             if is_null (avl_root tree) then Some (tree'\<lparr>avl_root := node\<rparr>) else None
         | (Some parent, which_child) \<Rightarrow>
             (case node_at parent (avl_root tree) [] of
                Some (Node l x b r, p) \<Rightarrow>
                  if is_null (if which_child then r else l)
                  then map_option (\<lambda>root. tree'\<lparr>avl_root := root\<rparr>)
                         (insert_up node (Frame which_child x b (if which_child then l else r) # p))
                  else None
              | _ \<Rightarrow> None))"

definition avl_insert_here :: "'a avl_tree \<Rightarrow> 'a \<Rightarrow> 'a \<Rightarrow> bool \<Rightarrow> 'a avl_tree option" where
  "avl_insert_here tree new_data here direction =
     (case node_at here (avl_root tree) [] of
        None \<Rightarrow> None
      | Some (node, p) \<Rightarrow>
          if \<not> is_null (avl_child node direction)
          then avl_insert tree new_data
                 (node_data (fst (descend (\<not> direction) (avl_child node direction) [])), \<not> direction)
          else avl_insert tree new_data (Some here, direction))"

definition avl_add :: "'a avl_tree \<Rightarrow> 'a \<Rightarrow> 'a avl_tree option" where
  "avl_add tree new_node =
     (case avl_find tree new_node of Inl found \<Rightarrow> None | Inr where \<Rightarrow> avl_insert tree new_node where)"

section \<open>Removal\<close>

text \<open>The loop of \<^verbatim>\<open>avl_remove\<close>: \<open>t\<close> is the subtree that has just become lower.\<close>

fun remove_up :: "'a avl_node \<Rightarrow> 'a frame list \<Rightarrow> 'a avl_node option" where
  "remove_up t [] = Some t"
| "remove_up t (Frame which_child x old_balance s # p) =
     (let new_balance = old_balance - avl_child2balance which_child in
      if old_balance = 0 then Some (plug (node_with which_child x new_balance t s) p)
      else if new_balance = 0 then remove_up (node_with which_child x 0 t s) p
      else
        (case avl_rotation (node_with which_child x old_balance t s) new_balance of
           None \<Rightarrow> None
         | Some (t', shorter) \<Rightarrow> if \<not> shorter then Some (plug t' p) else remove_up t' p))"

text \<open>
  The place of the node that is unlinked: a node with two children first changes places with its
  neighbour on the higher side, which then has at most one child.
\<close>

definition delete_place :: "'a avl_node \<Rightarrow> 'a frame list \<Rightarrow> 'a place" where
  "delete_place node p =
     (case node of
        Node l x b r \<Rightarrow>
          if \<not> is_null l \<and> \<not> is_null r then
            let left = avl_balance2child b;
                (n, q) = descend (\<not> left) (avl_child node left) []
            in case node_data n of
                 Some y \<Rightarrow> (n, q @ Frame left y b (avl_child node (\<not> left)) # p)
               | None \<Rightarrow> (n, q)
          else (node, p)
      | Null \<Rightarrow> (node, p))"

definition avl_remove :: "'a avl_tree \<Rightarrow> 'a \<Rightarrow> 'a avl_tree option" where
  "avl_remove tree data =
     (case node_at data (avl_root tree) [] of
        None \<Rightarrow> None
      | Some (node, p) \<Rightarrow>
          let (delete, q) = delete_place node p;
              child = (if \<not> is_null (avl_child delete False) then avl_child delete False
                       else avl_child delete True)
          in if avl_numnodes tree = 0 then None
             else map_option (\<lambda>root. tree\<lparr>avl_numnodes := avl_numnodes tree - 1, avl_root := root\<rparr>)
                    (remove_up child q))"

section \<open>The other operations\<close>

definition avl_reinsert :: "'a avl_tree \<Rightarrow> 'a \<Rightarrow> 'a avl_tree option" where
  "avl_reinsert t obj = Option.bind (avl_remove t obj) (\<lambda>t'. avl_add t' obj)"

definition avl_update :: "'a avl_tree \<Rightarrow> 'a \<Rightarrow> (bool \<times> 'a avl_tree) option" where
  "avl_update t obj =
     Option.bind (avl_walk t obj AVL_BEFORE) (\<lambda>prev.
       if (case prev of None \<Rightarrow> False | Some neighbor \<Rightarrow> avl_compar t obj neighbor < 0)
       then map_option (Pair True) (avl_reinsert t obj)
       else Option.bind (avl_walk t obj AVL_AFTER) (\<lambda>next.
         if (case next of None \<Rightarrow> False | Some neighbor \<Rightarrow> avl_compar t obj neighbor > 0)
         then map_option (Pair True) (avl_reinsert t obj)
         else Some (False, t)))"

definition avl_update_lt :: "'a avl_tree \<Rightarrow> 'a \<Rightarrow> (bool \<times> 'a avl_tree) option" where
  "avl_update_lt t obj =
     Option.bind (avl_walk t obj AVL_AFTER) (\<lambda>next.
       if (case next of None \<Rightarrow> False | Some neighbor \<Rightarrow> avl_compar t obj neighbor > 0) then None
       else Option.bind (avl_walk t obj AVL_BEFORE) (\<lambda>prev.
         if (case prev of None \<Rightarrow> False | Some neighbor \<Rightarrow> avl_compar t obj neighbor < 0)
         then map_option (Pair True) (avl_reinsert t obj)
         else Some (False, t)))"

definition avl_update_gt :: "'a avl_tree \<Rightarrow> 'a \<Rightarrow> (bool \<times> 'a avl_tree) option" where
  "avl_update_gt t obj =
     Option.bind (avl_walk t obj AVL_BEFORE) (\<lambda>prev.
       if (case prev of None \<Rightarrow> False | Some neighbor \<Rightarrow> avl_compar t obj neighbor < 0) then None
       else Option.bind (avl_walk t obj AVL_AFTER) (\<lambda>next.
         if (case next of None \<Rightarrow> False | Some neighbor \<Rightarrow> avl_compar t obj neighbor > 0)
         then map_option (Pair True) (avl_reinsert t obj)
         else Some (False, t)))"

definition avl_create :: "('a \<Rightarrow> 'a \<Rightarrow> int) \<Rightarrow> 'a avl_tree" where
  "avl_create compar = \<lparr>avl_root = Null, avl_compar = compar, avl_numnodes = 0\<rparr>"

definition avl_destroy :: "'a avl_tree \<Rightarrow> unit option" where
  "avl_destroy tree = (if avl_numnodes tree = 0 \<and> is_null (avl_root tree) then Some () else None)"

definition avl_is_empty :: "'a avl_tree \<Rightarrow> bool" where
  "avl_is_empty tree \<longleftrightarrow> avl_numnodes tree = 0"

text \<open>
  Destroying a tree.  The cookie is null, the mark that the tree is done, or the parent of the node that
  was returned last with its child index.
\<close>

datatype 'a cookie = Cookie_null | CHILDBIT | Cookie 'a bool

definition destroy_done :: "'a avl_node \<Rightarrow> 'a frame list \<Rightarrow> 'a cookie" where
  "destroy_done node p = (case p of [] \<Rightarrow> CHILDBIT | Frame c x b s # _ \<Rightarrow> Cookie x c)"

definition check_right_side :: "'a place \<Rightarrow> 'a place option" where
  "check_right_side pl =
     (case pl of
        (Node l x b Null, p) \<Rightarrow> if b \<le> 0 then Some (Node l x b Null, p) else None
      | (Node l x b (Node rl y rb rr), p) \<Rightarrow>
          if b = 1 \<and> is_null rl \<and> is_null rr then Some (Node rl y rb rr, Frame True x b l # p) else None
      | (Null, p) \<Rightarrow> None)"

definition avl_destroy_nodes ::
    "'a avl_tree \<Rightarrow> 'a cookie \<Rightarrow> ('a option \<times> 'a avl_tree \<times> 'a cookie) option" where
  "avl_destroy_nodes tree cookie =
     (case cookie of
        Cookie_null \<Rightarrow>
          if is_null (avl_root tree) then Some (None, tree, CHILDBIT)
          else Option.bind (check_right_side (descend False (avl_root tree) [])) (\<lambda>(node, p).
            Some (node_data node, tree, destroy_done node p))
      | CHILDBIT \<Rightarrow>
          if is_null (avl_root tree) then Some (None, tree, cookie)
          else if avl_numnodes tree = 1
          then Some (None, tree\<lparr>avl_root := Null, avl_numnodes := 0\<rparr>, cookie) else None
      | Cookie parent child \<Rightarrow>
          (case node_at parent (avl_root tree) [] of
             Some (Node l x b r, p) \<Rightarrow>
               let l' = (if child then l else Null);
                   r' = (if child then Null else r);
                   tree' = tree\<lparr>avl_root := plug (Node l' x b r') p, avl_numnodes := avl_numnodes tree - 1\<rparr>
               in if avl_numnodes tree \<le> 1 then None
                  else if child \<or> is_null r'
                  then Some (Some x, tree', destroy_done (Node l' x b r') p)
                  else Option.bind (check_right_side (descend False r' (Frame True x b l' # p))) (\<lambda>(node, q).
                    Some (node_data node, tree', destroy_done node q))
           | _ \<Rightarrow> None))"

text \<open>The loop of every caller: the nodes that are handed out until the null pointer, and the tree left.\<close>

partial_function (option) avl_drain :: "'a avl_tree \<Rightarrow> 'a cookie \<Rightarrow> ('a list \<times> 'a avl_tree) option" where
  "avl_drain tree cookie =
     Option.bind (avl_destroy_nodes tree cookie) (\<lambda>(r, tree', cookie').
       case r of
         None \<Rightarrow> Some ([], tree')
       | Some node \<Rightarrow>
           Option.bind (avl_drain tree' cookie') (\<lambda>(nodes, tree''). Some (node # nodes, tree'')))"

text \<open>The loop over a tree with \<^verbatim>\<open>avl_first\<close> and \<^verbatim>\<open>AVL_NEXT\<close>: the nodes from \<open>node\<close> on.\<close>

partial_function (option) avl_iterate :: "'a avl_tree \<Rightarrow> 'a option \<Rightarrow> 'a list option" where
  "avl_iterate tree node =
     (case node of
        None \<Rightarrow> Some []
      | Some x \<Rightarrow> Option.bind (avl_walk tree x AVL_AFTER) (\<lambda>next.
          Option.bind (avl_iterate tree next) (\<lambda>xs. Some (x # xs))))"

end
