(* ===== verification/Sysmacros.thy ===== *)
theory Sysmacros
  imports Prelude
begin

text \<open>
  The arithmetic of powers of two on 64-bit words that ZFS takes from \<^verbatim>\<open>sys/sysmacros.h\<close>: alignment,
  rounding, and the highest bit that is set.
\<close>

definition P2PHASE :: "u64 \<Rightarrow> u64 \<Rightarrow> u64" where
  "P2PHASE x align = x AND (align - 1)"

definition P2ALIGN :: "u64 \<Rightarrow> u64 \<Rightarrow> u64" where
  "P2ALIGN x align = x AND (- align)"

definition P2ROUNDUP :: "u64 \<Rightarrow> u64 \<Rightarrow> u64" where
  "P2ROUNDUP x align = - ((- x) AND (- align))"

definition highbit_step :: "nat \<Rightarrow> u64 \<Rightarrow> nat \<times> u64 \<Rightarrow> nat \<times> u64" where
  "highbit_step k m hi = (case hi of (h, i) \<Rightarrow> if i AND m \<noteq> 0 then (h + k, drop_bit k i) else (h, i))"

definition highbit :: "u64 \<Rightarrow> nat" where
  "highbit i =
     (if i = 0 then 0
      else fst (highbit_step 1 0x2 (highbit_step 2 0xc (highbit_step 4 0xf0
             (highbit_step 8 0xff00 (highbit_step 16 0xffff0000 (highbit_step 32 0xffffffff00000000 (1, i))))))))"

section \<open>Words as numbers\<close>

lemma unat_plus: "unat (x :: u64) + unat y < 2 ^ 64 \<Longrightarrow> unat (x + y) = unat x + unat y"
  by (simp add: unat_word_ariths)

lemma unat_push_bit: "unat x * 2 ^ k < 2 ^ 64 \<Longrightarrow> unat (push_bit k (x :: u64)) = unat x * 2 ^ k"
  by (simp only: unsigned_push_bit_eq) (simp add: push_bit_eq_mult take_bit_nat_eq_self)

lemma unat_drop_bit: "unat (drop_bit k (x :: u64)) = unat x div 2 ^ k"
proof -
  have "take_bit 64 (unat x) = unat x"
    using unsigned_less [of x, where 'a = nat] by (intro take_bit_nat_eq_self) simp
  then show ?thesis unfolding unsigned_drop_bit_eq by (simp add: drop_bit_eq_div)
qed

lemma P2PHASE_0_iff: "k < 64 \<Longrightarrow> P2PHASE x (2 ^ k) = 0 \<longleftrightarrow> 2 ^ k dvd unat x"
proof -
  assume k: "k < 64"
  have "P2PHASE x (2 ^ k) = take_bit k x"
    by (simp add: P2PHASE_def flip: take_bit_eq_mask mask_eq_exp_minus_1)
  then have "unat (P2PHASE x (2 ^ k)) = take_bit k (unat x)" by (simp only: unsigned_take_bit_eq)
  then show ?thesis by (metis dvd_eq_mod_eq_0 take_bit_eq_mod unat_eq_zero)
qed

section \<open>Powers of two\<close>

lemma odd_part: "0 < n \<Longrightarrow> \<exists>k m. n = 2 ^ k * (2 * m + 1 :: nat)"
proof (induction n rule: less_induct)
  case (less n)
  show ?case
  proof (cases "even n")
    case True
    then obtain h where h: "n = 2 * h" by (elim evenE)
    then obtain k m where "h = 2 ^ k * (2 * m + 1)" using less.IH [of h] less.prems h by fastforce
    then show ?thesis using h by (intro exI [of _ "Suc k"] exI [of _ m]) simp
  next
    case False
    then obtain m where "n = 2 * m + 1" by (elim oddE)
    then show ?thesis by (intro exI [of _ 0] exI [of _ m]) simp
  qed
qed

lemma P2ALIGN_ok: "unat (P2ALIGN x (2 ^ k)) = unat x div 2 ^ k * 2 ^ k"
proof -
  have "- (2 ^ k) = NOT (mask k :: u64)" by (simp add: minus_eq_not_minus_1 mask_eq_exp_minus_1)
  then have "P2ALIGN x (2 ^ k) = push_bit k (drop_bit k x)" unfolding P2ALIGN_def by (intro bit_word_eqI) (auto simp: bit_simps)
  moreover have "unat x div 2 ^ k * 2 ^ k < 2 ^ 64" using unsigned_less [of x, where 'a = nat] by (intro le_less_trans [OF div_times_less_eq_dividend]) simp
  ultimately show ?thesis using unat_push_bit [of "drop_bit k x" k] unat_drop_bit [of k x] by simp
qed

lemma lowest_bit:
  fixes sz :: u64
  assumes "sz \<noteq> 0"
  obtains k where "sz AND (- sz) = 2 ^ k" "k < 64" "2 ^ k dvd unat sz" "\<And>j. 2 ^ j dvd unat sz \<Longrightarrow> j \<le> k"
proof -
  obtain k m where km: "unat sz = 2 ^ k * (2 * m + 1)" using odd_part [of "unat sz"] assms by (auto simp: unat_gt_0)
  have "2 ^ k * 1 \<le> unat sz" unfolding km by (intro mult_le_mono) auto
  then have k: "k < 64" using unsigned_less [of sz, where 'a = nat] power_strict_increasing_iff [of "2 :: nat" k 64] by simp
  have "unat sz = 2 ^ Suc k * m + 2 ^ k" using km by (simp add: algebra_simps)
  then have "of_nat (unat sz) = (of_nat (2 ^ Suc k * m + 2 ^ k) :: u64)" by simp
  moreover define q where "q = (push_bit (Suc k) (of_nat m) :: u64)"
  ultimately have sz: "sz = q + 2 ^ k" by (simp add: push_bit_eq_mult)
  have low: "\<not> bit q i" if "i \<le> k" for i using that unfolding q_def bit_push_bit_iff by simp
  have or1: "q + 2 ^ k = q OR 2 ^ k" using low by (intro disjunctive_add) (auto simp: bit_simps)
  have or2: "q + mask k = q OR mask k" using low by (intro disjunctive_add) (auto simp: bit_simps)
  have "sz - 1 = q + mask k" using sz by (simp add: mask_eq_exp_minus_1)
  then have "- sz = NOT (q OR mask k)" using or2 by (simp add: minus_eq_not_minus_1)
  then have "sz AND (- sz) = (q OR 2 ^ k) AND NOT (q OR mask k)" using sz or1 by simp
  also have "\<dots> = 2 ^ k" using low by (intro bit_word_eqI) (auto simp: bit_simps)
  finally have "sz AND (- sz) = 2 ^ k" .
  moreover have "j \<le> k" if "2 ^ j dvd unat sz" for j
  proof (rule ccontr)
    assume "\<not> j \<le> k"
    then have "2 ^ Suc k dvd unat sz" using that power_le_dvd [of 2 j "unat sz" "Suc k"] by simp
    then have "2 ^ k * 2 dvd 2 ^ k * (2 * m + 1)" unfolding km by (simp only: power_Suc mult.commute)
    then have "2 dvd 2 * m + 1" by (subst (asm) nat_mult_dvd_cancel_disj) simp
    then show False by presburger
  qed
  moreover have "2 ^ k dvd unat sz" using km by simp
  ultimately show thesis using that k by blast
qed

lemma P2ROUNDUP_ok:
  assumes "k < 64" "unat x + 2 ^ k \<le> 2 ^ 64"
  shows "unat x \<le> unat (P2ROUNDUP x (2 ^ k))" "unat (P2ROUNDUP x (2 ^ k)) < unat x + 2 ^ k"
    "2 ^ k dvd unat (P2ROUNDUP x (2 ^ k))"
proof -
  let ?r = "(- x) AND mask k"
  have y: "(- x) AND (- (2 ^ k)) = (- x) AND NOT (mask k)" by (simp add: minus_eq_not_minus_1 mask_eq_exp_minus_1)
  have "((- x) AND NOT (mask k)) + ?r = ((- x) AND NOT (mask k)) OR ?r"
    by (intro disjunctive_add) (auto simp: bit_simps)
  moreover have "((- x) AND NOT (mask k)) OR ?r = - x" by (intro bit_word_eqI) (auto simp: bit_simps)
  ultimately have "((- x) AND (- (2 ^ k))) + ?r = - x" using y by simp
  then have "(- x) AND (- (2 ^ k)) = - x - ?r" by (simp add: eq_diff_eq)
  then have e: "P2ROUNDUP x (2 ^ k) = x + ?r" by (simp add: P2ROUNDUP_def)
  have r: "unat ?r < 2 ^ k" using assms(1) by (simp add: take_bit_eq_mask [symmetric] unsigned_take_bit_eq)
  have u: "unat (x + ?r) = unat x + unat ?r" using r assms(2) by (intro unat_plus) simp
  show "unat x \<le> unat (P2ROUNDUP x (2 ^ k))" "unat (P2ROUNDUP x (2 ^ k)) < unat x + 2 ^ k" using e u r by simp_all
  let ?y = "(- x) AND (- (2 ^ k))"
  have "take_bit k ?y = 0" unfolding y by (intro bit_word_eqI) (auto simp: bit_simps)
  then have "take_bit k (unat ?y) = 0" by (simp flip: unsigned_take_bit_eq)
  then have "2 ^ k dvd unat ?y" by (simp add: take_bit_eq_mod dvd_eq_mod_eq_0)
  moreover have "2 ^ 64 dvd unat (P2ROUNDUP x (2 ^ k)) + unat ?y"
    using arg_cong [of "P2ROUNDUP x (2 ^ k) + ?y" 0 unat] unfolding unat_word_ariths(1) by (simp add: P2ROUNDUP_def dvd_eq_mod_eq_0)
  moreover have "(2 :: nat) ^ k dvd 2 ^ 64" using assms(1) by (intro le_imp_power_dvd) simp
  ultimately show "2 ^ k dvd unat (P2ROUNDUP x (2 ^ k))" using dvd_trans dvd_add_left_iff by blast
qed


text \<open>One halving step of \<^verbatim>\<open>highbit\<close>: the number fits \<open>2 * k\<close> bits before and \<open>k\<close> bits after.\<close>

lemma highbit_step_ok:
  assumes "i \<noteq> 0" "unat i < 2 ^ (2 * k)" "0 < k" "k \<le> 32" "m = push_bit k (mask k)"
  obtains d i' where "highbit_step k m (h, i) = (h + d, i')" "d \<le> k" "i' = drop_bit d i" "i' \<noteq> 0" "unat i' < 2 ^ k"
proof (cases "i AND m = 0")
  case True
  have "take_bit (2 * k) i = i" using assms(2) by (simp add: word_unat_eq_iff unsigned_take_bit_eq take_bit_nat_eq_self)
  then have lt: "n < 2 * k" if "bit i n" for n using that by (metis bit_take_bit_iff)
  have "n < k" if "bit i n" for n
  proof (rule ccontr)
    assume "\<not> n < k"
    then have "bit (i AND m) n" using that lt [OF that] assms(4) unfolding assms(5) by (auto simp: bit_simps)
    then show False using True by simp
  qed
  then have "take_bit k i = i" by (intro bit_word_eqI) (auto simp: bit_take_bit_iff)
  then have "unat i = take_bit k (unat i)" by (simp flip: unsigned_take_bit_eq)
  then have "unat i < 2 ^ k" using take_bit_nat_less_exp [of k "unat i"] by simp
  then show thesis using that [of 0 i] True assms(1) by (simp add: highbit_step_def)
next
  case False
  then obtain n where n: "bit (i AND m) n" by (auto simp: bit_eq_iff)
  then have "bit i n" "k \<le> n" unfolding assms(5) by (auto simp: bit_simps)
  then have "bit (drop_bit k i) (n - k)" by (simp add: bit_drop_bit_eq)
  then have "drop_bit k i \<noteq> 0" by auto
  moreover have "unat (drop_bit k i) < 2 ^ k" using assms(2)
    unfolding unat_drop_bit by (simp add: less_mult_imp_div_less power_add mult_2)
  ultimately show thesis using that [of k "drop_bit k i"] False by (simp add: highbit_step_def)
qed

lemma highbit_ok:
  assumes "i \<noteq> 0"
  shows "0 < highbit i" "highbit i \<le> 64" "2 ^ (highbit i - 1) \<le> unat i" "unat i < 2 ^ highbit i"
proof -
  let ?m = "\<lambda>k. push_bit k (mask k) :: u64"
  have m: "0xffffffff00000000 = ?m 32" "0xffff0000 = ?m 16" "0xff00 = ?m 8" "0xf0 = ?m 4" "0xc = ?m 2" "0x2 = ?m 1"
    by (simp_all add: mask_eq_exp_minus_1 push_bit_eq_mult)
  have "unat i < 2 ^ (2 * 32)" using unsigned_less [of i, where 'a = nat] by simp
  with assms obtain a i1 where 1: "highbit_step 32 (?m 32) (1, i) = (1 + a, i1)" "a \<le> 32" "i1 = drop_bit a i" "i1 \<noteq> 0" "unat i1 < 2 ^ 32"
    by (rule highbit_step_ok [of i 32 "?m 32" 1]) simp_all
  from 1(4) obtain b i2 where 2: "highbit_step 16 (?m 16) (1 + a, i1) = (1 + a + b, i2)" "b \<le> 16" "i2 = drop_bit b i1" "i2 \<noteq> 0" "unat i2 < 2 ^ 16"
    by (rule highbit_step_ok [of i1 16 "?m 16" "1 + a"]) (use 1(5) in simp_all)
  from 2(4) obtain c i3 where 3: "highbit_step 8 (?m 8) (1 + a + b, i2) = (1 + a + b + c, i3)" "c \<le> 8" "i3 = drop_bit c i2" "i3 \<noteq> 0" "unat i3 < 2 ^ 8"
    by (rule highbit_step_ok [of i2 8 "?m 8" "1 + a + b"]) (use 2(5) in simp_all)
  from 3(4) obtain d i4 where 4: "highbit_step 4 (?m 4) (1 + a + b + c, i3) = (1 + a + b + c + d, i4)" "d \<le> 4" "i4 = drop_bit d i3" "i4 \<noteq> 0" "unat i4 < 2 ^ 4"
    by (rule highbit_step_ok [of i3 4 "?m 4" "1 + a + b + c"]) (use 3(5) in simp_all)
  from 4(4) obtain e i5 where 5: "highbit_step 2 (?m 2) (1 + a + b + c + d, i4) = (1 + a + b + c + d + e, i5)" "e \<le> 2" "i5 = drop_bit e i4" "i5 \<noteq> 0" "unat i5 < 2 ^ 2"
    by (rule highbit_step_ok [of i4 2 "?m 2" "1 + a + b + c + d"]) (use 4(5) in simp_all)
  from 5(4) obtain f i6 where 6: "highbit_step 1 (?m 1) (1 + a + b + c + d + e, i5) = (1 + a + b + c + d + e + f, i6)" "f \<le> 1" "i6 = drop_bit f i5" "i6 \<noteq> 0" "unat i6 < 2 ^ 1"
    by (rule highbit_step_ok [of i5 1 "?m 1" "1 + a + b + c + d + e"]) (use 5(5) in simp_all)
  let ?D = "a + b + c + d + e + f"
  have h: "highbit i = Suc ?D" unfolding highbit_def m using assms 1(1) 2(1) 3(1) 4(1) 5(1) 6(1) by simp
  have "unat i6 \<noteq> 0" using 6(4) by (simp add: unat_eq_0)
  then have "unat i6 = 1" using 6(5) by simp
  moreover have "i6 = drop_bit ?D i" using 1(3) 2(3) 3(3) 4(3) 5(3) 6(3) by (simp add: ac_simps)
  ultimately have "unat i div 2 ^ ?D = 1" using unat_drop_bit [of ?D i] by simp
  then have "unat i = 2 ^ ?D * 1 + unat i mod 2 ^ ?D" by (metis mult_div_mod_eq)
  moreover have "unat i mod 2 ^ ?D < 2 ^ ?D" by (rule mod_less_divisor) simp
  ultimately have "2 ^ ?D \<le> unat i" "unat i < 2 ^ Suc ?D" unfolding power_Suc by linarith+
  then show "0 < highbit i" "highbit i \<le> 64" "2 ^ (highbit i - 1) \<le> unat i" "unat i < 2 ^ highbit i"
    using h 1(2) 2(2) 3(2) 4(2) 5(2) 6(2) by simp_all
qed

end
