(* ===== verification/SpaceMap.thy ===== *)
theory SpaceMap
  imports Avl Sysmacros
begin

text \<open>
  The space maps of ZFS (\<^verbatim>\<open>zfs/space_map.c\<close> and \<^verbatim>\<open>zfs/sys/space_map.h\<close>): sets of 64-bit
  offsets kept as segments in an AVL tree, their log on disk, and the reference trees that compute unions
  and intersections of maps.  A segment is the object of a node, so the assignments to its fields are
  \<open>seg_store\<close>: they show in the offset tree and in the picker's tree, which share the object.  The
  caller holds the lock of the map, so locking is not modelled; a failed \<^verbatim>\<open>VERIFY\<close> or
  \<^verbatim>\<open>ASSERT\<close> and a panic are \<open>None\<close>.  \<^verbatim>\<open>zfs_panic_recover\<close> panics unless the tunable
  \<^verbatim>\<open>zfs_recover\<close> is set, which the operations take as an argument.  The operations vectors of the
  block pickers are static objects: \<open>sm_ops\<close> names one, and the table that interprets the names is an
  argument of the operations that call through it.  The object store (\<^verbatim>\<open>dmu_read\<close>,
  \<^verbatim>\<open>dmu_write\<close>, \<^verbatim>\<open>dmu_free_range\<close>) is an argument too.
\<close>

section \<open>Data\<close>

record space_seg =
  ss_start :: u64
  ss_end :: u64

record 'o space_map =
  sm_root :: "space_seg avl_tree"
  sm_space :: u64
  sm_start :: u64
  sm_size :: u64
  sm_shift :: nat
  sm_loaded :: bool
  sm_loading :: bool
  sm_ops :: "'o option"
  sm_pp_root :: "space_seg avl_tree option"
  sm_ppd :: "u64 list option"

record space_map_obj =
  smo_object :: u64
  smo_objsize :: u64
  smo_alloc :: u64

record 'o space_map_ops =
  smop_load :: "'o space_map \<Rightarrow> 'o space_map option"
  smop_unload :: "'o space_map \<Rightarrow> 'o space_map option"
  smop_alloc :: "'o space_map \<Rightarrow> u64 \<Rightarrow> (u64 \<times> 'o space_map) option"
  smop_claim :: "'o space_map \<Rightarrow> u64 \<Rightarrow> u64 \<Rightarrow> 'o space_map option"
  smop_free :: "'o space_map \<Rightarrow> u64 \<Rightarrow> u64 \<Rightarrow> 'o space_map option"
  smop_max :: "'o space_map \<Rightarrow> u64 option"
  smop_fragmented :: "'o space_map \<Rightarrow> bool option"

definition seg :: "u64 \<Rightarrow> u64 \<Rightarrow> space_seg" where
  "seg start end' = \<lparr>ss_start = start, ss_end = end'\<rparr>"

definition space_map_seg_compare :: "space_seg \<Rightarrow> space_seg \<Rightarrow> int" where
  "space_map_seg_compare s1 s2 =
     (if ss_start s1 < ss_start s2 then (if ss_end s1 > ss_start s2 then 0 else - 1)
      else if ss_start s1 > ss_start s2 then (if ss_start s1 < ss_end s2 then 0 else 1)
      else 0)"

section \<open>Maps in memory\<close>

definition space_map_create :: "u64 \<Rightarrow> u64 \<Rightarrow> nat \<Rightarrow> 'o space_map" where
  "space_map_create start sz shift =
     \<lparr>sm_root = avl_create space_map_seg_compare, sm_space = 0, sm_start = start, sm_size = sz,
      sm_shift = shift, sm_loaded = False, sm_loading = False, sm_ops = None, sm_pp_root = None,
      sm_ppd = None\<rparr>"

definition space_map_destroy :: "'o space_map \<Rightarrow> unit option" where
  "space_map_destroy sm =
     require (\<not> sm_loaded sm \<and> \<not> sm_loading sm \<and> sm_space sm = 0) (avl_destroy (sm_root sm))"

fun set_node :: "'a \<Rightarrow> 'a \<Rightarrow> 'a avl_node \<Rightarrow> 'a avl_node" where
  "set_node old new Null = Null"
| "set_node old new (Node l x b r) =
     Node (set_node old new l) (if x = old then new else x) b (set_node old new r)"

definition avl_store :: "'a \<Rightarrow> 'a \<Rightarrow> 'a avl_tree \<Rightarrow> 'a avl_tree" where
  "avl_store old new t = t\<lparr>avl_root := set_node old new (avl_root t)\<rparr>"

definition seg_store :: "space_seg \<Rightarrow> space_seg \<Rightarrow> 'o space_map \<Rightarrow> 'o space_map" where
  "seg_store old new sm =
     sm\<lparr>sm_root := avl_store old new (sm_root sm), sm_pp_root := map_option (avl_store old new) (sm_pp_root sm)\<rparr>"

definition root_remove :: "space_seg \<Rightarrow> 'o space_map \<Rightarrow> 'o space_map option" where
  "root_remove ss sm = map_option (\<lambda>t. sm\<lparr>sm_root := t\<rparr>) (avl_remove (sm_root sm) ss)"

definition pp_remove :: "space_seg \<Rightarrow> 'o space_map \<Rightarrow> 'o space_map option" where
  "pp_remove ss sm =
     (case sm_pp_root sm of
        None \<Rightarrow> Some sm
      | Some pp \<Rightarrow> map_option (\<lambda>t. sm\<lparr>sm_pp_root := Some t\<rparr>) (avl_remove pp ss))"

definition pp_add :: "space_seg \<Rightarrow> 'o space_map \<Rightarrow> 'o space_map option" where
  "pp_add ss sm =
     (case sm_pp_root sm of
        None \<Rightarrow> Some sm
      | Some pp \<Rightarrow> map_option (\<lambda>t. sm\<lparr>sm_pp_root := Some t\<rparr>) (avl_add pp ss))"

text \<open>The four cases in which \<^verbatim>\<open>space_map_add\<close> links the new range: the segment that then holds it.\<close>

definition add_link :: "'o space_map \<Rightarrow> u64 \<Rightarrow> u64 \<Rightarrow> space_seg avl_index \<Rightarrow>
    space_seg option \<Rightarrow> space_seg option \<Rightarrow> (space_seg \<times> 'o space_map) option" where
  "add_link sm start end' where merge_before merge_after =
     (case (merge_before, merge_after) of
        (Some ss_before, Some ss_after) \<Rightarrow>
          Option.bind (root_remove ss_before sm) (\<lambda>sm.
          Option.bind (pp_remove ss_before sm) (\<lambda>sm.
          Option.bind (pp_remove ss_after sm) (\<lambda>sm.
            let ss = ss_after\<lparr>ss_start := ss_start ss_before\<rparr>
            in Some (ss, seg_store ss_after ss sm))))
      | (Some ss_before, None) \<Rightarrow>
          let ss = ss_before\<lparr>ss_end := end'\<rparr>
          in map_option (Pair ss) (pp_remove ss (seg_store ss_before ss sm))
      | (None, Some ss_after) \<Rightarrow>
          let ss = ss_after\<lparr>ss_start := start\<rparr>
          in map_option (Pair ss) (pp_remove ss (seg_store ss_after ss sm))
      | (None, None) \<Rightarrow>
          let ss = seg start end'
          in map_option (\<lambda>t. (ss, sm\<lparr>sm_root := t\<rparr>)) (avl_insert (sm_root sm) ss where))"

definition space_map_add :: "bool \<Rightarrow> 'o space_map \<Rightarrow> u64 \<Rightarrow> u64 \<Rightarrow> 'o space_map option" where
  "space_map_add zfs_recover sm start sz =
     (let end' = start + sz in
      require (sz \<noteq> 0 \<and> sm_start sm \<le> start \<and> end' \<le> sm_start sm + sm_size sm \<and>
               sm_space sm + sz \<le> sm_size sm \<and>
               P2PHASE start (push_bit (sm_shift sm) 1) = 0 \<and> P2PHASE sz (push_bit (sm_shift sm) 1) = 0)
        (case avl_find (sm_root sm) (seg start end') of
           Inl ss \<Rightarrow>
             if ss_start ss \<le> start \<and> end' \<le> ss_end ss then require zfs_recover (Some sm) else None
         | Inr where \<Rightarrow>
             Option.bind (avl_nearest (sm_root sm) where AVL_BEFORE) (\<lambda>ss_before.
             Option.bind (avl_nearest (sm_root sm) where AVL_AFTER) (\<lambda>ss_after.
               let merge_before = (case ss_before of None \<Rightarrow> None | Some s \<Rightarrow> if ss_end s = start then Some s else None);
                   merge_after = (case ss_after of None \<Rightarrow> None | Some s \<Rightarrow> if ss_start s = end' then Some s else None)
               in Option.bind (add_link sm start end' where merge_before merge_after) (\<lambda>(ss, sm).
                  map_option (\<lambda>sm. sm\<lparr>sm_space := sm_space sm + sz\<rparr>) (pp_add ss sm))))))"

text \<open>The four cases in which \<^verbatim>\<open>space_map_remove\<close> cuts the range out of the segment \<open>ss\<close>.\<close>

definition remove_link :: "'o space_map \<Rightarrow> space_seg \<Rightarrow> u64 \<Rightarrow> u64 \<Rightarrow> 'o space_map option" where
  "remove_link sm ss start end' =
     (let left_over = (ss_start ss \<noteq> start);
          right_over = (ss_end ss \<noteq> end')
      in if left_over \<and> right_over then
           let newseg = seg end' (ss_end ss);
               ss' = ss\<lparr>ss_end := start\<rparr>;
               sm = seg_store ss ss' sm
           in Option.bind (avl_insert_here (sm_root sm) newseg ss' AVL_AFTER) (\<lambda>t.
              Option.bind (pp_add newseg (sm\<lparr>sm_root := t\<rparr>)) (\<lambda>sm. pp_add ss' sm))
         else if left_over then
           let ss' = ss\<lparr>ss_end := start\<rparr> in pp_add ss' (seg_store ss ss' sm)
         else if right_over then
           let ss' = ss\<lparr>ss_start := end'\<rparr> in pp_add ss' (seg_store ss ss' sm)
         else root_remove ss sm)"

definition space_map_remove :: "bool \<Rightarrow> 'o space_map \<Rightarrow> u64 \<Rightarrow> u64 \<Rightarrow> 'o space_map option" where
  "space_map_remove zfs_recover sm start sz =
     (let end' = start + sz in
      require (sz \<noteq> 0 \<and>
               P2PHASE start (push_bit (sm_shift sm) 1) = 0 \<and> P2PHASE sz (push_bit (sm_shift sm) 1) = 0)
        (case avl_find (sm_root sm) (seg start end') of
           Inr where \<Rightarrow> require zfs_recover (Some sm)
         | Inl ss \<Rightarrow>
             require (ss_start ss \<le> start \<and> end' \<le> ss_end ss \<and> sm_space sm - sz < sm_size sm)
               (Option.bind (pp_remove ss sm) (\<lambda>sm.
                  map_option (\<lambda>sm. sm\<lparr>sm_space := sm_space sm - sz\<rparr>) (remove_link sm ss start end')))))"

definition space_map_contains :: "'o space_map \<Rightarrow> u64 \<Rightarrow> u64 \<Rightarrow> bool option" where
  "space_map_contains sm start sz =
     (let end' = start + sz in
      require (sz \<noteq> 0 \<and>
               P2PHASE start (push_bit (sm_shift sm) 1) = 0 \<and> P2PHASE sz (push_bit (sm_shift sm) 1) = 0)
        (Some (case avl_find (sm_root sm) (seg start end') of
           Inl ss \<Rightarrow> ss_start ss \<le> start \<and> end' \<le> ss_end ss
         | Inr where \<Rightarrow> False)))"

text \<open>
  A \<^verbatim>\<open>space_map_func_t\<close> takes a map, a start and a size; \<open>seg_calls\<close> is the sequence of its calls
  on the map \<open>mdest\<close> for a list of segments.
\<close>

type_synonym 'm space_map_func = "'m \<Rightarrow> u64 \<Rightarrow> u64 \<Rightarrow> 'm option"

fun seg_calls :: "'m space_map_func \<Rightarrow> space_seg list \<Rightarrow> 'm \<Rightarrow> 'm option" where
  "seg_calls func [] mdest = Some mdest"
| "seg_calls func (ss # segs) mdest =
     Option.bind (func mdest (ss_start ss) (ss_end ss - ss_start ss)) (seg_calls func segs)"

definition space_map_vacate :: "'o space_map \<Rightarrow> 'm space_map_func option \<Rightarrow> 'm \<Rightarrow> ('o space_map \<times> 'm) option" where
  "space_map_vacate sm func mdest =
     Option.bind (avl_drain (sm_root sm) Cookie_null) (\<lambda>(segs, t).
     Option.bind (case func of None \<Rightarrow> Some mdest | Some f \<Rightarrow> seg_calls f segs mdest) (\<lambda>mdest'.
       Some (sm\<lparr>sm_root := t, sm_space := 0\<rparr>, mdest')))"

definition space_map_walk :: "'o space_map \<Rightarrow> 'm space_map_func \<Rightarrow> 'm \<Rightarrow> 'm option" where
  "space_map_walk sm func mdest =
     Option.bind (avl_iterate (sm_root sm) (avl_first (sm_root sm))) (\<lambda>segs. seg_calls func segs mdest)"

section \<open>Maps on disk\<close>

definition BF64_DECODE :: "u64 \<Rightarrow> nat \<Rightarrow> nat \<Rightarrow> u64" where
  "BF64_DECODE x low len = P2PHASE (drop_bit low x) (push_bit len 1)"

definition BF64_ENCODE :: "u64 \<Rightarrow> nat \<Rightarrow> nat \<Rightarrow> u64" where
  "BF64_ENCODE x low len = push_bit low (P2PHASE x (push_bit len 1))"

definition SM_RUN_DECODE :: "u64 \<Rightarrow> u64" where "SM_RUN_DECODE x = BF64_DECODE x 0 15 + 1"
definition SM_RUN_ENCODE :: "u64 \<Rightarrow> u64" where "SM_RUN_ENCODE x = BF64_ENCODE (x - 1) 0 15"
definition SM_TYPE_DECODE :: "u64 \<Rightarrow> u64" where "SM_TYPE_DECODE x = BF64_DECODE x 15 1"
definition SM_TYPE_ENCODE :: "u64 \<Rightarrow> u64" where "SM_TYPE_ENCODE x = BF64_ENCODE x 15 1"
definition SM_OFFSET_DECODE :: "u64 \<Rightarrow> u64" where "SM_OFFSET_DECODE x = BF64_DECODE x 16 47"
definition SM_OFFSET_ENCODE :: "u64 \<Rightarrow> u64" where "SM_OFFSET_ENCODE x = BF64_ENCODE x 16 47"
definition SM_DEBUG_DECODE :: "u64 \<Rightarrow> u64" where "SM_DEBUG_DECODE x = BF64_DECODE x 63 1"
definition SM_DEBUG_ENCODE :: "u64 \<Rightarrow> u64" where "SM_DEBUG_ENCODE x = BF64_ENCODE x 63 1"
definition SM_DEBUG_ACTION_ENCODE :: "u64 \<Rightarrow> u64" where "SM_DEBUG_ACTION_ENCODE x = BF64_ENCODE x 60 3"
definition SM_DEBUG_SYNCPASS_ENCODE :: "u64 \<Rightarrow> u64" where "SM_DEBUG_SYNCPASS_ENCODE x = BF64_ENCODE x 50 10"
definition SM_DEBUG_TXG_ENCODE :: "u64 \<Rightarrow> u64" where "SM_DEBUG_TXG_ENCODE x = BF64_ENCODE x 0 50"
definition SM_RUN_MAX :: u64 where "SM_RUN_MAX = SM_RUN_DECODE (- 1)"
definition SM_ALLOC :: u64 where "SM_ALLOC = 0"
definition SM_FREE :: u64 where "SM_FREE = 1"
definition SPACE_MAP_BLOCKSHIFT :: nat where "SPACE_MAP_BLOCKSHIFT = 12"

text \<open>The entries of one block, and the loop of \<^verbatim>\<open>space_map_load\<close> over the blocks of the object.\<close>

fun load_entries :: "bool \<Rightarrow> u64 \<Rightarrow> u64 \<Rightarrow> u64 list \<Rightarrow> 'o space_map \<Rightarrow> 'o space_map option" where
  "load_entries zfs_recover maptype mapstart [] sm = Some sm"
| "load_entries zfs_recover maptype mapstart (e # es) sm =
     (if SM_DEBUG_DECODE e \<noteq> 0 then load_entries zfs_recover maptype mapstart es sm
      else Option.bind
        ((if SM_TYPE_DECODE e = maptype then space_map_add zfs_recover else space_map_remove zfs_recover)
           sm (push_bit (sm_shift sm) (SM_OFFSET_DECODE e) + mapstart) (push_bit (sm_shift sm) (SM_RUN_DECODE e)))
        (load_entries zfs_recover maptype mapstart es))"

type_synonym dmu_read = "u64 \<Rightarrow> u64 \<Rightarrow> u64 \<Rightarrow> int \<times> u64 list"

partial_function (option) load_loop ::
    "dmu_read \<Rightarrow> bool \<Rightarrow> u64 \<Rightarrow> u64 \<Rightarrow> u64 \<Rightarrow> u64 \<Rightarrow> u64 \<Rightarrow> 'o space_map \<Rightarrow> (int \<times> 'o space_map) option" where
  "load_loop dmu_read zfs_recover maptype mapstart object end' offset sm =
     (if offset < end' then
        let bufsize = push_bit SPACE_MAP_BLOCKSHIFT 1;
            sz = min (end' - offset) bufsize
        in if P2PHASE sz 8 = 0 \<and> sz \<noteq> 0 then
             case dmu_read object offset sz of
               (error, entries) \<Rightarrow>
                 if error \<noteq> 0 then Some (error, sm)
                 else Option.bind (load_entries zfs_recover maptype mapstart entries sm) (\<lambda>sm.
                   load_loop dmu_read zfs_recover maptype mapstart object end' (offset + bufsize) sm)
           else None
      else Some (0, sm))"

definition space_map_load :: "('o \<Rightarrow> 'o space_map_ops) \<Rightarrow> dmu_read \<Rightarrow> bool \<Rightarrow>
    'o space_map \<Rightarrow> 'o option \<Rightarrow> u64 \<Rightarrow> space_map_obj \<Rightarrow> (int \<times> 'o space_map) option" where
  "space_map_load optable dmu_read zfs_recover sm ops maptype smo =
     require (\<not> sm_loaded sm \<and> \<not> sm_loading sm \<and> sm_ops sm = None \<and> sm_space sm = 0)
       (let mapstart = sm_start sm;
            space = (if maptype = SM_FREE then sm_size sm - smo_alloc smo else smo_alloc smo);
            sm = sm\<lparr>sm_loading := True\<rparr>
        in Option.bind (if maptype = SM_FREE then space_map_add zfs_recover sm (sm_start sm) (sm_size sm) else Some sm) (\<lambda>sm.
           Option.bind (load_loop dmu_read zfs_recover maptype mapstart (smo_object smo) (smo_objsize smo) 0 sm) (\<lambda>(error, sm).
           Option.bind
             (if error = 0 then
                require (sm_space sm = space)
                  (let sm = sm\<lparr>sm_loaded := True, sm_ops := ops\<rparr>
                   in case ops of None \<Rightarrow> Some sm | Some v \<Rightarrow> smop_load (optable v) sm)
              else map_option fst (space_map_vacate sm None ())) (\<lambda>sm.
           Some (error, sm\<lparr>sm_loading := False\<rparr>)))))"

definition space_map_unload :: "('o \<Rightarrow> 'o space_map_ops) \<Rightarrow> 'o space_map \<Rightarrow> 'o space_map option" where
  "space_map_unload optable sm =
     Option.bind
       (case sm_ops sm of
          Some v \<Rightarrow> if sm_loaded sm then smop_unload (optable v) sm else Some sm
        | None \<Rightarrow> Some sm)
       (\<lambda>sm. map_option fst (space_map_vacate (sm\<lparr>sm_loaded := False, sm_ops := None\<rparr>) None ()))"

definition space_map_maxsize :: "('o \<Rightarrow> 'o space_map_ops) \<Rightarrow> 'o space_map \<Rightarrow> u64 option" where
  "space_map_maxsize optable sm = Option.bind (sm_ops sm) (\<lambda>v. smop_max (optable v) sm)"

definition space_map_alloc :: "('o \<Rightarrow> 'o space_map_ops) \<Rightarrow> bool \<Rightarrow> 'o space_map \<Rightarrow> u64 \<Rightarrow> (u64 \<times> 'o space_map) option" where
  "space_map_alloc optable zfs_recover sm sz =
     Option.bind (sm_ops sm) (\<lambda>v.
     Option.bind (smop_alloc (optable v) sm sz) (\<lambda>(start, sm).
       if start \<noteq> - 1 then map_option (Pair start) (space_map_remove zfs_recover sm start sz)
       else Some (start, sm)))"

definition space_map_claim :: "('o \<Rightarrow> 'o space_map_ops) \<Rightarrow> bool \<Rightarrow> 'o space_map \<Rightarrow> u64 \<Rightarrow> u64 \<Rightarrow> 'o space_map option" where
  "space_map_claim optable zfs_recover sm start sz =
     Option.bind (sm_ops sm) (\<lambda>v.
     Option.bind (smop_claim (optable v) sm start sz) (\<lambda>sm. space_map_remove zfs_recover sm start sz))"

definition space_map_free :: "('o \<Rightarrow> 'o space_map_ops) \<Rightarrow> bool \<Rightarrow> 'o space_map \<Rightarrow> u64 \<Rightarrow> u64 \<Rightarrow> 'o space_map option" where
  "space_map_free optable zfs_recover sm start sz =
     Option.bind (space_map_add zfs_recover sm start sz) (\<lambda>sm.
     Option.bind (sm_ops sm) (\<lambda>v. smop_free (optable v) sm start sz))"

text \<open>
  Writing the log.  \<open>sync_state\<close> is the buffer of entries that are not yet written, the object and the
  store; \<open>dmu_write\<close> takes the object number, the offset and the entries.
\<close>

record 'w sync_state =
  sy_entries :: "u64 list"
  sy_smo :: space_map_obj
  sy_store :: 'w

type_synonym 'w dmu_write = "u64 \<Rightarrow> u64 \<Rightarrow> u64 list \<Rightarrow> 'w \<Rightarrow> 'w"

definition sync_flush :: "'w dmu_write \<Rightarrow> 'w sync_state \<Rightarrow> 'w sync_state" where
  "sync_flush dmu_write st =
     (let smo = sy_smo st in
      \<lparr>sy_entries = [],
       sy_smo = smo\<lparr>smo_objsize := smo_objsize smo + 8 * of_nat (length (sy_entries st))\<rparr>,
       sy_store = dmu_write (smo_object smo) (smo_objsize smo) (sy_entries st) (sy_store st)\<rparr>)"

definition sync_put :: "'w dmu_write \<Rightarrow> u64 \<Rightarrow> u64 \<Rightarrow> 'w sync_state \<Rightarrow> 'w sync_state" where
  "sync_put dmu_write bufsize e st =
     (let st = (if length (sy_entries st) = unat (bufsize div 8) then sync_flush dmu_write st else st)
      in st\<lparr>sy_entries := sy_entries st @ [e]\<rparr>)"

lemma SM_RUN_MAX_eq: "SM_RUN_MAX = 32768"
  by (simp add: SM_RUN_MAX_def SM_RUN_DECODE_def BF64_DECODE_def P2PHASE_def push_bit_eq_mult)

lemma run_decreases: "sz \<noteq> 0 \<Longrightarrow> unat (sz - min sz SM_RUN_MAX) < unat sz"
proof -
  assume "sz \<noteq> 0"
  have "min sz SM_RUN_MAX \<noteq> 0" using \<open>sz \<noteq> 0\<close> by (simp add: min_def SM_RUN_MAX_eq)
  then have "0 < unat (min sz SM_RUN_MAX)" by (simp add: unat_gt_0)
  moreover have "unat (min sz SM_RUN_MAX) \<le> unat sz" by (simp add: word_le_nat_alt [symmetric])
  ultimately show ?thesis by (simp add: unat_sub)
qed

function sync_runs :: "'w dmu_write \<Rightarrow> u64 \<Rightarrow> u64 \<Rightarrow> u64 \<Rightarrow> u64 \<Rightarrow> 'w sync_state \<Rightarrow> 'w sync_state" where
  "sync_runs dmu_write bufsize maptype start sz st =
     (if sz \<noteq> 0 then
        let run_len = min sz SM_RUN_MAX
        in sync_runs dmu_write bufsize maptype (start + run_len) (sz - run_len)
             (sync_put dmu_write bufsize
                (SM_OFFSET_ENCODE start OR SM_TYPE_ENCODE maptype OR SM_RUN_ENCODE run_len) st)
      else st)"
  by auto

termination
  by (relation "measure (\<lambda>(w, b, m, s, sz, st). unat sz)") (auto simp: run_decreases)

declare sync_runs.simps [simp del]

fun sync_segs :: "'w dmu_write \<Rightarrow> u64 \<Rightarrow> u64 \<Rightarrow> u64 \<Rightarrow> nat \<Rightarrow> space_seg list \<Rightarrow> 'w sync_state \<Rightarrow> 'w sync_state" where
  "sync_segs dmu_write bufsize maptype mapstart shift [] st = st"
| "sync_segs dmu_write bufsize maptype mapstart shift (ss # segs) st =
     sync_segs dmu_write bufsize maptype mapstart shift segs
       (sync_runs dmu_write bufsize maptype (drop_bit shift (ss_start ss - mapstart))
          (drop_bit shift (ss_end ss - ss_start ss)) st)"

definition space_map_sync :: "'w dmu_write \<Rightarrow> u64 \<Rightarrow> u64 \<Rightarrow>
    'o space_map \<Rightarrow> u64 \<Rightarrow> space_map_obj \<Rightarrow> 'w \<Rightarrow> ('o space_map \<times> space_map_obj \<times> 'w) option" where
  "space_map_sync dmu_write sync_pass txg sm maptype smo os =
     (if sm_space sm = 0 then Some (sm, smo, os)
      else
        let smo = smo\<lparr>smo_alloc := (if maptype = SM_ALLOC then smo_alloc smo + sm_space sm
                                    else smo_alloc smo - sm_space sm)\<rparr>;
            bufsize = min ((8 + of_nat (avl_numnodes (sm_root sm))) * 8) (push_bit SPACE_MAP_BLOCKSHIFT 1);
            debug = SM_DEBUG_ENCODE 1 OR SM_DEBUG_ACTION_ENCODE maptype OR
                    SM_DEBUG_SYNCPASS_ENCODE sync_pass OR SM_DEBUG_TXG_ENCODE txg
        in Option.bind (avl_drain (sm_root sm) Cookie_null) (\<lambda>(segs, t).
             let st = sync_segs dmu_write bufsize maptype (sm_start sm) (sm_shift sm) segs
                        \<lparr>sy_entries = [debug], sy_smo = smo, sy_store = os\<rparr>;
                 st = (if sy_entries st \<noteq> [] then sync_flush dmu_write st else st);
                 delta = sum_list (map (\<lambda>ss. ss_end ss - ss_start ss) segs)
             in require (sm_space sm - delta = 0)
                  (Some (sm\<lparr>sm_root := t, sm_space := sm_space sm - delta\<rparr>, sy_smo st, sy_store st))))"

definition space_map_truncate :: "(u64 \<Rightarrow> 'w \<Rightarrow> int \<times> 'w) \<Rightarrow> space_map_obj \<Rightarrow> 'w \<Rightarrow> (space_map_obj \<times> 'w) option" where
  "space_map_truncate dmu_free_range smo os =
     (case dmu_free_range (smo_object smo) os of
        (error, os') \<Rightarrow> require (error = 0) (Some (smo\<lparr>smo_objsize := 0, smo_alloc := 0\<rparr>, os')))"

section \<open>Reference trees\<close>

text \<open>
  Two references may have the same offset; the comparison then falls back on their addresses, so the
  address is part of the object.  \<open>kmem_alloc\<close> yields the address of a new reference.
\<close>

record space_ref =
  sr_addr :: nat
  sr_offset :: u64
  sr_refcnt :: u64

definition space_map_ref_compare :: "space_ref \<Rightarrow> space_ref \<Rightarrow> int" where
  "space_map_ref_compare sr1 sr2 =
     (if sr_offset sr1 < sr_offset sr2 then - 1
      else if sr_offset sr1 > sr_offset sr2 then 1
      else if sr_addr sr1 < sr_addr sr2 then - 1
      else if sr_addr sr1 > sr_addr sr2 then 1
      else 0)"

definition space_map_ref_create :: "space_ref avl_tree" where
  "space_map_ref_create = avl_create space_map_ref_compare"

definition space_map_ref_destroy :: "space_ref avl_tree \<Rightarrow> unit option" where
  "space_map_ref_destroy t = Option.bind (avl_drain t Cookie_null) (\<lambda>(refs, t'). avl_destroy t')"

type_synonym kmem_alloc = "space_ref avl_tree \<Rightarrow> nat"

definition space_map_ref_add_node :: "kmem_alloc \<Rightarrow> space_ref avl_tree \<Rightarrow> u64 \<Rightarrow> u64 \<Rightarrow> space_ref avl_tree option" where
  "space_map_ref_add_node kmem_alloc t offset refcnt =
     avl_add t \<lparr>sr_addr = kmem_alloc t, sr_offset = offset, sr_refcnt = refcnt\<rparr>"

definition space_map_ref_add_seg :: "kmem_alloc \<Rightarrow> space_ref avl_tree \<Rightarrow> u64 \<Rightarrow> u64 \<Rightarrow> u64 \<Rightarrow> space_ref avl_tree option" where
  "space_map_ref_add_seg kmem_alloc t start end' refcnt =
     Option.bind (space_map_ref_add_node kmem_alloc t start refcnt) (\<lambda>t.
       space_map_ref_add_node kmem_alloc t end' (- refcnt))"

fun ref_add_segs :: "kmem_alloc \<Rightarrow> u64 \<Rightarrow> space_seg list \<Rightarrow> space_ref avl_tree \<Rightarrow> space_ref avl_tree option" where
  "ref_add_segs kmem_alloc refcnt [] t = Some t"
| "ref_add_segs kmem_alloc refcnt (ss # segs) t =
     Option.bind (space_map_ref_add_seg kmem_alloc t (ss_start ss) (ss_end ss) refcnt)
       (ref_add_segs kmem_alloc refcnt segs)"

definition space_map_ref_add_map :: "kmem_alloc \<Rightarrow> space_ref avl_tree \<Rightarrow> 'o space_map \<Rightarrow> u64 \<Rightarrow> space_ref avl_tree option" where
  "space_map_ref_add_map kmem_alloc t sm refcnt =
     Option.bind (avl_iterate (sm_root sm) (avl_first (sm_root sm))) (\<lambda>segs.
       ref_add_segs kmem_alloc refcnt segs t)"

fun generate_loop :: "bool \<Rightarrow> u64 \<Rightarrow> space_ref list \<Rightarrow> u64 \<Rightarrow> u64 \<Rightarrow> 'o space_map \<Rightarrow> 'o space_map option" where
  "generate_loop zfs_recover minref [] start refcnt sm = require (refcnt = 0 \<and> start = - 1) (Some sm)"
| "generate_loop zfs_recover minref (sr # srs) start refcnt sm =
     (let refcnt = refcnt + sr_refcnt sr in
      if sint refcnt \<ge> sint minref then
        generate_loop zfs_recover minref srs (if start = - 1 then sr_offset sr else start) refcnt sm
      else if start \<noteq> - 1 then
        let end' = sr_offset sr in
        require (start \<le> end')
          (Option.bind (if end' > start then space_map_add zfs_recover sm start (end' - start) else Some sm)
             (generate_loop zfs_recover minref srs (- 1) refcnt))
      else generate_loop zfs_recover minref srs start refcnt sm)"

definition space_map_ref_generate_map :: "bool \<Rightarrow> space_ref avl_tree \<Rightarrow> 'o space_map \<Rightarrow> u64 \<Rightarrow> 'o space_map option" where
  "space_map_ref_generate_map zfs_recover t sm minref =
     Option.bind (space_map_vacate sm None ()) (\<lambda>(sm, _).
     Option.bind (avl_iterate t (avl_first t)) (\<lambda>srs.
       generate_loop zfs_recover minref srs (- 1) 0 sm))"

end
