(* ===== verification/AvlProps.thy ===== *)
theory AvlProps
  imports Avl "HOL-Library.Multiset"
begin

text \<open>
  Correctness of the AVL trees: the shape invariant \<open>avl_ok\<close> (every balance field is the difference
  of the heights below it and at most one), the contents \<open>inorder\<close>, and for every operation what it
  does to both.  The locale \<open>avl_order\<close> is the contract a comparison function has to meet; inside it
  the search lemmas are proved once for all clients.
\<close>

section \<open>Contents and shape\<close>

fun inorder :: "'a avl_node \<Rightarrow> 'a list" where
  "inorder Null = []"
| "inorder (Node l x b r) = inorder l @ x # inorder r"

fun avl_height :: "'a avl_node \<Rightarrow> nat" where
  "avl_height Null = 0"
| "avl_height (Node l x b r) = Suc (max (avl_height l) (avl_height r))"

fun avl_ok :: "'a avl_node \<Rightarrow> bool" where
  "avl_ok Null \<longleftrightarrow> True"
| "avl_ok (Node l x b r) \<longleftrightarrow>
     avl_ok l \<and> avl_ok r \<and> b = int (avl_height r) - int (avl_height l) \<and> \<bar>b\<bar> \<le> 1"

text \<open>What stands before and after the hole of a list of frames, and when a subtree of height \<open>h\<close> fits it.\<close>

fun path_before :: "'a frame list \<Rightarrow> 'a list" where
  "path_before [] = []"
| "path_before (Frame c x b s # p) = path_before p @ (if c then inorder s @ [x] else [])"

fun path_after :: "'a frame list \<Rightarrow> 'a list" where
  "path_after [] = []"
| "path_after (Frame c x b s # p) = (if c then [] else x # inorder s) @ path_after p"

fun path_ok :: "'a frame list \<Rightarrow> nat \<Rightarrow> bool" where
  "path_ok [] h \<longleftrightarrow> True"
| "path_ok (Frame c x b s # p) h \<longleftrightarrow>
     avl_ok s \<and> b = (if c then int h - int (avl_height s) else int (avl_height s) - int h) \<and> \<bar>b\<bar> \<le> 1 \<and>
     path_ok p (Suc (max h (avl_height s)))"

definition avl_wf :: "'a avl_tree \<Rightarrow> bool" where
  "avl_wf t \<longleftrightarrow> avl_ok (avl_root t) \<and> distinct (inorder (avl_root t)) \<and>
     avl_numnodes t = length (inorder (avl_root t))"

abbreviation avl_list :: "'a avl_tree \<Rightarrow> 'a list" where
  "avl_list t \<equiv> inorder (avl_root t)"

lemma is_null_iff [simp]: "is_null t \<longleftrightarrow> t = Null"
  by (cases t) auto

lemma inorder_Nil_iff [simp]: "inorder t = [] \<longleftrightarrow> t = Null" "[] = inorder t \<longleftrightarrow> t = Null"
  by (cases t; simp)+

lemma height_0_iff [simp]: "avl_height t = 0 \<longleftrightarrow> t = Null"
  by (cases t) auto

lemma inorder_node_with [simp]:
  "inorder (node_with c x b t s) = (if c then inorder s @ x # inorder t else inorder t @ x # inorder s)"
  by (simp add: node_with_def)

lemma height_node_with [simp]: "avl_height (node_with c x b t s) = Suc (max (avl_height t) (avl_height s))"
  by (simp add: node_with_def max.commute)

lemma avl_ok_node_with [simp]:
  "avl_ok (node_with c x b t s) \<longleftrightarrow> avl_ok t \<and> avl_ok s \<and>
     b = (if c then int (avl_height t) - int (avl_height s) else int (avl_height s) - int (avl_height t)) \<and> \<bar>b\<bar> \<le> 1"
  by (auto simp: node_with_def)

lemma inorder_plug [simp]: "inorder (plug t p) = path_before p @ inorder t @ path_after p"
  by (induction t p rule: plug.induct) auto

lemma avl_ok_plug [simp]: "avl_ok (plug t p) \<longleftrightarrow> avl_ok t \<and> path_ok p (avl_height t)"
  by (induction t p rule: plug.induct) auto

lemma plug_append [simp]: "plug t (p @ q) = plug (plug t p) q"
  by (induction t p rule: plug.induct) auto

lemma path_before_append [simp]: "path_before (p @ q) = path_before q @ path_before p"
  by (induction p rule: path_before.induct) auto

lemma path_after_append [simp]: "path_after (p @ q) = path_after p @ path_after q"
  by (induction p rule: path_after.induct) auto

lemma avl_child_node_with [simp]: "avl_child (node_with c x b t s) c' = (if c = c' then t else s)"
  by (auto simp: node_with_def)

lemma node_data_node_with [simp]: "node_data (node_with c x b t s) = Some x"
  by (simp add: node_with_def)

lemma node_withE:
  obtains l r where "node_with c x b t s = Node l x b r"
  by (cases c) (auto simp: node_with_def)

section \<open>Following pointers\<close>

lemma node_at_None: "node_at d t p = None \<longleftrightarrow> d \<notin> set (inorder t)"
proof (induction t arbitrary: p)
  case (Node l x b r)
  show ?case using Node.IH(1) [of "Frame False x b r # p"] Node.IH(2)
    by (cases "node_at d l (Frame False x b r # p)") auto
qed simp

lemma node_at_SomeD:
  "node_at d t p = Some (n, q) \<Longrightarrow> (\<exists>q'. q = q' @ p \<and> plug n q' = t) \<and> node_data n = Some d"
proof (induction t arbitrary: p)
  case (Node l x b r)
  show ?case
  proof (cases "x = d")
    case False
    then consider "node_at d l (Frame False x b r # p) = Some (n, q)" | "node_at d r (Frame True x b l # p) = Some (n, q)"
      using Node.prems by (auto split: option.splits)
    then show ?thesis
    proof cases
      case 1
      then show ?thesis using Node.IH(1) [OF 1] by (auto simp: node_with_def)
    next
      case 2
      then show ?thesis using Node.IH(2) [OF 2] by (auto simp: node_with_def)
    qed
  qed (use Node.prems in \<open>auto intro: exI [of _ "[]"]\<close>)
qed simp

lemma node_at_plug:
  assumes "node_at d n (p @ q) = Some r" "distinct (inorder (plug n p))"
  shows "node_at d (plug n p) q = Some r"
  using assms
proof (induction n p rule: plug.induct)
  case (2 t c x b s p)
  have d: "d \<in> set (inorder t)" using 2(2) node_at_None [of d t] by (metis option.distinct(1))
  moreover have "distinct (inorder (node_with c x b t s))" using 2(3) by auto
  ultimately have "x \<noteq> d" "node_at d s p' = None" for p' by (auto simp: node_at_None split: if_splits)
  then have "node_at d (node_with c x b t s) (p @ q) = Some r"
    using 2(2) by (cases c) (simp_all add: node_with_def)
  then show ?case using 2 by simp
qed simp

lemma node_at_place:
  "distinct (inorder (plug (Node l d b r) p)) \<Longrightarrow> node_at d (plug (Node l d b r) p) [] = Some (Node l d b r, p)"
  by (rule node_at_plug) auto

lemma node_atE:
  assumes "d \<in> set (inorder t)"
  obtains l b r p where "node_at d t [] = Some (Node l d b r, p)" "t = plug (Node l d b r) p"
proof -
  obtain n p where n: "node_at d t [] = Some (n, p)"
    using assms node_at_None [of d t "[]"] by (cases "node_at d t []") auto
  then have "plug n p = t" "node_data n = Some d" using node_at_SomeD [OF n] by auto
  with n that show thesis by (cases n) auto
qed

section \<open>Balance\<close>

lemma abs_le_1: "\<bar>b\<bar> \<le> 1 \<longleftrightarrow> b = - 1 \<or> b = 0 \<or> b = (1 :: int)"
  by linarith

lemma avl_ok_cases:
  "avl_ok (Node l x b r) \<longleftrightarrow> avl_ok l \<and> avl_ok r \<and>
     (b = 0 \<and> avl_height l = avl_height r \<or> b = - 1 \<and> avl_height l = Suc (avl_height r) \<or>
      b = 1 \<and> avl_height r = Suc (avl_height l))"
  by (simp add: abs_le_iff) linarith

lemma avl_rotation_simps:
  "cb \<noteq> 1 \<Longrightarrow> avl_rotation (Node (Node l y cb r) x b s) (- 2) =
     Some (Node l y (cb + 1) (Node r x (- (cb + 1)) s), cb = - 1)"
  "cb \<noteq> - 1 \<Longrightarrow> avl_rotation (Node s x b (Node l y cb r)) 2 =
     Some (Node (Node s x (1 - cb) l) y (cb - 1) r, cb = 1)"
  "avl_rotation (Node (Node l y 1 (Node gl z gb gr)) x b s) (- 2) =
     Some (Node (Node l y (if gb = 1 then - 1 else 0) gl) z 0 (Node gr x (if gb = - 1 then 1 else 0) s), True)"
  "avl_rotation (Node s x b (Node (Node gl z gb gr) y (- 1) r)) 2 =
     Some (Node (Node s x (if gb = 1 then - 1 else 0) gl) z 0 (Node gr y (if gb = - 1 then 1 else 0) r), True)"
  by (auto simp: avl_rotation_def Let_def node_with_def)

lemma avl_rotation_ok:
  assumes "avl_ok t" "avl_ok s" "avl_height t = avl_height s + 2"
  shows "\<exists>n shorter. avl_rotation (node_with c x b t s) (if c then 2 else - 2) = Some (n, shorter) \<and> avl_ok n \<and>
    inorder n = inorder (node_with c x b t s) \<and> avl_height n = avl_height t + (if shorter then 0 else 1) \<and>
    (shorter \<longleftrightarrow> (\<exists>l y cb r. t = Node l y cb r \<and> cb \<noteq> 0))"
proof -
  obtain l y cb r where t: "t = Node l y cb r" using assms(3) by (cases t) auto
  note ok = assms(1) [unfolded t avl_ok_cases] assms(2) assms(3) [unfolded t avl_height.simps]
  show ?thesis
  proof (cases "cb = (if c then - 1 else 1)")
    case False
    then consider "\<not> c" "cb = 0" | "\<not> c" "cb = - 1" | "c" "cb = 0" | "c" "cb = 1"
      using ok(1) by argo
    then show ?thesis
      by cases (use ok in \<open>simp_all add: t node_with_def avl_rotation_simps ex_bool_eq\<close>)
  next
    case True
    then obtain gl z gb gr where g: "(if c then l else r) = Node gl z gb gr"
      using ok by (cases "if c then l else r") (auto split: if_splits)
    then have "avl_ok (Node gl z gb gr)" using ok by (metis (full_types))
    note gok = this [unfolded avl_ok_cases]
    have b: "(if c then avl_height r else avl_height l) = avl_height s"
      "Suc (max (avl_height gl) (avl_height gr)) = Suc (avl_height s)"
      using ok True g by (auto split: if_splits)
    consider "\<not> c" "gb = 0" | "\<not> c" "gb = - 1" | "\<not> c" "gb = 1" | "c" "gb = 0" | "c" "gb = - 1" | "c" "gb = 1"
      using gok by argo
    then show ?thesis
      by cases (use ok(1,2) g True gok b in \<open>simp_all add: t node_with_def avl_rotation_simps ex_bool_eq\<close>)
  qed
qed

lemma insert_up_ok:
  assumes "avl_ok t" "path_ok p h" "avl_height t = Suc h" "h = 0 \<or> (\<exists>l x b r. t = Node l x b r \<and> b \<noteq> 0)"
  shows "\<exists>t'. insert_up t p = Some t' \<and> avl_ok t' \<and> inorder t' = path_before p @ inorder t @ path_after p"
  using assms
proof (induction t p arbitrary: h rule: insert_up.induct)
  case (2 t c x b s p)
  have ok: "avl_ok s" "\<bar>b\<bar> \<le> 1" "b = (if c then int h - int (avl_height s) else int (avl_height s) - int h)"
    "path_ok p (Suc (max h (avl_height s)))" using 2(3) unfolding path_ok.simps by blast+
  consider "b + avl_child2balance c = 0" | "b = 0" | "b = avl_child2balance c"
    using ok(2) by (cases c) (auto simp: abs_le_1 avl_child2balance_def)
  then show ?case
  proof cases
    case 1
    then have "avl_height s = Suc h" using ok(3) by (auto simp: avl_child2balance_def split: if_splits)
    then show ?thesis using 1 2 ok by (simp add: avl_child2balance_def max_absorb2)
  next
    case b: 2
    then have h: "avl_height s = h" using ok(3) by (auto split: if_splits)
    let ?n = "node_with c x (b + avl_child2balance c) t s"
    have n: "avl_ok ?n" "avl_height ?n = Suc (Suc h)" using 2(2,4) h b ok(1) by (simp_all add: avl_child2balance_def)
    have n0: "\<exists>l y nb r. ?n = Node l y nb r \<and> nb \<noteq> 0" using b by (auto simp: node_with_def avl_child2balance_def)
    have pn: "path_ok p (Suc h)" using ok(4) h by simp
    have "\<exists>t'. insert_up ?n p = Some t' \<and> avl_ok t' \<and> inorder t' = path_before p @ inorder ?n @ path_after p"
      by (rule 2(1) [OF refl _ _ n(1) pn n(2) disjI2 [OF n0]]) (simp_all add: b avl_child2balance_def)
    then show ?thesis using b by (auto simp: avl_child2balance_def)
  next
    case 3
    then have h: "h = Suc (avl_height s)" "b + avl_child2balance c = (if c then 2 else - 2)" "b \<noteq> 0"
      using ok(3) by (auto simp: avl_child2balance_def split: if_splits)
    then obtain n where "avl_rotation (node_with c x b t s) (b + avl_child2balance c) = Some (n, True)" "avl_ok n"
      "inorder n = inorder (node_with c x b t s)" "avl_height n = Suc h"
      using avl_rotation_ok [OF 2(2) ok(1), of c x b] 2(4,5) by (auto split: if_splits)
    then show ?thesis using h ok(4) by (auto simp: max_absorb1 split: if_splits)
  qed
qed simp

lemma remove_up_ok:
  assumes "avl_ok t" "path_ok p h" "h = Suc (avl_height t)"
  shows "\<exists>t'. remove_up t p = Some t' \<and> avl_ok t' \<and> inorder t' = path_before p @ inorder t @ path_after p"
  using assms
proof (induction t p arbitrary: h rule: remove_up.induct)
  case (2 t c x b s p)
  have ok: "avl_ok s" "\<bar>b\<bar> \<le> 1" "b = (if c then int h - int (avl_height s) else int (avl_height s) - int h)"
    "path_ok p (Suc (max h (avl_height s)))" using 2(4) unfolding path_ok.simps by blast+
  consider "b = 0" | "b = avl_child2balance c" | "b = - avl_child2balance c" "b \<noteq> 0"
    using ok(2) by (cases c) (auto simp: abs_le_1 avl_child2balance_def)
  then show ?case
  proof cases
    case 1
    then have "avl_height s = h" using ok(3) by (auto split: if_splits)
    then show ?thesis using 1 2 ok by (auto simp: avl_child2balance_def max_absorb2)
  next
    case b: 2
    then have h: "avl_height s = avl_height t" "b \<noteq> 0"
      using ok(3) 2(5) by (auto simp: avl_child2balance_def split: if_splits)
    let ?n = "node_with c x 0 t s"
    have "\<exists>t'. remove_up ?n p = Some t' \<and> avl_ok t' \<and> inorder t' = path_before p @ inorder ?n @ path_after p"
      using 2(1) [of "b - avl_child2balance c" "Suc h"] b h ok 2(3,5) by (simp add: max_absorb1)
    then show ?thesis using b h by auto
  next
    case b: 3
    then have h: "avl_height s = avl_height t + 2" "b - avl_child2balance c = (if \<not> c then 2 else - 2)"
      using ok(3) 2(5) by (auto simp: avl_child2balance_def split: if_splits)
    have sw: "node_with c x b t s = node_with (\<not> c) x b s t" by (simp add: node_with_def)
    obtain n shorter where n: "avl_rotation (node_with c x b t s) (b - avl_child2balance c) = Some (n, shorter)" "avl_ok n"
      "inorder n = inorder (node_with c x b t s)" "avl_height n = avl_height s + (if shorter then 0 else 1)"
      unfolding sw h(2) using avl_rotation_ok [OF ok(1) 2(3) h(1), of "\<not> c" x b] by blast
    have nz: "b - avl_child2balance c \<noteq> 0" using h(2) by auto
    have p: "path_ok p (Suc (Suc h))" using ok(4) h(1) 2(5) by (simp add: max_absorb2)
    show ?thesis
    proof (cases shorter)
      case True
      have "\<exists>t'. remove_up n p = Some t' \<and> avl_ok t' \<and> inorder t' = path_before p @ inorder n @ path_after p"
        using 2(2) [of "b - avl_child2balance c" "(n, shorter)" n shorter "Suc (Suc h)"] b(2) nz n True p h 2(5) by simp
      then show ?thesis using b(2) nz n True by auto
    next
      case False
      then show ?thesis using b(2) nz n p h 2(5) by auto
    qed
  qed
qed simp


section \<open>Neighbours\<close>

definition first_opt :: "'a list \<Rightarrow> 'a option" where
  "first_opt xs = (if xs = [] then None else Some (hd xs))"

definition last_opt :: "'a list \<Rightarrow> 'a option" where
  "last_opt xs = (if xs = [] then None else Some (last xs))"

lemma first_opt_simps [simp]: "first_opt [] = None" "first_opt (x # xs) = Some x"
  by (simp_all add: first_opt_def)

lemma last_opt_simps [simp]: "last_opt [] = None" "last_opt [x] = Some x" "last_opt (xs @ [x]) = Some x"
  "last_opt (xs @ x # ys) = last_opt (x # ys)"
  by (simp_all add: last_opt_def)

lemma first_opt_append: "first_opt (xs @ ys) = (case first_opt xs of None \<Rightarrow> first_opt ys | Some x \<Rightarrow> Some x)"
  by (cases xs) auto

lemma last_opt_append: "last_opt (xs @ ys) = (case last_opt ys of None \<Rightarrow> last_opt xs | Some x \<Rightarrow> Some x)"
  by (simp add: last_opt_def)

lemma descend_ok:
  assumes "t \<noteq> Null"
  shows "\<exists>l x b r q. descend c t p = (Node l x b r, q @ p) \<and> plug (Node l x b r) q = t \<and>
    (if c then r = Null \<and> path_after q = [] else l = Null \<and> path_before q = [])"
  using assms
proof (induction c t p rule: descend.induct)
  case (2 c l x b r p)
  show ?case
  proof (cases "(if c then r else l) = Null")
    case True
    then show ?thesis by (auto intro!: exI [of _ "[]"])
  next
    case False
    show ?thesis
    proof (cases c)
      case True
      then obtain l' x' b' r' q where "descend c r (Frame c x b l # p) = (Node l' x' b' r', q @ Frame c x b l # p)"
        "plug (Node l' x' b' r') q = r" "r' = Null" "path_after q = []"
        using 2(1) False by auto
      then show ?thesis using False True
        by (intro exI [of _ l'] exI [of _ x'] exI [of _ b'] exI [of _ r'] exI [of _ "q @ [Frame c x b l]"])
          (auto simp: node_with_def)
    next
      case c: False
      then obtain l' x' b' r' q where "descend c l (Frame c x b r # p) = (Node l' x' b' r', q @ Frame c x b r # p)"
        "plug (Node l' x' b' r') q = l" "l' = Null" "path_before q = []"
        using 2(2) False by auto
      then show ?thesis using False c
        by (intro exI [of _ l'] exI [of _ x'] exI [of _ b'] exI [of _ r'] exI [of _ "q @ [Frame c x b r]"])
          (auto simp: node_with_def)
    qed
  qed
qed simp

lemma descend_data:
  "node_data (fst (descend c t p)) = (if c then last_opt (inorder t) else first_opt (inorder t))"
proof (cases "t = Null")
  case False
  then obtain l x b r q where "descend c t p = (Node l x b r, q @ p)" "plug (Node l x b r) q = t"
    "if c then r = Null \<and> path_after q = [] else l = Null \<and> path_before q = []"
    using descend_ok [of t c p] by blast
  then show ?thesis by (auto simp: last_opt_append split: if_splits)
qed simp

lemma ascend_ok: "ascend right p = (if right then last_opt (path_before p) else first_opt (path_after p))"
  by (induction right p rule: ascend.induct) (auto simp: last_opt_append)

lemma node_at_split:
  assumes "distinct (inorder t)" "inorder t = xs @ d # ys"
  obtains l b r p where "node_at d t [] = Some (Node l d b r, p)" "t = plug (Node l d b r) p"
    "xs = path_before p @ inorder l" "ys = inorder r @ path_after p"
proof -
  obtain l b r p where p: "node_at d t [] = Some (Node l d b r, p)" "t = plug (Node l d b r) p"
    by (rule node_atE [of d t]) (simp add: assms(2))
  then have "xs @ d # ys = (path_before p @ inorder l) @ d # inorder r @ path_after p" using assms(2) by simp
  moreover have "d \<notin> set xs" "d \<notin> set ys" using assms by auto
  ultimately show thesis using that [OF p] by (metis append_Cons_eq_iff)
qed

lemma avl_walk_ok:
  assumes "distinct (avl_list t)" "avl_list t = xs @ d # ys"
  shows "avl_walk t d AVL_BEFORE = Some (last_opt xs)" "avl_walk t d AVL_AFTER = Some (first_opt ys)"
proof -
  obtain l b r p where "node_at d (avl_root t) [] = Some (Node l d b r, p)"
    "xs = path_before p @ inorder l" "ys = inorder r @ path_after p"
    by (rule node_at_split [OF assms])
  then show "avl_walk t d AVL_BEFORE = Some (last_opt xs)" "avl_walk t d AVL_AFTER = Some (first_opt ys)"
    by (auto simp: avl_walk_def descend_data ascend_ok last_opt_append first_opt_append first_opt_def last_opt_def)
qed

lemma far_ok: "far c t prev = (case if c then last_opt (inorder t) else first_opt (inorder t) of None \<Rightarrow> prev | Some x \<Rightarrow> Some x)"
  by (induction c t prev rule: far.induct) (auto simp: last_opt_def first_opt_def hd_append)

lemma avl_first_ok: "avl_first t = first_opt (avl_list t)"
  by (simp add: avl_first_def far_ok option.case_eq_if)

lemma avl_last_ok: "avl_last t = last_opt (avl_list t)"
  by (simp add: avl_last_def far_ok option.case_eq_if)

lemma avl_iterate_from:
  "distinct (avl_list t) \<Longrightarrow> avl_list t = xs @ ys \<Longrightarrow> avl_iterate t (first_opt ys) = Some ys"
proof (induction ys arbitrary: xs)
  case Nil
  then show ?case by (subst avl_iterate.simps) simp
next
  case (Cons y ys)
  then have "avl_iterate t (first_opt ys) = Some ys" by (intro Cons.IH [of "xs @ [y]"]) simp_all
  then show ?case using avl_walk_ok(2) [OF Cons.prems(1), of xs y ys] Cons.prems(2)
    by (subst avl_iterate.simps) simp
qed

lemma avl_iterate_ok: "distinct (avl_list t) \<Longrightarrow> avl_iterate t (avl_first t) = Some (avl_list t)"
  using avl_iterate_from [of t "[]" "avl_list t"] by (simp add: avl_first_ok)

section \<open>Insertion and removal\<close>

text \<open>\<open>index_gap t w xs ys\<close>: the insertion point \<open>w\<close> lies between \<open>xs\<close> and \<open>ys\<close>.\<close>

fun index_gap :: "'a avl_node \<Rightarrow> 'a avl_index \<Rightarrow> 'a list \<Rightarrow> 'a list \<Rightarrow> bool" where
  "index_gap t (None, c) xs ys \<longleftrightarrow> t = Null \<and> xs = [] \<and> ys = []"
| "index_gap t (Some q, c) xs ys \<longleftrightarrow>
     (if c then \<exists>l b p. t = plug (Node l q b Null) p \<and> xs = path_before p @ inorder l @ [q] \<and> ys = path_after p
      else \<exists>b r p. t = plug (Node Null q b r) p \<and> xs = path_before p \<and> ys = q # inorder r @ path_after p)"

lemma index_gapI:
  "t = plug (Node l q b Null) p \<Longrightarrow> index_gap t (Some q, True) (path_before p @ inorder l @ [q]) (path_after p)"
  "t = plug (Node Null q b r) p \<Longrightarrow> index_gap t (Some q, False) (path_before p) (q # inorder r @ path_after p)"
  by auto

lemma index_gap_list: "index_gap t w xs ys \<Longrightarrow> inorder t = xs @ ys"
  by (cases w; cases "fst w") (auto split: if_splits)

lemma avl_insert_gap:
  assumes "avl_wf t" "index_gap (avl_root t) w xs ys" "d \<notin> set (avl_list t)"
  shows "\<exists>t'. avl_insert t d w = Some t' \<and> avl_wf t' \<and> avl_list t' = xs @ d # ys \<and> avl_compar t' = avl_compar t"
proof (cases w)
  case (Pair q c)
  show ?thesis
  proof (cases q)
    case None
    then show ?thesis using assms Pair by (auto simp: avl_insert_def avl_wf_def)
  next
    case (Some e)
    then obtain l b r p where p: "avl_root t = plug (Node l e b r) p" "(if c then r else l) = Null"
      "xs = path_before p @ (if c then inorder l @ [e] else [])" "ys = (if c then [] else e # inorder r) @ path_after p"
      using assms(2) Pair by (auto split: if_splits)
    let ?f = "Frame c e b (if c then l else r)"
    have wf: "avl_ok (avl_root t)" "distinct (avl_list t)" "avl_numnodes t = length (avl_list t)"
      using assms(1) by (simp_all add: avl_wf_def)
    have "path_ok (?f # p) 0" using wf(1) p by (cases c) auto
    then obtain root where root: "insert_up (Node Null d 0 Null) (?f # p) = Some root" "avl_ok root"
      "inorder root = path_before (?f # p) @ d # path_after (?f # p)"
      using insert_up_ok [of "Node Null d 0 Null" "?f # p" 0] by auto
    have "avl_insert t d w = Some (t\<lparr>avl_numnodes := avl_numnodes t + 1, avl_root := root\<rparr>)"
      using node_at_place [of l e b r p] wf(2) p(1,2) Pair Some root(1)
      by (simp add: avl_insert_def del: insert_up.simps)
    moreover have "inorder root = xs @ d # ys" using root(3) p(3,4) by simp
    ultimately show ?thesis using root(2) wf assms(3) index_gap_list [OF assms(2)] by (auto simp: avl_wf_def)
  qed
qed

lemma avl_nearest_ok:
  assumes "distinct (avl_list t)" "index_gap (avl_root t) w xs ys"
  shows "avl_nearest t w AVL_BEFORE = Some (last_opt xs)" "avl_nearest t w AVL_AFTER = Some (first_opt ys)"
proof -
  have "avl_nearest t w AVL_BEFORE = Some (last_opt xs) \<and> avl_nearest t w AVL_AFTER = Some (first_opt ys)"
  proof (cases w)
    case (Pair q c)
    show ?thesis
    proof (cases q)
      case None
      then show ?thesis using assms(2) Pair by (simp add: avl_nearest_def)
    next
      case (Some e)
      show ?thesis
      proof (cases c)
        case True
        then obtain us where us: "xs = us @ [e]" using assms(2) Pair Some by auto
        then show ?thesis using Pair Some True avl_walk_ok(2) [OF assms(1), of us e ys] index_gap_list [OF assms(2)]
          by (simp add: avl_nearest_def)
      next
        case False
        then obtain us where us: "ys = e # us" using assms(2) Pair Some by auto
        then show ?thesis using Pair Some False avl_walk_ok(1) [OF assms(1), of xs e us] index_gap_list [OF assms(2)]
          by (simp add: avl_nearest_def)
      qed
    qed
  qed
  then show "avl_nearest t w AVL_BEFORE = Some (last_opt xs)" "avl_nearest t w AVL_AFTER = Some (first_opt ys)"
    by simp_all
qed

lemma avl_insert_here_ok:
  assumes "avl_wf t" "avl_list t = xs @ here # ys" "d \<notin> set (avl_list t)"
  shows "\<exists>t'. avl_insert_here t d here direction = Some t' \<and> avl_wf t' \<and> avl_compar t' = avl_compar t \<and>
    avl_list t' = (if direction then xs @ here # d # ys else xs @ d # here # ys)"
proof -
  have dist: "distinct (avl_list t)" using assms(1) by (simp add: avl_wf_def)
  obtain l b r p where p: "node_at here (avl_root t) [] = Some (Node l here b r, p)" "avl_root t = plug (Node l here b r) p"
    "xs = path_before p @ inorder l" "ys = inorder r @ path_after p"
    by (rule node_at_split [OF dist assms(2)])
  let ?ch = "if direction then r else l"
  define w where "w = (if ?ch = Null then (Some here, direction)
    else (node_data (fst (descend (\<not> direction) ?ch [])), \<not> direction))"
  have eq: "avl_insert_here t d here direction = avl_insert t d w"
    using p(1) by (simp add: avl_insert_here_def w_def)
  have "index_gap (avl_root t) w (if direction then xs @ [here] else xs) (if direction then ys else here # ys)"
  proof (cases "?ch = Null")
    case True
    then show ?thesis using p(2-4) by (cases direction) (auto simp: w_def)
  next
    case False
    then obtain l' x b' r' q where q: "descend (\<not> direction) ?ch [] = (Node l' x b' r', q)" "plug (Node l' x b' r') q = ?ch"
      "if \<not> direction then r' = Null \<and> path_after q = [] else l' = Null \<and> path_before q = []"
      using descend_ok [of ?ch "\<not> direction" "[]"] by auto
    let ?q = "q @ Frame direction here b (if direction then l else r) # p"
    have root: "avl_root t = plug (Node l' x b' r') ?q" using p(2) q(2) by (cases direction) (auto simp: node_with_def)
    have "inorder ?ch = path_before q @ inorder (Node l' x b' r') @ path_after q"
      using arg_cong [OF q(2), of inorder, symmetric] by (simp only: inorder_plug)
    then show ?thesis using False q(1,3) p(3,4) index_gapI(1) [of "avl_root t" l' x b' ?q]
        index_gapI(2) [of "avl_root t" x b' r' ?q] root
      by (cases direction) (simp_all add: w_def)
  qed
  then show ?thesis using avl_insert_gap [OF assms(1) _ assms(3)] eq by fastforce
qed

lemma avl_remove_ok:
  assumes "avl_wf t" "avl_list t = xs @ d # ys"
  shows "\<exists>t'. avl_remove t d = Some t' \<and> avl_wf t' \<and> avl_list t' = xs @ ys \<and> avl_compar t' = avl_compar t"
proof -
  have wf: "avl_ok (avl_root t)" "distinct (avl_list t)" "avl_numnodes t = length (avl_list t)"
    using assms(1) by (simp_all add: avl_wf_def)
  obtain l b r p where p: "node_at d (avl_root t) [] = Some (Node l d b r, p)" "avl_root t = plug (Node l d b r) p"
    "xs = path_before p @ inorder l" "ys = inorder r @ path_after p"
    by (rule node_at_split [OF wf(2) assms(2)])
  have ok: "avl_ok (Node l d b r)" "path_ok p (avl_height (Node l d b r))"
    using wf(1) p(2) by (simp_all only: avl_ok_plug)
  obtain dl dx db dr q where q: "delete_place (Node l d b r) p = (Node dl dx db dr, q)" "dl = Null \<or> dr = Null"
    "avl_ok (Node dl dx db dr)" "path_ok q (avl_height (Node dl dx db dr))"
    "path_before q @ inorder dl @ inorder dr @ path_after q = xs @ ys"
  proof (cases "l = Null \<or> r = Null")
    case True
    then show thesis using ok p(3,4) by (intro that [of l d b r p]) (auto simp: delete_place_def)
  next
    case False
    define c where "c = avl_balance2child b"
    let ?ch = "if c then r else l" and ?o = "if c then l else r"
    obtain l' x b' r' q where q: "descend (\<not> c) ?ch [] = (Node l' x b' r', q)" "plug (Node l' x b' r') q = ?ch"
      "if \<not> c then r' = Null \<and> path_after q = [] else l' = Null \<and> path_before q = []"
    proof -
      have "?ch \<noteq> Null" using False by simp
      then show thesis using that descend_ok [of ?ch "\<not> c" "[]"] by auto
    qed
    let ?q = "q @ Frame c x b ?o # p"
    have dp: "delete_place (Node l d b r) p = (Node l' x b' r', ?q)"
      using False q(1) by (simp add: delete_place_def Let_def c_def [symmetric])
    have "avl_ok (node_with c x b ?ch ?o)" "avl_height (node_with c x b ?ch ?o) = avl_height (Node l d b r)"
      using ok(1) by (cases c; simp)+
    then have "avl_ok (plug (Node l' x b' r') ?q)" using ok(2) q(2) by (simp only: avl_ok_plug plug_append plug.simps)
    then have okq: "avl_ok (Node l' x b' r')" "path_ok ?q (avl_height (Node l' x b' r'))" unfolding avl_ok_plug by blast+
    have "inorder ?ch = path_before q @ inorder (Node l' x b' r') @ path_after q"
      using arg_cong [OF q(2), of inorder, symmetric] by (simp only: inorder_plug)
    then show thesis using q(3) p(3,4) by (intro that [OF dp _ okq]) (auto split: if_splits)
  qed
  let ?ch = "if dl = Null then dr else dl"
  have "avl_ok ?ch" "avl_height (Node dl dx db dr) = Suc (avl_height ?ch)" "inorder ?ch = inorder dl @ inorder dr"
    using q(2,3) by auto
  then obtain root where "remove_up ?ch q = Some root" "avl_ok root" "inorder root = xs @ ys"
    using remove_up_ok [OF _ q(4), of ?ch] q(5) by auto
  then show ?thesis using p(1) q(1) wf assms(2) by (auto simp: avl_remove_def avl_wf_def)
qed

section \<open>Searching\<close>

fun path_index :: "'a frame list \<Rightarrow> 'a avl_index" where
  "path_index [] = (None, False)"
| "path_index (Frame c x b s # p) = (Some x, c)"

lemma path_index_gap: "index_gap (plug Null p) (path_index p) (path_before p) (path_after p)"
proof (cases p rule: path_index.cases)
  case (2 c x b s p')
  then show ?thesis using index_gapI [of "plug Null p"] by (cases c) (auto simp: node_with_def)
qed simp

text \<open>
  What a tree expects of its comparison function: a sign (the \<^verbatim>\<open>ASSERT\<close> of \<^verbatim>\<open>avl_find\<close>), antisymmetric, and transitive where it says
  ``smaller''.  Elements may compare as equal without being the same: overlapping segments do.
\<close>

locale avl_order =
  fixes cmp :: "'a \<Rightarrow> 'a \<Rightarrow> int"
  assumes cmp_sign: "cmp x y = - 1 \<or> cmp x y = 0 \<or> cmp x y = 1"
    and cmp_anti: "cmp y x = - cmp x y"
    and cmp_trans: "cmp x y = - 1 \<Longrightarrow> cmp y z = - 1 \<Longrightarrow> cmp x z = - 1"
begin

definition ordered :: "'a list \<Rightarrow> bool" where
  "ordered xs \<longleftrightarrow> sorted_wrt (\<lambda>x y. cmp x y = - 1) xs"

lemma ordered_append:
  "ordered (xs @ ys) \<longleftrightarrow> ordered xs \<and> ordered ys \<and> (\<forall>x\<in>set xs. \<forall>y\<in>set ys. cmp x y = - 1)"
  by (simp add: ordered_def sorted_wrt_append)

lemma ordered_Cons: "ordered (x # ys) \<longleftrightarrow> ordered ys \<and> (\<forall>y\<in>set ys. cmp x y = - 1)"
  by (auto simp: ordered_def)

lemma cmp_refl: "cmp x x = 0"
  using cmp_anti [of x x] by simp

lemma ordered_distinct: "ordered xs \<Longrightarrow> distinct xs"
proof (induction xs)
  case (Cons x xs)
  then show ?case using cmp_refl [of x] by (auto simp: ordered_Cons)
qed simp

lemma find_loop_ok:
  assumes "ordered (inorder n)"
  shows "case find_loop cmp v n (path_index p) of
      Inl x \<Rightarrow> x \<in> set (inorder n) \<and> cmp v x = 0
    | Inr w \<Rightarrow> \<exists>xs ys. inorder n = xs @ ys \<and> (\<forall>x\<in>set xs. cmp x v = - 1) \<and> (\<forall>y\<in>set ys. cmp v y = - 1) \<and>
        index_gap (plug n p) w (path_before p @ xs) (ys @ path_after p)"
  using assms
proof (induction n arbitrary: p)
  case Null
  then show ?case using path_index_gap [of p] by (simp add: exI [of _ "[]"])
next
  case (Node l x b r)
  have ord: "ordered (inorder l)" "ordered (inorder r)" "\<forall>y\<in>set (inorder l). cmp y x = - 1" "\<forall>y\<in>set (inorder r). cmp x y = - 1"
    using Node.prems by (auto simp: ordered_append ordered_Cons)
  consider "cmp v x = 0" | "cmp v x = 1" | "cmp v x = - 1" using cmp_sign by blast
  then show ?case
  proof cases
    case 2
    then have xv: "cmp x v = - 1" using cmp_anti [of v x] by simp
    have pl: "plug r (Frame True x b l # p) = plug (Node l x b r) p" by (simp add: node_with_def)
    show ?thesis
    proof (cases "find_loop cmp v r (path_index (Frame True x b l # p))")
      case (Inl a)
      then show ?thesis using Node.IH(2) [OF ord(2), of "Frame True x b l # p"] 2 by (simp add: avl_balance2child_def)
    next
      case (Inr w)
      then obtain xs ys where xy: "inorder r = xs @ ys" "\<forall>x\<in>set xs. cmp x v = - 1" "\<forall>y\<in>set ys. cmp v y = - 1"
        "index_gap (plug (Node l x b r) p) w (path_before (Frame True x b l # p) @ xs) (ys @ path_after (Frame True x b l # p))"
        using Node.IH(2) [OF ord(2), of "Frame True x b l # p"] unfolding pl by auto
      have lv: "\<forall>y\<in>set (inorder l). cmp y v = - 1" using ord(3) xv cmp_trans by blast
      have "find_loop cmp v (Node l x b r) (path_index p) = Inr w" using Inr 2 by (simp add: avl_balance2child_def)
      moreover have "\<exists>us vs. inorder (Node l x b r) = us @ vs \<and> (\<forall>x\<in>set us. cmp x v = - 1) \<and>
          (\<forall>y\<in>set vs. cmp v y = - 1) \<and> index_gap (plug (Node l x b r) p) w (path_before p @ us) (vs @ path_after p)"
        by (rule exI [of _ "inorder l @ x # xs"], rule exI [of _ ys]) (use xy lv xv in auto)
      ultimately show ?thesis by (simp only: sum.case)
    qed
  next
    case 3
    have pl: "plug l (Frame False x b r # p) = plug (Node l x b r) p" by (simp add: node_with_def)
    show ?thesis
    proof (cases "find_loop cmp v l (path_index (Frame False x b r # p))")
      case (Inl a)
      then show ?thesis using Node.IH(1) [OF ord(1), of "Frame False x b r # p"] 3 by (simp add: avl_balance2child_def)
    next
      case (Inr w)
      then obtain xs ys where xy: "inorder l = xs @ ys" "\<forall>x\<in>set xs. cmp x v = - 1" "\<forall>y\<in>set ys. cmp v y = - 1"
        "index_gap (plug (Node l x b r) p) w (path_before (Frame False x b r # p) @ xs) (ys @ path_after (Frame False x b r # p))"
        using Node.IH(1) [OF ord(1), of "Frame False x b r # p"] unfolding pl by auto
      have rv: "\<forall>y\<in>set (inorder r). cmp v y = - 1" using ord(4) 3 cmp_trans by blast
      have "find_loop cmp v (Node l x b r) (path_index p) = Inr w" using Inr 3 by (simp add: avl_balance2child_def)
      moreover have "\<exists>us vs. inorder (Node l x b r) = us @ vs \<and> (\<forall>x\<in>set us. cmp x v = - 1) \<and>
          (\<forall>y\<in>set vs. cmp v y = - 1) \<and> index_gap (plug (Node l x b r) p) w (path_before p @ us) (vs @ path_after p)"
        by (rule exI [of _ xs], rule exI [of _ "ys @ x # inorder r"]) (use xy rv 3 in auto)
      ultimately show ?thesis by (simp only: sum.case)
    qed
  qed simp
qed

lemma avl_find_ok:
  assumes "ordered (avl_list t)" "avl_compar t = cmp"
  obtains (found) x where "avl_find t v = Inl x" "x \<in> set (avl_list t)" "cmp v x = 0"
  | (gap) w xs ys where "avl_find t v = Inr w" "avl_list t = xs @ ys" "\<forall>x\<in>set xs. cmp x v = - 1"
      "\<forall>y\<in>set ys. cmp v y = - 1" "index_gap (avl_root t) w xs ys"
  using find_loop_ok [OF assms(1), of v "[]"] found gap
  by (cases "avl_find t v") (auto simp: avl_find_def assms(2))

text \<open>The search succeeds exactly when some element compares as equal.\<close>

lemma avl_find_iff:
  assumes "ordered (avl_list t)" "avl_compar t = cmp"
  shows "(\<exists>x. avl_find t v = Inl x) \<longleftrightarrow> (\<exists>x\<in>set (avl_list t). cmp v x = 0)"
  using assms
proof (cases rule: avl_find_ok [where v = v])
  case (gap w xs ys)
  have "cmp v x = 1" if "x \<in> set xs" for x using gap(3) that cmp_anti [of x v] by auto
  then show ?thesis using gap by fastforce
qed auto

lemma ordered_insert:
  "ordered (xs @ ys) \<Longrightarrow> \<forall>x\<in>set xs. cmp x v = - 1 \<Longrightarrow> \<forall>y\<in>set ys. cmp v y = - 1 \<Longrightarrow> ordered (xs @ v # ys)"
  by (auto simp: ordered_append ordered_Cons)

text \<open>Adding an element that compares as equal to none puts it at its place in the order.\<close>

lemma avl_add_ok:
  assumes "avl_wf t" "ordered (avl_list t)" "avl_compar t = cmp" "\<forall>x\<in>set (avl_list t). cmp v x \<noteq> 0"
  shows "\<exists>t' xs ys. avl_add t v = Some t' \<and> avl_wf t' \<and> avl_compar t' = cmp \<and> avl_list t = xs @ ys \<and>
    avl_list t' = xs @ v # ys \<and> ordered (avl_list t')"
  using assms(2,3)
proof (cases rule: avl_find_ok [where v = v])
  case (found x)
  then show ?thesis using assms(4) by blast
next
  case (gap w xs ys)
  have "v \<notin> set (avl_list t)" using assms(4) cmp_refl by blast
  then obtain t' where "avl_insert t v w = Some t'" "avl_wf t'" "avl_list t' = xs @ v # ys" "avl_compar t' = cmp"
    using avl_insert_gap [OF assms(1) gap(5)] assms(3) by auto
  then show ?thesis using gap assms(2) ordered_insert [of xs ys v] by (auto simp: avl_add_def)
qed

text \<open>In an ordered tree an object is the only one that compares as equal to it.\<close>

lemma ordered_cmp_eq:
  assumes "ordered zs" "x \<in> set zs" "y \<in> set zs" "cmp x y = 0"
  shows "x = y"
proof (rule ccontr)
  assume "x \<noteq> y"
  obtain us vs where zs: "zs = us @ x # vs" using split_list [OF assms(2)] by blast
  with assms(3) \<open>x \<noteq> y\<close> consider "y \<in> set us" | "y \<in> set vs" by auto
  then have "cmp y x = - 1 \<or> cmp x y = - 1"
    using assms(1) by cases (auto simp: zs ordered_append ordered_Cons)
  then show False using cmp_anti [of x y] assms(4) by simp
qed

lemma avl_find_member:
  assumes "ordered (avl_list t)" "avl_compar t = cmp" "v \<in> set (avl_list t)"
  shows "avl_find t v = Inl v"
proof -
  have found: "\<exists>x. avl_find t v = Inl x" using avl_find_iff [OF assms(1,2), of v] assms(3) cmp_refl by blast
  show ?thesis
    using assms(1,2)
    by (cases rule: avl_find_ok [where v = v]) (use found ordered_cmp_eq [OF assms(1,3)] in auto)
qed

lemma avl_add_cases:
  assumes "avl_wf t" "ordered (avl_list t)" "avl_compar t = cmp"
  shows "if \<exists>x\<in>set (avl_list t). cmp v x = 0 then avl_add t v = None
    else \<exists>t'. avl_add t v = Some t' \<and> avl_wf t' \<and> avl_compar t' = cmp \<and> ordered (avl_list t') \<and>
      set (avl_list t') = insert v (set (avl_list t)) \<and> avl_find t' v = Inl v"
proof (cases "\<exists>x\<in>set (avl_list t). cmp v x = 0")
  case True
  then obtain x where "avl_find t v = Inl x" using avl_find_iff [OF assms(2,3), of v] by blast
  with True show ?thesis by (simp add: avl_add_def)
next
  case False
  then obtain t' xs ys where t': "avl_add t v = Some t'" "avl_wf t'" "avl_compar t' = cmp" "avl_list t = xs @ ys"
    "avl_list t' = xs @ v # ys" "ordered (avl_list t')"
    using avl_add_ok [OF assms] by blast
  moreover from this have "avl_find t' v = Inl v" by (intro avl_find_member) simp_all
  ultimately show ?thesis using False by auto
qed

lemma avl_remove_ordered:
  assumes "avl_wf t" "ordered (avl_list t)" "avl_compar t = cmp" "v \<in> set (avl_list t)"
  shows "\<exists>t'. avl_remove t v = Some t' \<and> avl_wf t' \<and> avl_compar t' = cmp \<and> ordered (avl_list t') \<and>
    set (avl_list t') = set (avl_list t) - {v} \<and> (\<forall>x. avl_find t' v \<noteq> Inl x)"
proof -
  obtain xs ys where l: "avl_list t = xs @ v # ys" using split_list [OF assms(4)] by blast
  from avl_remove_ok [OF assms(1) l] obtain t' where
    t': "avl_remove t v = Some t'" "avl_wf t'" "avl_list t' = xs @ ys" "avl_compar t' = cmp"
    using assms(3) by auto
  have v: "v \<notin> set xs" "v \<notin> set ys" using ordered_distinct [OF assms(2)] by (auto simp: l)
  have ord: "ordered (avl_list t')" using assms(2) by (simp add: t' l ordered_append ordered_Cons)
  have "cmp v x \<noteq> 0" if "x \<in> set (avl_list t')" for x
    using ordered_cmp_eq [OF assms(2,4), of x] that v by (auto simp: t' l)
  then have "\<forall>x. avl_find t' v \<noteq> Inl x" using avl_find_iff [OF ord t'(4), of v] by blast
  then show ?thesis using t' ord v by (auto simp: l)
qed

end

section \<open>Destroying a tree\<close>

fun postorder :: "'a avl_node \<Rightarrow> 'a list" where
  "postorder Null = []"
| "postorder (Node l x b r) = postorder l @ postorder r @ [x]"

text \<open>
  The nodes still to be handed out when the node in the hole of a path has been: the frames that were
  left through their right child have lost their left one.
\<close>

fun post_rest :: "'a frame list \<Rightarrow> 'a list" where
  "post_rest [] = []"
| "post_rest (Frame c x b s # p) = (if c then [] else postorder s) @ x # post_rest p"

fun clear_path :: "'a frame list \<Rightarrow> bool" where
  "clear_path [] \<longleftrightarrow> True"
| "clear_path (Frame c x b s # p) \<longleftrightarrow> (if c then s = Null else avl_ok s) \<and> clear_path p"

lemma set_postorder [simp]: "set (postorder t) = set (inorder t)"
  by (induction t) auto

lemma mset_postorder: "mset (postorder t) = mset (inorder t)"
  by (induction t) auto

lemma check_right_side_ok:
  assumes "avl_ok t" "t \<noteq> Null" "clear_path p"
  shows "\<exists>d b q. check_right_side (descend False t p) = Some (Node Null d b Null, q) \<and>
    plug (Node Null d b Null) q = plug t p \<and> clear_path q \<and> postorder t @ post_rest p = d # post_rest q"
  using assms
proof (induction t arbitrary: p)
  case (Node l x b r)
  show ?case
  proof (cases "l = Null")
    case False
    then show ?thesis using Node.IH(1) [of "Frame False x b r # p"] Node.prems by (simp add: node_with_def)
  next
    case l: True
    show ?thesis
    proof (cases r)
      case Null
      then show ?thesis using l Node.prems by (simp add: check_right_side_def)
    next
      case (Node rl y rb rr)
      then have "rl = Null" "rr = Null" "b = 1" using l Node.prems by auto
      then show ?thesis using l Node Node.prems by (simp add: check_right_side_def node_with_def)
    qed
  qed
qed simp

lemma avl_drain_rest:
  assumes "clear_path q" "avl_root t = plug (Node Null d b Null) q" "distinct (avl_list t)"
    "avl_numnodes t = length (avl_list t)"
  shows "avl_drain t (destroy_done (Node Null d b Null) q) =
    Some (post_rest q, t\<lparr>avl_root := Null, avl_numnodes := 0\<rparr>)"
  using assms
proof (induction "length (post_rest q)" arbitrary: q t d b rule: less_induct)
  case less
  show ?case
  proof (cases q rule: post_rest.cases)
    case 1
    then show ?thesis using less.prems
      by (subst avl_drain.simps) (simp add: destroy_done_def avl_destroy_nodes_def)
  next
    case (2 c x e s p)
    let ?n = "node_with c x e (Node Null d b Null) s"
    let ?r = "if c then Null else s"
    let ?t = "t\<lparr>avl_root := plug (Node Null x e ?r) p, avl_numnodes := avl_numnodes t - 1\<rparr>"
    have s: "c \<Longrightarrow> s = Null" "\<not> c \<Longrightarrow> avl_ok s" "clear_path p" using less.prems(1) 2 by (auto split: if_splits)
    have root: "avl_root t = plug ?n p" using less.prems(2) 2 by simp
    obtain nl nr where n: "?n = Node nl x e nr" by (rule node_withE)
    have at: "node_at x (avl_root t) [] = Some (?n, p)"
      using less.prems(3) root node_at_place [of nl x e nr p] unfolding n by simp
    have two: "1 < avl_numnodes t" using less.prems(4) root by (cases c) auto
    have t': "distinct (avl_list ?t)" "avl_numnodes ?t = length (avl_list ?t)"
      using less.prems(3,4) root s(1) by (cases c; auto)+
    show ?thesis
    proof (cases "?r = Null")
      case True
      have "avl_destroy_nodes t (Cookie x c) = Some (Some x, ?t, destroy_done (Node Null x e Null) p)"
        using at two True s(1) by (cases c) (auto simp: avl_destroy_nodes_def Let_def node_with_def)
      moreover have "avl_drain ?t (destroy_done (Node Null x e Null) p) =
          Some (post_rest p, ?t\<lparr>avl_root := Null, avl_numnodes := 0\<rparr>)"
        using 2 True t' s(3) by (intro less.hyps) auto
      ultimately show ?thesis using 2 True
        by (subst avl_drain.simps) (auto simp: destroy_done_def)
    next
      case False
      let ?p = "Frame True x e Null # p"
      obtain d' b' q' where q': "check_right_side (descend False s ?p) = Some (Node Null d' b' Null, q')"
        "plug (Node Null d' b' Null) q' = plug s ?p" "clear_path q'" "postorder s @ post_rest ?p = d' # post_rest q'"
        using check_right_side_ok [of s ?p] s False by (auto split: if_splits)
      have c: "\<not> c" using False by auto
      have "avl_destroy_nodes t (Cookie x c) = Some (Some d', ?t, destroy_done (Node Null d' b' Null) q')"
        using at two False q'(1) c by (auto simp: avl_destroy_nodes_def Let_def node_with_def)
      moreover have "avl_drain ?t (destroy_done (Node Null d' b' Null) q') =
          Some (post_rest q', ?t\<lparr>avl_root := Null, avl_numnodes := 0\<rparr>)"
        using 2 c t' q' arg_cong [OF q'(4), of length] by (intro less.hyps) (auto simp: node_with_def)
      ultimately show ?thesis using 2 c q'(4)
        by (subst avl_drain.simps) (auto simp: destroy_done_def)
    qed
  qed
qed

lemma avl_drain_ok:
  assumes "avl_wf t"
  shows "avl_drain t Cookie_null = Some (postorder (avl_root t), t\<lparr>avl_root := Null, avl_numnodes := 0\<rparr>)"
proof (cases "avl_root t = Null")
  case True
  then have "t\<lparr>avl_root := Null, avl_numnodes := 0\<rparr> = t" using assms by (simp add: avl_wf_def)
  then show ?thesis using True by (subst avl_drain.simps) (simp add: avl_destroy_nodes_def)
next
  case False
  have wf: "avl_ok (avl_root t)" "distinct (avl_list t)" "avl_numnodes t = length (avl_list t)"
    using assms by (simp_all add: avl_wf_def)
  obtain d b q where q: "check_right_side (descend False (avl_root t) []) = Some (Node Null d b Null, q)"
    "plug (Node Null d b Null) q = avl_root t" "clear_path q" "postorder (avl_root t) = d # post_rest q"
    using check_right_side_ok [OF wf(1) False, of "[]"] by auto
  then have "avl_destroy_nodes t Cookie_null = Some (Some d, t, destroy_done (Node Null d b Null) q)"
    using False by (simp add: avl_destroy_nodes_def)
  then show ?thesis using avl_drain_rest [OF q(3) q(2) [symmetric] wf(2,3)] q(4)
    by (subst avl_drain.simps) simp
qed

section \<open>Properties\<close>

lemma avl_height_log: "avl_ok t \<Longrightarrow> 2 ^ (avl_height t div 2) \<le> Suc (length (inorder t))"
proof (induction t)
  case (Node l x b r)
  show ?case
  proof (cases "max (avl_height l) (avl_height r)")
    case (Suc h)
    have "avl_ok l" "avl_ok r" "h \<le> avl_height l" "h \<le> avl_height r" using Node.prems Suc by auto
    moreover have "(2 :: nat) ^ (h div 2) \<le> 2 ^ (k div 2)" if "h \<le> k" for k
      using div_le_mono [OF that, of 2] by simp
    ultimately have "2 ^ (h div 2) \<le> Suc (length (inorder l))" "2 ^ (h div 2) \<le> Suc (length (inorder r))"
      using Node.IH by (meson le_trans)+
    then show ?thesis using Suc by simp
  qed simp
qed simp

text \<open>
  C15. \<^verbatim>\<open>avl_add\<close> and \<^verbatim>\<open>avl_remove\<close> keep every tree balanced, ordered by its comparison
  function, with its node count right, and change nothing else.  For any comparison function with the laws of
  \<open>avl_order\<close>: \<^verbatim>\<open>avl_add\<close> panics exactly when an object of the tree compares as
  equal to the new one, and otherwise the tree holds the new object besides the old ones and
  \<^verbatim>\<open>avl_find\<close> finds it; \<^verbatim>\<open>avl_remove\<close> takes out that object alone and
  \<^verbatim>\<open>avl_find\<close> finds nothing in its place; \<^verbatim>\<open>avl_insert_here\<close> puts an object directly before or
  after another and moves no third.  No null pointer is followed and no assertion fails on the way.
\<close>

theorem avl_insert_remove_invariant:
  assumes "avl_order cmp" "avl_compar t = cmp" "avl_wf t" "sorted_wrt (\<lambda>x y. cmp x y = - 1) (avl_list t)"
  shows "(if \<exists>x\<in>set (avl_list t). cmp d x = 0 then avl_add t d = None
      else \<exists>t1. avl_add t d = Some t1 \<and> avl_wf t1 \<and> avl_compar t1 = cmp \<and>
        sorted_wrt (\<lambda>x y. cmp x y = - 1) (avl_list t1) \<and> set (avl_list t1) = insert d (set (avl_list t)) \<and>
        avl_find t1 d = Inl d)
    \<and> (\<forall>here\<in>set (avl_list t). \<exists>t2. avl_remove t here = Some t2 \<and> avl_wf t2 \<and> avl_compar t2 = cmp \<and>
        sorted_wrt (\<lambda>x y. cmp x y = - 1) (avl_list t2) \<and> set (avl_list t2) = set (avl_list t) - {here} \<and>
        (\<forall>x. avl_find t2 here \<noteq> Inl x))
    \<and> (\<forall>xs here ys. avl_list t = xs @ here # ys \<and> d \<notin> set (avl_list t) \<longrightarrow>
        (\<exists>t3. avl_insert_here t d here direction = Some t3 \<and> avl_wf t3 \<and>
          avl_list t3 = (if direction then xs @ here # d # ys else xs @ d # here # ys)))"
proof (intro conjI ballI allI impI)
  note ord = assms(4) [folded avl_order.ordered_def [OF assms(1)]]
  show "if \<exists>x\<in>set (avl_list t). cmp d x = 0 then avl_add t d = None
      else \<exists>t1. avl_add t d = Some t1 \<and> avl_wf t1 \<and> avl_compar t1 = cmp \<and>
        sorted_wrt (\<lambda>x y. cmp x y = - 1) (avl_list t1) \<and> set (avl_list t1) = insert d (set (avl_list t)) \<and>
        avl_find t1 d = Inl d"
    using avl_order.avl_add_cases [OF assms(1,3) ord assms(2), of d]
    unfolding avl_order.ordered_def [OF assms(1)] .
  show "\<exists>t2. avl_remove t here = Some t2 \<and> avl_wf t2 \<and> avl_compar t2 = cmp \<and>
        sorted_wrt (\<lambda>x y. cmp x y = - 1) (avl_list t2) \<and> set (avl_list t2) = set (avl_list t) - {here} \<and>
        (\<forall>x. avl_find t2 here \<noteq> Inl x)" if "here \<in> set (avl_list t)" for here
    using avl_order.avl_remove_ordered [OF assms(1,3) ord assms(2) that]
    unfolding avl_order.ordered_def [OF assms(1)] .
  show "\<exists>t3. avl_insert_here t d here direction = Some t3 \<and> avl_wf t3 \<and>
          avl_list t3 = (if direction then xs @ here # d # ys else xs @ d # here # ys)"
    if "avl_list t = xs @ here # ys \<and> d \<notin> set (avl_list t)" for xs here ys
    using avl_insert_here_ok [OF assms(3), of xs here ys d direction] that by blast
qed

definition demo_tree :: "nat avl_tree" where
  "demo_tree = \<lparr>avl_root = Node (Node Null 1 0 Null) 2 1 (Node Null 4 1 (Node Null 5 0 Null)),
     avl_compar = (\<lambda>x y. sgn (int x - int y)), avl_numnodes = 4\<rparr>"

lemma demo_tree_wf: "avl_wf demo_tree"
  by (simp add: avl_wf_def demo_tree_def)

lemma demo_order: "avl_order (\<lambda>x y :: nat. sgn (int x - int y))"
  by unfold_locales (auto simp: sgn_if split: if_splits)

theorem avl_insert_remove_invariant_witness:
  "(\<exists>t1. avl_add demo_tree 3 = Some t1 \<and> avl_wf t1 \<and> set (avl_list t1) = {1, 2, 3, 4, 5} \<and> avl_find t1 3 = Inl 3)
   \<and> (\<exists>t2. avl_remove demo_tree 5 = Some t2 \<and> avl_wf t2 \<and> set (avl_list t2) = {1, 2, 4, 5} - {5})"
proof -
  let ?cmp = "\<lambda>x y :: nat. sgn (int x - int y)"
  have "avl_compar demo_tree = ?cmp" "avl_list demo_tree = [1, 2, 4, 5]"
    by (simp_all add: demo_tree_def)
  moreover from this have "sorted_wrt (\<lambda>x y. ?cmp x y = - 1) (avl_list demo_tree)" by simp
  ultimately show ?thesis
    using avl_insert_remove_invariant [OF demo_order _ demo_tree_wf, of 3] by (fastforce simp: insert_commute)
qed

text \<open>
  C16. The destruction walk ends and misses nothing: calling \<^verbatim>\<open>avl_destroy_nodes\<close> with a null cookie
  until it returns the null pointer hands out every object of the tree exactly once, children before
  parents, without rebalancing and without violating an assertion, and leaves the tree empty.
\<close>

theorem avl_drain_complete:
  assumes "avl_wf t"
  shows "\<exists>nodes t'. avl_drain t Cookie_null = Some (nodes, t') \<and> mset nodes = mset (avl_list t) \<and>
    distinct nodes \<and> avl_destroy t' = Some ()"
proof -
  have "distinct (postorder (avl_root t))"
    using assms mset_eq_imp_distinct_iff [OF mset_postorder] by (auto simp: avl_wf_def)
  then show ?thesis using avl_drain_ok [OF assms] by (simp add: mset_postorder avl_destroy_def)
qed

theorem avl_drain_complete_witness:
  "\<exists>nodes t'. avl_drain demo_tree Cookie_null = Some (nodes, t') \<and> mset nodes = mset [1, 2, 4, 5]"
  using avl_drain_complete [OF demo_tree_wf] by (auto simp: demo_tree_def)

end
