(* ===== verification/SpaceMapLemmas.thy ===== *)
theory SpaceMapLemmas
  imports SpaceMap AvlProps
begin

text \<open>
  The lemma library of the space maps: the two comparison functions meet the contract of the AVL trees,
  the well-formedness of a map (\<open>sm_wf\<close>), the set of offsets it stands for (\<open>sm_offsets\<close>), and how
  lists of separate segments grow and shrink.
\<close>

section \<open>The comparison functions\<close>

interpretation sgs: avl_order space_map_seg_compare
proof unfold_locales
  fix x y z :: space_seg
  show "space_map_seg_compare x y = - 1 \<or> space_map_seg_compare x y = 0 \<or> space_map_seg_compare x y = 1"
    by (simp add: space_map_seg_compare_def)
  show "space_map_seg_compare y x = - space_map_seg_compare x y"
    by (auto simp: space_map_seg_compare_def)
  show "space_map_seg_compare x y = - 1 \<Longrightarrow> space_map_seg_compare y z = - 1 \<Longrightarrow> space_map_seg_compare x z = - 1"
    by (auto simp: space_map_seg_compare_def split: if_splits)
qed

interpretation srs: avl_order space_map_ref_compare
  by unfold_locales (auto simp: space_map_ref_compare_def split: if_splits)

lemma seg_compare_less: "space_map_seg_compare x y = - 1 \<longleftrightarrow> ss_start x < ss_start y \<and> ss_end x \<le> ss_start y"
  by (auto simp: space_map_seg_compare_def)

lemma seg_compare_0:
  "ss_start x < ss_end x \<Longrightarrow> ss_start y < ss_end y \<Longrightarrow>
   space_map_seg_compare x y = 0 \<longleftrightarrow> ss_start x < ss_end y \<and> ss_start y < ss_end x"
  by (auto simp: space_map_seg_compare_def)

section \<open>Assigning to an object in a tree\<close>

lemma inorder_set_node [simp]: "inorder (set_node old new t) = map (\<lambda>x. if x = old then new else x) (inorder t)"
  by (induction t) auto

lemma height_set_node [simp]: "avl_height (set_node old new t) = avl_height t"
  by (induction t) auto

lemma avl_ok_set_node [simp]: "avl_ok (set_node old new t) = avl_ok t"
  by (induction t) auto

lemma avl_store_list:
  assumes "distinct (avl_list t)" "avl_list t = xs @ old # ys"
  shows "avl_list (avl_store old new t) = xs @ new # ys"
proof -
  have "old \<notin> set xs" "old \<notin> set ys" using assms by auto
  then have "map (\<lambda>x. if x = old then new else x) xs = xs" "map (\<lambda>x. if x = old then new else x) ys = ys"
    by (auto intro!: map_idI)
  then show ?thesis using assms(2) by (simp add: avl_store_def)
qed

lemma avl_store_wf:
  assumes "avl_wf t" "avl_list t = xs @ old # ys" "new \<notin> set xs" "new \<notin> set ys"
  shows "avl_wf (avl_store old new t)"
  using assms avl_store_list [of t xs old ys new] by (auto simp: avl_wf_def) (simp_all add: avl_store_def)

lemma avl_store_absent: "old \<notin> set (avl_list t) \<Longrightarrow> avl_list (avl_store old new t) = avl_list t"
  by (auto simp: avl_store_def intro!: map_idI)

lemma avl_compar_store [simp]: "avl_compar (avl_store old new t) = avl_compar t"
  by (simp add: avl_store_def)

section \<open>The picker's tree\<close>

text \<open>
  \<open>pp_tree S pp\<close>: there is no picker's tree, or it is a search tree over exactly the segments \<open>S\<close> for
  a comparison that tells all segments apart.
\<close>

definition pp_tree :: "space_seg set \<Rightarrow> space_seg avl_tree option \<Rightarrow> bool" where
  "pp_tree S ppo \<longleftrightarrow>
     (case ppo of
        None \<Rightarrow> True
      | Some pp \<Rightarrow> avl_wf pp \<and> avl_order (avl_compar pp) \<and> (\<forall>x y. avl_compar pp x y = 0 \<longrightarrow> x = y) \<and>
          avl_order.ordered (avl_compar pp) (avl_list pp) \<and> set (avl_list pp) = S)"

lemma pp_tree_None [simp]: "pp_tree S None"
  by (simp add: pp_tree_def)

lemma pp_tree_Some: "pp_tree S (Some pp) \<longleftrightarrow> avl_wf pp \<and> avl_order (avl_compar pp) \<and>
    (\<forall>x y. avl_compar pp x y = 0 \<longrightarrow> x = y) \<and> avl_order.ordered (avl_compar pp) (avl_list pp) \<and> set (avl_list pp) = S"
  by (simp add: pp_tree_def)

lemma pp_tree_without:
  assumes "pp_tree S (Some pp)" "avl_list pp = xs @ old # ys" "avl_wf pp'" "avl_list pp' = xs @ ys" "avl_compar pp' = avl_compar pp"
  shows "pp_tree (S - {old}) (Some pp')"
proof -
  have o: "avl_order (avl_compar pp)" using assms(1) by (simp add: pp_tree_Some)
  have "avl_order.ordered (avl_compar pp) (xs @ ys)"
    using assms(1,2) by (auto simp: pp_tree_Some avl_order.ordered_append [OF o] avl_order.ordered_Cons [OF o])
  moreover have "distinct (xs @ old # ys)" using assms(1,2) by (simp add: pp_tree_Some avl_wf_def)
  ultimately show ?thesis using assms by (auto simp: pp_tree_Some)
qed

lemma pp_remove_ok:
  assumes "pp_tree S (sm_pp_root sm)" "ss \<in> S"
  shows "\<exists>pp. pp_remove ss sm = Some (sm\<lparr>sm_pp_root := pp\<rparr>) \<and> pp_tree (S - {ss}) pp \<and>
    map_option avl_compar pp = map_option avl_compar (sm_pp_root sm)"
proof (cases "sm_pp_root sm")
  case None
  then show ?thesis by (intro exI [of _ None]) (simp add: pp_remove_def)
next
  case (Some pp)
  then obtain xs ys where l: "avl_list pp = xs @ ss # ys" using assms by (auto simp: pp_tree_Some dest: split_list)
  then obtain pp' where "avl_remove pp ss = Some pp'" "avl_wf pp'" "avl_list pp' = xs @ ys" "avl_compar pp' = avl_compar pp"
    using avl_remove_ok [of pp xs ss ys] assms(1) Some by (auto simp: pp_tree_Some)
  then show ?thesis using pp_tree_without [OF assms(1) [unfolded Some] l] Some by (auto simp: pp_remove_def)
qed

text \<open>Changing a segment in place and then unlinking it is unlinking the old segment.\<close>

lemma pp_store_remove_ok:
  assumes "pp_tree S (sm_pp_root sm)" "old \<in> S" "new \<notin> S"
  shows "\<exists>pp. pp_remove new (seg_store old new sm) = Some (sm\<lparr>sm_root := avl_store old new (sm_root sm), sm_pp_root := pp\<rparr>) \<and>
    pp_tree (S - {old}) pp \<and> map_option avl_compar pp = map_option avl_compar (sm_pp_root sm)"
proof (cases "sm_pp_root sm")
  case None
  then show ?thesis by (intro exI [of _ None]) (simp add: pp_remove_def seg_store_def)
next
  case (Some pp)
  then obtain xs ys where l: "avl_list pp = xs @ old # ys" using assms by (auto simp: pp_tree_Some dest: split_list)
  then have n: "new \<notin> set xs" "new \<notin> set ys" using assms Some by (auto simp: pp_tree_Some)
  let ?p = "avl_store old new pp"
  have wf: "avl_wf pp" using assms(1) Some by (simp add: pp_tree_Some)
  then have "avl_wf ?p" "avl_list ?p = xs @ new # ys"
    using avl_store_wf [OF wf l n] avl_store_list [OF _ l] by (simp_all add: avl_wf_def)
  then obtain pp' where "avl_remove ?p new = Some pp'" "avl_wf pp'" "avl_list pp' = xs @ ys" "avl_compar pp' = avl_compar pp"
    using avl_remove_ok [of ?p xs new ys] by auto
  then show ?thesis using pp_tree_without [OF assms(1) [unfolded Some] l] Some by (auto simp: pp_remove_def seg_store_def)
qed

lemma pp_store_absent:
  assumes "pp_tree S ppo" "old \<notin> S"
  shows "pp_tree S (map_option (avl_store old new) ppo)"
proof (cases ppo)
  case (Some pp)
  then have "avl_list (avl_store old new pp) = avl_list pp" "avl_wf pp"
    using assms avl_store_absent [of old pp new] by (auto simp: pp_tree_Some)
  moreover from this have "avl_wf (avl_store old new pp)" by (auto simp: avl_wf_def) (simp_all add: avl_store_def)
  ultimately show ?thesis using assms(1) Some by (simp add: pp_tree_Some)
qed simp

lemma pp_add_ok:
  assumes "pp_tree S (sm_pp_root sm)" "ss \<notin> S"
  shows "\<exists>pp. pp_add ss sm = Some (sm\<lparr>sm_pp_root := pp\<rparr>) \<and> pp_tree (insert ss S) pp \<and>
    map_option avl_compar pp = map_option avl_compar (sm_pp_root sm)"
proof (cases "sm_pp_root sm")
  case None
  then show ?thesis by (intro exI [of _ None]) (simp add: pp_add_def)
next
  case (Some pp)
  then have p: "avl_wf pp" "avl_order (avl_compar pp)" "avl_order.ordered (avl_compar pp) (avl_list pp)"
    "\<forall>x\<in>set (avl_list pp). avl_compar pp ss x \<noteq> 0" using assms by (auto simp: pp_tree_Some)
  then obtain pp' xs ys where "avl_add pp ss = Some pp'" "avl_wf pp'" "avl_compar pp' = avl_compar pp"
    "avl_list pp = xs @ ys" "avl_list pp' = xs @ ss # ys" "avl_order.ordered (avl_compar pp) (avl_list pp')"
    using avl_order.avl_add_ok [OF p(2,1,3) refl p(4)] by blast
  then show ?thesis using assms(1) Some by (auto simp: pp_add_def pp_tree_Some)
qed

section \<open>Lists of separate segments\<close>

abbreviation ustart :: "space_seg \<Rightarrow> nat" where
  "ustart s \<equiv> unat (ss_start s)"

abbreviation uend :: "space_seg \<Rightarrow> nat" where
  "uend s \<equiv> unat (ss_end s)"

definition separate :: "space_seg list \<Rightarrow> bool" where
  "separate L \<longleftrightarrow> (\<forall>s\<in>set L. ustart s < uend s) \<and> sorted_wrt (\<lambda>a b. uend a < ustart b) L"

definition seg_offsets :: "space_seg list \<Rightarrow> nat set" where
  "seg_offsets L = (\<Union>s\<in>set L. {ustart s..<uend s})"

definition seg_total :: "space_seg list \<Rightarrow> nat" where
  "seg_total L = sum_list (map (\<lambda>s. uend s - ustart s) L)"

lemma seg_simps [simp]: "ss_start (seg a b) = a" "ss_end (seg a b) = b"
  by (simp_all add: seg_def)

lemma separate_Nil [simp]: "separate []"
  by (simp add: separate_def)

lemma separate_append:
  "separate (L @ M) \<longleftrightarrow> separate L \<and> separate M \<and> (\<forall>a\<in>set L. \<forall>b\<in>set M. uend a < ustart b)"
  by (auto simp: separate_def sorted_wrt_append)

lemma separate_Cons: "separate (s # L) \<longleftrightarrow> ustart s < uend s \<and> separate L \<and> (\<forall>b\<in>set L. uend s < ustart b)"
  by (auto simp: separate_def)

lemma seg_offsets_simps [simp]:
  "seg_offsets [] = {}" "seg_offsets (s # L) = {ustart s..<uend s} \<union> seg_offsets L"
  "seg_offsets (L @ M) = seg_offsets L \<union> seg_offsets M"
  by (auto simp: seg_offsets_def)

lemma seg_total_simps [simp]: "seg_total [] = 0" "seg_total (s # L) = uend s - ustart s + seg_total L" "seg_total (L @ M) = seg_total L + seg_total M"
  by (simp_all add: seg_total_def)

lemma finite_seg_offsets [simp]: "finite (seg_offsets L)"
  by (simp add: seg_offsets_def)

lemma separate_disjoint: "separate (s # L) \<Longrightarrow> {ustart s..<uend s} \<inter> seg_offsets L = {}"
  by (force simp: separate_Cons seg_offsets_def)

lemma card_seg_offsets: "separate L \<Longrightarrow> card (seg_offsets L) = seg_total L"
proof (induction L)
  case (Cons s L)
  then have "card (seg_offsets (s # L)) = card {ustart s..<uend s} + card (seg_offsets L)"
    unfolding seg_offsets_simps by (intro card_Un_disjoint) (auto simp: separate_disjoint)
  then show ?case using Cons by (simp add: separate_Cons)
qed simp

lemma separate_ordered: "separate L \<Longrightarrow> sgs.ordered L"
proof (induction L)
  case Nil
  then show ?case by (simp add: sgs.ordered_def)
next
  case (Cons s L)
  then show ?case by (force simp: separate_Cons sgs.ordered_Cons seg_compare_less word_less_nat_alt word_le_nat_alt)
qed

text \<open>
  The left and the right neighbour of a new range \<open>[u, v)\<close>: what remains of the segments before (after)
  it when the one that touches it is taken away, and where the merged segment starts (ends).
\<close>

definition touch_before :: "space_seg list \<Rightarrow> nat \<Rightarrow> space_seg option" where
  "touch_before L u = (case last_opt L of None \<Rightarrow> None | Some s \<Rightarrow> if uend s = u then Some s else None)"

definition touch_after :: "space_seg list \<Rightarrow> nat \<Rightarrow> space_seg option" where
  "touch_after L v = (case first_opt L of None \<Rightarrow> None | Some s \<Rightarrow> if ustart s = v then Some s else None)"

lemma touch_beforeE:
  assumes "separate L" "\<forall>s\<in>set L. uend s \<le> u"
  obtains (none) "touch_before L u = None" "\<forall>s\<in>set L. uend s < u"
  | (some) M b where "touch_before L u = Some b" "L = M @ [b]" "uend b = u" "ustart b < u" "\<forall>s\<in>set M. uend s < ustart b"
proof (cases L rule: rev_cases)
  case Nil
  then show thesis by (intro none) (simp_all add: touch_before_def)
next
  case (snoc M b)
  then have b: "separate M" "ustart b < uend b" "\<forall>s\<in>set M. uend s < ustart b"
    using assms(1) by (auto simp: separate_append separate_Cons)
  show thesis
  proof (cases "uend b = u")
    case True
    then show thesis using snoc b by (intro some [of b M]) (simp_all add: touch_before_def)
  next
    case False
    then have "uend b < u" using assms(2) snoc by fastforce
    then show thesis using snoc b False by (intro none) (auto simp: touch_before_def intro: less_trans)
  qed
qed

lemma touch_afterE:
  assumes "separate L" "\<forall>s\<in>set L. v \<le> ustart s"
  obtains (none) "touch_after L v = None" "\<forall>s\<in>set L. v < ustart s"
  | (some) M a where "touch_after L v = Some a" "L = a # M" "ustart a = v" "v < uend a" "\<forall>s\<in>set M. uend a < ustart s"
proof (cases L)
  case Nil
  then show thesis by (intro none) (simp_all add: touch_after_def)
next
  case (Cons a M)
  then have a: "ustart a < uend a" "\<forall>s\<in>set M. uend a < ustart s"
    using assms(1) by (auto simp: separate_Cons)
  show thesis
  proof (cases "ustart a = v")
    case True
    then show thesis using Cons a by (intro some [of a M]) (simp_all add: touch_after_def)
  next
    case False
    then have "v < ustart a" using assms(2) Cons by fastforce
    then show thesis using Cons a False by (intro none) (auto simp: touch_after_def intro: less_trans)
  qed
qed

section \<open>Well-formed maps\<close>

abbreviation sm_segs :: "'o space_map \<Rightarrow> space_seg list" where
  "sm_segs sm \<equiv> avl_list (sm_root sm)"

definition sm_offsets :: "'o space_map \<Rightarrow> nat set" where
  "sm_offsets sm = seg_offsets (sm_segs sm)"

definition sm_range :: "'o space_map \<Rightarrow> nat set" where
  "sm_range sm = {unat (sm_start sm)..<unat (sm_start sm) + unat (sm_size sm)}"

definition aligned :: "'o space_map \<Rightarrow> nat \<Rightarrow> bool" where
  "aligned sm n \<longleftrightarrow> 2 ^ sm_shift sm dvd n"

definition sm_wf :: "'o space_map \<Rightarrow> bool" where
  "sm_wf sm \<longleftrightarrow>
     avl_wf (sm_root sm) \<and> avl_compar (sm_root sm) = space_map_seg_compare \<and>
     unat (sm_start sm) + unat (sm_size sm) < 2 ^ 64 \<and> sm_shift sm < 64 \<and>
     separate (sm_segs sm) \<and> sm_offsets sm \<subseteq> sm_range sm \<and>
     (\<forall>s\<in>set (sm_segs sm). aligned sm (ustart s) \<and> aligned sm (uend s)) \<and>
     unat (sm_space sm) = seg_total (sm_segs sm) \<and> pp_tree (set (sm_segs sm)) (sm_pp_root sm)"

text \<open>The parameters of a map, which no operation on its contents changes.\<close>

definition same_frame :: "'o space_map \<Rightarrow> 'o space_map \<Rightarrow> bool" where
  "same_frame sm sm' \<longleftrightarrow> sm_start sm' = sm_start sm \<and> sm_size sm' = sm_size sm \<and> sm_shift sm' = sm_shift sm \<and>
     sm_loaded sm' = sm_loaded sm \<and> sm_loading sm' = sm_loading sm \<and> sm_ops sm' = sm_ops sm \<and> sm_ppd sm' = sm_ppd sm \<and>
     map_option avl_compar (sm_pp_root sm') = map_option avl_compar (sm_pp_root sm)"

lemma sm_wf_card: "sm_wf sm \<Longrightarrow> unat (sm_space sm) = card (sm_offsets sm)"
  by (simp add: sm_wf_def sm_offsets_def card_seg_offsets)

section \<open>Adding a range\<close>

lemma separate_wf_facts:
  assumes "sm_wf sm" "sm_segs sm = xs @ ys"
  shows "separate xs" "separate ys" "avl_wf (sm_root sm)" "distinct (xs @ ys)"
    "avl_compar (sm_root sm) = space_map_seg_compare" "pp_tree (set (xs @ ys)) (sm_pp_root sm)"
  using assms by (auto simp: sm_wf_def separate_append avl_wf_def)

lemma separate_notin: "separate (xs @ s # ys) \<Longrightarrow> s \<notin> set xs \<and> s \<notin> set ys"
  by (fastforce simp: separate_append separate_Cons)

text \<open>
  What linking the range \<open>[u, v)\<close> between \<open>xs\<close> and \<open>ys\<close> achieves: the segment \<open>ss\<close> that holds it
  stands between separate segments, and covers the range and the neighbours that touched it.
\<close>

definition linked :: "space_seg list \<Rightarrow> space_seg list \<Rightarrow> nat \<Rightarrow> nat \<Rightarrow> space_seg list \<Rightarrow> space_seg \<Rightarrow> space_seg list \<Rightarrow> bool" where
  "linked xs ys u v xs0 ss ys0 \<longleftrightarrow>
     separate (xs0 @ ss # ys0) \<and> seg_offsets (xs0 @ ss # ys0) = seg_offsets (xs @ ys) \<union> {u..<v} \<and>
     seg_total (xs0 @ ss # ys0) = seg_total (xs @ ys) + (v - u) \<and> set (xs0 @ ys0) \<subseteq> set (xs @ ys) \<and>
     ustart ss \<in> insert u (ustart ` set (xs @ ys)) \<and> uend ss \<in> insert v (uend ` set (xs @ ys))"

lemma seg_start_changed: "s\<lparr>ss_start := v\<rparr> = s \<longleftrightarrow> ss_start s = v"
  by (cases s) auto

lemma seg_end_changed: "s\<lparr>ss_end := v\<rparr> = s \<longleftrightarrow> ss_end s = v"
  by (cases s) auto

lemma root_store_ok:
  assumes "avl_wf t" "avl_list t = us @ old # vs" "new \<notin> set us" "new \<notin> set vs"
  shows "avl_wf (avl_store old new t)" "avl_list (avl_store old new t) = us @ new # vs"
  using avl_store_wf [OF assms] avl_store_list [OF _ assms(2)] assms(1) by (simp_all add: avl_wf_def)

lemma add_link_ok:
  assumes "sm_wf sm" "sm_segs sm = xs @ ys" "index_gap (avl_root (sm_root sm)) w xs ys"
    "\<forall>s\<in>set xs. uend s \<le> unat start" "\<forall>s\<in>set ys. unat end' \<le> ustart s" "unat start < unat end'"
  shows "\<exists>ss sm1 xs0 ys0. add_link sm start end' w (touch_before xs (unat start)) (touch_after ys (unat end')) = Some (ss, sm1) \<and>
    avl_wf (sm_root sm1) \<and> avl_compar (sm_root sm1) = space_map_seg_compare \<and> sm_segs sm1 = xs0 @ ss # ys0 \<and>
    linked xs ys (unat start) (unat end') xs0 ss ys0 \<and> pp_tree (set (xs0 @ ys0)) (sm_pp_root sm1) \<and>
    same_frame sm sm1 \<and> sm_space sm1 = sm_space sm"
proof -
  note f = separate_wf_facts [OF assms(1,2)]
  have sep: "\<forall>a\<in>set xs. \<forall>b\<in>set ys. uend a < ustart b" using assms(4-6) by fastforce
  show ?thesis
    using f(1) assms(4)
  proof (cases rule: touch_beforeE)
    case b: none
    show ?thesis
      using f(2) assms(5)
    proof (cases rule: touch_afterE)
      case a: none
      let ?ss = "seg start end'"
      have l: "linked xs ys (unat start) (unat end') xs ?ss ys"
        using a b f(1,2) assms(6) sep by (auto simp: linked_def separate_append separate_Cons)
      then have "?ss \<notin> set (sm_segs sm)" using separate_notin [of xs ?ss ys] assms(2) by (auto simp: linked_def)
      then obtain t where P: "avl_insert (sm_root sm) ?ss w = Some t" "avl_wf t" "avl_list t = xs @ ?ss # ys" "avl_compar t = space_map_seg_compare"
        using avl_insert_gap [OF f(3) assms(3)] f(5) by auto
      show ?thesis
        by (rule exI [of _ ?ss], rule exI [of _ "sm\<lparr>sm_root := t\<rparr>"],
            rule exI [of _ xs], rule exI [of _ ys])
          (use P a b l f(6) in \<open>simp add: Let_def add_link_def same_frame_def\<close>)
    next
      case a: (some ys0 s)
      let ?ss = "s\<lparr>ss_start := start\<rparr>"
      have l: "linked xs ys (unat start) (unat end') xs ?ss ys0"
        using a b f(1,2) assms(6) sep by (fastforce simp: linked_def separate_append separate_Cons)
      have "?ss \<noteq> s" using a(3) assms(6) seg_start_changed [of start s] by auto
      then have n: "?ss \<notin> set (sm_segs sm)" using separate_notin [of xs ?ss ys0] l assms(2) a(2) by (auto simp: linked_def)
      have d: "set (xs @ ys) - {s} = set (xs @ ys0)" using f(4) a(2) by auto
      obtain pp where P: "pp_remove ?ss (seg_store s ?ss sm) = Some (sm\<lparr>sm_root := avl_store s ?ss (sm_root sm), sm_pp_root := pp\<rparr>)"
        "pp_tree (set (xs @ ys0)) pp" "map_option avl_compar pp = map_option avl_compar (sm_pp_root sm)"
        using pp_store_remove_ok [OF f(6), of s ?ss] n assms(2) a(2) d by auto
      have W: "avl_wf (avl_store s ?ss (sm_root sm))" "avl_list (avl_store s ?ss (sm_root sm)) = xs @ ?ss # ys0"
        using root_store_ok [OF f(3), of xs s ys0 ?ss] n assms(2) a(2) by auto
      show ?thesis
        by (rule exI [of _ ?ss], rule exI [of _ "sm\<lparr>sm_root := avl_store s ?ss (sm_root sm), sm_pp_root := pp\<rparr>"],
            rule exI [of _ xs], rule exI [of _ ys0])
          (use P W a(1) b(1) l f(5) in \<open>simp add: Let_def add_link_def same_frame_def\<close>)
    qed
  next
    case b: (some xs0 r)
    show ?thesis
      using f(2) assms(5)
    proof (cases rule: touch_afterE)
      case a: none
      let ?ss = "r\<lparr>ss_end := end'\<rparr>"
      have l: "linked xs ys (unat start) (unat end') xs0 ?ss ys"
        using a b f(1,2) assms(6) sep by (fastforce simp: linked_def separate_append separate_Cons)
      have "?ss \<noteq> r" using b(3) assms(6) seg_end_changed [of end' r] by auto
      then have n: "?ss \<notin> set (sm_segs sm)" using separate_notin [of xs0 ?ss ys] l assms(2) b(2) by (auto simp: linked_def)
      have d: "set (xs @ ys) - {r} = set (xs0 @ ys)" using f(4) b(2) by auto
      obtain pp where P: "pp_remove ?ss (seg_store r ?ss sm) = Some (sm\<lparr>sm_root := avl_store r ?ss (sm_root sm), sm_pp_root := pp\<rparr>)"
        "pp_tree (set (xs0 @ ys)) pp" "map_option avl_compar pp = map_option avl_compar (sm_pp_root sm)"
        using pp_store_remove_ok [OF f(6), of r ?ss] n assms(2) b(2) d by auto
      have W: "avl_wf (avl_store r ?ss (sm_root sm))" "avl_list (avl_store r ?ss (sm_root sm)) = xs0 @ ?ss # ys"
        using root_store_ok [OF f(3), of xs0 r ys ?ss] n assms(2) b(2) by auto
      show ?thesis
        by (rule exI [of _ ?ss], rule exI [of _ "sm\<lparr>sm_root := avl_store r ?ss (sm_root sm), sm_pp_root := pp\<rparr>"],
            rule exI [of _ xs0], rule exI [of _ ys])
          (use P W a(1) b(1) l f(5) in \<open>simp add: Let_def add_link_def same_frame_def\<close>)
    next
      case a: (some ys0 s)
      let ?ss = "s\<lparr>ss_start := ss_start r\<rparr>"
      have l: "linked xs ys (unat start) (unat end') xs0 ?ss ys0"
        using a b f(1,2) assms(6) sep by (fastforce simp: linked_def separate_append separate_Cons)
      have n: "?ss \<notin> set xs0" "?ss \<notin> set ys0" using separate_notin [of xs0 ?ss ys0] l by (auto simp: linked_def)
      have d: "set (xs @ ys) - {r} - {s} = set (xs0 @ ys0)" "r \<noteq> s" using f(4) a(2) b(2) by auto
      obtain t where t: "avl_remove (sm_root sm) r = Some t" "avl_wf t" "avl_list t = xs0 @ s # ys0" "avl_compar t = space_map_seg_compare"
        using avl_remove_ok [OF f(3), of xs0 r "s # ys0"] assms(2) a(2) b(2) f(5) by auto
      let ?sm = "sm\<lparr>sm_root := t\<rparr>"
      obtain p1 where p1: "pp_remove r ?sm = Some (?sm\<lparr>sm_pp_root := p1\<rparr>)" "pp_tree (set (xs @ ys) - {r}) p1"
        "map_option avl_compar p1 = map_option avl_compar (sm_pp_root sm)"
        using pp_remove_ok [of "set (xs @ ys)" ?sm r] f(6) b(2) by auto
      let ?sm1 = "?sm\<lparr>sm_pp_root := p1\<rparr>"
      obtain p2 where p2: "pp_remove s ?sm1 = Some (?sm1\<lparr>sm_pp_root := p2\<rparr>)" "pp_tree (set (xs0 @ ys0)) p2"
        "map_option avl_compar p2 = map_option avl_compar (sm_pp_root sm)"
        using pp_remove_ok [of "set (xs @ ys) - {r}" ?sm1 s] p1(2,3) a(2) d by auto
      have P: "pp_tree (set (xs0 @ ys0)) (map_option (avl_store s ?ss) p2)"
        using p2(2) d(1) by (intro pp_store_absent) auto
      have Q: "map_option avl_compar (map_option (avl_store s ?ss) p2) = map_option avl_compar (sm_pp_root sm)"
        using p2(3) by (simp add: option.map_comp comp_def)
      have W: "avl_wf (avl_store s ?ss t)" "avl_list (avl_store s ?ss t) = xs0 @ ?ss # ys0"
        using root_store_ok [OF t(2,3) n] by auto
      show ?thesis
        by (rule exI [of _ ?ss], rule exI [of _ "sm\<lparr>sm_root := avl_store s ?ss t, sm_pp_root := map_option (avl_store s ?ss) p2\<rparr>"],
            rule exI [of _ xs0], rule exI [of _ ys0])
          (use P Q W a(1) b(1) l t p1(1) p2(1) in \<open>simp add: Let_def add_link_def same_frame_def root_remove_def seg_store_def\<close>)
    qed
  qed
qed

definition sm_fits :: "'o space_map \<Rightarrow> u64 \<Rightarrow> u64 \<Rightarrow> bool" where
  "sm_fits sm start sz \<longleftrightarrow> sz \<noteq> 0 \<and> unat (sm_start sm) \<le> unat start \<and>
     unat start + unat sz \<le> unat (sm_start sm) + unat (sm_size sm) \<and> aligned sm (unat start) \<and> aligned sm (unat sz)"

abbreviation range_of :: "u64 \<Rightarrow> u64 \<Rightarrow> nat set" where
  "range_of start sz \<equiv> {unat start..<unat start + unat sz}"

lemma sm_fitsD:
  assumes "sm_wf sm" "sm_fits sm start sz"
  shows "unat (start + sz) = unat start + unat sz" "0 < unat sz" "unat start + unat sz < 2 ^ 64"
    "unat (sm_start sm + sm_size sm) = unat (sm_start sm) + unat (sm_size sm)"
    "P2PHASE start (push_bit (sm_shift sm) 1) = 0" "P2PHASE sz (push_bit (sm_shift sm) 1) = 0"
    "range_of start sz \<subseteq> sm_range sm"
  using assms by (auto simp: sm_fits_def sm_wf_def unat_plus P2PHASE_0_iff aligned_def unat_gt_0 sm_range_def)

lemma overlap_found:
  assumes "sm_wf sm" "s \<in> set (sm_segs sm)" "space_map_seg_compare (seg start end') s = 0" "unat start < unat end'"
  shows "ustart s < unat end'" "unat start < uend s" "ustart s < uend s" "{ustart s..<uend s} \<subseteq> sm_offsets sm"
proof -
  show s: "ustart s < uend s" "{ustart s..<uend s} \<subseteq> sm_offsets sm"
    using assms(1,2) by (auto simp: sm_wf_def separate_def sm_offsets_def seg_offsets_def)
  then show "ustart s < unat end'" "unat start < uend s"
    using assms(3,4) seg_compare_0 [of "seg start end'" s] by (simp_all add: word_less_nat_alt)
qed

lemma sm_find_ok:
  assumes "sm_wf sm" "unat start < unat end'"
  obtains (found) s where "avl_find (sm_root sm) (seg start end') = Inl s" "s \<in> set (sm_segs sm)"
      "ustart s < unat end'" "unat start < uend s"
  | (gap) w xs ys where "avl_find (sm_root sm) (seg start end') = Inr w" "sm_segs sm = xs @ ys"
      "index_gap (avl_root (sm_root sm)) w xs ys" "\<forall>s\<in>set xs. uend s \<le> unat start" "\<forall>s\<in>set ys. unat end' \<le> ustart s"
proof -
  have o: "sgs.ordered (sm_segs sm)" "avl_compar (sm_root sm) = space_map_seg_compare"
    using assms(1) by (simp_all add: sm_wf_def separate_ordered)
  then show thesis
  proof (cases rule: sgs.avl_find_ok [where v = "seg start end'"])
    case (found s)
    then show ?thesis using that(1) overlap_found [OF assms(1) found(2,3) assms(2)] by blast
  next
    case (gap w xs ys)
    then show ?thesis using that(2) [of w xs ys] by (auto simp: seg_compare_less word_le_nat_alt)
  qed
qed

lemma touch_before_word:
  "(case last_opt xs of None \<Rightarrow> None | Some s \<Rightarrow> if ss_end s = start then Some s else None) = touch_before xs (unat start)"
  by (simp add: touch_before_def word_unat_eq_iff split: option.splits)

lemma touch_after_word:
  "(case first_opt ys of None \<Rightarrow> None | Some s \<Rightarrow> if ss_start s = end' then Some s else None) = touch_after ys (unat end')"
  by (simp add: touch_after_def word_unat_eq_iff split: option.splits)

lemma sm_space_room:
  assumes "sm_wf sm" "sm_fits sm start sz" "range_of start sz \<inter> sm_offsets sm = {}"
  shows "unat (sm_space sm) + unat sz \<le> unat (sm_size sm)"
proof -
  have "card (sm_offsets sm \<union> range_of start sz) = card (sm_offsets sm) + card (range_of start sz)"
    using assms(3) by (intro card_Un_disjoint) (auto simp: sm_offsets_def)
  moreover have "card (sm_offsets sm \<union> range_of start sz) \<le> card (sm_range sm)"
    using assms(1) sm_fitsD(7) [OF assms(1,2)] by (intro card_mono) (auto simp: sm_wf_def sm_range_def)
  ultimately show ?thesis using sm_wf_card [OF assms(1)] by (simp add: sm_range_def)
qed

lemma sm_wf_linked:
  assumes "sm_wf sm" "sm_fits sm start sz" "sm_segs sm = xs @ ys" "linked xs ys (unat start) (unat start + unat sz) xs0 ss ys0"
    "avl_wf (sm_root sm')" "avl_compar (sm_root sm') = space_map_seg_compare" "sm_segs sm' = xs0 @ ss # ys0"
    "same_frame sm sm'" "unat (sm_space sm') = unat (sm_space sm) + unat sz" "pp_tree (set (xs0 @ ss # ys0)) (sm_pp_root sm')"
  shows "sm_wf sm' \<and> sm_offsets sm' = sm_offsets sm \<union> range_of start sz"
proof -
  have off: "sm_offsets sm' = sm_offsets sm \<union> range_of start sz"
    using assms(3,4,7) by (simp add: sm_offsets_def linked_def)
  have al: "aligned sm (unat start)" "aligned sm (unat start + unat sz)" "\<forall>s\<in>set (xs @ ys). aligned sm (ustart s) \<and> aligned sm (uend s)"
    using assms(1-3) by (auto simp: sm_fits_def sm_wf_def aligned_def)
  have "aligned sm (ustart s) \<and> aligned sm (uend s)" if "s \<in> set (xs0 @ ss # ys0)" for s
    using that al assms(4) by (auto simp: linked_def)
  then show ?thesis
    using assms(1) assms(4-10) off sm_fitsD(7) [OF assms(1,2)] assms(3)
    by (auto simp: sm_wf_def linked_def same_frame_def sm_range_def aligned_def)
qed

lemma space_map_add_ok:
  assumes "sm_wf sm" "sm_fits sm start sz" "range_of start sz \<inter> sm_offsets sm = {}"
  shows "\<exists>sm'. space_map_add zfs_recover sm start sz = Some sm' \<and> sm_wf sm' \<and> same_frame sm sm' \<and>
    sm_offsets sm' = sm_offsets sm \<union> range_of start sz"
proof -
  note d = sm_fitsD [OF assms(1,2)] and room = sm_space_room [OF assms]
  have se: "unat start < unat (start + sz)" using d(1,2) by simp
  have spc: "unat (sm_space sm + sz) = unat (sm_space sm) + unat sz"
    using room unsigned_less [of "sm_size sm", where 'a = nat] by (intro unat_plus) simp
  have req: "sz \<noteq> 0 \<and> sm_start sm \<le> start \<and> start + sz \<le> sm_start sm + sm_size sm \<and> sm_space sm + sz \<le> sm_size sm \<and>
      P2PHASE start (push_bit (sm_shift sm) 1) = 0 \<and> P2PHASE sz (push_bit (sm_shift sm) 1) = 0"
    using assms(2) d room spc by (simp add: word_le_nat_alt sm_fits_def)
  show ?thesis
    using assms(1) se
  proof (cases rule: sm_find_ok)
    case (found s)
    then have "max (ustart s) (unat start) \<in> range_of start sz \<inter> sm_offsets sm"
      using d(1,2) assms(1) by (auto simp: sm_offsets_def seg_offsets_def sm_wf_def separate_def intro!: bexI [of _ s])
    then show ?thesis using assms(3) by blast
  next
    case (gap w xs ys)
    obtain ss sm1 xs0 ys0 where l: "add_link sm start (start + sz) w (touch_before xs (unat start)) (touch_after ys (unat (start + sz))) = Some (ss, sm1)"
      "avl_wf (sm_root sm1)" "avl_compar (sm_root sm1) = space_map_seg_compare" "sm_segs sm1 = xs0 @ ss # ys0"
      "linked xs ys (unat start) (unat (start + sz)) xs0 ss ys0" "pp_tree (set (xs0 @ ys0)) (sm_pp_root sm1)"
      "same_frame sm sm1" "sm_space sm1 = sm_space sm"
      using add_link_ok [OF assms(1) gap(2-5) se] by blast
    have "ss \<notin> set (xs0 @ ys0)" using l(5) separate_notin [of xs0 ss ys0] by (auto simp: linked_def)
    then obtain pp where pp: "pp_add ss sm1 = Some (sm1\<lparr>sm_pp_root := pp\<rparr>)" "pp_tree (set (xs0 @ ss # ys0)) pp"
      "map_option avl_compar pp = map_option avl_compar (sm_pp_root sm1)"
      using pp_add_ok [OF l(6), of ss] by auto
    let ?sm' = "sm1\<lparr>sm_pp_root := pp, sm_space := sm_space sm + sz\<rparr>"
    have "avl_nearest (sm_root sm) w AVL_BEFORE = Some (last_opt xs)" "avl_nearest (sm_root sm) w AVL_AFTER = Some (first_opt ys)"
      using avl_nearest_ok [OF _ gap(3)] assms(1) by (simp_all add: sm_wf_def avl_wf_def)
    then have "space_map_add zfs_recover sm start sz = Some ?sm'"
      using req gap(1) l(1,8) pp(1) by (simp add: space_map_add_def Let_def touch_before_word touch_after_word)
    moreover have fr: "same_frame sm ?sm'" using l(7) pp(3) by (simp add: same_frame_def)
    moreover have "sm_wf ?sm' \<and> sm_offsets ?sm' = sm_offsets sm \<union> range_of start sz"
      using l(5) [unfolded d(1)] l(2-4) fr spc pp(2)
      by (intro sm_wf_linked [OF assms(1,2) gap(2), of xs0 ss ys0 ?sm']) simp_all
    ultimately show ?thesis by blast
  qed
qed

section \<open>Looking up and removing a range\<close>

lemma separate_pairs:
  assumes "separate L" "a \<in> set L" "b \<in> set L" "a \<noteq> b"
  shows "uend a < ustart b \<or> uend b < ustart a"
proof -
  obtain xs ys where L: "L = xs @ a # ys" using assms(2) by (auto dest: split_list)
  then show ?thesis using assms(1,3,4) by (auto simp: separate_append separate_Cons)
qed

lemma separate_end_free:
  assumes "separate L" "s \<in> set L"
  shows "uend s \<notin> seg_offsets L" "0 < ustart s \<Longrightarrow> ustart s - 1 \<notin> seg_offsets L"
proof -
  have p: "uend s < ustart a \<or> uend a < ustart s" if "a \<in> set L" "a \<noteq> s" for a
    using separate_pairs [OF assms(1,2) that(1)] that(2) by blast
  show "uend s \<notin> seg_offsets L"
  proof
    assume "uend s \<in> seg_offsets L"
    then obtain a where "a \<in> set L" "ustart a \<le> uend s" "uend s < uend a" by (auto simp: seg_offsets_def)
    then show False using p [of a] assms(1,2) by (cases "a = s") (auto simp: separate_def)
  qed
  show "ustart s - 1 \<notin> seg_offsets L" if "0 < ustart s"
  proof
    assume "ustart s - 1 \<in> seg_offsets L"
    then obtain a where a: "a \<in> set L" "ustart a \<le> ustart s - 1" "ustart s - 1 < uend a" by (auto simp: seg_offsets_def)
    moreover have "ustart s < uend s" using assms by (simp add: separate_def)
    ultimately show False using p [of a] that by (cases "a = s") auto
  qed
qed

lemma range_in_segment:
  assumes "separate L" "s \<in> set L" "{u..<v} \<subseteq> seg_offsets L" "ustart s < v" "u < uend s"
  shows "ustart s \<le> u" "v \<le> uend s"
proof -
  show "ustart s \<le> u"
  proof (rule ccontr)
    assume "\<not> ustart s \<le> u"
    then have "ustart s - 1 \<in> {u..<v}" "0 < ustart s" using assms(4) by auto
    then show False using separate_end_free(2) [OF assms(1,2)] assms(3) by blast
  qed
  show "v \<le> uend s"
  proof (rule ccontr)
    assume "\<not> v \<le> uend s"
    then have "uend s \<in> {u..<v}" using assms(5) by auto
    then show False using separate_end_free(1) [OF assms(1,2)] assms(3) by blast
  qed
qed

lemma gap_offset:
  assumes "\<forall>s\<in>set xs. uend s \<le> u" "\<forall>s\<in>set ys. v \<le> ustart s" "u < v"
  shows "u \<notin> seg_offsets (xs @ ys)"
  using assms by (force simp: seg_offsets_def)

lemma space_map_contains_ok:
  assumes "sm_wf sm" "sm_fits sm start sz"
  shows "space_map_contains sm start sz = Some (range_of start sz \<subseteq> sm_offsets sm)"
proof -
  note d = sm_fitsD [OF assms]
  have sep: "separate (sm_segs sm)" using assms(1) by (simp add: sm_wf_def)
  have se: "unat start < unat (start + sz)" using d(1,2) by simp
  have "(case avl_find (sm_root sm) (seg start (start + sz)) of Inl ss \<Rightarrow> ss_start ss \<le> start \<and> start + sz \<le> ss_end ss | Inr w \<Rightarrow> False)
      \<longleftrightarrow> range_of start sz \<subseteq> sm_offsets sm"
    using assms(1) se
  proof (cases rule: sm_find_ok)
    case (found s)
    have "ustart s \<le> unat start \<and> unat (start + sz) \<le> uend s \<longleftrightarrow> range_of start sz \<subseteq> sm_offsets sm"
    proof
      assume "ustart s \<le> unat start \<and> unat (start + sz) \<le> uend s"
      then have "range_of start sz \<subseteq> {ustart s..<uend s}" using d(1) by auto
      then show "range_of start sz \<subseteq> sm_offsets sm" using found(2) by (auto simp: sm_offsets_def seg_offsets_def)
    next
      assume "range_of start sz \<subseteq> sm_offsets sm"
      then show "ustart s \<le> unat start \<and> unat (start + sz) \<le> uend s"
        using range_in_segment [OF sep found(2) _ found(3,4)] d(1) by (simp add: sm_offsets_def)
    qed
    then show ?thesis using found(1) by (simp add: word_le_nat_alt)
  next
    case (gap w xs ys)
    have "unat start \<in> range_of start sz" using d(2) by simp
    moreover have "unat start \<notin> sm_offsets sm" unfolding sm_offsets_def gap(2) by (rule gap_offset [OF gap(4,5) se])
    ultimately have "\<not> range_of start sz \<subseteq> sm_offsets sm" by blast
    then show ?thesis using gap(1) by simp
  qed
  then show ?thesis using d(5,6) assms(2) by (simp add: space_map_contains_def Let_def sm_fits_def)
qed

text \<open>What is left of a segment when the range \<open>[u, v)\<close> inside it is taken out.\<close>

definition pieces :: "space_seg \<Rightarrow> u64 \<Rightarrow> u64 \<Rightarrow> space_seg list" where
  "pieces s start end' =
     (if ss_start s \<noteq> start then [s\<lparr>ss_end := start\<rparr>] else []) @ (if ss_end s \<noteq> end' then [seg end' (ss_end s)] else [])"

lemma pieces_ok:
  assumes "separate (xs @ s # ys)" "ustart s \<le> unat start" "unat start < unat end'" "unat end' \<le> uend s"
  shows "separate (xs @ pieces s start end' @ ys)"
    "seg_offsets (xs @ pieces s start end' @ ys) = seg_offsets (xs @ s # ys) - {unat start..<unat end'}"
    "seg_total (xs @ pieces s start end' @ ys) + (unat end' - unat start) = seg_total (xs @ s # ys)"
    "\<forall>p\<in>set (pieces s start end'). ustart p \<in> {ustart s, unat end'} \<and> uend p \<in> {uend s, unat start}"
proof -
  have sx: "separate xs" "separate ys" "ustart s < uend s" "\<forall>a\<in>set xs. uend a < ustart s" "\<forall>b\<in>set ys. uend s < ustart b"
    "\<forall>a\<in>set xs. \<forall>b\<in>set ys. uend a < ustart b"
    using assms(1) by (auto simp: separate_append separate_Cons)
  show "separate (xs @ pieces s start end' @ ys)"
    using sx assms(2-4) by (auto simp: pieces_def separate_append separate_Cons word_unat_eq_iff intro: less_le_trans le_less_trans)
  have "{unat start..<unat end'} \<inter> seg_offsets xs = {}" "{unat start..<unat end'} \<inter> seg_offsets ys = {}"
    using sx(4,5) assms(2,4) by (force simp: seg_offsets_def)+
  moreover have "seg_offsets (pieces s start end') = {ustart s..<uend s} - {unat start..<unat end'}"
    using assms(2-4) by (auto simp: pieces_def word_unat_eq_iff)
  ultimately show "seg_offsets (xs @ pieces s start end' @ ys) = seg_offsets (xs @ s # ys) - {unat start..<unat end'}"
    by (simp only: seg_offsets_simps) blast
  show "seg_total (xs @ pieces s start end' @ ys) + (unat end' - unat start) = seg_total (xs @ s # ys)"
    using assms(2-4) by (auto simp: pieces_def word_unat_eq_iff)
  show "\<forall>p\<in>set (pieces s start end'). ustart p \<in> {ustart s, unat end'} \<and> uend p \<in> {uend s, unat start}"
    by (auto simp: pieces_def word_unat_eq_iff)
qed

lemma remove_link_ok:
  assumes "avl_wf (sm_root sm)" "avl_compar (sm_root sm) = space_map_seg_compare" "sm_segs sm = xs @ s # ys"
    "separate (xs @ s # ys)" "ustart s \<le> unat start" "unat start < unat end'" "unat end' \<le> uend s"
    "pp_tree (set (xs @ ys)) (sm_pp_root sm)"
  shows "\<exists>sm'. remove_link sm s start end' = Some sm' \<and> avl_wf (sm_root sm') \<and>
    avl_compar (sm_root sm') = space_map_seg_compare \<and> sm_segs sm' = xs @ pieces s start end' @ ys \<and>
    pp_tree (set (xs @ pieces s start end' @ ys)) (sm_pp_root sm') \<and> same_frame sm sm' \<and> sm_space sm' = sm_space sm"
proof -
  note sep = pieces_ok(1) [OF assms(4-7)]
  have sn: "s \<notin> set (xs @ ys)" using separate_notin [OF assms(4)] by simp
  have store: "avl_wf (sm_root (seg_store s s' sm))" "sm_segs (seg_store s s' sm) = xs @ s' # ys"
      "pp_tree (set (xs @ ys)) (sm_pp_root (seg_store s s' sm))" "avl_compar (sm_root (seg_store s s' sm)) = space_map_seg_compare"
      "same_frame sm (seg_store s s' sm)" "sm_space (seg_store s s' sm) = sm_space sm"
    if "s' \<notin> set (xs @ ys)" for s'
    using root_store_ok [OF assms(1,3), of s'] pp_store_absent [OF assms(8) sn] that assms(2)
    by (auto simp: seg_store_def same_frame_def option.map_comp comp_def)
  consider (both) "ss_start s \<noteq> start" "ss_end s \<noteq> end'" | (left) "ss_start s \<noteq> start" "ss_end s = end'"
    | (right) "ss_start s = start" "ss_end s \<noteq> end'" | (all) "ss_start s = start" "ss_end s = end'" by blast
  then show ?thesis
  proof cases
    case both
    let ?a = "s\<lparr>ss_end := start\<rparr>" and ?b = "seg end' (ss_end s)" and ?sm = "seg_store s (s\<lparr>ss_end := start\<rparr>) sm"
    have pc: "pieces s start end' = [?a, ?b]" using both by (simp add: pieces_def)
    have n: "?a \<notin> set (xs @ ys)" "?b \<notin> set (xs @ ys)" "?b \<noteq> ?a"
      using separate_notin [of xs ?a "?b # ys"] separate_notin [of "xs @ [?a]" ?b ys] sep pc by auto
    note st = store [OF n(1)]
    obtain t where t: "avl_insert_here (sm_root ?sm) ?b ?a AVL_AFTER = Some t" "avl_wf t" "avl_list t = xs @ ?a # ?b # ys"
      "avl_compar t = space_map_seg_compare"
      using avl_insert_here_ok [OF st(1,2), of ?b True] n st(2,4) by auto
    obtain p1 where p1: "pp_add ?b (?sm\<lparr>sm_root := t\<rparr>) = Some (?sm\<lparr>sm_root := t, sm_pp_root := p1\<rparr>)"
      "pp_tree (insert ?b (set (xs @ ys))) p1" "map_option avl_compar p1 = map_option avl_compar (sm_pp_root ?sm)"
      using pp_add_ok [of "set (xs @ ys)" "?sm\<lparr>sm_root := t\<rparr>" ?b] st(3) n(2) by auto
    obtain p2 where "pp_add ?a (?sm\<lparr>sm_root := t, sm_pp_root := p1\<rparr>) = Some (?sm\<lparr>sm_root := t, sm_pp_root := p2\<rparr>)"
      "pp_tree (insert ?a (insert ?b (set (xs @ ys)))) p2" "map_option avl_compar p2 = map_option avl_compar p1"
      using pp_add_ok [of "insert ?b (set (xs @ ys))" "?sm\<lparr>sm_root := t, sm_pp_root := p1\<rparr>" ?a] p1(2) n(1,3) by auto
    moreover have "insert ?a (insert ?b (set (xs @ ys))) = set (xs @ [?a, ?b] @ ys)" by auto
    ultimately show ?thesis using both pc t p1(1,3) st(5,6)
      by (simp add: remove_link_def Let_def same_frame_def)
  next
    case left
    let ?a = "s\<lparr>ss_end := start\<rparr>"
    have pc: "pieces s start end' = [?a]" using left by (simp add: pieces_def)
    have n: "?a \<notin> set (xs @ ys)" using separate_notin [of xs ?a ys] sep pc by auto
    note st = store [OF n]
    obtain pp where "pp_add ?a (seg_store s ?a sm) = Some ((seg_store s ?a sm)\<lparr>sm_pp_root := pp\<rparr>)"
      "pp_tree (insert ?a (set (xs @ ys))) pp" "map_option avl_compar pp = map_option avl_compar (sm_pp_root (seg_store s ?a sm))"
      using pp_add_ok [OF st(3) n] by blast
    then show ?thesis using left pc st by (simp add: remove_link_def Let_def same_frame_def)
  next
    case right
    let ?a = "s\<lparr>ss_start := end'\<rparr>"
    have pc: "pieces s start end' = [?a]" using right by (simp add: pieces_def seg_def)
    have n: "?a \<notin> set (xs @ ys)" using separate_notin [of xs ?a ys] sep pc by auto
    note st = store [OF n]
    obtain pp where "pp_add ?a (seg_store s ?a sm) = Some ((seg_store s ?a sm)\<lparr>sm_pp_root := pp\<rparr>)"
      "pp_tree (insert ?a (set (xs @ ys))) pp" "map_option avl_compar pp = map_option avl_compar (sm_pp_root (seg_store s ?a sm))"
      using pp_add_ok [OF st(3) n] by blast
    then show ?thesis using right pc st by (simp add: remove_link_def Let_def same_frame_def)
  next
    case all
    have pc: "pieces s start end' = []" using all by (simp add: pieces_def)
    obtain t where "avl_remove (sm_root sm) s = Some t" "avl_wf t" "avl_list t = xs @ ys" "avl_compar t = space_map_seg_compare"
      using avl_remove_ok [OF assms(1,3)] assms(2) by auto
    then show ?thesis using all pc assms(8) by (simp add: remove_link_def root_remove_def same_frame_def)
  qed
qed

lemma space_map_remove_ok:
  assumes "sm_wf sm" "sm_fits sm start sz" "range_of start sz \<subseteq> sm_offsets sm"
  shows "\<exists>sm'. space_map_remove zfs_recover sm start sz = Some sm' \<and> sm_wf sm' \<and> same_frame sm sm' \<and>
    sm_offsets sm' = sm_offsets sm - range_of start sz"
proof -
  note d = sm_fitsD [OF assms(1,2)]
  have sep: "separate (sm_segs sm)" using assms(1) by (simp add: sm_wf_def)
  have se: "unat start < unat (start + sz)" using d(1,2) by simp
  show ?thesis
    using assms(1) se
  proof (cases rule: sm_find_ok)
    case (gap w xs ys)
    have "unat start \<in> range_of start sz" using d(2) by simp
    moreover have "unat start \<notin> sm_offsets sm" unfolding sm_offsets_def gap(2) by (rule gap_offset [OF gap(4,5) se])
    ultimately show ?thesis using assms(3) by blast
  next
    case (found s)
    have in_s: "ustart s \<le> unat start" "unat (start + sz) \<le> uend s"
      using range_in_segment [OF sep found(2) _ found(3,4)] assms(3) d(1) by (simp_all add: sm_offsets_def)
    obtain xs ys where xy: "sm_segs sm = xs @ s # ys" using found(2) by (auto dest: split_list)
    have sep': "separate (xs @ s # ys)" using sep xy by simp
    have sn: "set (sm_segs sm) - {s} = set (xs @ ys)" using separate_notin [OF sep'] xy by auto
    note f = separate_wf_facts [OF assms(1), of "sm_segs sm" "[]"]
    obtain pp where pp: "pp_remove s sm = Some (sm\<lparr>sm_pp_root := pp\<rparr>)" "pp_tree (set (xs @ ys)) pp"
      "map_option avl_compar pp = map_option avl_compar (sm_pp_root sm)"
      using pp_remove_ok [of "set (sm_segs sm)" sm s] f(6) found(2) sn by auto
    let ?sm = "sm\<lparr>sm_pp_root := pp\<rparr>"
    obtain sm1 where l: "remove_link ?sm s start (start + sz) = Some sm1" "avl_wf (sm_root sm1)"
      "avl_compar (sm_root sm1) = space_map_seg_compare" "sm_segs sm1 = xs @ pieces s start (start + sz) @ ys"
      "pp_tree (set (xs @ pieces s start (start + sz) @ ys)) (sm_pp_root sm1)" "same_frame ?sm sm1" "sm_space sm1 = sm_space sm"
      using remove_link_ok [of ?sm xs s ys start "start + sz"] f(3,5) xy sep' in_s se pp(2) by auto
    note pc = pieces_ok [OF sep' in_s(1) se in_s(2)]
    have tot: "seg_total (sm_segs sm1) + unat sz = seg_total (sm_segs sm)" using pc(3) l(4) xy d(1) by simp
    then have sz: "unat sz \<le> unat (sm_space sm)" using assms(1) by (simp add: sm_wf_def)
    then have spc: "unat (sm_space sm - sz) = unat (sm_space sm) - unat sz" by (simp add: unat_sub word_le_nat_alt)
    have "unat (sm_space sm) \<le> unat (sm_size sm)"
      using sm_wf_card [OF assms(1)] card_mono [of "sm_range sm" "sm_offsets sm"] assms(1) by (simp add: sm_wf_def sm_range_def)
    then have "sm_space sm - sz < sm_size sm" using spc sz d(2) by (simp add: word_less_nat_alt)
    then have eq: "space_map_remove zfs_recover sm start sz = Some (sm1\<lparr>sm_space := sm_space sm - sz\<rparr>)"
      using found(1) pp(1) l(1,7) d(5,6) in_s assms(2) by (simp add: space_map_remove_def sm_fits_def word_le_nat_alt)
    let ?sm' = "sm1\<lparr>sm_space := sm_space sm - sz\<rparr>"
    have fr: "same_frame sm ?sm'" using l(6) pp(3) by (simp add: same_frame_def)
    have off: "sm_offsets ?sm' = sm_offsets sm - range_of start sz"
      using pc(2) l(4) xy d(1) by (simp add: sm_offsets_def)
    have al: "aligned sm (unat start)" "aligned sm (unat (start + sz))" "\<forall>p\<in>set (xs @ s # ys). aligned sm (ustart p) \<and> aligned sm (uend p)"
      using assms(1,2) xy d(1) by (auto simp: sm_fits_def sm_wf_def aligned_def)
    have "aligned sm (ustart p) \<and> aligned sm (uend p)" if "p \<in> set (xs @ pieces s start (start + sz) @ ys)" for p
      using that al pc(4) by fastforce
    then have "sm_wf ?sm'" using assms(1) l pc(1) off fr spc tot
      by (auto simp: sm_wf_def same_frame_def sm_range_def aligned_def)
    then show ?thesis using eq fr off by blast
  qed
qed

end
