(* ===== verification/SpaceMapProps.thy ===== *)
theory SpaceMapProps
  imports SpaceMapLemmas
begin

text \<open>
  What the operations of the space maps promise: a well-formed map is a set of offsets, and adding,
  removing, looking up, walking and vacating are the set operations; misuse is caught; the log on disk
  reproduces the map; reference trees compute the offsets that are covered often enough.
\<close>

section \<open>Maps are sets\<close>

text \<open>
  C17. A space map is a set of offsets.  On a well-formed map and a range that fits it, adding a range that
  is free of the map is union, removing one that lies in the map is difference, and
  \<^verbatim>\<open>space_map_contains\<close> is inclusion; adding and removing keep the map well formed, that is
  the tree balanced and ordered, the segments separate, aligned and inside the map, the space count their
  total and the picker's tree in step.
\<close>

theorem space_map_refines_sets:
  assumes "sm_wf sm" "sm_fits sm start sz"
  shows "(range_of start sz \<inter> sm_offsets sm = {} \<longrightarrow>
      (\<exists>sm'. space_map_add zfs_recover sm start sz = Some sm' \<and> sm_wf sm' \<and> same_frame sm sm' \<and>
        sm_offsets sm' = sm_offsets sm \<union> range_of start sz)) \<and>
    (range_of start sz \<subseteq> sm_offsets sm \<longrightarrow>
      (\<exists>sm'. space_map_remove zfs_recover sm start sz = Some sm' \<and> sm_wf sm' \<and> same_frame sm sm' \<and>
        sm_offsets sm' = sm_offsets sm - range_of start sz)) \<and>
    space_map_contains sm start sz = Some (range_of start sz \<subseteq> sm_offsets sm)"
  using space_map_add_ok [OF assms] space_map_remove_ok [OF assms] space_map_contains_ok [OF assms] by blast

lemma space_map_create_wf:
  assumes "unat start + unat sz < 2 ^ 64" "shift < 64"
  shows "sm_wf (space_map_create start sz shift)" "sm_offsets (space_map_create start sz shift) = {}"
  using assms by (simp_all add: sm_wf_def space_map_create_def avl_create_def avl_wf_def sm_offsets_def)

definition demo_map :: "unit space_map" where
  "demo_map = space_map_create 4096 65536 9"

lemma demo_map_wf: "sm_wf demo_map" "sm_offsets demo_map = {}" "sm_fits demo_map 8192 1024"
  using space_map_create_wf [of 4096 65536 9] by (simp_all add: demo_map_def sm_fits_def aligned_def space_map_create_def)

theorem space_map_refines_sets_witness:
  "\<exists>sm'. space_map_add False demo_map 8192 1024 = Some sm' \<and> sm_wf sm' \<and> sm_offsets sm' = {8192..<9216} \<and>
    space_map_contains sm' 8192 512 = Some True"
proof -
  obtain sm' where sm': "space_map_add False demo_map 8192 1024 = Some sm'" "sm_wf sm'" "same_frame demo_map sm'"
    "sm_offsets sm' = {8192..<9216}"
    using space_map_refines_sets [OF demo_map_wf(1,3), of False] demo_map_wf(2) by auto
  have "sm_fits sm' 8192 512"
    using sm'(3) by (simp add: same_frame_def demo_map_def space_map_create_def sm_fits_def aligned_def)
  then show ?thesis using sm' space_map_refines_sets [OF sm'(2), of 8192 512] by auto
qed

text \<open>
  C18. Misuse is caught.  Adding a range of which a part, but not all, is in the map stops with a failed
  \<^verbatim>\<open>VERIFY\<close>, and so does removing one of which only a part is.  Adding a range that is in the map
  already (a double free) and removing one that is not there at all (a double allocation) panic, or, when
  \<^verbatim>\<open>zfs_recover\<close> is set, leave the map as it is.
\<close>

theorem space_map_misuse:
  assumes "sm_wf sm" "sm_fits sm start sz"
  shows "(range_of start sz \<inter> sm_offsets sm \<noteq> {} \<and> \<not> range_of start sz \<subseteq> sm_offsets sm \<longrightarrow>
      space_map_add zfs_recover sm start sz = None \<and> space_map_remove zfs_recover sm start sz = None) \<and>
    (range_of start sz \<subseteq> sm_offsets sm \<and> unat (sm_space sm) + unat sz \<le> unat (sm_size sm) \<longrightarrow>
      space_map_add zfs_recover sm start sz = (if zfs_recover then Some sm else None)) \<and>
    (range_of start sz \<inter> sm_offsets sm = {} \<longrightarrow>
      space_map_remove zfs_recover sm start sz = (if zfs_recover then Some sm else None))"
proof -
  note d = sm_fitsD [OF assms]
  have se: "unat start < unat (start + sz)" using d(1,2) by simp
  have sep: "separate (sm_segs sm)" using assms(1) by (simp add: sm_wf_def)
  show ?thesis
    using assms(1) se
  proof (cases rule: sm_find_ok)
    case (gap w xs ys)
    have "range_of start sz \<inter> seg_offsets (xs @ ys) = {}"
      using gap(4,5) d(1) by (force simp: seg_offsets_def)
    then have free: "range_of start sz \<inter> sm_offsets sm = {}" using gap(2) by (simp add: sm_offsets_def)
    moreover from this have "\<not> range_of start sz \<subseteq> sm_offsets sm" using d(2) by fastforce
    moreover have "space_map_remove zfs_recover sm start sz = (if zfs_recover then Some sm else None)"
      using gap(1) d(5,6) assms(2) by (simp add: space_map_remove_def sm_fits_def)
    ultimately show ?thesis by blast
  next
    case (found s)
    have "max (ustart s) (unat start) \<in> range_of start sz \<inter> sm_offsets sm"
      using found sep d(1,2) by (auto simp: sm_offsets_def seg_offsets_def separate_def intro!: bexI [of _ s])
    then have hit: "range_of start sz \<inter> sm_offsets sm \<noteq> {}" by blast
    have inside: "ss_start s \<le> start \<and> start + sz \<le> ss_end s \<longleftrightarrow> range_of start sz \<subseteq> sm_offsets sm"
      using space_map_contains_ok [OF assms] found(1) d(5,6) assms(2) by (simp add: space_map_contains_def sm_fits_def)
    show ?thesis
    proof (cases "range_of start sz \<subseteq> sm_offsets sm")
      case True
      have "unat (sm_space sm) + unat sz \<le> unat (sm_size sm) \<Longrightarrow> unat (sm_space sm + sz) = unat (sm_space sm) + unat sz"
        using unsigned_less [of "sm_size sm", where 'a = nat] by (intro unat_plus) simp
      then have "unat (sm_space sm) + unat sz \<le> unat (sm_size sm) \<Longrightarrow>
          space_map_add zfs_recover sm start sz = (if zfs_recover then Some sm else None)"
        using True found(1) inside assms(2) d by (simp add: space_map_add_def sm_fits_def word_le_nat_alt)
      then show ?thesis using True hit by blast
    next
      case False
      then have "space_map_add zfs_recover sm start sz = None" "space_map_remove zfs_recover sm start sz = None"
        using found(1) inside by (auto simp: space_map_add_def space_map_remove_def require_def Let_def)
      then show ?thesis using False hit by blast
    qed
  qed
qed

theorem space_map_misuse_witness:
  "space_map_remove True demo_map 8192 1024 = Some demo_map \<and> space_map_remove False demo_map 8192 1024 = None"
  using space_map_misuse [OF demo_map_wf(1,3), of True] space_map_misuse [OF demo_map_wf(1,3), of False] demo_map_wf(2)
  by simp

section \<open>Walking and vacating\<close>

text \<open>Maps over the same range with the same unit.\<close>

definition same_range :: "'o space_map \<Rightarrow> 'p space_map \<Rightarrow> bool" where
  "same_range sm md \<longleftrightarrow> sm_start md = sm_start sm \<and> sm_size md = sm_size sm \<and> sm_shift md = sm_shift sm"

lemma same_range_frame: "same_range sm md \<Longrightarrow> same_frame md md' \<Longrightarrow> same_range sm md'"
  by (simp add: same_range_def same_frame_def)

lemma seg_fits:
  assumes "sm_wf sm" "same_range sm md" "s \<in> set (sm_segs sm)"
  shows "sm_fits md (ss_start s) (ss_end s - ss_start s)" "range_of (ss_start s) (ss_end s - ss_start s) = {ustart s..<uend s}"
proof -
  have s: "ustart s < uend s" "aligned sm (ustart s)" "aligned sm (uend s)" "{ustart s..<uend s} \<subseteq> sm_range sm"
    using assms(1,3) by (auto simp: sm_wf_def separate_def sm_offsets_def seg_offsets_def)
  have d: "unat (ss_end s - ss_start s) = uend s - ustart s" using s(1) by (simp add: unat_sub word_le_nat_alt)
  then show "range_of (ss_start s) (ss_end s - ss_start s) = {ustart s..<uend s}" using s(1) by simp
  have "ss_end s - ss_start s \<noteq> 0" using s(1) by auto
  moreover have "unat (sm_start sm) \<le> ustart s" "uend s \<le> unat (sm_start sm) + unat (sm_size sm)"
    using s(1,4) by (auto simp: sm_range_def)
  ultimately show "sm_fits md (ss_start s) (ss_end s - ss_start s)"
    using d s(1-3) assms(2) by (auto simp: sm_fits_def same_range_def aligned_def)
qed

text \<open>
  Calling \<^verbatim>\<open>space_map_add\<close> or \<^verbatim>\<open>space_map_remove\<close> on another map for the segments of a map, in
  any order.
\<close>

lemma seg_calls_add:
  assumes "sm_wf sm" "set L \<subseteq> set (sm_segs sm)" "distinct L" "sm_wf md" "same_range sm md" "sm_offsets md \<inter> seg_offsets L = {}"
  shows "\<exists>md'. seg_calls (space_map_add zfs_recover) L md = Some md' \<and> sm_wf md' \<and> same_frame md md' \<and>
    sm_offsets md' = sm_offsets md \<union> seg_offsets L"
  using assms(2-)
proof (induction L arbitrary: md)
  case Nil
  then show ?case by (simp add: same_frame_def)
next
  case (Cons s L)
  have s: "s \<in> set (sm_segs sm)" using Cons.prems(1) by simp
  note f = seg_fits [OF assms(1) Cons.prems(4) s]
  obtain md1 where md1: "space_map_add zfs_recover md (ss_start s) (ss_end s - ss_start s) = Some md1" "sm_wf md1"
    "same_frame md md1" "sm_offsets md1 = sm_offsets md \<union> {ustart s..<uend s}"
    using space_map_add_ok [OF Cons.prems(3) f(1), of zfs_recover] Cons.prems(5) unfolding f(2) by auto
  have sep: "separate (sm_segs sm)" using assms(1) by (simp add: sm_wf_def)
  have "{ustart s..<uend s} \<inter> {ustart a..<uend a} = {}" if "a \<in> set L" for a
    using separate_pairs [OF sep s, of a] that Cons.prems(1,2) by force
  then have "{ustart s..<uend s} \<inter> seg_offsets L = {}" by (force simp: seg_offsets_def)
  then have "sm_offsets md1 \<inter> seg_offsets L = {}" using md1(4) Cons.prems(5) by auto
  then obtain md' where "seg_calls (space_map_add zfs_recover) L md1 = Some md'" "sm_wf md'" "same_frame md1 md'"
    "sm_offsets md' = sm_offsets md1 \<union> seg_offsets L"
    using Cons.IH [of md1] Cons.prems(1,2) md1(2) same_range_frame [OF Cons.prems(4) md1(3)] by auto
  then show ?case using md1 by (auto simp: same_frame_def)
qed

lemma seg_calls_remove:
  assumes "sm_wf sm" "set L \<subseteq> set (sm_segs sm)" "distinct L" "sm_wf md" "same_range sm md" "seg_offsets L \<subseteq> sm_offsets md"
  shows "\<exists>md'. seg_calls (space_map_remove zfs_recover) L md = Some md' \<and> sm_wf md' \<and> same_frame md md' \<and>
    sm_offsets md' = sm_offsets md - seg_offsets L"
  using assms(2-)
proof (induction L arbitrary: md)
  case Nil
  then show ?case by (simp add: same_frame_def)
next
  case (Cons s L)
  have s: "s \<in> set (sm_segs sm)" using Cons.prems(1) by simp
  note f = seg_fits [OF assms(1) Cons.prems(4) s]
  obtain md1 where md1: "space_map_remove zfs_recover md (ss_start s) (ss_end s - ss_start s) = Some md1" "sm_wf md1"
    "same_frame md md1" "sm_offsets md1 = sm_offsets md - {ustart s..<uend s}"
    using space_map_remove_ok [OF Cons.prems(3) f(1), of zfs_recover] Cons.prems(5) unfolding f(2) by auto
  have sep: "separate (sm_segs sm)" using assms(1) by (simp add: sm_wf_def)
  have "{ustart s..<uend s} \<inter> {ustart a..<uend a} = {}" if "a \<in> set L" for a
    using separate_pairs [OF sep s, of a] that Cons.prems(1,2) by force
  then have "{ustart s..<uend s} \<inter> seg_offsets L = {}" by (force simp: seg_offsets_def)
  then have "seg_offsets L \<subseteq> sm_offsets md1" using md1(4) Cons.prems(5) by auto
  then obtain md' where "seg_calls (space_map_remove zfs_recover) L md1 = Some md'" "sm_wf md'" "same_frame md1 md'"
    "sm_offsets md' = sm_offsets md1 - seg_offsets L"
    using Cons.IH [of md1] Cons.prems(1,2) md1(2) same_range_frame [OF Cons.prems(4) md1(3)] by auto
  then show ?case using md1 by (auto simp: same_frame_def)
qed

text \<open>Draining the tree of a map: the segments in the order in which they are handed out.\<close>

lemma sm_drain:
  assumes "sm_wf sm"
  obtains L t where "avl_drain (sm_root sm) Cookie_null = Some (L, t)" "distinct L" "set L = set (sm_segs sm)"
    "mset L = mset (sm_segs sm)" "avl_wf t" "avl_list t = []" "avl_compar t = space_map_seg_compare"
proof -
  have wf: "avl_wf (sm_root sm)" using assms by (simp add: sm_wf_def)
  show thesis
    using that [OF avl_drain_ok [OF wf]] wf assms mset_eq_imp_distinct_iff [OF mset_postorder [of "avl_root (sm_root sm)"]]
    by (simp add: mset_postorder avl_wf_def sm_wf_def)
qed

lemma sm_wf_emptied:
  assumes "sm_wf sm" "avl_wf t" "avl_list t = []" "avl_compar t = space_map_seg_compare" "sm_pp_root sm = None"
  shows "sm_wf (sm\<lparr>sm_root := t, sm_space := 0\<rparr>)" "sm_offsets (sm\<lparr>sm_root := t, sm_space := 0\<rparr>) = {}"
    "same_frame sm (sm\<lparr>sm_root := t, sm_space := 0\<rparr>)"
  using assms by (simp_all add: sm_wf_def sm_offsets_def same_frame_def)

lemma vacate_none_ok:
  assumes "sm_wf sm" "sm_pp_root sm = None"
  shows "\<exists>sm0. space_map_vacate sm None () = Some (sm0, ()) \<and> sm_wf sm0 \<and> sm_offsets sm0 = {} \<and> same_frame sm sm0"
proof -
  obtain L t where L: "avl_drain (sm_root sm) Cookie_null = Some (L, t)" "avl_wf t" "avl_list t = []"
    "avl_compar t = space_map_seg_compare"
    using sm_drain [OF assms(1)] by metis
  then show ?thesis using sm_wf_emptied [OF assms(1) L(2-4) assms(2)] by (auto simp: space_map_vacate_def)
qed

text \<open>
  C19. Moving and comparing whole maps, as the allocator does at the end of a transaction group.  Vacating
  a map into another one over the same range, with \<^verbatim>\<open>space_map_add\<close> as the function, empties the
  first and adds its offsets to the second; walking it with \<^verbatim>\<open>space_map_remove\<close> takes its offsets
  out of the second.  The order in which the destruction walk hands out the segments does not matter.
\<close>

theorem space_map_vacate_walk:
  assumes "sm_wf sm" "sm_pp_root sm = None" "sm_wf md" "same_range sm md"
  shows "(sm_offsets md \<inter> sm_offsets sm = {} \<longrightarrow>
      (\<exists>sm' md'. space_map_vacate sm (Some (space_map_add zfs_recover)) md = Some (sm', md') \<and>
        sm_wf sm' \<and> sm_offsets sm' = {} \<and> sm_space sm' = 0 \<and> sm_wf md' \<and> sm_offsets md' = sm_offsets md \<union> sm_offsets sm)) \<and>
    (sm_offsets sm \<subseteq> sm_offsets md \<longrightarrow>
      (\<exists>md'. space_map_walk sm (space_map_remove zfs_recover) md = Some md' \<and> sm_wf md' \<and>
        sm_offsets md' = sm_offsets md - sm_offsets sm))"
proof (intro conjI impI)
  obtain L t where L: "avl_drain (sm_root sm) Cookie_null = Some (L, t)" "distinct L" "set L = set (sm_segs sm)"
    "avl_wf t" "avl_list t = []" "avl_compar t = space_map_seg_compare"
    by (rule sm_drain [OF assms(1)])
  assume "sm_offsets md \<inter> sm_offsets sm = {}"
  moreover have off: "seg_offsets L = sm_offsets sm" using L(3) by (simp add: sm_offsets_def seg_offsets_def)
  ultimately obtain md' where "seg_calls (space_map_add zfs_recover) L md = Some md'" "sm_wf md'"
    "sm_offsets md' = sm_offsets md \<union> sm_offsets sm"
    using seg_calls_add [OF assms(1) _ L(2) assms(3,4), of zfs_recover] L(3) by auto
  then show "\<exists>sm' md'. space_map_vacate sm (Some (space_map_add zfs_recover)) md = Some (sm', md') \<and>
        sm_wf sm' \<and> sm_offsets sm' = {} \<and> sm_space sm' = 0 \<and> sm_wf md' \<and> sm_offsets md' = sm_offsets md \<union> sm_offsets sm"
    using L(1) sm_wf_emptied [OF assms(1) L(4-6) assms(2)] by (simp add: space_map_vacate_def)
next
  assume "sm_offsets sm \<subseteq> sm_offsets md"
  moreover have "distinct (sm_segs sm)" using assms(1) by (simp add: sm_wf_def avl_wf_def)
  ultimately show "\<exists>md'. space_map_walk sm (space_map_remove zfs_recover) md = Some md' \<and> sm_wf md' \<and>
      sm_offsets md' = sm_offsets md - sm_offsets sm"
    using seg_calls_remove [OF assms(1) subset_refl _ assms(3,4), of zfs_recover]
      avl_iterate_ok [of "sm_root sm"]
    by (auto simp: space_map_walk_def sm_offsets_def)
qed

theorem space_map_vacate_walk_witness:
  "\<exists>sm sm' md'. space_map_add False demo_map 8192 1024 = Some sm \<and>
    space_map_vacate sm (Some (space_map_add False)) demo_map = Some (sm', md') \<and>
    sm_offsets sm' = {} \<and> sm_offsets md' = {8192..<9216}"
proof -
  obtain sm where sm: "space_map_add False demo_map 8192 1024 = Some sm" "sm_wf sm" "same_frame demo_map sm"
    "sm_offsets sm = {8192..<9216}"
    using space_map_add_ok [OF demo_map_wf(1,3), of False] demo_map_wf(2) by auto
  have "sm_pp_root sm = None" "same_range sm demo_map"
    using sm(3) by (simp_all add: same_frame_def same_range_def demo_map_def space_map_create_def)
  then show ?thesis using space_map_vacate_walk [OF sm(2) _ demo_map_wf(1), of False] sm(1,4) demo_map_wf(2) by auto
qed

end
