(* ===== verification/SpaceMapDisk.thy ===== *)
theory SpaceMapDisk
  imports SpaceMapProps
begin

text \<open>
  The log of a space map: what its 64-bit entries mean (\<open>log_set\<close>), that reading a log through
  \<^verbatim>\<open>space_map_load\<close> performs it, and that \<^verbatim>\<open>space_map_sync\<close> writes a log for the map it is
  given.
\<close>

lemma sum_list_mset_cong: "mset xs = mset ys \<Longrightarrow> sum_list xs = sum_list (ys :: 'a :: comm_monoid_add list)"
  by (simp flip: sum_mset_sum_list)

section \<open>Entries\<close>

lemma P2PHASE_take_bit [simp]: "P2PHASE x (2 ^ k) = take_bit k x"
  by (simp add: P2PHASE_def flip: take_bit_eq_mask mask_eq_exp_minus_1)

lemmas sm_code_defs = SM_RUN_DECODE_def SM_RUN_ENCODE_def SM_TYPE_DECODE_def SM_TYPE_ENCODE_def SM_OFFSET_DECODE_def
  SM_OFFSET_ENCODE_def SM_DEBUG_DECODE_def SM_DEBUG_ENCODE_def SM_DEBUG_ACTION_ENCODE_def SM_DEBUG_SYNCPASS_ENCODE_def
  SM_DEBUG_TXG_ENCODE_def BF64_DECODE_def BF64_ENCODE_def push_bit_of_1 P2PHASE_take_bit

lemma not_bit_above: "unat (x :: u64) < 2 ^ k \<Longrightarrow> k \<le> n \<Longrightarrow> \<not> bit x n"
  by (metis bit_take_bit_iff leD take_bit_nat_eq_self_iff unsigned_take_bit_eq word_unat_eq_iff)

lemma decode_bit: "BF64_DECODE x k 1 = of_bool (bit x k)"
  unfolding BF64_DECODE_def push_bit_of_1 P2PHASE_take_bit by (simp add: bit_iff_odd_drop_bit mod_2_eq_odd)

lemma entry_decode:
  assumes "unat start < 2 ^ 47" "unat maptype < 2" "0 < unat run" "unat run \<le> 2 ^ 15"
  defines "e \<equiv> SM_OFFSET_ENCODE start OR SM_TYPE_ENCODE maptype OR SM_RUN_ENCODE run"
  shows "SM_DEBUG_DECODE e = 0" "SM_TYPE_DECODE e = maptype" "SM_OFFSET_DECODE e = start" "SM_RUN_DECODE e = run"
proof -
  have r: "unat (run - 1) < 2 ^ 15" using assms(3,4) by (simp add: unat_minus_one unat_gt_0)
  show "SM_DEBUG_DECODE e = 0"
    unfolding e_def SM_DEBUG_DECODE_def decode_bit unfolding sm_code_defs using not_bit_above [OF r] by (simp add: bit_simps)
  show "SM_TYPE_DECODE e = maptype"
  proof -
    have "maptype = 0 \<or> maptype = 1" using assms(2) by (auto simp: word_unat_eq_iff less_2_cases_iff)
    then show ?thesis
      unfolding e_def SM_TYPE_DECODE_def decode_bit unfolding sm_code_defs using not_bit_above [OF r, of 15]
      by (auto simp: bit_simps)
  qed
  show "SM_OFFSET_DECODE e = start"
    unfolding e_def sm_code_defs using not_bit_above [OF assms(1)]
    by (intro bit_word_eqI) (fastforce simp: bit_simps not_less [symmetric])
  have "BF64_DECODE e 0 15 = run - 1"
    unfolding e_def sm_code_defs using not_bit_above [OF r]
    by (intro bit_word_eqI) (auto simp: bit_simps)
  then show "SM_RUN_DECODE e = run" by (simp add: SM_RUN_DECODE_def)
qed

lemma debug_decode: "SM_DEBUG_DECODE (SM_DEBUG_ENCODE 1 OR SM_DEBUG_ACTION_ENCODE a OR SM_DEBUG_SYNCPASS_ENCODE p OR SM_DEBUG_TXG_ENCODE t) \<noteq> 0"
proof -
  have "bit (SM_DEBUG_DECODE (SM_DEBUG_ENCODE 1 OR SM_DEBUG_ACTION_ENCODE a OR SM_DEBUG_SYNCPASS_ENCODE p OR SM_DEBUG_TXG_ENCODE t)) 0"
    unfolding sm_code_defs by (simp add: bit_simps)
  then show ?thesis by force
qed

text \<open>
  The meaning of a log over the map range \<open>[start, start + size)\<close>: allocations add their range to the set
  of allocated offsets, which has to be free of it, and frees take theirs out.
\<close>

definition entry_range :: "'o space_map \<Rightarrow> u64 \<Rightarrow> nat set" where
  "entry_range sm e =
     (let a = unat (sm_start sm) + unat (SM_OFFSET_DECODE e) * 2 ^ sm_shift sm
      in {a..<a + unat (SM_RUN_DECODE e) * 2 ^ sm_shift sm})"

definition log_step :: "'o space_map \<Rightarrow> u64 \<Rightarrow> nat set \<Rightarrow> nat set option" where
  "log_step sm e A =
     (if SM_DEBUG_DECODE e \<noteq> 0 then Some A
      else require (entry_range sm e \<subseteq> sm_range sm)
        (if SM_TYPE_DECODE e = SM_ALLOC
         then require (entry_range sm e \<inter> A = {}) (Some (A \<union> entry_range sm e))
         else require (entry_range sm e \<subseteq> A) (Some (A - entry_range sm e))))"

fun log_set :: "'o space_map \<Rightarrow> u64 list \<Rightarrow> nat set \<Rightarrow> nat set option" where
  "log_set sm [] A = Some A"
| "log_set sm (e # es) A = Option.bind (log_step sm e A) (log_set sm es)"

lemma log_set_append: "log_set sm (es @ fs) A = Option.bind (log_set sm es A) (log_set sm fs)"
  by (induction es arbitrary: A) (auto split: bind_splits)

lemma log_step_range: "log_step sm e A = Some B \<Longrightarrow> A \<subseteq> sm_range sm \<Longrightarrow> B \<subseteq> sm_range sm"
  by (auto simp: log_step_def require_eq_Some split: if_splits)

lemma log_set_range: "log_set sm es A = Some B \<Longrightarrow> A \<subseteq> sm_range sm \<Longrightarrow> B \<subseteq> sm_range sm"
  by (induction es arbitrary: A) (auto simp: bind_eq_Some_conv dest: log_step_range)

lemma run_positive: "0 < unat (SM_RUN_DECODE e)"
proof -
  have "unat (take_bit 15 e) < 2 ^ 15" using take_bit_nat_less_exp [of 15 "unat e"] by (simp add: unsigned_take_bit_eq)
  then have "unat (SM_RUN_DECODE e) = unat (take_bit 15 e) + 1"
    unfolding sm_code_defs by (simp add: unat_plus)
  then show ?thesis by simp
qed

lemma type_decode_cases: "SM_TYPE_DECODE e = SM_ALLOC \<or> SM_TYPE_DECODE e = SM_FREE"
proof -
  have "SM_TYPE_DECODE e = take_bit 1 (drop_bit 15 e)" unfolding sm_code_defs ..
  then have "SM_TYPE_DECODE e = drop_bit 15 e mod 2" by simp
  then show ?thesis unfolding SM_ALLOC_def SM_FREE_def by (metis not_mod_2_eq_0_eq_1)
qed

lemma entry_fits:
  assumes "sm_wf sm" "aligned sm (unat (sm_start sm))" "entry_range sm e \<subseteq> sm_range sm"
  defines "a \<equiv> push_bit (sm_shift sm) (SM_OFFSET_DECODE e) + sm_start sm" and "n \<equiv> push_bit (sm_shift sm) (SM_RUN_DECODE e)"
  shows "range_of a n = entry_range sm e" "sm_fits sm a n"
proof -
  define o' r where "o' = unat (SM_OFFSET_DECODE e) * 2 ^ sm_shift sm" and "r = unat (SM_RUN_DECODE e) * 2 ^ sm_shift sm"
  note defs = o'_def [symmetric] r_def [symmetric]
  have rng: "entry_range sm e = {unat (sm_start sm) + o'..<unat (sm_start sm) + o' + r}" by (simp add: entry_range_def Let_def defs)
  have pos: "0 < r" using run_positive [of e] by (simp add: r_def)
  then have "unat (sm_start sm) + o' + r - 1 \<in> sm_range sm" using assms(3) unfolding rng by (auto simp: subset_iff)
  then have le: "o' + r \<le> unat (sm_size sm)" "unat (sm_start sm) + unat (sm_size sm) < 2 ^ 64"
    using pos assms(1) by (auto simp: sm_wf_def sm_range_def)
  have n: "unat n = r" unfolding n_def r_def using le(1,2) defs by (intro unat_push_bit) simp
  have "unat (push_bit (sm_shift sm) (SM_OFFSET_DECODE e)) = o'" unfolding o'_def using le defs by (intro unat_push_bit) simp
  then have a: "unat a = unat (sm_start sm) + o'" unfolding a_def using le by (simp add: unat_plus)
  show "range_of a n = entry_range sm e" by (simp add: a n rng)
  have "n \<noteq> 0" using n pos by (metis less_irrefl unat_0)
  moreover have "2 ^ sm_shift sm dvd o'" "2 ^ sm_shift sm dvd r" by (simp_all add: o'_def r_def)
  ultimately show "sm_fits sm a n" using a n le assms(2) by (auto simp: sm_fits_def aligned_def)
qed

section \<open>Reading a log\<close>

text \<open>A map is loaded with the allocated offsets or with the free ones.\<close>

definition log_view :: "'o space_map \<Rightarrow> u64 \<Rightarrow> nat set \<Rightarrow> nat set" where
  "log_view sm maptype A = (if maptype = SM_ALLOC then A else sm_range sm - A)"

lemma load_entries_append:
  "load_entries zr ty a (es @ fs) sm = Option.bind (load_entries zr ty a es sm) (load_entries zr ty a fs)"
  by (induction es arbitrary: sm) (auto split: bind_splits)

lemma entry_range_frame: "same_range sm md \<Longrightarrow> entry_range md e = entry_range sm e" "same_range sm md \<Longrightarrow> sm_range md = sm_range sm"
  by (simp_all add: entry_range_def same_range_def sm_range_def)

lemma load_entry:
  assumes "log_step sm e A = Some B" "SM_DEBUG_DECODE e = 0" "A \<subseteq> sm_range sm" "maptype = SM_ALLOC \<or> maptype = SM_FREE"
    "sm_wf md" "same_range sm md" "aligned md (unat (sm_start md))" "sm_offsets md = log_view sm maptype A"
  shows "\<exists>md'. (if SM_TYPE_DECODE e = maptype then space_map_add zr else space_map_remove zr) md
      (push_bit (sm_shift md) (SM_OFFSET_DECODE e) + sm_start md) (push_bit (sm_shift md) (SM_RUN_DECODE e)) = Some md' \<and>
    sm_wf md' \<and> same_frame md md' \<and> sm_offsets md' = log_view sm maptype B"
proof -
  note fr = entry_range_frame [OF assms(6)]
  have st: "entry_range sm e \<subseteq> sm_range sm" "SM_TYPE_DECODE e = SM_ALLOC \<Longrightarrow> entry_range sm e \<inter> A = {} \<and> B = A \<union> entry_range sm e"
    "SM_TYPE_DECODE e = SM_FREE \<Longrightarrow> entry_range sm e \<subseteq> A \<and> B = A - entry_range sm e"
    using assms(1,2) by (auto simp: log_step_def require_eq_Some SM_ALLOC_def SM_FREE_def split: if_splits)
  note fits = entry_fits [OF assms(5,7)] and r = st(1)
  have rng: "entry_range md e \<subseteq> sm_range md" using st(1) fr by simp
  note add = space_map_add_ok [OF assms(5) fits(2) [OF rng], of zr, unfolded fits(1) [OF rng] fr(1)]
  note remove = space_map_remove_ok [OF assms(5) fits(2) [OF rng], of zr, unfolded fits(1) [OF rng] fr(1)]
  have ne: "SM_FREE \<noteq> SM_ALLOC" by (simp add: SM_FREE_def SM_ALLOC_def)
  consider "SM_TYPE_DECODE e = SM_ALLOC" "maptype = SM_ALLOC" | "SM_TYPE_DECODE e = SM_ALLOC" "maptype = SM_FREE"
    | "SM_TYPE_DECODE e = SM_FREE" "maptype = SM_ALLOC" | "SM_TYPE_DECODE e = SM_FREE" "maptype = SM_FREE"
    using type_decode_cases assms(4) by blast
  then show ?thesis
  proof cases
    case 1
    then show ?thesis using add st(2) assms(8) by (auto simp: log_view_def)
  next
    case 2
    then have "entry_range sm e \<subseteq> sm_offsets md" "sm_offsets md - entry_range sm e = log_view sm maptype B"
      using st(1,2) assms(8) ne by (auto simp: log_view_def)
    then show ?thesis using 2 remove ne by auto
  next
    case 3
    then show ?thesis using remove st(3) assms(8) ne by (auto simp: log_view_def)
  next
    case 4
    then have "entry_range sm e \<inter> sm_offsets md = {}" "sm_offsets md \<union> entry_range sm e = log_view sm maptype B"
      using st(1,3) assms(3,8) ne by (auto simp: log_view_def)
    then show ?thesis using 4 add ne by auto
  qed
qed

lemma load_entries_ok:
  assumes "log_set sm es A = Some B" "A \<subseteq> sm_range sm" "maptype = SM_ALLOC \<or> maptype = SM_FREE"
    "sm_wf md" "same_range sm md" "aligned md (unat (sm_start md))" "sm_offsets md = log_view sm maptype A"
  shows "\<exists>md'. load_entries zr maptype (sm_start sm) es md = Some md' \<and> sm_wf md' \<and> same_frame md md' \<and>
    sm_offsets md' = log_view sm maptype B"
  using assms
proof (induction es arbitrary: md A)
  case Nil
  then show ?case by (simp add: same_frame_def)
next
  case (Cons e es)
  obtain C where C: "log_step sm e A = Some C" "log_set sm es C = Some B"
    using Cons.prems(1) by (auto simp: bind_eq_Some_conv)
  have st: "sm_start sm = sm_start md" using Cons.prems(5) by (simp add: same_range_def)
  show ?case
  proof (cases "SM_DEBUG_DECODE e = 0")
    case False
    then show ?thesis using Cons C by (auto simp: log_step_def)
  next
    case True
    obtain md1 where m: "(if SM_TYPE_DECODE e = maptype then space_map_add zr else space_map_remove zr) md
        (push_bit (sm_shift md) (SM_OFFSET_DECODE e) + sm_start md) (push_bit (sm_shift md) (SM_RUN_DECODE e)) = Some md1"
      "sm_wf md1" "same_frame md md1" "sm_offsets md1 = log_view sm maptype C"
      using load_entry [OF C(1) True Cons.prems(2-), of zr] by blast
    have "aligned md1 (unat (sm_start md1))" using Cons.prems(6) m(3) by (simp add: same_frame_def aligned_def)
    then obtain md' where "load_entries zr maptype (sm_start sm) es md1 = Some md'" "sm_wf md'" "same_frame md1 md'"
      "sm_offsets md' = log_view sm maptype B"
      using Cons.IH [OF C(2) log_step_range [OF C(1) Cons.prems(2)] Cons.prems(3) m(2) same_range_frame [OF Cons.prems(5) m(3)] _ m(4)] by blast
    then show ?thesis using m(1,3) True st by (auto simp: same_frame_def)
  qed
qed

text \<open>
  What is relied on of the object store: \<open>contents w obj\<close> are the words of the object; a read of words
  inside it returns them, and a write at its end appends.
\<close>

definition dmu_reads :: "('w \<Rightarrow> u64 \<Rightarrow> u64 list) \<Rightarrow> ('w \<Rightarrow> dmu_read) \<Rightarrow> bool" where
  "dmu_reads contents dmu_read \<longleftrightarrow>
     (\<forall>w obj off sz. 8 dvd unat off \<and> 8 dvd unat sz \<and> unat off + unat sz \<le> 8 * length (contents w obj) \<longrightarrow>
        dmu_read w obj off sz = (0, take (unat sz div 8) (drop (unat off div 8) (contents w obj))))"

definition dmu_appends :: "('w \<Rightarrow> u64 \<Rightarrow> u64 list) \<Rightarrow> 'w dmu_write \<Rightarrow> bool" where
  "dmu_appends contents dmu_write \<longleftrightarrow>
     (\<forall>w obj off es. unat off = 8 * length (contents w obj) \<longrightarrow>
        contents (dmu_write obj off es w) obj = contents w obj @ es)"

lemma load_loop_ok:
  fixes sm :: "'o space_map"
  assumes "dmu_reads contents dmu_read" "unat end' = 8 * length (contents w obj)" "8 * length (contents w obj) + 8192 < 2 ^ 64"
    "unat off = 8 * k" "k \<le> length (contents w obj) + 512"
  shows "load_loop (dmu_read w) zr ty a obj end' off sm = map_option (Pair 0) (load_entries zr ty a (drop k (contents w obj)) sm)"
  using assms(4,5)
proof (induction "length (contents w obj) + 512 - k" arbitrary: k off sm rule: less_induct)
  case less
  let ?es = "contents w obj"
  show ?case
  proof (cases "off < end'")
    case False
    then have "length ?es \<le> k" using assms(2) less.prems(1) by (simp add: word_less_nat_alt)
    then show ?thesis using False by (subst load_loop.simps) simp
  next
    case True
    then have k: "k < length ?es" using assms(2) less.prems(1) by (simp add: word_less_nat_alt)
    define n where "n = min (length ?es - k) 512"
    have b: "unat (push_bit SPACE_MAP_BLOCKSHIFT 1 :: u64) = 4096" by (simp add: SPACE_MAP_BLOCKSHIFT_def)
    have "unat (end' - off) = 8 * (length ?es - k)"
      using True assms(2) less.prems(1) by (simp add: unat_sub word_le_nat_alt word_less_nat_alt)
    then have sz: "unat (min (end' - off) (push_bit SPACE_MAP_BLOCKSHIFT 1)) = 8 * n"
      using b by (simp add: n_def min_def word_le_nat_alt)
    let ?sz = "min (end' - off) (push_bit SPACE_MAP_BLOCKSHIFT 1)"
    have n: "0 < n" "n \<le> length ?es - k" using k by (simp_all add: n_def)
    have "P2PHASE ?sz (2 ^ 3) = 0" using sz P2PHASE_0_iff [of 3 ?sz] by simp
    then have p: "P2PHASE ?sz 8 = 0" by simp
    have "?sz \<noteq> 0" using sz n(1) by (metis less_irrefl mult_is_0 unat_0 zero_neq_numeral)
    moreover have "dmu_read w obj off ?sz = (0, take n (drop k ?es))"
      using assms(1) sz n(2) less.prems(1) k unfolding dmu_reads_def by simp
    moreover have "load_loop (dmu_read w) zr ty a obj end' (off + push_bit SPACE_MAP_BLOCKSHIFT 1) sm' =
        map_option (Pair 0) (load_entries zr ty a (drop (k + 512) ?es) sm')" for sm' :: "'o space_map"
    proof (rule less.hyps)
      show "unat (off + push_bit SPACE_MAP_BLOCKSHIFT 1) = 8 * (k + 512)"
        using b less.prems(1) k assms(3) by (simp add: unat_plus)
    qed (use k in auto)
    moreover have "drop (k + 512) ?es = drop n (drop k ?es)" by (simp add: n_def min_def add.commute)
    moreover have "load_entries zr ty a (drop k ?es) sm =
        Option.bind (load_entries zr ty a (take n (drop k ?es)) sm) (load_entries zr ty a (drop n (drop k ?es)))"
      by (metis append_take_drop_id load_entries_append)
    ultimately show ?thesis using True p
      by (subst load_loop.simps) (auto simp: Let_def split: bind_splits)
  qed
qed

section \<open>Writing a log\<close>

text \<open>
  The log that a state of \<^verbatim>\<open>space_map_sync\<close> stands for: the object followed by the entries that are
  still in the buffer.  \<open>sync_ok\<close> ties the size field to the object.
\<close>

definition sync_log :: "('w \<Rightarrow> u64 \<Rightarrow> u64 list) \<Rightarrow> 'w sync_state \<Rightarrow> u64 list" where
  "sync_log contents st = contents (sy_store st) (smo_object (sy_smo st)) @ sy_entries st"

definition sync_ok :: "('w \<Rightarrow> u64 \<Rightarrow> u64 list) \<Rightarrow> 'w sync_state \<Rightarrow> bool" where
  "sync_ok contents st \<longleftrightarrow>
     unat (smo_objsize (sy_smo st)) = 8 * length (contents (sy_store st) (smo_object (sy_smo st))) \<and>
     8 * length (sync_log contents st) < 2 ^ 64"

definition sync_smo :: "space_map_obj \<Rightarrow> space_map_obj \<Rightarrow> bool" where
  "sync_smo smo smo' \<longleftrightarrow> smo_object smo' = smo_object smo \<and> smo_alloc smo' = smo_alloc smo"

lemma sync_flush_ok:
  assumes "dmu_appends contents dmu_write" "sync_ok contents st"
  shows "sync_ok contents (sync_flush dmu_write st)" "sync_log contents (sync_flush dmu_write st) = sync_log contents st"
    "sy_entries (sync_flush dmu_write st) = []" "sync_smo (sy_smo st) (sy_smo (sync_flush dmu_write st))"
proof -
  let ?c = "contents (sy_store st) (smo_object (sy_smo st))"
  have c: "contents (dmu_write (smo_object (sy_smo st)) (smo_objsize (sy_smo st)) (sy_entries st) (sy_store st)) (smo_object (sy_smo st)) =
      ?c @ sy_entries st" using assms by (simp add: dmu_appends_def sync_ok_def)
  have len: "8 * length ?c + 8 * length (sy_entries st) < 2 ^ 64" using assms(2) by (simp add: sync_ok_def sync_log_def)
  have "unat (8 * of_nat (length (sy_entries st)) :: u64) = 8 * length (sy_entries st)"
    using len by (simp add: unat_word_ariths unat_of_nat)
  then have "unat (smo_objsize (sy_smo st) + 8 * of_nat (length (sy_entries st))) = 8 * length ?c + 8 * length (sy_entries st)"
    using assms(2) len by (simp add: unat_plus sync_ok_def)
  then show "sync_ok contents (sync_flush dmu_write st)" "sync_log contents (sync_flush dmu_write st) = sync_log contents st"
    "sy_entries (sync_flush dmu_write st) = []" "sync_smo (sy_smo st) (sy_smo (sync_flush dmu_write st))"
    using c len by (simp_all add: sync_ok_def sync_log_def sync_flush_def Let_def sync_smo_def)
qed

lemma sync_put_ok:
  assumes "dmu_appends contents dmu_write" "sync_ok contents st" "8 * Suc (length (sync_log contents st)) < 2 ^ 64"
  shows "sync_ok contents (sync_put dmu_write bufsize e st)" "sync_log contents (sync_put dmu_write bufsize e st) = sync_log contents st @ [e]"
    "sync_smo (sy_smo st) (sy_smo (sync_put dmu_write bufsize e st))"
proof -
  define st0 where "st0 = (if length (sy_entries st) = unat (bufsize div 8) then sync_flush dmu_write st else st)"
  have st0: "sync_ok contents st0" "sync_log contents st0 = sync_log contents st" "sync_smo (sy_smo st) (sy_smo st0)"
    using sync_flush_ok [OF assms(1,2)] assms(2) by (auto simp: st0_def sync_smo_def)
  have eq: "sync_put dmu_write bufsize e st = st0\<lparr>sy_entries := sy_entries st0 @ [e]\<rparr>"
    by (simp add: sync_put_def Let_def st0_def)
  show log: "sync_log contents (sync_put dmu_write bufsize e st) = sync_log contents st @ [e]"
    unfolding eq st0(2) [symmetric] by (simp add: sync_log_def)
  show "sync_ok contents (sync_put dmu_write bufsize e st)"
    using st0(1) assms(3) unfolding sync_ok_def log by (simp add: eq)
  show "sync_smo (sy_smo st) (sy_smo (sync_put dmu_write bufsize e st))" using st0(3) by (simp add: eq)
qed

text \<open>The runs of one segment add it to, or take it out of, the set of the log.\<close>

definition log_change :: "u64 \<Rightarrow> nat set \<Rightarrow> nat set \<Rightarrow> nat set" where
  "log_change maptype A R = (if maptype = SM_ALLOC then A \<union> R else A - R)"

definition log_legal :: "u64 \<Rightarrow> nat set \<Rightarrow> nat set \<Rightarrow> bool" where
  "log_legal maptype A R \<longleftrightarrow> (if maptype = SM_ALLOC then R \<inter> A = {} else R \<subseteq> A)"

definition unit_range :: "'o space_map \<Rightarrow> nat \<Rightarrow> nat \<Rightarrow> nat set" where
  "unit_range sm u n = {unat (sm_start sm) + u * 2 ^ sm_shift sm..<unat (sm_start sm) + (u + n) * 2 ^ sm_shift sm}"

lemma unit_range_split: "unit_range sm u (m + n) = unit_range sm u m \<union> unit_range sm (u + m) n"
  unfolding unit_range_def add.assoc [symmetric] by (rule ivl_disj_un_two(3) [symmetric]) simp_all

lemma unit_range_disjoint: "unit_range sm u m \<inter> unit_range sm (u + m) n = {}"
  by (auto simp: unit_range_def)

lemma log_step_run:
  assumes "unat start < 2 ^ 47" "maptype = SM_ALLOC \<or> maptype = SM_FREE" "0 < unat run" "unat run \<le> 2 ^ 15"
    "unit_range sm (unat start) (unat run) \<subseteq> sm_range sm" "log_legal maptype A (unit_range sm (unat start) (unat run))"
  shows "log_step sm (SM_OFFSET_ENCODE start OR SM_TYPE_ENCODE maptype OR SM_RUN_ENCODE run) A =
    Some (log_change maptype A (unit_range sm (unat start) (unat run)))"
proof -
  have "unat maptype < 2" using assms(2) by (auto simp: SM_ALLOC_def SM_FREE_def)
  note d = entry_decode [OF assms(1) this assms(3,4)]
  have "entry_range sm (SM_OFFSET_ENCODE start OR SM_TYPE_ENCODE maptype OR SM_RUN_ENCODE run) = unit_range sm (unat start) (unat run)"
    by (simp add: entry_range_def d unit_range_def distrib_right Let_def add.assoc)
  then show ?thesis using assms(2,5,6) d by (auto simp: log_step_def log_legal_def log_change_def SM_ALLOC_def SM_FREE_def)
qed

lemma sync_runs_ok:
  assumes "dmu_appends contents dmu_write" "sync_ok contents st" "8 * (length (sync_log contents st) + unat sz) < 2 ^ 64"
    "unat start + unat sz \<le> 2 ^ 47" "maptype = SM_ALLOC \<or> maptype = SM_FREE"
    "unit_range sm (unat start) (unat sz) \<subseteq> sm_range sm" "log_legal maptype A (unit_range sm (unat start) (unat sz))"
  shows "\<exists>es. sync_ok contents (sync_runs dmu_write bufsize maptype start sz st) \<and>
    sync_log contents (sync_runs dmu_write bufsize maptype start sz st) = sync_log contents st @ es \<and>
    sync_smo (sy_smo st) (sy_smo (sync_runs dmu_write bufsize maptype start sz st)) \<and> length es \<le> unat sz \<and>
    log_set sm es A = Some (log_change maptype A (unit_range sm (unat start) (unat sz)))"
  using assms
proof (induction dmu_write bufsize maptype start sz st arbitrary: A rule: sync_runs.induct)
  case (1 dmu_write bufsize maptype start sz st)
  show ?case
  proof (cases "sz = 0")
    case True
    then show ?thesis using "1.prems"(2)
      by (subst (1 2 3) sync_runs.simps) (auto simp: unit_range_def log_change_def sync_smo_def)
  next
    case False
    define run where "run = min sz SM_RUN_MAX"
    define e where "e = (SM_OFFSET_ENCODE start OR SM_TYPE_ENCODE maptype OR SM_RUN_ENCODE run)"
    let ?st = "sync_put dmu_write bufsize e st" and ?R = "unit_range sm (unat start) (unat run)"
    have step: "sync_runs dmu_write bufsize maptype start sz st = sync_runs dmu_write bufsize maptype (start + run) (sz - run) ?st"
      using False by (subst sync_runs.simps) (simp add: run_def e_def Let_def)
    have run: "unat run = min (unat sz) 32768" by (simp add: run_def SM_RUN_MAX_eq min_def word_le_nat_alt)
    have pos: "0 < unat sz" using False by (simp add: unat_gt_0)
    have u: "unat (start + run) = unat start + unat run" using "1.prems"(4) run by (intro unat_plus) simp
    have d: "unat (sz - run) = unat sz - unat run" using run by (simp add: unat_sub word_le_nat_alt)
    have split: "unit_range sm (unat start) (unat sz) = ?R \<union> unit_range sm (unat (start + run)) (unat (sz - run))"
      using unit_range_split [of sm "unat start" "unat run" "unat sz - unat run"] run unfolding u d by simp
    have disj: "?R \<inter> unit_range sm (unat (start + run)) (unat (sz - run)) = {}"
      unfolding u by (rule unit_range_disjoint)
    have s: "log_step sm e A = Some (log_change maptype A ?R)"
      unfolding e_def using "1.prems"(4-7) run pos split
      by (intro log_step_run) (auto simp: log_legal_def split: if_splits)
    have put: "sync_ok contents ?st" "sync_log contents ?st = sync_log contents st @ [e]" "sync_smo (sy_smo st) (sy_smo ?st)"
      using sync_put_ok [OF "1.prems"(1,2), of bufsize e] "1.prems"(3) pos by auto
    have legal: "log_legal maptype (log_change maptype A ?R) (unit_range sm (unat (start + run)) (unat (sz - run)))"
      using "1.prems"(7) split disj by (auto simp: log_legal_def log_change_def split: if_splits)
    have len: "8 * (length (sync_log contents ?st) + unat (sz - run)) < 2 ^ 64"
      using "1.prems"(3) run d pos unfolding put(2) by (simp add: min_def split: if_splits)
    have bnd: "unat (start + run) + unat (sz - run) \<le> 2 ^ 47" using "1.prems"(4) run unfolding u d by simp
    have rng: "unit_range sm (unat (start + run)) (unat (sz - run)) \<subseteq> sm_range sm" using "1.prems"(6) split by blast
    obtain es where es: "sync_ok contents (sync_runs dmu_write bufsize maptype start sz st)"
      "sync_log contents (sync_runs dmu_write bufsize maptype start sz st) = sync_log contents ?st @ es"
      "sync_smo (sy_smo ?st) (sy_smo (sync_runs dmu_write bufsize maptype start sz st))" "length es \<le> unat (sz - run)"
      "log_set sm es (log_change maptype A ?R) =
        Some (log_change maptype (log_change maptype A ?R) (unit_range sm (unat (start + run)) (unat (sz - run))))"
      unfolding step
      using "1.IH" [OF False run_def, folded e_def, OF "1.prems"(1) put(1) len bnd "1.prems"(5) rng legal] by blast
    have "log_set sm (e # es) A = Some (log_change maptype A (unit_range sm (unat start) (unat sz)))"
      using s es(5) split by (auto simp: log_change_def)
    then show ?thesis using es put run d pos
      by (intro exI [of _ "e # es"]) (auto simp: sync_smo_def)
  qed
qed

definition seg_units :: "'o space_map \<Rightarrow> space_seg \<Rightarrow> nat" where
  "seg_units sm s = (uend s - ustart s) div 2 ^ sm_shift sm"

lemma seg_unit_range:
  assumes "sm_wf sm" "aligned sm (unat (sm_start sm))" "s \<in> set (sm_segs sm)"
  defines "u \<equiv> drop_bit (sm_shift sm) (ss_start s - sm_start sm)" and "n \<equiv> drop_bit (sm_shift sm) (ss_end s - ss_start s)"
  shows "unit_range sm (unat u) (unat n) = {ustart s..<uend s}" "unat n = seg_units sm s"
    "(unat u + unat n) * 2 ^ sm_shift sm \<le> unat (sm_size sm)" "{ustart s..<uend s} \<subseteq> sm_range sm"
proof -
  let ?p = "(2 :: nat) ^ sm_shift sm"
  have s: "ustart s < uend s" "?p dvd ustart s" "?p dvd uend s" "{ustart s..<uend s} \<subseteq> sm_range sm"
    using assms(1,3) by (auto simp: sm_wf_def separate_def sm_offsets_def seg_offsets_def aligned_def)
  then show "{ustart s..<uend s} \<subseteq> sm_range sm" by simp
  have le: "unat (sm_start sm) \<le> ustart s" "uend s \<le> unat (sm_start sm) + unat (sm_size sm)"
    using s(1,4) by (auto simp: sm_range_def)
  have u: "unat u = (ustart s - unat (sm_start sm)) div ?p"
    unfolding u_def unat_drop_bit using le(1) by (simp add: unat_sub word_le_nat_alt)
  have n: "unat n = (uend s - ustart s) div ?p"
    unfolding n_def unat_drop_bit using s(1) by (simp add: unat_sub word_le_nat_alt)
  then show "unat n = seg_units sm s" by (simp add: seg_units_def)
  have "?p dvd ustart s - unat (sm_start sm)" "?p dvd uend s - ustart s"
    using s(2,3) assms(2) by (auto simp: aligned_def)
  then have m: "unat u * ?p = ustart s - unat (sm_start sm)" "unat n * ?p = uend s - ustart s" using u n by simp_all
  then show "unit_range sm (unat u) (unat n) = {ustart s..<uend s}" "(unat u + unat n) * ?p \<le> unat (sm_size sm)"
    using le s(1) by (auto simp: unit_range_def distrib_right)
qed

text \<open>Maps whose offsets and sizes, in units, fit the fields of an entry.\<close>

definition sm_loggable :: "'o space_map \<Rightarrow> bool" where
  "sm_loggable sm \<longleftrightarrow> aligned sm (unat (sm_start sm)) \<and> unat (sm_size sm) \<le> 2 ^ 47 * 2 ^ sm_shift sm"

lemma sync_segs_ok:
  assumes "dmu_appends contents dmu_write" "sm_wf sm" "sm_loggable sm" "maptype = SM_ALLOC \<or> maptype = SM_FREE"
    "sync_ok contents st" "8 * (length (sync_log contents st) + sum_list (map (seg_units sm) L)) < 2 ^ 64"
    "set L \<subseteq> set (sm_segs sm)" "distinct L" "log_legal maptype A (seg_offsets L)"
  shows "\<exists>es. sync_ok contents (sync_segs dmu_write bufsize maptype (sm_start sm) (sm_shift sm) L st) \<and>
    sync_log contents (sync_segs dmu_write bufsize maptype (sm_start sm) (sm_shift sm) L st) = sync_log contents st @ es \<and>
    sync_smo (sy_smo st) (sy_smo (sync_segs dmu_write bufsize maptype (sm_start sm) (sm_shift sm) L st)) \<and>
    length es \<le> sum_list (map (seg_units sm) L) \<and> log_set sm es A = Some (log_change maptype A (seg_offsets L))"
  using assms(5-)
proof (induction L arbitrary: st A)
  case Nil
  then show ?case by (auto simp: log_change_def sync_smo_def)
next
  case (Cons s L)
  let ?u = "drop_bit (sm_shift sm) (ss_start s - sm_start sm)" and ?n = "drop_bit (sm_shift sm) (ss_end s - ss_start s)"
  let ?S = "{ustart s..<uend s}" and ?st = "sync_runs dmu_write bufsize maptype (drop_bit (sm_shift sm) (ss_start s - sm_start sm))
    (drop_bit (sm_shift sm) (ss_end s - ss_start s)) st"
  have s: "s \<in> set (sm_segs sm)" using Cons.prems(3) by simp
  note r = seg_unit_range [OF assms(2) _ s]
  have al: "aligned sm (unat (sm_start sm))" using assms(3) by (simp add: sm_loggable_def)
  have "(unat ?u + unat ?n) * 2 ^ sm_shift sm \<le> 2 ^ 47 * 2 ^ sm_shift sm"
    using r(3) [OF al] assms(3) unfolding sm_loggable_def by (blast intro: le_trans)
  then have bnd: "unat ?u + unat ?n \<le> 2 ^ 47" by simp
  have sep: "separate (sm_segs sm)" using assms(2) by (simp add: sm_wf_def)
  have "?S \<inter> {ustart a..<uend a} = {}" if "a \<in> set L" for a
    using separate_pairs [OF sep s, of a] that Cons.prems(3,4) by force
  then have disj: "?S \<inter> seg_offsets L = {}" by (force simp: seg_offsets_def)
  have len: "8 * (length (sync_log contents st) + unat ?n) < 2 ^ 64" using Cons.prems(2) r(2) [OF al] by simp
  have rng: "unit_range sm (unat ?u) (unat ?n) \<subseteq> sm_range sm" unfolding r(1) [OF al] by (rule r(4) [OF al])
  have legal: "log_legal maptype A (unit_range sm (unat ?u) (unat ?n))"
    unfolding r(1) [OF al] using Cons.prems(5) by (auto simp: log_legal_def split: if_splits)
  obtain es where es: "sync_ok contents ?st" "sync_log contents ?st = sync_log contents st @ es" "sync_smo (sy_smo st) (sy_smo ?st)"
    "length es \<le> seg_units sm s" "log_set sm es A = Some (log_change maptype A ?S)"
    using sync_runs_ok [OF assms(1) Cons.prems(1) len bnd assms(4) rng legal, of bufsize, unfolded r(1) [OF al], unfolded r(2) [OF al]]
    by (elim exE conjE) (rule that)
  have len': "8 * (length (sync_log contents ?st) + sum_list (map (seg_units sm) L)) < 2 ^ 64"
    using Cons.prems(2) es(4) unfolding es(2) by simp
  have legal': "log_legal maptype (log_change maptype A ?S) (seg_offsets L)"
    using Cons.prems(5) disj by (auto simp: log_legal_def log_change_def split: if_splits)
  obtain fs where fs: "sync_ok contents (sync_segs dmu_write bufsize maptype (sm_start sm) (sm_shift sm) L ?st)"
    "sync_log contents (sync_segs dmu_write bufsize maptype (sm_start sm) (sm_shift sm) L ?st) = sync_log contents ?st @ fs"
    "sync_smo (sy_smo ?st) (sy_smo (sync_segs dmu_write bufsize maptype (sm_start sm) (sm_shift sm) L ?st))"
    "length fs \<le> sum_list (map (seg_units sm) L)"
    "log_set sm fs (log_change maptype A ?S) = Some (log_change maptype (log_change maptype A ?S) (seg_offsets L))"
    using Cons.IH [OF es(1) len' _ _ legal'] Cons.prems(3,4) by auto
  have "log_set sm (es @ fs) A = Some (log_change maptype A (seg_offsets (s # L)))"
    using es(5) fs(5) by (auto simp: log_set_append log_change_def)
  then show ?case using es(2-4) fs by (intro exI [of _ "es @ fs"]) (auto simp: sync_smo_def)
qed

lemma seg_units_sum:
  assumes "sm_wf sm" "sm_loggable sm"
  shows "sum_list (map (seg_units sm) (sm_segs sm)) \<le> 2 ^ 47"
proof -
  have "sum_list (map (seg_units sm) L) * 2 ^ sm_shift sm \<le> seg_total L" for L
  proof (induction L)
    case (Cons s L)
    have "seg_units sm s * 2 ^ sm_shift sm \<le> uend s - ustart s" by (simp add: seg_units_def)
    then show ?case using Cons by (simp add: distrib_right)
  qed simp
  moreover have "unat (sm_space sm) \<le> unat (sm_size sm)"
    using sm_wf_card [OF assms(1)] card_mono [of "sm_range sm" "sm_offsets sm"] assms(1) by (simp add: sm_wf_def sm_range_def)
  ultimately have "sum_list (map (seg_units sm) (sm_segs sm)) * 2 ^ sm_shift sm \<le> 2 ^ 47 * 2 ^ sm_shift sm"
    using assms unfolding sm_wf_def sm_loggable_def by (metis (no_types, lifting) le_trans)
  then show ?thesis by simp
qed

lemma seg_sum_words:
  "\<forall>s\<in>set L. ustart s < uend s \<Longrightarrow> sum_list (map (\<lambda>ss. ss_end ss - ss_start ss) L) = of_nat (seg_total L)"
proof (induction L)
  case (Cons s L)
  then have "of_nat (uend s - ustart s) = ss_end s - ss_start s" by (simp add: of_nat_diff)
  then show ?case using Cons by simp
qed simp

lemma space_map_sync_log:
  assumes "dmu_appends contents dmu_write" "sm_wf sm" "sm_pp_root sm = None" "sm_loggable sm" "maptype = SM_ALLOC \<or> maptype = SM_FREE"
    "unat (smo_objsize smo) = 8 * length (contents w (smo_object smo))" "length (contents w (smo_object smo)) \<le> 2 ^ 60"
    "log_legal maptype A (sm_offsets sm)"
  shows "\<exists>sm' smo' w' es. space_map_sync dmu_write pass txg sm maptype smo w = Some (sm', smo', w') \<and>
    sm_wf sm' \<and> sm_offsets sm' = {} \<and> same_frame sm sm' \<and> smo_object smo' = smo_object smo \<and>
    smo_alloc smo' = (if maptype = SM_ALLOC then smo_alloc smo + sm_space sm else smo_alloc smo - sm_space sm) \<and>
    contents w' (smo_object smo) = contents w (smo_object smo) @ es \<and>
    unat (smo_objsize smo') = 8 * length (contents w' (smo_object smo)) \<and> length es \<le> 2 ^ 47 + 1 \<and>
    log_set sm es A = Some (log_change maptype A (sm_offsets sm))"
proof (cases "sm_space sm = 0")
  case True
  then have "sm_offsets sm = {}"
    using sm_wf_card [OF assms(2)] by (simp add: sm_offsets_def)
  then show ?thesis using True assms
    by (intro exI [of _ sm] exI [of _ smo] exI [of _ w] exI [of _ "[]"])
      (simp add: space_map_sync_def same_frame_def log_change_def)
next
  case False
  obtain L t where L: "avl_drain (sm_root sm) Cookie_null = Some (L, t)" "distinct L" "set L = set (sm_segs sm)"
    "mset L = mset (sm_segs sm)" "avl_wf t" "avl_list t = []" "avl_compar t = space_map_seg_compare"
    by (rule sm_drain [OF assms(2)])
  define smo1 where "smo1 = smo\<lparr>smo_alloc := (if maptype = SM_ALLOC then smo_alloc smo + sm_space sm else smo_alloc smo - sm_space sm)\<rparr>"
  define bufsize where "bufsize = min ((8 + of_nat (avl_numnodes (sm_root sm))) * 8) (push_bit SPACE_MAP_BLOCKSHIFT 1 :: u64)"
  define debug where "debug = (SM_DEBUG_ENCODE 1 OR SM_DEBUG_ACTION_ENCODE maptype OR SM_DEBUG_SYNCPASS_ENCODE pass OR SM_DEBUG_TXG_ENCODE txg)"
  define st0 where "st0 = \<lparr>sy_entries = [debug], sy_smo = smo1, sy_store = w\<rparr>"
  define st where "st = sync_segs dmu_write bufsize maptype (sm_start sm) (sm_shift sm) L st0"
  have off: "seg_offsets L = sm_offsets sm" using L(3) by (simp add: sm_offsets_def seg_offsets_def)
  have "mset (map (seg_units sm) L) = mset (map (seg_units sm) (sm_segs sm))" using L(4) by simp
  then have "sum_list (map (seg_units sm) L) = sum_list (map (seg_units sm) (sm_segs sm))" by (rule sum_list_mset_cong)
  then have units: "sum_list (map (seg_units sm) L) \<le> 2 ^ 47" using seg_units_sum [OF assms(2,4)] by simp
  have log0: "sync_log contents st0 = contents w (smo_object smo) @ [debug]" "sync_ok contents st0"
    using assms(6,7) by (simp_all add: sync_log_def sync_ok_def st0_def smo1_def)
  have len: "8 * (length (sync_log contents st0) + sum_list (map (seg_units sm) L)) < 2 ^ 64"
    using assms(7) units unfolding log0(1) by simp
  obtain es where es: "sync_ok contents st" "sync_log contents st = sync_log contents st0 @ es" "sync_smo (sy_smo st0) (sy_smo st)"
    "length es \<le> sum_list (map (seg_units sm) L)" "log_set sm es A = Some (log_change maptype A (seg_offsets L))"
    using sync_segs_ok [OF assms(1,2,4,5) log0(2) len, of A bufsize] L(2,3) assms(8) off unfolding st_def by auto
  define st' where "st' = (if sy_entries st \<noteq> [] then sync_flush dmu_write st else st)"
  have st': "sync_ok contents st'" "sync_log contents st' = sync_log contents st" "sy_entries st' = []" "sync_smo (sy_smo st) (sy_smo st')"
    using sync_flush_ok [OF assms(1) es(1)] es(1) by (auto simp: st'_def sync_smo_def)
  have smo': "smo_object (sy_smo st') = smo_object smo" "smo_alloc (sy_smo st') = smo_alloc smo1"
    using es(3) st'(4) by (simp_all add: sync_smo_def st0_def smo1_def)
  have cont: "contents (sy_store st') (smo_object smo) = contents w (smo_object smo) @ debug # es"
    using st'(2,3) es(2) log0(1) smo'(1) by (simp add: sync_log_def)
  have "mset (map (\<lambda>s. uend s - ustart s) L) = mset (map (\<lambda>s. uend s - ustart s) (sm_segs sm))" using L(4) by simp
  then have "sum_list (map (\<lambda>s. uend s - ustart s) L) = sum_list (map (\<lambda>s. uend s - ustart s) (sm_segs sm))" by (rule sum_list_mset_cong)
  then have "seg_total L = unat (sm_space sm)" using assms(2) by (simp add: seg_total_def sm_wf_def)
  moreover have "\<forall>s\<in>set L. ustart s < uend s" using assms(2) L(3) by (simp add: sm_wf_def separate_def)
  ultimately have delta: "sum_list (map (\<lambda>ss. ss_end ss - ss_start ss) L) = sm_space sm" by (simp add: seg_sum_words)
  have eq: "space_map_sync dmu_write pass txg sm maptype smo w = Some (sm\<lparr>sm_root := t, sm_space := 0\<rparr>, sy_smo st', sy_store st')"
    using False L(1) delta
    by (simp add: space_map_sync_def Let_def smo1_def bufsize_def debug_def st0_def st_def st'_def)
  have "log_set sm (debug # es) A = Some (log_change maptype A (sm_offsets sm))"
    using es(5) off debug_decode by (simp add: log_step_def debug_def)
  moreover have "unat (smo_objsize (sy_smo st')) = 8 * length (contents (sy_store st') (smo_object smo))"
    using st'(1) smo'(1) by (simp add: sync_ok_def)
  ultimately show ?thesis
    using eq sm_wf_emptied [OF assms(2) L(5-7) assms(3)] smo' cont units es(4)
    by (intro exI [of _ "sm\<lparr>sm_root := t, sm_space := 0\<rparr>"] exI [of _ "sy_smo st'"] exI [of _ "sy_store st'"] exI [of _ "debug # es"])
      (simp add: smo1_def)
qed

section \<open>The round trip\<close>

lemma sm_wf_flags [simp]:
  "sm_wf (sm\<lparr>sm_loading := b\<rparr>) = sm_wf sm" "sm_wf (sm\<lparr>sm_loaded := b\<rparr>) = sm_wf sm" "sm_wf (sm\<lparr>sm_ops := v\<rparr>) = sm_wf sm"
  "sm_offsets (sm\<lparr>sm_loading := b\<rparr>) = sm_offsets sm" "sm_offsets (sm\<lparr>sm_loaded := b\<rparr>) = sm_offsets sm"
  "sm_offsets (sm\<lparr>sm_ops := v\<rparr>) = sm_offsets sm"
  by (simp_all add: sm_wf_def sm_offsets_def sm_range_def aligned_def)

lemma space_map_load_ok:
  fixes sm :: "'o space_map"
  assumes "dmu_reads contents dmu_read" "sm_wf sm" "sm_loggable sm" "aligned sm (unat (sm_size sm))" "sm_size sm \<noteq> 0"
    "unat (smo_objsize smo) = 8 * length (contents w (smo_object smo))" "length (contents w (smo_object smo)) \<le> 2 ^ 61 - 2048"
    "log_set sm (contents w (smo_object smo)) {} = Some B" "unat (smo_alloc smo) = card B" "maptype = SM_ALLOC \<or> maptype = SM_FREE"
  shows "\<exists>m :: 'o space_map. space_map_load optable (dmu_read w) zr (space_map_create (sm_start sm) (sm_size sm) (sm_shift sm)) None maptype smo = Some (0, m) \<and>
    sm_wf m \<and> sm_loaded m \<and> \<not> sm_loading m \<and> sm_offsets m = log_view sm maptype B"
proof -
  define m0 :: "'o space_map" where "m0 = space_map_create (sm_start sm) (sm_size sm) (sm_shift sm)"
  let ?m1 = "m0\<lparr>sm_loading := True\<rparr>" and ?es = "contents w (smo_object smo)"
  have frame: "unat (sm_start sm) + unat (sm_size sm) < 2 ^ 64" "sm_shift sm < 64" using assms(2) by (simp_all add: sm_wf_def)
  have m0: "sm_wf ?m1" "sm_offsets ?m1 = {}" "same_range sm ?m1"
    using space_map_create_wf [OF frame] by (simp_all add: m0_def same_range_def) (simp_all add: space_map_create_def)
  have al: "aligned sm (unat (sm_start sm))" using assms(3) by (simp add: sm_loggable_def)
  have ne: "SM_FREE \<noteq> SM_ALLOC" by (simp add: SM_FREE_def SM_ALLOC_def)
  have fits: "sm_fits ?m1 (sm_start sm) (sm_size sm)"
    using m0(3) al assms(4,5) by (simp add: sm_fits_def same_range_def aligned_def)
  obtain m2 where m2: "(if maptype = SM_FREE then space_map_add zr ?m1 (sm_start sm) (sm_size sm) else Some ?m1) = Some m2"
    "sm_wf m2" "same_frame ?m1 m2" "sm_offsets m2 = log_view sm maptype {}"
  proof (cases "maptype = SM_FREE")
    case True
    then show thesis
      using that space_map_add_ok [OF m0(1) fits, of zr] m0(2) ne by (auto simp: log_view_def sm_range_def)
  next
    case False
    then show thesis using that [of ?m1] m0 assms(10) by (simp add: log_view_def same_frame_def)
  qed
  have sr: "same_range sm m2" "aligned m2 (unat (sm_start m2))"
    using same_range_frame [OF m0(3) m2(3)] al by (simp_all add: same_range_def aligned_def)
  obtain m3 where m3: "load_entries zr maptype (sm_start sm) ?es m2 = Some m3" "sm_wf m3" "same_frame m2 m3"
    "sm_offsets m3 = log_view sm maptype B"
    using load_entries_ok [OF assms(8) _ assms(10) m2(2) sr m2(4), of zr] by auto
  have "8 * length ?es + 8192 < 2 ^ 64" using assms(7) by simp
  then have loop: "load_loop (dmu_read w) zr maptype (sm_start sm) (smo_object smo) (smo_objsize smo) 0 m2 = Some (0, m3)"
    using load_loop_ok [OF assms(1,6), of 0 0 zr maptype "sm_start sm" m2] m3(1) by simp
  have B: "B \<subseteq> sm_range sm" using log_set_range [OF assms(8)] by simp
  have cB: "card B \<le> unat (sm_size sm)" using card_mono [OF _ B] by (simp add: sm_range_def)
  have "card (sm_range sm - B) = unat (sm_size sm) - card B"
    using card_Diff_subset [OF finite_subset [OF B] B] by (simp add: sm_range_def)
  then have "unat (sm_space m3) = unat (if maptype = SM_FREE then sm_size sm - smo_alloc smo else smo_alloc smo)"
    using sm_wf_card [OF m3(2)] m3(4) assms(9,10) ne cB by (auto simp: log_view_def unat_sub word_le_nat_alt)
  then have space: "sm_space m3 = (if maptype = SM_FREE then sm_size sm - smo_alloc smo else smo_alloc smo)"
    by (simp only: word_unat_eq_iff)
  let ?m = "m3\<lparr>sm_loaded := True, sm_ops := None, sm_loading := False\<rparr>"
  have fm: "sm_start m0 = sm_start sm" "sm_size m0 = sm_size sm" "sm_space m0 = 0" "\<not> sm_loaded m0" "\<not> sm_loading m0" "sm_ops m0 = None"
    by (simp_all add: m0_def space_map_create_def)
  have "space_map_load optable (dmu_read w) zr m0 None maptype smo = Some (0, ?m)"
  proof (cases "maptype = SM_FREE")
    case True
    then show ?thesis using m2(1) loop space fm by (simp add: space_map_load_def Let_def)
  next
    case False
    then show ?thesis using m2(1) loop space fm by (simp add: space_map_load_def Let_def)
  qed
  then show ?thesis using m3(2,4) by (auto simp: m0_def)
qed

text \<open>
  C20. What is synced is what is loaded.  Let the object hold a log of the allocated offsets \<open>A\<close>, with
  their number in \<^verbatim>\<open>smo_alloc\<close>.  Syncing a map of offsets that are not in \<open>A\<close> as allocations, or of
  offsets of \<open>A\<close> as frees, empties the map, and loading the object afterwards, in any pool state, gives
  exactly the new allocated offsets when it is loaded as \<^verbatim>\<open>SM_ALLOC\<close> and the rest of the range when
  it is loaded as \<^verbatim>\<open>SM_FREE\<close>.  The splitting into runs, the buffering of the entries, the order in
  which segments are written and the blockwise reading do not show.
\<close>

theorem space_map_sync_load:
  fixes sm :: "'o space_map"
  assumes store: "dmu_reads contents dmu_read" "dmu_appends contents dmu_write"
    and map: "sm_wf sm" "sm_pp_root sm = None" "sm_loggable sm" "aligned sm (unat (sm_size sm))"
    and obj: "unat (smo_objsize smo) = 8 * length (contents w (smo_object smo))" "length (contents w (smo_object smo)) \<le> 2 ^ 60"
      "log_set sm (contents w (smo_object smo)) {} = Some A" "unat (smo_alloc smo) = card A"
    and change: "maptype = SM_ALLOC \<or> maptype = SM_FREE" "log_legal maptype A (sm_offsets sm)" "sm_offsets sm \<noteq> {}"
  shows "\<exists>sm' smo' w'. space_map_sync dmu_write pass txg sm maptype smo w = Some (sm', smo', w') \<and>
    sm_wf sm' \<and> sm_offsets sm' = {} \<and>
    (\<forall>ty\<in>{SM_ALLOC, SM_FREE}. \<exists>m :: 'o space_map.
       space_map_load optable (dmu_read w') zr (space_map_create (sm_start sm) (sm_size sm) (sm_shift sm)) None ty smo' = Some (0, m) \<and>
       sm_wf m \<and> sm_offsets m = log_view sm ty (if maptype = SM_ALLOC then A \<union> sm_offsets sm else A - sm_offsets sm))"
proof -
  let ?B = "log_change maptype A (sm_offsets sm)"
  obtain sm' smo' w' es where sync: "space_map_sync dmu_write pass txg sm maptype smo w = Some (sm', smo', w')"
    "sm_wf sm'" "sm_offsets sm' = {}" "smo_object smo' = smo_object smo"
    "smo_alloc smo' = (if maptype = SM_ALLOC then smo_alloc smo + sm_space sm else smo_alloc smo - sm_space sm)"
    "contents w' (smo_object smo) = contents w (smo_object smo) @ es"
    "unat (smo_objsize smo') = 8 * length (contents w' (smo_object smo))" "length es \<le> 2 ^ 47 + 1"
    "log_set sm es A = Some ?B"
    using space_map_sync_log [OF store(2) map(1-3) change(1) obj(1,2) change(2)] by blast
  have A: "A \<subseteq> sm_range sm" using log_set_range [OF obj(3)] by simp
  have fin: "finite A" "finite (sm_offsets sm)" using finite_subset [OF A] by (simp_all add: sm_range_def sm_offsets_def)
  have S: "sm_offsets sm \<subseteq> sm_range sm" using map(1) by (simp add: sm_wf_def)
  have "card (A \<union> sm_offsets sm) \<le> unat (sm_size sm)"
    using card_mono [of "sm_range sm" "A \<union> sm_offsets sm"] A S by (simp add: sm_range_def)
  moreover have "unat (sm_size sm) < 2 ^ 64" using unsigned_less [of "sm_size sm", where 'a = nat] by simp
  ultimately have alloc: "unat (smo_alloc smo') = card ?B"
    using change(1,2) obj(4) sync(5) sm_wf_card [OF map(1)] fin card_mono [OF fin(1), of "sm_offsets sm"]
    by (auto simp: log_change_def log_legal_def card_Un_disjoint Int_commute card_Diff_subset unat_plus unat_sub word_le_nat_alt SM_ALLOC_def SM_FREE_def)
  have size0: "sm_size sm \<noteq> 0" using S change(3) by (auto simp: sm_range_def)
  have log: "log_set sm (contents w' (smo_object smo')) {} = Some ?B"
    using obj(3) sync(4,6,9) by (simp add: log_set_append)
  have len: "length (contents w' (smo_object smo')) \<le> 2 ^ 61 - 2048" using obj(2) sync(4,6,8) by simp
  have "\<exists>m :: 'o space_map. space_map_load optable (dmu_read w') zr (space_map_create (sm_start sm) (sm_size sm) (sm_shift sm)) None ty smo' = Some (0, m) \<and>
      sm_wf m \<and> sm_offsets m = log_view sm ty ?B" if "ty \<in> {SM_ALLOC, SM_FREE}" for ty
    using space_map_load_ok [OF store(1) map(1,3,4) size0 _ len log alloc, of ty optable zr] that sync(4,7) by auto
  then show ?thesis using sync(1-3) unfolding log_change_def by blast
qed

definition demo_ops :: "unit \<Rightarrow> unit space_map_ops" where
  "demo_ops v = \<lparr>smop_load = Some, smop_unload = Some, smop_alloc = \<lambda>sm sz. Some (- 1, sm),
     smop_claim = \<lambda>sm start sz. Some sm, smop_free = \<lambda>sm start sz. Some sm, smop_max = \<lambda>sm. Some 0, smop_fragmented = \<lambda>sm. Some True\<rparr>"

definition demo_read :: "(u64 \<Rightarrow> u64 list) \<Rightarrow> dmu_read" where
  "demo_read w obj off sz = (0, take (unat sz div 8) (drop (unat off div 8) (w obj)))"

definition demo_write :: "(u64 \<Rightarrow> u64 list) dmu_write" where
  "demo_write obj off es w = w(obj := take (unat off div 8) (w obj) @ es @ drop (unat off div 8 + length es) (w obj))"

theorem space_map_sync_load_witness:
  "\<exists>(sm :: unit space_map) sm' smo' w' (m :: unit space_map). space_map_add False demo_map 8192 1024 = Some sm \<and>
    space_map_sync demo_write 1 7 sm SM_ALLOC \<lparr>smo_object = 5, smo_objsize = 0, smo_alloc = 0\<rparr> (\<lambda>_. []) = Some (sm', smo', w') \<and>
    space_map_load demo_ops (demo_read w') False (space_map_create (sm_start sm) (sm_size sm) (sm_shift sm)) None SM_ALLOC smo' = Some (0, m) \<and>
    sm_offsets m = {8192..<9216}"
proof -
  obtain sm where sm: "space_map_add False demo_map 8192 1024 = Some sm" "sm_wf sm" "same_frame demo_map sm" "sm_offsets sm = {8192..<9216}"
    using space_map_add_ok [OF demo_map_wf(1,3), of False] demo_map_wf(2) by auto
  have f: "sm_start sm = 4096" "sm_size sm = 65536" "sm_shift sm = 9" "sm_pp_root sm = None"
    using sm(3) by (simp_all add: same_frame_def demo_map_def space_map_create_def)
  have store: "dmu_reads (\<lambda>w. w) demo_read" "dmu_appends (\<lambda>w. w) demo_write"
    by (simp_all add: dmu_reads_def dmu_appends_def demo_read_def demo_write_def)
  have map: "sm_loggable sm" "aligned sm (unat (sm_size sm))" by (simp_all add: sm_loggable_def aligned_def f)
  show ?thesis
    using space_map_sync_load [OF store sm(2) f(4) map, of "\<lparr>smo_object = 5, smo_objsize = 0, smo_alloc = 0\<rparr>" "\<lambda>_. []" "{}" SM_ALLOC 1 7 demo_ops False]
      sm(1,4) by (auto simp: log_legal_def log_view_def)
qed

end
