(* ===== verification/Vdev.thy ===== *)
theory Vdev
  imports SpaceMap
begin

text \<open>
  The dirty time logs of the virtual devices of a ZFS pool (\<^verbatim>\<open>zfs/vdev.c\<close>, with the types of
  \<^verbatim>\<open>zfs/sys/vdev.h\<close> and \<^verbatim>\<open>zfs/sys/vdev_impl.h\<close>): for every device the transaction groups that
  it misses, kept as space maps, recomputed bottom up after a scrub or a change of the configuration, and
  the two questions the pool asks of them, whether a device can be detached and what has to be resilvered.
  The tree of devices is a datatype; a pointer to a device is its address, and \<^verbatim>\<open>vdev_top\<close> of a device
  is the tree that the operation is given.  The calls of \<^verbatim>\<open>vdev_dirty\<close>, which put a device on the
  lists of a transaction group, are returned in order.  A failed assertion is \<open>None\<close>.
\<close>

section \<open>Devices\<close>

datatype vdev_dtl_type = DTL_MISSING | DTL_PARTIAL | DTL_SCRUB | DTL_OUTAGE

datatype vdev_ops = vdev_root_ops | vdev_raidz_ops | vdev_mirror_ops | vdev_replacing_ops | vdev_spare_ops
  | vdev_disk_ops | vdev_file_ops | vdev_missing_ops | vdev_hole_ops

fun vdev_op_leaf :: "vdev_ops \<Rightarrow> bool" where
  "vdev_op_leaf vdev_root_ops = False"
| "vdev_op_leaf vdev_raidz_ops = False"
| "vdev_op_leaf vdev_mirror_ops = False"
| "vdev_op_leaf vdev_replacing_ops = False"
| "vdev_op_leaf vdev_spare_ops = False"
| "vdev_op_leaf vdev_disk_ops = True"
| "vdev_op_leaf vdev_file_ops = True"
| "vdev_op_leaf vdev_missing_ops = True"
| "vdev_op_leaf vdev_hole_ops = True"

record vdev_fields =
  vdev_addr :: nat
  vdev_state :: u64
  vdev_ops :: vdev_ops
  vdev_dtl :: "vdev_dtl_type \<Rightarrow> unit space_map"
  vdev_ishole :: bool
  vdev_nparity :: u64
  vdev_cant_read :: bool
  vdev_cant_write :: bool
  vdev_aux :: bool

datatype vdev = Vdev (vdev_self: vdev_fields) (vdev_child: "vdev list")

text \<open>The parts of the pool that the logs depend on; \<open>dp_scan\<close> is the error count of the scan, if there is one.\<close>

record spa =
  spa_root_vdev :: nat
  spa_writeable :: bool
  spa_scrub_started :: bool
  dp_scan :: "u64 option"

definition VDEV_STATE_DEGRADED :: u64 where
  "VDEV_STATE_DEGRADED = 6"

definition vdev_is_dead :: "vdev_fields \<Rightarrow> bool" where
  "vdev_is_dead vd \<longleftrightarrow> vdev_state vd < VDEV_STATE_DEGRADED \<or> vdev_ishole vd \<or> vdev_ops vd = vdev_missing_ops"

definition vdev_readable :: "vdev_fields \<Rightarrow> bool" where
  "vdev_readable vd \<longleftrightarrow> \<not> vdev_is_dead vd \<and> \<not> vdev_cant_read vd"

definition vdev_writeable :: "vdev_fields \<Rightarrow> bool" where
  "vdev_writeable vd \<longleftrightarrow> \<not> vdev_is_dead vd \<and> \<not> vdev_cant_write vd"

definition set_dtl :: "vdev_dtl_type \<Rightarrow> unit space_map \<Rightarrow> vdev_fields \<Rightarrow> vdev_fields" where
  "set_dtl t sm vd = vd\<lparr>vdev_dtl := (vdev_dtl vd)(t := sm)\<rparr>"

section \<open>Reading and extending a log\<close>

text \<open>The loop of \<^verbatim>\<open>vdev_alloc_common\<close> that makes the logs of a new device.\<close>

definition vdev_dtl_create :: "vdev_dtl_type \<Rightarrow> unit space_map" where
  "vdev_dtl_create t = space_map_create 0 (- 1) 0"

definition vdev_dtl_dirty :: "bool \<Rightarrow> spa \<Rightarrow> vdev_fields \<Rightarrow> vdev_dtl_type \<Rightarrow> u64 \<Rightarrow> u64 \<Rightarrow> vdev_fields option" where
  "vdev_dtl_dirty zfs_recover spa vd t txg sz =
     (let sm = vdev_dtl vd t in
      require (vdev_addr vd \<noteq> spa_root_vdev spa \<and> spa_writeable spa)
        (Option.bind (space_map_contains sm txg sz) (\<lambda>present.
           if \<not> present then map_option (\<lambda>sm. set_dtl t sm vd) (space_map_add zfs_recover sm txg sz)
           else Some vd)))"

definition vdev_dtl_contains :: "spa \<Rightarrow> vdev_fields \<Rightarrow> vdev_dtl_type \<Rightarrow> u64 \<Rightarrow> u64 \<Rightarrow> bool option" where
  "vdev_dtl_contains spa vd t txg sz =
     (let sm = vdev_dtl vd t in
      require (vdev_addr vd \<noteq> spa_root_vdev spa)
        (if sm_space sm \<noteq> 0 then space_map_contains sm txg sz else Some False))"

definition vdev_dtl_empty :: "vdev_fields \<Rightarrow> vdev_dtl_type \<Rightarrow> bool" where
  "vdev_dtl_empty vd t \<longleftrightarrow> sm_space (vdev_dtl vd t) = 0"

section \<open>Recomputing the logs\<close>

text \<open>
  A leaf: after a scrub up to \<open>scrub_txg\<close> the old region of \<open>DTL_MISSING\<close> is cut out with a segment of
  count \<open>- 1\<close> and \<open>DTL_SCRUB\<close> is folded in with count 2; then the other logs follow from
  \<open>DTL_MISSING\<close>.
\<close>

definition scrub_excise :: "kmem_alloc \<Rightarrow> bool \<Rightarrow> u64 \<Rightarrow> unit space_map \<Rightarrow> unit space_map \<Rightarrow> unit space_map option" where
  "scrub_excise kmem_alloc zfs_recover scrub_txg missing scrub =
     Option.bind (space_map_ref_add_map kmem_alloc space_map_ref_create missing 1) (\<lambda>reftree.
     Option.bind (space_map_ref_add_seg kmem_alloc reftree 0 scrub_txg (- 1)) (\<lambda>reftree.
     Option.bind (space_map_ref_add_map kmem_alloc reftree scrub 2) (\<lambda>reftree.
     Option.bind (space_map_ref_generate_map zfs_recover reftree missing 1) (\<lambda>missing.
     Option.bind (space_map_ref_destroy reftree) (\<lambda>u. Some missing)))))"

definition scrub_valid :: "spa \<Rightarrow> u64 \<Rightarrow> bool" where
  "scrub_valid spa scrub_txg \<longleftrightarrow> scrub_txg \<noteq> 0 \<and> (spa_scrub_started spa \<or> dp_scan spa = Some 0)"

definition leaf_reassess :: "kmem_alloc \<Rightarrow> bool \<Rightarrow> spa \<Rightarrow> u64 \<Rightarrow> bool \<Rightarrow> vdev_fields \<Rightarrow> vdev_fields option" where
  "leaf_reassess kmem_alloc zfs_recover spa scrub_txg scrub_done vd =
     Option.bind (if scrub_valid spa scrub_txg
        then map_option (\<lambda>sm. set_dtl DTL_MISSING sm vd)
               (scrub_excise kmem_alloc zfs_recover scrub_txg (vdev_dtl vd DTL_MISSING) (vdev_dtl vd DTL_SCRUB))
        else Some vd) (\<lambda>vd.
     Option.bind (space_map_vacate (vdev_dtl vd DTL_PARTIAL) None ()) (\<lambda>(sm, u).
     Option.bind (space_map_walk (vdev_dtl vd DTL_MISSING) (space_map_add zfs_recover) sm) (\<lambda>sm.
       let vd = set_dtl DTL_PARTIAL sm vd in
     Option.bind (if scrub_done
        then map_option (\<lambda>(sm, u). set_dtl DTL_SCRUB sm vd) (space_map_vacate (vdev_dtl vd DTL_SCRUB) None ())
        else Some vd) (\<lambda>vd.
     Option.bind (space_map_vacate (vdev_dtl vd DTL_OUTAGE) None ()) (\<lambda>(sm, u).
     Option.bind (if \<not> vdev_readable vd then space_map_add zfs_recover sm 0 (- 1)
        else space_map_walk (vdev_dtl vd DTL_MISSING) (space_map_add zfs_recover) sm) (\<lambda>sm.
       Some (set_dtl DTL_OUTAGE sm vd)))))))"

text \<open>
  An interior device: a transaction group enters a log when the logs of enough children hold it.  The
  limit \<open>minref\<close> is a C \<^verbatim>\<open>int\<close>.
\<close>

fun ref_add_maps :: "kmem_alloc \<Rightarrow> unit space_map list \<Rightarrow> space_ref avl_tree \<Rightarrow> space_ref avl_tree option" where
  "ref_add_maps kmem_alloc [] reftree = Some reftree"
| "ref_add_maps kmem_alloc (sm # sms) reftree =
     Option.bind (space_map_ref_add_map kmem_alloc reftree sm 1) (ref_add_maps kmem_alloc sms)"

definition dtl_minref :: "vdev_fields \<Rightarrow> nat \<Rightarrow> vdev_dtl_type \<Rightarrow> u32" where
  "dtl_minref vd children t =
     (if t = DTL_PARTIAL then 1
      else if vdev_nparity vd \<noteq> 0 then ucast (vdev_nparity vd + 1)
      else of_nat children)"

fun interior_loop :: "kmem_alloc \<Rightarrow> bool \<Rightarrow> vdev list \<Rightarrow> vdev_dtl_type list \<Rightarrow> vdev_fields \<Rightarrow> vdev_fields option" where
  "interior_loop kmem_alloc zfs_recover cs [] vd = Some vd"
| "interior_loop kmem_alloc zfs_recover cs (t # ts) vd =
     (let s = if t = DTL_MISSING then DTL_OUTAGE else t in
      if t = DTL_SCRUB then interior_loop kmem_alloc zfs_recover cs ts vd
      else Option.bind (ref_add_maps kmem_alloc (map (\<lambda>c. vdev_dtl (vdev_self c) s) cs) space_map_ref_create) (\<lambda>reftree.
           Option.bind (space_map_ref_generate_map zfs_recover reftree (vdev_dtl vd t) (scast (dtl_minref vd (length cs) t))) (\<lambda>sm.
           Option.bind (space_map_ref_destroy reftree) (\<lambda>u.
             interior_loop kmem_alloc zfs_recover cs ts (set_dtl t sm vd)))))"

definition dtl_skipped :: "spa \<Rightarrow> vdev_fields \<Rightarrow> bool" where
  "dtl_skipped spa vd \<longleftrightarrow> vdev_addr vd = spa_root_vdev spa \<or> vdev_ishole vd \<or> vdev_aux vd"

fun vdev_dtl_reassess :: "kmem_alloc \<Rightarrow> bool \<Rightarrow> spa \<Rightarrow> vdev \<Rightarrow> u64 \<Rightarrow> u64 \<Rightarrow> bool \<Rightarrow> (vdev \<times> (nat \<times> u64) list) option"
and reassess_children :: "kmem_alloc \<Rightarrow> bool \<Rightarrow> spa \<Rightarrow> vdev list \<Rightarrow> u64 \<Rightarrow> u64 \<Rightarrow> bool \<Rightarrow> (vdev list \<times> (nat \<times> u64) list) option" where
  "vdev_dtl_reassess kmem_alloc zfs_recover spa (Vdev vd cs) txg scrub_txg scrub_done =
     Option.bind (reassess_children kmem_alloc zfs_recover spa cs txg scrub_txg scrub_done) (\<lambda>(cs, dirty).
       if dtl_skipped spa vd then Some (Vdev vd cs, dirty)
       else if vdev_op_leaf (vdev_ops vd) then
         Option.bind (leaf_reassess kmem_alloc zfs_recover spa scrub_txg scrub_done vd) (\<lambda>vd.
           Some (Vdev vd cs, dirty @ (if txg \<noteq> 0 then [(vdev_addr vd, txg)] else [])))
       else
         Option.bind (interior_loop kmem_alloc zfs_recover cs [DTL_MISSING, DTL_PARTIAL, DTL_SCRUB, DTL_OUTAGE] vd) (\<lambda>vd.
           Some (Vdev vd cs, dirty)))"
| "reassess_children kmem_alloc zfs_recover spa [] txg scrub_txg scrub_done = Some ([], [])"
| "reassess_children kmem_alloc zfs_recover spa (c # cs) txg scrub_txg scrub_done =
     Option.bind (vdev_dtl_reassess kmem_alloc zfs_recover spa c txg scrub_txg scrub_done) (\<lambda>(c, d).
     Option.bind (reassess_children kmem_alloc zfs_recover spa cs txg scrub_txg scrub_done) (\<lambda>(cs, ds).
       Some (c # cs, d @ ds)))"

section \<open>Questions about the logs\<close>

text \<open>
  Loading and storing through a pointer to a device of the tree; addresses are distinct, so the load finds
  at most one.
\<close>

fun vdev_load_at :: "nat \<Rightarrow> vdev \<Rightarrow> vdev_fields list" where
  "vdev_load_at a (Vdev vd cs) = (if vdev_addr vd = a then [vd] else []) @ concat (map (vdev_load_at a) cs)"

fun set_cant_read :: "nat \<Rightarrow> bool \<Rightarrow> vdev \<Rightarrow> vdev" where
  "set_cant_read a b (Vdev vd cs) =
     Vdev (if vdev_addr vd = a then vd\<lparr>vdev_cant_read := b\<rparr> else vd) (map (set_cant_read a b) cs)"

text \<open>
  \<open>vdev_dtl_required\<close> is given the top-level device \<open>tvd\<close> above the device at \<open>a\<close>; \<open>zio_injection\<close> is
  the answer of \<^verbatim>\<open>zio_handle_device_injection\<close>, if injection is enabled.
\<close>

definition vdev_dtl_required :: "kmem_alloc \<Rightarrow> bool \<Rightarrow> spa \<Rightarrow> u32 option \<Rightarrow> vdev \<Rightarrow> nat \<Rightarrow> (bool \<times> vdev) option" where
  "vdev_dtl_required kmem_alloc zfs_recover spa zio_injection tvd a =
     (if a = spa_root_vdev spa \<or> a = vdev_addr (vdev_self tvd) then Some (True, tvd)
      else case vdev_load_at a tvd of
        [] \<Rightarrow> None
      | vd # vds \<Rightarrow>
          Option.bind (vdev_dtl_reassess kmem_alloc zfs_recover spa (set_cant_read a True tvd) 0 0 False) (\<lambda>(tvd, dirty).
            let required = \<not> vdev_dtl_empty (vdev_self tvd) DTL_OUTAGE in
          Option.bind (vdev_dtl_reassess kmem_alloc zfs_recover spa (set_cant_read a (vdev_cant_read vd) tvd) 0 0 False) (\<lambda>(tvd, dirty).
            Some (if \<not> required then (case zio_injection of None \<Rightarrow> False | Some e \<Rightarrow> e \<noteq> 0) else required, tvd))))"

text \<open>\<open>vdev_resilver_needed\<close> returns what it stores through \<open>minp\<close> and \<open>maxp\<close>, when something is needed.\<close>

fun vdev_resilver_needed :: "vdev \<Rightarrow> (u64 \<times> u64) option option"
and resilver_children :: "vdev list \<Rightarrow> bool \<Rightarrow> u64 \<Rightarrow> u64 \<Rightarrow> (bool \<times> u64 \<times> u64) option" where
  "vdev_resilver_needed (Vdev vd cs) =
     (if cs = [] then
        let missing = vdev_dtl vd DTL_MISSING in
        if sm_space missing \<noteq> 0 \<and> vdev_writeable vd then
          (case (avl_first (sm_root missing), avl_last (sm_root missing)) of
             (Some ss, Some ss') \<Rightarrow> Some (Some (ss_start ss - 1, ss_end ss'))
           | _ \<Rightarrow> None)
        else Some None
      else
        Option.bind (resilver_children cs False (- 1) 0) (\<lambda>(needed, thismin, thismax).
          Some (if needed then Some (thismin, thismax) else None)))"
| "resilver_children [] needed thismin thismax = Some (needed, thismin, thismax)"
| "resilver_children (c # cs) needed thismin thismax =
     Option.bind (vdev_resilver_needed c) (\<lambda>r.
       case r of
         Some (cmin, cmax) \<Rightarrow> resilver_children cs True (min thismin cmin) (max thismax cmax)
       | None \<Rightarrow> resilver_children cs needed thismin thismax)"

end
