(* ===== verification/SpaceMapRef.thy ===== *)
theory SpaceMapRef
  imports SpaceMapProps
begin

text \<open>
  Reference trees: a tree of signed steps at offsets stands for a function from offsets to reference
  counts (\<open>coverage\<close>), adding a map adds its indicator function, and the sweep of
  \<^verbatim>\<open>space_map_ref_generate_map\<close> collects the offsets whose count reaches the limit.
\<close>

section \<open>Coverage\<close>

definition coverage :: "space_ref list \<Rightarrow> nat \<Rightarrow> int" where
  "coverage refs n = sum_list (map (\<lambda>r. if unat (sr_offset r) \<le> n then sint (sr_refcnt r) else 0) refs)"

definition ref_sum :: "space_ref list \<Rightarrow> int" where
  "ref_sum refs = sum_list (map (\<lambda>r. sint (sr_refcnt r)) refs)"

definition weight_at :: "space_ref list \<Rightarrow> u64 \<Rightarrow> int" where
  "weight_at refs x = sum_list (map (\<lambda>r. if sr_offset r = x then \<bar>sint (sr_refcnt r)\<bar> else 0) refs)"

definition steps :: "space_ref list \<Rightarrow> (u64 \<times> u64) set" where
  "steps refs = (\<lambda>r. (sr_offset r, sr_refcnt r)) ` set refs"

lemma coverage_simps [simp]:
  "coverage [] n = 0" "coverage (xs @ ys) n = coverage xs n + coverage ys n"
  "coverage (r # xs) n = (if unat (sr_offset r) \<le> n then sint (sr_refcnt r) else 0) + coverage xs n"
  by (simp_all add: coverage_def)

lemma ref_sum_simps [simp]: "ref_sum [] = 0" "ref_sum (xs @ ys) = ref_sum xs + ref_sum ys" "ref_sum (r # xs) = sint (sr_refcnt r) + ref_sum xs"
  by (simp_all add: ref_sum_def)

lemma weight_at_simps [simp]:
  "weight_at [] x = 0" "weight_at (xs @ ys) x = weight_at xs x + weight_at ys x"
  "weight_at (r # xs) x = (if sr_offset r = x then \<bar>sint (sr_refcnt r)\<bar> else 0) + weight_at xs x"
  by (simp_all add: weight_at_def)

lemma weight_at_nonneg: "0 \<le> weight_at refs x"
  by (induction refs) auto

lemma steps_simps [simp]: "steps [] = {}" "steps (xs @ ys) = steps xs \<union> steps ys" "steps (r # xs) = insert (sr_offset r, sr_refcnt r) (steps xs)"
  by (auto simp: steps_def)

lemma coverage_all: "\<forall>r\<in>set refs. unat (sr_offset r) \<le> n \<Longrightarrow> coverage refs n = ref_sum refs"
  by (induction refs) auto

lemma coverage_none: "\<forall>r\<in>set refs. n < unat (sr_offset r) \<Longrightarrow> coverage refs n = 0"
  by (induction refs) auto

lemma sint_plus: "- (2 ^ 63) \<le> sint x + sint y \<Longrightarrow> sint x + sint y < 2 ^ 63 \<Longrightarrow> sint (x + y :: u64) = sint x + sint y"
  by (simp add: sint_word_ariths signed_take_bit_int_eq_self)

lemma ordered_offsets: "srs.ordered refs \<Longrightarrow> sorted (map (\<lambda>r. unat (sr_offset r)) refs)"
proof (induction refs)
  case (Cons r refs)
  have "unat (sr_offset r) \<le> unat (sr_offset y)" if "y \<in> set refs" for y
  proof -
    have "space_map_ref_compare r y = - 1" using Cons.prems that by (simp add: srs.ordered_Cons)
    then have "\<not> sr_offset y < sr_offset r" by (auto simp: space_map_ref_compare_def split: if_splits)
    then show ?thesis by (simp add: word_less_nat_alt not_less)
  qed
  then show ?case using Cons by (simp add: srs.ordered_Cons)
qed simp

section \<open>Building a tree\<close>

definition fresh_alloc :: "kmem_alloc \<Rightarrow> bool" where
  "fresh_alloc kmem_alloc \<longleftrightarrow> (\<forall>t. kmem_alloc t \<notin> sr_addr ` set (avl_list t))"

definition ref_tree :: "space_ref avl_tree \<Rightarrow> bool" where
  "ref_tree t \<longleftrightarrow> avl_wf t \<and> srs.ordered (avl_list t) \<and> avl_compar t = space_map_ref_compare"

lemma ref_create_tree: "ref_tree space_map_ref_create" "avl_list space_map_ref_create = []"
  by (simp_all add: ref_tree_def space_map_ref_create_def avl_create_def avl_wf_def srs.ordered_def)

lemma ref_add_node_ok:
  assumes "fresh_alloc kmem_alloc" "ref_tree t"
  shows "\<exists>t' r xs ys. space_map_ref_add_node kmem_alloc t offset refcnt = Some t' \<and> ref_tree t' \<and>
    avl_list t = xs @ ys \<and> avl_list t' = xs @ r # ys \<and> sr_offset r = offset \<and> sr_refcnt r = refcnt"
proof -
  let ?r = "\<lparr>sr_addr = kmem_alloc t, sr_offset = offset, sr_refcnt = refcnt\<rparr>"
  have "\<forall>x\<in>set (avl_list t). space_map_ref_compare ?r x \<noteq> 0"
    using assms(1) by (auto simp: fresh_alloc_def space_map_ref_compare_def)
  then show ?thesis using srs.avl_add_ok [of t ?r] assms(2)
    unfolding ref_tree_def space_map_ref_add_node_def by fastforce
qed

lemma ref_add_seg_ok:
  assumes "fresh_alloc kmem_alloc" "ref_tree t" "unat start < unat end'" "sint (- refcnt) = - sint refcnt"
  shows "\<exists>t'. space_map_ref_add_seg kmem_alloc t start end' refcnt = Some t' \<and> ref_tree t' \<and>
    (\<forall>n. coverage (avl_list t') n = coverage (avl_list t) n + (if n \<in> {unat start..<unat end'} then sint refcnt else 0)) \<and>
    ref_sum (avl_list t') = ref_sum (avl_list t) \<and>
    (\<forall>x. weight_at (avl_list t') x = weight_at (avl_list t) x + (if x \<in> {start, end'} then \<bar>sint refcnt\<bar> else 0)) \<and>
    steps (avl_list t') = {(start, refcnt), (end', - refcnt)} \<union> steps (avl_list t)"
proof -
  obtain t1 r xs ys where 1: "space_map_ref_add_node kmem_alloc t start refcnt = Some t1" "ref_tree t1"
    "avl_list t = xs @ ys" "avl_list t1 = xs @ r # ys" "sr_offset r = start" "sr_refcnt r = refcnt"
    using ref_add_node_ok [OF assms(1,2)] by blast
  obtain t2 q us vs where 2: "space_map_ref_add_node kmem_alloc t1 end' (- refcnt) = Some t2" "ref_tree t2"
    "avl_list t1 = us @ vs" "avl_list t2 = us @ q # vs" "sr_offset q = end'" "sr_refcnt q = - refcnt"
    using ref_add_node_ok [OF assms(1) 1(2)] by blast
  have split: "us @ vs = xs @ r # ys" using 1(4) 2(3) by simp
  have c: "coverage us n + coverage vs n = coverage xs n + coverage ys n + (if unat start \<le> n then sint refcnt else 0)" for n
    using arg_cong [OF split, of "\<lambda>l. coverage l n"] 1(5,6) by simp
  have s: "ref_sum us + ref_sum vs = ref_sum xs + ref_sum ys + sint refcnt"
    using arg_cong [OF split, of ref_sum] 1(6) by simp
  have w: "weight_at us x + weight_at vs x = weight_at xs x + weight_at ys x + (if x = start then \<bar>sint refcnt\<bar> else 0)" for x
    using arg_cong [OF split, of "\<lambda>l. weight_at l x"] 1(5,6) by simp
  have st: "steps us \<union> steps vs = insert (start, refcnt) (steps xs \<union> steps ys)"
    using arg_cong [OF split, of steps] 1(5,6) by simp
  have "coverage (avl_list t2) n = coverage (avl_list t) n + (if n \<in> {unat start..<unat end'} then sint refcnt else 0)" for n
    using c [of n] 1(3) 2(4-6) assms(3,4) by auto
  moreover have "ref_sum (avl_list t2) = ref_sum (avl_list t)" using s 1(3) 2(4,6) assms(4) by simp
  moreover have "weight_at (avl_list t2) x = weight_at (avl_list t) x + (if x \<in> {start, end'} then \<bar>sint refcnt\<bar> else 0)" for x
    using w [of x] 1(3) 2(4-6) assms(3,4) by auto
  moreover have "steps (avl_list t2) = {(start, refcnt), (end', - refcnt)} \<union> steps (avl_list t)"
    using st 1(3) 2(4-6) by (simp add: insert_commute)
  ultimately show ?thesis using 1(1) 2(1,2) by (simp add: space_map_ref_add_seg_def)
qed

text \<open>
  \<open>ref_inv md F k t\<close>: the tree is in order, its steps lie in the range of the map \<open>md\<close> on its grid and
  sum up to 0, the count at every offset is \<open>F\<close> of it, and no count and no steps at one offset exceed \<open>k\<close>.
  A step up at the offset \<open>- 1\<close>, the mark of the sweep for no open run, is excluded.
\<close>

definition on_grid :: "'o space_map \<Rightarrow> u64 \<Rightarrow> bool" where
  "on_grid md x \<longleftrightarrow> unat (sm_start md) \<le> unat x \<and> unat x \<le> unat (sm_start md) + unat (sm_size md) \<and> aligned md (unat x)"

definition ref_inv :: "'o space_map \<Rightarrow> (nat \<Rightarrow> int) \<Rightarrow> int \<Rightarrow> space_ref avl_tree \<Rightarrow> bool" where
  "ref_inv md F k t \<longleftrightarrow> ref_tree t \<and> (\<forall>n. coverage (avl_list t) n = F n) \<and> ref_sum (avl_list t) = 0 \<and>
     (\<forall>n. \<bar>F n\<bar> \<le> k) \<and> (\<forall>x. weight_at (avl_list t) x \<le> k) \<and> (\<forall>(x, c)\<in>steps (avl_list t). on_grid md x \<and> (x = - 1 \<longrightarrow> sint c \<le> 0))"

lemma ref_inv_create: "ref_inv md (\<lambda>n. 0) 0 space_map_ref_create"
  using ref_create_tree by (simp add: ref_inv_def)

lemma seg_on_grid:
  assumes "sm_wf sm" "same_range sm md" "s \<in> set (sm_segs sm)"
  shows "ustart s < uend s" "on_grid md (ss_start s)" "on_grid md (ss_end s)"
proof -
  have "ustart s < uend s" "aligned sm (ustart s)" "aligned sm (uend s)" "{ustart s..<uend s} \<subseteq> sm_range sm"
    using assms(1,3) by (auto simp: sm_wf_def separate_def sm_offsets_def seg_offsets_def)
  then show "ustart s < uend s" "on_grid md (ss_start s)" "on_grid md (ss_end s)"
    using assms(2) by (auto simp: on_grid_def same_range_def aligned_def sm_range_def)
qed

lemma ref_add_segs_ok:
  assumes "fresh_alloc kmem_alloc" "sint (- refcnt) = - sint refcnt" "separate L" "ref_tree t"
  shows "\<exists>t'. ref_add_segs kmem_alloc refcnt L t = Some t' \<and> ref_tree t' \<and> ref_sum (avl_list t') = ref_sum (avl_list t) \<and>
    (\<forall>n. coverage (avl_list t') n = coverage (avl_list t) n + (if n \<in> seg_offsets L then sint refcnt else 0)) \<and>
    (\<forall>x. weight_at (avl_list t') x = weight_at (avl_list t) x + (if x \<in> ss_start ` set L \<union> ss_end ` set L then \<bar>sint refcnt\<bar> else 0)) \<and>
    steps (avl_list t') = (\<lambda>s. (ss_start s, refcnt)) ` set L \<union> (\<lambda>s. (ss_end s, - refcnt)) ` set L \<union> steps (avl_list t)"
  using assms(3,4)
proof (induction L arbitrary: t)
  case (Cons s L)
  have s: "ustart s < uend s" "separate L" "\<forall>b\<in>set L. uend s < ustart b" "\<forall>b\<in>set L. ustart b < uend b"
    using Cons.prems(1) by (auto simp: separate_Cons separate_def)
  obtain t1 where t1: "space_map_ref_add_seg kmem_alloc t (ss_start s) (ss_end s) refcnt = Some t1" "ref_tree t1"
    "\<And>n. coverage (avl_list t1) n = coverage (avl_list t) n + (if n \<in> {ustart s..<uend s} then sint refcnt else 0)"
    "ref_sum (avl_list t1) = ref_sum (avl_list t)"
    "\<And>x. weight_at (avl_list t1) x = weight_at (avl_list t) x + (if x \<in> {ss_start s, ss_end s} then \<bar>sint refcnt\<bar> else 0)"
    "steps (avl_list t1) = {(ss_start s, refcnt), (ss_end s, - refcnt)} \<union> steps (avl_list t)"
    using ref_add_seg_ok [OF assms(1) Cons.prems(2) s(1) assms(2)] by metis
  obtain t' where t': "ref_add_segs kmem_alloc refcnt L t1 = Some t'" "ref_tree t'" "ref_sum (avl_list t') = ref_sum (avl_list t1)"
    "\<And>n. coverage (avl_list t') n = coverage (avl_list t1) n + (if n \<in> seg_offsets L then sint refcnt else 0)"
    "\<And>x. weight_at (avl_list t') x = weight_at (avl_list t1) x + (if x \<in> ss_start ` set L \<union> ss_end ` set L then \<bar>sint refcnt\<bar> else 0)"
    "steps (avl_list t') = (\<lambda>s. (ss_start s, refcnt)) ` set L \<union> (\<lambda>s. (ss_end s, - refcnt)) ` set L \<union> steps (avl_list t1)"
    using Cons.IH [OF s(2) t1(2)] by metis
  have "ss_start s \<notin> ss_start ` set L \<union> ss_end ` set L" "ss_end s \<notin> ss_start ` set L \<union> ss_end ` set L"
    using s by (fastforce simp: image_iff)+
  then have "weight_at (avl_list t') x = weight_at (avl_list t) x +
      (if x \<in> ss_start ` set (s # L) \<union> ss_end ` set (s # L) then \<bar>sint refcnt\<bar> else 0)" for x
    using t1(5) [of x] t'(5) [of x] by auto
  moreover have "coverage (avl_list t') n = coverage (avl_list t) n + (if n \<in> seg_offsets (s # L) then sint refcnt else 0)" for n
    using t1(3) [of n] t'(4) [of n] separate_disjoint [OF Cons.prems(1)] by auto
  moreover have "steps (avl_list t') = (\<lambda>s. (ss_start s, refcnt)) ` set (s # L) \<union> (\<lambda>s. (ss_end s, - refcnt)) ` set (s # L) \<union> steps (avl_list t)"
    using t1(6) t'(6) by auto
  ultimately show ?case using t1(1,4) t'(1-3) by simp
qed simp

lemma ref_inv_add:
  assumes "ref_inv md F k t" "ref_tree t'" "ref_sum (avl_list t') = ref_sum (avl_list t)"
    "\<And>n. coverage (avl_list t') n = coverage (avl_list t) n + (if n \<in> S then c else 0)"
    "\<And>x. weight_at (avl_list t') x = weight_at (avl_list t) x + (if x \<in> X then \<bar>c\<bar> else 0)"
    "steps (avl_list t') = P \<union> steps (avl_list t)" "\<And>x c. (x, c) \<in> P \<Longrightarrow> on_grid md x \<and> (x = - 1 \<longrightarrow> sint c \<le> 0)"
  shows "ref_inv md (\<lambda>n. F n + (if n \<in> S then c else 0)) (k + \<bar>c\<bar>) t'"
proof -
  have "weight_at (avl_list t') x \<le> k + \<bar>c\<bar>" for x
    using assms(1) assms(5) [of x] abs_ge_zero [of c] unfolding ref_inv_def by (smt (verit))
  moreover have "\<bar>F n + (if n \<in> S then c else 0)\<bar> \<le> k + \<bar>c\<bar>" for n
    using assms(1) unfolding ref_inv_def by (smt (verit))
  ultimately show ?thesis using assms(1-4,6,7) unfolding ref_inv_def by auto
qed

lemma ref_add_map_ok:
  assumes "fresh_alloc kmem_alloc" "sint (- refcnt) = - sint refcnt" "0 \<le> sint refcnt" "sm_wf sm" "same_range sm md"
    "ref_inv md F k t"
  shows "\<exists>t'. space_map_ref_add_map kmem_alloc t sm refcnt = Some t' \<and>
    ref_inv md (\<lambda>n. F n + (if n \<in> sm_offsets sm then sint refcnt else 0)) (k + \<bar>sint refcnt\<bar>) t'"
proof -
  have sep: "separate (sm_segs sm)" and it: "avl_iterate (sm_root sm) (avl_first (sm_root sm)) = Some (sm_segs sm)"
    using avl_iterate_ok [of "sm_root sm"] assms(4) by (auto simp: sm_wf_def avl_wf_def)
  have t: "ref_tree t" using assms(6) by (simp add: ref_inv_def)
  let ?P = "(\<lambda>s. (ss_start s, refcnt)) ` set (sm_segs sm) \<union> (\<lambda>s. (ss_end s, - refcnt)) ` set (sm_segs sm)"
  obtain t' where t': "ref_add_segs kmem_alloc refcnt (sm_segs sm) t = Some t'" "ref_tree t'"
    "ref_sum (avl_list t') = ref_sum (avl_list t)"
    "\<And>n. coverage (avl_list t') n = coverage (avl_list t) n + (if n \<in> sm_offsets sm then sint refcnt else 0)"
    "\<And>x. weight_at (avl_list t') x = weight_at (avl_list t) x +
      (if x \<in> ss_start ` set (sm_segs sm) \<union> ss_end ` set (sm_segs sm) then \<bar>sint refcnt\<bar> else 0)"
    "steps (avl_list t') = ?P \<union> steps (avl_list t)"
    using ref_add_segs_ok [OF assms(1,2) sep t] unfolding sm_offsets_def by metis
  have "on_grid md x \<and> (x = - 1 \<longrightarrow> sint c \<le> 0)" if "(x, c) \<in> ?P" for x c
  proof -
    obtain s where s: "s \<in> set (sm_segs sm)" "(x, c) = (ss_start s, refcnt) \<or> (x, c) = (ss_end s, - refcnt)" using \<open>(x, c) \<in> ?P\<close> by auto
    have "ss_start s < ss_end s" using seg_on_grid(1) [OF assms(4,5) s(1)] by (simp add: word_less_nat_alt)
    then have "ss_start s \<noteq> - 1" using word_order.extremum_strict [of "ss_end s"] by auto
    then show ?thesis using s(2) seg_on_grid(2,3) [OF assms(4,5) s(1)] assms(2,3) by auto
  qed
  then have "ref_inv md (\<lambda>n. F n + (if n \<in> sm_offsets sm then sint refcnt else 0)) (k + \<bar>sint refcnt\<bar>) t'"
    using ref_inv_add [OF assms(6) t'(2-6)] by blast
  then show ?thesis using it t'(1) by (simp add: space_map_ref_add_map_def)
qed

section \<open>The sweep\<close>

lemma generate_loop_ok:
  assumes "sm_wf sm" "0 < sint minref" "sorted (map (\<lambda>r. unat (sr_offset r)) rs)"
    "\<forall>r\<in>set rs. on_grid sm (sr_offset r) \<and> (sr_offset r = - 1 \<longrightarrow> sint (sr_refcnt r) \<le> 0)"
    "\<And>us vs. rs = us @ vs \<Longrightarrow> \<bar>sint refcnt + ref_sum us\<bar> < 2 ^ 63" "sint refcnt + ref_sum rs = 0" "start = - 1 \<longleftrightarrow> sint refcnt < sint minref"
    "start \<noteq> - 1 \<Longrightarrow> on_grid sm start \<and> (\<forall>r\<in>set rs. unat start \<le> unat (sr_offset r)) \<and> (\<forall>n\<in>sm_offsets sm. n < unat start)"
    "\<forall>r\<in>set rs. \<forall>n\<in>sm_offsets sm. n < unat (sr_offset r)"
  shows "\<exists>sm'. generate_loop zfs_recover minref rs start refcnt sm = Some sm' \<and> sm_wf sm' \<and> same_frame sm sm' \<and>
    sm_offsets sm' = sm_offsets sm \<union> {n. (start \<noteq> - 1 \<longrightarrow> unat start \<le> n) \<and> sint minref \<le> sint refcnt + coverage rs n}"
  using assms
proof (induction rs arbitrary: start refcnt sm)
  case Nil
  then have "refcnt = 0" "start = - 1" by (auto simp: signed_eq_0_iff)
  then show ?case using Nil by (auto simp: same_frame_def)
next
  case (Cons r rs)
  let ?c = "refcnt + sr_refcnt r" and ?o = "unat (sr_offset r)"
  have c: "sint ?c = sint refcnt + sint (sr_refcnt r)"
    using Cons.prems(5) [of "[r]" rs] by (intro sint_plus) auto
  have before: "coverage rs n = 0" if "n < ?o" for n
    using Cons.prems(3) that by (intro coverage_none) fastforce
  have w: "\<bar>sint ?c + ref_sum us\<bar> < 2 ^ 63" if "rs = us @ vs" for us vs
    using Cons.prems(5) [of "r # us" vs] that c by (simp add: add.assoc)
  have z: "sint ?c + ref_sum rs = 0" using Cons.prems(6) c by simp
  note IH = Cons.IH [OF _ Cons.prems(2) _ _ w z]
  consider (up) "sint minref \<le> sint ?c" | (down) "sint ?c < sint minref" "start \<noteq> - 1" | (low) "sint ?c < sint minref" "start = - 1"
    by linarith
  then show ?case
  proof cases
    case up
    let ?s = "if start = - 1 then sr_offset r else start"
    have "\<exists>sm'. generate_loop zfs_recover minref rs ?s ?c sm = Some sm' \<and> sm_wf sm' \<and> same_frame sm sm' \<and>
        sm_offsets sm' = sm_offsets sm \<union> {n. (?s \<noteq> - 1 \<longrightarrow> unat ?s \<le> n) \<and> sint minref \<le> sint ?c + coverage rs n}"
      using Cons.prems(1,3,4,7-9) up c by (intro IH) auto
    moreover have "{n. (?s \<noteq> - 1 \<longrightarrow> unat ?s \<le> n) \<and> sint minref \<le> sint ?c + coverage rs n} =
        {n. (start \<noteq> - 1 \<longrightarrow> unat start \<le> n) \<and> sint minref \<le> sint refcnt + coverage (r # rs) n}"
      using Cons.prems(4,7,8) c up before by (auto simp: not_le)
    ultimately show ?thesis using up by (simp add: Let_def)
  next
    case down
    have st: "on_grid sm start" "unat start \<le> ?o" "\<forall>n\<in>sm_offsets sm. n < unat start" "sint minref \<le> sint refcnt"
      using Cons.prems(7,8) down(2) by auto
    obtain sm1 where sm1: "(if sr_offset r > start then space_map_add zfs_recover sm start (sr_offset r - start) else Some sm) = Some sm1"
      "sm_wf sm1" "same_frame sm sm1" "sm_offsets sm1 = sm_offsets sm \<union> {unat start..<?o}"
    proof (cases "start < sr_offset r")
      case True
      have d: "unat (sr_offset r - start) = ?o - unat start" using True by (simp add: unat_sub)
      have "unat start < ?o" using True by (simp add: word_less_nat_alt)
      moreover have "on_grid sm (sr_offset r)" using Cons.prems(4) by simp
      ultimately have "sm_fits sm start (sr_offset r - start)"
        using st(1,2) d True by (auto simp: sm_fits_def on_grid_def aligned_def)
      moreover have "range_of start (sr_offset r - start) = {unat start..<?o}" using d st(2) by simp
      moreover have "{unat start..<?o} \<inter> sm_offsets sm = {}" using st(3) by fastforce
      ultimately show ?thesis using that True space_map_add_ok [OF Cons.prems(1), of start "sr_offset r - start" zfs_recover] by auto
    next
      case False
      then show ?thesis using that [of sm] Cons.prems(1) st(2) by (auto simp: same_frame_def word_less_nat_alt)
    qed
    have fr: "on_grid sm1 = on_grid sm" using sm1(3) by (auto simp: fun_eq_iff on_grid_def same_frame_def aligned_def)
    have "\<exists>sm'. generate_loop zfs_recover minref rs (- 1) ?c sm1 = Some sm' \<and> sm_wf sm' \<and> same_frame sm1 sm' \<and>
        sm_offsets sm' = sm_offsets sm1 \<union> {n. (- 1 \<noteq> (- 1 :: u64) \<longrightarrow> unat (- 1 :: u64) \<le> n) \<and> sint minref \<le> sint ?c + coverage rs n}"
    proof (rule IH)
      show "\<forall>r\<in>set rs. \<forall>n\<in>sm_offsets sm1. n < unat (sr_offset r)" using Cons.prems(3,9) sm1(4) by fastforce
    qed (use Cons.prems(1,3,4,7,8) sm1(2) down(1) fr in auto)
    moreover have "sm_offsets sm1 \<union> {n. sint minref \<le> sint ?c + coverage rs n} =
        sm_offsets sm \<union> {n. unat start \<le> n \<and> sint minref \<le> sint refcnt + coverage (r # rs) n}"
      using sm1(4) st(2,4) c down(1) before by (auto simp: not_le not_less)
    moreover have "start \<le> sr_offset r" using st(2) by (simp add: word_le_nat_alt)
    ultimately show ?thesis using down sm1(1,3) by (auto simp: Let_def require_def same_frame_def)
  next
    case low
    have "\<exists>sm'. generate_loop zfs_recover minref rs start ?c sm = Some sm' \<and> sm_wf sm' \<and> same_frame sm sm' \<and>
        sm_offsets sm' = sm_offsets sm \<union> {n. (start \<noteq> - 1 \<longrightarrow> unat start \<le> n) \<and> sint minref \<le> sint ?c + coverage rs n}"
      using Cons.prems(1,3,4,7-9) low by (intro IH) auto
    moreover have "{n. sint minref \<le> sint ?c + coverage rs n} = {n. sint minref \<le> sint refcnt + coverage (r # rs) n}"
      using Cons.prems(7) c low before by (auto simp: not_le)
    ultimately show ?thesis using low by (simp add: Let_def)
  qed
qed

text \<open>A prefix of the sweep holds all steps below an offset and some of those at it.\<close>

lemma prefix_steps:
  assumes "\<forall>r\<in>set us. unat (sr_offset r) \<le> unat x"
  shows "\<bar>ref_sum us - (if unat x = 0 then 0 else coverage us (unat x - 1))\<bar> \<le> weight_at us x"
  using assms
proof (induction us)
  case (Cons r us)
  have "unat (sr_offset r) = unat x \<longleftrightarrow> sr_offset r = x" by (simp add: word_unat_eq_iff)
  then show ?case using Cons by (cases "unat x = 0") (auto split: if_splits)
qed simp

lemma prefix_bound:
  assumes "ref_inv md F k t" "avl_list t = us @ vs"
  shows "\<bar>ref_sum us\<bar> \<le> 2 * k"
proof (cases us rule: rev_cases)
  case Nil
  have "weight_at (avl_list t) 0 \<le> k" using assms(1) by (simp add: ref_inv_def)
  then show ?thesis using weight_at_nonneg [of "avl_list t" 0] Nil by simp
next
  case (snoc us' r)
  let ?x = "sr_offset r"
  have I: "srs.ordered (us @ vs)" "\<forall>n. coverage (us @ vs) n = F n" "\<forall>n. \<bar>F n\<bar> \<le> k" "\<forall>x. weight_at (us @ vs) x \<le> k"
    using assms unfolding ref_inv_def ref_tree_def by auto
  note so = ordered_offsets [OF I(1)]
  have F: "coverage us n + coverage vs n = F n" "\<bar>F n\<bar> \<le> k" for n using I(2,3) by simp_all
  have W: "weight_at us ?x + weight_at vs ?x \<le> k" using I(4) by simp
  have le: "\<forall>q\<in>set us. unat (sr_offset q) \<le> unat ?x" using so snoc by (auto simp: sorted_append)
  have "coverage vs (unat ?x - 1) = 0" if "unat ?x \<noteq> 0"
    using so snoc that by (intro coverage_none) (fastforce simp: sorted_append)
  then have "\<bar>if unat ?x = 0 then 0 else coverage us (unat ?x - 1)\<bar> \<le> k"
    using F(1) [of "unat ?x - 1"] F(2) [of "unat ?x - 1"] by auto
  then show ?thesis using prefix_steps [OF le] W weight_at_nonneg [of vs ?x] by linarith
qed

lemma generate_map_ok:
  assumes "ref_inv sm F k t" "2 * k < 2 ^ 63" "sm_wf sm" "sm_pp_root sm = None" "0 < sint minref"
  shows "\<exists>sm'. space_map_ref_generate_map zfs_recover t sm minref = Some sm' \<and> sm_wf sm' \<and> same_frame sm sm' \<and>
    sm_offsets sm' = {n. sint minref \<le> F n}"
proof -
  obtain sm0 where sm0: "space_map_vacate sm None () = Some (sm0, ())" "sm_wf sm0" "sm_offsets sm0 = {}" "same_frame sm sm0"
    using vacate_none_ok [OF assms(3,4)] by blast
  have t: "ref_tree t" "\<And>n. coverage (avl_list t) n = F n" "ref_sum (avl_list t) = 0"
    "\<And>r. r \<in> set (avl_list t) \<Longrightarrow> on_grid sm (sr_offset r) \<and> (sr_offset r = - 1 \<longrightarrow> sint (sr_refcnt r) \<le> 0)"
    using assms(1) by (auto simp: ref_inv_def steps_def)
  have it: "avl_iterate t (avl_first t) = Some (avl_list t)"
    using avl_iterate_ok [of t] t(1) srs.ordered_distinct by (simp add: ref_tree_def avl_wf_def)
  have fr: "on_grid sm0 = on_grid sm" using sm0(4) by (auto simp: fun_eq_iff on_grid_def aligned_def same_frame_def)
  have "\<exists>sm'. generate_loop zfs_recover minref (avl_list t) (- 1) 0 sm0 = Some sm' \<and> sm_wf sm' \<and> same_frame sm0 sm' \<and>
    sm_offsets sm' = sm_offsets sm0 \<union> {n. (- 1 \<noteq> (- 1 :: u64) \<longrightarrow> unat (- 1 :: u64) \<le> n) \<and> sint minref \<le> sint (0 :: u64) + coverage (avl_list t) n}"
  proof (rule generate_loop_ok)
    show "sorted (map (\<lambda>r. unat (sr_offset r)) (avl_list t))" using t(1) ordered_offsets by (simp add: ref_tree_def)
    show "\<bar>sint (0 :: u64) + ref_sum us\<bar> < 2 ^ 63" if "avl_list t = us @ vs" for us vs
      using prefix_bound [OF assms(1) that] assms(2) by simp
  qed (use sm0(2,3) assms(5) t fr in auto)
  then show ?thesis using sm0 it t(2) by (auto simp: space_map_ref_generate_map_def same_frame_def)
qed

lemma ref_destroy_ok: "ref_tree t \<Longrightarrow> space_map_ref_destroy t = Some ()"
  using avl_drain_ok [of t] by (simp add: ref_tree_def space_map_ref_destroy_def avl_destroy_def)

end
