(* ===== verification/VdevProps.thy ===== *)
theory VdevProps
  imports Vdev SpaceMapRef
begin

text \<open>
  What the dirty time logs promise.  A log is a set of transaction groups; the abstraction \<open>dtl_abs\<close>
  turns a tree of devices into a tree of such sets, and recomputing the logs is the function
  \<open>reassess_spec\<close> on it.  From there: detaching a device that is not required leaves every
  transaction group readable, and a resilver covers exactly the missing ones.
\<close>

section \<open>Logs as sets\<close>

definition dtl_map :: "unit space_map \<Rightarrow> bool" where
  "dtl_map sm \<longleftrightarrow> sm_wf sm \<and> sm_start sm = 0 \<and> sm_size sm = - 1 \<and> sm_shift sm = 0 \<and> sm_pp_root sm = None"

lemma unat_max_u64: "unat (- 1 :: u64) = 2 ^ 64 - 1"
  by (simp add: unsigned_minus_1_eq_mask mask_eq_exp_minus_1)

lemma dtl_map_create: "dtl_map (vdev_dtl_create t)" "sm_offsets (vdev_dtl_create t) = {}"
  using space_map_create_wf [of 0 "- 1" 0]
  by (simp_all add: dtl_map_def vdev_dtl_create_def unat_max_u64, simp_all add: space_map_create_def)

lemma dtl_map_wf: "dtl_map sm \<Longrightarrow> sm_wf sm" "dtl_map sm \<Longrightarrow> sm_pp_root sm = None"
  by (simp_all add: dtl_map_def)

lemma dtl_map_facts:
  assumes "dtl_map sm"
  shows "separate (sm_segs sm)" "unat (sm_space sm) = card (sm_offsets sm)" "sm_offsets sm \<subseteq> {..<2 ^ 64 - 1}"
proof -
  have wf: "sm_wf sm" and r: "sm_range sm = {..<2 ^ 64 - 1}"
    using assms by (auto simp: dtl_map_def sm_range_def unat_max_u64)
  show "separate (sm_segs sm)" using wf by (simp add: sm_wf_def)
  show "unat (sm_space sm) = card (sm_offsets sm)" using wf by (rule sm_wf_card)
  show "sm_offsets sm \<subseteq> {..<2 ^ 64 - 1}" using wf unfolding r [symmetric] by (simp add: sm_wf_def)
qed

lemma dtl_map_frame: "dtl_map sm \<Longrightarrow> same_frame sm sm' \<Longrightarrow> sm_wf sm' \<Longrightarrow> dtl_map sm'"
  by (auto simp: dtl_map_def same_frame_def)

lemma dtl_map_range: "dtl_map sm \<Longrightarrow> dtl_map md \<Longrightarrow> same_range sm md"
  by (simp add: dtl_map_def same_range_def)

lemma dtl_map_fits: "dtl_map sm \<Longrightarrow> sz \<noteq> 0 \<Longrightarrow> unat txg + unat sz < 2 ^ 64 \<Longrightarrow> sm_fits sm txg sz"
  by (simp add: dtl_map_def sm_fits_def aligned_def unat_max_u64)

lemma dtl_map_grid: "dtl_map sm \<Longrightarrow> on_grid sm x"
  using unsigned_less [of x, where 'a = nat] by (simp add: dtl_map_def on_grid_def aligned_def unat_max_u64)

lemma dtl_vacate:
  assumes "dtl_map sm"
  shows "\<exists>sm0. space_map_vacate sm None () = Some (sm0, ()) \<and> dtl_map sm0 \<and> sm_offsets sm0 = {}"
  using vacate_none_ok [of sm] dtl_map_wf [OF assms] dtl_map_frame [OF assms] by blast

lemma dtl_copy:
  assumes "dtl_map sm" "dtl_map md" "sm_offsets md = {}"
  shows "\<exists>md'. space_map_walk sm (space_map_add zfs_recover) md = Some md' \<and> dtl_map md' \<and> sm_offsets md' = sm_offsets sm"
proof -
  have wf: "sm_wf sm" "sm_wf md" using assms dtl_map_wf by blast+
  then have d: "distinct (sm_segs sm)" by (simp add: sm_wf_def avl_wf_def)
  obtain md' where "seg_calls (space_map_add zfs_recover) (sm_segs sm) md = Some md'" "sm_wf md'" "same_frame md md'"
    "sm_offsets md' = sm_offsets sm"
    using seg_calls_add [OF wf(1) subset_refl d wf(2) dtl_map_range [OF assms(1,2)], of zfs_recover] assms(3)
    by (auto simp: sm_offsets_def)
  then show ?thesis using avl_iterate_ok [OF d] dtl_map_frame [OF assms(2)] by (auto simp: space_map_walk_def)
qed

lemma dtl_fill:
  assumes "dtl_map sm" "sm_offsets sm = {}"
  shows "\<exists>sm'. space_map_add zfs_recover sm 0 (- 1) = Some sm' \<and> dtl_map sm' \<and> sm_offsets sm' = {..<2 ^ 64 - 1}"
proof -
  have "sm_fits sm 0 (- 1)" using assms(1) by (intro dtl_map_fits) (simp_all add: unat_max_u64)
  then obtain sm' where "space_map_add zfs_recover sm 0 (- 1) = Some sm'" "sm_wf sm'" "same_frame sm sm'"
    "sm_offsets sm' = sm_offsets sm \<union> range_of 0 (- 1)"
    using space_map_add_ok [OF dtl_map_wf(1) [OF assms(1)], of 0 "- 1" zfs_recover] assms(2) by auto
  then show ?thesis using assms(2) dtl_map_frame [OF assms(1)] by (auto simp: unat_max_u64 lessThan_def atLeastLessThan_def)
qed

section \<open>Counting\<close>

lemma ref_add_maps_ok:
  assumes "fresh_alloc kmem_alloc" "dtl_map md" "\<forall>sm\<in>set sms. dtl_map sm" "ref_inv md F k t"
  shows "\<exists>t'. ref_add_maps kmem_alloc sms t = Some t' \<and>
    ref_inv md (\<lambda>n. F n + int (length (filter (\<lambda>sm. n \<in> sm_offsets sm) sms))) (k + int (length sms)) t'"
  using assms(3,4)
proof (induction sms arbitrary: t F k)
  case (Cons sm sms)
  have sm: "dtl_map sm" using Cons.prems(1) by simp
  obtain t1 where t1: "space_map_ref_add_map kmem_alloc t sm 1 = Some t1"
    "ref_inv md (\<lambda>n. F n + (if n \<in> sm_offsets sm then 1 else 0)) (k + 1) t1"
    using ref_add_map_ok [OF assms(1) _ _ dtl_map_wf(1) [OF sm] dtl_map_range [OF sm assms(2)] Cons.prems(2), of 1] by (auto cong: if_cong)
  obtain t' where t': "ref_add_maps kmem_alloc sms t1 = Some t'"
    "ref_inv md (\<lambda>n. F n + (if n \<in> sm_offsets sm then 1 else 0) + int (length (filter (\<lambda>sm. n \<in> sm_offsets sm) sms)))
       (k + 1 + int (length sms)) t'"
    using Cons.IH [OF _ t1(2)] Cons.prems(1) by auto
  have "(\<lambda>n. F n + (if n \<in> sm_offsets sm then 1 else 0) + int (length (filter (\<lambda>sm. n \<in> sm_offsets sm) sms))) =
      (\<lambda>n. F n + int (length (filter (\<lambda>sm. n \<in> sm_offsets sm) (sm # sms))))" by (intro ext) simp
  moreover have "k + 1 + int (length sms) = k + int (length (sm # sms))" by simp
  ultimately have "ref_inv md (\<lambda>n. F n + int (length (filter (\<lambda>sm. n \<in> sm_offsets sm) (sm # sms)))) (k + int (length (sm # sms))) t'"
    using t'(2) by metis
  then show ?case using t1(1) t'(1) by (intro exI [of _ t']) simp
qed simp

lemma dtl_generate:
  assumes "ref_inv sm F k t" "2 * k < 2 ^ 63" "dtl_map sm" "0 < sint minref"
  shows "\<exists>sm'. space_map_ref_generate_map zfs_recover t sm minref = Some sm' \<and> dtl_map sm' \<and> sm_offsets sm' = {n. sint minref \<le> F n}"
  using generate_map_ok [OF assms(1,2) dtl_map_wf [OF assms(3)] assms(4), of zfs_recover] dtl_map_frame [OF assms(3)] by blast

lemma scrub_excise_ok:
  assumes "fresh_alloc kmem_alloc" "dtl_map M" "dtl_map S" "scrub_txg \<noteq> 0" "scrub_txg \<noteq> - 1"
  shows "\<exists>M'. scrub_excise kmem_alloc zfs_recover scrub_txg M S = Some M' \<and> dtl_map M' \<and>
    sm_offsets M' = {n \<in> sm_offsets M. unat scrub_txg \<le> n} \<union> sm_offsets S"
proof -
  let ?A = "\<lambda>n. 0 + (if n \<in> sm_offsets M then 1 else (0 :: int))"
  let ?B = "\<lambda>n. ?A n + (if n \<in> {unat (0 :: u64)..<unat scrub_txg} then - 1 else 0)"
  let ?C = "\<lambda>n. ?B n + (if n \<in> sm_offsets S then 2 else 0)"
  obtain t1 where t1: "space_map_ref_add_map kmem_alloc space_map_ref_create M 1 = Some t1" "ref_inv M ?A 1 t1"
    using ref_add_map_ok [OF assms(1) _ _ dtl_map_wf(1) [OF assms(2)] dtl_map_range [OF assms(2,2)] ref_inv_create, of 1] by (auto cong: if_cong)
  have tree: "ref_tree t1" using t1(2) by (simp add: ref_inv_def)
  have lt: "unat (0 :: u64) < unat scrub_txg" using assms(4) by (simp add: unat_gt_0)
  have neg: "sint (- (- 1 :: u64)) = - sint (- 1 :: u64)" by simp
  obtain t2 where t2: "space_map_ref_add_seg kmem_alloc t1 0 scrub_txg (- 1) = Some t2" "ref_tree t2"
    "\<And>n. coverage (avl_list t2) n = coverage (avl_list t1) n + (if n \<in> {unat (0 :: u64)..<unat scrub_txg} then sint (- 1 :: u64) else 0)"
    "ref_sum (avl_list t2) = ref_sum (avl_list t1)"
    "\<And>x. weight_at (avl_list t2) x = weight_at (avl_list t1) x + (if x \<in> {0, scrub_txg} then \<bar>sint (- 1 :: u64)\<bar> else 0)"
    "steps (avl_list t2) = {(0, - 1), (scrub_txg, - (- 1))} \<union> steps (avl_list t1)"
    using ref_add_seg_ok [OF assms(1) tree lt neg] by metis
  have "ref_inv M (\<lambda>n. ?A n + (if n \<in> {unat (0 :: u64)..<unat scrub_txg} then sint (- 1 :: u64) else 0)) (1 + \<bar>sint (- 1 :: u64)\<bar>) t2"
    using assms(5) dtl_map_grid [OF assms(2)] by (intro ref_inv_add [OF t1(2) t2(2,4,3,5,6)]) auto
  then have i2: "ref_inv M ?B 2 t2" by (simp cong: if_cong)
  obtain t3 where t3: "space_map_ref_add_map kmem_alloc t2 S 2 = Some t3" "ref_inv M ?C 4 t3"
    using ref_add_map_ok [OF assms(1) _ _ dtl_map_wf(1) [OF assms(3)] dtl_map_range [OF assms(3,2)] i2, of 2] by (auto cong: if_cong)
  obtain M' where M': "space_map_ref_generate_map zfs_recover t3 M 1 = Some M'" "dtl_map M'" "sm_offsets M' = {n. 1 \<le> ?C n}"
    using dtl_generate [OF t3(2) _ assms(2), of 1 zfs_recover] by auto
  have "ref_tree t3" using t3(2) by (simp add: ref_inv_def)
  moreover have "{n. 1 \<le> ?C n} = {n \<in> sm_offsets M. unat scrub_txg \<le> n} \<union> sm_offsets S" by (auto split: if_splits)
  ultimately show ?thesis using t1(1) t2(1) t3(1) M' ref_destroy_ok by (simp add: scrub_excise_def)
qed

section \<open>The abstract logs\<close>

text \<open>
  A device of the specification: what of it the logs depend on, the set of transaction groups in each
  log, and the children.  \<open>scrub\<close> is the transaction group up to which a valid scrub has run, if any.
\<close>

record dev =
  dev_addr :: nat
  dev_leaf :: bool
  dev_skipped :: bool
  dev_dead :: bool
  dev_cant_read :: bool
  dev_parity :: nat

datatype devs = Devs (devs_dev: dev) (devs_log: "vdev_dtl_type \<Rightarrow> nat set") (devs_child: "devs list")

definition new_missing :: "nat option \<Rightarrow> (vdev_dtl_type \<Rightarrow> nat set) \<Rightarrow> nat set" where
  "new_missing scrub S =
     (case scrub of None \<Rightarrow> S DTL_MISSING | Some txg \<Rightarrow> {n \<in> S DTL_MISSING. txg \<le> n} \<union> S DTL_SCRUB)"

fun leaf_spec :: "nat option \<Rightarrow> bool \<Rightarrow> dev \<Rightarrow> (vdev_dtl_type \<Rightarrow> nat set) \<Rightarrow> vdev_dtl_type \<Rightarrow> nat set" where
  "leaf_spec scrub done d S DTL_SCRUB = (if done then {} else S DTL_SCRUB)"
| "leaf_spec scrub done d S DTL_OUTAGE =
     (if dev_dead d \<or> dev_cant_read d then {..<2 ^ 64 - 1} else new_missing scrub S)"
| "leaf_spec scrub done d S DTL_PARTIAL = new_missing scrub S"
| "leaf_spec scrub done d S DTL_MISSING = new_missing scrub S"

definition held_by :: "nat \<Rightarrow> vdev_dtl_type \<Rightarrow> devs list \<Rightarrow> nat set" where
  "held_by k t cs = {n. k \<le> length (filter (\<lambda>c. n \<in> devs_log c t) cs)}"

definition fault_limit :: "dev \<Rightarrow> devs list \<Rightarrow> nat" where
  "fault_limit d cs = (if dev_parity d \<noteq> 0 then dev_parity d + 1 else length cs)"

fun interior_spec :: "dev \<Rightarrow> (vdev_dtl_type \<Rightarrow> nat set) \<Rightarrow> devs list \<Rightarrow> vdev_dtl_type \<Rightarrow> nat set" where
  "interior_spec d S cs DTL_SCRUB = S DTL_SCRUB"
| "interior_spec d S cs DTL_PARTIAL = (\<Union>c\<in>set cs. devs_log c DTL_PARTIAL)"
| "interior_spec d S cs DTL_MISSING = held_by (fault_limit d cs) DTL_OUTAGE cs"
| "interior_spec d S cs DTL_OUTAGE = held_by (fault_limit d cs) DTL_OUTAGE cs"

fun reassess_spec :: "nat option \<Rightarrow> bool \<Rightarrow> devs \<Rightarrow> devs" where
  "reassess_spec scrub done (Devs d S cs) =
     (let cs = map (reassess_spec scrub done) cs in
      Devs d (if dev_skipped d then S else if dev_leaf d then leaf_spec scrub done d S else interior_spec d S cs) cs)"

definition dev_of :: "spa \<Rightarrow> vdev_fields \<Rightarrow> dev" where
  "dev_of spa vd = \<lparr>dev_addr = vdev_addr vd, dev_leaf = vdev_op_leaf (vdev_ops vd), dev_skipped = dtl_skipped spa vd,
     dev_dead = vdev_is_dead vd, dev_cant_read = vdev_cant_read vd, dev_parity = unat (vdev_nparity vd)\<rparr>"

fun dtl_abs :: "spa \<Rightarrow> vdev \<Rightarrow> devs" where
  "dtl_abs spa (Vdev vd cs) = Devs (dev_of spa vd) (\<lambda>t. sm_offsets (vdev_dtl vd t)) (map (dtl_abs spa) cs)"

text \<open>
  The devices the pool builds: logs over all transaction groups, and above the leaves fewer than
  \<open>2 ^ 31\<close> children, at least one, with a parity below \<open>2 ^ 31 - 1\<close> (the code knows 1 to 3).
\<close>

fun vdev_ok :: "spa \<Rightarrow> vdev \<Rightarrow> bool" where
  "vdev_ok spa (Vdev vd cs) \<longleftrightarrow> (\<forall>t. dtl_map (vdev_dtl vd t)) \<and> (\<forall>c\<in>set cs. vdev_ok spa c) \<and>
     (dtl_skipped spa vd \<or> vdev_op_leaf (vdev_ops vd) \<or>
      cs \<noteq> [] \<and> length cs < 2 ^ 31 \<and> unat (vdev_nparity vd) < 2 ^ 31 - 1)"

lemma set_dtl_simps [simp]:
  "vdev_dtl (set_dtl t sm vd) = (vdev_dtl vd)(t := sm)" "vdev_addr (set_dtl t sm vd) = vdev_addr vd"
  "vdev_ops (set_dtl t sm vd) = vdev_ops vd" "vdev_nparity (set_dtl t sm vd) = vdev_nparity vd"
  "vdev_readable (set_dtl t sm vd) = vdev_readable vd" "dtl_skipped spa (set_dtl t sm vd) = dtl_skipped spa vd"
  "vdev_writeable (set_dtl t sm vd) = vdev_writeable vd" "dev_of spa (set_dtl t sm vd) = dev_of spa vd" "dtl_minref (set_dtl t sm vd) = dtl_minref vd"
  by (simp_all add: set_dtl_def vdev_readable_def vdev_writeable_def vdev_is_dead_def dtl_skipped_def dev_of_def dtl_minref_def fun_eq_iff)

section \<open>Leaves and interior devices\<close>

lemma leaf_reassess_ok:
  assumes "fresh_alloc kmem_alloc" "\<forall>t. dtl_map (vdev_dtl vd t)" "scrub_txg \<noteq> - 1"
  shows "\<exists>vd'. leaf_reassess kmem_alloc zfs_recover spa scrub_txg scrub_done vd = Some vd' \<and> dev_of spa vd' = dev_of spa vd \<and>
    (\<forall>t. dtl_map (vdev_dtl vd' t)) \<and> (\<lambda>t. sm_offsets (vdev_dtl vd' t)) =
      leaf_spec (if scrub_valid spa scrub_txg then Some (unat scrub_txg) else None) scrub_done (dev_of spa vd) (\<lambda>t. sm_offsets (vdev_dtl vd t))"
proof -
  let ?S = "\<lambda>t. sm_offsets (vdev_dtl vd t)" and ?sc = "if scrub_valid spa scrub_txg then Some (unat scrub_txg) else None"
  note maps = assms(2) [rule_format]
  obtain M where M: "dtl_map M" "sm_offsets M = new_missing ?sc ?S"
    "(if scrub_valid spa scrub_txg then map_option (\<lambda>sm. set_dtl DTL_MISSING sm vd)
        (scrub_excise kmem_alloc zfs_recover scrub_txg (vdev_dtl vd DTL_MISSING) (vdev_dtl vd DTL_SCRUB)) else Some vd) =
      Some (set_dtl DTL_MISSING M vd)"
  proof (cases "scrub_valid spa scrub_txg")
    case True
    then have "scrub_txg \<noteq> 0" by (simp add: scrub_valid_def)
    then show ?thesis using that True scrub_excise_ok [OF assms(1) maps maps _ assms(3), of zfs_recover DTL_MISSING DTL_SCRUB] by (auto simp: new_missing_def)
  next
    case False
    have "set_dtl DTL_MISSING (vdev_dtl vd DTL_MISSING) vd = vd" by (simp add: set_dtl_def)
    then show ?thesis using that [of "vdev_dtl vd DTL_MISSING"] False maps by (simp add: new_missing_def)
  qed
  obtain P0 where P0: "space_map_vacate (vdev_dtl vd DTL_PARTIAL) None () = Some (P0, ())" "dtl_map P0" "sm_offsets P0 = {}"
    using dtl_vacate [OF maps] by blast
  obtain P where P: "space_map_walk M (space_map_add zfs_recover) P0 = Some P" "dtl_map P" "sm_offsets P = sm_offsets M"
    using dtl_copy [OF M(1) P0(2,3)] by blast
  obtain C where C: "space_map_vacate (vdev_dtl vd DTL_SCRUB) None () = Some (C, ())" "dtl_map C" "sm_offsets C = {}"
    using dtl_vacate [OF maps] by blast
  obtain O0 where O0: "space_map_vacate (vdev_dtl vd DTL_OUTAGE) None () = Some (O0, ())" "dtl_map O0" "sm_offsets O0 = {}"
    using dtl_vacate [OF maps] by blast
  obtain X where X: "(if \<not> vdev_readable vd then space_map_add zfs_recover O0 0 (- 1) else space_map_walk M (space_map_add zfs_recover) O0) = Some X"
    "dtl_map X" "sm_offsets X = (if vdev_readable vd then sm_offsets M else {..<2 ^ 64 - 1})"
    using dtl_fill [OF O0(2,3), of zfs_recover] dtl_copy [OF M(1) O0(2,3), of zfs_recover] by (cases "vdev_readable vd") auto
  let ?vd = "set_dtl DTL_OUTAGE X ((if scrub_done then set_dtl DTL_SCRUB C else id) (set_dtl DTL_PARTIAL P (set_dtl DTL_MISSING M vd)))"
  have r: "leaf_reassess kmem_alloc zfs_recover spa scrub_txg scrub_done vd = Some ?vd"
    unfolding leaf_reassess_def M(3) using P0(1) P(1) C(1) O0(1) X(1) by (cases scrub_done; cases "vdev_readable vd") (simp_all add: Let_def)
  have off: "sm_offsets (vdev_dtl ?vd t) = leaf_spec ?sc scrub_done (dev_of spa vd) ?S t" for t
    using M(2) P(3) C(3) X(3) by (cases t; cases scrub_done) (simp_all add: vdev_readable_def dev_of_def)
  have "dtl_map (vdev_dtl ?vd t)" for t using M(1) P(2) C(2) X(2) maps by (cases scrub_done) auto
  then show ?thesis using r off by (intro exI [of _ ?vd]) auto
qed

lemma sint_int_to_int64: "unat (x :: u32) < 2 ^ 31 \<Longrightarrow> sint (scast x :: u64) = int (unat x)"
proof -
  assume "unat x < 2 ^ 31"
  then have "int (unat x) < int (2 ^ 31)" by (subst of_nat_less_iff)
  then have "uint x < 2 ^ 31" by simp
  then have x: "sint x = uint x" unfolding sint_uint by (intro signed_take_bit_int_eq_self) (simp_all add: order_trans [OF _ unsigned_greater_eq])
  have "sint (scast x :: u64) = signed_take_bit 63 (sint x)" unfolding signed_scast_eq by simp
  also have "\<dots> = sint x" using \<open>uint x < 2 ^ 31\<close> unfolding x
    by (intro signed_take_bit_int_eq_self) (simp_all add: order_trans [OF _ unsigned_greater_eq])
  finally show ?thesis using x by simp
qed

lemma minref_ok:
  assumes "cs \<noteq> []" "length cs < 2 ^ 31" "unat (vdev_nparity vd) < 2 ^ 31 - 1"
  shows "sint (scast (dtl_minref vd (length cs) t) :: u64) =
    (if t = DTL_PARTIAL then 1 else int (if vdev_nparity vd \<noteq> 0 then unat (vdev_nparity vd) + 1 else length cs))"
proof (cases "t = DTL_PARTIAL")
  case False
  have p: "unat (vdev_nparity vd + 1) = unat (vdev_nparity vd) + 1" using unat_plus [of "vdev_nparity vd" 1] assms(3) by simp
  have "unat (ucast (vdev_nparity vd + 1) :: u32) = unat (vdev_nparity vd) + 1"
    using assms(3) by (simp add: unsigned_ucast_eq p take_bit_nat_eq_self)
  moreover have "unat (of_nat (length cs) :: u32) = length cs"
    using assms(2) by (simp add: unsigned_of_nat take_bit_nat_eq_self)
  ultimately have "unat (dtl_minref vd (length cs) t) = (if vdev_nparity vd \<noteq> 0 then unat (vdev_nparity vd) + 1 else length cs)"
    using False by (simp add: dtl_minref_def)
  then show ?thesis using sint_int_to_int64 [of "dtl_minref vd (length cs) t"] assms(2,3) False by simp
qed (simp add: dtl_minref_def)

lemma count_children:
  "length (filter (\<lambda>sm. n \<in> sm_offsets sm) (map (\<lambda>c. vdev_dtl (vdev_self c) s) cs)) =
   length (filter (\<lambda>c. n \<in> devs_log c s) (map (dtl_abs spa) cs))"
proof (induction cs)
  case (Cons c cs)
  then show ?case by (cases c) simp
qed simp

lemma combine_ok:
  assumes "fresh_alloc kmem_alloc" "\<forall>c\<in>set cs. dtl_map (vdev_dtl (vdev_self c) s)" "dtl_map sm" "0 < sint minref" "length cs < 2 ^ 31"
  shows "\<exists>t' sm'. ref_add_maps kmem_alloc (map (\<lambda>c. vdev_dtl (vdev_self c) s) cs) space_map_ref_create = Some t' \<and>
    space_map_ref_generate_map zfs_recover t' sm minref = Some sm' \<and> space_map_ref_destroy t' = Some () \<and> dtl_map sm' \<and>
    sm_offsets sm' = {n. sint minref \<le> int (length (filter (\<lambda>c. n \<in> devs_log c s) (map (dtl_abs spa) cs)))}"
proof -
  let ?sms = "map (\<lambda>c. vdev_dtl (vdev_self c) s) cs"
  obtain t' where t': "ref_add_maps kmem_alloc ?sms space_map_ref_create = Some t'"
    "ref_inv sm (\<lambda>n. 0 + int (length (filter (\<lambda>sm. n \<in> sm_offsets sm) ?sms))) (0 + int (length ?sms)) t'"
    using ref_add_maps_ok [OF assms(1,3) _ ref_inv_create, of ?sms] assms(2) by auto
  have "ref_tree t'" using t'(2) by (simp add: ref_inv_def)
  moreover have "2 * (0 + int (length ?sms)) < 2 ^ 63" using assms(5) by simp
  ultimately show ?thesis using dtl_generate [OF t'(2) _ assms(3,4), of zfs_recover] t'(1) ref_destroy_ok
    unfolding count_children [of _ s cs spa] by auto
qed

lemma interior_loop_ok:
  assumes "fresh_alloc kmem_alloc" "\<forall>t. dtl_map (vdev_dtl vd t)" "\<forall>c\<in>set cs. \<forall>t. dtl_map (vdev_dtl (vdev_self c) t)"
    "cs \<noteq> []" "length cs < 2 ^ 31" "unat (vdev_nparity vd) < 2 ^ 31 - 1"
  shows "\<exists>vd'. interior_loop kmem_alloc zfs_recover cs [DTL_MISSING, DTL_PARTIAL, DTL_SCRUB, DTL_OUTAGE] vd = Some vd' \<and>
    dev_of spa vd' = dev_of spa vd \<and> vdev_nparity vd' = vdev_nparity vd \<and> (\<forall>t. dtl_map (vdev_dtl vd' t)) \<and>
    (\<lambda>t. sm_offsets (vdev_dtl vd' t)) = interior_spec (dev_of spa vd) (\<lambda>t. sm_offsets (vdev_dtl vd t)) (map (dtl_abs spa) cs)"
proof -
  let ?lim = "int (fault_limit (dev_of spa vd) (map (dtl_abs spa) cs))"
  let ?cs = "map (dtl_abs spa) cs"
  have lim: "sint (scast (dtl_minref vd (length cs) t) :: u64) = (if t = DTL_PARTIAL then 1 else ?lim)" for t
    using minref_ok [OF assms(4-6), of t] by (simp add: fault_limit_def dev_of_def unat_eq_0)
  have pos: "0 < sint (scast (dtl_minref vd (length cs) t) :: u64)" for t
    unfolding lim using assms(4) by (simp add: fault_limit_def)
  note step = combine_ok [OF assms(1) _ assms(2) [rule_format] pos assms(5), unfolded lim, where spa = spa]
  have kids: "\<forall>c\<in>set cs. dtl_map (vdev_dtl (vdev_self c) s)" for s using assms(3) by blast
  obtain t1 M where M: "ref_add_maps kmem_alloc (map (\<lambda>c. vdev_dtl (vdev_self c) DTL_OUTAGE) cs) space_map_ref_create = Some t1"
    "space_map_ref_generate_map zfs_recover t1 (vdev_dtl vd DTL_MISSING) (scast (dtl_minref vd (length cs) DTL_MISSING)) = Some M"
    "space_map_ref_destroy t1 = Some ()" "dtl_map M" "sm_offsets M = held_by (fault_limit (dev_of spa vd) ?cs) DTL_OUTAGE ?cs"
    using step [OF kids, of DTL_OUTAGE zfs_recover DTL_MISSING DTL_MISSING] by (auto simp: held_by_def)
  obtain t2 P where P: "ref_add_maps kmem_alloc (map (\<lambda>c. vdev_dtl (vdev_self c) DTL_PARTIAL) cs) space_map_ref_create = Some t2"
    "space_map_ref_generate_map zfs_recover t2 (vdev_dtl vd DTL_PARTIAL) (scast (dtl_minref vd (length cs) DTL_PARTIAL)) = Some P"
    "space_map_ref_destroy t2 = Some ()" "dtl_map P" "sm_offsets P = held_by 1 DTL_PARTIAL ?cs"
    using step [OF kids, of DTL_PARTIAL zfs_recover DTL_PARTIAL DTL_PARTIAL] by (auto simp: held_by_def)
  obtain t3 X where X: "ref_add_maps kmem_alloc (map (\<lambda>c. vdev_dtl (vdev_self c) DTL_OUTAGE) cs) space_map_ref_create = Some t3"
    "space_map_ref_generate_map zfs_recover t3 (vdev_dtl vd DTL_OUTAGE) (scast (dtl_minref vd (length cs) DTL_OUTAGE)) = Some X"
    "space_map_ref_destroy t3 = Some ()" "dtl_map X" "sm_offsets X = held_by (fault_limit (dev_of spa vd) ?cs) DTL_OUTAGE ?cs"
    using step [OF kids, of DTL_OUTAGE zfs_recover DTL_OUTAGE DTL_OUTAGE] by (auto simp: held_by_def)
  let ?vd = "set_dtl DTL_OUTAGE X (set_dtl DTL_PARTIAL P (set_dtl DTL_MISSING M vd))"
  have "interior_loop kmem_alloc zfs_recover cs [DTL_MISSING, DTL_PARTIAL, DTL_SCRUB, DTL_OUTAGE] vd = Some ?vd"
    using M(1-3) P(1-3) X(1-3) by simp
  moreover have "held_by 1 DTL_PARTIAL ?cs = (\<Union>c\<in>set ?cs. devs_log c DTL_PARTIAL)"
    by (auto simp: held_by_def Suc_le_eq filter_empty_conv)
  then have "sm_offsets (vdev_dtl ?vd t) = interior_spec (dev_of spa vd) (\<lambda>t. sm_offsets (vdev_dtl vd t)) ?cs t" for t
    using M(5) P(5) X(5) by (cases t) simp_all
  moreover have "dtl_map (vdev_dtl ?vd t)" for t using M(4) P(4) X(4) assms(2) by auto
  ultimately show ?thesis by (intro exI [of _ ?vd]) auto
qed

section \<open>The whole tree\<close>

text \<open>The leaves that are put on the list of a transaction group, children before parents.\<close>

fun assessed_leaves :: "devs \<Rightarrow> nat list" where
  "assessed_leaves (Devs d S cs) =
     concat (map assessed_leaves cs) @ (if \<not> dev_skipped d \<and> dev_leaf d then [dev_addr d] else [])"

definition dirty_calls :: "u64 \<Rightarrow> nat list \<Rightarrow> (nat \<times> u64) list" where
  "dirty_calls txg as = (if txg = 0 then [] else map (\<lambda>a. (a, txg)) as)"

lemma dirty_calls_append: "dirty_calls txg (as @ bs) = dirty_calls txg as @ dirty_calls txg bs"
  by (simp add: dirty_calls_def)

lemma vdev_ok_self: "vdev_ok spa c \<Longrightarrow> dtl_map (vdev_dtl (vdev_self c) t)"
  by (cases c) simp

lemma dev_of_fields:
  assumes "dev_of spa vd' = dev_of spa vd"
  shows "vdev_addr vd' = vdev_addr vd" "vdev_op_leaf (vdev_ops vd') = vdev_op_leaf (vdev_ops vd)"
    "dtl_skipped spa vd' = dtl_skipped spa vd" "unat (vdev_nparity vd') = unat (vdev_nparity vd)"
  using assms by (simp_all add: dev_of_def)

abbreviation valid_scrub :: "spa \<Rightarrow> u64 \<Rightarrow> nat option" where
  "valid_scrub spa scrub_txg \<equiv> if scrub_valid spa scrub_txg then Some (unat scrub_txg) else None"

lemma reassess_children_ok:
  assumes "\<And>c. c \<in> set cs \<Longrightarrow> \<exists>c'. vdev_dtl_reassess kmem_alloc zfs_recover spa c txg scrub_txg scrub_done =
      Some (c', dirty_calls txg (assessed_leaves (dtl_abs spa c))) \<and> vdev_ok spa c' \<and> dtl_abs spa c' = g (dtl_abs spa c)"
  shows "\<exists>cs'. reassess_children kmem_alloc zfs_recover spa cs txg scrub_txg scrub_done =
      Some (cs', dirty_calls txg (concat (map assessed_leaves (map (dtl_abs spa) cs)))) \<and> (\<forall>c\<in>set cs'. vdev_ok spa c) \<and>
      map (dtl_abs spa) cs' = map g (map (dtl_abs spa) cs)"
  using assms
proof (induction cs)
  case (Cons c cs)
  obtain c' where c': "vdev_dtl_reassess kmem_alloc zfs_recover spa c txg scrub_txg scrub_done =
      Some (c', dirty_calls txg (assessed_leaves (dtl_abs spa c)))" "vdev_ok spa c'" "dtl_abs spa c' = g (dtl_abs spa c)"
    using Cons.prems [of c] by auto
  obtain cs' where cs': "reassess_children kmem_alloc zfs_recover spa cs txg scrub_txg scrub_done =
      Some (cs', dirty_calls txg (concat (map assessed_leaves (map (dtl_abs spa) cs))))" "\<forall>c\<in>set cs'. vdev_ok spa c"
      "map (dtl_abs spa) cs' = map g (map (dtl_abs spa) cs)"
    using Cons.IH Cons.prems by auto
  show ?case using c' cs' by (intro exI [of _ "c' # cs'"]) (simp add: dirty_calls_append)
qed (simp add: dirty_calls_def)

lemma reassess_ok:
  assumes "fresh_alloc kmem_alloc" "scrub_txg \<noteq> - 1" "vdev_ok spa vd"
  shows "\<exists>vd'. vdev_dtl_reassess kmem_alloc zfs_recover spa vd txg scrub_txg scrub_done =
      Some (vd', dirty_calls txg (assessed_leaves (dtl_abs spa vd))) \<and> vdev_ok spa vd' \<and>
      dtl_abs spa vd' = reassess_spec (valid_scrub spa scrub_txg) scrub_done (dtl_abs spa vd)"
  using assms(3)
proof (induction vd)
  case (Vdev vd cs)
  have kids: "\<exists>c'. vdev_dtl_reassess kmem_alloc zfs_recover spa c txg scrub_txg scrub_done =
      Some (c', dirty_calls txg (assessed_leaves (dtl_abs spa c))) \<and> vdev_ok spa c' \<and>
      dtl_abs spa c' = reassess_spec (valid_scrub spa scrub_txg) scrub_done (dtl_abs spa c)" if "c \<in> set cs" for c
    using Vdev that by auto
  obtain cs' where cs': "reassess_children kmem_alloc zfs_recover spa cs txg scrub_txg scrub_done =
      Some (cs', dirty_calls txg (concat (map assessed_leaves (map (dtl_abs spa) cs))))" "\<forall>c\<in>set cs'. vdev_ok spa c"
      "map (dtl_abs spa) cs' = map (reassess_spec (valid_scrub spa scrub_txg) scrub_done) (map (dtl_abs spa) cs)"
    using reassess_children_ok [of cs, OF kids] by blast
  have len: "length cs' = length cs" using arg_cong [OF cs'(3), of length] by simp
  have maps: "\<forall>t. dtl_map (vdev_dtl vd t)" using Vdev.prems by simp
  consider (skip) "dtl_skipped spa vd" | (leaf) "\<not> dtl_skipped spa vd" "vdev_op_leaf (vdev_ops vd)"
    | (inner) "\<not> dtl_skipped spa vd" "\<not> vdev_op_leaf (vdev_ops vd)" by blast
  then show ?case
  proof cases
    case skip
    have "vdev_ok spa (Vdev vd cs')" using maps cs'(2) skip by simp
    then show ?thesis using cs'(1,3) skip by (simp add: dev_of_def)
  next
    case leaf
    obtain vd' where vd': "leaf_reassess kmem_alloc zfs_recover spa scrub_txg scrub_done vd = Some vd'" "dev_of spa vd' = dev_of spa vd"
      "\<forall>t. dtl_map (vdev_dtl vd' t)" "(\<lambda>t. sm_offsets (vdev_dtl vd' t)) =
        leaf_spec (valid_scrub spa scrub_txg) scrub_done (dev_of spa vd) (\<lambda>t. sm_offsets (vdev_dtl vd t))"
      using leaf_reassess_ok [OF assms(1) maps assms(2), of zfs_recover spa scrub_done] by blast
    note f = dev_of_fields [OF vd'(2)]
    have "vdev_ok spa (Vdev vd' cs')" using vd'(3) cs'(2) leaf f by simp
    moreover have "dtl_abs spa (Vdev vd' cs') = reassess_spec (valid_scrub spa scrub_txg) scrub_done (dtl_abs spa (Vdev vd cs))"
      using cs'(3) vd'(2,4) leaf by (simp add: dev_of_def)
    moreover have "dirty_calls txg (assessed_leaves (dtl_abs spa (Vdev vd cs))) =
        dirty_calls txg (concat (map assessed_leaves (map (dtl_abs spa) cs))) @ (if txg \<noteq> 0 then [(vdev_addr vd', txg)] else [])"
      using leaf f by (simp add: dirty_calls_append dev_of_def) (simp add: dirty_calls_def)
    ultimately show ?thesis using cs'(1) vd'(1) leaf by simp
  next
    case inner
    have i: "cs' \<noteq> []" "length cs' < 2 ^ 31" "unat (vdev_nparity vd) < 2 ^ 31 - 1" using Vdev.prems inner len by auto
    have "\<forall>c\<in>set cs'. \<forall>t. dtl_map (vdev_dtl (vdev_self c) t)" using cs'(2) vdev_ok_self by blast
    then obtain vd' where vd': "interior_loop kmem_alloc zfs_recover cs' [DTL_MISSING, DTL_PARTIAL, DTL_SCRUB, DTL_OUTAGE] vd = Some vd'"
      "dev_of spa vd' = dev_of spa vd" "\<forall>t. dtl_map (vdev_dtl vd' t)"
      "(\<lambda>t. sm_offsets (vdev_dtl vd' t)) = interior_spec (dev_of spa vd) (\<lambda>t. sm_offsets (vdev_dtl vd t)) (map (dtl_abs spa) cs')"
      using interior_loop_ok [OF assms(1) maps _ i, of zfs_recover spa] by blast
    note f = dev_of_fields [OF vd'(2)]
    have "vdev_ok spa (Vdev vd' cs')" using vd'(3) cs'(2) i f by simp
    moreover have "dtl_abs spa (Vdev vd' cs') = reassess_spec (valid_scrub spa scrub_txg) scrub_done (dtl_abs spa (Vdev vd cs))"
      using cs'(3) vd'(2,4) inner by (simp add: dev_of_def Let_def)
    moreover have "assessed_leaves (dtl_abs spa (Vdev vd cs)) = concat (map assessed_leaves (map (dtl_abs spa) cs))"
      using inner by (simp add: dev_of_def)
    moreover have "vdev_dtl_reassess kmem_alloc zfs_recover spa (Vdev vd cs) txg scrub_txg scrub_done =
        Some (Vdev vd' cs', dirty_calls txg (concat (map assessed_leaves (map (dtl_abs spa) cs))))"
      using cs'(1) vd'(1) inner by (simp del: interior_loop.simps)
    ultimately show ?thesis by metis
  qed
qed

text \<open>
  C34. Recomputing the dirty time logs of a tree of devices is the function \<open>reassess_spec\<close> on sets of
  transaction groups.  A leaf keeps what it misses, except that a valid scrub up to \<open>scrub_txg\<close> replaces
  the part below it by what the scrub could not repair; its outage is everything when it cannot be read.
  Above, \<open>DTL_PARTIAL\<close> is the union over the children, and \<open>DTL_MISSING\<close> and \<open>DTL_OUTAGE\<close> are the
  transaction groups in the outage of more children than the parity covers, or of all of them for a
  mirror.  No assertion of the space maps or of the reference trees fails on the way, the logs stay
  well formed, and exactly the leaves that were assessed are marked dirty, when a transaction group is given.
\<close>

theorem vdev_dtl_reassess_refines:
  assumes "fresh_alloc kmem_alloc" "scrub_txg \<noteq> - 1" "vdev_ok spa vd"
  shows "\<exists>vd' dirty. vdev_dtl_reassess kmem_alloc zfs_recover spa vd txg scrub_txg scrub_done = Some (vd', dirty) \<and>
    vdev_ok spa vd' \<and> dtl_abs spa vd' = reassess_spec (valid_scrub spa scrub_txg) scrub_done (dtl_abs spa vd) \<and>
    dirty = (if txg = 0 then [] else map (\<lambda>a. (a, txg)) (assessed_leaves (dtl_abs spa vd)))"
  using reassess_ok [OF assms, of zfs_recover txg scrub_done] by (auto simp: dirty_calls_def)

definition demo_alloc :: kmem_alloc where
  "demo_alloc t = Suc (sum_list (map sr_addr (avl_list t)))"

lemma demo_alloc_fresh: "fresh_alloc demo_alloc"
proof -
  have "r \<in> set rs \<Longrightarrow> sr_addr r \<le> sum_list (map sr_addr rs)" for r :: space_ref and rs
    by (induction rs) auto
  then show ?thesis by (fastforce simp: fresh_alloc_def demo_alloc_def)
qed

definition demo_disk :: "nat \<Rightarrow> bool \<Rightarrow> vdev" where
  "demo_disk a broken = Vdev \<lparr>vdev_addr = a, vdev_state = 7, vdev_ops = vdev_disk_ops, vdev_dtl = vdev_dtl_create,
     vdev_ishole = False, vdev_nparity = 0, vdev_cant_read = broken, vdev_cant_write = False, vdev_aux = False\<rparr> []"

definition demo_mirror :: vdev where
  "demo_mirror = Vdev \<lparr>vdev_addr = 1, vdev_state = 7, vdev_ops = vdev_mirror_ops, vdev_dtl = vdev_dtl_create,
     vdev_ishole = False, vdev_nparity = 0, vdev_cant_read = False, vdev_cant_write = False, vdev_aux = False\<rparr>
     [demo_disk 2 False, demo_disk 3 True]"

definition demo_spa :: spa where
  "demo_spa = \<lparr>spa_root_vdev = 0, spa_writeable = True, spa_scrub_started = True, dp_scan = None\<rparr>"

lemmas demo_defs = demo_disk_def demo_mirror_def demo_spa_def dev_of_def dtl_skipped_def vdev_is_dead_def
  VDEV_STATE_DEGRADED_def dtl_map_create

lemma demo_mirror_ok: "vdev_ok demo_spa demo_mirror"
  by (simp add: demo_defs)

theorem vdev_dtl_reassess_refines_witness:
  "\<exists>vd' dirty. vdev_dtl_reassess demo_alloc False demo_spa demo_mirror 9 5 True = Some (vd', dirty) \<and>
    dirty = [(2, 9), (3, 9)] \<and> devs_log (dtl_abs demo_spa vd') DTL_OUTAGE = {} \<and>
    devs_log (devs_child (dtl_abs demo_spa vd') ! 1) DTL_OUTAGE = {..<2 ^ 64 - 1}"
  using vdev_dtl_reassess_refines [OF demo_alloc_fresh _ demo_mirror_ok, of 5 False 9 True]
  by (auto simp: demo_defs Let_def held_by_def fault_limit_def new_missing_def scrub_valid_def)

section \<open>Detaching a device\<close>

fun devs_cant_read :: "nat \<Rightarrow> bool \<Rightarrow> devs \<Rightarrow> devs" where
  "devs_cant_read a b (Devs d S cs) =
     Devs (if dev_addr d = a then d\<lparr>dev_cant_read := b\<rparr> else d) S (map (devs_cant_read a b) cs)"

lemma dev_of_cant_read [simp]: "dev_of spa (vd\<lparr>vdev_cant_read := b\<rparr>) = (dev_of spa vd)\<lparr>dev_cant_read := b\<rparr>"
  by (simp add: dev_of_def dtl_skipped_def vdev_is_dead_def)

lemma dtl_abs_cant_read: "dtl_abs spa (set_cant_read a b vd) = devs_cant_read a b (dtl_abs spa vd)"
proof (induction vd)
  case (Vdev vd cs)
  have "dev_addr (dev_of spa vd) = vdev_addr vd" by (simp add: dev_of_def)
  then show ?case using Vdev by simp
qed

lemma vdev_ok_cant_read: "vdev_ok spa (set_cant_read a b vd) = vdev_ok spa vd"
proof (induction vd)
  case (Vdev vd cs)
  have "dtl_skipped spa (vd\<lparr>vdev_cant_read := b\<rparr>) = dtl_skipped spa vd" by (simp add: dtl_skipped_def)
  then show ?case using Vdev by simp
qed

lemma cant_read_same: "\<forall>v\<in>set (vdev_load_at a vd). vdev_cant_read v = b \<Longrightarrow> set_cant_read a b vd = vd"
  by (induction vd) (auto intro: map_idI)

lemma leaf_spec_again: "leaf_spec None False d (leaf_spec None False d' S) = leaf_spec None False d S"
proof
  show "leaf_spec None False d (leaf_spec None False d' S) t = leaf_spec None False d S t" for t
    by (cases t) (simp_all add: new_missing_def)
qed

lemma interior_spec_again: "interior_spec d (interior_spec d' S cs') cs = interior_spec d S cs"
proof
  show "interior_spec d (interior_spec d' S cs') cs t = interior_spec d S cs t" for t by (cases t) simp_all
qed

lemma reassess_spec_again:
  "reassess_spec None False (devs_cant_read a b (reassess_spec None False (devs_cant_read a b' D))) =
   reassess_spec None False (devs_cant_read a b D)"
proof (induction D)
  case (Devs d S cs)
  then have kids: "map (reassess_spec None False \<circ> (devs_cant_read a b \<circ> (reassess_spec None False \<circ> devs_cant_read a b'))) cs =
      map (reassess_spec None False \<circ> devs_cant_read a b) cs" by simp
  show ?case by (simp add: Let_def leaf_spec_again interior_spec_again kids)
qed

lemma dtl_empty_iff: "dtl_map (vdev_dtl vd t) \<Longrightarrow> vdev_dtl_empty vd t \<longleftrightarrow> sm_offsets (vdev_dtl vd t) = {}"
  using sm_wf_card [of "vdev_dtl vd t"] by (auto simp: vdev_dtl_empty_def dtl_map_def sm_offsets_def unat_eq_0)

text \<open>
  C35. Whether a device can be detached.  Below the top-level device, \<open>vdev_dtl_required\<close> answers yes exactly
  when, with the device unreadable, the top-level device would have an outage, or fault injection says so;
  so a device that is not required can be lost without losing a transaction group.  The device is put back,
  and the logs end as recomputing them would leave them without the question.
\<close>

theorem vdev_dtl_required_correct:
  assumes "fresh_alloc kmem_alloc" "vdev_ok spa tvd" "a \<noteq> spa_root_vdev spa" "a \<noteq> vdev_addr (vdev_self tvd)"
    "vdev_load_at a tvd = [vd]"
  shows "\<exists>required tvd'. vdev_dtl_required kmem_alloc zfs_recover spa zio_injection tvd a = Some (required, tvd') \<and> vdev_ok spa tvd' \<and>
    (required \<longleftrightarrow> devs_log (reassess_spec None False (dtl_abs spa (set_cant_read a True tvd))) DTL_OUTAGE \<noteq> {} \<or>
      (\<exists>e. zio_injection = Some e \<and> e \<noteq> 0)) \<and>
    dtl_abs spa tvd' = reassess_spec None False (dtl_abs spa tvd)"
proof -
  let ?D = "dtl_abs spa tvd" and ?c = "vdev_cant_read vd"
  have v: "valid_scrub spa 0 = None" by (simp add: scrub_valid_def)
  obtain t1 where t1: "vdev_dtl_reassess kmem_alloc zfs_recover spa (set_cant_read a True tvd) 0 0 False = Some (t1, [])" "vdev_ok spa t1"
    "dtl_abs spa t1 = reassess_spec None False (devs_cant_read a True ?D)"
    using reassess_ok [OF assms(1), of 0 spa "set_cant_read a True tvd" zfs_recover 0 False] assms(2)
    by (auto simp: v dirty_calls_def vdev_ok_cant_read dtl_abs_cant_read)
  obtain t2 where t2: "vdev_dtl_reassess kmem_alloc zfs_recover spa (set_cant_read a ?c t1) 0 0 False = Some (t2, [])" "vdev_ok spa t2"
    "dtl_abs spa t2 = reassess_spec None False (devs_cant_read a ?c (dtl_abs spa t1))"
    using reassess_ok [OF assms(1), of 0 spa "set_cant_read a ?c t1" zfs_recover 0 False] t1(2)
    by (auto simp: v dirty_calls_def vdev_ok_cant_read dtl_abs_cant_read)
  have same: "devs_cant_read a ?c ?D = ?D"
    using cant_read_same [of a tvd ?c] assms(5) by (simp flip: dtl_abs_cant_read)
  have "sm_offsets (vdev_dtl (vdev_self t1) DTL_OUTAGE) = devs_log (dtl_abs spa t1) DTL_OUTAGE" by (cases t1) simp
  then have e: "vdev_dtl_empty (vdev_self t1) DTL_OUTAGE \<longleftrightarrow> devs_log (dtl_abs spa t1) DTL_OUTAGE = {}"
    using dtl_empty_iff vdev_ok_self [OF t1(2)] by metis
  show ?thesis
    using assms(3-5) t1 t2 e
    by (cases zio_injection) (simp_all add: vdev_dtl_required_def Let_def dtl_abs_cant_read reassess_spec_again same)
qed

theorem vdev_dtl_required_correct_witness:
  "\<exists>tvd1 tvd2. vdev_dtl_required demo_alloc False demo_spa None demo_mirror 2 = Some (True, tvd1) \<and>
    vdev_dtl_required demo_alloc False demo_spa None demo_mirror 3 = Some (False, tvd2)"
proof -
  have w: "devs_log (reassess_spec None False (dtl_abs demo_spa (set_cant_read 2 True demo_mirror))) DTL_OUTAGE \<noteq> {}"
    "devs_log (reassess_spec None False (dtl_abs demo_spa (set_cant_read 3 True demo_mirror))) DTL_OUTAGE = {}"
    by (auto simp: demo_defs Let_def held_by_def fault_limit_def new_missing_def intro: exI [of _ 0])
  obtain vd2 where "vdev_load_at 2 demo_mirror = [vd2]" by (simp add: demo_defs)
  moreover obtain vd3 where "vdev_load_at 3 demo_mirror = [vd3]" by (simp add: demo_defs)
  moreover have "(2 :: nat) \<noteq> spa_root_vdev demo_spa" "2 \<noteq> vdev_addr (vdev_self demo_mirror)"
    "(3 :: nat) \<noteq> spa_root_vdev demo_spa" "3 \<noteq> vdev_addr (vdev_self demo_mirror)" by (simp_all add: demo_defs)
  ultimately show ?thesis
    using vdev_dtl_required_correct [OF demo_alloc_fresh demo_mirror_ok, of 2 vd2 False None]
      vdev_dtl_required_correct [OF demo_alloc_fresh demo_mirror_ok, of 3 vd3 False None] w by fastforce
qed

section \<open>What has to be resilvered\<close>

fun resilver_txgs :: "vdev \<Rightarrow> nat set" where
  "resilver_txgs (Vdev vd cs) =
     (if cs = [] then if vdev_writeable vd then sm_offsets (vdev_dtl vd DTL_MISSING) else {}
      else \<Union>c\<in>set cs. resilver_txgs c)"

definition txg_range :: "nat set \<Rightarrow> bool \<times> u64 \<times> u64" where
  "txg_range W = (if W = {} then (False, - 1, 0) else (True, of_nat (Min W) - 1, of_nat (Suc (Max W))))"

lemma separate_Min_Max:
  assumes "separate L" "L \<noteq> []"
  shows "Min (seg_offsets L) = ustart (hd L)" "Suc (Max (seg_offsets L)) = uend (last L)"
proof -
  have b: "ustart (hd L) \<le> ustart s \<and> uend s \<le> uend (last L)" if "s \<in> set L" for s
    using assms that
  proof (induction L)
    case (Cons x L)
    show ?case
    proof (cases "L = []")
      case False
      then have "uend x < ustart (last L)" "ustart (last L) < uend (last L)" and lt: "\<forall>b\<in>set L. uend x < ustart b" "ustart x < uend x"
        using Cons.prems(1) by (auto simp: separate_Cons separate_def)
      then have "uend x \<le> uend (last L)" by linarith
      then show ?thesis using Cons False lt by (auto simp: separate_Cons)
    qed (use Cons.prems in simp)
  qed simp
  have e: "ustart (hd L) < uend (hd L)" "ustart (last L) < uend (last L)" "hd L \<in> set L" "last L \<in> set L"
    using assms by (auto simp: separate_def)
  show "Min (seg_offsets L) = ustart (hd L)"
    using b e(1,3) by (intro Min_eqI) (fastforce simp: seg_offsets_def)+
  have "uend (last L) - 1 \<in> {ustart (last L)..<uend (last L)}" using e(2) by auto
  then have "uend (last L) - 1 \<in> seg_offsets L" using e(4) unfolding seg_offsets_def by blast
  then have "Max (seg_offsets L) = uend (last L) - 1"
    using b by (intro Max_eqI) (fastforce simp: seg_offsets_def)+
  then show "Suc (Max (seg_offsets L)) = uend (last L)" using e(2) by simp
qed

lemma txg_range_unat:
  assumes "X \<subseteq> {1..<2 ^ 64 - 1}" "X \<noteq> {}"
  shows "unat (of_nat (Min X) - 1 :: u64) = Min X - 1" "unat (of_nat (Suc (Max X)) :: u64) = Suc (Max X)"
proof -
  have "finite X" using assms(1) finite_subset by blast
  then have m: "Min X \<in> {1..<2 ^ 64 - 1}" "Max X \<in> {1..<2 ^ 64 - 1}" using assms Min_in Max_in by blast+
  then have "unat (of_nat (Min X) :: u64) = Min X" by (simp add: unsigned_of_nat take_bit_nat_eq_self)
  then show "unat (of_nat (Min X) - 1 :: u64) = Min X - 1" using m(1) by (subst unat_sub) (simp_all add: word_le_nat_alt)
  show "unat (of_nat (Suc (Max X)) :: u64) = Suc (Max X)" using m(2) by (subst unsigned_of_nat) (simp add: take_bit_nat_eq_self)
qed

text \<open>Merging two ranges of transaction groups with \<^verbatim>\<open>MIN\<close> and \<^verbatim>\<open>MAX\<close>.\<close>

lemma txg_range_un:
  assumes "A \<subseteq> {1..<2 ^ 64 - 1}" "B \<subseteq> {1..<2 ^ 64 - 1}" "B \<noteq> {}" "txg_range A = (needed, lo, hi)" "txg_range B = (True, cmin, cmax)"
  shows "txg_range (A \<union> B) = (True, min lo cmin, max hi cmax)"
proof (cases "A = {}")
  case True
  have "min (- 1) x = x" "max 0 x = x" for x :: u64 by (simp_all add: min_absorb2 max_absorb2)
  then show ?thesis using assms True by (auto simp: txg_range_def)
next
  case False
  have fin: "finite A" "finite B" using assms(1,2) finite_subset by blast+
  have "unat (of_nat (Min (A \<union> B)) - 1 :: u64) = min (unat (of_nat (Min A) - 1 :: u64)) (unat (of_nat (Min B) - 1 :: u64))"
    "unat (of_nat (Suc (Max (A \<union> B))) :: u64) = max (unat (of_nat (Suc (Max A)) :: u64)) (unat (of_nat (Suc (Max B)) :: u64))"
    using txg_range_unat [of A] txg_range_unat [of B] txg_range_unat [of "A \<union> B"] assms(1-3) False fin
    by (simp_all add: Min_Un Max_Un min_diff)
  then have "of_nat (Min (A \<union> B)) - 1 = min (of_nat (Min A) - 1 :: u64) (of_nat (Min B) - 1)"
    "of_nat (Suc (Max (A \<union> B))) = max (of_nat (Suc (Max A)) :: u64) (of_nat (Suc (Max B)))"
    by (auto simp: word_unat_eq_iff min_def max_def word_le_nat_alt)
  then show ?thesis using assms(3-5) False by (simp add: txg_range_def)
qed

lemma resilver_leaf:
  assumes "dtl_map (vdev_dtl vd DTL_MISSING)"
  shows "vdev_resilver_needed (Vdev vd []) =
    (case txg_range (resilver_txgs (Vdev vd [])) of (needed, lo, hi) \<Rightarrow> Some (if needed then Some (lo, hi) else None))"
proof -
  let ?L = "sm_segs (vdev_dtl vd DTL_MISSING)"
  have sep: "separate ?L" and off: "sm_offsets (vdev_dtl vd DTL_MISSING) = seg_offsets ?L" and
    sp: "unat (sm_space (vdev_dtl vd DTL_MISSING)) = card (seg_offsets ?L)"
    using dtl_map_facts(1,2) [OF assms] by (simp_all add: sm_offsets_def)
  have z: "sm_space (vdev_dtl vd DTL_MISSING) = 0 \<longleftrightarrow> seg_offsets ?L = {}" using sp by (simp flip: unat_eq_0)
  show ?thesis
  proof (cases "vdev_writeable vd \<and> seg_offsets ?L \<noteq> {}")
    case True
    then have ne: "?L \<noteq> []" by auto
    show ?thesis using True z ne off separate_Min_Max [OF sep ne]
      by (simp add: avl_first_ok avl_last_ok first_opt_def last_opt_def txg_range_def Let_def del: of_nat_Suc)
  next
    case False
    then show ?thesis using z off by (auto simp: txg_range_def)
  qed
qed

lemma resilver_children_ok:
  assumes "\<And>c. c \<in> set cs \<Longrightarrow> resilver_txgs c \<subseteq> {1..<2 ^ 64 - 1} \<and>
      vdev_resilver_needed c = (case txg_range (resilver_txgs c) of (needed, lo, hi) \<Rightarrow> Some (if needed then Some (lo, hi) else None))"
    "A \<subseteq> {1..<2 ^ 64 - 1}" "txg_range A = (needed, lo, hi)"
  shows "resilver_children cs needed lo hi = Some (txg_range (A \<union> (\<Union>c\<in>set cs. resilver_txgs c)))"
  using assms
proof (induction cs arbitrary: A needed lo hi)
  case (Cons c cs)
  have c: "resilver_txgs c \<subseteq> {1..<2 ^ 64 - 1}"
    "vdev_resilver_needed c = (case txg_range (resilver_txgs c) of (needed, lo, hi) \<Rightarrow> Some (if needed then Some (lo, hi) else None))"
    using Cons.prems(1) [of c] by simp_all
  show ?case
  proof (cases "resilver_txgs c = {}")
    case True
    have "resilver_children cs needed lo hi = Some (txg_range (A \<union> (\<Union>c\<in>set cs. resilver_txgs c)))"
      using Cons.IH [OF _ Cons.prems(2,3)] Cons.prems(1) by simp
    then show ?thesis using True c(2) by (simp add: txg_range_def [of "{}"])
  next
    case False
    obtain cmin cmax where r: "txg_range (resilver_txgs c) = (True, cmin, cmax)" using False by (simp add: txg_range_def)
    have "resilver_children cs True (min lo cmin) (max hi cmax) = Some (txg_range (A \<union> resilver_txgs c \<union> (\<Union>c\<in>set cs. resilver_txgs c)))"
      using Cons.prems(1,2) c(1) txg_range_un [OF Cons.prems(2) c(1) False Cons.prems(3) r] by (intro Cons.IH) auto
    then show ?thesis using c(2) r by (simp add: Un_assoc)
  qed
qed simp

lemma resilver_ok:
  assumes "vdev_ok spa vd" "0 \<notin> resilver_txgs vd"
  shows "resilver_txgs vd \<subseteq> {1..<2 ^ 64 - 1}"
    "vdev_resilver_needed vd = (case txg_range (resilver_txgs vd) of (needed, lo, hi) \<Rightarrow> Some (if needed then Some (lo, hi) else None))"
proof -
  have "resilver_txgs vd \<subseteq> {1..<2 ^ 64 - 1} \<and>
    vdev_resilver_needed vd = (case txg_range (resilver_txgs vd) of (needed, lo, hi) \<Rightarrow> Some (if needed then Some (lo, hi) else None))"
    using assms
  proof (induction vd)
    case (Vdev vd cs)
    show ?case
    proof (cases "cs = []")
      case True
      have m: "dtl_map (vdev_dtl vd DTL_MISSING)" using Vdev.prems(1) by simp
      then have "sm_offsets (vdev_dtl vd DTL_MISSING) \<subseteq> {..<2 ^ 64 - 1}" by (rule dtl_map_facts)
      moreover have "n \<noteq> 0" if "n \<in> resilver_txgs (Vdev vd cs)" for n using that Vdev.prems(2) by metis
      ultimately have "resilver_txgs (Vdev vd cs) \<subseteq> {1..<2 ^ 64 - 1}" using True by (fastforce split: if_splits)
      then show ?thesis using True resilver_leaf [OF m] by simp
    next
      case False
      have "resilver_txgs c \<subseteq> {1..<2 ^ 64 - 1} \<and>
          vdev_resilver_needed c = (case txg_range (resilver_txgs c) of (needed, lo, hi) \<Rightarrow> Some (if needed then Some (lo, hi) else None))"
        if "c \<in> set cs" for c using Vdev False that by auto
      moreover from this have "(\<Union>c\<in>set cs. resilver_txgs c) \<subseteq> {1..<2 ^ 64 - 1}" by auto
      ultimately show ?thesis using False resilver_children_ok [of cs "{}" False "- 1" 0]
        by (auto simp: txg_range_def [of "{}"] split: prod.splits)
    qed
  qed
  then show "resilver_txgs vd \<subseteq> {1..<2 ^ 64 - 1}"
    "vdev_resilver_needed vd = (case txg_range (resilver_txgs vd) of (needed, lo, hi) \<Rightarrow> Some (if needed then Some (lo, hi) else None))"
    by blast+
qed

text \<open>
  The range of a resilver.  Over a tree of devices, \<open>vdev_resilver_needed\<close> says no exactly when no
  writeable disk misses a transaction group; otherwise the range it returns is tight: it starts just before
  the first missing transaction group and ends just after the last one.  Transaction group 0, whose
  predecessor would wrap, is never missing.
\<close>

lemma vdev_resilver_needed_range:
  assumes "vdev_ok spa vd" "0 \<notin> resilver_txgs vd"
  shows "(resilver_txgs vd = {} \<longrightarrow> vdev_resilver_needed vd = Some None) \<and>
    (resilver_txgs vd \<noteq> {} \<longrightarrow> (\<exists>lo hi. vdev_resilver_needed vd = Some (Some (lo, hi)) \<and>
      Suc (unat lo) = Min (resilver_txgs vd) \<and> unat hi = Suc (Max (resilver_txgs vd))))"
proof (intro conjI impI)
  note r = resilver_ok [OF assms]
  show "vdev_resilver_needed vd = Some None" if "resilver_txgs vd = {}" using r(2) that by (simp add: txg_range_def)
  assume ne: "resilver_txgs vd \<noteq> {}"
  let ?W = "resilver_txgs vd"
  note u = txg_range_unat [OF r(1) ne]
  have "vdev_resilver_needed vd = Some (Some (of_nat (Min ?W) - 1, of_nat (Suc (Max ?W))))"
    using r(2) ne by (simp add: txg_range_def del: of_nat_Suc)
  moreover have "0 < Min ?W" using r(1) ne finite_subset [OF r(1)] Min_in [of ?W] by fastforce
  then have "Suc (unat (of_nat (Min ?W) - 1 :: u64)) = Min ?W" using u(1) by linarith
  ultimately show "\<exists>lo hi. vdev_resilver_needed vd = Some (Some (lo, hi)) \<and> Suc (unat lo) = Min ?W \<and> unat hi = Suc (Max ?W)"
    using u(2) by blast
qed

lemma dtl_dirty_ok:
  assumes "\<forall>t. dtl_map (vdev_dtl vd t)" "vdev_addr vd \<noteq> spa_root_vdev spa" "spa_writeable spa" "txg \<noteq> - 1"
  shows "\<exists>vd'. vdev_dtl_dirty zfs_recover spa vd t txg 1 = Some vd' \<and> dev_of spa vd' = dev_of spa vd \<and>
    vdev_writeable vd' = vdev_writeable vd \<and> (\<forall>t. dtl_map (vdev_dtl vd' t)) \<and>
    (\<lambda>u. sm_offsets (vdev_dtl vd' u)) = (\<lambda>u. sm_offsets (vdev_dtl vd u))(t := insert (unat txg) (sm_offsets (vdev_dtl vd t)))"
proof -
  let ?sm = "vdev_dtl vd t"
  have m: "dtl_map ?sm" using assms(1) by blast
  have "unat txg \<noteq> 2 ^ 64 - 1" using assms(4) unat_max_u64 word_unat_eq_iff by metis
  then have fits: "sm_fits ?sm txg 1" using unsigned_less [of txg, where 'a = nat] by (intro dtl_map_fits [OF m]) auto
  have r: "range_of txg 1 = {unat txg}" by auto
  note has = space_map_contains_ok [OF dtl_map_wf(1) [OF m] fits, unfolded r]
  show ?thesis
  proof (cases "unat txg \<in> sm_offsets ?sm")
    case True
    then show ?thesis using assms has by (auto simp: vdev_dtl_dirty_def Let_def insert_absorb fun_eq_iff)
  next
    case False
    then obtain sm' where "space_map_add zfs_recover ?sm txg 1 = Some sm'" "sm_wf sm'" "same_frame ?sm sm'"
      "sm_offsets sm' = insert (unat txg) (sm_offsets ?sm)"
      using space_map_add_ok [OF dtl_map_wf(1) [OF m] fits, unfolded r, of zfs_recover] by auto
    then show ?thesis using False assms has dtl_map_frame [OF m] by (auto simp: vdev_dtl_dirty_def Let_def fun_eq_iff)
  qed
qed

end
