(* ===== verification/Metaslab.thy ===== *)
theory Metaslab
  imports SpaceMap
begin

text \<open>
  The block allocators of the ZFS metaslabs (the allocator routines of \<^verbatim>\<open>zfs/metaslab.c\<close>), which fill
  the operations vector of a space map: they keep a second tree of the free segments ordered by size and a
  table of 64 cursors, and pick the offset of a free block.  The vector a map uses is a value of
  \<open>metaslab_ops\<close>, and \<open>metaslab_optable\<close> interprets it.  The tunables of the file are a record.  An
  index outside the table of cursors, a shift by the width of the word or more, a division by 0 and a
  failed \<^verbatim>\<open>ASSERT\<close> are \<open>None\<close>.
\<close>

section \<open>Tunables\<close>

record metaslab_tunables =
  metaslab_df_alloc_threshold :: u64
  metaslab_df_free_pct :: u32
  metaslab_min_alloc_size :: u64
  metaslab_ndf_clump_shift :: u64

definition SPA_MAXBLOCKSIZE :: u64 where
  "SPA_MAXBLOCKSIZE = push_bit 17 1"

section \<open>Common routines\<close>

definition metaslab_segsize_compare :: "space_seg \<Rightarrow> space_seg \<Rightarrow> int" where
  "metaslab_segsize_compare s1 s2 =
     (let ss_size1 = ss_end s1 - ss_start s1; ss_size2 = ss_end s2 - ss_start s2 in
      if ss_size1 < ss_size2 then - 1
      else if ss_size1 > ss_size2 then 1
      else if ss_start s1 < ss_start s2 then - 1
      else if ss_start s1 > ss_start s2 then 1
      else 0)"

definition find_or_after :: "space_seg avl_tree \<Rightarrow> space_seg \<Rightarrow> space_seg option option" where
  "find_or_after t ssearch =
     (case avl_find t ssearch of
        Inl ss \<Rightarrow> Some (Some ss)
      | Inr where \<Rightarrow> avl_nearest t where AVL_AFTER)"

partial_function (option) picker_loop :: "space_seg avl_tree \<Rightarrow> space_seg option \<Rightarrow> u64 \<Rightarrow> u64 \<Rightarrow> u64 option option" where
  "picker_loop t ss sz align =
     (case ss of
        None \<Rightarrow> Some None
      | Some s \<Rightarrow>
          if P2ROUNDUP (ss_start s) align + sz \<le> ss_end s then Some (Some (P2ROUNDUP (ss_start s) align))
          else Option.bind (avl_walk t s AVL_AFTER) (\<lambda>ss. picker_loop t ss sz align))"

declare picker_loop.simps [code]

function metaslab_block_picker :: "space_seg avl_tree \<Rightarrow> u64 \<Rightarrow> u64 \<Rightarrow> u64 \<Rightarrow> (u64 \<times> u64) option" where
  "metaslab_block_picker t cursor sz align =
     Option.bind (find_or_after t (seg cursor (cursor + sz))) (\<lambda>ss.
     Option.bind (picker_loop t ss sz align) (\<lambda>r.
       case r of
         Some offset \<Rightarrow> Some (offset, offset + sz)
       | None \<Rightarrow> if cursor = 0 then Some (- 1, cursor) else metaslab_block_picker t 0 sz align))"
  by auto
termination
  by (relation "measure (\<lambda>(t, cursor, sz, align). if cursor = 0 then 0 else 1)") auto

declare metaslab_block_picker.simps [simp del]

fun pp_load_loop :: "space_seg list \<Rightarrow> space_seg avl_tree \<Rightarrow> space_seg avl_tree option" where
  "pp_load_loop [] pp = Some pp"
| "pp_load_loop (ss # segs) pp = Option.bind (avl_add pp ss) (pp_load_loop segs)"

definition metaslab_pp_load :: "'o space_map \<Rightarrow> 'o space_map option" where
  "metaslab_pp_load sm =
     require (sm_ppd sm = None)
       (Option.bind (avl_iterate (sm_root sm) (avl_first (sm_root sm))) (\<lambda>segs.
        Option.bind (pp_load_loop segs (avl_create metaslab_segsize_compare)) (\<lambda>pp.
          Some (sm\<lparr>sm_ppd := Some (replicate 64 0), sm_pp_root := Some pp\<rparr>))))"

definition metaslab_pp_unload :: "'o space_map \<Rightarrow> 'o space_map option" where
  "metaslab_pp_unload sm =
     (case sm_pp_root sm of
        None \<Rightarrow> None
      | Some pp \<Rightarrow>
          Option.bind (avl_drain pp Cookie_null) (\<lambda>(segs, pp).
          Option.bind (avl_destroy pp) (\<lambda>u. Some (sm\<lparr>sm_ppd := None, sm_pp_root := None\<rparr>))))"

definition metaslab_pp_claim :: "'o space_map \<Rightarrow> u64 \<Rightarrow> u64 \<Rightarrow> 'o space_map option" where
  "metaslab_pp_claim sm start sz = Some sm"

definition metaslab_pp_free :: "'o space_map \<Rightarrow> u64 \<Rightarrow> u64 \<Rightarrow> 'o space_map option" where
  "metaslab_pp_free sm start sz = Some sm"

definition metaslab_pp_maxsize :: "'o space_map \<Rightarrow> u64" where
  "metaslab_pp_maxsize sm =
     (case sm_pp_root sm of
        None \<Rightarrow> 0
      | Some t \<Rightarrow> (case avl_last t of None \<Rightarrow> 0 | Some ss \<Rightarrow> ss_end ss - ss_start ss))"

text \<open>Loading and storing the cursor at an index of \<^verbatim>\<open>sm_ppd\<close>.\<close>

definition ppd_load :: "'o space_map \<Rightarrow> nat \<Rightarrow> u64 option" where
  "ppd_load sm i = Option.bind (sm_ppd sm) (\<lambda>cs. require (i < length cs) (Some (cs ! i)))"

definition ppd_store :: "nat \<Rightarrow> u64 \<Rightarrow> 'o space_map \<Rightarrow> 'o space_map" where
  "ppd_store i c sm = sm\<lparr>sm_ppd := map_option (\<lambda>cs. cs[i := c]) (sm_ppd sm)\<rparr>"

section \<open>First fit\<close>

definition metaslab_ff_alloc :: "'o space_map \<Rightarrow> u64 \<Rightarrow> (u64 \<times> 'o space_map) option" where
  "metaslab_ff_alloc sm sz =
     (let align = sz AND (- sz); i = highbit align in
      require (i \<noteq> 0)
        (Option.bind (ppd_load sm (i - 1)) (\<lambda>cursor.
         Option.bind (metaslab_block_picker (sm_root sm) cursor sz align) (\<lambda>(offset, cursor).
           Some (offset, ppd_store (i - 1) cursor sm)))))"

definition metaslab_ff_fragmented :: "'o space_map \<Rightarrow> bool option" where
  "metaslab_ff_fragmented sm = Some True"

section \<open>Dynamic fit\<close>

definition free_pct :: "'o space_map \<Rightarrow> u32 option" where
  "free_pct sm = require (sm_size sm \<noteq> 0) (Some (ucast (sm_space sm * 100 div sm_size sm)))"

definition pp_in_step :: "'o space_map \<Rightarrow> bool" where
  "pp_in_step sm \<longleftrightarrow> map_option avl_numnodes (sm_pp_root sm) = Some (avl_numnodes (sm_root sm))"

definition metaslab_df_alloc :: "metaslab_tunables \<Rightarrow> 'o space_map \<Rightarrow> u64 \<Rightarrow> (u64 \<times> 'o space_map) option" where
  "metaslab_df_alloc tun sm sz =
     (let align = sz AND (- sz); i = highbit align; max_size = metaslab_pp_maxsize sm in
      Option.bind (free_pct sm) (\<lambda>pct.
        require (pp_in_step sm)
          (if max_size < sz then Some (- 1, sm)
           else
             require (i \<noteq> 0)
               (Option.bind (ppd_load sm (i - 1)) (\<lambda>cursor.
                Option.bind
                  (if max_size < metaslab_df_alloc_threshold tun \<or> sint pct < sint (metaslab_df_free_pct tun)
                   then map_option (\<lambda>pp. (pp, 0)) (sm_pp_root sm)
                   else Some (sm_root sm, cursor)) (\<lambda>(t, cursor).
                Option.bind (metaslab_block_picker t cursor sz 1) (\<lambda>(offset, cursor).
                  Some (offset, ppd_store (i - 1) cursor sm))))))))"

definition metaslab_df_fragmented :: "metaslab_tunables \<Rightarrow> 'o space_map \<Rightarrow> bool option" where
  "metaslab_df_fragmented tun sm =
     map_option (\<lambda>pct. \<not> (metaslab_pp_maxsize sm \<ge> metaslab_df_alloc_threshold tun \<and> sint pct \<ge> sint (metaslab_df_free_pct tun)))
       (free_pct sm)"

section \<open>Cursor-based dynamic fit\<close>

definition metaslab_cdf_alloc :: "metaslab_tunables \<Rightarrow> 'o space_map \<Rightarrow> u64 \<Rightarrow> (u64 \<times> 'o space_map) option" where
  "metaslab_cdf_alloc tun sm sz =
     (let max_size = metaslab_pp_maxsize sm in
      require (pp_in_step sm)
        (if max_size < sz then Some (- 1, sm)
         else
           Option.bind (ppd_load sm 0) (\<lambda>cursor.
           Option.bind (ppd_load sm 1) (\<lambda>extent_end.
             require (extent_end \<ge> cursor)
               (Option.bind
                  (if cursor + sz > extent_end then
                     let rsize = (if max_size > 2 * SPA_MAXBLOCKSIZE then min (metaslab_min_alloc_size tun) max_size else sz) in
                     Option.bind (sm_pp_root sm) (\<lambda>t.
                     map_option (\<lambda>(offset, extent_end). (offset, if offset \<noteq> - 1 then offset + sz else 0, extent_end))
                       (metaslab_block_picker t 0 rsize 1))
                   else map_option (\<lambda>(offset, cursor). (offset, cursor, extent_end))
                     (metaslab_block_picker (sm_root sm) cursor sz 1))
                  (\<lambda>(offset, cursor, extent_end).
                     require (cursor \<le> extent_end)
                       (Some (offset, ppd_store 1 extent_end (ppd_store 0 cursor sm)))))))))"

definition metaslab_cdf_fragmented :: "metaslab_tunables \<Rightarrow> 'o space_map \<Rightarrow> bool option" where
  "metaslab_cdf_fragmented tun sm = Some (\<not> metaslab_pp_maxsize sm > metaslab_min_alloc_size tun * 10)"

section \<open>New dynamic fit\<close>

definition metaslab_ndf_alloc :: "metaslab_tunables \<Rightarrow> 'o space_map \<Rightarrow> u64 \<Rightarrow> (u64 \<times> 'o space_map) option" where
  "metaslab_ndf_alloc tun sm sz =
     (let hbit = highbit sz; max_size = metaslab_pp_maxsize sm; clump = of_nat hbit + metaslab_ndf_clump_shift tun in
      require (pp_in_step sm)
        (if max_size < sz then Some (- 1, sm)
         else
           require (hbit \<noteq> 0)
             (Option.bind (ppd_load sm (hbit - 1)) (\<lambda>cursor.
              Option.bind
                (case avl_find (sm_root sm) (seg cursor (cursor + sz)) of
                   Inl ss \<Rightarrow> if ss_start ss + sz > ss_end ss then Some None else Some (Some ss)
                 | Inr where \<Rightarrow> Some None) (\<lambda>r.
              Option.bind
                (case r of
                   Some ss \<Rightarrow> Some ss
                 | None \<Rightarrow>
                     Option.bind (sm_pp_root sm) (\<lambda>t.
                       require (unat clump < 64)
                         (Option.bind (find_or_after t (seg 0 (min max_size (push_bit (unat clump) 1)))) (\<lambda>ss. ss)))) (\<lambda>ss.
                Some (if ss_start ss + sz \<le> ss_end ss
                      then (ss_start ss, ppd_store (hbit - 1) (ss_start ss + sz) sm)
                      else (- 1, sm))))))))"

definition metaslab_ndf_fragmented :: "metaslab_tunables \<Rightarrow> 'o space_map \<Rightarrow> bool option" where
  "metaslab_ndf_fragmented tun sm =
     require (unat (metaslab_ndf_clump_shift tun) < 64)
       (Some (\<not> metaslab_pp_maxsize sm > push_bit (unat (metaslab_ndf_clump_shift tun)) (metaslab_min_alloc_size tun)))"

section \<open>The operations vectors\<close>

datatype metaslab_ops = metaslab_ff_ops | metaslab_df_ops | metaslab_cdf_ops | metaslab_ndf_ops

definition pp_ops :: "(metaslab_ops space_map \<Rightarrow> u64 \<Rightarrow> (u64 \<times> metaslab_ops space_map) option) \<Rightarrow>
    (metaslab_ops space_map \<Rightarrow> bool option) \<Rightarrow> metaslab_ops space_map_ops" where
  "pp_ops alloc fragmented =
     \<lparr>smop_load = metaslab_pp_load, smop_unload = metaslab_pp_unload, smop_alloc = alloc, smop_claim = metaslab_pp_claim,
      smop_free = metaslab_pp_free, smop_max = (\<lambda>sm. Some (metaslab_pp_maxsize sm)), smop_fragmented = fragmented\<rparr>"

fun metaslab_optable :: "metaslab_tunables \<Rightarrow> metaslab_ops \<Rightarrow> metaslab_ops space_map_ops" where
  "metaslab_optable tun metaslab_ff_ops = pp_ops metaslab_ff_alloc metaslab_ff_fragmented"
| "metaslab_optable tun metaslab_df_ops = pp_ops (metaslab_df_alloc tun) (metaslab_df_fragmented tun)"
| "metaslab_optable tun metaslab_cdf_ops = pp_ops (metaslab_cdf_alloc tun) (metaslab_cdf_fragmented tun)"
| "metaslab_optable tun metaslab_ndf_ops = pp_ops (metaslab_ndf_alloc tun) (metaslab_ndf_fragmented tun)"

end
