(* ===== verification/MetaslabProps.thy ===== *)
theory MetaslabProps
  imports Metaslab SpaceMapProps
begin

text \<open>
  What the block allocators promise: the block picker as a search of an ordered list, well-formed metaslab maps, the contract of an allocator as two locales and the four
  allocators as their interpretations, and loading and unloading the tree of sizes.
\<close>

section \<open>Picking a block\<close>

definition fits :: "u64 \<Rightarrow> u64 \<Rightarrow> space_seg \<Rightarrow> bool" where
  "fits sz align s \<longleftrightarrow> P2ROUNDUP (ss_start s) align + sz \<le> ss_end s"

lemma picker_loop_ok:
  assumes "distinct (avl_list t)" "avl_list t = xs @ ys"
  shows "picker_loop t (first_opt ys) sz align = Some (map_option (\<lambda>s. P2ROUNDUP (ss_start s) align) (find (fits sz align) ys))"
  using assms(2)
proof (induction ys arbitrary: xs)
  case Nil
  then show ?case by (subst picker_loop.simps) simp
next
  case (Cons y ys)
  then have "picker_loop t (first_opt ys) sz align = Some (map_option (\<lambda>s. P2ROUNDUP (ss_start s) align) (find (fits sz align) ys))"
    by (intro Cons.IH [of "xs @ [y]"]) simp
  then show ?case using avl_walk_ok(2) [OF assms(1) Cons.prems] by (subst picker_loop.simps) (simp add: fits_def)
qed

text \<open>The search for a key starts at an element that compares as equal, or at the first larger one.\<close>

lemma find_or_after_ok:
  assumes "avl_order cmp" "avl_order.ordered cmp (avl_list t)" "avl_compar t = cmp"
  obtains xs ys where "find_or_after t v = Some (first_opt ys)" "avl_list t = xs @ ys"
    "\<And>x. x \<in> set xs \<Longrightarrow> cmp x v = - 1 \<or> (\<exists>f\<in>set (avl_list t). cmp v f = 0 \<and> cmp x f = - 1)"
    "\<And>y. y \<in> set ys \<Longrightarrow> cmp v y = - 1 \<or> cmp v y = 0 \<or> (\<exists>f\<in>set (avl_list t). cmp v f = 0 \<and> cmp f y = - 1)"
proof (cases rule: avl_order.avl_find_ok [OF assms, where v = v])
  case (1 x)
  then obtain xs ys where xy: "avl_list t = xs @ x # ys" by (meson split_list)
  then have "\<forall>u\<in>set xs. cmp u x = - 1" "\<forall>u\<in>set ys. cmp x u = - 1"
    using assms(2) by (auto simp: avl_order.ordered_append [OF assms(1)] avl_order.ordered_Cons [OF assms(1)])
  then show thesis using that [of "x # ys" xs] 1 xy by (auto simp: find_or_after_def)
next
  case (2 w xs ys)
  have "distinct (avl_list t)" using avl_order.ordered_distinct [OF assms(1,2)] .
  then have "avl_nearest t w AVL_AFTER = Some (first_opt ys)" using avl_nearest_ok(2) 2(5) by blast
  then show thesis using that [of ys xs] 2 by (auto simp: find_or_after_def)
qed

lemma block_picker_ok:
  assumes "avl_order cmp" "avl_order.ordered cmp (avl_list t)" "avl_compar t = cmp"
    and skip: "\<And>x. x \<in> set (avl_list t) \<Longrightarrow> cmp x (seg 0 sz) = - 1 \<or> (\<exists>f\<in>set (avl_list t). cmp (seg 0 sz) f = 0 \<and> cmp x f = - 1) \<Longrightarrow> \<not> fits sz align x"
  obtains (found) s where "metaslab_block_picker t cursor sz align = Some (P2ROUNDUP (ss_start s) align, P2ROUNDUP (ss_start s) align + sz)"
      "s \<in> set (avl_list t)" "fits sz align s"
  | (none) "metaslab_block_picker t cursor sz align = Some (- 1, 0)" "\<forall>s\<in>set (avl_list t). \<not> fits sz align s"
proof -
  have d: "distinct (avl_list t)" using avl_order.ordered_distinct [OF assms(1,2)] .
  have pass: "\<exists>ys. set ys \<subseteq> set (avl_list t) \<and> (c = 0 \<longrightarrow> (\<forall>s\<in>set (avl_list t). fits sz align s \<longrightarrow> s \<in> set ys)) \<and>
      metaslab_block_picker t c sz align = (case find (fits sz align) ys of
          Some s \<Rightarrow> Some (P2ROUNDUP (ss_start s) align, P2ROUNDUP (ss_start s) align + sz)
        | None \<Rightarrow> if c = 0 then Some (- 1, 0) else metaslab_block_picker t 0 sz align)" for c
  proof -
    obtain xs ys where xy: "find_or_after t (seg c (c + sz)) = Some (first_opt ys)" "avl_list t = xs @ ys"
      "\<And>x. x \<in> set xs \<Longrightarrow> cmp x (seg c (c + sz)) = - 1 \<or> (\<exists>f\<in>set (avl_list t). cmp (seg c (c + sz)) f = 0 \<and> cmp x f = - 1)"
      using find_or_after_ok [OF assms(1-3)] by metis
    have "c = 0 \<longrightarrow> (\<forall>s\<in>set (avl_list t). fits sz align s \<longrightarrow> s \<in> set ys)" using xy(2,3) skip by fastforce
    then show ?thesis using xy(1,2) picker_loop_ok [OF d xy(2), of sz align]
      by (intro exI [of _ ys]) (subst metaslab_block_picker.simps, simp split: option.splits)
  qed
  obtain ys where ys: "set ys \<subseteq> set (avl_list t)" "metaslab_block_picker t cursor sz align = (case find (fits sz align) ys of
          Some s \<Rightarrow> Some (P2ROUNDUP (ss_start s) align, P2ROUNDUP (ss_start s) align + sz)
        | None \<Rightarrow> if cursor = 0 then Some (- 1, 0) else metaslab_block_picker t 0 sz align)"
    "cursor = 0 \<longrightarrow> (\<forall>s\<in>set (avl_list t). fits sz align s \<longrightarrow> s \<in> set ys)" using pass by blast
  obtain zs where zs: "set zs \<subseteq> set (avl_list t)" "metaslab_block_picker t 0 sz align = (case find (fits sz align) zs of
          Some s \<Rightarrow> Some (P2ROUNDUP (ss_start s) align, P2ROUNDUP (ss_start s) align + sz) | None \<Rightarrow> Some (- 1, 0))"
    "\<forall>s\<in>set (avl_list t). fits sz align s \<longrightarrow> s \<in> set zs" using pass [of 0] by (simp only: simp_thms if_True) blast
  have hit: "s \<in> set us \<and> fits sz align s" if "find (fits sz align) us = Some s" for s us
    using that by (auto simp: find_Some_iff)
  have miss: "\<forall>s\<in>set us. \<not> fits sz align s" if "find (fits sz align) us = None" for us
    using that by (auto simp: find_None_iff)
  show thesis
  proof (cases "find (fits sz align) ys")
    case (Some s)
    then show ?thesis using found [of s] ys(1,2) hit by auto
  next
    case None
    note ys_none = None
    show ?thesis
    proof (cases "find (fits sz align) zs")
      case (Some s)
      have "cursor \<noteq> 0" using ys(3) zs(1) hit [OF Some] miss [OF ys_none] by blast
      then show ?thesis using found [of s] ys(2) ys_none zs(1,2) Some hit by auto
    next
      case None
      then have "metaslab_block_picker t cursor sz align = Some (- 1, 0)" using ys(2) ys_none zs(2) by simp
      then show ?thesis using none zs(3) miss [OF None] by blast
    qed
  qed
qed

section \<open>Well-formed metaslab maps\<close>

interpretation mss: avl_order metaslab_segsize_compare
  by unfold_locales (auto simp: metaslab_segsize_compare_def Let_def split: if_splits)

lemma segsize_eq: "metaslab_segsize_compare x y = 0 \<Longrightarrow> x = y"
proof -
  assume "metaslab_segsize_compare x y = 0"
  then have "ss_start x = ss_start y" "ss_end x - ss_start x = ss_end y - ss_start y"
    by (auto simp: metaslab_segsize_compare_def Let_def split: if_splits)
  then show ?thesis by (cases x, cases y) (metis diff_eq_eq space_seg.select_convs diff_add_cancel)
qed

text \<open>
  A map that has been loaded with one of the allocators: the second tree is ordered by size and there are
  64 cursors inside the map.  The map lies below \<open>2 ^ 63\<close>, and blocks are smaller than \<open>2 ^ 32\<close>.
\<close>

definition ms_end :: "'o space_map \<Rightarrow> nat" where
  "ms_end sm = unat (sm_start sm) + unat (sm_size sm)"

definition ms_ok :: "'o space_map \<Rightarrow> bool" where
  "ms_ok sm \<longleftrightarrow> sm_wf sm \<and> sm_size sm \<noteq> 0 \<and> ms_end sm \<le> 2 ^ 63 \<and>
     map_option avl_compar (sm_pp_root sm) = Some metaslab_segsize_compare \<and>
     (\<exists>cs. sm_ppd sm = Some cs \<and> length cs = 64 \<and> (\<forall>c\<in>set cs. unat c \<le> ms_end sm))"

definition ms_size :: "'o space_map \<Rightarrow> u64 \<Rightarrow> bool" where
  "ms_size sm sz \<longleftrightarrow> sz \<noteq> 0 \<and> unat sz < 2 ^ 32 \<and> aligned sm (unat sz)"

definition free_block :: "'o space_map \<Rightarrow> u64 \<Rightarrow> u64 \<Rightarrow> bool" where
  "free_block sm off sz \<longleftrightarrow> off \<noteq> - 1 \<and> sm_fits sm off sz \<and> range_of off sz \<subseteq> sm_offsets sm"

definition cursors :: "'o space_map \<Rightarrow> 'o space_map \<Rightarrow> bool" where
  "cursors sm sm' \<longleftrightarrow> (\<exists>cs. sm' = sm\<lparr>sm_ppd := Some cs\<rparr> \<and> length cs = 64 \<and> (\<forall>c\<in>set cs. unat c \<le> ms_end sm))"

lemma ms_ok_seg:
  assumes "ms_ok sm" "s \<in> set (sm_segs sm)"
  shows "ustart s < uend s" "uend s \<le> ms_end sm" "unat (sm_start sm) \<le> ustart s" "uend s \<le> 2 ^ 63"
    "unat (ss_end s - ss_start s) = uend s - ustart s" "aligned sm (ustart s)" "{ustart s..<uend s} \<subseteq> sm_offsets sm"
proof -
  have s: "ustart s < uend s" "{ustart s..<uend s} \<subseteq> sm_offsets sm" "sm_offsets sm \<subseteq> sm_range sm" "aligned sm (ustart s)"
    using assms by (auto simp: ms_ok_def sm_wf_def separate_def sm_offsets_def seg_offsets_def)
  have "sm_range sm = {unat (sm_start sm)..<ms_end sm}" by (simp add: sm_range_def ms_end_def)
  then have "{ustart s..<uend s} \<subseteq> {unat (sm_start sm)..<ms_end sm}" using s(2,3) by blast
  then show "uend s \<le> ms_end sm" "unat (sm_start sm) \<le> ustart s" using s(1) by (auto simp: atLeastLessThan_subset_iff)
  then show "uend s \<le> 2 ^ 63" using assms(1) by (simp add: ms_ok_def)
  show "unat (ss_end s - ss_start s) = uend s - ustart s" using s(1) by (simp add: unat_sub word_le_nat_alt)
  show "ustart s < uend s" "aligned sm (ustart s)" "{ustart s..<uend s} \<subseteq> sm_offsets sm" using s by blast+
qed

lemma ms_ok_pp:
  assumes "ms_ok sm"
  obtains pp where "sm_pp_root sm = Some pp" "avl_wf pp" "mss.ordered (avl_list pp)" "avl_compar pp = metaslab_segsize_compare"
    "set (avl_list pp) = set (sm_segs sm)" "pp_in_step sm"
proof -
  obtain pp where pp: "sm_pp_root sm = Some pp" "avl_compar pp = metaslab_segsize_compare" using assms by (auto simp: ms_ok_def)
  have t: "avl_wf pp" "mss.ordered (avl_list pp)" "set (avl_list pp) = set (sm_segs sm)" and r: "avl_wf (sm_root sm)"
    using assms pp by (auto simp: ms_ok_def sm_wf_def pp_tree_Some)
  have "length (avl_list pp) = length (sm_segs sm)"
    using t r distinct_card [of "avl_list pp"] distinct_card [of "sm_segs sm"] by (simp add: avl_wf_def)
  then have "pp_in_step sm" using t(1) r pp(1) by (simp add: pp_in_step_def avl_wf_def)
  then show thesis using that pp t by blast
qed

lemma ms_ok_cursors:
  assumes "ms_ok sm" "cursors sm sm'"
  shows "ms_ok sm'" "sm_offsets sm' = sm_offsets sm"
  using assms by (auto simp: ms_ok_def cursors_def sm_wf_def sm_offsets_def sm_range_def aligned_def ms_end_def)

lemma ppd_ok:
  assumes "ms_ok sm" "i < 64"
  obtains c where "ppd_load sm i = Some c" "unat c \<le> ms_end sm" "\<And>c'. unat c' \<le> ms_end sm \<Longrightarrow> cursors sm (ppd_store i c' sm)"
proof -
  obtain cs where cs: "sm_ppd sm = Some cs" "length cs = 64" "\<forall>c\<in>set cs. unat c \<le> ms_end sm" using assms(1) by (auto simp: ms_ok_def)
  have "\<forall>c\<in>set (cs[i := c']). unat c \<le> ms_end sm" if "unat c' \<le> ms_end sm" for c'
    using cs(3) that set_update_subset_insert [of cs i c'] by auto
  then have "cursors sm (ppd_store i c' sm)" if "unat c' \<le> ms_end sm" for c'
    unfolding cursors_def using that cs(1,2) by (intro exI [of _ "cs[i := c']"]) (simp add: ppd_store_def)
  moreover have "ppd_load sm i = Some (cs ! i)" "unat (cs ! i) \<le> ms_end sm" using cs assms(2) by (simp_all add: ppd_load_def)
  ultimately show thesis using that by blast
qed

lemma cursors_refl: "ms_ok sm \<Longrightarrow> cursors sm sm"
proof -
  assume "ms_ok sm"
  then obtain cs where cs: "sm_ppd sm = Some cs" "length cs = 64" "\<forall>c\<in>set cs. unat c \<le> ms_end sm" by (auto simp: ms_ok_def)
  moreover have "sm\<lparr>sm_ppd := sm_ppd sm\<rparr> = sm" by simp
  ultimately show ?thesis unfolding cursors_def by metis
qed

lemma cursors_trans: "cursors sm sm1 \<Longrightarrow> cursors sm1 sm2 \<Longrightarrow> cursors sm sm2"
  by (auto simp: cursors_def ms_end_def)

lemma ppd_stores:
  assumes "ms_ok sm" "unat c \<le> ms_end sm" "unat e \<le> ms_end sm"
  shows "cursors sm (ppd_store 1 e (ppd_store 0 c sm))"
proof -
  have c: "cursors sm (ppd_store 0 c sm)" using ppd_ok [OF assms(1), of 0] assms(2) by auto
  then have "ms_end (ppd_store 0 c sm) = ms_end sm" by (simp add: ppd_store_def ms_end_def)
  then have "cursors (ppd_store 0 c sm) (ppd_store 1 e (ppd_store 0 c sm))"
    using ppd_ok [OF ms_ok_cursors(1) [OF assms(1) c], of 1] assms(3) by auto
  with c show ?thesis by (rule cursors_trans)
qed

section \<open>Blocks that fit\<close>

lemma fits_iff:
  assumes "ms_ok sm" "s \<in> set (sm_segs sm)" "2 ^ k + unat r \<le> 2 ^ 63 + 1"
  shows "unat (P2ROUNDUP (ss_start s) (2 ^ k) + r) = unat (P2ROUNDUP (ss_start s) (2 ^ k)) + unat r"
    "fits r (2 ^ k) s \<longleftrightarrow> unat (P2ROUNDUP (ss_start s) (2 ^ k)) + unat r \<le> uend s"
    "ustart s \<le> unat (P2ROUNDUP (ss_start s) (2 ^ k))" "2 ^ k dvd unat (P2ROUNDUP (ss_start s) (2 ^ k))"
proof -
  note s = ms_ok_seg [OF assms(1,2)]
  have p: "(2 :: nat) ^ k \<le> 2 ^ 63 + 1" using assms(3) by simp
  have "k < 64"
  proof (rule ccontr)
    assume "\<not> k < 64"
    then have "(2 :: nat) ^ 64 \<le> 2 ^ k" by (intro power_increasing) auto
    then show False using p by simp
  qed
  moreover have "ustart s + 2 ^ k \<le> 2 ^ 64" using p s(1,4) by simp
  ultimately have o: "ustart s \<le> unat (P2ROUNDUP (ss_start s) (2 ^ k))" "unat (P2ROUNDUP (ss_start s) (2 ^ k)) < ustart s + 2 ^ k"
    "2 ^ k dvd unat (P2ROUNDUP (ss_start s) (2 ^ k))"
    using P2ROUNDUP_ok by blast+
  show u: "unat (P2ROUNDUP (ss_start s) (2 ^ k) + r) = unat (P2ROUNDUP (ss_start s) (2 ^ k)) + unat r"
    using o(2) s(1,4) assms(3) by (intro unat_plus) simp
  show "fits r (2 ^ k) s \<longleftrightarrow> unat (P2ROUNDUP (ss_start s) (2 ^ k)) + unat r \<le> uend s" by (simp add: fits_def word_le_nat_alt u)
  show "ustart s \<le> unat (P2ROUNDUP (ss_start s) (2 ^ k))" "2 ^ k dvd unat (P2ROUNDUP (ss_start s) (2 ^ k))" using o by blast+
qed

lemma P2ROUNDUP_1 [simp]: "P2ROUNDUP x 1 = x"
  by (simp add: P2ROUNDUP_def)

lemmas fits_1 = fits_iff [where k = 0, unfolded power_0 P2ROUNDUP_1]

lemma fits_free:
  assumes "ms_ok sm" "ms_size sm sz" "s \<in> set (sm_segs sm)" "k = 0 \<or> sm_shift sm \<le> k" "2 ^ k \<le> unat sz" "fits sz (2 ^ k) s"
  shows "free_block sm (P2ROUNDUP (ss_start s) (2 ^ k)) sz" "unat (P2ROUNDUP (ss_start s) (2 ^ k) + sz) \<le> ms_end sm"
proof -
  let ?off = "P2ROUNDUP (ss_start s) (2 ^ k)"
  have "2 ^ k + unat sz \<le> 2 ^ 63 + 1" using assms(2,5) by (simp add: ms_size_def)
  note f = fits_iff [OF assms(1,3) this] and s = ms_ok_seg [OF assms(1,3)]
  have le: "unat ?off + unat sz \<le> uend s" using f(2) assms(6) by blast
  then show "unat (?off + sz) \<le> ms_end sm" using f(1) s(2) by simp
  have "aligned sm (unat ?off)"
  proof (cases "k = 0")
    case False
    then have "sm_shift sm \<le> k" using assms(4) by simp
    then show ?thesis using f(4) dvd_trans [OF le_imp_power_dvd] unfolding aligned_def by blast
  qed (use s(6) in simp)
  moreover have "range_of ?off sz \<subseteq> sm_offsets sm" using f(3) le s(7) by fastforce
  moreover have "?off \<noteq> - 1"
  proof
    assume "?off = - 1"
    then have "unat ?off = 2 ^ 64 - 1" by (simp add: unsigned_minus_1_eq_mask mask_eq_exp_minus_1)
    then show False using le s(4) by simp
  qed
  ultimately show "free_block sm ?off sz"
    using assms(2) f(3) le s(2,3) by (auto simp: free_block_def sm_fits_def ms_size_def ms_end_def)
qed

text \<open>What the picker returns on the tree of offsets and on the tree of sizes.\<close>

lemma pick_root:
  assumes "ms_ok sm" "ms_size sm sz" "k = 0 \<or> sm_shift sm \<le> k" "2 ^ k \<le> unat sz"
  obtains off c where "metaslab_block_picker (sm_root sm) cursor sz (2 ^ k) = Some (off, c)" "unat c \<le> ms_end sm"
    "off = - 1 \<longleftrightarrow> (\<forall>s\<in>set (sm_segs sm). \<not> fits sz (2 ^ k) s)" "off \<noteq> - 1 \<Longrightarrow> free_block sm off sz"
proof -
  have wf: "sm_wf sm" using assms(1) by (simp add: ms_ok_def)
  have o: "sgs.ordered (sm_segs sm)" "avl_compar (sm_root sm) = space_map_seg_compare"
    using wf by (simp_all add: sm_wf_def separate_ordered)
  have b: "2 ^ k + unat sz \<le> 2 ^ 63 + 1" using assms(2,4) by (simp add: ms_size_def)
  have sz: "unat (0 :: u64) < unat sz" using assms(2) by (simp add: ms_size_def unat_gt_0)
  have "\<not> fits sz (2 ^ k) x" if x: "x \<in> set (sm_segs sm)" and
    c: "space_map_seg_compare x (seg 0 sz) = - 1 \<or> (\<exists>f\<in>set (sm_segs sm). space_map_seg_compare (seg 0 sz) f = 0 \<and> space_map_seg_compare x f = - 1)" for x
  proof -
    have "\<not> space_map_seg_compare x (seg 0 sz) = - 1" by (simp add: seg_compare_less)
    then obtain f where f: "f \<in> set (sm_segs sm)" "space_map_seg_compare (seg 0 sz) f = 0" "space_map_seg_compare x f = - 1" using c by blast
    then have "ustart f < unat sz" using overlap_found(1) [OF wf f(1,2) sz] by simp
    moreover have "uend x \<le> ustart f" using f(3) by (simp add: seg_compare_less word_le_nat_alt)
    ultimately show ?thesis using fits_iff(2) [OF assms(1) x b] by simp
  qed
  then show thesis
  proof (cases rule: block_picker_ok [OF sgs.avl_order_axioms o, where sz = sz and align = "2 ^ k" and cursor = cursor, case_names skip found none])
    case (found s)
    note fr = fits_free [OF assms(1,2) found(2) assms(3,4) found(3)]
    then have "P2ROUNDUP (ss_start s) (2 ^ k) \<noteq> - 1" by (simp add: free_block_def)
    then show thesis using that [OF found(1)] fr found(2,3) by blast
  next
    case none
    then show thesis using that [OF none(1)] by simp
  qed blast
qed

lemma pick_pp:
  assumes "ms_ok sm" "sm_pp_root sm = Some pp" "unat r \<le> 2 ^ 63"
  obtains (found) s where "metaslab_block_picker pp 0 r 1 = Some (ss_start s, ss_start s + r)" "s \<in> set (sm_segs sm)" "fits r 1 s"
  | (none) "metaslab_block_picker pp 0 r 1 = Some (- 1, 0)" "\<forall>s\<in>set (sm_segs sm). \<not> fits r 1 s"
proof -
  obtain pp' where "sm_pp_root sm = Some pp'" "avl_wf pp'" "mss.ordered (avl_list pp')" "avl_compar pp' = metaslab_segsize_compare"
    "set (avl_list pp') = set (sm_segs sm)"
    using ms_ok_pp [OF assms(1)] by blast
  then have pp: "mss.ordered (avl_list pp)" "avl_compar pp = metaslab_segsize_compare" "set (avl_list pp) = set (sm_segs sm)"
    using assms(2) by simp_all
  have "\<not> fits r 1 x" if x: "x \<in> set (avl_list pp)" and
    c: "metaslab_segsize_compare x (seg 0 r) = - 1 \<or> (\<exists>f\<in>set (avl_list pp). metaslab_segsize_compare (seg 0 r) f = 0 \<and> metaslab_segsize_compare x f = - 1)" for x
  proof -
    have x': "x \<in> set (sm_segs sm)" using x pp(3) by simp
    have "metaslab_segsize_compare x (seg 0 r) = - 1" using c segsize_eq by metis
    then have "ss_end x - ss_start x < r" by (auto simp: metaslab_segsize_compare_def Let_def split: if_splits)
    then have "uend x - ustart x < unat r" using ms_ok_seg(5) [OF assms(1) x'] by (simp add: word_less_nat_alt)
    then show ?thesis using fits_1(2) [OF assms(1) x'] assms(3) ms_ok_seg(1) [OF assms(1) x'] by simp
  qed
  then show thesis
  proof (cases rule: block_picker_ok [OF mss.avl_order_axioms pp(1,2), where sz = r and align = 1 and cursor = 0, case_names skip found none])
    case (found s)
    then show thesis using that(1) pp(3) by simp
  next
    case none
    then show thesis using that(2) pp(3) by simp
  qed blast
qed

lemma maxsize_ok:
  assumes "ms_ok sm"
  shows "sz \<noteq> 0 \<Longrightarrow> (metaslab_pp_maxsize sm < sz \<longleftrightarrow> (\<forall>s\<in>set (sm_segs sm). uend s - ustart s < unat sz))"
    "unat (metaslab_pp_maxsize sm) \<le> 2 ^ 63"
proof -
  obtain pp where pp: "sm_pp_root sm = Some pp" "avl_wf pp" "mss.ordered (avl_list pp)" "set (avl_list pp) = set (sm_segs sm)"
    using ms_ok_pp [OF assms] by blast
  have "(sz \<noteq> 0 \<longrightarrow> (metaslab_pp_maxsize sm < sz \<longleftrightarrow> (\<forall>s\<in>set (sm_segs sm). uend s - ustart s < unat sz))) \<and>
    unat (metaslab_pp_maxsize sm) \<le> 2 ^ 63"
  proof (cases "avl_list pp" rule: rev_cases)
    case Nil
    then show ?thesis using pp(1,4) by (simp add: metaslab_pp_maxsize_def avl_last_ok word_neq_0_conv)
  next
    case (snoc us l)
    have l: "l \<in> set (sm_segs sm)" using snoc pp(4) by auto
    have m: "metaslab_pp_maxsize sm = ss_end l - ss_start l" using pp(1) snoc by (simp add: metaslab_pp_maxsize_def avl_last_ok)
    then have ml: "unat (metaslab_pp_maxsize sm) = uend l - ustart l" using ms_ok_seg(5) [OF assms l] by simp
    have le: "uend s - ustart s \<le> uend l - ustart l" if "s \<in> set (sm_segs sm)" for s
    proof -
      have "s = l \<or> metaslab_segsize_compare s l = - 1" using that pp(3,4) snoc by (auto simp: mss.ordered_append)
      then have "ss_end s - ss_start s \<le> ss_end l - ss_start l" by (auto simp: metaslab_segsize_compare_def Let_def split: if_splits)
      then show ?thesis using ms_ok_seg(5) [OF assms l] ms_ok_seg(5) [OF assms that] by (simp add: word_le_nat_alt)
    qed
    have "metaslab_pp_maxsize sm < sz \<longleftrightarrow> (\<forall>s\<in>set (sm_segs sm). uend s - ustart s < unat sz)"
      unfolding word_less_nat_alt ml using le l by (meson le_less_trans)
    moreover have "unat (metaslab_pp_maxsize sm) \<le> 2 ^ 63" using ml ms_ok_seg(4) [OF assms l] by simp
    ultimately show ?thesis by blast
  qed
  then show "sz \<noteq> 0 \<Longrightarrow> (metaslab_pp_maxsize sm < sz \<longleftrightarrow> (\<forall>s\<in>set (sm_segs sm). uend s - ustart s < unat sz))"
    "unat (metaslab_pp_maxsize sm) \<le> 2 ^ 63" by blast+
qed

section \<open>The contract of an allocator\<close>

text \<open>
  \<open>block_allocator\<close>: an allocator only moves cursors, and the offset it returns, unless it is \<open>- 1\<close>, starts
  a free block.  \<open>total_allocator\<close>: it always returns, and it returns \<open>- 1\<close> only when no segment suits.
\<close>

locale block_allocator =
  fixes alloc :: "metaslab_ops space_map \<Rightarrow> u64 \<Rightarrow> (u64 \<times> metaslab_ops space_map) option"
  assumes alloc_sound: "ms_ok sm \<Longrightarrow> ms_size sm sz \<Longrightarrow> alloc sm sz = Some (off, sm1) \<Longrightarrow>
    cursors sm sm1 \<and> (off \<noteq> - 1 \<longrightarrow> free_block sm off sz)"
begin

lemma hand_out:
  assumes "ms_ok sm" "ms_size sm sz" "alloc sm sz = Some (off, sm1)" "off \<noteq> - 1"
  shows "\<exists>sm'. space_map_remove zfs_recover sm1 off sz = Some sm' \<and> ms_ok sm' \<and> sm_ops sm' = sm_ops sm \<and>
    same_range sm sm' \<and> free_block sm off sz \<and> sm_offsets sm' = sm_offsets sm - range_of off sz"
proof -
  have c: "cursors sm sm1" and f: "free_block sm off sz" using alloc_sound [OF assms(1-3)] assms(4) by blast+
  note ok = ms_ok_cursors [OF assms(1) c]
  have "sm_wf sm1" "sm_fits sm1 off sz" "range_of off sz \<subseteq> sm_offsets sm1"
    using ok c f by (auto simp: ms_ok_def cursors_def free_block_def sm_fits_def aligned_def)
  then obtain sm' where sm': "space_map_remove zfs_recover sm1 off sz = Some sm'" "sm_wf sm'" "same_frame sm1 sm'"
    "sm_offsets sm' = sm_offsets sm1 - range_of off sz"
    using space_map_remove_ok by blast
  then have "ms_ok sm'" using ok(1) by (auto simp: ms_ok_def same_frame_def ms_end_def)
  moreover have "sm_ops sm' = sm_ops sm" "same_range sm sm'" using sm'(3) c by (auto simp: same_frame_def same_range_def cursors_def)
  ultimately show ?thesis using sm' ok(2) f by simp
qed

lemma allocate:
  assumes "ms_ok sm" "ms_size sm sz" "sm_ops sm = Some v" "smop_alloc (optable v) = alloc"
    "space_map_alloc optable zfs_recover sm sz = Some (off, sm')"
  shows "ms_ok sm'" "sm_ops sm' = sm_ops sm" "off = - 1 \<Longrightarrow> sm_offsets sm' = sm_offsets sm"
    "off \<noteq> - 1 \<Longrightarrow> free_block sm off sz \<and> sm_offsets sm' = sm_offsets sm - range_of off sz" "same_range sm sm'"
proof -
  obtain sm1 where a: "alloc sm sz = Some (off, sm1)"
    and r: "if off = - 1 then sm' = sm1 else space_map_remove zfs_recover sm1 off sz = Some sm'"
    using assms(3-5) by (auto simp: space_map_alloc_def bind_eq_Some_conv split: if_splits)
  have "ms_ok sm' \<and> sm_ops sm' = sm_ops sm \<and> (off = - 1 \<longrightarrow> sm_offsets sm' = sm_offsets sm) \<and>
    (off \<noteq> - 1 \<longrightarrow> free_block sm off sz \<and> sm_offsets sm' = sm_offsets sm - range_of off sz) \<and> same_range sm sm'"
  proof (cases "off = - 1")
    case True
    have c: "cursors sm sm1" using alloc_sound [OF assms(1,2) a] by blast
    then have "sm_ops sm1 = sm_ops sm" "same_range sm sm1" by (auto simp: cursors_def same_range_def)
    then show ?thesis using True r ms_ok_cursors [OF assms(1) c] by simp
  next
    case False
    then show ?thesis using hand_out [OF assms(1,2) a False, of zfs_recover] r by auto
  qed
  then show "ms_ok sm'" "sm_ops sm' = sm_ops sm" "off = - 1 \<Longrightarrow> sm_offsets sm' = sm_offsets sm"
    "off \<noteq> - 1 \<Longrightarrow> free_block sm off sz \<and> sm_offsets sm' = sm_offsets sm - range_of off sz" "same_range sm sm'" by blast+
qed

end

locale total_allocator = block_allocator +
  fixes suits :: "u64 \<Rightarrow> space_seg \<Rightarrow> bool"
  assumes alloc_total: "ms_ok sm \<Longrightarrow> ms_size sm sz \<Longrightarrow>
    \<exists>off sm1. alloc sm sz = Some (off, sm1) \<and> (off = - 1 \<longleftrightarrow> (\<forall>s\<in>set (sm_segs sm). \<not> suits sz s))"
begin

lemma allocate_total:
  assumes "ms_ok sm" "ms_size sm sz" "sm_ops sm = Some v" "smop_alloc (optable v) = alloc"
  shows "\<exists>off sm'. space_map_alloc optable zfs_recover sm sz = Some (off, sm') \<and>
    (off = - 1 \<longleftrightarrow> (\<forall>s\<in>set (sm_segs sm). \<not> suits sz s))"
proof -
  obtain off sm1 where a: "alloc sm sz = Some (off, sm1)" "off = - 1 \<longleftrightarrow> (\<forall>s\<in>set (sm_segs sm). \<not> suits sz s)"
    using alloc_total [OF assms(1,2)] by blast
  show ?thesis
  proof (cases "off = - 1")
    case True
    then show ?thesis using a assms(3,4) by (simp add: space_map_alloc_def)
  next
    case False
    then show ?thesis using a assms(3,4) hand_out [OF assms(1,2) a(1) False, of zfs_recover] by (auto simp: space_map_alloc_def)
  qed
qed

end

section \<open>The allocators keep the contract\<close>

text \<open>A segment suits first fit when an aligned block fits; for the others it has to be long enough.\<close>

definition ff_suits :: "u64 \<Rightarrow> space_seg \<Rightarrow> bool" where
  "ff_suits sz s \<longleftrightarrow> fits sz (sz AND (- sz)) s"

definition df_suits :: "u64 \<Rightarrow> space_seg \<Rightarrow> bool" where
  "df_suits sz s \<longleftrightarrow> unat sz \<le> uend s - ustart s"

lemma fits_1_suits:
  assumes "ms_ok sm" "ms_size sm sz" "s \<in> set (sm_segs sm)"
  shows "fits sz 1 s \<longleftrightarrow> df_suits sz s"
  using fits_1(2) [OF assms(1,3), of sz] assms(2) ms_ok_seg(1) [OF assms(1,3)] by (auto simp: df_suits_def ms_size_def)

lemma ms_align:
  assumes "ms_size sm sz"
  obtains k where "sz AND (- sz) = 2 ^ k" "sm_shift sm \<le> k" "2 ^ k \<le> unat sz" "highbit (sz AND (- sz)) \<noteq> 0" "highbit (sz AND (- sz)) - 1 < 64"
proof -
  have sz: "sz \<noteq> 0" "2 ^ sm_shift sm dvd unat sz" using assms by (simp_all add: ms_size_def aligned_def)
  obtain k where k: "sz AND (- sz) = 2 ^ k" "k < 64" "2 ^ k dvd unat sz" "\<And>j. 2 ^ j dvd unat sz \<Longrightarrow> j \<le> k"
    using lowest_bit [OF sz(1)] by blast
  have "2 ^ k \<le> unat sz" using k(3) sz(1) by (intro dvd_imp_le) (simp_all add: unat_gt_0)
  moreover have "sz AND (- sz) \<noteq> 0" using k(1,2) by simp
  ultimately show thesis using that k(1) k(4) [OF sz(2)] highbit_ok(1,2) [of "sz AND (- sz)"] by simp
qed

lemma ff_alloc_ok:
  assumes "ms_ok sm" "ms_size sm sz"
  obtains off sm1 where "metaslab_ff_alloc sm sz = Some (off, sm1)" "cursors sm sm1" "off \<noteq> - 1 \<Longrightarrow> free_block sm off sz"
    "off = - 1 \<longleftrightarrow> (\<forall>s\<in>set (sm_segs sm). \<not> ff_suits sz s)"
proof -
  obtain k where k: "sz AND (- sz) = 2 ^ k" "sm_shift sm \<le> k" "2 ^ k \<le> unat sz" "highbit (sz AND (- sz)) \<noteq> 0" "highbit (sz AND (- sz)) - 1 < 64"
    using ms_align [OF assms(2)] by blast
  obtain c where c: "ppd_load sm (highbit (sz AND (- sz)) - 1) = Some c"
    "\<And>c'. unat c' \<le> ms_end sm \<Longrightarrow> cursors sm (ppd_store (highbit (sz AND (- sz)) - 1) c' sm)"
    using ppd_ok [OF assms(1) k(5)] by blast
  obtain off c' where "metaslab_block_picker (sm_root sm) c sz (2 ^ k) = Some (off, c')" "unat c' \<le> ms_end sm"
    "off = - 1 \<longleftrightarrow> (\<forall>s\<in>set (sm_segs sm). \<not> fits sz (2 ^ k) s)" "off \<noteq> - 1 \<Longrightarrow> free_block sm off sz"
    using pick_root [OF assms disjI2 [OF k(2)] k(3)] by blast
  then show thesis using that c k(1,4) by (simp add: metaslab_ff_alloc_def Let_def ff_suits_def)
qed

lemma df_alloc_ok:
  assumes "ms_ok sm" "ms_size sm sz"
  obtains off sm1 where "metaslab_df_alloc tun sm sz = Some (off, sm1)" "cursors sm sm1" "off \<noteq> - 1 \<Longrightarrow> free_block sm off sz"
    "off = - 1 \<longleftrightarrow> (\<forall>s\<in>set (sm_segs sm). \<not> df_suits sz s)"
proof -
  obtain pp where pp: "sm_pp_root sm = Some pp" "pp_in_step sm" using ms_ok_pp [OF assms(1)] by blast
  obtain pct where pct: "free_pct sm = Some pct" using assms(1) by (simp add: free_pct_def ms_ok_def)
  have sz: "sz \<noteq> 0" "unat sz < 2 ^ 32" "(2 :: nat) ^ 0 \<le> unat sz" using assms(2) by (auto simp: ms_size_def Suc_le_eq unat_gt_0)
  let ?i = "highbit (sz AND (- sz))"
  show thesis
  proof (cases "metaslab_pp_maxsize sm < sz")
    case True
    then have "\<forall>s\<in>set (sm_segs sm). \<not> df_suits sz s" using maxsize_ok(1) [OF assms(1) sz(1)] by (auto simp: df_suits_def not_le)
    then show thesis using that [of "- 1" sm] True pp pct cursors_refl [OF assms(1)] by (simp add: metaslab_df_alloc_def Let_def)
  next
    case False
    have i: "?i \<noteq> 0" "?i - 1 < 64" using ms_align [OF assms(2)] by blast+
    obtain c where c: "ppd_load sm (?i - 1) = Some c" "\<And>c'. unat c' \<le> ms_end sm \<Longrightarrow> cursors sm (ppd_store (?i - 1) c' sm)"
      using ppd_ok [OF assms(1) i(2)] by blast
    obtain t c0 where t: "(if metaslab_pp_maxsize sm < metaslab_df_alloc_threshold tun \<or> sint pct < sint (metaslab_df_free_pct tun)
        then map_option (\<lambda>pp. (pp, 0)) (sm_pp_root sm) else Some (sm_root sm, c)) = Some (t, c0)"
      "t = sm_root sm \<or> t = pp \<and> c0 = 0"
      using pp(1) by (cases "metaslab_pp_maxsize sm < metaslab_df_alloc_threshold tun \<or> sint pct < sint (metaslab_df_free_pct tun)") auto
    obtain off c' where p: "metaslab_block_picker t c0 sz 1 = Some (off, c')" "unat c' \<le> ms_end sm"
      "off = - 1 \<longleftrightarrow> (\<forall>s\<in>set (sm_segs sm). \<not> fits sz 1 s)" "off \<noteq> - 1 \<Longrightarrow> free_block sm off sz"
    proof (cases "t = sm_root sm")
      case True
      then show ?thesis using that pick_root [OF assms, of 0 c0] sz(3) unfolding power_0 by blast
    next
      case False
      then have t': "t = pp" "c0 = 0" using t(2) by blast+
      have "unat sz \<le> 2 ^ 63" using sz(2) by simp
      with assms(1) pp(1) show ?thesis
      proof (cases rule: pick_pp)
        case (found s)
        note fr = fits_free [OF assms found(2) _ sz(3), simplified, OF found(3)]
        then show ?thesis using that [of "ss_start s" "ss_start s + sz"] t' found by (auto simp: free_block_def)
      next
        case none
        then show ?thesis using that [of "- 1" 0] t' by simp
      qed
    qed
    have "metaslab_df_alloc tun sm sz = Some (off, ppd_store (?i - 1) c' sm)"
      using False pp pct i(1) c(1) t(1) p(1) unfolding metaslab_df_alloc_def Let_def by simp
    then show thesis using that c(2) [OF p(2)] p(3,4) fits_1_suits [OF assms] by simp
  qed
qed

text \<open>The search of the new dynamic fit: the segment that follows a size that some segment has.\<close>

lemma find_by_size:
  assumes "ms_ok sm" "sm_pp_root sm = Some pp" "M \<noteq> 0" "M \<le> metaslab_pp_maxsize sm"
  obtains s where "find_or_after pp (seg 0 M) = Some (Some s)" "s \<in> set (sm_segs sm)" "unat M \<le> uend s - ustart s"
proof -
  obtain pp' where "sm_pp_root sm = Some pp'" "mss.ordered (avl_list pp')" "avl_compar pp' = metaslab_segsize_compare"
    "set (avl_list pp') = set (sm_segs sm)"
    using ms_ok_pp [OF assms(1)] by blast
  then have pp: "mss.ordered (avl_list pp)" "avl_compar pp = metaslab_segsize_compare" "set (avl_list pp) = set (sm_segs sm)"
    using assms(2) by simp_all
  have less: "uend x - ustart x < unat M" if "x \<in> set (sm_segs sm)" "metaslab_segsize_compare x (seg 0 M) = - 1" for x
  proof -
    have "ss_end x - ss_start x < M" using that(2) by (auto simp: metaslab_segsize_compare_def Let_def split: if_splits)
    then show ?thesis using ms_ok_seg(5) [OF assms(1) that(1)] by (simp add: word_less_nat_alt)
  qed
  have le: "unat M \<le> uend y - ustart y" if "y \<in> set (sm_segs sm)" "metaslab_segsize_compare (seg 0 M) y = - 1 \<or> seg 0 M = y" for y
  proof -
    have "M \<le> ss_end y - ss_start y" using that(2) by (auto simp: metaslab_segsize_compare_def Let_def split: if_splits)
    then show ?thesis using ms_ok_seg(5) [OF assms(1) that(1)] by (simp add: word_le_nat_alt)
  qed
  obtain l where l: "l \<in> set (sm_segs sm)" "unat M \<le> uend l - ustart l"
    using maxsize_ok(1) [OF assms(1,3)] assms(4) by (meson not_le)
  obtain xs ys where xy: "find_or_after pp (seg 0 M) = Some (first_opt ys)" "avl_list pp = xs @ ys"
    "\<And>x. x \<in> set xs \<Longrightarrow> metaslab_segsize_compare x (seg 0 M) = - 1 \<or> (\<exists>f\<in>set (avl_list pp). metaslab_segsize_compare (seg 0 M) f = 0 \<and> metaslab_segsize_compare x f = - 1)"
    "\<And>y. y \<in> set ys \<Longrightarrow> metaslab_segsize_compare (seg 0 M) y = - 1 \<or> metaslab_segsize_compare (seg 0 M) y = 0 \<or>
      (\<exists>f\<in>set (avl_list pp). metaslab_segsize_compare (seg 0 M) f = 0 \<and> metaslab_segsize_compare f y = - 1)"
    by (rule find_or_after_ok [OF mss.avl_order_axioms pp(1,2), where v = "seg 0 M"]) (rule that, assumption+)
  have "l \<notin> set xs"
  proof
    assume "l \<in> set xs"
    then have "metaslab_segsize_compare l (seg 0 M) = - 1" using xy(3) segsize_eq by metis
    then show False using less [OF l(1)] l(2) by simp
  qed
  then obtain y zs where y: "ys = y # zs" using l(1) pp(3) xy(2) by (cases ys) auto
  then have "metaslab_segsize_compare (seg 0 M) y = - 1 \<or> seg 0 M = y" using xy(4) [of y] segsize_eq by (metis list.set_intros(1))
  moreover have "y \<in> set (sm_segs sm)" using y xy(2) pp(3) by auto
  ultimately show thesis using that [of y] y xy(1) le by simp
qed

lemma ndf_alloc_sound:
  assumes "ms_ok sm" "ms_size sm sz" "metaslab_ndf_alloc tun sm sz = Some (off, sm1)"
  shows "cursors sm sm1 \<and> (off \<noteq> - 1 \<longrightarrow> free_block sm off sz)"
proof -
  obtain pp where pp: "sm_pp_root sm = Some pp" "pp_in_step sm" "mss.ordered (avl_list pp)" "avl_compar pp = metaslab_segsize_compare"
    "set (avl_list pp) = set (sm_segs sm)" using ms_ok_pp [OF assms(1)] by blast
  have sz: "sz \<noteq> 0" "(2 :: nat) ^ 0 \<le> unat sz" using assms(2) by (auto simp: ms_size_def Suc_le_eq unat_gt_0)
  have wf: "sgs.ordered (sm_segs sm)" "avl_compar (sm_root sm) = space_map_seg_compare"
    using assms(1) by (simp_all add: ms_ok_def sm_wf_def separate_ordered)
  have m1: "u \<in> set (sm_segs sm)" if "avl_find (sm_root sm) v = Inl u" for u v
    by (cases rule: sgs.avl_find_ok [OF wf, where v = v]) (use that in auto)
  have m2: "u \<in> set (sm_segs sm)" if "find_or_after pp v = Some (Some u)" for u v
  proof (rule find_or_after_ok [OF mss.avl_order_axioms pp(3,4), where v = v])
    fix xs ys
    assume "find_or_after pp v = Some (first_opt ys)" "avl_list pp = xs @ ys"
    then show ?thesis using that pp(5) by (cases ys) auto
  qed
  show ?thesis
  proof (cases "metaslab_pp_maxsize sm < sz")
    case True
    then show ?thesis using assms(3) pp(2) cursors_refl [OF assms(1)] by (simp add: metaslab_ndf_alloc_def Let_def)
  next
    case False
    have "\<exists>u v. (avl_find (sm_root sm) v = Inl u \<or> find_or_after pp v = Some (Some u)) \<and>
        (fits sz 1 u \<and> off = ss_start u \<and> sm1 = ppd_store (highbit sz - 1) (ss_start u + sz) sm \<or>
         \<not> fits sz 1 u \<and> off = - 1 \<and> sm1 = sm)"
      using assms(3) False pp(1,2) unfolding metaslab_ndf_alloc_def Let_def fits_def
      by (auto simp: require_def bind_eq_Some_conv simp flip: One_nat_def split: if_splits sum.splits option.splits)
    then obtain u where u: "u \<in> set (sm_segs sm)" and r: "fits sz 1 u \<and> off = ss_start u \<and>
         sm1 = ppd_store (highbit sz - 1) (ss_start u + sz) sm \<or> \<not> fits sz 1 u \<and> off = - 1 \<and> sm1 = sm"
      using m1 m2 by metis
    show ?thesis
    proof (cases "fits sz 1 u")
      case True
      note fr = fits_free [OF assms(1,2) u _ sz(2), simplified, OF True]
      have "highbit sz - 1 < 64" using highbit_ok(2) [OF sz(1)] by simp
      then obtain c where "\<And>c'. unat c' \<le> ms_end sm \<Longrightarrow> cursors sm (ppd_store (highbit sz - 1) c' sm)"
        using ppd_ok [OF assms(1)] by blast
      then show ?thesis using fr r True by blast
    qed (use r cursors_refl [OF assms(1)] in simp)
  qed
qed

lemma ndf_alloc_total:
  assumes "ms_ok sm" "ms_size sm sz" "unat (metaslab_ndf_clump_shift tun) < 32"
  shows "\<exists>off sm1. metaslab_ndf_alloc tun sm sz = Some (off, sm1) \<and> (off = - 1 \<longleftrightarrow> (\<forall>s\<in>set (sm_segs sm). \<not> df_suits sz s))"
proof -
  obtain pp where pp: "sm_pp_root sm = Some pp" "pp_in_step sm" using ms_ok_pp [OF assms(1)] by blast
  have sz: "sz \<noteq> 0" "unat sz < 2 ^ 32" "(2 :: nat) ^ 0 \<le> unat sz" using assms(2) by (auto simp: ms_size_def Suc_le_eq unat_gt_0)
  define clump where "clump = of_nat (highbit sz) + metaslab_ndf_clump_shift tun"
  let ?h = "highbit sz" and ?M = "min (metaslab_pp_maxsize sm) (push_bit (unat clump) 1)"
  have h: "?h \<noteq> 0" "?h - 1 < 64" "unat sz < 2 ^ ?h" using highbit_ok [OF sz(1)] by simp_all
  have "(2 :: nat) ^ (?h - 1) < 2 ^ 32" using highbit_ok(3) [OF sz(1)] sz(2) by linarith
  then have h32: "?h \<le> 32" by (subst (asm) power_strict_increasing_iff) auto
  have uh: "unat (of_nat ?h :: u64) = ?h" using h32 by (simp add: unsigned_of_nat take_bit_nat_eq_self)
  have "unat clump = ?h + unat (metaslab_ndf_clump_shift tun)"
    unfolding clump_def using uh h32 assms(3) by (subst unat_plus) simp_all
  then have cl: "unat clump < 64" "?h \<le> unat clump" using h32 assms(3) by simp_all
  show ?thesis
  proof (cases "metaslab_pp_maxsize sm < sz")
    case True
    then have "\<forall>s\<in>set (sm_segs sm). \<not> df_suits sz s" using maxsize_ok(1) [OF assms(1) sz(1)] by (auto simp: df_suits_def not_le)
    then show ?thesis using True pp by (simp add: metaslab_ndf_alloc_def Let_def)
  next
    case False
    obtain c where c: "ppd_load sm (?h - 1) = Some c" using ppd_ok [OF assms(1) h(2)] by blast
    let ?find = "case avl_find (sm_root sm) (seg c (c + sz)) of
        Inl ss \<Rightarrow> if ss_start ss + sz > ss_end ss then Some None else Some (Some ss) | Inr where \<Rightarrow> Some None"
    have M: "unat sz \<le> unat ?M"
    proof -
      have "unat (push_bit (unat clump) 1 :: u64) = 2 ^ unat clump"
        using unat_push_bit [of 1 "unat clump"] cl(1) power_strict_increasing [of "unat clump" 64 "2 :: nat"] by simp
      moreover have "(2 :: nat) ^ ?h \<le> 2 ^ unat clump" using cl(2) by (intro power_increasing) auto
      ultimately have "unat sz \<le> unat (push_bit (unat clump) 1 :: u64)" using h(3) by linarith
      then show ?thesis using False by (simp add: word_le_nat_alt min_def not_less)
    qed
    then have "?M \<noteq> 0" using sz(1) by (auto simp: unat_eq_0 simp del: min_less_iff_conj)
    then obtain s where s: "find_or_after pp (seg 0 ?M) = Some (Some s)" "s \<in> set (sm_segs sm)" "unat ?M \<le> uend s - ustart s"
      using find_by_size [OF assms(1) pp(1), of ?M] by auto
    have suits: "df_suits sz s" using s(3) M by (simp add: df_suits_def)
    have wf: "sgs.ordered (sm_segs sm)" "avl_compar (sm_root sm) = space_map_seg_compare"
      using assms(1) by (simp_all add: ms_ok_def sm_wf_def separate_ordered)
    have found: "u \<in> set (sm_segs sm)" if "avl_find (sm_root sm) (seg c (c + sz)) = Inl u" for u
      by (cases rule: sgs.avl_find_ok [OF wf, where v = "seg c (c + sz)"]) (use that in auto)
    obtain r where r: "?find = Some r" "r = None \<or> (\<exists>u. r = Some u \<and> u \<in> set (sm_segs sm) \<and> fits sz 1 u)"
    proof (cases "avl_find (sm_root sm) (seg c (c + sz))")
      case (Inl u)
      then show ?thesis using that found [OF Inl] by (cases "ss_start u + sz > ss_end u") (auto simp: fits_def not_less)
    qed (use that in simp)
    obtain u where u: "(case r of Some ss \<Rightarrow> Some ss
         | None \<Rightarrow> Option.bind (sm_pp_root sm) (\<lambda>t. require (unat clump < 64)
             (Option.bind (find_or_after t (seg 0 ?M)) (\<lambda>ss. ss)))) = Some u" "u \<in> set (sm_segs sm)" "fits sz 1 u"
      using r(2) s(1,2) suits pp(1) cl(1) fits_1_suits [OF assms(1,2) s(2)] by (cases r) auto
    have "free_block sm (ss_start u) sz" using fits_free(1) [OF assms(1,2) u(2) _ sz(3)] u(3) by simp
    then have "ss_start u \<noteq> - 1" by (simp add: free_block_def)
    moreover have "metaslab_ndf_alloc tun sm sz = Some (ss_start u, ppd_store (?h - 1) (ss_start u + sz) sm)"
      using False pp(2) h(1) c r(1) u(1,3) unfolding metaslab_ndf_alloc_def Let_def clump_def [symmetric] by (simp add: fits_def)
    ultimately show ?thesis using u(2,3) fits_1_suits [OF assms(1,2)] by blast
  qed
qed

text \<open>
  The cursor-based allocator hands out the head of an extent of \<^verbatim>\<open>metaslab_min_alloc_size\<close> bytes, so its last
  \<^verbatim>\<open>ASSERT\<close> fails when a block is larger than that; when it returns, the block is free.
\<close>

lemma cdf_alloc_ok:
  assumes "ms_ok sm" "ms_size sm sz" "metaslab_cdf_alloc tun sm sz = Some (off, sm1)"
  shows "cursors sm sm1 \<and> (off \<noteq> - 1 \<longrightarrow> free_block sm off sz)"
proof -
  obtain pp where pp: "sm_pp_root sm = Some pp" "pp_in_step sm" using ms_ok_pp [OF assms(1)] by blast
  have sz: "sz \<noteq> 0" "unat sz < 2 ^ 32" "(2 :: nat) ^ 0 \<le> unat sz" using assms(2) by (auto simp: ms_size_def Suc_le_eq unat_gt_0)
  show ?thesis
  proof (cases "metaslab_pp_maxsize sm < sz")
    case True
    then show ?thesis using assms(3) pp(2) cursors_refl [OF assms(1)] by (simp add: metaslab_cdf_alloc_def Let_def)
  next
    case False
    obtain c e where c: "ppd_load sm 0 = Some c" "ppd_load sm 1 = Some e" "unat c \<le> ms_end sm" "unat e \<le> ms_end sm"
      using ppd_ok [OF assms(1), of 0] ppd_ok [OF assms(1), of 1] by (metis one_less_numeral_iff semiring_norm(76) zero_less_numeral)
    have st: "cursors sm (ppd_store 1 e' (ppd_store 0 c' sm))" if "unat c' \<le> ms_end sm" "unat e' \<le> ms_end sm" for c' e'
      using ppd_stores [OF assms(1) that] .
    define r where "r = (if metaslab_pp_maxsize sm > 2 * SPA_MAXBLOCKSIZE then min (metaslab_min_alloc_size tun) (metaslab_pp_maxsize sm) else sz)"
    define pick where "pick = (if c + sz > e then
          map_option (\<lambda>(offset, extent_end). (offset, if offset \<noteq> - 1 then offset + sz else 0, extent_end)) (metaslab_block_picker pp 0 r 1)
        else map_option (\<lambda>(offset, cursor). (offset, cursor, e)) (metaslab_block_picker (sm_root sm) c sz 1))"
    have "metaslab_cdf_alloc tun sm sz = require (e \<ge> c) (Option.bind pick (\<lambda>(offset, cursor, extent_end).
        require (cursor \<le> extent_end) (Some (offset, ppd_store 1 extent_end (ppd_store 0 cursor sm)))))"
      using False pp c(1,2) unfolding metaslab_cdf_alloc_def Let_def r_def pick_def by simp
    then have "require (e \<ge> c) (Option.bind pick (\<lambda>(offset, cursor, extent_end).
        require (cursor \<le> extent_end) (Some (offset, ppd_store 1 extent_end (ppd_store 0 cursor sm))))) = Some (off, sm1)"
      using assms(3) by simp
    then obtain c' e' where p: "pick = Some (off, c', e')" "c' \<le> e'" "sm1 = ppd_store 1 e' (ppd_store 0 c' sm)"
      by (auto simp: require_def bind_eq_Some_conv split: if_splits)
    have "unat c' \<le> ms_end sm \<and> unat e' \<le> ms_end sm \<and> (off \<noteq> - 1 \<longrightarrow> free_block sm off sz)"
    proof (cases "c + sz > e")
      case True
      have "unat r \<le> 2 ^ 63" using sz(2) maxsize_ok(2) [OF assms(1)] by (auto simp: r_def min_def word_le_nat_alt)
      with assms(1) pp(1) show ?thesis
      proof (cases rule: pick_pp)
        case (found s)
        note f = fits_1 [OF assms(1) found(2), of r] and s = ms_ok_seg [OF assms(1) found(2)]
        have "unat (ss_start s + r) = ustart s + unat r" "ustart s + unat r \<le> uend s" using f \<open>unat r \<le> 2 ^ 63\<close> found(3) by simp_all
        moreover have "ss_start s \<noteq> - 1" using s(1,4) by (auto simp: unsigned_minus_1_eq_mask mask_eq_exp_minus_1)
        ultimately have o: "off = ss_start s" "c' = ss_start s + sz" "e' = ss_start s + r" "unat e' \<le> uend s"
          using p(1) found(1) True by (auto simp: pick_def)
        then have "fits sz 1 s" using p(2) by (simp add: fits_def word_le_nat_alt)
        then have "free_block sm off sz" using fits_free(1) [OF assms(1,2) found(2) _ sz(3)] o(1) by simp
        then show ?thesis using o(4) p(2) s(2) by (simp add: word_le_nat_alt)
      next
        case none
        then show ?thesis using p(1) True by (auto simp: pick_def)
      qed
    next
      case False
      then show ?thesis using pick_root [OF assms(1,2) _ sz(3), of c] p(1) c(4) by (simp add: pick_def) blast
    qed
    then show ?thesis using p(3) st by blast
  qed
qed

interpretation ff: total_allocator metaslab_ff_alloc ff_suits
proof unfold_locales
  fix sm :: "metaslab_ops space_map" and sz off :: u64 and sm1
  assume "ms_ok sm" "ms_size sm sz" "metaslab_ff_alloc sm sz = Some (off, sm1)"
  then show "cursors sm sm1 \<and> (off \<noteq> - 1 \<longrightarrow> free_block sm off sz)" using ff_alloc_ok [of sm sz] by (metis option.inject prod.inject)
qed (metis ff_alloc_ok)

interpretation df: total_allocator "metaslab_df_alloc tun" df_suits for tun
proof unfold_locales
  fix sm :: "metaslab_ops space_map" and sz off :: u64 and sm1
  assume "ms_ok sm" "ms_size sm sz" "metaslab_df_alloc tun sm sz = Some (off, sm1)"
  then show "cursors sm sm1 \<and> (off \<noteq> - 1 \<longrightarrow> free_block sm off sz)" using df_alloc_ok [of sm sz tun] by (metis option.inject prod.inject)
qed (metis df_alloc_ok)

interpretation cdf: block_allocator "metaslab_cdf_alloc tun" for tun
  by unfold_locales (rule cdf_alloc_ok)

interpretation ndf: block_allocator "metaslab_ndf_alloc tun" for tun
  by unfold_locales (rule ndf_alloc_sound)

lemma ndf_total: "unat (metaslab_ndf_clump_shift tun) < 32 \<Longrightarrow> total_allocator (metaslab_ndf_alloc tun) df_suits"
  by unfold_locales (rule ndf_alloc_total)

section \<open>Loading and unloading\<close>

lemma pp_load_loop_ok:
  assumes "avl_wf pp" "mss.ordered (avl_list pp)" "avl_compar pp = metaslab_segsize_compare" "distinct L" "set L \<inter> set (avl_list pp) = {}"
  shows "\<exists>pp'. pp_load_loop L pp = Some pp' \<and> avl_wf pp' \<and> mss.ordered (avl_list pp') \<and>
    avl_compar pp' = metaslab_segsize_compare \<and> set (avl_list pp') = set L \<union> set (avl_list pp)"
  using assms
proof (induction L arbitrary: pp)
  case (Cons s L)
  have "\<forall>x\<in>set (avl_list pp). metaslab_segsize_compare s x \<noteq> 0" using Cons.prems(5) segsize_eq by auto
  then obtain pp1 xs ys where a: "avl_add pp s = Some pp1" "avl_wf pp1" "avl_compar pp1 = metaslab_segsize_compare"
    "avl_list pp = xs @ ys" "avl_list pp1 = xs @ s # ys" "mss.ordered (avl_list pp1)"
    using mss.avl_add_ok [OF Cons.prems(1-3)] by blast
  then show ?case using Cons.IH [OF a(2,6,3)] Cons.prems(4,5) by auto
qed simp

lemma pp_load_ok:
  assumes "sm_wf sm" "sm_size sm \<noteq> 0" "ms_end sm \<le> 2 ^ 63" "sm_ppd sm = None"
  shows "\<exists>sm'. metaslab_pp_load sm = Some sm' \<and> ms_ok sm' \<and> sm_root sm' = sm_root sm \<and> sm_ops sm' = sm_ops sm \<and>
    sm_start sm' = sm_start sm \<and> sm_size sm' = sm_size sm \<and> sm_shift sm' = sm_shift sm"
proof -
  have d: "distinct (sm_segs sm)" using assms(1) by (simp add: sm_wf_def avl_wf_def)
  have c: "avl_wf (avl_create metaslab_segsize_compare)" "mss.ordered (avl_list (avl_create metaslab_segsize_compare))"
    "avl_compar (avl_create metaslab_segsize_compare) = metaslab_segsize_compare" "avl_list (avl_create metaslab_segsize_compare) = []"
    by (simp_all add: avl_create_def avl_wf_def mss.ordered_def)
  obtain pp where pp: "pp_load_loop (sm_segs sm) (avl_create metaslab_segsize_compare) = Some pp" "avl_wf pp" "mss.ordered (avl_list pp)"
    "avl_compar pp = metaslab_segsize_compare" "set (avl_list pp) = set (sm_segs sm)"
    using pp_load_loop_ok [OF c(1-3) d] c(4) by auto
  let ?sm = "sm\<lparr>sm_ppd := Some (replicate 64 0), sm_pp_root := Some pp\<rparr>"
  have "pp_tree (set (sm_segs sm)) (Some pp)" using pp segsize_eq mss.avl_order_axioms by (auto simp: pp_tree_Some)
  then have "ms_ok ?sm" using assms pp(4) by (auto simp: ms_ok_def ms_end_def sm_wf_def sm_offsets_def sm_range_def aligned_def)
  moreover have "metaslab_pp_load sm = Some ?sm" using assms(4) pp(1) avl_iterate_ok [OF d] by (simp add: metaslab_pp_load_def)
  ultimately show ?thesis by simp
qed

lemma pp_unload_ok: "ms_ok sm \<Longrightarrow> metaslab_pp_unload sm = Some (sm\<lparr>sm_ppd := None, sm_pp_root := None\<rparr>)"
proof -
  assume "ms_ok sm"
  then obtain pp where "sm_pp_root sm = Some pp" "avl_wf pp" using ms_ok_pp by blast
  then show ?thesis using avl_drain_ok [of pp] by (simp add: metaslab_pp_unload_def avl_destroy_def)
qed

section \<open>Segments that suit and free blocks\<close>

lemma free_block_segment:
  assumes "ms_ok sm" "free_block sm a sz"
  obtains s where "s \<in> set (sm_segs sm)" "ustart s \<le> unat a" "unat a + unat sz \<le> uend s"
proof -
  have "0 < unat sz" and sub: "range_of a sz \<subseteq> seg_offsets (sm_segs sm)"
    using assms(2) by (auto simp: free_block_def sm_fits_def sm_offsets_def unat_gt_0)
  then have "unat a \<in> seg_offsets (sm_segs sm)" by auto
  then obtain s where s: "s \<in> set (sm_segs sm)" "ustart s \<le> unat a" "unat a < uend s" by (auto simp: seg_offsets_def)
  have "separate (sm_segs sm)" using assms(1) by (simp add: ms_ok_def sm_wf_def)
  then have "unat a + unat sz \<le> uend s" using range_in_segment(2) [OF _ s(1) sub _ s(3)] s(2) \<open>0 < unat sz\<close> by simp
  then show thesis using that s by blast
qed

lemma df_suits_iff:
  assumes "ms_ok sm" "ms_size sm sz"
  shows "(\<exists>s\<in>set (sm_segs sm). df_suits sz s) \<longleftrightarrow> (\<exists>a. free_block sm a sz)"
proof
  assume "\<exists>s\<in>set (sm_segs sm). df_suits sz s"
  then obtain s where s: "s \<in> set (sm_segs sm)" "fits sz 1 s" using fits_1_suits [OF assms] by blast
  have "(2 :: nat) ^ 0 \<le> unat sz" using assms(2) by (auto simp: ms_size_def Suc_le_eq unat_gt_0)
  then show "\<exists>a. free_block sm a sz" using fits_free(1) [OF assms s(1), of 0] s(2) by auto
next
  assume "\<exists>a. free_block sm a sz"
  then obtain a where "free_block sm a sz" by blast
  then obtain s where "s \<in> set (sm_segs sm)" "ustart s \<le> unat a" "unat a + unat sz \<le> uend s"
    by (rule free_block_segment [OF assms(1)])
  then show "\<exists>s\<in>set (sm_segs sm). df_suits sz s" by (intro bexI [of _ s]) (simp_all add: df_suits_def)
qed

lemma ff_suits_iff:
  assumes "ms_ok sm" "ms_size sm sz"
  shows "(\<exists>s\<in>set (sm_segs sm). ff_suits sz s) \<longleftrightarrow> (\<exists>a. free_block sm a sz \<and> unat (sz AND (- sz)) dvd unat a)"
proof -
  obtain k where k: "sz AND (- sz) = 2 ^ k" "sm_shift sm \<le> k" "2 ^ k \<le> unat sz" using ms_align [OF assms(2)] by metis
  have small: "unat sz < 2 ^ 32" using assms(2) by (simp add: ms_size_def)
  then have "(2 :: nat) ^ k < 2 ^ 32" using k(3) by linarith
  then have k32: "k < 32" by (subst (asm) power_strict_increasing_iff) auto
  then have u: "unat (2 ^ k :: u64) = 2 ^ k"
    using unat_push_bit [of 1 k] power_strict_increasing [of k 64 "2 :: nat"] by simp
  have b: "2 ^ k + unat sz \<le> 2 ^ 63 + 1" using small k(3) by simp
  show ?thesis
  proof
    assume "\<exists>s\<in>set (sm_segs sm). ff_suits sz s"
    then obtain s where s: "s \<in> set (sm_segs sm)" "fits sz (2 ^ k) s" using k(1) by (auto simp: ff_suits_def)
    then show "\<exists>a. free_block sm a sz \<and> unat (sz AND (- sz)) dvd unat a"
      using fits_free(1) [OF assms s(1) disjI2 [OF k(2)] k(3) s(2)] fits_iff(4) [OF assms(1) s(1) b] k(1) u by auto
  next
    assume "\<exists>a. free_block sm a sz \<and> unat (sz AND (- sz)) dvd unat a"
    then obtain a where a: "free_block sm a sz" "2 ^ k dvd unat a" using k(1) u by auto
    obtain s where s: "s \<in> set (sm_segs sm)" "ustart s \<le> unat a" "unat a + unat sz \<le> uend s"
      using free_block_segment [OF assms(1) a(1)] by blast
    let ?r = "unat (P2ROUNDUP (ss_start s) (2 ^ k))"
    have "ustart s + 2 ^ k \<le> 2 ^ 64" using ms_ok_seg(1,4) [OF assms(1) s(1)] small k(3) by simp
    then have r: "?r < ustart s + 2 ^ k" "2 ^ k dvd ?r" using P2ROUNDUP_ok k32 by simp_all
    have "?r \<le> unat a"
    proof (rule ccontr)
      assume lt: "\<not> ?r \<le> unat a"
      then have "2 ^ k dvd ?r - unat a" using r(2) a(2) by (intro dvd_diff_nat)
      then have "2 ^ k \<le> ?r - unat a" using lt by (intro dvd_imp_le) simp_all
      then show False using lt r(1) s(2) by linarith
    qed
    then show "\<exists>s\<in>set (sm_segs sm). ff_suits sz s"
      using s fits_iff(2) [OF assms(1) s(1) b] k(1) by (intro bexI [of _ s]) (simp_all add: ff_suits_def)
  qed
qed

section \<open>Allocating through the space map\<close>

lemma optable_alloc:
  "smop_alloc (metaslab_optable tun ops) = (case ops of metaslab_ff_ops \<Rightarrow> metaslab_ff_alloc | metaslab_df_ops \<Rightarrow> metaslab_df_alloc tun
     | metaslab_cdf_ops \<Rightarrow> metaslab_cdf_alloc tun | metaslab_ndf_ops \<Rightarrow> metaslab_ndf_alloc tun)"
  "smop_free (metaslab_optable tun ops) = metaslab_pp_free"
  by (cases ops; simp add: pp_ops_def)+

lemma metaslab_alloc_sound:
  assumes "ms_ok sm" "ms_size sm sz" "sm_ops sm = Some ops" "space_map_alloc (metaslab_optable tun) zfs_recover sm sz = Some (off, sm')"
  shows "ms_ok sm'" "sm_ops sm' = Some ops" "off = - 1 \<Longrightarrow> sm_offsets sm' = sm_offsets sm"
    "off \<noteq> - 1 \<Longrightarrow> free_block sm off sz \<and> sm_offsets sm' = sm_offsets sm - range_of off sz" "same_range sm sm'"
proof -
  have "block_allocator (smop_alloc (metaslab_optable tun ops))"
    unfolding optable_alloc using ff.block_allocator_axioms df.block_allocator_axioms cdf.block_allocator_axioms ndf.block_allocator_axioms
    by (cases ops) simp_all
  note a = block_allocator.allocate [OF this assms(1-3) refl assms(4)]
  show "ms_ok sm'" "sm_ops sm' = Some ops" "off = - 1 \<Longrightarrow> sm_offsets sm' = sm_offsets sm"
    "off \<noteq> - 1 \<Longrightarrow> free_block sm off sz \<and> sm_offsets sm' = sm_offsets sm - range_of off sz" "same_range sm sm'"
    using a assms(3) by simp_all
qed

text \<open>Freeing a block that lies in the map and is not free.\<close>

lemma metaslab_free_ok:
  assumes "ms_ok sm" "sm_ops sm = Some ops" "sm_fits sm off sz" "range_of off sz \<inter> sm_offsets sm = {}"
  shows "\<exists>sm'. space_map_free (metaslab_optable tun) zfs_recover sm off sz = Some sm' \<and> ms_ok sm' \<and> same_frame sm sm' \<and>
    sm_offsets sm' = sm_offsets sm \<union> range_of off sz"
proof -
  have "sm_wf sm" using assms(1) by (simp add: ms_ok_def)
  from space_map_add_ok [OF this assms(3,4)] obtain sm' where sm': "space_map_add zfs_recover sm off sz = Some sm'" "sm_wf sm'" "same_frame sm sm'"
    "sm_offsets sm' = sm_offsets sm \<union> range_of off sz"
    by blast
  then have "ms_ok sm'" using assms(1) by (auto simp: ms_ok_def same_frame_def ms_end_def)
  moreover have "space_map_free (metaslab_optable tun) zfs_recover sm off sz = Some sm'"
    using sm'(1,3) assms(2) by (simp add: space_map_free_def same_frame_def optable_alloc metaslab_pp_free_def)
  ultimately show ?thesis using sm'(3,4) by blast
qed

end
