(* ===== verification/MetaslabClients.thy ===== *)
theory MetaslabClients
  imports MetaslabProps
begin

text \<open>
  The clients of a metaslab's space map as a state machine over \<^verbatim>\<open>space_map_alloc\<close> and \<^verbatim>\<open>space_map_free\<close>
  with the operations vectors of \<^verbatim>\<open>zfs/metaslab.c\<close>: what holds of the blocks that are handed out in every reachable
  state, when a request is granted, and that a block that is given back can be had again.
\<close>

section \<open>Clients\<close>

text \<open>
  A client of a loaded map and the blocks it holds: it asks for blocks of any size, gets one or is refused,
  and gives back blocks that it holds, in any order.
\<close>

abbreviation block :: "u64 \<times> u64 \<Rightarrow> nat set" where
  "block b \<equiv> range_of (fst b) (snd b)"

inductive ms_step :: "metaslab_tunables \<Rightarrow> bool \<Rightarrow> metaslab_ops space_map \<times> (u64 \<times> u64) list \<Rightarrow>
    metaslab_ops space_map \<times> (u64 \<times> u64) list \<Rightarrow> bool" for tun zfs_recover where
  granted: "ms_size sm sz \<Longrightarrow> space_map_alloc (metaslab_optable tun) zfs_recover sm sz = Some (off, sm') \<Longrightarrow> off \<noteq> - 1 \<Longrightarrow>
    ms_step tun zfs_recover (sm, bs) (sm', (off, sz) # bs)"
| refused: "ms_size sm sz \<Longrightarrow> space_map_alloc (metaslab_optable tun) zfs_recover sm sz = Some (- 1, sm') \<Longrightarrow>
    ms_step tun zfs_recover (sm, bs) (sm', bs)"
| freed: "space_map_free (metaslab_optable tun) zfs_recover sm off sz = Some sm' \<Longrightarrow>
    ms_step tun zfs_recover (sm, bs @ (off, sz) # cs) (sm', bs @ cs)"

inductive_cases ms_stepE: "ms_step tun zfs_recover (sm, bs) st'"

definition ms_inv :: "metaslab_ops \<Rightarrow> metaslab_ops space_map \<Rightarrow> metaslab_ops space_map \<times> (u64 \<times> u64) list \<Rightarrow> bool" where
  "ms_inv ops sm0 st \<longleftrightarrow> (case st of (sm, bs) \<Rightarrow>
     ms_ok sm \<and> sm_ops sm = Some ops \<and>
     (\<forall>b\<in>set bs. sm_fits sm (fst b) (snd b) \<and> ms_size sm (snd b) \<and> block b \<inter> sm_offsets sm = {}) \<and>
     sorted_wrt (\<lambda>b c. block b \<inter> block c = {}) bs \<and>
     sm_offsets sm \<union> (\<Union>b\<in>set bs. block b) = sm_offsets sm0)"

lemma ms_inv_start: "ms_ok sm \<Longrightarrow> sm_ops sm = Some ops \<Longrightarrow> ms_inv ops sm (sm, [])"
  by (simp add: ms_inv_def)

lemma same_range_keeps:
  assumes "same_range sm sm'"
  shows "sm_fits sm' off sz = sm_fits sm off sz" "ms_size sm' sz = ms_size sm sz"
  using assms by (simp_all add: same_range_def sm_fits_def ms_size_def aligned_def)

lemma ms_inv_step:
  assumes "ms_inv ops sm0 st" "ms_step tun zfs_recover st st'"
  shows "ms_inv ops sm0 st'"
  using assms(2,1)
proof cases
  case (granted sm sz off sm' bs)
  have ok: "ms_ok sm" "sm_ops sm = Some ops" using assms(1) granted(1) by (simp_all add: ms_inv_def)
  note a = metaslab_alloc_sound [OF ok(1) granted(3) ok(2) granted(4)]
  have f: "sm_fits sm off sz" "range_of off sz \<subseteq> sm_offsets sm" "sm_offsets sm' = sm_offsets sm - range_of off sz"
    using a(4) granted(5) by (simp_all add: free_block_def)
  have sep: "\<forall>b\<in>set bs. block b \<inter> sm_offsets sm = {}" using assms(1) granted(1) by (simp add: ms_inv_def)
  then have d: "\<forall>b\<in>set bs. range_of off sz \<inter> block b = {}" using f(2) by blast
  have "\<forall>b\<in>set bs. block b \<inter> sm_offsets sm' = {}" using sep f(3) by blast
  moreover have "sm_offsets sm' \<union> (\<Union>b\<in>set ((off, sz) # bs). block b) = sm_offsets sm0"
    using assms(1) granted(1) f(2,3) unfolding ms_inv_def by auto
  ultimately show ?thesis
    using assms(1) granted(1,2,3) a(1,2) f(1,3) d same_range_keeps [OF a(5)] by (simp add: ms_inv_def)
next
  case (refused sm sz sm' bs)
  have ok: "ms_ok sm" "sm_ops sm = Some ops" using assms(1) refused(1) by (simp_all add: ms_inv_def)
  note a = metaslab_alloc_sound [OF ok(1) refused(3) ok(2) refused(4)]
  then show ?thesis using assms(1) refused(1,2) same_range_keeps [OF a(5)] by (simp add: ms_inv_def)
next
  case (freed sm off sz sm' bs cs)
  have i: "ms_ok sm" "sm_ops sm = Some ops" "sm_fits sm off sz" "range_of off sz \<inter> sm_offsets sm = {}"
    "\<forall>b\<in>set (bs @ cs). range_of off sz \<inter> block b = {}"
    using assms(1) freed(1) by (auto simp: ms_inv_def sorted_wrt_append)
  have f: "ms_ok sm'" "same_frame sm sm'" "sm_offsets sm' = sm_offsets sm \<union> range_of off sz"
    using metaslab_free_ok [OF i(1-4), of tun zfs_recover] freed(3) by auto
  have "same_range sm sm'" "sm_ops sm' = sm_ops sm" using f(2) by (simp_all add: same_frame_def same_range_def)
  moreover have "\<forall>b\<in>set (bs @ cs). block b \<inter> sm_offsets sm = {}" using assms(1) freed(1) by (auto simp: ms_inv_def)
  then have "\<forall>b\<in>set (bs @ cs). block b \<inter> sm_offsets sm' = {}" using i(5) unfolding f(3) by blast
  moreover have "sm_offsets sm' \<union> (\<Union>b\<in>set (bs @ cs). block b) = sm_offsets sm0"
    using assms(1) freed(1) f(3) unfolding ms_inv_def by auto
  ultimately show ?thesis using assms(1) freed(1,2) f(1) same_range_keeps [of sm sm'] by (auto simp: ms_inv_def sorted_wrt_append)
qed

lemma ms_inv_reach:
  assumes "ms_ok sm0" "sm_ops sm0 = Some ops" "(ms_step tun zfs_recover)\<^sup>*\<^sup>* (sm0, []) st"
  shows "ms_inv ops sm0 st"
  using assms(3) ms_inv_start [OF assms(1,2)] by (induction rule: rtranclp_induct) (auto intro: ms_inv_step)

lemma ms_fits_not_minus_1:
  assumes "ms_ok sm" "sm_fits sm off sz"
  shows "off \<noteq> - 1"
proof
  assume "off = - 1"
  then have "unat off = 2 ^ 64 - 1" by (simp add: unsigned_minus_1_eq_mask mask_eq_exp_minus_1)
  then show False using assms by (simp add: ms_ok_def ms_end_def sm_fits_def)
qed

lemma df_grant:
  assumes "ms_ok sm" "ms_size sm sz" "sm_ops sm = Some metaslab_df_ops" "free_block sm a sz"
  shows "\<exists>off sm'. space_map_alloc (metaslab_optable tun) zfs_recover sm sz = Some (off, sm') \<and> off \<noteq> - 1"
proof -
  have "smop_alloc (metaslab_optable tun metaslab_df_ops) = metaslab_df_alloc tun" by (simp add: pp_ops_def)
  then show ?thesis using df.allocate_total [OF assms(1-3), of "metaslab_optable tun" tun zfs_recover] df_suits_iff [OF assms(1,2)] assms(4) by blast
qed

section \<open>The map of the examples\<close>

text \<open>A map of 64 KiB from offset 4096 in units of 512 bytes, with one free segment of 1 KiB.\<close>

definition demo_tunables :: metaslab_tunables where
  "demo_tunables = \<lparr>metaslab_df_alloc_threshold = SPA_MAXBLOCKSIZE, metaslab_df_free_pct = 4,
     metaslab_min_alloc_size = 10 * 1024 * 1024, metaslab_ndf_clump_shift = 4\<rparr>"

definition demo_metaslab :: "metaslab_ops \<Rightarrow> metaslab_ops space_map option" where
  "demo_metaslab ops = Option.bind (space_map_add False ((space_map_create 4096 65536 9)\<lparr>sm_ops := Some ops\<rparr>) 8192 1024) metaslab_pp_load"

lemma demo_metaslab_ok:
  obtains sm where "demo_metaslab ops = Some sm" "ms_ok sm" "sm_ops sm = Some ops" "sm_offsets sm = {8192..<9216}"
    "ms_size sm 512" "ms_size sm 1024" "free_block sm 8192 512" "free_block sm 8192 1024"
proof -
  let ?e = "(space_map_create 4096 65536 9)\<lparr>sm_ops := Some ops\<rparr>"
  have "sm_wf (space_map_create 4096 65536 9 :: metaslab_ops space_map)" "sm_offsets (space_map_create 4096 65536 9 :: metaslab_ops space_map) = {}"
    using space_map_create_wf [of 4096 65536 9] by simp_all
  then have e: "sm_wf ?e" "sm_offsets ?e = {}"
    by (simp_all add: sm_wf_def sm_offsets_def sm_range_def aligned_def)
  have "sm_fits ?e 8192 1024" by (simp add: sm_fits_def aligned_def space_map_create_def)
  with e obtain sm1 where a: "space_map_add False ?e 8192 1024 = Some sm1" "sm_wf sm1" "same_frame ?e sm1" "sm_offsets sm1 = {8192..<9216}"
    using space_map_add_ok [of ?e 8192 1024 False] by auto
  have fr: "sm_start sm1 = 4096" "sm_size sm1 = 65536" "sm_shift sm1 = 9" "sm_ops sm1 = Some ops" "sm_ppd sm1 = None"
    using a(3) by (simp_all add: same_frame_def space_map_create_def)
  then obtain sm where l: "metaslab_pp_load sm1 = Some sm" "ms_ok sm" "sm_root sm = sm_root sm1" "sm_ops sm = sm_ops sm1"
    "sm_start sm = sm_start sm1" "sm_size sm = sm_size sm1" "sm_shift sm = sm_shift sm1"
    using pp_load_ok [OF a(2)] by (auto simp: ms_end_def)
  have o: "sm_offsets sm = {8192..<9216}" using a(4) l(3) by (simp add: sm_offsets_def)
  moreover have "ms_size sm 512" "ms_size sm 1024" using fr l by (simp_all add: ms_size_def aligned_def)
  moreover have "free_block sm 8192 512" "free_block sm 8192 1024" using o fr l by (simp_all add: free_block_def sm_fits_def aligned_def)
  ultimately show thesis using that [of sm] a(1) l(1,2,4) fr(4) by (simp add: demo_metaslab_def)
qed

section \<open>Properties\<close>

text \<open>
  C21. No block is handed out twice.  Whatever requests and frees a client makes of a map that was loaded
  with any of the four allocators, in every reachable state the blocks it holds are pairwise disjoint, none
  of them is free, all of them lie in the map, and together with the free space they are the free space
  of the beginning: nothing is lost.
\<close>

theorem metaslab_no_double_allocation:
  assumes "ms_ok sm0" "sm_ops sm0 = Some ops" "(ms_step tun zfs_recover)\<^sup>*\<^sup>* (sm0, []) (sm, bs)"
  shows "sorted_wrt (\<lambda>b c. block b \<inter> block c = {}) bs \<and> (\<forall>b\<in>set bs. block b \<inter> sm_offsets sm = {} \<and> sm_fits sm (fst b) (snd b)) \<and>
    sm_offsets sm \<union> (\<Union>b\<in>set bs. block b) = sm_offsets sm0 \<and> ms_ok sm"
  using ms_inv_reach [OF assms] by (simp add: ms_inv_def)

theorem metaslab_no_double_allocation_witness:
  "\<exists>sm0 sm off. demo_metaslab metaslab_df_ops = Some sm0 \<and> ms_step demo_tunables False (sm0, []) (sm, [(off, 512)]) \<and>
    range_of off 512 \<inter> sm_offsets sm = {} \<and> sm_offsets sm \<union> range_of off 512 = {8192..<9216}"
proof -
  obtain sm0 where s: "demo_metaslab metaslab_df_ops = Some sm0" "ms_ok sm0" "sm_ops sm0 = Some metaslab_df_ops"
    "sm_offsets sm0 = {8192..<9216}" "ms_size sm0 512" "free_block sm0 8192 512"
    by (rule demo_metaslab_ok)
  obtain off sm where "space_map_alloc (metaslab_optable demo_tunables) False sm0 512 = Some (off, sm)" "off \<noteq> - 1"
    using df_grant [OF s(2,5,3,6)] by blast
  then have st: "ms_step demo_tunables False (sm0, []) (sm, [(off, 512)])" using s(5) ms_step.granted by blast
  then have "(ms_step demo_tunables False)\<^sup>*\<^sup>* (sm0, []) (sm, [(off, 512)])" by blast
  note metaslab_no_double_allocation [OF s(2,3) this]
  then have "range_of off 512 \<inter> sm_offsets sm = {} \<and> sm_offsets sm \<union> range_of off 512 = {8192..<9216}" unfolding s(4) by simp
  then show ?thesis using s(1) st by blast
qed

text \<open>
  C22. Requests are answered, and refused only when they have to be.  First fit, dynamic fit and, for a clump
  shift below 32, the new dynamic fit return on every request for a whole number of units below
  \<open>2 ^ 32\<close> bytes, and they return \<open>- 1\<close> exactly when the map has no free block of the size, for first
  fit no free block that is aligned to the largest power of two that divides the size.
\<close>

theorem metaslab_alloc_complete:
  assumes "ms_ok sm" "ms_size sm sz" "sm_ops sm = Some ops" "ops \<noteq> metaslab_cdf_ops"
    "ops = metaslab_ndf_ops \<Longrightarrow> unat (metaslab_ndf_clump_shift tun) < 32"
  shows "\<exists>off sm'. space_map_alloc (metaslab_optable tun) zfs_recover sm sz = Some (off, sm') \<and>
    (off \<noteq> - 1 \<longleftrightarrow> (\<exists>a. free_block sm a sz \<and> (ops = metaslab_ff_ops \<longrightarrow> unat (sz AND (- sz)) dvd unat a)))"
proof (cases ops)
  case metaslab_ff_ops
  then have "smop_alloc (metaslab_optable tun ops) = metaslab_ff_alloc" by (simp add: pp_ops_def)
  from ff.allocate_total [where optable = "metaslab_optable tun", OF assms(1-3) this] show ?thesis
    using metaslab_ff_ops by (simp flip: ff_suits_iff [OF assms(1,2)]) metis
next
  case metaslab_df_ops
  then have "smop_alloc (metaslab_optable tun ops) = metaslab_df_alloc tun" by (simp add: pp_ops_def)
  from df.allocate_total [where optable = "metaslab_optable tun", OF assms(1-3) this] show ?thesis
    using metaslab_df_ops by (simp flip: df_suits_iff [OF assms(1,2)]) metis
next
  case metaslab_ndf_ops
  then have "smop_alloc (metaslab_optable tun ops) = metaslab_ndf_alloc tun" by (simp add: pp_ops_def)
  from total_allocator.allocate_total [where optable = "metaslab_optable tun", OF ndf_total [OF assms(5) [OF metaslab_ndf_ops]] assms(1-3) this]
  show ?thesis using metaslab_ndf_ops by (simp flip: df_suits_iff [OF assms(1,2)]) metis
qed (use assms(4) in simp)

theorem metaslab_alloc_complete_witness:
  "\<exists>sm off sm'. demo_metaslab metaslab_ndf_ops = Some sm \<and>
    space_map_alloc (metaslab_optable demo_tunables) False sm 512 = Some (off, sm') \<and> off \<noteq> - 1"
proof -
  obtain sm where s: "demo_metaslab metaslab_ndf_ops = Some sm" "ms_ok sm" "sm_ops sm = Some metaslab_ndf_ops"
    "sm_offsets sm = {8192..<9216}" "ms_size sm 512" "free_block sm 8192 512"
    by (rule demo_metaslab_ok)
  have "unat (metaslab_ndf_clump_shift demo_tunables) < 32" by (simp add: demo_tunables_def)
  then show ?thesis using metaslab_alloc_complete [OF s(2,5,3), of demo_tunables False] s(1,6) by auto
qed

text \<open>
  C23. What is given back can be had again.  In every reachable state of a map with dynamic fit, any block
  that the client holds can be freed, and the next request of the size of that block is granted.
\<close>

theorem metaslab_free_then_alloc:
  assumes "ms_ok sm0" "sm_ops sm0 = Some metaslab_df_ops" "(ms_step tun zfs_recover)\<^sup>*\<^sup>* (sm0, []) (sm, bs @ (off, sz) # cs)"
  shows "\<exists>sm1 off' sm2. ms_step tun zfs_recover (sm, bs @ (off, sz) # cs) (sm1, bs @ cs) \<and>
    ms_step tun zfs_recover (sm1, bs @ cs) (sm2, (off', sz) # bs @ cs)"
proof -
  have i: "ms_ok sm" "sm_ops sm = Some metaslab_df_ops" "sm_fits sm off sz" "range_of off sz \<inter> sm_offsets sm = {}" "ms_size sm sz"
    using ms_inv_reach [OF assms] by (simp_all add: ms_inv_def)
  obtain sm1 where f: "space_map_free (metaslab_optable tun) zfs_recover sm off sz = Some sm1" "ms_ok sm1" "same_frame sm sm1"
    "sm_offsets sm1 = sm_offsets sm \<union> range_of off sz"
    using metaslab_free_ok [OF i(1-4), of tun zfs_recover] by blast
  have k: "same_range sm sm1" "sm_ops sm1 = Some metaslab_df_ops" using f(3) i(2) by (simp_all add: same_frame_def same_range_def)
  have m: "ms_size sm1 sz" using i(5) same_range_keeps(2) [OF k(1)] by simp
  have "off \<noteq> - 1" using ms_fits_not_minus_1 [OF i(1,3)] .
  then have "free_block sm1 off sz" using i(3) f(4) same_range_keeps(1) [OF k(1)] by (simp add: free_block_def)
  then obtain off' sm2 where "space_map_alloc (metaslab_optable tun) zfs_recover sm1 sz = Some (off', sm2)" "off' \<noteq> - 1"
    using df_grant [OF f(2) m k(2)] by blast
  then show ?thesis using ms_step.freed [OF f(1)] ms_step.granted [OF m] by blast
qed

theorem metaslab_free_then_alloc_witness:
  "\<exists>sm0 sm off sm1 off' sm2. demo_metaslab metaslab_df_ops = Some sm0 \<and> ms_step demo_tunables False (sm0, []) (sm, [(off, 1024)]) \<and>
    ms_step demo_tunables False (sm, [(off, 1024)]) (sm1, []) \<and> ms_step demo_tunables False (sm1, []) (sm2, [(off', 1024)])"
proof -
  obtain sm0 where s: "demo_metaslab metaslab_df_ops = Some sm0" "ms_ok sm0" "sm_ops sm0 = Some metaslab_df_ops"
    "sm_offsets sm0 = {8192..<9216}" "ms_size sm0 1024" "free_block sm0 8192 1024"
    by (rule demo_metaslab_ok)
  obtain off sm where "space_map_alloc (metaslab_optable demo_tunables) False sm0 1024 = Some (off, sm)" "off \<noteq> - 1"
    using df_grant [OF s(2,5,3,6)] by blast
  then have st: "ms_step demo_tunables False (sm0, []) (sm, [(off, 1024)])" using s(5) ms_step.granted by blast
  then have "(ms_step demo_tunables False)\<^sup>*\<^sup>* (sm0, []) (sm, [] @ (off, 1024) # [])" by auto
  then show ?thesis using metaslab_free_then_alloc [OF s(2,3)] s(1) st by fastforce
qed

end
