(* ===== verification/Lzjb.thy ===== *)
theory Lzjb
  imports Prelude
begin

text \<open>
  The LZJB compressor (\<^verbatim>\<open>zfs/lzjb.c\<close>): compression and decompression over byte buffers, whose lengths are
  \<^verbatim>\<open>s_len\<close> and \<^verbatim>\<open>d_len\<close>, and that what the one writes the other reads back.  Pointers are
  positions, and those computed by a subtraction are integers, since they may lie before the buffer: \<open>ptr_get\<close>
  faults there.  \<open>base\<close> is the address of the source, which the compressor stores in its table and subtracts, and
  \<open>lempel\<close> is the table.
\<close>

section \<open>Compression\<close>

definition ptr_get :: "byte list \<Rightarrow> int \<Rightarrow> byte option" where
  "ptr_get b p = require (0 \<le> p) (buf_get b (nat p))"

lemma ptr_get_int: "ptr_get b (int i) = buf_get b i"
  by (simp add: ptr_get_def)

lemma ptr_get_add [simp]: "ptr_get b (int i + int j) = buf_get b (i + j)"
  using ptr_get_int [of b "i + j"] by simp

definition NBBY :: nat where
  "NBBY = 8"

definition MATCH_BITS :: nat where
  "MATCH_BITS = 6"

definition MATCH_MIN :: nat where
  "MATCH_MIN = 3"

definition MATCH_MAX :: nat where
  "MATCH_MAX = push_bit MATCH_BITS 1 + (MATCH_MIN - 1)"

definition OFFSET_MASK :: nat where
  "OFFSET_MASK = push_bit (16 - MATCH_BITS) 1 - 1"

definition LEMPEL_SIZE :: nat where
  "LEMPEL_SIZE = 1024"

definition lz_hash :: "byte \<Rightarrow> byte \<Rightarrow> byte \<Rightarrow> nat" where
  "lz_hash a b c =
     (let hash = push_bit 16 (unat a) + push_bit 8 (unat b) + unat c;
          hash = hash + drop_bit 9 hash;
          hash = hash + drop_bit 5 hash
      in hash AND (LEMPEL_SIZE - 1))"

text \<open>The length of a match, from \<open>mlen\<close> on.\<close>

function lz_match :: "byte list \<Rightarrow> nat \<Rightarrow> int \<Rightarrow> nat \<Rightarrow> nat option" where
  "lz_match s src cpy mlen =
     (if mlen < MATCH_MAX then
        Option.bind (buf_get s (src + mlen)) (\<lambda>a. Option.bind (ptr_get s (cpy + int mlen)) (\<lambda>b.
          if a \<noteq> b then Some mlen else lz_match s src cpy (Suc mlen)))
      else Some mlen)"
  by auto
termination
  by (relation "measure (\<lambda>(s, src, cpy, mlen). MATCH_MAX - mlen)") auto

declare lz_match.simps [simp del]

text \<open>Looking up the place of the last three bytes with the same hash: the copy to refer to, and the new table.\<close>

definition lz_lookup :: "u64 \<Rightarrow> byte list \<Rightarrow> nat \<Rightarrow> (nat \<Rightarrow> u16) \<Rightarrow> (nat option \<times> (nat \<Rightarrow> u16)) option" where
  "lz_lookup base s src lempel =
     Option.bind (buf_get s src) (\<lambda>a. Option.bind (buf_get s (src + 1)) (\<lambda>b. Option.bind (buf_get s (src + 2)) (\<lambda>c.
       let hp = lz_hash a b c;
           addr = base + of_nat src;
           offset = unat (addr - ucast (lempel hp)) AND OFFSET_MASK;
           lempel = lempel(hp := ucast addr);
           cpy = int src - int offset
       in if cpy \<ge> 0 \<and> cpy \<noteq> int src then
            Option.bind (ptr_get s cpy) (\<lambda>x. Option.bind (ptr_get s (cpy + 1)) (\<lambda>y.
            Option.bind (ptr_get s (cpy + 2)) (\<lambda>z.
              Some (if a = x \<and> b = y \<and> c = z then Some offset else None, lempel))))
          else Some (None, lempel))))"

text \<open>The copy mask moves on, and every eighth time a new copy map starts; \<open>Inl\<close> when the destination is full.\<close>

definition lz_start :: "nat \<Rightarrow> nat \<Rightarrow> u32 \<Rightarrow> byte list \<Rightarrow> (unit + u32 \<times> nat \<times> nat \<times> byte list) option" where
  "lz_start dst copymap copymask d =
     (let copymask = push_bit 1 copymask in
      if copymask = push_bit NBBY 1 then
        if int dst \<ge> int (length d) - 1 - 2 * int NBBY then Some (Inl ())
        else Option.bind (buf_put d dst 0) (\<lambda>d. Some (Inr (1, dst, Suc dst, d)))
      else Some (Inr (copymask, copymap, dst, d)))"

partial_function (option) lzjb_loop :: "u64 \<Rightarrow> byte list \<Rightarrow> nat \<Rightarrow> nat \<Rightarrow> nat \<Rightarrow> u32 \<Rightarrow> (nat \<Rightarrow> u16) \<Rightarrow> byte list \<Rightarrow>
    (nat \<times> byte list) option" where
  "lzjb_loop base s src dst copymap copymask lempel d =
     (if src < length s then
        Option.bind (lz_start dst copymap copymask d) (\<lambda>st.
          case st of
            Inl u \<Rightarrow> Some (length s, d)
          | Inr (copymask, copymap, dst, d) \<Rightarrow>
              if int src > int (length s) - int MATCH_MAX then
                Option.bind (buf_get s src) (\<lambda>c. Option.bind (buf_put d dst c) (\<lambda>d.
                  lzjb_loop base s (Suc src) (Suc dst) copymap copymask lempel d))
              else
                Option.bind (lz_lookup base s src lempel) (\<lambda>(cpy, lempel).
                  case cpy of
                    Some offset \<Rightarrow>
                      Option.bind (buf_get d copymap) (\<lambda>m.
                      Option.bind (buf_put d copymap (m OR ucast copymask)) (\<lambda>d.
                      Option.bind (lz_match s src (int src - int offset) MATCH_MIN) (\<lambda>mlen.
                      Option.bind (buf_put d dst (of_nat (push_bit (NBBY - MATCH_BITS) (mlen - MATCH_MIN) OR drop_bit NBBY offset))) (\<lambda>d.
                      Option.bind (buf_put d (Suc dst) (of_nat offset)) (\<lambda>d.
                        lzjb_loop base s (src + mlen) (Suc (Suc dst)) copymap copymask lempel d)))))
                  | None \<Rightarrow>
                      Option.bind (buf_get s src) (\<lambda>c. Option.bind (buf_put d dst c) (\<lambda>d.
                        lzjb_loop base s (Suc src) (Suc dst) copymap copymask lempel d))))
      else Some (dst, d))"

definition lzjb_compress :: "u64 \<Rightarrow> byte list \<Rightarrow> byte list \<Rightarrow> int \<Rightarrow> (nat \<times> byte list) option" where
  "lzjb_compress base s d n = lzjb_loop base s 0 0 0 (push_bit (NBBY - 1) 1) (\<lambda>i. 0) d"

declare lzjb_loop.simps [code]

section \<open>Decompression\<close>

definition lz_flag :: "byte list \<Rightarrow> nat \<Rightarrow> byte \<Rightarrow> u32 \<Rightarrow> (u32 \<times> byte \<times> nat) option" where
  "lz_flag s src copymap copymask =
     (let copymask = push_bit 1 copymask in
      if copymask = push_bit NBBY 1 then Option.bind (buf_get s src) (\<lambda>m. Some (1, m, Suc src))
      else Some (copymask, copymap, src))"

fun lz_copy :: "nat \<Rightarrow> int \<Rightarrow> nat \<Rightarrow> byte list \<Rightarrow> (nat \<times> byte list) option" where
  "lz_copy 0 cpy dst d = Some (dst, d)"
| "lz_copy (Suc mlen) cpy dst d =
     (if dst < length d
      then Option.bind (ptr_get d cpy) (\<lambda>c. Option.bind (buf_put d dst c) (\<lambda>d. lz_copy mlen (cpy + 1) (Suc dst) d))
      else Some (dst, d))"

partial_function (option) lzjb_unloop :: "byte list \<Rightarrow> nat \<Rightarrow> nat \<Rightarrow> byte \<Rightarrow> u32 \<Rightarrow> byte list \<Rightarrow> (int \<times> byte list) option" where
  "lzjb_unloop s src dst copymap copymask d =
     (if dst < length d then
        Option.bind (lz_flag s src copymap copymask) (\<lambda>(copymask, copymap, src).
          if ucast copymap AND copymask \<noteq> 0 then
            Option.bind (buf_get s src) (\<lambda>a. Option.bind (buf_get s (Suc src)) (\<lambda>b.
              let mlen = drop_bit (NBBY - MATCH_BITS) (unat a) + MATCH_MIN;
                  offset = (push_bit NBBY (unat a) OR unat b) AND OFFSET_MASK;
                  cpy = int dst - int offset
              in if cpy < 0 then Some (- 1, d)
                 else Option.bind (lz_copy mlen cpy dst d) (\<lambda>(dst, d).
                   lzjb_unloop s (Suc (Suc src)) dst copymap copymask d)))
          else
            Option.bind (buf_get s src) (\<lambda>c. Option.bind (buf_put d dst c) (\<lambda>d.
              lzjb_unloop s (Suc src) (Suc dst) copymap copymask d)))
      else Some (0, d))"

definition lzjb_decompress :: "byte list \<Rightarrow> byte list \<Rightarrow> int \<Rightarrow> (int \<times> byte list) option" where
  "lzjb_decompress s d n = lzjb_unloop s 0 0 0 (push_bit (NBBY - 1) 1) d"

declare lzjb_unloop.simps [code]

section \<open>Tokens\<close>

text \<open>
  A compressed block is a sequence of groups of at most eight tokens: a byte whose bits tell the matches, then the
  tokens.  \<open>lz_apply\<close> is what a token adds to the output.
\<close>

datatype lz_token = Lit byte | Match (m_offset: nat) (m_len: nat)

fun is_match :: "lz_token \<Rightarrow> bool" where
  "is_match (Lit b) = False"
| "is_match (Match off len) = True"

fun payload :: "lz_token \<Rightarrow> byte list" where
  "payload (Lit b) = [b]"
| "payload (Match off len) = [of_nat (push_bit 2 (len - 3) OR drop_bit 8 off), of_nat off]"

fun flags :: "nat \<Rightarrow> lz_token list \<Rightarrow> byte" where
  "flags i [] = 0"
| "flags i (t # ts) = (if is_match t then push_bit i 1 else 0) OR flags (Suc i) ts"

definition lz_group :: "lz_token list \<Rightarrow> byte list" where
  "lz_group g = flags 0 g # concat (map payload g)"

fun lz_ext :: "nat \<Rightarrow> nat \<Rightarrow> byte list \<Rightarrow> byte list" where
  "lz_ext 0 off out = out"
| "lz_ext (Suc len) off out = lz_ext len off (out @ [out ! (length out - off)])"

fun lz_apply :: "byte list \<Rightarrow> lz_token \<Rightarrow> byte list" where
  "lz_apply out (Lit b) = out @ [b]"
| "lz_apply out (Match off len) = lz_ext len off out"

fun tok_len :: "lz_token \<Rightarrow> nat" where
  "tok_len (Lit b) = 1"
| "tok_len (Match off len) = len"

fun tok_ok :: "byte list \<Rightarrow> lz_token \<Rightarrow> bool" where
  "tok_ok out (Lit b) = True"
| "tok_ok out (Match off len) = (0 < off \<and> off \<le> length out \<and> off < 1024 \<and> 3 \<le> len \<and> len \<le> 66)"

fun run_ok :: "lz_token list \<Rightarrow> byte list \<Rightarrow> bool" where
  "run_ok [] out = True"
| "run_ok (t # ts) out = (tok_ok out t \<and> run_ok ts (lz_apply out t))"

abbreviation lz_run :: "lz_token list \<Rightarrow> byte list \<Rightarrow> byte list" where
  "lz_run ts out \<equiv> foldl lz_apply out ts"

lemma lz_consts: "NBBY = 8" "MATCH_BITS = 6" "MATCH_MIN = 3" "MATCH_MAX = 66" "OFFSET_MASK = 1023"
  by (simp_all add: NBBY_def MATCH_BITS_def MATCH_MIN_def MATCH_MAX_def OFFSET_MASK_def)

lemma run_ok_append [simp]: "run_ok (ts @ us) out \<longleftrightarrow> run_ok ts out \<and> run_ok us (lz_run ts out)"
  by (induction ts arbitrary: out) auto

lemma flags_snoc: "flags i (ts @ [t]) = flags i ts OR (if is_match t then push_bit (i + length ts) 1 else 0)"
  by (induction ts arbitrary: i) (auto simp: ac_simps)

lemma bit_flags: "bit (flags i ts) k \<longleftrightarrow> k < 8 \<and> i \<le> k \<and> k - i < length ts \<and> is_match (ts ! (k - i))"
proof (induction ts arbitrary: i)
  case (Cons t ts)
  have "bit (push_bit i 1 :: byte) k \<longleftrightarrow> k < 8 \<and> k = i" by (auto simp: bit_simps)
  then show ?case using Cons.IH [of "Suc i"] by (cases "k = i"; cases "i < k") (auto simp: bit_or_iff nth_Cons' Suc_diff_Suc split: if_splits)
qed simp

lemma length_lz_ext [simp]: "length (lz_ext len off out) = length out + len"
  by (induction len arbitrary: out) auto

lemma length_lz_apply [simp]: "length (lz_apply out t) = length out + tok_len t"
  by (cases t) auto

lemma length_lz_run [simp]: "length (lz_run ts out) = length out + sum_list (map tok_len ts)"
  by (induction ts arbitrary: out) auto

text \<open>The two bytes of a match hold its offset and its length.\<close>

lemma match_bytes:
  assumes "off < 1024" "3 \<le> len" "len \<le> 66"
  defines "a \<equiv> of_nat (push_bit 2 (len - 3) OR drop_bit 8 off) :: byte" and "b \<equiv> of_nat off :: byte"
  shows "drop_bit 2 (unat a) + 3 = len" "(push_bit 8 (unat a) OR unat b) AND 1023 = off"
proof -
  have q: "drop_bit 8 off < 4" "len - 3 < 64" using assms(1-3) by (simp_all add: drop_bit_eq_div)
  have "push_bit 2 (len - 3) + drop_bit 8 off = push_bit 2 (len - 3) OR drop_bit 8 off"
  proof (intro disjunctive_add)
    fix n
    have "take_bit 2 (drop_bit 8 off) = drop_bit 8 off" using q(1) by (simp add: take_bit_nat_eq_self)
    then show "\<not> bit (push_bit 2 (len - 3)) n \<or> \<not> bit (drop_bit 8 off) n" by (metis bit_push_bit_iff bit_take_bit_iff not_less)
  qed
  then have a: "unat a = 4 * (len - 3) + off div 256"
    using q unfolding a_def by (simp add: unsigned_of_nat take_bit_nat_eq_self push_bit_eq_mult drop_bit_eq_div)
  then have "drop_bit 2 (unat a) = len - 3" using assms(1) by (simp add: drop_bit_eq_div)
  then show "drop_bit 2 (unat a) + 3 = len" using assms(2) by simp
  have b: "unat b = off mod 256" unfolding b_def by (simp add: unsigned_of_nat take_bit_eq_mod)
  have "push_bit 8 (unat a) + unat b = push_bit 8 (unat a) OR unat b"
  proof (intro disjunctive_add)
    fix n
    have "take_bit 8 (unat b) = unat b" using b by (simp add: take_bit_nat_eq_self)
    then show "\<not> bit (push_bit 8 (unat a)) n \<or> \<not> bit (unat b) n" by (metis bit_push_bit_iff bit_take_bit_iff not_less)
  qed
  then have "(push_bit 8 (unat a) OR unat b) AND mask 10 = (256 * (4 * (len - 3) + off div 256) + off mod 256) mod 2 ^ 10"
    using a b by (simp add: push_bit_eq_mult take_bit_eq_mod flip: take_bit_eq_mask)
  also have "256 * (4 * (len - 3) + off div 256) + off mod 256 = 1024 * (len - 3) + off" by simp
  also have "(1024 * (len - 3) + off) mod 2 ^ 10 = off" using assms(1) by simp
  finally show "(push_bit 8 (unat a) OR unat b) AND 1023 = off" by (simp add: mask_eq_exp_minus_1)
qed

section \<open>What the decompressor reads\<close>

lemma lz_copy_ok:
  "0 < off \<Longrightarrow> off \<le> dst \<Longrightarrow> dst + len \<le> length d \<Longrightarrow>
    \<exists>d'. lz_copy len (int dst - int off) dst d = Some (dst + len, d') \<and> length d' = length d \<and> take (dst + len) d' = lz_ext len off (take dst d)"
proof (induction len arbitrary: dst d)
  case (Suc len)
  let ?c = "d ! (dst - off)"
  have "take (Suc dst) (d[dst := ?c]) = take dst d @ [take dst d ! (length (take dst d) - off)]"
    using Suc.prems by (simp add: take_Suc_put)
  moreover have "ptr_get d (int dst - int off) = Some ?c"
    using Suc.prems ptr_get_int [of d "dst - off"] by simp
  moreover have eq: "int dst - int off + 1 = int (Suc dst) - int off" by simp
  obtain d' where "lz_copy len (int (Suc dst) - int off) (Suc dst) (d[dst := ?c]) = Some (Suc dst + len, d')" "length d' = length d"
    "take (Suc dst + len) d' = lz_ext len off (take (Suc dst) (d[dst := ?c]))"
    using Suc.IH [of "Suc dst" "d[dst := ?c]"] Suc.prems by auto
  ultimately show ?case using Suc.prems by (simp add: eq del: of_nat_Suc)
qed simp

text \<open>The test of a flag, and the last place of the mask.\<close>

lemma push_bit_8_neq: "j < 8 \<Longrightarrow> (push_bit j 1 :: u32) \<noteq> push_bit 8 1"
proof
  assume "j < 8" "(push_bit j 1 :: u32) = push_bit 8 1"
  then have "bit (push_bit j 1 :: u32) 8" by (simp add: bit_simps)
  then show False using \<open>j < 8\<close> by (auto simp: bit_simps)
qed

lemma flag_test: "k < 8 \<Longrightarrow> ucast (m :: byte) AND (push_bit k 1 :: u32) \<noteq> 0 \<longleftrightarrow> bit m k"
proof -
  assume k: "k < 8"
  have "bit (ucast m AND (push_bit k 1 :: u32)) n \<longleftrightarrow> n = k \<and> bit m k" for n using k by (auto simp: bit_simps)
  then show ?thesis by (metis bit_0_eq bot_apply bot_bool_def bit_eq_iff)
qed

lemma unloop_token:
  assumes "lz_flag s src cm msk = Some (push_bit k 1, cm', length pre)" "k < 8" "bit cm' k \<longleftrightarrow> is_match t"
    and "s = pre @ payload t @ rest" "tok_ok (take dst d) t" "dst + tok_len t \<le> length d"
  shows "\<exists>d'. lzjb_unloop s src dst cm msk d = lzjb_unloop s (length pre + length (payload t)) (dst + tok_len t) cm' (push_bit k 1) d' \<and>
    length d' = length d \<and> take (dst + tok_len t) d' = lz_apply (take dst d) t"
proof (cases t)
  case (Lit b)
  have dst: "dst < length d" using assms(6) Lit by simp
  have f: "ucast cm' AND (push_bit k 1 :: u32) = 0" using flag_test [OF assms(2), of cm'] assms(3) Lit by simp
  have "lzjb_unloop s src dst cm msk d = lzjb_unloop s (Suc (length pre)) (Suc dst) cm' (push_bit k 1) (d[dst := b])"
    using dst assms(1,4) f Lit by (subst lzjb_unloop.simps) (simp del: push_bit_of_1)
  then show ?thesis using dst Lit by (intro exI [of _ "d[dst := b]"]) (simp add: take_Suc_put)
next
  case (Match off len)
  have dst: "dst < length d" and ok: "0 < off" "off \<le> dst" "off < 1024" "3 \<le> len" "len \<le> 66" "dst + len \<le> length d"
    using assms(5,6) Match by auto
  have f: "ucast cm' AND (push_bit k 1 :: u32) \<noteq> 0" using flag_test [OF assms(2), of cm'] assms(3) Match by simp
  obtain a b where ab: "payload t = [a, b]" "drop_bit 2 (unat a) + 3 = len" "(push_bit 8 (unat a) OR unat b) AND 1023 = off"
    using match_bytes [OF ok(3-5)] Match by simp
  have g: "buf_get s (length pre) = Some a" "buf_get s (Suc (length pre)) = Some b" using assms(4) ab(1) by (simp_all add: nth_append)
  obtain d' where c: "lz_copy len (int dst - int off) dst d = Some (dst + len, d')" "length d' = length d" "take (dst + len) d' = lz_ext len off (take dst d)"
    using lz_copy_ok [OF ok(1,2,6)] by blast
  have "lzjb_unloop s src dst cm msk d = lzjb_unloop s (Suc (Suc (length pre))) (dst + len) cm' (push_bit k 1) d'"
    using dst assms(1) f g ab(2,3) ok(2) c(1) by (subst lzjb_unloop.simps) (simp add: Let_def lz_consts not_less del: push_bit_of_1)
  then show ?thesis using c(2,3) ab(1) Match by auto
qed

text \<open>The tokens of a group from the \<open>j\<close>-th on, after its flags and \<open>j\<close> tokens have been read.\<close>

lemma unloop_rest:
  assumes "0 < j" "j + length us \<le> 8" "\<forall>i<length us. bit cm (j + i) \<longleftrightarrow> is_match (us ! i)" "s = pre @ concat (map payload us) @ rest"
    "run_ok us (take dst d)" "length (lz_run us (take dst d)) \<le> length d" "dst \<le> length d"
  shows "\<exists>d'. lzjb_unloop s (length pre) dst cm (push_bit (j - 1) 1) d =
      lzjb_unloop s (length pre + length (concat (map payload us))) (length (lz_run us (take dst d))) cm (push_bit (j + length us - 1) 1) d' \<and>
    length d' = length d \<and> take (length (lz_run us (take dst d))) d' = lz_run us (take dst d)"
  using assms
proof (induction us arbitrary: j pre dst d)
  case Nil
  then show ?case by auto
next
  case (Cons t us)
  have "push_bit 1 (push_bit (j - 1) 1) = (push_bit j 1 :: u32)" using Cons.prems(1) by (simp del: push_bit_of_1 add: push_bit_push_bit)
  moreover have "(push_bit j 1 :: u32) \<noteq> push_bit 8 1" using push_bit_8_neq Cons.prems(2) by simp
  ultimately have fl: "lz_flag s (length pre) cm (push_bit (j - 1) 1) = Some (push_bit j 1, cm, length pre)"
    by (simp add: lz_flag_def lz_consts del: push_bit_of_1)
  have "dst + tok_len t \<le> length d" using Cons.prems(6,7) by simp
  moreover have "bit cm j \<longleftrightarrow> is_match t" using Cons.prems(3) by force
  ultimately obtain d1 where d1: "lzjb_unloop s (length pre) dst cm (push_bit (j - 1) 1) d =
      lzjb_unloop s (length (pre @ payload t)) (dst + tok_len t) cm (push_bit (Suc j - 1) 1) d1"
    "length d1 = length d" "take (dst + tok_len t) d1 = lz_apply (take dst d) t"
    using unloop_token [OF fl, of t "concat (map payload us) @ rest" dst d] Cons.prems(2,4,5) by auto
  have "\<forall>i<length us. bit cm (Suc j + i) \<longleftrightarrow> is_match (us ! i)" using Cons.prems(3) by (metis add_Suc_shift length_Cons not_less_eq nth_Cons_Suc)
  then obtain d' where "lzjb_unloop s (length (pre @ payload t)) (dst + tok_len t) cm (push_bit (Suc j - 1) 1) d1 =
      lzjb_unloop s (length (pre @ payload t) + length (concat (map payload us))) (length (lz_run us (take (dst + tok_len t) d1))) cm
        (push_bit (Suc j + length us - 1) 1) d'"
    "length d' = length d1" "take (length (lz_run us (take (dst + tok_len t) d1))) d' = lz_run us (take (dst + tok_len t) d1)"
    using Cons.IH [of "Suc j" "pre @ payload t" "dst + tok_len t" d1] Cons.prems d1(2,3) by auto
  then show ?case using d1 by (intro exI [of _ d']) (simp add: add.assoc)
qed

lemma unloop_group:
  assumes "g \<noteq> []" "length g \<le> 8" "s = pre @ lz_group g @ rest" "run_ok g (take dst d)"
    "length (lz_run g (take dst d)) \<le> length d" "dst \<le> length d"
  shows "\<exists>cm' d'. lzjb_unloop s (length pre) dst cm (push_bit 7 1) d =
      lzjb_unloop s (length pre + length (lz_group g)) (length (lz_run g (take dst d))) cm' (push_bit (length g - 1) 1) d' \<and>
    length d' = length d \<and> take (length (lz_run g (take dst d))) d' = lz_run g (take dst d)"
proof -
  obtain t us where g: "g = t # us" using assms(1) by (cases g) auto
  let ?f = "flags 0 g" and ?pre = "pre @ [flags 0 g]"
  have "lz_flag s (length pre) cm (push_bit 7 1) = Some (push_bit 0 1, ?f, length ?pre)"
    using assms(3) by (simp add: lz_flag_def lz_consts lz_group_def)
  moreover have bits: "bit ?f i \<longleftrightarrow> is_match (g ! i)" if "i < length g" for i using that assms(2) by (simp add: bit_flags del: flags.simps)
  moreover have "dst + tok_len t \<le> length d" using assms(5,6) g by simp
  ultimately obtain d1 where d1: "lzjb_unloop s (length pre) dst cm (push_bit 7 1) d =
      lzjb_unloop s (length (?pre @ payload t)) (dst + tok_len t) ?f (push_bit (1 - 1) 1) d1"
    "length d1 = length d" "take (dst + tok_len t) d1 = lz_apply (take dst d) t"
    using unloop_token [of s "length pre" cm "push_bit 7 1" 0 ?f ?pre t "concat (map payload us) @ rest" dst d] bits [of 0] g assms(3,4)
    by (auto simp: lz_group_def)
  have "\<forall>i<length us. bit ?f (1 + i) \<longleftrightarrow> is_match (us ! i)" using bits g by (metis Suc_less_eq length_Cons nth_Cons_Suc plus_1_eq_Suc)
  then obtain d' where "lzjb_unloop s (length (?pre @ payload t)) (dst + tok_len t) ?f (push_bit (1 - 1) 1) d1 =
      lzjb_unloop s (length (?pre @ payload t) + length (concat (map payload us))) (length (lz_run us (take (dst + tok_len t) d1))) ?f
        (push_bit (1 + length us - 1) 1) d'"
    "length d' = length d1" "take (length (lz_run us (take (dst + tok_len t) d1))) d' = lz_run us (take (dst + tok_len t) d1)"
    using unloop_rest [of 1 us ?f s "?pre @ payload t" rest "dst + tok_len t" d1] assms g d1(2,3) by (auto simp: lz_group_def)
  then show ?thesis using d1 g by (intro exI [of _ ?f] exI [of _ d']) (simp add: lz_group_def add.assoc)
qed

text \<open>A sequence of groups, all full but the last.\<close>

fun groups_ok :: "lz_token list list \<Rightarrow> bool" where
  "groups_ok [] = True"
| "groups_ok [g] = (g \<noteq> [] \<and> length g \<le> 8)"
| "groups_ok (g # gs) = (length g = 8 \<and> groups_ok gs)"

lemma unloop_stream:
  assumes "groups_ok gs" "s = pre @ concat (map lz_group gs) @ pad" "run_ok (concat gs) (take dst d)"
    "length (lz_run (concat gs) (take dst d)) = length d" "dst \<le> length d"
  shows "lzjb_unloop s (length pre) dst cm (push_bit 7 1) d = Some (0, lz_run (concat gs) (take dst d))"
  using assms
proof (induction gs arbitrary: pre dst d cm rule: groups_ok.induct)
  case 1
  then show ?case by (subst lzjb_unloop.simps) simp
next
  case (2 g)
  then obtain cm' d' where "lzjb_unloop s (length pre) dst cm (push_bit 7 1) d =
      lzjb_unloop s (length pre + length (lz_group g)) (length d) cm' (push_bit (length g - 1) 1) d'"
    "length d' = length d" "take (length d) d' = lz_run g (take dst d)"
    using unloop_group [of g s pre pad dst d cm] by auto
  then show ?case by (subst (asm) (2) lzjb_unloop.simps) simp
next
  case (3 g h gs)
  let ?out = "lz_run g (take dst d)"
  have g: "g \<noteq> []" "length g = 8" using "3.prems"(1) by auto
  obtain cm' d' where d': "lzjb_unloop s (length pre) dst cm (push_bit 7 1) d =
      lzjb_unloop s (length (pre @ lz_group g)) (length ?out) cm' (push_bit 7 1) d'"
    "length d' = length d" "take (length ?out) d' = ?out"
    using unloop_group [of g s pre "concat (map lz_group (h # gs)) @ pad" dst d cm] "3.prems" g by auto
  then show ?case using "3.IH" [of "pre @ lz_group g" "length ?out" d' cm'] "3.prems" by simp
qed

section \<open>What the compressor writes\<close>

lemma lz_ext_ok:
  "0 < off \<Longrightarrow> off \<le> p \<Longrightarrow> p + len \<le> length s \<Longrightarrow> \<forall>i<len. s ! (p + i) = s ! (p - off + i) \<Longrightarrow> lz_ext len off (take p s) = take (p + len) s"
proof (induction len arbitrary: p)
  case (Suc len)
  have "take p s ! (length (take p s) - off) = s ! p" using Suc.prems by force
  then have "lz_ext (Suc len) off (take p s) = lz_ext len off (take (Suc p) s)" using Suc.prems(3) by (simp add: take_Suc_conv_app_nth)
  moreover have "\<forall>i<len. s ! (Suc p + i) = s ! (Suc p - off + i)"
    using Suc.prems(2,4) by (metis Suc_diff_le Suc_less_eq add_Suc add_Suc_right)
  ultimately show ?case using Suc.IH [of "Suc p"] Suc.prems by simp
qed simp

lemma lz_match_ok:
  fixes cpy :: nat
  assumes "cpy \<le> src" "src + 66 \<le> length s" "mlen \<le> 66" "\<forall>i<mlen. s ! (src + i) = s ! (cpy + i)"
  shows "\<exists>l. lz_match s src (int cpy) mlen = Some l \<and> mlen \<le> l \<and> l \<le> 66 \<and> (\<forall>i<l. s ! (src + i) = s ! (cpy + i))"
  using assms(3,4)
proof (induction "66 - mlen" arbitrary: mlen)
  case 0
  then have "lz_match s src (int cpy) mlen = Some mlen" by (subst lz_match.simps) (simp add: lz_consts)
  then show ?case using "0.prems" by simp
next
  case (Suc k)
  then have m: "mlen < 66" and k: "k = 66 - Suc mlen" by simp_all
  then have g: "buf_get s (src + mlen) = Some (s ! (src + mlen))" "ptr_get s (int cpy + int mlen) = Some (s ! (cpy + mlen))" using assms(1,2) by simp_all
  show ?case
  proof (cases "s ! (src + mlen) = s ! (cpy + mlen)")
    case True
    then have eq: "lz_match s src (int cpy) mlen = lz_match s src (int cpy) (Suc mlen)" using g m by (subst lz_match.simps) (simp add: lz_consts)
    have "\<forall>i<Suc mlen. s ! (src + i) = s ! (cpy + i)" using Suc.prems(2) True less_Suc_eq by auto
    then obtain l where "lz_match s src (int cpy) (Suc mlen) = Some l" "Suc mlen \<le> l" "l \<le> 66" "\<forall>i<l. s ! (src + i) = s ! (cpy + i)"
      using Suc.hyps(1) [of "Suc mlen"] k m by auto
    then show ?thesis using eq by (intro exI [of _ l]) simp
  next
    case False
    then have "lz_match s src (int cpy) mlen = Some mlen" using g m by (subst lz_match.simps) (simp add: lz_consts)
    then show ?thesis using Suc.prems by simp
  qed
qed

lemma lz_lookup_ok:
  assumes "src + 66 \<le> length s"
  shows "\<exists>cpy lempel'. lz_lookup base s src lempel = Some (cpy, lempel') \<and>
    (\<forall>off. cpy = Some off \<longrightarrow> 0 < off \<and> off \<le> src \<and> off < 1024 \<and> (\<forall>i<3. s ! (src + i) = s ! (src - off + i)))"
proof -
  have g: "buf_get s src = Some (s ! src)" "buf_get s (src + 1) = Some (s ! (src + 1))" "buf_get s (src + 2) = Some (s ! (src + 2))"
    using assms by simp_all
  have lt: "x AND 1023 < 1024" for x :: nat using take_bit_nat_less_exp [of 10 x] by (simp add: take_bit_eq_mask mask_eq_exp_minus_1)
  have three: "(\<forall>i<3. P i) \<longleftrightarrow> P 0 \<and> P 1 \<and> P (2 :: nat)" for P by (auto simp: less_Suc_eq eval_nat_numeral)
  have h: "ptr_get s (int src - int off + int k) = Some (s ! (src - off + k))" if "off \<le> src" "k < 3" for off k
  proof -
    have "int src - int off + int k = int (src - off + k)" using that(1) by simp
    then have "ptr_get s (int src - int off + int k) = buf_get s (src - off + k)" by (simp only: ptr_get_int)
    then show ?thesis using that assms by simp
  qed
  show ?thesis using assms g lt h [where k = 0] h [where k = 1] h [where k = 2] by (auto simp: lz_lookup_def Let_def lz_consts three)
qed

text \<open>
  The state of the compressor in the middle of an iteration and at its start: what is written is a sequence of full
  groups and the group at work, their tokens stand for the source that is behind, and there is room for
  the rest of the group.
\<close>

definition lz_state :: "byte list \<Rightarrow> nat \<Rightarrow> nat \<Rightarrow> nat \<Rightarrow> byte list \<Rightarrow> lz_token list list \<Rightarrow> lz_token list \<Rightarrow> bool" where
  "lz_state s src dst copymap d gs g \<longleftrightarrow>
     (\<forall>h\<in>set gs. length h = 8) \<and> length g \<le> 8 \<and> copymap = length (concat (map lz_group gs)) \<and> dst + 2 * (8 - length g) \<le> length d \<and>
     take dst d = concat (map lz_group gs) @ lz_group g \<and> run_ok (concat gs @ g) [] \<and> lz_run (concat gs @ g) [] = take src s"

definition lz_inv :: "byte list \<Rightarrow> nat \<Rightarrow> nat \<Rightarrow> nat \<Rightarrow> u32 \<Rightarrow> byte list \<Rightarrow> bool" where
  "lz_inv s src dst copymap copymask d \<longleftrightarrow> src = 0 \<and> dst = 0 \<and> copymask = push_bit 7 1 \<or>
     (\<exists>gs g. g \<noteq> [] \<and> copymask = push_bit (length g - 1) 1 \<and> lz_state s src dst copymap d gs g)"

lemma new_group:
  assumes "push_bit 1 copymask = (push_bit 8 1 :: u32)" "dst \<le> length d" "\<forall>h\<in>set gs. length h = 8" "take dst d = concat (map lz_group gs)"
    "run_ok (concat gs) []" "lz_run (concat gs) [] = take src s"
  shows "lz_start dst copymap copymask d = Some (Inl ()) \<or>
    lz_start dst copymap copymask d = Some (Inr (push_bit 0 1, dst, Suc dst, d[dst := 0])) \<and> lz_state s src (Suc dst) dst (d[dst := 0]) gs []"
proof (cases "int dst \<ge> int (length d) - 17")
  case True
  then show ?thesis using assms(1) by (simp add: lz_start_def lz_consts Let_def del: push_bit_of_1)
next
  case False
  have "length (take dst d) = dst" using assms(2) by simp
  then have "dst = length (concat (map lz_group gs))" using assms(4) by simp
  moreover have "take (Suc dst) (d[dst := 0]) = concat (map lz_group gs) @ lz_group []"
    using False assms(4) by (simp add: take_Suc_put lz_group_def)
  ultimately have "lz_state s src (Suc dst) dst (d[dst := 0]) gs []" using False assms(3,5,6) unfolding lz_state_def by simp
  then show ?thesis using False assms(1) by (simp add: lz_start_def lz_consts Let_def del: push_bit_of_1)
qed

lemma lz_start_ok:
  assumes "lz_inv s src dst copymap copymask d"
  shows "lz_start dst copymap copymask d = Some (Inl ()) \<or>
    (\<exists>gs g copymap' dst' d'. lz_start dst copymap copymask d = Some (Inr (push_bit (length g) 1, copymap', dst', d')) \<and>
       length g < 8 \<and> length d' = length d \<and> lz_state s src dst' copymap' d' gs g)"
proof -
  have shift: "push_bit 1 (push_bit k 1) = (push_bit (Suc k) 1 :: u32)" for k by (simp only: push_bit_push_bit plus_1_eq_Suc)
  from assms consider "src = 0" "dst = 0" "copymask = push_bit 7 1"
    | gs g where "g \<noteq> []" "copymask = push_bit (length g - 1) 1" "lz_state s src dst copymap d gs g"
    unfolding lz_inv_def by blast
  then show ?thesis
  proof cases
    case 1
    then have "push_bit 1 copymask = push_bit 8 1" using shift [of 7] by simp
    from new_group [OF this, of dst d "[]" src s copymap] show ?thesis using 1
      by (auto intro!: exI [of _ "[] :: lz_token list list"] exI [of _ "[] :: lz_token list"])
  next
    case 2
    note st = 2(3) [unfolded lz_state_def]
    show ?thesis
    proof (cases "length g = 8")
      case True
      then have "push_bit 1 copymask = push_bit 8 1" using shift [of 7] 2(2) by simp
      from new_group [OF this, of dst d "gs @ [g]" src s copymap] show ?thesis using st True
        by (auto intro!: exI [of _ "gs @ [g]"] exI [of _ "[] :: lz_token list"])
    next
      case False
      have "Suc (length g - 1) = length g" using 2(1) by (cases g) auto
      then have "push_bit 1 copymask = push_bit (length g) 1" using shift [of "length g - 1"] 2(2) by simp
      moreover have "length g < 8" using st False by simp
      ultimately have "lz_start dst copymap copymask d = Some (Inr (push_bit (length g) 1, copymap, dst, d))"
        using push_bit_8_neq by (simp add: lz_start_def lz_consts Let_def del: push_bit_of_1)
      then show ?thesis using 2(3) \<open>length g < 8\<close> by blast
    qed
  qed
qed

text \<open>Writing a token.\<close>

lemma lz_state_emit:
  assumes "lz_state s src dst copymap d gs g" "length g < 8" "tok_ok (take src s) t" "lz_apply (take src s) t = take src' s"
    and "length d' = length d" "take (dst + length (payload t)) d' = concat (map lz_group gs) @ lz_group (g @ [t])"
  shows "lz_inv s src' (dst + length (payload t)) copymap (push_bit (length g) 1) d'"
proof -
  note st = assms(1) [unfolded lz_state_def]
  have "length (payload t) \<le> 2" by (cases t) auto
  moreover have "dst + 2 * (8 - length g) \<le> length d" using st by blast
  ultimately have "dst + length (payload t) + 2 * (8 - length (g @ [t])) \<le> length d'" using assms(2,5) unfolding length_append list.size by linarith
  then have "lz_state s src' (dst + length (payload t)) copymap d' gs (g @ [t])" using st assms(2-4,6) by (simp add: lz_state_def)
  then show ?thesis unfolding lz_inv_def by (intro disjI2 exI [of _ gs] exI [of _ "g @ [t]"]) simp
qed

lemma lz_emit_literal:
  assumes "lz_state s src dst copymap d gs g" "length g < 8" "src < length s"
  shows "dst < length d" "lz_inv s (Suc src) (Suc dst) copymap (push_bit (length g) 1) (d[dst := s ! src])"
proof -
  note st = assms(1) [unfolded lz_state_def]
  have "dst + 2 * (8 - length g) \<le> length d" using st by blast
  then show dst: "dst < length d" using assms(2) by linarith
  have "take (Suc dst) (d[dst := s ! src]) = concat (map lz_group gs) @ lz_group (g @ [Lit (s ! src)])"
    using st dst by (simp add: take_Suc_put lz_group_def flags_snoc)
  then show "lz_inv s (Suc src) (Suc dst) copymap (push_bit (length g) 1) (d[dst := s ! src])"
    using lz_state_emit [OF assms(1,2), of "Lit (s ! src)" "Suc src" "d[dst := s ! src]"] assms(3) by (simp add: take_Suc_conv_app_nth)
qed

lemma lz_emit_match:
  assumes "lz_state s src dst copymap d gs g" "length g < 8" "tok_ok (take src s) (Match off len)" "lz_ext len off (take src s) = take (src + len) s"
  defines "d1 \<equiv> d[copymap := d ! copymap OR ucast (push_bit (length g) 1 :: u32)]"
  defines "d2 \<equiv> d1[dst := of_nat (push_bit 2 (len - 3) OR drop_bit 8 off)]"
  shows "copymap < length d" "Suc dst < length d" "lz_inv s (src + len) (Suc (Suc dst)) copymap (push_bit (length g) 1) (d2[Suc dst := of_nat off])"
proof -
  note st = assms(1) [unfolded lz_state_def]
  let ?A = "concat (map lz_group gs)" and ?d3 = "d2[Suc dst := of_nat off]"
  have "dst + 2 * (8 - length g) \<le> length d" using st by blast
  then show dst: "Suc dst < length d" using assms(2) by linarith
  have "length (take dst d) = dst" using dst by simp
  then have cm: "copymap < dst" using st by (simp add: lz_group_def)
  then show "copymap < length d" using dst by simp
  have "take dst d ! copymap = flags 0 g" using st by (simp add: lz_group_def)
  then have f: "d ! copymap = flags 0 g" using cm by simp
  have u: "ucast (push_bit (length g) 1 :: u32) = (push_bit (length g) 1 :: byte)" using assms(2) by (intro bit_word_eqI) (auto simp: bit_simps)
  have "take dst d1 = (take dst d)[copymap := flags 0 g OR push_bit (length g) 1]" unfolding d1_def f u by (simp only: take_update_swap)
  then have d1: "take dst d1 = ?A @ (flags 0 g OR push_bit (length g) 1) # concat (map payload g)" using st by (simp add: lz_group_def)
  have "take (Suc dst) d2 = take dst d1 @ [of_nat (push_bit 2 (len - 3) OR drop_bit 8 off)]" using dst by (simp add: d2_def d1_def take_Suc_put)
  moreover have "take (Suc (Suc dst)) ?d3 = take (Suc dst) d2 @ [of_nat off]" using dst by (intro take_Suc_put) (simp add: d2_def d1_def)
  ultimately have "take (dst + length (payload (Match off len))) ?d3 = ?A @ lz_group (g @ [Match off len])"
    using d1 by (simp add: lz_group_def flags_snoc del: push_bit_of_1)
  then show "lz_inv s (src + len) (Suc (Suc dst)) copymap (push_bit (length g) 1) ?d3"
    using lz_state_emit [OF assms(1-3), of "src + len" ?d3] assms(4) by (simp add: d2_def d1_def)
qed

lemma groups_ok_snoc: "\<forall>h\<in>set gs. length h = 8 \<Longrightarrow> g \<noteq> [] \<Longrightarrow> length g \<le> 8 \<Longrightarrow> groups_ok (gs @ [g])"
  by (induction gs rule: groups_ok.induct) auto

definition lz_stream :: "byte list \<Rightarrow> byte list \<Rightarrow> bool" where
  "lz_stream c s \<longleftrightarrow> (\<exists>gs. groups_ok gs \<and> c = concat (map lz_group gs) \<and> run_ok (concat gs) [] \<and> lz_run (concat gs) [] = s)"

lemma lzjb_loop_step:
  assumes "lz_inv s src dst copymap copymask d" "src < length s"
  shows "lzjb_loop base s src dst copymap copymask lempel d = Some (length s, d) \<or>
    (\<exists>src' dst' cm mk le d'. lzjb_loop base s src dst copymap copymask lempel d = lzjb_loop base s src' dst' cm mk le d' \<and>
       lz_inv s src' dst' cm mk d' \<and> src < src' \<and> src' \<le> length s \<and> length d' = length d)"
proof -
  from lz_start_ok [OF assms(1)] consider "lz_start dst copymap copymask d = Some (Inl ())"
    | gs g cm dst1 d1 where "lz_start dst copymap copymask d = Some (Inr (push_bit (length g) 1, cm, dst1, d1))"
      "length g < 8" "length d1 = length d" "lz_state s src dst1 cm d1 gs g" by blast
  then show ?thesis
  proof cases
    case 1
    then show ?thesis using assms(2) by (subst lzjb_loop.simps) simp
  next
    case 2
    note lit = lz_emit_literal [OF 2(4,2) assms(2)]
    show ?thesis
    proof (cases "int src > int (length s) - int MATCH_MAX")
      case True
      then have "lzjb_loop base s src dst copymap copymask lempel d =
          lzjb_loop base s (Suc src) (Suc dst1) cm (push_bit (length g) 1) lempel (d1[dst1 := s ! src])"
        using assms(2) 2(1) lit(1) by (subst lzjb_loop.simps) (simp del: push_bit_of_1)
      then show ?thesis using lit(2) assms(2) 2(3) by (metis Suc_leI length_list_update lessI)
    next
      case False
      then have room: "src + 66 \<le> length s" by (simp add: lz_consts)
      obtain cpy le where l: "lz_lookup base s src lempel = Some (cpy, le)"
        "\<forall>off. cpy = Some off \<longrightarrow> 0 < off \<and> off \<le> src \<and> off < 1024 \<and> (\<forall>i<3. s ! (src + i) = s ! (src - off + i))"
        using lz_lookup_ok [OF room] by blast
      show ?thesis
      proof (cases cpy)
        case None
        then have "lzjb_loop base s src dst copymap copymask lempel d =
            lzjb_loop base s (Suc src) (Suc dst1) cm (push_bit (length g) 1) le (d1[dst1 := s ! src])"
          using assms(2) False 2(1) l(1) lit(1) by (subst lzjb_loop.simps) (simp del: push_bit_of_1)
        then show ?thesis using lit(2) assms(2) 2(3) by (metis Suc_leI length_list_update lessI)
      next
        case (Some off)
        then have off: "0 < off" "off \<le> src" "off < 1024" "\<forall>i<3. s ! (src + i) = s ! (src - off + i)" using l(2) by auto
        obtain len where m: "lz_match s src (int (src - off)) 3 = Some len" "3 \<le> len" "len \<le> 66" "\<forall>i<len. s ! (src + i) = s ! (src - off + i)"
          using lz_match_ok [of "src - off" src s 3] room off(4) by auto
        have tok: "tok_ok (take src s) (Match off len)" using off m assms(2) by simp
        have "lz_ext len off (take src s) = take (src + len) s" using off m room by (intro lz_ext_ok) simp_all
        note em = lz_emit_match [OF 2(4,2) tok this]
        let ?d3 = "d1[cm := d1 ! cm OR ucast (push_bit (length g) 1 :: u32), dst1 := of_nat (push_bit 2 (len - 3) OR drop_bit 8 off), Suc dst1 := of_nat off]"
        have "lzjb_loop base s src dst copymap copymask lempel d =
            lzjb_loop base s (src + len) (Suc (Suc dst1)) cm (push_bit (length g) 1) le ?d3"
          using assms(2) False 2(1) l(1) Some m(1) [unfolded of_nat_diff [OF off(2)]] em(1,2)
          by (subst lzjb_loop.simps) (simp add: lz_consts del: push_bit_of_1)
        moreover have "src < src + len" "src + len \<le> length s" "length ?d3 = length d" using m(2,3) room 2(3) by simp_all
        ultimately show ?thesis using em(3) by blast
      qed
    qed
  qed
qed

lemma lzjb_loop_ok:
  assumes "lz_inv s src dst copymap copymask d" "src \<le> length s"
  shows "\<exists>r d'. lzjb_loop base s src dst copymap copymask lempel d = Some (r, d') \<and> length d' = length d \<and>
    (r = length s \<or> r \<le> length d \<and> lz_stream (take r d') s)"
  using assms
proof (induction "length s - src" arbitrary: src dst copymap copymask lempel d rule: less_induct)
  case less
  show ?case
  proof (cases "src < length s")
    case False
    then have eq: "lzjb_loop base s src dst copymap copymask lempel d = Some (dst, d)" by (subst lzjb_loop.simps) simp
    have "src = length s" using False less.prems(2) by simp
    from less.prems(1) consider "src = 0" "dst = 0" | gs g where "g \<noteq> []" "lz_state s src dst copymap d gs g" unfolding lz_inv_def by blast
    then have "dst = length s \<or> dst \<le> length d \<and> lz_stream (take dst d) s"
    proof cases
      case 2
      note st = 2(2) [unfolded lz_state_def]
      then show ?thesis using groups_ok_snoc [of gs g] 2(1) \<open>src = length s\<close> unfolding lz_stream_def by (intro disjI2 conjI exI [of _ "gs @ [g]"]) auto
    qed (use \<open>src = length s\<close> in simp)
    then show ?thesis using eq by blast
  next
    case True
    from lzjb_loop_step [OF less.prems(1) True, of base lempel] consider "lzjb_loop base s src dst copymap copymask lempel d = Some (length s, d)"
      | src' dst' cm mk le d' where "lzjb_loop base s src dst copymap copymask lempel d = lzjb_loop base s src' dst' cm mk le d'"
        "lz_inv s src' dst' cm mk d'" "src < src'" "src' \<le> length s" "length d' = length d" by blast
    then show ?thesis
    proof cases
      case 2
      then show ?thesis using less.hyps [of src' dst' cm mk d' le] True by simp
    qed simp
  qed
qed

text \<open>The compressor always returns, and unless it gives up what it wrote is read back, whatever follows it.\<close>

lemma lzjb_roundtrip:
  "\<exists>r d'. lzjb_compress base s d n = Some (r, d') \<and> length d' = length d \<and>
    (r = length s \<or> 0 < r \<and> r \<le> length d \<and> (\<forall>pad buf. length buf = length s \<longrightarrow> lzjb_decompress (take r d' @ pad) buf n' = Some (0, s)))"
proof -
  have "lz_inv s 0 0 0 (push_bit 7 1) d" by (simp add: lz_inv_def)
  then obtain r d' where c: "lzjb_compress base s d n = Some (r, d')" "length d' = length d" "r = length s \<or> r \<le> length d \<and> lz_stream (take r d') s"
    using lzjb_loop_ok [of s 0 0 0 "push_bit 7 1" d base "\<lambda>i. 0"] by (auto simp: lzjb_compress_def lz_consts simp del: push_bit_of_1)
  have "lzjb_decompress (take r d' @ pad) buf n' = Some (0, s)" if st: "lz_stream (take r d') s" and len: "length buf = length s" for pad buf
  proof -
    obtain gs where "groups_ok gs" "take r d' = concat (map lz_group gs)" "run_ok (concat gs) []" "lz_run (concat gs) [] = s"
      using st by (auto simp: lz_stream_def)
    then show ?thesis using unloop_stream [of gs "take r d' @ pad" "[]" pad 0 buf 0] len by (simp add: lzjb_decompress_def lz_consts del: push_bit_of_1 length_lz_run)
  qed
  moreover have "s = []" if st: "lz_stream [] s"
  proof -
    obtain gs where "[] = concat (map lz_group gs)" "lz_run (concat gs) [] = s" using st unfolding lz_stream_def by blast
    then show ?thesis by (cases gs) (auto simp: lz_group_def)
  qed
  ultimately show ?thesis using c by (cases "r = 0") auto
qed

section \<open>Any input\<close>

text \<open>
  The most source bytes that are read for a block of \<open>d_len\<close> bytes, and, as the loop goes on, while \<open>n\<close> bytes are still to be written and the bit \<open>k\<close> of a copy map
  was the last one used: a literal or two bytes of a match for each byte of the output, the latter with fewer than three
  bytes of output only at the end, and the copy maps.
\<close>

definition lzjb_reads :: "nat \<Rightarrow> nat" where
  "lzjb_reads d_len = d_len + (d_len + 7) div 8 + 1"

definition lz_need :: "nat \<Rightarrow> nat \<Rightarrow> nat" where
  "lz_need k n = (if n = 0 then 0 else Suc n + (n + k) div 8)"

lemma lz_flag_mask:
  assumes "k < 8" "copymask = push_bit k 1"
  shows "lz_flag s src copymap copymask =
    (if k = 7 then map_option (\<lambda>m. (push_bit 0 1, m, Suc src)) (buf_get s src) else Some (push_bit (Suc k) 1, copymap, src))"
proof -
  have shift: "push_bit 1 copymask = (push_bit (Suc k) 1 :: u32)" unfolding assms(2) by (simp only: push_bit_push_bit plus_1_eq_Suc)
  have "(push_bit (Suc k) 1 :: u32) = push_bit 8 1 \<longleftrightarrow> k = 7" using push_bit_8_neq [of "Suc k"] assms(1) by (cases "k = 7") (simp_all del: push_bit_of_1)
  then show ?thesis
    unfolding lz_flag_def Let_def shift lz_consts by (cases "buf_get s src") (simp_all del: push_bit_of_1)
qed

lemma lz_flag_total:
  assumes "k < 8" "copymask = push_bit k 1" "0 < n" "src + lz_need k n \<le> length s"
  shows "\<exists>k1 cm src1. lz_flag s src copymap copymask = Some (push_bit k1 1, cm, src1) \<and> k1 < 8 \<and>
    src1 + Suc n + (n - 1 + k1) div 8 \<le> length s"
proof (cases "k = 7")
  case True
  have "(n + 7) div 8 = Suc ((n - 1) div 8)" using assms(3) by (cases n) simp_all
  then have "src + Suc n + Suc ((n - 1) div 8) \<le> length s" using assms(3,4) True by (simp add: lz_need_def)
  then show ?thesis using lz_flag_mask [OF assms(1,2), of s src copymap] True
    by (intro exI [of _ 0] exI [of _ "s ! src"] exI [of _ "Suc src"]) simp
next
  case False
  have "n - 1 + Suc k = n + k" using assms(3) by simp
  then show ?thesis using lz_flag_mask [OF assms(1,2), of s src copymap] False assms
    by (intro exI [of _ "Suc k"] exI [of _ copymap] exI [of _ src]) (simp add: lz_need_def del: push_bit_of_1)
qed

lemma lz_copy_total:
  "0 \<le> cpy \<Longrightarrow> cpy \<le> int dst \<Longrightarrow> dst \<le> length d \<Longrightarrow>
    \<exists>d'. lz_copy mlen cpy dst d = Some (min (dst + mlen) (length d), d') \<and> length d' = length d"
proof (induction mlen arbitrary: cpy dst d)
  case (Suc mlen)
  show ?case
  proof (cases "dst < length d")
    case True
    let ?d = "d[dst := d ! nat cpy]"
    have "nat cpy < length d" using True Suc.prems by linarith
    then have "ptr_get d cpy = Some (d ! nat cpy)" using Suc.prems(1) by (simp add: ptr_get_def)
    then show ?thesis using Suc.IH [of "cpy + 1" "Suc dst" ?d] Suc.prems True by simp
  qed (use Suc.prems in simp)
qed simp

lemma unloop_total:
  assumes "dst \<le> length d" "k < 8" "copymask = push_bit k 1" "src + lz_need k (length d - dst) \<le> length s"
  shows "\<exists>r d'. lzjb_unloop s src dst copymap copymask d = Some (r, d') \<and> length d' = length d \<and> (r = 0 \<or> r = - 1)"
  using assms
proof (induction "length d - dst" arbitrary: src dst copymap copymask d k rule: less_induct)
  case less
  show ?case
  proof (cases "dst < length d")
    case False
    then show ?thesis by (subst lzjb_unloop.simps) simp
  next
    case True
    let ?n = "length d - dst"
    obtain k1 cm src1 where fl: "lz_flag s src copymap copymask = Some (push_bit k1 1, cm, src1)" "k1 < 8"
      and src1: "src1 + Suc ?n + (?n - 1 + k1) div 8 \<le> length s"
      using lz_flag_total [OF less.prems(2,3) _ less.prems(4), of copymap] True by auto
    have s1: "src1 < length s" "Suc src1 < length s" using src1 True by linarith+
    show ?thesis
    proof (cases "ucast cm AND (push_bit k1 1 :: u32) = 0")
      case lit: True
      have "lz_need k1 (length d - Suc dst) \<le> ?n + (?n - 1 + k1) div 8" by (auto simp: lz_need_def)
      then have "\<exists>r d'. lzjb_unloop s (Suc src1) (Suc dst) cm (push_bit k1 1) (d[dst := s ! src1]) = Some (r, d') \<and>
          length d' = length (d[dst := s ! src1]) \<and> (r = 0 \<or> r = - 1)"
        using src1 True fl(2) by (intro less.hyps [where k = k1]) simp_all
      then show ?thesis using True fl(1) lit s1 by (subst lzjb_unloop.simps) (simp del: push_bit_of_1)
    next
      case match: False
      define mlen where "mlen = drop_bit (NBBY - MATCH_BITS) (unat (s ! src1)) + MATCH_MIN"
      define off where "off = (push_bit NBBY (unat (s ! src1)) OR unat (s ! Suc src1)) AND OFFSET_MASK"
      show ?thesis
      proof (cases "int dst - int off < 0")
        case bad: True
        then show ?thesis using True fl(1) match s1 by (subst lzjb_unloop.simps) (simp add: off_def Let_def del: push_bit_of_1)
      next
        case False
        let ?dst = "min (dst + mlen) (length d)"
        obtain d1 where c: "lz_copy mlen (int dst - int off) dst d = Some (?dst, d1)" "length d1 = length d"
          using lz_copy_total [of "int dst - int off" dst d mlen] True False by auto
        have m3: "3 \<le> mlen" by (simp add: mlen_def lz_consts)
        have "lz_need k1 (length d1 - ?dst) \<le> ?n - 1 + (?n - 1 + k1) div 8"
          using m3 True c(2) div_le_mono [of "length d - (dst + mlen) + k1" "?n - 1 + k1" 8] by (auto simp: lz_need_def min_def)
        then have rest: "Suc (Suc src1) + lz_need k1 (length d1 - ?dst) \<le> length s" using src1 True by linarith
        have left: "length d1 - ?dst < ?n" using m3 True c(2) by linarith
        have "\<exists>r d'. lzjb_unloop s (Suc (Suc src1)) ?dst cm (push_bit k1 1) d1 = Some (r, d') \<and> length d' = length d1 \<and> (r = 0 \<or> r = - 1)"
          using rest left fl(2) c(2) by (intro less.hyps [where k = k1]) simp_all
        moreover have "lzjb_unloop s src dst copymap copymask d = lzjb_unloop s (Suc (Suc src1)) ?dst cm (push_bit k1 1) d1"
          using True False fl(1) match s1 c(1) by (subst lzjb_unloop.simps) (simp add: off_def mlen_def Let_def del: push_bit_of_1)
        ultimately show ?thesis using c(2) by simp
      qed
    qed
  qed
qed

text \<open>What the decompressor returns from a source does not depend on the memory behind it.\<close>

lemma buf_get_append: "buf_get s i = Some a \<Longrightarrow> buf_get (s @ t) i = Some a"
  by (simp add: buf_get_def require_eq_Some nth_append)

lemma lz_flag_append: "lz_flag s src copymap copymask = Some x \<Longrightarrow> lz_flag (s @ t) src copymap copymask = Some x"
  by (auto simp: lz_flag_def Let_def bind_eq_Some_conv buf_get_append split: if_splits)

lemma unloop_append:
  assumes "lzjb_unloop s src dst copymap copymask d = Some x"
  shows "lzjb_unloop (s @ t) src dst copymap copymask d = Some x"
proof (rule lzjb_unloop.raw_induct
    [where P = "\<lambda>s src dst copymap copymask d y. lzjb_unloop (s @ t) src dst copymap copymask d = Some y", OF _ assms], goal_cases)
  case (1 f s src dst copymap copymask d y)
  show ?case
  proof (cases "dst < length d")
    case False
    then show ?thesis using 1(2) by (subst lzjb_unloop.simps) simp
  next
    case True
    then obtain mk cm src1 where fl: "lz_flag s src copymap copymask = Some (mk, cm, src1)"
      using 1(2) by (auto simp: bind_eq_Some_conv)
    note fl' = lz_flag_append [OF fl, of t]
    show ?thesis
    proof (cases "ucast cm AND mk = 0")
      case lit: True
      then obtain c d' where "buf_get s src1 = Some c" "buf_put d dst c = Some d'" "f s (Suc src1) (Suc dst) cm mk d' = Some y"
        using 1(2) True fl by (auto simp: bind_eq_Some_conv)
      then show ?thesis using 1(1) True lit fl' by (subst lzjb_unloop.simps) (simp add: buf_get_append)
    next
      case False
      then obtain a b where ab: "buf_get s src1 = Some a" "buf_get s (Suc src1) = Some b"
        using 1(2) True fl by (auto simp: bind_eq_Some_conv)
      define mlen where "mlen = drop_bit (NBBY - MATCH_BITS) (unat a) + MATCH_MIN"
      define cpy where "cpy = int dst - int ((push_bit NBBY (unat a) OR unat b) AND OFFSET_MASK)"
      have body: "(if cpy < 0 then Some (- 1, d) else Option.bind (lz_copy mlen cpy dst d) (\<lambda>(dst, d). f s (Suc (Suc src1)) dst cm mk d)) = Some y"
        using 1(2) True False fl ab by (simp add: mlen_def cpy_def Let_def split: if_splits)
      then have "(if cpy < 0 then Some (- 1, d) else Option.bind (lz_copy mlen cpy dst d) (\<lambda>(dst, d). lzjb_unloop (s @ t) (Suc (Suc src1)) dst cm mk d)) = Some y"
        by (auto simp: bind_eq_Some_conv intro: 1(1) split: if_splits)
      then show ?thesis using True False fl' ab by (subst lzjb_unloop.simps) (simp add: buf_get_append mlen_def cpy_def Let_def split: if_splits)
    qed
  qed
qed

text \<open>Copy maps and literals of zeros: the source has to be as long as the output and its copy maps.\<close>

lemma unloop_zeros:
  assumes "k < 8" "copymask = push_bit k 1" "src \<le> l" "l < src + (length d - dst) + (length d - dst + k) div 8"
  shows "lzjb_unloop (replicate l 0) src dst 0 copymask d = None"
  using assms
proof (induction "length d - dst" arbitrary: src dst copymask d k rule: less_induct)
  case less
  let ?s = "replicate l 0 :: byte list" and ?n = "length d - dst"
  have dst: "dst < length d"
  proof (rule ccontr)
    assume "\<not> dst < length d"
    then show False using less.prems by simp
  qed
  consider "k = 7" "src = l" | k1 src1 where "lz_flag ?s src 0 copymask = Some (push_bit k1 1, 0, src1)" "k1 < 8" "src1 \<le> l"
    "l < src1 + ?n + (?n - 1 + k1) div 8"
  proof (cases "k = 7")
    case True
    have "(?n + 7) div 8 = Suc ((?n - 1) div 8)" using dst by (cases ?n) simp_all
    then show ?thesis using that(1) that(2) [of 0 "Suc src"] lz_flag_mask [OF less.prems(1,2), of ?s src 0] True less.prems(3,4)
      by (cases "src = l") simp_all
  next
    case False
    have "?n - 1 + Suc k = ?n + k" using dst by simp
    then show ?thesis using that(2) [of "Suc k" src] lz_flag_mask [OF less.prems(1,2), of ?s src 0] False less.prems by simp
  qed
  then show ?case
  proof cases
    case 1
    then have "lz_flag ?s src 0 copymask = None" using lz_flag_mask [OF less.prems(1,2), of ?s src 0] by (simp add: buf_get_def)
    then show ?thesis using dst by (subst lzjb_unloop.simps) simp
  next
    case 2
    show ?thesis
    proof (cases "src1 = l")
      case True
      then show ?thesis using dst 2(1) by (subst lzjb_unloop.simps) (simp add: buf_get_def del: push_bit_of_1)
    next
      case False
      have "?n - 1 = length d - Suc dst" by simp
      then have "lzjb_unloop ?s (Suc src1) (Suc dst) 0 (push_bit k1 1) (d[dst := 0]) = None"
        using 2 False dst by (intro less.hyps [where k = k1]) simp_all
      then show ?thesis using dst 2 False by (subst lzjb_unloop.simps) (simp del: push_bit_of_1)
    qed
  qed
qed

end
