(* ===== verification/LzjbAddress.thy ===== *)
theory LzjbAddress
  imports Lzjb
begin

text \<open>
  The output of LZJB depends on the address of the source: the table starts with zeros, which count as the
  addresses of earlier bytes, and a match may be found by way of such an entry or not.  A block is compressed
  at two addresses, by one lemma for each kind of iteration; then the runs at two addresses with the same low ten
  bits are shown to stay together on every block.
\<close>

definition twice :: "byte list" where
  "twice = [1, 1, 1, 1, 1, 1, 1, 1, 1, 1, 2, 3, 4, 1, 2, 3] @ replicate 70 0"

lemma twice_len: "length twice = 86"
  by (simp add: twice_def)

lemma twice_zero: "16 \<le> i \<Longrightarrow> i < 86 \<Longrightarrow> twice ! i = 0"
  by (simp add: twice_def nth_append)

lemma twice_nth: "twice ! 0 = 1" "twice ! Suc 0 = 1" "twice ! 2 = 1" "twice ! 3 = 1" "twice ! Suc (Suc 0) = 1" "twice ! Suc (Suc (Suc 0)) = 1" "twice ! 4 = 1" "twice ! 5 = 1" "twice ! 6 = 1" "twice ! 7 = 1" "twice ! 8 = 1"
  "twice ! 9 = 1" "twice ! 10 = 2" "twice ! 11 = 3" "twice ! 12 = 4" "twice ! 13 = 1" "twice ! 14 = 2" "twice ! 15 = 3"
  by (simp_all add: twice_def)

lemma twice_hash: "lz_hash 1 1 1 = 397" "lz_hash 2 3 4 = 37" "lz_hash 3 4 1 = 431" "lz_hash 4 1 2 = 794" "lz_hash 1 2 3 = 664" "lz_hash 2 3 0 = 33" "lz_hash 3 0 0 = 396" "lz_hash 0 0 0 = 0"
  by (simp_all add: lz_hash_def LEMPEL_SIZE_def Let_def)

lemma match_step: "mlen < 66 \<Longrightarrow> src + mlen < length s \<Longrightarrow> cpy + mlen < length s \<Longrightarrow> lz_match s src (int cpy) mlen =
   (if s ! (src + mlen) = s ! (cpy + mlen) then lz_match s src (int cpy) (Suc mlen) else Some mlen)"
  by (subst lz_match.simps) (simp add: lz_consts)

lemma match_first: "lz_match twice (Suc 0) 0 3 = Some 9"
  using match_step [of _ "Suc 0" twice 0] by (simp add: twice_len twice_nth)

lemma match_second: "lz_match twice 13 9 3 = Some 3"
  using match_step [of _ 13 twice 9] by (simp add: twice_len twice_nth twice_zero)

lemma match_full:
  assumes "\<forall>i<66. s ! (src + i) = s ! (cpy + i)" "src + 66 \<le> length s" "cpy + 66 \<le> length s" "mlen \<le> 66"
  shows "lz_match s src (int cpy) mlen = Some 66"
  using assms(4)
proof (induction "66 - mlen" arbitrary: mlen)
  case 0
  then show ?case by (subst lz_match.simps) (simp add: lz_consts)
next
  case (Suc k)
  then have "mlen < 66" by simp
  then show ?case using Suc assms(1-3) by (subst match_step) simp_all
qed

lemma match_zeros: "lz_match twice 17 16 3 = Some 66"
  using match_full [of twice 17 16 3] by (simp add: twice_len twice_zero)

definition packs :: "u64 \<Rightarrow> nat \<Rightarrow> nat \<Rightarrow> nat \<Rightarrow> u32 \<Rightarrow> (nat \<Rightarrow> u16) \<Rightarrow> nat \<Rightarrow> bool" where
  "packs base src dst copymap copymask lempel r \<longleftrightarrow>
     (\<forall>d. length d = 86 \<longrightarrow> (\<exists>d'. lzjb_loop base twice src dst copymap copymask lempel d = Some (r, d')))"

text \<open>One iteration: a group may start, and then a match or a literal is written.\<close>

definition next_group :: "nat \<Rightarrow> nat \<Rightarrow> u32 \<Rightarrow> u32 \<times> nat \<times> nat" where
  "next_group dst copymap copymask = (if copymask = 128 then (1, dst, Suc dst) else (push_bit 1 copymask, copymap, dst))"

lemma start_next:
  assumes "next_group dst copymap copymask = (mk, cm, dst')" "dst < 69" "length d = 86" "copymask \<in> {1, 2, 4, 8, 16, 32, 64, 128}"
  obtains d' where "lz_start dst copymap copymask d = Some (Inr (mk, cm, dst', d'))" "length d' = 86"
  using assms by (auto simp: next_group_def lz_start_def lz_consts Let_def split: if_splits)

lemma packs_literal:
  assumes "next_group dst copymap copymask = (mk, cm, dst')" "copymask \<in> {1, 2, 4, 8, 16, 32, 64, 128}" "dst < 69" "src < 86" "dst' < 86"
    "20 < src \<and> le = lempel \<or> src \<le> 20 \<and> lz_lookup base twice src lempel = Some (None, le)" "packs base (Suc src) (Suc dst') cm mk le r"
  shows "packs base src dst copymap copymask lempel r"
  unfolding packs_def
proof (intro allI impI)
  fix d :: "byte list"
  assume "length d = 86"
  then obtain d1 where d1: "lz_start dst copymap copymask d = Some (Inr (mk, cm, dst', d1))" "length d1 = 86"
    using start_next assms(1-3) by blast
  then have "lzjb_loop base twice src dst copymap copymask lempel d = lzjb_loop base twice (Suc src) (Suc dst') cm mk le (d1[dst' := twice ! src])"
    using assms(4-6) by (subst lzjb_loop.simps) (auto simp: twice_len lz_consts)
  then show "\<exists>d'. lzjb_loop base twice src dst copymap copymask lempel d = Some (r, d')" using assms(7) d1(2) by (simp add: packs_def)
qed

lemma packs_match:
  assumes "next_group dst copymap copymask = (mk, cm, dst')" "copymask \<in> {1, 2, 4, 8, 16, 32, 64, 128}" "dst < 69" "src \<le> 20" "Suc dst' < 86" "cm < 86"
    "lz_lookup base twice src lempel = Some (Some off, le)" "lz_match twice src (int src - int off) 3 = Some len" "packs base (src + len) (Suc (Suc dst')) cm mk le r"
  shows "packs base src dst copymap copymask lempel r"
  unfolding packs_def
proof (intro allI impI)
  fix d :: "byte list"
  assume "length d = 86"
  then obtain d1 where d1: "lz_start dst copymap copymask d = Some (Inr (mk, cm, dst', d1))" "length d1 = 86"
    using start_next assms(1-3) by blast
  then have "lzjb_loop base twice src dst copymap copymask lempel d = lzjb_loop base twice (src + len) (Suc (Suc dst')) cm mk le
      (d1[cm := d1 ! cm OR ucast mk, dst' := of_nat (push_bit 2 (len - 3) OR drop_bit 8 off), Suc dst' := of_nat off])"
    using assms(4-8) by (subst lzjb_loop.simps) (simp add: twice_len lz_consts)
  then show "\<exists>d'. lzjb_loop base twice src dst copymap copymask lempel d = Some (r, d')" using assms(9) d1(2) by (simp add: packs_def)
qed

lemma packs_end: "packs base 86 r copymap copymask lempel r"
  unfolding packs_def by (subst lzjb_loop.simps) (simp add: twice_len)

lemma ptr_get_twice: "0 \<le> p \<Longrightarrow> p < 86 \<Longrightarrow> ptr_get twice p = Some (twice ! nat p)"
  by (simp add: ptr_get_def buf_get_def twice_len nat_less_iff)

lemmas packs_simps = ptr_get_twice next_group_def lz_lookup_def Let_def lz_consts twice_len twice_nth twice_zero twice_hash match_first match_second match_zeros

lemma packs_at_4096: "packs 4096 0 0 0 128 (\<lambda>i. 0) 17"
proof -
  have s13: "packs 4096 86 17 10 16 ((\<lambda>i. 0)(397 := 4097, 37 := 4106, 431 := 4107, 794 := 4108, 664 := 4109, 33 := 4110, 396 := 4111, 0 := 4113)) 17" by (rule packs_end)
  have s12: "packs 4096 85 16 10 8 ((\<lambda>i. 0)(397 := 4097, 37 := 4106, 431 := 4107, 794 := 4108, 664 := 4109, 33 := 4110, 396 := 4111, 0 := 4113)) 17"
    by (rule packs_literal [where mk = 16 and cm = 10 and dst' = 16 and le = "(\<lambda>i. 0)(397 := 4097, 37 := 4106, 431 := 4107, 794 := 4108, 664 := 4109, 33 := 4110, 396 := 4111, 0 := 4113)"]) (use s13 in \<open>simp_all add: packs_simps\<close>)
  have s11: "packs 4096 84 15 10 4 ((\<lambda>i. 0)(397 := 4097, 37 := 4106, 431 := 4107, 794 := 4108, 664 := 4109, 33 := 4110, 396 := 4111, 0 := 4113)) 17"
    by (rule packs_literal [where mk = 8 and cm = 10 and dst' = 15 and le = "(\<lambda>i. 0)(397 := 4097, 37 := 4106, 431 := 4107, 794 := 4108, 664 := 4109, 33 := 4110, 396 := 4111, 0 := 4113)"]) (use s12 in \<open>simp_all add: packs_simps\<close>)
  have s10: "packs 4096 83 14 10 2 ((\<lambda>i. 0)(397 := 4097, 37 := 4106, 431 := 4107, 794 := 4108, 664 := 4109, 33 := 4110, 396 := 4111, 0 := 4113)) 17"
    by (rule packs_literal [where mk = 4 and cm = 10 and dst' = 14 and le = "(\<lambda>i. 0)(397 := 4097, 37 := 4106, 431 := 4107, 794 := 4108, 664 := 4109, 33 := 4110, 396 := 4111, 0 := 4113)"]) (use s11 in \<open>simp_all add: packs_simps\<close>)
  have s9: "packs 4096 17 12 10 1 ((\<lambda>i. 0)(397 := 4097, 37 := 4106, 431 := 4107, 794 := 4108, 664 := 4109, 33 := 4110, 396 := 4111, 0 := 4112)) 17"
    by (rule packs_match [where mk = 2 and cm = 10 and dst' = 12 and le = "(\<lambda>i. 0)(397 := 4097, 37 := 4106, 431 := 4107, 794 := 4108, 664 := 4109, 33 := 4110, 396 := 4111, 0 := 4113)" and off = 1 and len = 66]) (use s10 in \<open>simp_all add: packs_simps\<close>)
  have s8: "packs 4096 16 10 0 128 ((\<lambda>i. 0)(397 := 4097, 37 := 4106, 431 := 4107, 794 := 4108, 664 := 4109, 33 := 4110, 396 := 4111)) 17"
    by (rule packs_literal [where mk = 1 and cm = 10 and dst' = 11 and le = "(\<lambda>i. 0)(397 := 4097, 37 := 4106, 431 := 4107, 794 := 4108, 664 := 4109, 33 := 4110, 396 := 4111, 0 := 4112)"]) (use s9 in \<open>simp_all add: packs_simps\<close>)
  have s7: "packs 4096 15 9 0 64 ((\<lambda>i. 0)(397 := 4097, 37 := 4106, 431 := 4107, 794 := 4108, 664 := 4109, 33 := 4110)) 17"
    by (rule packs_literal [where mk = 128 and cm = 0 and dst' = 9 and le = "(\<lambda>i. 0)(397 := 4097, 37 := 4106, 431 := 4107, 794 := 4108, 664 := 4109, 33 := 4110, 396 := 4111)"]) (use s8 in \<open>simp_all add: packs_simps\<close>)
  have s6: "packs 4096 14 8 0 32 ((\<lambda>i. 0)(397 := 4097, 37 := 4106, 431 := 4107, 794 := 4108, 664 := 4109)) 17"
    by (rule packs_literal [where mk = 64 and cm = 0 and dst' = 8 and le = "(\<lambda>i. 0)(397 := 4097, 37 := 4106, 431 := 4107, 794 := 4108, 664 := 4109, 33 := 4110)"]) (use s7 in \<open>simp_all add: packs_simps\<close>)
  have s5: "packs 4096 13 7 0 16 ((\<lambda>i. 0)(397 := 4097, 37 := 4106, 431 := 4107, 794 := 4108)) 17"
    by (rule packs_literal [where mk = 32 and cm = 0 and dst' = 7 and le = "(\<lambda>i. 0)(397 := 4097, 37 := 4106, 431 := 4107, 794 := 4108, 664 := 4109)"]) (use s6 in \<open>simp_all add: packs_simps\<close>)
  have s4: "packs 4096 12 6 0 8 ((\<lambda>i. 0)(397 := 4097, 37 := 4106, 431 := 4107)) 17"
    by (rule packs_literal [where mk = 16 and cm = 0 and dst' = 6 and le = "(\<lambda>i. 0)(397 := 4097, 37 := 4106, 431 := 4107, 794 := 4108)"]) (use s5 in \<open>simp_all add: packs_simps\<close>)
  have s3: "packs 4096 11 5 0 4 ((\<lambda>i. 0)(397 := 4097, 37 := 4106)) 17"
    by (rule packs_literal [where mk = 8 and cm = 0 and dst' = 5 and le = "(\<lambda>i. 0)(397 := 4097, 37 := 4106, 431 := 4107)"]) (use s4 in \<open>simp_all add: packs_simps\<close>)
  have s2: "packs 4096 10 4 0 2 ((\<lambda>i. 0)(397 := 4097)) 17"
    by (rule packs_literal [where mk = 4 and cm = 0 and dst' = 4 and le = "(\<lambda>i. 0)(397 := 4097, 37 := 4106)"]) (use s3 in \<open>simp_all add: packs_simps\<close>)
  have s1: "packs 4096 1 2 0 1 ((\<lambda>i. 0)(397 := 4096)) 17"
    by (rule packs_match [where mk = 2 and cm = 0 and dst' = 2 and le = "(\<lambda>i. 0)(397 := 4097)" and off = 1 and len = 9]) (use s2 in \<open>simp_all add: packs_simps\<close>)
  show ?thesis
    by (rule packs_literal [where mk = 1 and cm = 0 and dst' = 1 and le = "(\<lambda>i. 0)(397 := 4096)"]) (use s1 [unfolded numeral_2_eq_2] in \<open>simp_all add: packs_simps\<close>)
qed

lemma packs_at_5111: "packs 5111 0 0 0 128 (\<lambda>i. 0) 16"
proof -
  have s11: "packs 5111 86 16 12 4 ((\<lambda>i. 0)(397 := 5112, 37 := 5121, 431 := 5122, 794 := 5123, 664 := 5124, 0 := 5128)) 16" by (rule packs_end)
  have s10: "packs 5111 85 15 12 2 ((\<lambda>i. 0)(397 := 5112, 37 := 5121, 431 := 5122, 794 := 5123, 664 := 5124, 0 := 5128)) 16"
    by (rule packs_literal [where mk = 4 and cm = 12 and dst' = 15 and le = "(\<lambda>i. 0)(397 := 5112, 37 := 5121, 431 := 5122, 794 := 5123, 664 := 5124, 0 := 5128)"]) (use s11 in \<open>simp_all add: packs_simps\<close>)
  have s9: "packs 5111 84 14 12 1 ((\<lambda>i. 0)(397 := 5112, 37 := 5121, 431 := 5122, 794 := 5123, 664 := 5124, 0 := 5128)) 16"
    by (rule packs_literal [where mk = 2 and cm = 12 and dst' = 14 and le = "(\<lambda>i. 0)(397 := 5112, 37 := 5121, 431 := 5122, 794 := 5123, 664 := 5124, 0 := 5128)"]) (use s10 in \<open>simp_all add: packs_simps\<close>)
  have s8: "packs 5111 83 12 0 128 ((\<lambda>i. 0)(397 := 5112, 37 := 5121, 431 := 5122, 794 := 5123, 664 := 5124, 0 := 5128)) 16"
    by (rule packs_literal [where mk = 1 and cm = 12 and dst' = 13 and le = "(\<lambda>i. 0)(397 := 5112, 37 := 5121, 431 := 5122, 794 := 5123, 664 := 5124, 0 := 5128)"]) (use s9 in \<open>simp_all add: packs_simps\<close>)
  have s7: "packs 5111 17 10 0 64 ((\<lambda>i. 0)(397 := 5112, 37 := 5121, 431 := 5122, 794 := 5123, 664 := 5124, 0 := 5127)) 16"
    by (rule packs_match [where mk = 128 and cm = 0 and dst' = 10 and le = "(\<lambda>i. 0)(397 := 5112, 37 := 5121, 431 := 5122, 794 := 5123, 664 := 5124, 0 := 5128)" and off = 1 and len = 66]) (use s8 in \<open>simp_all add: packs_simps\<close>)
  have s6: "packs 5111 16 9 0 32 ((\<lambda>i. 0)(397 := 5112, 37 := 5121, 431 := 5122, 794 := 5123, 664 := 5124)) 16"
    by (rule packs_literal [where mk = 64 and cm = 0 and dst' = 9 and le = "(\<lambda>i. 0)(397 := 5112, 37 := 5121, 431 := 5122, 794 := 5123, 664 := 5124, 0 := 5127)"]) (use s7 in \<open>simp_all add: packs_simps\<close>)
  have s5: "packs 5111 13 7 0 16 ((\<lambda>i. 0)(397 := 5112, 37 := 5121, 431 := 5122, 794 := 5123)) 16"
    by (rule packs_match [where mk = 32 and cm = 0 and dst' = 7 and le = "(\<lambda>i. 0)(397 := 5112, 37 := 5121, 431 := 5122, 794 := 5123, 664 := 5124)" and off = 4 and len = 3]) (use s6 in \<open>simp_all add: packs_simps\<close>)
  have s4: "packs 5111 12 6 0 8 ((\<lambda>i. 0)(397 := 5112, 37 := 5121, 431 := 5122)) 16"
    by (rule packs_literal [where mk = 16 and cm = 0 and dst' = 6 and le = "(\<lambda>i. 0)(397 := 5112, 37 := 5121, 431 := 5122, 794 := 5123)"]) (use s5 in \<open>simp_all add: packs_simps\<close>)
  have s3: "packs 5111 11 5 0 4 ((\<lambda>i. 0)(397 := 5112, 37 := 5121)) 16"
    by (rule packs_literal [where mk = 8 and cm = 0 and dst' = 5 and le = "(\<lambda>i. 0)(397 := 5112, 37 := 5121, 431 := 5122)"]) (use s4 in \<open>simp_all add: packs_simps\<close>)
  have s2: "packs 5111 10 4 0 2 ((\<lambda>i. 0)(397 := 5112)) 16"
    by (rule packs_literal [where mk = 4 and cm = 0 and dst' = 4 and le = "(\<lambda>i. 0)(397 := 5112, 37 := 5121)"]) (use s3 in \<open>simp_all add: packs_simps\<close>)
  have s1: "packs 5111 1 2 0 1 ((\<lambda>i. 0)(397 := 5111)) 16"
    by (rule packs_match [where mk = 2 and cm = 0 and dst' = 2 and le = "(\<lambda>i. 0)(397 := 5112)" and off = 1 and len = 9]) (use s2 in \<open>simp_all add: packs_simps\<close>)
  show ?thesis
    by (rule packs_literal [where mk = 1 and cm = 0 and dst' = 1 and le = "(\<lambda>i. 0)(397 := 5111)"]) (use s1 [unfolded numeral_2_eq_2] in \<open>simp_all add: packs_simps\<close>)
qed

section \<open>Addresses with the same low bits\<close>

text \<open>
  Only the low ten bits of addresses and of table entries are ever used, so two runs whose tables agree in
  them stay together.
\<close>

definition same_table :: "(nat \<Rightarrow> u16) \<Rightarrow> (nat \<Rightarrow> u16) \<Rightarrow> bool" where
  "same_table le le' \<longleftrightarrow> (\<forall>h. take_bit 10 (le h) = take_bit 10 (le' h))"

lemma take_bit_10_word:
  fixes a b :: u64
  shows "uint (take_bit 10 (a - b)) = take_bit 10 (uint (take_bit 10 a) - uint (take_bit 10 b))"
    "uint (take_bit 10 (a + b)) = take_bit 10 (uint (take_bit 10 a) + uint (take_bit 10 b))"
proof -
  have w: "uint (a - b) = take_bit 64 (uint a - uint b)" "uint (a + b) = take_bit 64 (uint a + uint b)"
    by (simp_all add: uint_word_ariths take_bit_eq_mod)
  show "uint (take_bit 10 (a - b)) = take_bit 10 (uint (take_bit 10 a) - uint (take_bit 10 b))"
    "uint (take_bit 10 (a + b)) = take_bit 10 (uint (take_bit 10 a) + uint (take_bit 10 b))"
    by (simp_all add: unsigned_take_bit_eq w take_bit_diff take_bit_add)
qed

lemma offset_cong:
  fixes a a' :: u64 and e e' :: u16
  assumes "take_bit 10 a = take_bit 10 a'" "take_bit 10 e = take_bit 10 e'"
  shows "unat (a - ucast e) AND OFFSET_MASK = unat (a' - ucast e') AND OFFSET_MASK"
proof -
  have low: "unat x AND OFFSET_MASK = unat (take_bit 10 x)" for x :: u64
  proof -
    have "take_bit 10 (unat x) = unat x AND 1023" by (simp add: take_bit_eq_mask mask_eq_exp_minus_1)
    then show ?thesis by (simp only: lz_consts unsigned_take_bit_eq)
  qed
  have up: "take_bit 10 (ucast z :: u64) = ucast (take_bit 10 z)" for z :: u16
    by (rule bit_word_eqI) (auto simp: bit_simps)
  have "uint (take_bit 10 (a - ucast e)) = uint (take_bit 10 (a' - ucast e'))"
    unfolding take_bit_10_word up assms ..
  then show ?thesis
    by (simp only: low word_uint_eq_iff [symmetric])
qed

lemma lookup_cong:
  assumes "lz_lookup base s src le = Some (cpy, l)" "take_bit 10 base = take_bit 10 base'" "same_table le le'"
  shows "\<exists>l'. lz_lookup base' s src le' = Some (cpy, l') \<and> same_table l l'"
proof -
  define addr where "addr = base + of_nat src"
  define addr' where "addr' = base' + of_nat src"
  have "uint (take_bit 10 addr) = uint (take_bit 10 addr')"
    unfolding addr_def addr'_def take_bit_10_word assms(2) ..
  then have addr: "take_bit 10 addr = take_bit 10 addr'"
    by (simp only: word_uint_eq_iff)
  have low: "take_bit 10 (ucast x :: u16) = ucast (take_bit 10 x)" for x :: u64
    by (rule bit_word_eqI) (auto simp: bit_simps)
  have tab: "same_table (le(h := ucast addr)) (le'(h := ucast addr'))" for h
    using assms(3) addr low by (simp add: same_table_def)
  have off: "unat (addr - ucast (le h)) AND OFFSET_MASK = unat (addr' - ucast (le' h)) AND OFFSET_MASK" for h
    using assms(3) addr by (intro offset_cong) (simp_all add: same_table_def)
  obtain a b c where abc: "buf_get s src = Some a" "buf_get s (src + 1) = Some b" "buf_get s (src + 2) = Some c"
    using assms(1) by (auto simp: lz_lookup_def bind_eq_Some_conv)
  define p where "p = int src - int (unat (addr - ucast (le (lz_hash a b c))) AND OFFSET_MASK)"
  define res where "res l = (if p \<ge> 0 \<and> p \<noteq> int src then
      Option.bind (ptr_get s p) (\<lambda>x. Option.bind (ptr_get s (p + 1)) (\<lambda>y. Option.bind (ptr_get s (p + 2)) (\<lambda>z.
        Some (if a = x \<and> b = y \<and> c = z then Some (unat (addr - ucast (le (lz_hash a b c))) AND OFFSET_MASK) else None, l))))
      else Some (None, l))" for l :: "nat \<Rightarrow> u16"
  have one: "lz_lookup base s src le = res (le(lz_hash a b c := ucast addr))"
    unfolding lz_lookup_def abc Option.bind.simps Let_def res_def p_def addr_def [symmetric] ..
  have two: "lz_lookup base' s src le' = res (le'(lz_hash a b c := ucast addr'))"
    unfolding lz_lookup_def abc Option.bind.simps Let_def res_def p_def addr'_def [symmetric] off ..
  have "l = le(lz_hash a b c := ucast addr)" and "res l' = Some (cpy, l')" for l'
    using assms(1) unfolding one by (auto simp: res_def bind_eq_Some_conv split: if_splits)
  then show ?thesis
    using two tab by simp
qed

lemma loop_cong:
  assumes "lzjb_loop base s src dst copymap copymask le d = Some x" "take_bit 10 base = take_bit 10 base'" "same_table le le'"
  shows "lzjb_loop base' s src dst copymap copymask le' d = Some x"
proof -
  let ?P = "\<lambda>b s src dst copymap copymask le d y. \<forall>le'. take_bit 10 b = take_bit 10 base' \<and> same_table le le' \<longrightarrow>
      lzjb_loop base' s src dst copymap copymask le' d = Some y"
  have "?P base s src dst copymap copymask le d x"
  proof (rule lzjb_loop.raw_induct [where P = ?P, OF _ assms(1)], intro allI impI, goal_cases)
    case (1 f b s src dst copymap copymask le d y le')
    show ?case
    proof (cases "src < length s")
      case False
      then show ?thesis using 1(2) by (subst lzjb_loop.simps) simp
    next
      case True
      then obtain st where st: "lz_start dst copymap copymask d = Some st" using 1(2) by (auto simp: bind_eq_Some_conv)
      show ?thesis
      proof (cases st)
        case (Inl u)
        then show ?thesis using 1(2) True st by (subst lzjb_loop.simps) simp
      next
        case (Inr q)
        obtain mk cm dst1 d1 where q: "q = (mk, cm, dst1, d1)" by (cases q) auto
        show ?thesis
        proof (cases "int src > int (length s) - int MATCH_MAX")
          case short: True
          then obtain c d2 where "buf_get s src = Some c" "buf_put d1 dst1 c = Some d2" "f b s (Suc src) (Suc dst1) cm mk le d2 = Some y"
            using 1(2) True st Inr q by (auto simp: bind_eq_Some_conv)
          then show ?thesis using 1(1,3) True st Inr q short by (subst lzjb_loop.simps) simp
        next
          case False
          then obtain cpy l where l: "lz_lookup b s src le = Some (cpy, l)"
            using 1(2) True st Inr q by (auto simp: bind_eq_Some_conv)
          then obtain l' where l': "lz_lookup base' s src le' = Some (cpy, l')" "same_table l l'"
            using lookup_cong 1(3) by blast
          note eqs = True st Inr q False l l'(1)
          show ?thesis
          proof (cases cpy)
            case None
            then obtain c d2 where "buf_get s src = Some c" "buf_put d1 dst1 c = Some d2" "f b s (Suc src) (Suc dst1) cm mk l d2 = Some y"
              using 1(2) eqs by (auto simp: bind_eq_Some_conv)
            then show ?thesis using 1(1,3) eqs None l'(2) by (subst lzjb_loop.simps) simp
          next
            case (Some off)
            then obtain m d2 mlen d3 d4 where "buf_get d1 cm = Some m" "buf_put d1 cm (m OR ucast mk) = Some d2"
              "lz_match s src (int src - int off) MATCH_MIN = Some mlen"
              "buf_put d2 dst1 (of_nat (push_bit (NBBY - MATCH_BITS) (mlen - MATCH_MIN) OR drop_bit NBBY off)) = Some d3"
              "buf_put d3 (Suc dst1) (of_nat off) = Some d4" "f b s (src + mlen) (Suc (Suc dst1)) cm mk l d4 = Some y"
              using 1(2) eqs by (auto simp: bind_eq_Some_conv)
            then show ?thesis using 1(1,3) eqs Some l'(2) by (subst lzjb_loop.simps) simp
          qed
        qed
      qed
    qed
  qed
  then show ?thesis using assms(2,3) by blast
qed

lemma compress_cong:
  assumes "base mod 1024 = base' mod 1024"
  shows "lzjb_compress base s d n = lzjb_compress base' s d n"
proof -
  have "take_bit 10 base = take_bit 10 base'"
    using assms by (simp add: take_bit_eq_mod)
  moreover obtain x where "lzjb_compress base s d n = Some x"
    using lzjb_roundtrip [of base s d n 0] by auto
  ultimately show ?thesis
    using loop_cong [of base s 0 0 0 "push_bit (NBBY - 1) 1" "\<lambda>i. 0" d x base' "\<lambda>i. 0"]
    by (simp add: lzjb_compress_def same_table_def)
qed

text \<open>
  C33. The compressed form of a block depends on where the block lies, and only on the low ten bits of its
  address.  Every block is compressed alike at addresses that agree modulo 1024, so identical blocks
  in buffers aligned to 1 KB give identical results; at other addresses they need not: there is a block of 86 bytes
  that becomes 17 bytes at every address of the class 0 and 16 bytes at every address of the class 1015, although the table is
  initialised ``to ensure deterministic results, so that identical blocks can always be deduplicated''.
\<close>

theorem lzjb_depends_on_address:
  "(\<forall>base base' s d n. base mod 1024 = base' mod 1024 \<longrightarrow> lzjb_compress base s d n = lzjb_compress base' s d n)
   \<and> (\<exists>s d. length s = 86 \<and> length d = 86 \<and> (\<forall>base base' n. base mod 1024 = 0 \<and> base' mod 1024 = 1015 \<longrightarrow>
        map_option fst (lzjb_compress base s d n) = Some 17 \<and> map_option fst (lzjb_compress base' s d n) = Some 16))"
proof (intro conjI allI impI exI)
  fix base base' :: u64 and n
  assume "base mod 1024 = 0 \<and> base' mod 1024 = 1015"
  then have res: "base mod 1024 = 4096 mod 1024" "base' mod 1024 = 5111 mod 1024"
    by (simp_all only:) simp_all
  have at: "lzjb_compress base twice (replicate 86 0) n = lzjb_compress 4096 twice (replicate 86 0) n"
    "lzjb_compress base' twice (replicate 86 0) n = lzjb_compress 5111 twice (replicate 86 0) n"
    by (rule compress_cong [OF res(1)], rule compress_cong [OF res(2)])
  show "map_option fst (lzjb_compress base twice (replicate 86 0) n) = Some 17"
    "map_option fst (lzjb_compress base' twice (replicate 86 0) n) = Some 16"
    unfolding at using packs_at_4096 packs_at_5111
    by (auto simp: packs_def lzjb_compress_def lz_consts dest: spec [of _ "replicate 86 0"])
qed (simp_all only: twice_len length_replicate, rule compress_cong)

theorem lzjb_depends_on_address_witness:
  "lzjb_compress 1024 [1, 2, 3] [0, 0, 0] 0 = lzjb_compress 8192 [1, 2, 3] [0, 0, 0] 0"
proof -
  have "(1024 :: u64) mod 1024 = 8192 mod 1024" by simp
  then show ?thesis using lzjb_depends_on_address by blast
qed

end
