(* ===== verification/Zle.thy ===== *)
theory Zle
  imports Prelude
begin

text \<open>
  Zero-length encoding (\<^verbatim>\<open>zfs/zle.c\<close>): the compressor and the decompressor over byte buffers, whose
  lengths are \<^verbatim>\<open>s_len\<close> and \<^verbatim>\<open>d_len\<close>, and that what the one writes the other reads back.
  Pointers are positions; a comparison of pointers that may lie before a buffer is one of integers.
\<close>

section \<open>Compression\<close>

text \<open>The run of zeros from \<open>src\<close>, up to \<open>limit\<close>.\<close>

function zle_zeros :: "byte list \<Rightarrow> int \<Rightarrow> nat \<Rightarrow> nat" where
  "zle_zeros s limit src = (if int src < limit \<and> s ! src = 0 then zle_zeros s limit (Suc src) else src)"
  by auto
termination
  by (relation "measure (\<lambda>(s, limit, src). nat (limit - int src))") auto

text \<open>Copying literals until the limit or two zeros.\<close>

function zle_literals :: "byte list \<Rightarrow> int \<Rightarrow> nat \<Rightarrow> nat \<Rightarrow> byte list \<Rightarrow> (nat \<times> nat \<times> byte list) option" where
  "zle_literals s limit src dst d =
     (if int src < limit - 1 \<and> s ! src OR s ! Suc src \<noteq> 0
      then Option.bind (buf_put d dst (s ! src)) (\<lambda>d. zle_literals s limit (Suc src) (Suc dst) d)
      else Some (src, dst, d))"
  by auto
termination
  by (relation "measure (\<lambda>(s, limit, src, dst, d). nat (limit - int src))") auto

declare zle_zeros.simps [simp del] zle_literals.simps [simp del]

partial_function (option) zle_loop :: "byte list \<Rightarrow> int \<Rightarrow> nat \<Rightarrow> nat \<Rightarrow> byte list \<Rightarrow> (nat \<times> nat \<times> byte list) option" where
  "zle_loop s n src dst d =
     (if src < length s \<and> int dst < int (length d) - 1 then
        (let first = src; len = dst; dst = Suc dst in
         if s ! src = 0 then
           (let src = zle_zeros s (min (int src + (256 - n)) (int (length s))) src
            in Option.bind (buf_put d len (of_int (int src - int first - 1 + n))) (zle_loop s n src dst))
         else if int (length d) - int dst < n then Some (src, dst, d)
         else
           Option.bind (zle_literals s (min (int src + n) (int (length s))) src dst d) (\<lambda>(src, dst, d).
           Option.bind (buf_get s src) (\<lambda>c.
           Option.bind (if c \<noteq> 0 then map_option (\<lambda>d. (Suc src, Suc dst, d)) (buf_put d dst c) else Some (src, dst, d)) (\<lambda>(src, dst, d).
           Option.bind (buf_put d len (of_int (int src - int first - 1))) (zle_loop s n src dst)))))
      else Some (src, dst, d))"

declare zle_loop.simps [code]

definition zle_compress :: "byte list \<Rightarrow> byte list \<Rightarrow> int \<Rightarrow> (nat \<times> byte list) option" where
  "zle_compress s d n =
     Option.bind (zle_loop s n 0 0 d) (\<lambda>(src, dst, d). Some (if src = length s then dst else length s, d))"

section \<open>Decompression\<close>

fun zle_copy :: "nat \<Rightarrow> byte list \<Rightarrow> nat \<Rightarrow> nat \<Rightarrow> byte list \<Rightarrow> (nat \<times> nat \<times> byte list) option" where
  "zle_copy 0 s src dst d = Some (src, dst, d)"
| "zle_copy (Suc len) s src dst d =
     Option.bind (buf_get s src) (\<lambda>c. Option.bind (buf_put d dst c) (\<lambda>d. zle_copy len s (Suc src) (Suc dst) d))"

fun zle_fill :: "nat \<Rightarrow> nat \<Rightarrow> byte list \<Rightarrow> (nat \<times> byte list) option" where
  "zle_fill 0 dst d = Some (dst, d)"
| "zle_fill (Suc len) dst d = Option.bind (buf_put d dst 0) (\<lambda>d. zle_fill len (Suc dst) d)"

partial_function (option) zle_unloop :: "byte list \<Rightarrow> int \<Rightarrow> nat \<Rightarrow> nat \<Rightarrow> byte list \<Rightarrow> (nat \<times> byte list) option" where
  "zle_unloop s n src dst d =
     (if src < length s \<and> dst < length d then
        (let len = 1 + uint (s ! src); src = Suc src in
         if len \<le> n then Option.bind (zle_copy (nat len) s src dst d) (\<lambda>(src, dst, d). zle_unloop s n src dst d)
         else Option.bind (zle_fill (nat (len - n)) dst d) (\<lambda>(dst, d). zle_unloop s n src dst d))
      else Some (dst, d))"

declare zle_unloop.simps [code]

definition zle_decompress :: "byte list \<Rightarrow> byte list \<Rightarrow> int \<Rightarrow> (int \<times> byte list) option" where
  "zle_decompress s d n =
     Option.bind (zle_unloop s n 0 0 d) (\<lambda>(dst, d). Some (if dst = length d then 0 else - 1, d))"

section \<open>Chunks\<close>

text \<open>
  \<open>zle_chunk n ch xs\<close>: the bytes \<open>ch\<close> are one chunk for \<open>xs\<close>, and \<open>zle_stream n c xs\<close>: the bytes \<open>c\<close>
  are a sequence of chunks for \<open>xs\<close>.
\<close>

inductive zle_chunk :: "int \<Rightarrow> byte list \<Rightarrow> byte list \<Rightarrow> bool" for n where
  zeros: "0 < k \<Longrightarrow> int k \<le> 256 - n \<Longrightarrow> zle_chunk n [of_int (int k - 1 + n)] (replicate k 0)"
| literals: "xs \<noteq> [] \<Longrightarrow> int (length xs) \<le> n \<Longrightarrow> zle_chunk n (of_int (int (length xs) - 1) # xs) xs"

inductive zle_stream :: "int \<Rightarrow> byte list \<Rightarrow> byte list \<Rightarrow> bool" for n where
  empty: "zle_stream n [] []"
| chunk: "zle_chunk n ch xs \<Longrightarrow> zle_stream n c ys \<Longrightarrow> zle_stream n (ch @ c) (xs @ ys)"

lemma zle_stream_snoc: "zle_stream n c xs \<Longrightarrow> zle_chunk n ch ys \<Longrightarrow> zle_stream n (c @ ch) (xs @ ys)"
proof (induction rule: zle_stream.induct)
  case empty
  then show ?case using zle_stream.chunk [OF _ zle_stream.empty] by force
next
  case (chunk ch' xs c ys')
  then show ?case using zle_stream.chunk [OF chunk(1)] by force
qed

subsection \<open>What the compressor writes\<close>

lemma zle_zeros_ok:
  "\<exists>k. zle_zeros s limit src = src + k \<and> (\<forall>i<k. s ! (src + i) = 0) \<and> int (src + k) \<le> max limit (int src) \<and>
    (int src < limit \<and> s ! src = 0 \<longrightarrow> 0 < k)"
proof (induction s limit src rule: zle_zeros.induct)
  case (1 s limit src)
  show ?case
  proof (cases "int src < limit \<and> s ! src = 0")
    case True
    then have eq: "zle_zeros s limit src = zle_zeros s limit (Suc src)" by (subst zle_zeros.simps) simp
    obtain k where k: "zle_zeros s limit (Suc src) = Suc src + k" "\<forall>i<k. s ! (Suc src + i) = 0"
      "int (Suc src + k) \<le> max limit (int (Suc src))"
      using "1.IH" [OF True] by blast
    have "\<forall>i<Suc k. s ! (src + i) = 0" using k(2) True by (auto simp: less_Suc_eq_0_disj)
    then show ?thesis using eq k(1,3) True by (intro exI [of _ "Suc k"]) simp
  next
    case False
    then have "zle_zeros s limit src = src" by (subst zle_zeros.simps) auto
    then show ?thesis using False by (intro exI [of _ 0]) auto
  qed
qed

lemma zle_literals_ok:
  assumes "limit \<le> int (length s)" "int dst + (limit - 1 - int src) \<le> int (length d)"
  shows "\<exists>k d'. zle_literals s limit src dst d = Some (src + k, dst + k, d') \<and> length d' = length d \<and>
    take (dst + k) d' = take dst d @ take k (drop src s) \<and> int (src + k) \<le> max (limit - 1) (int src)"
  using assms
proof (induction s limit src dst d rule: zle_literals.induct)
  case (1 s limit src dst d)
  show ?case
  proof (cases "int src < limit - 1 \<and> s ! src OR s ! Suc src \<noteq> 0")
    case True
    let ?d = "d[dst := s ! src]"
    have dst: "dst < length d" and src: "src < length s" using True "1.prems" by linarith+
    then have eq: "zle_literals s limit src dst d = zle_literals s limit (Suc src) (Suc dst) ?d"
      using True by (subst zle_literals.simps) simp
    have "int (Suc dst) + (limit - 1 - int (Suc src)) \<le> int (length ?d)" using "1.prems"(2) by simp
    then obtain k d' where k: "zle_literals s limit (Suc src) (Suc dst) ?d = Some (Suc src + k, Suc dst + k, d')" "length d' = length ?d"
      "take (Suc dst + k) d' = take (Suc dst) ?d @ take k (drop (Suc src) s)" "int (Suc src + k) \<le> max (limit - 1) (int (Suc src))"
      using "1.IH" [OF True buf_simps(2) [OF dst] "1.prems"(1)] by blast
    have "take (Suc k) (drop src s) = s ! src # take k (drop (Suc src) s)" using src by (simp add: Cons_nth_drop_Suc [symmetric])
    then show ?thesis using eq k dst True by (intro exI [of _ "Suc k"] exI [of _ d']) (simp add: take_Suc_put)
  next
    case False
    then have "zle_literals s limit src dst d = Some (src, dst, d)" by (subst zle_literals.simps) auto
    then show ?thesis using False by (intro exI [of _ 0] exI [of _ d]) auto
  qed
qed

lemma put_before:
  assumes "take (Suc i + k) e = take (Suc i) d @ xs" "length e = length d" "i < length d"
  shows "take (Suc i + k) (e[i := v]) = take i d @ v # xs"
proof -
  have "take (Suc i + k) (e[i := v]) = (take (Suc i) d @ xs)[i := v]" using assms(1) by (simp only: take_update_swap)
  then show ?thesis using assms(3) by (simp add: take_Suc_conv_app_nth list_update_append)
qed

lemma zle_loop_step:
  assumes "0 < n" "n < 256" "src < length s" "int dst < int (length d) - 1"
  shows "zle_loop s n src dst d = Some (src, Suc dst, d) \<or>
    (\<exists>k ch d'. 0 < k \<and> src + k \<le> length s \<and> zle_chunk n ch (take k (drop src s)) \<and>
       zle_loop s n src dst d = zle_loop s n (src + k) (dst + length ch) d' \<and> length d' = length d \<and>
       dst + length ch \<le> length d \<and> take (dst + length ch) d' = take dst d @ ch)"
proof (cases "s ! src = 0")
  case True
  let ?l = "min (int src + (256 - n)) (int (length s))"
  obtain k where k: "zle_zeros s ?l src = src + k" "\<forall>i<k. s ! (src + i) = 0" "int (src + k) \<le> max ?l (int src)" "0 < k"
    using zle_zeros_ok [of s ?l src] True assms(2,3) by auto
  have le: "int k \<le> 256 - n" "src + k \<le> length s" using k(3,4) assms(2,3) by linarith+
  have "take k (drop src s) = replicate k 0" using k(2) le(2) by (intro nth_equalityI) auto
  then have "zle_chunk n [of_int (int k - 1 + n)] (take k (drop src s))" using zle_chunk.zeros [OF k(4) le(1)] by simp
  moreover have "zle_loop s n src dst d = zle_loop s n (src + k) (Suc dst) (d[dst := of_int (int k - 1 + n)])"
    using True assms(3,4) k(1) by (subst zle_loop.simps) (simp add: Let_def)
  ultimately show ?thesis using k(4) le(2) assms(4)
    by (intro disjI2 exI [of _ k] exI [of _ "[of_int (int k - 1 + n)]"] exI [of _ "d[dst := of_int (int k - 1 + n)]"]) (simp add: take_Suc_put)
next
  case False
  show ?thesis
  proof (cases "int (length d) - int (Suc dst) < n")
    case True
    then show ?thesis using False assms(3,4) by (intro disjI1) (subst zle_loop.simps, simp add: Let_def)
  next
    case room: False
    let ?l = "min (int src + n) (int (length s))"
    have "int (Suc dst) + (?l - 1 - int src) \<le> int (length d)" using room by linarith
    then obtain j d1 where j: "zle_literals s ?l src (Suc dst) d = Some (src + j, Suc dst + j, d1)" "length d1 = length d"
      "take (Suc dst + j) d1 = take (Suc dst) d @ take j (drop src s)" "int (src + j) \<le> max (?l - 1) (int src)"
      using zle_literals_ok [of ?l s "Suc dst" src d] by auto
    have le: "src + j < length s" "int j < n" using j(4) assms(1,3) by linarith+
    let ?c = "s ! (src + j)"
    define k where "k = (if ?c = 0 then j else Suc j)"
    define d2 where "d2 = (if ?c = 0 then d1 else d1[Suc dst + j := ?c])"
    define d3 where "d3 = d2[dst := of_int (int k - 1)]"
    have put: "Suc dst + j < length d1" using room le(2) j(2) by linarith
    have k: "0 < k" "src + k \<le> length s" "int k \<le> n" using le False by (auto simp: k_def intro: gr0I)
    have d2: "length d2 = length d" "take (Suc dst + k) d2 = take (Suc dst) d @ take k (drop src s)"
    proof -
      show "length d2 = length d" using j(2) by (simp add: d2_def)
      have "take (Suc dst + Suc j) (d1[Suc dst + j := ?c]) = take (Suc dst + j) d1 @ [?c]" using take_Suc_put [OF put] by simp
      moreover have "take (Suc j) (drop src s) = take j (drop src s) @ [?c]" using le(1) by (simp add: take_Suc_conv_app_nth)
      ultimately show "take (Suc dst + k) d2 = take (Suc dst) d @ take k (drop src s)" using j(3) by (simp add: k_def d2_def)
    qed
    let ?ch = "of_int (int k - 1) # take k (drop src s)"
    have len: "length (take k (drop src s)) = k" using k(2) by simp
    have "zle_chunk n ?ch (take k (drop src s))"
      using zle_chunk.literals [of "take k (drop src s)" n] len k(1,3) by (metis length_0_conv less_not_refl)
    moreover have "zle_loop s n src dst d = zle_loop s n (src + k) (Suc dst + k) d3"
      using False room assms(3,4) j(1,2) le(1) put unfolding k_def d2_def d3_def
      by (subst zle_loop.simps) (cases "?c = 0"; simp add: Let_def)
    moreover have "take (Suc dst + k) d3 = take dst d @ ?ch" unfolding d3_def using put_before [OF d2(2,1)] assms(4) by simp
    moreover have "Suc dst + k \<le> length d" using room k(3) by linarith
    ultimately show ?thesis using k(1,2) d2(1) len
      by (intro disjI2 exI [of _ k] exI [of _ ?ch] exI [of _ d3]) (simp add: d3_def)
  qed
qed

lemma zle_loop_ok:
  assumes "0 < n" "n < 256" "src \<le> length s" "dst \<le> length d" "zle_stream n (take dst d) (take src s)"
  shows "\<exists>src' dst' d'. zle_loop s n src dst d = Some (src', dst', d') \<and> length d' = length d \<and> dst' \<le> length d \<and>
    (src' = length s \<longrightarrow> zle_stream n (take dst' d') s)"
  using assms(3-5)
proof (induction "length s - src" arbitrary: src dst d rule: less_induct)
  case less
  show ?case
  proof (cases "src < length s \<and> int dst < int (length d) - 1")
    case False
    then have "zle_loop s n src dst d = Some (src, dst, d)" by (subst zle_loop.simps) auto
    then show ?thesis using less.prems by auto
  next
    case True
    then consider "zle_loop s n src dst d = Some (src, Suc dst, d)"
      | k ch d' where "0 < k" "src + k \<le> length s" "zle_chunk n ch (take k (drop src s))"
        "zle_loop s n src dst d = zle_loop s n (src + k) (dst + length ch) d'" "length d' = length d"
        "dst + length ch \<le> length d" "take (dst + length ch) d' = take dst d @ ch"
      using zle_loop_step [OF assms(1,2)] by blast
    then show ?thesis
    proof cases
      case 1
      then show ?thesis using True by simp
    next
      case 2
      have "zle_stream n (take (dst + length ch) d') (take (src + k) s)"
        using zle_stream_snoc [OF less.prems(3) 2(3)] 2(7) by (simp add: take_add)
      then show ?thesis using less.hyps [of "src + k" "dst + length ch" d'] 2 True by simp
    qed
  qed
qed

subsection \<open>What the decompressor reads\<close>

lemma zle_copy_ok:
  "src + length xs \<le> length s \<Longrightarrow> take (length xs) (drop src s) = xs \<Longrightarrow> dst + length xs \<le> length d \<Longrightarrow>
    zle_copy (length xs) s src dst d = Some (src + length xs, dst + length xs, take dst d @ xs @ drop (dst + length xs) d)"
proof (induction xs arbitrary: src dst d)
  case (Cons x xs)
  have src: "src < length s" "dst < length d" using Cons.prems by simp_all
  then have "drop src s = s ! src # drop (Suc src) s" by (simp add: Cons_nth_drop_Suc)
  then have x: "s ! src = x" "take (length xs) (drop (Suc src) s) = xs" using Cons.prems(2) by simp_all
  have "take (Suc dst) (d[dst := x]) @ xs @ drop (Suc dst + length xs) (d[dst := x]) = take dst d @ (x # xs) @ drop (dst + length (x # xs)) d"
    using src(2) by (simp add: take_Suc_put)
  then show ?case using Cons.IH [of "Suc src" "Suc dst" "d[dst := x]"] Cons.prems src x by simp
qed simp

lemma zle_fill_ok:
  "dst + k \<le> length d \<Longrightarrow> zle_fill k dst d = Some (dst + k, take dst d @ replicate k 0 @ drop (dst + k) d)"
proof (induction k arbitrary: dst d)
  case (Suc k)
  then have "take (Suc dst) (d[dst := 0]) = take dst d @ [0]" by (simp add: take_Suc_put)
  then show ?case using Suc.IH [of "Suc dst" "d[dst := 0]"] Suc.prems by simp
qed simp

lemma uint_byte: "0 \<le> x \<Longrightarrow> x < 256 \<Longrightarrow> uint (of_int x :: byte) = x"
  by (simp add: uint_word_of_int)

lemma zle_unloop_chunk:
  assumes "zle_chunk n ch xs" "0 < n" "n < 256" "s = pre @ ch @ rest" "dst + length xs \<le> length d"
  shows "zle_unloop s n (length pre) dst d =
    zle_unloop s n (length pre + length ch) (dst + length xs) (take dst d @ xs @ drop (dst + length xs) d)"
  using assms(1)
proof cases
  case (zeros k)
  have v: "uint (of_int (int k - 1 + n) :: byte) = int k - 1 + n" using zeros(3,4) assms(2) by (intro uint_byte) simp_all
  have "s ! length pre = of_int (int k - 1 + n)" using assms(4) zeros(1) by simp
  moreover have "length pre < length s" "dst < length d" using assms(4,5) zeros by simp_all
  ultimately show ?thesis using v zeros assms(5) zle_fill_ok [of dst k d] by (subst zle_unloop.simps) (simp add: Let_def)
next
  case literals
  have v: "uint (of_int (int (length xs) - 1) :: byte) = int (length xs) - 1"
    using literals(2,3) assms(3) by (intro uint_byte) (cases xs; simp)+
  have "s ! length pre = of_int (int (length xs) - 1)" using assms(4) literals(1) by simp
  moreover have "length pre < length s" "dst < length d" using assms(4,5) literals by (cases xs; simp)+
  moreover have "zle_copy (length xs) s (Suc (length pre)) dst d = Some (Suc (length pre) + length xs, dst + length xs, take dst d @ xs @ drop (dst + length xs) d)"
    using assms(4,5) literals(1) by (intro zle_copy_ok) simp_all
  ultimately show ?thesis using v literals by (subst zle_unloop.simps) (simp add: Let_def)
qed

lemma zle_unloop_stream:
  assumes "zle_stream n c xs" "0 < n" "n < 256" "s = pre @ c @ pad" "dst + length xs = length d"
  shows "zle_unloop s n (length pre) dst d = Some (length d, take dst d @ xs)"
  using assms(1,4,5)
proof (induction arbitrary: pre dst d rule: zle_stream.induct)
  case empty
  then show ?case by (subst zle_unloop.simps) simp
next
  case (chunk ch xs c ys)
  let ?d = "take dst d @ xs @ drop (dst + length xs) d"
  have "zle_unloop s n (length pre) dst d = zle_unloop s n (length (pre @ ch)) (dst + length xs) ?d"
    using zle_unloop_chunk [OF chunk(1) assms(2,3), of s pre "c @ pad" dst d] chunk.prems by simp
  also have "\<dots> = Some (length ?d, take (dst + length xs) ?d @ ys)" using chunk.prems by (intro chunk.IH) simp_all
  finally show ?case using chunk.prems by simp
qed

text \<open>The compressor always returns, and unless it gives up what it wrote is read back, whatever follows it.\<close>

lemma zle_roundtrip:
  assumes "0 < n" "n < 256"
  shows "\<exists>r d'. zle_compress s d n = Some (r, d') \<and> length d' = length d \<and>
    (r = length s \<or> 0 < r \<and> r \<le> length d \<and> (\<forall>pad buf. length buf = length s \<longrightarrow> zle_decompress (take r d' @ pad) buf n = Some (0, s)))"
proof -
  obtain src' dst' d' where c: "zle_loop s n 0 0 d = Some (src', dst', d')" "length d' = length d" "dst' \<le> length d"
    "src' = length s \<longrightarrow> zle_stream n (take dst' d') s"
    using zle_loop_ok [OF assms, of 0 s 0 d] by (auto intro: zle_stream.empty)
  have "zle_decompress (take dst' d' @ pad) buf n = Some (0, s)" if "src' = length s" "length buf = length s" for pad buf
    using zle_unloop_stream [OF _ assms, of "take dst' d'" s "take dst' d' @ pad" "[]" pad 0 buf] c(4) that by (simp add: zle_decompress_def)
  moreover have "s = []" if "zle_stream n [] s" using that by cases (auto elim: zle_chunk.cases)
  ultimately show ?thesis using c by (auto simp: zle_compress_def)
qed

end
