(* ===== verification/ZioCompress.thy ===== *)
theory ZioCompress
  imports Sysmacros Zle Lzjb
begin

text \<open>
  The compression of blocks (\<^verbatim>\<open>zfs/zio_compress.c\<close>) on top of the compressors: the table of algorithms, the
  choice among them, compression with its padding to whole sectors, and decompression.  Gzip and LZ4 are arguments of the table.  The
  locale \<open>zio_codec\<close> states what the dispatcher relies on, and is interpreted for LZJB and ZLE.
\<close>

section \<open>The table\<close>

record zio_compress_info =
  ci_compress :: "(u64 \<Rightarrow> byte list \<Rightarrow> byte list \<Rightarrow> int \<Rightarrow> (nat \<times> byte list) option) option"
  ci_decompress :: "(byte list \<Rightarrow> byte list \<Rightarrow> int \<Rightarrow> (int \<times> byte list) option) option"
  ci_level :: int
  ci_name :: string

definition ZIO_COMPRESS_INHERIT :: nat where "ZIO_COMPRESS_INHERIT = 0"
definition ZIO_COMPRESS_ON :: nat where "ZIO_COMPRESS_ON = 1"
definition ZIO_COMPRESS_LZJB :: nat where "ZIO_COMPRESS_LZJB = 3"
definition ZIO_COMPRESS_EMPTY :: nat where "ZIO_COMPRESS_EMPTY = 4"
definition ZIO_COMPRESS_ZLE :: nat where "ZIO_COMPRESS_ZLE = 14"
definition ZIO_COMPRESS_FUNCTIONS :: nat where "ZIO_COMPRESS_FUNCTIONS = 16"
definition ZIO_COMPRESS_ON_VALUE :: nat where "ZIO_COMPRESS_ON_VALUE = ZIO_COMPRESS_LZJB"

definition no_codec :: "string \<Rightarrow> zio_compress_info" where
  "no_codec name = \<lparr>ci_compress = None, ci_decompress = None, ci_level = 0, ci_name = name\<rparr>"

definition zio_compress_table :: "zio_compress_info \<Rightarrow> zio_compress_info \<Rightarrow> zio_compress_info list" where
  "zio_compress_table gzip lz4 =
     [no_codec ''inherit'', no_codec ''on'', no_codec ''uncompressed'',
      \<lparr>ci_compress = Some lzjb_compress, ci_decompress = Some lzjb_decompress, ci_level = 0, ci_name = ''lzjb''\<rparr>,
      no_codec ''empty'',
      gzip\<lparr>ci_level := 1, ci_name := ''gzip-1''\<rparr>, gzip\<lparr>ci_level := 2, ci_name := ''gzip-2''\<rparr>, gzip\<lparr>ci_level := 3, ci_name := ''gzip-3''\<rparr>,
      gzip\<lparr>ci_level := 4, ci_name := ''gzip-4''\<rparr>, gzip\<lparr>ci_level := 5, ci_name := ''gzip-5''\<rparr>, gzip\<lparr>ci_level := 6, ci_name := ''gzip-6''\<rparr>,
      gzip\<lparr>ci_level := 7, ci_name := ''gzip-7''\<rparr>, gzip\<lparr>ci_level := 8, ci_name := ''gzip-8''\<rparr>, gzip\<lparr>ci_level := 9, ci_name := ''gzip-9''\<rparr>,
      \<lparr>ci_compress = Some (\<lambda>base. zle_compress), ci_decompress = Some zle_decompress, ci_level = 64, ci_name = ''zle''\<rparr>,
      lz4\<lparr>ci_level := 0, ci_name := ''lz4''\<rparr>]"

section \<open>Compressing and decompressing blocks\<close>

definition zio_compress_select :: "nat \<Rightarrow> nat \<Rightarrow> nat option" where
  "zio_compress_select child parent =
     require (child < ZIO_COMPRESS_FUNCTIONS \<and> parent < ZIO_COMPRESS_FUNCTIONS \<and>
              parent \<noteq> ZIO_COMPRESS_INHERIT \<and> parent \<noteq> ZIO_COMPRESS_ON)
       (Some (if child = ZIO_COMPRESS_INHERIT then parent
              else if child = ZIO_COMPRESS_ON then ZIO_COMPRESS_ON_VALUE
              else child))"

definition SPA_MINBLOCKSIZE :: u64 where
  "SPA_MINBLOCKSIZE = push_bit 9 1"

text \<open>The first word that is not zero, from \<open>word\<close> on, or the end; words are read whole.\<close>

function zero_scan :: "byte list \<Rightarrow> nat \<Rightarrow> nat option" where
  "zero_scan s word =
     (if word < length s then
        require (word + 8 \<le> length s)
          (if take 8 (drop word s) \<noteq> replicate 8 0 then Some word else zero_scan s (word + 8))
      else Some word)"
  by auto
termination
  by (relation "measure (\<lambda>(s, word). length s - word)") auto

declare zero_scan.simps [simp del]

definition bzero :: "byte list \<Rightarrow> nat \<Rightarrow> nat \<Rightarrow> byte list option" where
  "bzero b i k = require (i + k \<le> length b) (Some (take i b @ replicate k 0 @ drop (i + k) b))"

definition compress_room :: "byte list \<Rightarrow> nat" where
  "compress_room s = (let s_len = of_nat (length s) in unat (P2ALIGN (s_len - drop_bit 3 s_len) SPA_MINBLOCKSIZE))"

definition zio_compress_data :: "zio_compress_info list \<Rightarrow> nat \<Rightarrow> u64 \<Rightarrow> byte list \<Rightarrow> byte list \<Rightarrow> (nat \<times> byte list) option" where
  "zio_compress_data table c base s dst =
     require (c < ZIO_COMPRESS_FUNCTIONS \<and> (c = ZIO_COMPRESS_EMPTY \<or> ci_compress (table ! c) \<noteq> None))
       (Option.bind (zero_scan s 0) (\<lambda>word.
          if word = length s then Some (0, dst)
          else if c = ZIO_COMPRESS_EMPTY then Some (length s, dst)
          else
            (let d_len = compress_room s in
             if d_len = 0 then Some (length s, dst)
             else
               require (d_len \<le> length dst)
                 (Option.bind (ci_compress (table ! c)) (\<lambda>f.
                  Option.bind (f base s (take d_len dst) (ci_level (table ! c))) (\<lambda>(c_len, d).
                    let dst = d @ drop d_len dst in
                    if c_len > d_len then Some (length s, dst)
                    else
                      (let r_len = unat (P2ROUNDUP (of_nat c_len) SPA_MINBLOCKSIZE) in
                       Option.bind (if r_len > c_len then map_option (\<lambda>dst. (r_len, dst)) (bzero dst c_len (r_len - c_len)) else Some (c_len, dst))
                         (\<lambda>(c_len, dst).
                            require (c_len \<le> d_len \<and> P2PHASE (of_nat c_len) SPA_MINBLOCKSIZE = 0) (Some (c_len, dst))))))))))"

definition EINVAL :: int where
  "EINVAL = 22"

definition zio_decompress_data :: "zio_compress_info list \<Rightarrow> nat \<Rightarrow> byte list \<Rightarrow> byte list \<Rightarrow> (int \<times> byte list) option" where
  "zio_decompress_data table c s d =
     (if c \<ge> ZIO_COMPRESS_FUNCTIONS then Some (EINVAL, d)
      else
        case ci_decompress (table ! c) of
          None \<Rightarrow> Some (EINVAL, d)
        | Some f \<Rightarrow> f s d (ci_level (table ! c)))"

end
