(* ===== verification/ZioCompressProps.thy ===== *)
theory ZioCompressProps
  imports ZioCompress
begin

text \<open>
  What the compression of blocks promises, for every codec that keeps the contract \<open>zio_codec\<close>, and its two
  interpretations.
\<close>

section \<open>The scan and the room\<close>

lemma zero_scan_ok:
  assumes "8 dvd length s" "8 dvd word" "word \<le> length s"
  shows "\<exists>w. zero_scan s word = Some w \<and> (w = length s \<longrightarrow> drop word s = replicate (length s - word) 0)"
  using assms
proof (induction s word rule: zero_scan.induct)
  case (1 s word)
  show ?case
  proof (cases "word < length s")
    case True
    have "8 dvd length s - word" using "1.prems" by (intro dvd_diff_nat)
    then have le: "word + 8 \<le> length s" using True by (auto dest: dvd_imp_le)
    show ?thesis
    proof (cases "take 8 (drop word s) = replicate 8 0")
      case z: True
      have "8 dvd word + 8" using "1.prems"(2) by simp
      then obtain w where w: "zero_scan s (word + 8) = Some w" "w = length s \<longrightarrow> drop (word + 8) s = replicate (length s - (word + 8)) 0"
        using "1.IH" True le z "1.prems"(1) by auto
      have "drop word s = take 8 (drop word s) @ drop (word + 8) s" by (metis append_take_drop_id drop_drop add.commute)
      moreover have "replicate (length s - word) (0 :: byte) = replicate 8 0 @ replicate (length s - (word + 8)) 0"
        using le by (simp flip: replicate_add)
      ultimately have "w = length s \<longrightarrow> drop word s = replicate (length s - word) 0" using w(2) z by simp
      moreover have "zero_scan s word = Some w" using w(1) True le z by (subst zero_scan.simps) simp
      ultimately show ?thesis by blast
    next
      case False
      then have "zero_scan s word = Some word" using True le by (subst zero_scan.simps) simp
      then show ?thesis using True by simp
    qed
  next
    case False
    then have "zero_scan s word = Some word" by (subst zero_scan.simps) simp
    then show ?thesis using False "1.prems"(3) by simp
  qed
qed

lemma minblock: "SPA_MINBLOCKSIZE = 2 ^ 9"
  by (simp add: SPA_MINBLOCKSIZE_def)

lemma compress_room_ok:
  assumes "length s < 2 ^ 63"
  shows "512 dvd compress_room s" "compress_room s \<le> length s - length s div 8"
proof -
  let ?n = "of_nat (length s) :: u64"
  have n: "unat ?n = length s" using assms by (simp add: unsigned_of_nat take_bit_nat_eq_self)
  have d: "unat (drop_bit 3 ?n) = length s div 8" using n unat_drop_bit [of 3 ?n] by simp
  then have "drop_bit 3 ?n \<le> ?n" using n by (simp add: word_le_nat_alt)
  then have "unat (?n - drop_bit 3 ?n) = length s - length s div 8" using n d by (simp add: unat_sub)
  then have r: "compress_room s = (length s - length s div 8) div 512 * 512"
    unfolding compress_room_def Let_def minblock P2ALIGN_ok by simp
  show "512 dvd compress_room s" "compress_room s \<le> length s - length s div 8" unfolding r by simp_all
qed

lemma padded_ok:
  assumes "c_len \<le> d_len" "512 dvd d_len" "d_len < 2 ^ 63"
  shows "c_len \<le> unat (P2ROUNDUP (of_nat c_len) SPA_MINBLOCKSIZE)" "unat (P2ROUNDUP (of_nat c_len) SPA_MINBLOCKSIZE) \<le> d_len"
    "512 dvd unat (P2ROUNDUP (of_nat c_len) SPA_MINBLOCKSIZE)"
proof -
  have c: "unat (of_nat c_len :: u64) = c_len" using assms by (simp add: unsigned_of_nat take_bit_nat_eq_self)
  then have "unat (of_nat c_len :: u64) + 2 ^ 9 \<le> 2 ^ 64" using assms(1,3) by simp
  then have r: "c_len \<le> unat (P2ROUNDUP (of_nat c_len) SPA_MINBLOCKSIZE)" "unat (P2ROUNDUP (of_nat c_len) SPA_MINBLOCKSIZE) < c_len + 512"
    "512 dvd unat (P2ROUNDUP (of_nat c_len) SPA_MINBLOCKSIZE)"
    using P2ROUNDUP_ok [of 9 "of_nat c_len"] c unfolding minblock by simp_all
  then show "c_len \<le> unat (P2ROUNDUP (of_nat c_len) SPA_MINBLOCKSIZE)" "512 dvd unat (P2ROUNDUP (of_nat c_len) SPA_MINBLOCKSIZE)" by blast+
  show "unat (P2ROUNDUP (of_nat c_len) SPA_MINBLOCKSIZE) \<le> d_len"
  proof (rule ccontr)
    assume lt: "\<not> unat (P2ROUNDUP (of_nat c_len) SPA_MINBLOCKSIZE) \<le> d_len"
    have "512 dvd unat (P2ROUNDUP (of_nat c_len) SPA_MINBLOCKSIZE) - d_len" using r(3) assms(2) by (intro dvd_diff_nat)
    then have "512 \<le> unat (P2ROUNDUP (of_nat c_len) SPA_MINBLOCKSIZE) - d_len" using lt by (intro dvd_imp_le) simp_all
    then show False using lt r(2) assms(1) by linarith
  qed
qed

section \<open>The contract of a codec\<close>

text \<open>
  The compressor returns and stays in its buffer; it gives up by returning the length of the source, or what it wrote is
  decompressed to the source, whatever follows it.
\<close>

locale zio_codec =
  fixes compress :: "u64 \<Rightarrow> byte list \<Rightarrow> byte list \<Rightarrow> int \<Rightarrow> (nat \<times> byte list) option"
    and decompress :: "byte list \<Rightarrow> byte list \<Rightarrow> int \<Rightarrow> (int \<times> byte list) option"
    and level :: int
  assumes codec: "\<exists>r d'. compress base s d level = Some (r, d') \<and> length d' = length d \<and>
    (r = length s \<or> 0 < r \<and> r \<le> length d \<and> (\<forall>pad buf. length buf = length s \<longrightarrow> decompress (take r d' @ pad) buf level = Some (0, s)))"
begin

lemma compress_data:
  assumes "c < ZIO_COMPRESS_FUNCTIONS" "c \<noteq> ZIO_COMPRESS_EMPTY" "ci_compress (table ! c) = Some compress" "ci_decompress (table ! c) = Some decompress"
    "ci_level (table ! c) = level" "8 dvd length s" "length s < 2 ^ 63" "length s \<le> length dst"
  shows "\<exists>r dst'. zio_compress_data table c base s dst = Some (r, dst') \<and> length dst' = length dst \<and>
    (r = 0 \<and> s = replicate (length s) 0 \<or> r = length s \<or>
     0 < r \<and> r \<le> length s - length s div 8 \<and> 512 dvd r \<and>
     (\<forall>buf. length buf = length s \<longrightarrow> zio_decompress_data table c (take r dst') buf = Some (0, s)))"
proof -
  let ?n = "compress_room s"
  note room = compress_room_ok [OF assms(7)]
  have fits: "?n \<le> length dst" using room(2) assms(8) by linarith
  obtain w where w: "zero_scan s 0 = Some w" "w = length s \<longrightarrow> s = replicate (length s) 0" using zero_scan_ok [OF assms(6), of 0] by auto
  obtain r d where f: "compress base s (take ?n dst) level = Some (r, d)" "length d = ?n"
    "r = length s \<or> 0 < r \<and> r \<le> ?n \<and> (\<forall>pad buf. length buf = length s \<longrightarrow> decompress (take r d @ pad) buf level = Some (0, s))"
    using codec [of base s "take ?n dst"] room(2) assms(8) by auto
  consider "w = length s" | "w \<noteq> length s" "?n = 0" | "w \<noteq> length s" "?n \<noteq> 0" "r > ?n" | "w \<noteq> length s" "?n \<noteq> 0" "r \<le> ?n" by linarith
  then show ?thesis
  proof cases
    case 4
    let ?r = "unat (P2ROUNDUP (of_nat r) SPA_MINBLOCKSIZE)" and ?d = "d @ drop ?n dst"
    have "?n < 2 ^ 63" using room(2) assms(7) by simp
    note pad = padded_ok [OF 4(3) room(1) this]
    have len: "length ?d = length dst" using f(2) room(2) assms(8) by simp
    have "0 < length s div 8" using 4(2) room assms(6) by (auto simp: dvd_def)
    then have lt: "?n < length s" using room(2) by linarith
    define dst' where "dst' = take r ?d @ replicate (?r - r) 0 @ drop ?r ?d"
    have bz: "(if ?r > r then map_option (\<lambda>dst. (?r, dst)) (bzero ?d r (?r - r)) else Some (r, ?d)) = Some (?r, dst')"
    proof (cases "?r > r")
      case True
      moreover have "?r \<le> length ?d" using pad(2) room(2) assms(8) len by linarith
      ultimately show ?thesis by (simp add: bzero_def dst'_def)
    next
      case False
      then show ?thesis using pad(1) by (simp add: dst'_def del: take_append drop_append)
    qed
    have ph: "P2PHASE (of_nat ?r) SPA_MINBLOCKSIZE = 0"
      using pad(3) P2PHASE_0_iff [of 9 "P2ROUNDUP (of_nat r) SPA_MINBLOCKSIZE"] unfolding minblock by simp
    have "zio_compress_data table c base s dst = Some (?r, dst')"
      using 4 assms(1-3,5) w(1) f(1) fits bz ph pad(2) lt unfolding zio_compress_data_def Let_def by simp
    moreover have "length dst' = length dst" using pad(1,2) f(2) len 4(3) room(2) assms(8) by (simp add: dst'_def)
    moreover have "take ?r dst' = take r d @ replicate (?r - r) 0" using 4(3) f(2) pad(1) by (simp add: dst'_def)
    moreover have "0 < r" "\<forall>pad buf. length buf = length s \<longrightarrow> decompress (take r d @ pad) buf level = Some (0, s)" using f(3) 4(3) lt by auto
    ultimately show ?thesis using pad room(2) assms(1,4,5) by (intro exI [of _ ?r] exI [of _ dst']) (simp add: zio_decompress_data_def)
  next
    case 3
    then have "zio_compress_data table c base s dst = Some (length s, d @ drop ?n dst)"
      using assms(1-3,5) w(1) f(1) fits unfolding zio_compress_data_def Let_def by simp
    then show ?thesis using f(2) room(2) assms(8) by simp
  qed (use assms(1-3) w in \<open>simp_all add: zio_compress_data_def Let_def\<close>)
qed

end

interpretation lzjb: zio_codec lzjb_compress lzjb_decompress 0
  by unfold_locales (rule lzjb_roundtrip)

interpretation zle: zio_codec "\<lambda>base. zle_compress" zle_decompress 64
  by unfold_locales (rule zle_roundtrip; simp)

section \<open>Properties\<close>

text \<open>
  C28. Compressed blocks are read back.  \<^verbatim>\<open>zio_compress_data\<close> with LZJB or ZLE returns on every block of whole
  words.  It returns 0 only for a block of zeros and the length of the block when it is not worth it;
  otherwise the result is a whole number of sectors, saves at least an eighth, and
  \<^verbatim>\<open>zio_decompress_data\<close> of the padded result restores the block in any buffer of its length.
\<close>

theorem zio_compress_roundtrip:
  assumes "c = ZIO_COMPRESS_LZJB \<or> c = ZIO_COMPRESS_ZLE" "8 dvd length s" "length s < 2 ^ 63" "length s \<le> length dst"
  shows "\<exists>r dst'. zio_compress_data (zio_compress_table gzip lz4) c base s dst = Some (r, dst') \<and> length dst' = length dst \<and>
    (r = 0 \<and> s = replicate (length s) 0 \<or> r = length s \<or>
     0 < r \<and> r \<le> length s - length s div 8 \<and> 512 dvd r \<and>
     (\<forall>buf. length buf = length s \<longrightarrow> zio_decompress_data (zio_compress_table gzip lz4) c (take r dst') buf = Some (0, s)))"
  using assms(1)
proof
  assume c: "c = ZIO_COMPRESS_LZJB"
  show ?thesis unfolding c by (rule lzjb.compress_data [OF _ _ _ _ _ assms(2-4)])
    (simp_all add: zio_compress_table_def ZIO_COMPRESS_LZJB_def ZIO_COMPRESS_EMPTY_def ZIO_COMPRESS_FUNCTIONS_def)
next
  assume c: "c = ZIO_COMPRESS_ZLE"
  show ?thesis unfolding c by (rule zle.compress_data [OF _ _ _ _ _ assms(2-4)])
    (simp_all add: zio_compress_table_def ZIO_COMPRESS_ZLE_def ZIO_COMPRESS_EMPTY_def ZIO_COMPRESS_FUNCTIONS_def)
qed

theorem zio_compress_roundtrip_witness:
  "\<exists>r dst'. zio_compress_data (zio_compress_table (no_codec ''gzip'') (no_codec ''lz4'')) ZIO_COMPRESS_LZJB 0 (replicate 1024 7) (replicate 1024 0) = Some (r, dst') \<and>
    length dst' = 1024 \<and> r \<noteq> 0"
  using zio_compress_roundtrip [of ZIO_COMPRESS_LZJB "replicate 1024 7" "replicate 1024 0" "no_codec ''gzip''" "no_codec ''lz4''" 0]
  by (auto simp: replicate_eq_replicate)

text \<open>
  C29. Decompression is confined to the block it fills and to a bounded piece of memory at its source.
  Whatever bytes lie at \<^verbatim>\<open>s_start\<close>, damaged or not, \<^verbatim>\<open>lzjb_decompress\<close> returns 0 or \<open>- 1\<close>,
  writes only the \<open>d_len\<close> bytes of its destination, never copies from before them, and reads at most
  \<open>lzjb_reads d_len = d_len + (d_len + 7) div 8 + 1\<close> bytes of the source: what lies behind these does not matter.  The length of the
  source is not looked at, so that much memory has to be readable: on a shorter source of zeros it
  runs past the end (a source may be one byte short of the bound and still suffice if it has no match).
\<close>

theorem lzjb_decompress_confined:
  assumes "lzjb_reads (length d) \<le> length s"
  shows "(\<exists>r d'. lzjb_decompress s d n = Some (r, d') \<and> length d' = length d \<and> (r = 0 \<or> r = - 1)
      \<and> (\<forall>behind. lzjb_decompress (take (lzjb_reads (length d)) s @ behind) d n = Some (r, d')))
    \<and> (\<forall>l. l < lzjb_reads (length d) - 1 \<longrightarrow> lzjb_decompress (replicate l 0) d n = None)"
proof
  let ?s = "take (lzjb_reads (length d)) s"
  have "lz_need 7 (length d) \<le> length ?s" using assms by (simp add: lz_need_def lzjb_reads_def)
  then obtain r d' where "lzjb_decompress ?s d n = Some (r, d')" and d': "length d' = length d" "r = 0 \<or> r = - 1"
    using unloop_total [of 0 d 7 "push_bit 7 1" 0 ?s 0] unfolding lzjb_decompress_def lz_consts by auto
  then have "lzjb_decompress (?s @ behind) d n = Some (r, d')" for behind
    unfolding lzjb_decompress_def by (intro unloop_append)
  then show "\<exists>r d'. lzjb_decompress s d n = Some (r, d') \<and> length d' = length d \<and> (r = 0 \<or> r = - 1)
      \<and> (\<forall>behind. lzjb_decompress (?s @ behind) d n = Some (r, d'))"
    using d' by (metis append_take_drop_id)
  show "\<forall>l. l < lzjb_reads (length d) - 1 \<longrightarrow> lzjb_decompress (replicate l 0) d n = None"
    unfolding lzjb_decompress_def lz_consts using unloop_zeros [of 7 "push_bit 7 1" 0 _ d 0] by (simp add: lzjb_reads_def)
qed

theorem lzjb_decompress_confined_witness:
  "(\<exists>r d'. lzjb_decompress [255, 255, 255, 255, 255, 255] [0, 0] 0 = Some (r, d')) \<and> lzjb_decompress [0, 0] [0, 0] 0 = None"
  using lzjb_decompress_confined [of "[0, 0]" "[255, 255, 255, 255, 255, 255]" 0] by (auto simp: numeral_2_eq_2 lzjb_reads_def)

end
