(* ===== verification/Rrwlock.thy ===== *)
theory Rrwlock
  imports Prelude
begin

text \<open>
  The re-entrant reader/writer locks of ZFS (\<^verbatim>\<open>zfs/rrwlock.c\<close>).  The memory holds the locks and, for every
  thread, its list of nodes, each naming a lock.  A function runs under the mutex of the lock, which
  \<^verbatim>\<open>cv_wait\<close> gives up: entering is one attempt, after which the thread has entered or waits, and the loop is
  run again when it wakes.  \<open>debug\<close> says whether the code is compiled for debugging, without the short
  paths.  The counts are those of the build without reference tracking, words of 64 bits.  \<open>tset\<close> says for
  which lists \<^verbatim>\<open>tsd_set\<close> reports 0, which the code verifies; \<open>tsd_set\<close> is the macro of this port.  A failed
  \<^verbatim>\<open>ASSERT\<close> or \<^verbatim>\<open>VERIFY\<close> is \<open>None\<close>.
\<close>

section \<open>Data\<close>

record rrwlock =
  rr_writer :: "nat option"
  rr_anon_rcount :: u64
  rr_linked_rcount :: u64
  rr_writer_wanted :: bool

record rrw_mem =
  rr_locks :: "nat \<Rightarrow> rrwlock"
  rrw_tsd :: "nat \<Rightarrow> nat list"

datatype krw = RW_WRITER | RW_READER

datatype attempt = Entered rrw_mem | Waiting rrw_mem

definition set_lock :: "nat \<Rightarrow> rrwlock \<Rightarrow> rrw_mem \<Rightarrow> rrw_mem" where
  "set_lock rrl v m = m\<lparr>rr_locks := (rr_locks m)(rrl := v)\<rparr>"

text \<open>The macro assigns the list to the thread's variable, and its value is the list: 0 when that is empty.\<close>

definition tsd_set :: "nat list \<Rightarrow> bool" where
  "tsd_set value \<longleftrightarrow> value = []"

section \<open>The nodes of a thread\<close>

definition rrn_find :: "rrw_mem \<Rightarrow> nat \<Rightarrow> nat \<Rightarrow> bool" where
  "rrn_find m cur rrl \<longleftrightarrow> rr_linked_rcount (rr_locks m rrl) \<noteq> 0 \<and> List.member (rrw_tsd m cur) rrl"

definition rrn_add :: "(nat list \<Rightarrow> bool) \<Rightarrow> nat \<Rightarrow> nat \<Rightarrow> rrw_mem \<Rightarrow> rrw_mem option" where
  "rrn_add tset cur rrl m =
     (let rns = rrl # rrw_tsd m cur in require (tset rns) (Some (m\<lparr>rrw_tsd := (rrw_tsd m)(cur := rns)\<rparr>)))"

text \<open>Unlinking the first node of a lock.\<close>

fun rrn_unlink :: "nat \<Rightarrow> nat list \<Rightarrow> nat list option" where
  "rrn_unlink rrl [] = None"
| "rrn_unlink rrl (rn # rns) = (if rn = rrl then Some rns else map_option (Cons rn) (rrn_unlink rrl rns))"

definition rrn_find_and_remove :: "(nat list \<Rightarrow> bool) \<Rightarrow> nat \<Rightarrow> nat \<Rightarrow> rrw_mem \<Rightarrow> (bool \<times> rrw_mem) option" where
  "rrn_find_and_remove tset cur rrl m =
     (if rr_linked_rcount (rr_locks m rrl) = 0 then Some (False, m)
      else
        case rrn_unlink rrl (rrw_tsd m cur) of
          None \<Rightarrow> Some (False, m)
        | Some rns \<Rightarrow>
            require (hd (rrw_tsd m cur) = rrl \<longrightarrow> tset rns) (Some (True, m\<lparr>rrw_tsd := (rrw_tsd m)(cur := rns)\<rparr>)))"

section \<open>The lock\<close>

definition rrw_init :: "nat \<Rightarrow> rrw_mem \<Rightarrow> rrw_mem" where
  "rrw_init rrl = set_lock rrl \<lparr>rr_writer = None, rr_anon_rcount = 0, rr_linked_rcount = 0, rr_writer_wanted = False\<rparr>"

definition rrw_destroy :: "nat \<Rightarrow> rrw_mem \<Rightarrow> rrw_mem option" where
  "rrw_destroy rrl m =
     require (rr_writer (rr_locks m rrl) = None)
       (Some (set_lock rrl ((rr_locks m rrl)\<lparr>rr_anon_rcount := 0, rr_linked_rcount := 0\<rparr>) m))"

text \<open>The loop of a reader, from its test on.\<close>

definition rrw_read_loop :: "(nat list \<Rightarrow> bool) \<Rightarrow> nat \<Rightarrow> nat \<Rightarrow> rrw_mem \<Rightarrow> attempt option" where
  "rrw_read_loop tset cur rrl m =
     (let l = rr_locks m rrl in
      if rr_writer l \<noteq> None \<or> (rr_writer_wanted l \<and> rr_anon_rcount l = 0 \<and> \<not> rrn_find m cur rrl) then Some (Waiting m)
      else
        Option.bind
          (if rr_writer_wanted l
           then map_option (set_lock rrl (l\<lparr>rr_linked_rcount := rr_linked_rcount l + 1\<rparr>)) (rrn_add tset cur rrl m)
           else Some (set_lock rrl (l\<lparr>rr_anon_rcount := rr_anon_rcount l + 1\<rparr>) m))
          (\<lambda>m. require (rr_writer (rr_locks m rrl) = None) (Some (Entered m))))"

definition rrw_enter_read :: "bool \<Rightarrow> (nat list \<Rightarrow> bool) \<Rightarrow> nat \<Rightarrow> nat \<Rightarrow> rrw_mem \<Rightarrow> attempt option" where
  "rrw_enter_read debug tset cur rrl m =
     (let l = rr_locks m rrl in
      if \<not> debug \<and> rr_writer l = None \<and> \<not> rr_writer_wanted l
      then Some (Entered (set_lock rrl (l\<lparr>rr_anon_rcount := rr_anon_rcount l + 1\<rparr>) m))
      else require (rr_writer l \<noteq> Some cur \<and> rr_anon_rcount l \<ge> 0) (rrw_read_loop tset cur rrl m))"

definition rrw_write_loop :: "nat \<Rightarrow> nat \<Rightarrow> rrw_mem \<Rightarrow> attempt option" where
  "rrw_write_loop cur rrl m =
     (let l = rr_locks m rrl in
      if rr_anon_rcount l > 0 \<or> rr_linked_rcount l > 0 \<or> rr_writer l \<noteq> None
      then Some (Waiting (set_lock rrl (l\<lparr>rr_writer_wanted := True\<rparr>) m))
      else Some (Entered (set_lock rrl (l\<lparr>rr_writer_wanted := False, rr_writer := Some cur\<rparr>) m)))"

definition rrw_enter_write :: "nat \<Rightarrow> nat \<Rightarrow> rrw_mem \<Rightarrow> attempt option" where
  "rrw_enter_write cur rrl m = require (rr_writer (rr_locks m rrl) \<noteq> Some cur) (rrw_write_loop cur rrl m)"

definition rrw_enter :: "bool \<Rightarrow> (nat list \<Rightarrow> bool) \<Rightarrow> nat \<Rightarrow> nat \<Rightarrow> krw \<Rightarrow> rrw_mem \<Rightarrow> attempt option" where
  "rrw_enter debug tset cur rrl rw m = (if rw = RW_READER then rrw_enter_read debug tset cur rrl m else rrw_enter_write cur rrl m)"

text \<open>
  Leaving; the flag says whether the waiting threads are woken.  The assertions count in both builds, although the compiler
  drops them from the one without debugging: there a call that violates them goes on, and the model has no such call.
\<close>

definition rrw_exit :: "bool \<Rightarrow> (nat list \<Rightarrow> bool) \<Rightarrow> nat \<Rightarrow> nat \<Rightarrow> rrw_mem \<Rightarrow> (bool \<times> rrw_mem) option" where
  "rrw_exit debug tset cur rrl m =
     (let l = rr_locks m rrl in
      if \<not> debug \<and> rr_writer l = None \<and> rr_linked_rcount l = 0 then
        (let c = rr_anon_rcount l - 1 in Some (c = 0, set_lock rrl (l\<lparr>rr_anon_rcount := c\<rparr>) m))
      else
        require (rr_anon_rcount l \<noteq> 0 \<or> rr_linked_rcount l \<noteq> 0 \<or> rr_writer l \<noteq> None)
          (if rr_writer l = None then
             Option.bind (rrn_find_and_remove tset cur rrl m) (\<lambda>(found, m).
               if found then (let c = rr_linked_rcount l - 1 in Some (c = 0, set_lock rrl (l\<lparr>rr_linked_rcount := c\<rparr>) m))
               else (let c = rr_anon_rcount l - 1 in Some (c = 0, set_lock rrl (l\<lparr>rr_anon_rcount := c\<rparr>) m)))
           else
             require (rr_writer l = Some cur \<and> rr_anon_rcount l = 0 \<and> rr_linked_rcount l = 0)
               (Some (True, set_lock rrl (l\<lparr>rr_writer := None\<rparr>) m))))"

definition rrw_held :: "nat \<Rightarrow> nat \<Rightarrow> krw \<Rightarrow> rrw_mem \<Rightarrow> bool" where
  "rrw_held cur rrl rw m =
     (let l = rr_locks m rrl in
      if rw = RW_WRITER then rr_writer l = Some cur
      else rr_anon_rcount l \<noteq> 0 \<or> rr_linked_rcount l \<noteq> 0)"

end
