(* ===== verification/RrwlockProps.thy ===== *)
theory RrwlockProps
  imports Rrwlock "HOL-Library.Multiset"
begin

text \<open>
  The locks under any number of threads, as a state machine whose steps are the attempts and exits of
  \<open>Rrwlock\<close>, waking included.  \<open>holds\<close> is the multiset of read holds, pairs of a thread and a lock.
\<close>

section \<open>Counting holds\<close>

definition on_lock :: "nat \<Rightarrow> (nat \<times> nat) multiset \<Rightarrow> nat" where
  "on_lock l H = size (filter_mset (\<lambda>x. snd x = l) H)"

lemma on_lock_simps [simp]: "on_lock l {#} = 0" "on_lock l (add_mset x H) = on_lock l H + (if snd x = l then 1 else 0)"
    "on_lock l (N + A) = on_lock l N + on_lock l A"
  by (simp_all add: on_lock_def)

lemma on_lock_le: "on_lock l H \<le> size H"
  unfolding on_lock_def by (rule size_mset_mono) (rule multiset_filter_subset)

lemma of_nat_u64: "n < 2 ^ 64 \<Longrightarrow> (of_nat n :: u64) = 0 \<longleftrightarrow> n = 0" "n < 2 ^ 64 \<Longrightarrow> (of_nat n :: u64) > 0 \<longleftrightarrow> n > 0"
proof -
  assume "n < 2 ^ 64"
  then have "unat (of_nat n :: u64) = n" by (simp add: unsigned_of_nat take_bit_nat_eq_self)
  then show "(of_nat n :: u64) = 0 \<longleftrightarrow> n = 0" "(of_nat n :: u64) > 0 \<longleftrightarrow> n > 0" by (metis unat_eq_0 of_nat_0, simp add: word_less_nat_alt)
qed

text \<open>
  The counts of a memory: the nodes of the threads are a part of the holds, the linked count of a lock is
  the number of its nodes, the anonymous count the number of its other holds, and a lock that has a writer is not held.
\<close>

definition rrw_counts :: "rrw_mem \<Rightarrow> (nat \<times> nat) multiset \<Rightarrow> (nat \<times> nat) multiset \<Rightarrow> (nat \<times> nat) multiset \<Rightarrow> bool" where
  "rrw_counts m H N A \<longleftrightarrow> size H < 2 ^ 64 \<and> H = N + A \<and> (\<forall>t l. count N (t, l) = count_list (rrw_tsd m t) l) \<and>
     (\<forall>l. rr_linked_rcount (rr_locks m l) = of_nat (on_lock l N) \<and> rr_anon_rcount (rr_locks m l) = of_nat (on_lock l A) \<and>
          (rr_writer (rr_locks m l) \<noteq> None \<longrightarrow> on_lock l H = 0))"

lemma rrw_countsD:
  assumes "rrw_counts m H N A"
  shows "rr_linked_rcount (rr_locks m l) = 0 \<longleftrightarrow> on_lock l N = 0" "rr_anon_rcount (rr_locks m l) = 0 \<longleftrightarrow> on_lock l A = 0"
    "rr_linked_rcount (rr_locks m l) > 0 \<longleftrightarrow> on_lock l N > 0" "rr_anon_rcount (rr_locks m l) > 0 \<longleftrightarrow> on_lock l A > 0"
    "on_lock l H = on_lock l N + on_lock l A" "count N (t, l) = count_list (rrw_tsd m t) l"
proof -
  have H: "H = N + A" "size H < 2 ^ 64" using assms unfolding rrw_counts_def by blast+
  show sum: "on_lock l H = on_lock l N + on_lock l A" using H(1) by simp
  then have "on_lock l N < 2 ^ 64" "on_lock l A < 2 ^ 64" using on_lock_le [of l H] H(2) by linarith+
  then show "rr_linked_rcount (rr_locks m l) = 0 \<longleftrightarrow> on_lock l N = 0" "rr_anon_rcount (rr_locks m l) = 0 \<longleftrightarrow> on_lock l A = 0"
    "rr_linked_rcount (rr_locks m l) > 0 \<longleftrightarrow> on_lock l N > 0" "rr_anon_rcount (rr_locks m l) > 0 \<longleftrightarrow> on_lock l A > 0"
    using assms of_nat_u64 by (simp_all only: rrw_counts_def)
  show "count N (t, l) = count_list (rrw_tsd m t) l" using assms by (simp add: rrw_counts_def)
qed

lemma node_held:
  assumes "rrw_counts m H N A"
  shows "(t, l) \<in># N \<longleftrightarrow> l \<in> set (rrw_tsd m t)" "l \<in> set (rrw_tsd m t) \<Longrightarrow> 0 < on_lock l N"
proof -
  show iff: "(t, l) \<in># N \<longleftrightarrow> l \<in> set (rrw_tsd m t)"
    using rrw_countsD(6) [OF assms, of t l] by (metis count_list_0_iff count_eq_zero_iff)
  show "l \<in> set (rrw_tsd m t) \<Longrightarrow> 0 < on_lock l N" using iff by (auto dest: multi_member_split)
qed

lemma find_iff: "rrw_counts m H N A \<Longrightarrow> rrn_find m t l \<longleftrightarrow> l \<in> set (rrw_tsd m t)"
  using node_held(2) [of m H N A l t] rrw_countsD(1) [of m H N A l] by (auto simp: rrn_find_def)

section \<open>Entering and leaving\<close>

lemma rrn_unlink_None: "rrn_unlink l xs = None \<longleftrightarrow> l \<notin> set xs"
  by (induction xs) auto

lemma rrn_unlink_Some: "rrn_unlink l xs = Some ys \<Longrightarrow> l \<in> set xs \<and> count_list xs k = count_list ys k + (if k = l then 1 else 0)"
  by (induction xs arbitrary: ys) (auto split: if_splits)

text \<open>The condition under which a reader or a writer waits.\<close>

definition must_wait :: "rrw_mem \<Rightarrow> nat \<Rightarrow> krw \<Rightarrow> nat \<Rightarrow> bool" where
  "must_wait m cur rw rrl \<longleftrightarrow> (let l = rr_locks m rrl in rr_writer l \<noteq> None \<or>
     (if rw = RW_READER then rr_writer_wanted l \<and> rr_anon_rcount l = 0 \<and> \<not> rrn_find m cur rrl
      else rr_anon_rcount l > 0 \<or> rr_linked_rcount l > 0))"

definition rrw_try :: "bool \<Rightarrow> (nat list \<Rightarrow> bool) \<Rightarrow> bool \<Rightarrow> nat \<Rightarrow> nat \<Rightarrow> krw \<Rightarrow> rrw_mem \<Rightarrow> attempt option" where
  "rrw_try debug tset first cur rrl rw m =
     (if first then rrw_enter debug tset cur rrl rw m
      else if rw = RW_READER then rrw_read_loop tset cur rrl m else rrw_write_loop cur rrl m)"

lemma try_waiting:
  assumes "rrw_try debug tset first cur rrl rw m = Some (Waiting m')"
  shows "must_wait m cur rw rrl" "m' = (if rw = RW_READER then m else set_lock rrl ((rr_locks m rrl)\<lparr>rr_writer_wanted := True\<rparr>) m)"
  using assms by (cases rw; auto simp: rrw_try_def rrw_enter_def rrw_enter_read_def rrw_enter_write_def rrw_read_loop_def rrw_write_loop_def
      must_wait_def Let_def require_eq_Some bind_eq_Some_conv split: if_splits)+

lemma try_entered_read:
  assumes "rrw_try debug tset first cur rrl RW_READER m = Some (Entered m')"
  shows "\<not> must_wait m cur RW_READER rrl"
    "if rr_writer_wanted (rr_locks m rrl)
     then m' = set_lock rrl ((rr_locks m rrl)\<lparr>rr_linked_rcount := rr_linked_rcount (rr_locks m rrl) + 1\<rparr>) (m\<lparr>rrw_tsd := (rrw_tsd m)(cur := rrl # rrw_tsd m cur)\<rparr>)
     else m' = set_lock rrl ((rr_locks m rrl)\<lparr>rr_anon_rcount := rr_anon_rcount (rr_locks m rrl) + 1\<rparr>) m"
  using assms by (auto simp: rrw_try_def rrw_enter_def rrw_enter_read_def rrw_read_loop_def rrn_add_def must_wait_def Let_def
      require_eq_Some bind_eq_Some_conv split: if_splits)

lemma try_entered_write:
  assumes "rrw_try debug tset first cur rrl RW_WRITER m = Some (Entered m')"
  shows "\<not> must_wait m cur RW_WRITER rrl"
    "m' = set_lock rrl ((rr_locks m rrl)\<lparr>rr_writer_wanted := False, rr_writer := Some cur\<rparr>) m"
  using assms by (auto simp: rrw_try_def rrw_enter_def rrw_enter_write_def rrw_write_loop_def must_wait_def Let_def require_eq_Some split: if_splits)

lemma exit_cases:
  assumes "rrw_exit debug tset cur rrl m = Some (wake, m')"
  obtains (anon) "rr_writer (rr_locks m rrl) = None" "rr_linked_rcount (rr_locks m rrl) = 0 \<or> rrl \<notin> set (rrw_tsd m cur)"
      "wake = (rr_anon_rcount (rr_locks m rrl) - 1 = 0)" "m' = set_lock rrl ((rr_locks m rrl)\<lparr>rr_anon_rcount := rr_anon_rcount (rr_locks m rrl) - 1\<rparr>) m"
  | (linked) rns where "rr_writer (rr_locks m rrl) = None" "rrn_unlink rrl (rrw_tsd m cur) = Some rns"
      "wake = (rr_linked_rcount (rr_locks m rrl) - 1 = 0)"
      "m' = set_lock rrl ((rr_locks m rrl)\<lparr>rr_linked_rcount := rr_linked_rcount (rr_locks m rrl) - 1\<rparr>) (m\<lparr>rrw_tsd := (rrw_tsd m)(cur := rns)\<rparr>)"
  | (writer) "rr_writer (rr_locks m rrl) = Some cur" "wake" "m' = set_lock rrl ((rr_locks m rrl)\<lparr>rr_writer := None\<rparr>) m"
  using assms by (auto simp: rrw_exit_def rrn_find_and_remove_def Let_def require_eq_Some bind_eq_Some_conv rrn_unlink_None split: if_splits option.splits)

section \<open>The counts are kept\<close>

lemma counts_enter_anon:
  assumes "rrw_counts m H N A" "Suc (size H) < 2 ^ 64" "rr_writer (rr_locks m l) = None"
  shows "rrw_counts (set_lock l ((rr_locks m l)\<lparr>rr_anon_rcount := rr_anon_rcount (rr_locks m l) + 1\<rparr>) m) (add_mset (t, l) H) N (add_mset (t, l) A)"
  using assms by (auto simp: rrw_counts_def set_lock_def add.commute)

lemma counts_enter_linked:
  assumes "rrw_counts m H N A" "Suc (size H) < 2 ^ 64" "rr_writer (rr_locks m l) = None"
  shows "rrw_counts (set_lock l ((rr_locks m l)\<lparr>rr_linked_rcount := rr_linked_rcount (rr_locks m l) + 1\<rparr>) (m\<lparr>rrw_tsd := (rrw_tsd m)(t := l # rrw_tsd m t)\<rparr>))
    (add_mset (t, l) H) (add_mset (t, l) N) A"
  using assms by (auto simp: rrw_counts_def set_lock_def add.commute)

lemma counts_exit_anon:
  assumes "rrw_counts m (add_mset (t, l) H) N (add_mset (t, l) A)"
  shows "rrw_counts (set_lock l ((rr_locks m l)\<lparr>rr_anon_rcount := rr_anon_rcount (rr_locks m l) - 1\<rparr>) m) H N A"
  using assms by (auto simp: rrw_counts_def set_lock_def)

lemma counts_exit_linked:
  assumes "rrw_counts m (add_mset (t, l) H) (add_mset (t, l) N) A" "\<And>k. count_list (rrw_tsd m t) k = count_list rns k + (if k = l then 1 else 0)"
  shows "rrw_counts (set_lock l ((rr_locks m l)\<lparr>rr_linked_rcount := rr_linked_rcount (rr_locks m l) - 1\<rparr>) (m\<lparr>rrw_tsd := (rrw_tsd m)(t := rns)\<rparr>)) H N A"
proof -
  have c: "count (add_mset (t, l) N) (u, k) = count_list (rrw_tsd m u) k" for u k using rrw_countsD(6) [OF assms(1)] .
  have "count N (u, k) = count_list (((rrw_tsd m)(t := rns)) u) k" for u k using c [of u k] assms(2) [of k] by (auto split: if_splits)
  then show ?thesis using assms(1) by (auto simp: rrw_counts_def set_lock_def)
qed

lemma counts_flags:
  assumes "rrw_counts m H N A" "w \<noteq> None \<Longrightarrow> on_lock l H = 0"
  shows "rrw_counts (set_lock l ((rr_locks m l)\<lparr>rr_writer_wanted := b, rr_writer := w\<rparr>) m) H N A"
  using assms by (auto simp: rrw_counts_def set_lock_def)

lemma anon_hold:
  assumes "rrw_counts m H N A" "(t, l) \<in># H" "rr_linked_rcount (rr_locks m l) = 0 \<or> l \<notin> set (rrw_tsd m t)"
  shows "(t, l) \<in># A"
proof -
  have "(t, l) \<notin># N" using assms(3) node_held(1) [OF assms(1), of t l] node_held(2) [OF assms(1), of l t] rrw_countsD(1) [OF assms(1), of l] by auto
  moreover have "H = N + A" using assms(1) by (simp add: rrw_counts_def)
  ultimately show ?thesis using assms(2) by simp
qed

lemma read_exit_counts:
  assumes "rrw_counts m (add_mset (t, l) H) N A" "rrw_exit debug tset t l m = Some (wake, m')"
  shows "\<exists>N' A'. rrw_counts m' H N' A'"
proof -
  have c: "rr_writer (rr_locks m l) = None" using assms(1) by (auto simp: rrw_counts_def)
  note node = node_held [OF assms(1)]
  from assms(2) show ?thesis
  proof (cases rule: exit_cases)
    case anon
    have "(t, l) \<in># A" using anon_hold [OF assms(1) _ anon(2)] by simp
    then obtain A' where A': "A = add_mset (t, l) A'" by (metis insert_DiffM)
    then have "rrw_counts m (add_mset (t, l) H) N (add_mset (t, l) A')" using assms(1) by simp
    from counts_exit_anon [OF this] show ?thesis using anon(4) by blast
  next
    case (linked rns)
    have l: "l \<in> set (rrw_tsd m t)" "\<And>k. count_list (rrw_tsd m t) k = count_list rns k + (if k = l then 1 else 0)"
      using rrn_unlink_Some [OF linked(2)] by blast+
    then obtain N' where "N = add_mset (t, l) N'" using node(1) by (metis insert_DiffM)
    then have "rrw_counts m (add_mset (t, l) H) (add_mset (t, l) N') A" using assms(1) by simp
    from counts_exit_linked [OF this l(2)] show ?thesis using linked(4) by blast
  qed (use c in simp)
qed

section \<open>Threads\<close>

text \<open>
  A thread runs, or it waits for a lock: asleep until the lock is broadcast or it wakes for no reason, and then awake
  until it tries again.  The client enters a lock only when it is not its writer, and leaves what it
  has entered; there are fewer than \<open>2 ^ 64\<close> holds at a time.
\<close>

datatype pc = Running | Asleep krw nat | Awake krw nat

record rrw_sys =
  sys_mem :: rrw_mem
  sys_pc :: "nat \<Rightarrow> pc"
  holds :: "(nat \<times> nat) multiset"

definition wake_all :: "nat \<Rightarrow> (nat \<Rightarrow> pc) \<Rightarrow> nat \<Rightarrow> pc" where
  "wake_all rrl pcs t = (case pcs t of Asleep rw l \<Rightarrow> if l = rrl then Awake rw l else pcs t | _ \<Rightarrow> pcs t)"

inductive rrw_step :: "bool \<Rightarrow> (nat list \<Rightarrow> bool) \<Rightarrow> rrw_sys \<Rightarrow> rrw_sys \<Rightarrow> bool" for debug tset where
  enter: "sys_pc s t = (if first then Running else Awake rw l) \<Longrightarrow> rr_writer (rr_locks (sys_mem s) l) \<noteq> Some t \<Longrightarrow>
    Suc (size (holds s)) < 2 ^ 64 \<Longrightarrow> rrw_try debug tset first t l rw (sys_mem s) = Some (Entered m) \<Longrightarrow>
    rrw_step debug tset s (s\<lparr>sys_mem := m, sys_pc := (sys_pc s)(t := Running),
      holds := (if rw = RW_READER then add_mset (t, l) (holds s) else holds s)\<rparr>)"
| wait: "sys_pc s t = (if first then Running else Awake rw l) \<Longrightarrow> rr_writer (rr_locks (sys_mem s) l) \<noteq> Some t \<Longrightarrow>
    rrw_try debug tset first t l rw (sys_mem s) = Some (Waiting m) \<Longrightarrow>
    rrw_step debug tset s (s\<lparr>sys_mem := m, sys_pc := (sys_pc s)(t := Asleep rw l)\<rparr>)"
| spurious: "sys_pc s t = Asleep rw l \<Longrightarrow> rrw_step debug tset s (s\<lparr>sys_pc := (sys_pc s)(t := Awake rw l)\<rparr>)"
| leave_read: "sys_pc s t = Running \<Longrightarrow> holds s = add_mset (t, l) H \<Longrightarrow> rrw_exit debug tset t l (sys_mem s) = Some (wake, m) \<Longrightarrow>
    rrw_step debug tset s (s\<lparr>sys_mem := m, holds := H, sys_pc := (if wake then wake_all l (sys_pc s) else sys_pc s)\<rparr>)"
| leave_write: "sys_pc s t = Running \<Longrightarrow> rr_writer (rr_locks (sys_mem s) l) = Some t \<Longrightarrow> rrw_exit debug tset t l (sys_mem s) = Some (wake, m) \<Longrightarrow>
    rrw_step debug tset s (s\<lparr>sys_mem := m, sys_pc := (if wake then wake_all l (sys_pc s) else sys_pc s)\<rparr>)"

definition rrw_start :: rrw_sys where
  "rrw_start = \<lparr>sys_mem = \<lparr>rr_locks = (\<lambda>l. \<lparr>rr_writer = None, rr_anon_rcount = 0, rr_linked_rcount = 0, rr_writer_wanted = False\<rparr>),
     rrw_tsd = (\<lambda>t. [])\<rparr>, sys_pc = (\<lambda>t. Running), holds = {#}\<rparr>"

section \<open>The invariant\<close>

text \<open>
  The counts are right for some division of the holds; who sleeps has to (no wakeup is lost); and when a writer is
  wanted, a writer waits.
\<close>

definition no_lost_wakeup :: "rrw_mem \<Rightarrow> (nat \<Rightarrow> pc) \<Rightarrow> bool" where
  "no_lost_wakeup m pcs \<longleftrightarrow> (\<forall>u rw l. pcs u = Asleep rw l \<longrightarrow> must_wait m u rw l)"

definition writer_waits :: "(nat \<Rightarrow> pc) \<Rightarrow> nat \<Rightarrow> bool" where
  "writer_waits pcs l \<longleftrightarrow> (\<exists>u. pcs u = Asleep RW_WRITER l \<or> pcs u = Awake RW_WRITER l)"

definition rrw_inv :: "rrw_sys \<Rightarrow> bool" where
  "rrw_inv s \<longleftrightarrow> (\<exists>N A. rrw_counts (sys_mem s) (holds s) N A) \<and> no_lost_wakeup (sys_mem s) (sys_pc s) \<and>
     (\<forall>l. rr_writer_wanted (rr_locks (sys_mem s) l) \<longrightarrow> writer_waits (sys_pc s) l)"

lemma must_wait_iff:
  assumes "rrw_counts m H N A"
  shows "must_wait m u RW_WRITER l \<longleftrightarrow> rr_writer (rr_locks m l) \<noteq> None \<or> 0 < on_lock l H"
    "must_wait m u RW_READER l \<longleftrightarrow> rr_writer (rr_locks m l) \<noteq> None \<or> (rr_writer_wanted (rr_locks m l) \<and> on_lock l A = 0 \<and> l \<notin> set (rrw_tsd m u))"
  using rrw_countsD(2-5) [OF assms, of l] find_iff [OF assms, of u l] by (auto simp: must_wait_def Let_def)

lemma must_wait_frame:
  "rr_locks m' l = rr_locks m l \<Longrightarrow> rrw_tsd m' u = rrw_tsd m u \<Longrightarrow> must_wait m' u rw l = must_wait m u rw l"
  by (simp add: must_wait_def rrn_find_def Let_def)

lemma wake_all_Asleep: "wake_all rrl pcs u = Asleep rw l \<longleftrightarrow> pcs u = Asleep rw l \<and> l \<noteq> rrl"
  by (auto simp: wake_all_def split: pc.splits)

lemma writer_waits_wake: "writer_waits pcs l \<Longrightarrow> writer_waits (wake_all rrl pcs) l"
proof -
  assume "writer_waits pcs l"
  then obtain u where "pcs u = Asleep RW_WRITER l \<or> pcs u = Awake RW_WRITER l" by (auto simp: writer_waits_def)
  then have "wake_all rrl pcs u = Asleep RW_WRITER l \<or> wake_all rrl pcs u = Awake RW_WRITER l" by (auto simp: wake_all_def)
  then show ?thesis by (auto simp: writer_waits_def)
qed

lemma writer_waits_upd: "writer_waits pcs l \<Longrightarrow> pcs t \<noteq> Asleep RW_WRITER l \<Longrightarrow> pcs t \<noteq> Awake RW_WRITER l \<Longrightarrow> writer_waits (pcs(t := p)) l"
  by (auto simp: writer_waits_def)

lemma rrw_inv_start: "rrw_inv rrw_start"
  by (auto simp: rrw_inv_def rrw_start_def rrw_counts_def no_lost_wakeup_def intro!: exI [of _ "{#}"])

lemma no_lost_wakeup_step:
  assumes "no_lost_wakeup m pcs" "\<And>k. k \<noteq> l \<Longrightarrow> rr_locks m' k = rr_locks m k" "\<And>u. u \<noteq> t \<Longrightarrow> rrw_tsd m' u = rrw_tsd m u"
    "\<And>rw k. pcs' t = Asleep rw k \<Longrightarrow> k = l \<and> must_wait m' t rw l" "\<And>u. u \<noteq> t \<Longrightarrow> pcs' u = pcs u \<or> (\<exists>rw k. pcs' u = Awake rw k)"
    "\<And>u rw. u \<noteq> t \<Longrightarrow> pcs' u = Asleep rw l \<Longrightarrow> must_wait m u rw l \<Longrightarrow> must_wait m' u rw l"
  shows "no_lost_wakeup m' pcs'"
  unfolding no_lost_wakeup_def
proof (intro allI impI)
  fix u rw k
  assume a: "pcs' u = Asleep rw k"
  show "must_wait m' u rw k"
  proof (cases "u = t")
    case True
    then show ?thesis using a assms(4) by metis
  next
    case False
    then have "must_wait m u rw k" using a assms(1,5) by (metis no_lost_wakeup_def pc.distinct(5))
    then show ?thesis using a False assms(2,3,6) must_wait_frame by (cases "k = l") metis+
  qed
qed

lemma rrw_invE:
  assumes "rrw_inv s"
  obtains N A where "rrw_counts (sys_mem s) (holds s) N A" "no_lost_wakeup (sys_mem s) (sys_pc s)"
    "\<And>k. rr_writer_wanted (rr_locks (sys_mem s) k) \<Longrightarrow> writer_waits (sys_pc s) k"
  using assms by (auto simp: rrw_inv_def)

lemma enter_read_step:
  assumes "rrw_inv s" "sys_pc s t = (if first then Running else Awake RW_READER l)" "Suc (size (holds s)) < 2 ^ 64"
    "rrw_try debug tset first t l RW_READER (sys_mem s) = Some (Entered m)"
  shows "rrw_inv (s\<lparr>sys_mem := m, sys_pc := (sys_pc s)(t := Running), holds := add_mset (t, l) (holds s)\<rparr>)"
proof -
  let ?m = "sys_mem s" and ?l = "rr_locks (sys_mem s) l"
  obtain N A where c: "rrw_counts ?m (holds s) N A" and nl: "no_lost_wakeup ?m (sys_pc s)"
    and ww: "\<And>k. rr_writer_wanted (rr_locks ?m k) \<Longrightarrow> writer_waits (sys_pc s) k" using rrw_invE [OF assms(1)] by blast
  note e = try_entered_read [OF assms(4)]
  have w: "rr_writer ?l = None" using e(1) by (simp add: must_wait_def Let_def)
  obtain N' A' where c': "rrw_counts m (add_mset (t, l) (holds s)) N' A'"
    using e(2) counts_enter_linked [OF c assms(3) w, of t] counts_enter_anon [OF c assms(3) w, of t] by (metis (full_types))
  have m: "k \<noteq> l \<Longrightarrow> rr_locks m k = rr_locks ?m k" "u \<noteq> t \<Longrightarrow> rrw_tsd m u = rrw_tsd ?m u"
    "rr_writer_wanted (rr_locks m k) = rr_writer_wanted (rr_locks ?m k)" "rr_writer_wanted ?l \<Longrightarrow> rr_anon_rcount (rr_locks m l) = rr_anon_rcount ?l" for u k
    using e(2) by (auto simp: set_lock_def split: if_splits)
  have "no_lost_wakeup m ((sys_pc s)(t := Running))"
  proof (rule no_lost_wakeup_step [OF nl m(1,2)])
    fix u rw
    assume u: "u \<noteq> t" "must_wait ?m u rw l"
    show "must_wait m u rw l"
    proof (cases rw)
      case RW_READER
      then show ?thesis using u w must_wait_iff(2) [OF c, of u l] must_wait_iff(2) [OF c', of u l] m(2) [OF u(1)] m(3) [of l] m(4)
          rrw_countsD(2) [OF c, of l] rrw_countsD(2) [OF c', of l] by auto
    next
      case RW_WRITER
      then show ?thesis using must_wait_iff(1) [OF c', of u l] by simp
    qed
  qed auto
  moreover have "writer_waits ((sys_pc s)(t := Running)) k" if "rr_writer_wanted (rr_locks m k)" for k
    using writer_waits_upd [OF ww] that m(3) assms(2) by (auto split: if_splits)
  ultimately show ?thesis using c' by (auto simp: rrw_inv_def)
qed

lemma enter_write_step:
  assumes "rrw_inv s" "sys_pc s t = (if first then Running else Awake RW_WRITER l)"
    "rrw_try debug tset first t l RW_WRITER (sys_mem s) = Some (Entered m)"
  shows "rrw_inv (s\<lparr>sys_mem := m, sys_pc := (sys_pc s)(t := Running)\<rparr>)"
proof -
  obtain N A where c: "rrw_counts (sys_mem s) (holds s) N A" and nl: "no_lost_wakeup (sys_mem s) (sys_pc s)"
    and ww: "\<And>k. rr_writer_wanted (rr_locks (sys_mem s) k) \<Longrightarrow> writer_waits (sys_pc s) k" using rrw_invE [OF assms(1)] by blast
  note e = try_entered_write [OF assms(3)]
  have "on_lock l (holds s) = 0" using e(1) must_wait_iff(1) [OF c, of t l] by simp
  then have c': "rrw_counts m (holds s) N A" using counts_flags [OF c, of "Some t" l False] e(2) by simp
  have "no_lost_wakeup m ((sys_pc s)(t := Running))"
    by (rule no_lost_wakeup_step [OF nl, where l = l and t = t]) (auto simp: e(2) set_lock_def must_wait_def Let_def)
  moreover have "writer_waits ((sys_pc s)(t := Running)) k" if "rr_writer_wanted (rr_locks m k)" for k
    using writer_waits_upd [OF ww] that e(2) assms(2) by (auto simp: set_lock_def split: if_splits)
  ultimately show ?thesis using c' by (auto simp: rrw_inv_def)
qed

lemma wait_step:
  assumes "rrw_inv s" "sys_pc s t = (if first then Running else Awake rw l)" "rrw_try debug tset first t l rw (sys_mem s) = Some (Waiting m)"
  shows "rrw_inv (s\<lparr>sys_mem := m, sys_pc := (sys_pc s)(t := Asleep rw l)\<rparr>)"
proof -
  obtain N A where c: "rrw_counts (sys_mem s) (holds s) N A" and nl: "no_lost_wakeup (sys_mem s) (sys_pc s)"
    and ww: "\<And>k. rr_writer_wanted (rr_locks (sys_mem s) k) \<Longrightarrow> writer_waits (sys_pc s) k" using rrw_invE [OF assms(1)] by blast
  note e = try_waiting [OF assms(3)]
  have "set_lock l (rr_locks (sys_mem s) l) (sys_mem s) = sys_mem s" by (simp add: set_lock_def)
  then obtain b where b: "m = set_lock l ((rr_locks (sys_mem s) l)\<lparr>rr_writer_wanted := b\<rparr>) (sys_mem s)"
    "rr_writer_wanted (rr_locks (sys_mem s) l) \<Longrightarrow> b" "b \<Longrightarrow> rr_writer_wanted (rr_locks (sys_mem s) l) \<or> rw = RW_WRITER"
    using e(2) by (cases rw) (auto intro: that [of "rr_writer_wanted (rr_locks (sys_mem s) l)"] that [of True])
  have "rrw_counts m (holds s) N A" using c b(1) by (auto simp: rrw_counts_def set_lock_def)
  moreover have up: "must_wait m u rw' l" if "must_wait (sys_mem s) u rw' l" for u rw'
    using that b(1,2) by (auto simp: must_wait_def Let_def set_lock_def rrn_find_def)
  moreover have "no_lost_wakeup m ((sys_pc s)(t := Asleep rw l))"
    by (rule no_lost_wakeup_step [OF nl, where l = l and t = t]) (use e(1) up in \<open>auto simp: b(1) set_lock_def\<close>)
  moreover have "writer_waits ((sys_pc s)(t := Asleep rw l)) k" if wk: "rr_writer_wanted (rr_locks m k)" for k
  proof (cases "k = l \<and> rw = RW_WRITER")
    case True
    then show ?thesis by (auto simp: writer_waits_def)
  next
    case False
    then have "rr_writer_wanted (rr_locks (sys_mem s) k)" using wk b(1,3) by (auto simp: set_lock_def split: if_splits)
    then show ?thesis using writer_waits_upd [OF ww] assms(2) False by (auto split: if_splits)
  qed
  ultimately show ?thesis by (auto simp: rrw_inv_def)
qed

text \<open>Leaving: the waiting threads are woken, or the lock stays as unavailable as it was.\<close>

lemma leave_step:
  assumes "rrw_inv s" "sys_pc s t = Running" "rrw_exit debug tset t l (sys_mem s) = Some (wake, m)" "\<exists>N A. rrw_counts m H N A"
    "\<not> wake \<Longrightarrow> rr_writer (rr_locks (sys_mem s) l) = None \<and> (t, l) \<in># holds s"
  shows "rrw_inv (s\<lparr>sys_mem := m, holds := H, sys_pc := (if wake then wake_all l (sys_pc s) else sys_pc s)\<rparr>)"
proof -
  let ?m = "sys_mem s" and ?pcs = "if wake then wake_all l (sys_pc s) else sys_pc s"
  obtain N A where c: "rrw_counts ?m (holds s) N A" and nl: "no_lost_wakeup ?m (sys_pc s)"
    and ww: "\<And>k. rr_writer_wanted (rr_locks ?m k) \<Longrightarrow> writer_waits (sys_pc s) k" using rrw_invE [OF assms(1)] by blast
  obtain N' A' where c': "rrw_counts m H N' A'" using assms(4) by blast
  have m: "k \<noteq> l \<Longrightarrow> rr_locks m k = rr_locks ?m k" "u \<noteq> t \<Longrightarrow> rrw_tsd m u = rrw_tsd ?m u"
    "rr_writer_wanted (rr_locks m k) = rr_writer_wanted (rr_locks ?m k)" for u k
    using assms(3) by (cases rule: exit_cases; auto simp: set_lock_def)+
  have pcs: "?pcs t = Running" "?pcs u = sys_pc s u \<or> (\<exists>rw k. ?pcs u = Awake rw k)" for u
    using assms(2) by (auto simp: wake_all_def split: pc.splits)
  have "no_lost_wakeup m ?pcs"
  proof (rule no_lost_wakeup_step [OF nl m(1,2)])
    fix u rw
    assume u: "u \<noteq> t" "?pcs u = Asleep rw l" "must_wait ?m u rw l"
    have wake: "\<not> wake" using u(2) wake_all_Asleep by (metis (full_types))
    have w: "rr_writer (rr_locks ?m l) = None" "(t, l) \<in># holds s" using assms(5) wake by blast+
    from assms(3) have "0 < on_lock l H \<and> (on_lock l A = 0 \<longrightarrow> on_lock l A' = 0)"
    proof (cases rule: exit_cases)
      case anon
      then have "rr_anon_rcount (rr_locks m l) \<noteq> 0" using wake by (simp add: set_lock_def)
      then have "0 < on_lock l A'" using rrw_countsD(2) [OF c', of l] by simp
      moreover have "(t, l) \<in># A" using anon_hold [OF c w(2) anon(2)] .
      then have "on_lock l A \<noteq> 0" by (auto dest: multi_member_split)
      ultimately show ?thesis using rrw_countsD(5) [OF c', of l] by simp
    next
      case (linked rns)
      then have "rr_linked_rcount (rr_locks m l) \<noteq> 0" "rr_anon_rcount (rr_locks m l) = rr_anon_rcount (rr_locks ?m l)"
        using wake by (simp_all add: set_lock_def)
      then show ?thesis using rrw_countsD(1,2,5) [OF c', of l] rrw_countsD(2) [OF c, of l] by simp
    qed (use wake in simp)
    then show "must_wait m u rw l"
      using u(1,3) w(1) must_wait_iff [OF c, of u l] must_wait_iff [OF c', of u l] m(2) [OF u(1)] m(3) [of l] by (cases rw) auto
  qed (use pcs in \<open>auto simp only: pc.distinct\<close>)
  moreover have "writer_waits ?pcs k" if "rr_writer_wanted (rr_locks m k)" for k
    using ww writer_waits_wake that m(3) by auto
  ultimately show ?thesis using c' by (auto simp: rrw_inv_def)
qed

lemma rrw_inv_step:
  assumes "rrw_inv s" "rrw_step debug tset s s'"
  shows "rrw_inv s'"
  using assms(2,1)
proof induction
  case (enter s t first rw l m)
  then show ?case using enter_read_step [of s t first l debug tset m] enter_write_step [of s t first l debug tset m] by (cases rw) auto
next
  case (wait s t first rw l m)
  then show ?case using wait_step by blast
next
  case (spurious s t rw l)
  then obtain N A where i: "rrw_counts (sys_mem s) (holds s) N A" "no_lost_wakeup (sys_mem s) (sys_pc s)"
    "\<And>k. rr_writer_wanted (rr_locks (sys_mem s) k) \<Longrightarrow> writer_waits (sys_pc s) k" using rrw_invE by blast
  have "writer_waits ((sys_pc s)(t := Awake rw l)) k" if w: "writer_waits (sys_pc s) k" for k
  proof -
    obtain u where "sys_pc s u = Asleep RW_WRITER k \<or> sys_pc s u = Awake RW_WRITER k" using w unfolding writer_waits_def by blast
    then show ?thesis unfolding writer_waits_def using spurious(1) by (intro exI [of _ u]) auto
  qed
  then show ?case using i by (auto simp: rrw_inv_def no_lost_wakeup_def)
next
  case (leave_read s t l H wake m)
  obtain N A where c: "rrw_counts (sys_mem s) (holds s) N A" using leave_read.prems rrw_invE by blast
  then have "\<exists>N A. rrw_counts m H N A" using read_exit_counts leave_read(2,3) by simp
  moreover have "rr_writer (rr_locks (sys_mem s) l) = None" using c leave_read(2) by (auto simp: rrw_counts_def)
  ultimately show ?case using leave_step [OF leave_read.prems leave_read(1,3)] leave_read(2) by simp
next
  case (leave_write s t l wake m)
  obtain N A where c: "rrw_counts (sys_mem s) (holds s) N A" using leave_write.prems rrw_invE by blast
  have "wake \<and> m = set_lock l ((rr_locks (sys_mem s) l)\<lparr>rr_writer := None\<rparr>) (sys_mem s)"
    using leave_write(3) by (cases rule: exit_cases) (use leave_write(2) in auto)
  moreover from this have "rrw_counts m (holds s) N A" using c by (auto simp: rrw_counts_def set_lock_def)
  ultimately show ?case using leave_step [OF leave_write.prems leave_write(1,3), of "holds s"] by auto
qed

lemma rrw_inv_reach: "(rrw_step debug tset)\<^sup>*\<^sup>* rrw_start s \<Longrightarrow> rrw_inv s"
  by (induction rule: rtranclp_induct) (auto intro: rrw_inv_start rrw_inv_step)

lemma on_lock_0_iff: "on_lock l H \<noteq> 0 \<longleftrightarrow> (\<exists>u. (u, l) \<in># H)"
  by (auto simp: on_lock_def)

lemma held_reader_enters:
  assumes "rrw_counts m H N A" "(t, l) \<in># H"
  shows "rr_writer (rr_locks m l) = None" "\<not> must_wait m t RW_READER l"
proof -
  have "on_lock l H \<noteq> 0" using assms(2) on_lock_0_iff by blast
  then show w: "rr_writer (rr_locks m l) = None" using assms(1) by (auto simp: rrw_counts_def)
  have "(t, l) \<in># N \<or> (t, l) \<in># A" using assms by (auto simp: rrw_counts_def)
  then have "l \<in> set (rrw_tsd m t) \<or> on_lock l A \<noteq> 0" using node_held(1) [OF assms(1), of t l] on_lock_0_iff by blast
  then show "\<not> must_wait m t RW_READER l" using w must_wait_iff(2) [OF assms(1), of t l] by auto
qed

text \<open>Three reachable states: a thread writes; a reader holds the lock that a writer waits for; the reader has left.\<close>

definition rrw_written :: rrw_sys where
  "rrw_written = rrw_start\<lparr>sys_mem := set_lock 7 \<lparr>rr_writer = Some 0, rr_anon_rcount = 0, rr_linked_rcount = 0, rr_writer_wanted = False\<rparr>
     (sys_mem rrw_start)\<rparr>"

definition rrw_wanted :: rrw_sys where
  "rrw_wanted = rrw_start\<lparr>sys_mem := set_lock 7 \<lparr>rr_writer = None, rr_anon_rcount = 1, rr_linked_rcount = 0, rr_writer_wanted = True\<rparr>
     (sys_mem rrw_start), sys_pc := (\<lambda>t. Running)(1 := Asleep RW_WRITER 7), holds := {#(0, 7)#}\<rparr>"

definition rrw_left :: rrw_sys where
  "rrw_left = rrw_start\<lparr>sys_mem := set_lock 7 \<lparr>rr_writer = None, rr_anon_rcount = 0, rr_linked_rcount = 0, rr_writer_wanted = True\<rparr>
     (sys_mem rrw_start), sys_pc := (\<lambda>t. Running)(1 := Awake RW_WRITER 7)\<rparr>"

lemma reach_written: "(rrw_step False tset)\<^sup>*\<^sup>* rrw_start rrw_written"
proof -
  have "rrw_step False tset rrw_start rrw_written"
    using rrw_step.enter [of rrw_start 0 True RW_WRITER 7 False tset "sys_mem rrw_written"]
    by (simp add: rrw_start_def rrw_written_def rrw_try_def rrw_enter_def rrw_enter_write_def rrw_write_loop_def require_def set_lock_def fun_upd_idem)
  then show ?thesis by blast
qed

lemma reach_wanted: "(rrw_step False tset)\<^sup>*\<^sup>* rrw_start rrw_wanted"
proof -
  let ?s = "rrw_start\<lparr>sys_mem := set_lock 7 \<lparr>rr_writer = None, rr_anon_rcount = 1, rr_linked_rcount = 0, rr_writer_wanted = False\<rparr> (sys_mem rrw_start),
    holds := {#(0, 7)#}\<rparr>"
  have "rrw_step False tset rrw_start ?s"
    using rrw_step.enter [of rrw_start 0 True RW_READER 7 False tset "sys_mem ?s"]
    by (simp add: rrw_start_def rrw_try_def rrw_enter_def rrw_enter_read_def set_lock_def fun_upd_idem)
  moreover have "rrw_step False tset ?s rrw_wanted"
    using rrw_step.wait [of ?s 1 True RW_WRITER 7 False tset "sys_mem rrw_wanted"]
    by (simp add: rrw_start_def rrw_wanted_def rrw_try_def rrw_enter_def rrw_enter_write_def rrw_write_loop_def require_def set_lock_def)
  ultimately show ?thesis by (meson converse_rtranclp_into_rtranclp r_into_rtranclp)
qed

lemma reach_left: "(rrw_step False tset)\<^sup>*\<^sup>* rrw_start rrw_left"
proof -
  have "wake_all 7 ((\<lambda>t. Running)(1 := Asleep RW_WRITER 7)) = (\<lambda>t. Running)(1 := Awake RW_WRITER 7)"
    by (auto simp: wake_all_def)
  then have "rrw_step False tset rrw_wanted rrw_left"
    using rrw_step.leave_read [of rrw_wanted 0 7 "{#}" False tset True "sys_mem rrw_left"]
    by (simp add: rrw_start_def rrw_wanted_def rrw_left_def rrw_exit_def set_lock_def)
  then show ?thesis using reach_wanted rtranclp.rtrancl_into_rtrancl by metis
qed

section \<open>Correctness\<close>

text \<open>
  C30. Mutual exclusion.  In every state that any number of threads reaches by entering and leaving locks, a lock is held for
  reading, as \<^verbatim>\<open>rrw_held\<close> reports, exactly when some thread has entered it for reading and not left it, and a lock that a
  thread holds for writing is held by no reader and by no other writer.
\<close>
theorem rrw_mutual_exclusion:
  assumes "(rrw_step debug tset)\<^sup>*\<^sup>* rrw_start s"
  shows "(rrw_held t l RW_READER (sys_mem s) \<longleftrightarrow> (\<exists>u. (u, l) \<in># holds s)) \<and>
    (rrw_held t l RW_WRITER (sys_mem s) \<longrightarrow>
      \<not> rrw_held u l RW_READER (sys_mem s) \<and> (rrw_held u l RW_WRITER (sys_mem s) \<longleftrightarrow> u = t))"
proof -
  obtain N A where c: "rrw_counts (sys_mem s) (holds s) N A" using rrw_invE [OF rrw_inv_reach [OF assms]] by blast
  have held: "rrw_held t l RW_READER (sys_mem s) \<longleftrightarrow> on_lock l (holds s) \<noteq> 0" for t
    using rrw_countsD(1,2,5) [OF c, of l] by (auto simp: rrw_held_def Let_def)
  then have "rrw_held t l RW_READER (sys_mem s) \<longleftrightarrow> (\<exists>u. (u, l) \<in># holds s)" using on_lock_0_iff by metis
  moreover have "\<not> rrw_held u l RW_READER (sys_mem s) \<and> (rrw_held u l RW_WRITER (sys_mem s) \<longleftrightarrow> u = t)"
    if "rrw_held t l RW_WRITER (sys_mem s)" using that c held [of u] by (auto simp: rrw_held_def rrw_counts_def Let_def)
  ultimately show ?thesis by blast
qed

theorem rrw_mutual_exclusion_witness:
  "rrw_held 0 7 RW_WRITER (sys_mem rrw_written) \<and> \<not> rrw_held 1 7 RW_READER (sys_mem rrw_written)"
proof -
  have "rrw_held 0 7 RW_WRITER (sys_mem rrw_written)" by (simp add: rrw_written_def rrw_held_def set_lock_def)
  with rrw_mutual_exclusion [OF reach_written [of tsd_set], where t = 0 and l = 7 and u = 1] show ?thesis by blast
qed

text \<open>
  C31. No wakeup is lost.  When a lock is free in a reachable state and a thread waits for it, some thread that waits for
  it is awake, and its loop enters the lock when it runs next.
\<close>
theorem rrw_progress:
  assumes "(rrw_step debug tset)\<^sup>*\<^sup>* rrw_start s" "rr_writer (rr_locks (sys_mem s) l) = None" "on_lock l (holds s) = 0"
    "sys_pc s u = Asleep rw l \<or> sys_pc s u = Awake rw l"
  shows "\<exists>t rw m. sys_pc s t = Awake rw l \<and> rrw_try debug tset False t l rw (sys_mem s) = Some (Entered m)"
proof -
  obtain N A where c: "rrw_counts (sys_mem s) (holds s) N A" and nl: "no_lost_wakeup (sys_mem s) (sys_pc s)"
    and ww: "\<And>k. rr_writer_wanted (rr_locks (sys_mem s) k) \<Longrightarrow> writer_waits (sys_pc s) k"
    using rrw_invE [OF rrw_inv_reach [OF assms(1)]] by blast
  have free: "\<not> must_wait (sys_mem s) t RW_WRITER l" for t using must_wait_iff(1) [OF c] assms(2,3) by simp
  then have writer: "sys_pc s t \<noteq> Asleep RW_WRITER l" for t using nl by (auto simp: no_lost_wakeup_def)
  have "\<exists>m. rrw_try debug tset False t l RW_WRITER (sys_mem s) = Some (Entered m)" for t
    using free by (auto simp: must_wait_def rrw_try_def rrw_write_loop_def Let_def)
  then have w: ?thesis if "sys_pc s t = Awake RW_WRITER l" for t using that by blast
  show ?thesis
  proof (cases "rr_writer_wanted (rr_locks (sys_mem s) l)")
    case True
    then show ?thesis using ww [OF True] w writer unfolding writer_waits_def by blast
  next
    case False
    then have "\<not> must_wait (sys_mem s) u rw l" using must_wait_iff [OF c, of u l] assms(2,3) by (cases rw) auto
    then have "sys_pc s u = Awake rw l" using assms(4) nl by (auto simp: no_lost_wakeup_def)
    then show ?thesis using w False assms(2)
      by (cases rw) (auto simp: rrw_try_def rrw_read_loop_def require_def set_lock_def Let_def)
  qed
qed

theorem rrw_progress_witness:
  "\<exists>t rw m. sys_pc rrw_left t = Awake rw 7 \<and> rrw_try False tsd_set False t 7 rw (sys_mem rrw_left) = Some (Entered m)"
  by (rule rrw_progress [OF reach_left, where u = 1 and rw = RW_WRITER]) (simp_all add: rrw_left_def rrw_start_def set_lock_def)

text \<open>
  Re-entry.  With a \<^verbatim>\<open>tsd_set\<close> that reports 0 a thread that holds a lock for reading enters it again at once, also when a
  writer is wanted, and the new hold is counted.
\<close>
lemma rrw_reentry:
  assumes "(rrw_step debug (\<lambda>_. True))\<^sup>*\<^sup>* rrw_start s" "(t, l) \<in># holds s"
  shows "\<exists>m. rrw_enter debug (\<lambda>_. True) t l RW_READER (sys_mem s) = Some (Entered m) \<and>
    rr_anon_rcount (rr_locks m l) + rr_linked_rcount (rr_locks m l) =
      rr_anon_rcount (rr_locks (sys_mem s) l) + rr_linked_rcount (rr_locks (sys_mem s) l) + 1"
proof -
  obtain N A where c: "rrw_counts (sys_mem s) (holds s) N A" using rrw_invE [OF rrw_inv_reach [OF assms(1)]] by blast
  note h = held_reader_enters [OF c assms(2)]
  show ?thesis using h
    by (auto simp: rrw_enter_def rrw_enter_read_def rrw_read_loop_def rrn_add_def require_def set_lock_def must_wait_def Let_def)
qed

text \<open>
  C32. The macro that stands for \<^verbatim>\<open>tsd_set\<close> in this port has the value that it assigns, not 0.  With it, a thread that holds a lock for
  reading and enters it again while a writer is wanted fails the \<^verbatim>\<open>VERIFY\<close> of \<^verbatim>\<open>rrn_add\<close>, in every reachable state.
\<close>
theorem rrw_reentry_panics:
  assumes "(rrw_step debug tsd_set)\<^sup>*\<^sup>* rrw_start s" "(t, l) \<in># holds s" "rr_writer_wanted (rr_locks (sys_mem s) l)"
  shows "rrw_enter debug tsd_set t l RW_READER (sys_mem s) = None"
proof -
  obtain N A where c: "rrw_counts (sys_mem s) (holds s) N A" using rrw_invE [OF rrw_inv_reach [OF assms(1)]] by blast
  show ?thesis using held_reader_enters [OF c assms(2)] assms(3)
    by (auto simp: rrw_enter_def rrw_enter_read_def rrw_read_loop_def rrn_add_def require_def must_wait_def tsd_set_def Let_def)
qed

theorem rrw_reentry_panics_witness: "rrw_enter False tsd_set 0 7 RW_READER (sys_mem rrw_wanted) = None"
  by (rule rrw_reentry_panics [OF reach_wanted]) (simp_all add: rrw_wanted_def set_lock_def)

end
