(* ===== verification/RaidzField.thy ===== *)
theory RaidzField
  imports Prelude
begin

text \<open>
  The arithmetic of RAID-Z parity (\<^verbatim>\<open>zfs/vdev_raidz.c\<close>): the field with 256 elements by its tables
  of powers and logarithms of 2, multiplication by powers of 2, and the multiplication by 2 of the eight bytes of a
  word at once.  The bytes become a type of class \<open>field\<close>, in which the parity equations are solved.
\<close>

section \<open>Definitions\<close>

definition VDEV_RAIDZ_MUL_2 :: "byte \<Rightarrow> byte" where
  "VDEV_RAIDZ_MUL_2 x = push_bit 1 x XOR (if x AND 0x80 \<noteq> 0 then 0x1d else 0)"

definition VDEV_RAIDZ_64MUL_2 :: "u64 \<Rightarrow> u64" where
  "VDEV_RAIDZ_64MUL_2 x =
     (let mask = x AND 0x8080808080808080;
          mask = push_bit 1 mask - drop_bit 7 mask
      in (push_bit 1 x AND 0xfefefefefefefefe) XOR (mask AND 0x1d1d1d1d1d1d1d1d))"

definition VDEV_RAIDZ_64MUL_4 :: "u64 \<Rightarrow> u64" where
  "VDEV_RAIDZ_64MUL_4 x = VDEV_RAIDZ_64MUL_2 (VDEV_RAIDZ_64MUL_2 x)"

definition vdev_raidz_pow2 :: "byte list" where
  "vdev_raidz_pow2 = [
      0x01, 0x02, 0x04, 0x08, 0x10, 0x20, 0x40, 0x80,
      0x1d, 0x3a, 0x74, 0xe8, 0xcd, 0x87, 0x13, 0x26,
      0x4c, 0x98, 0x2d, 0x5a, 0xb4, 0x75, 0xea, 0xc9,
      0x8f, 0x03, 0x06, 0x0c, 0x18, 0x30, 0x60, 0xc0,
      0x9d, 0x27, 0x4e, 0x9c, 0x25, 0x4a, 0x94, 0x35,
      0x6a, 0xd4, 0xb5, 0x77, 0xee, 0xc1, 0x9f, 0x23,
      0x46, 0x8c, 0x05, 0x0a, 0x14, 0x28, 0x50, 0xa0,
      0x5d, 0xba, 0x69, 0xd2, 0xb9, 0x6f, 0xde, 0xa1,
      0x5f, 0xbe, 0x61, 0xc2, 0x99, 0x2f, 0x5e, 0xbc,
      0x65, 0xca, 0x89, 0x0f, 0x1e, 0x3c, 0x78, 0xf0,
      0xfd, 0xe7, 0xd3, 0xbb, 0x6b, 0xd6, 0xb1, 0x7f,
      0xfe, 0xe1, 0xdf, 0xa3, 0x5b, 0xb6, 0x71, 0xe2,
      0xd9, 0xaf, 0x43, 0x86, 0x11, 0x22, 0x44, 0x88,
      0x0d, 0x1a, 0x34, 0x68, 0xd0, 0xbd, 0x67, 0xce,
      0x81, 0x1f, 0x3e, 0x7c, 0xf8, 0xed, 0xc7, 0x93,
      0x3b, 0x76, 0xec, 0xc5, 0x97, 0x33, 0x66, 0xcc,
      0x85, 0x17, 0x2e, 0x5c, 0xb8, 0x6d, 0xda, 0xa9,
      0x4f, 0x9e, 0x21, 0x42, 0x84, 0x15, 0x2a, 0x54,
      0xa8, 0x4d, 0x9a, 0x29, 0x52, 0xa4, 0x55, 0xaa,
      0x49, 0x92, 0x39, 0x72, 0xe4, 0xd5, 0xb7, 0x73,
      0xe6, 0xd1, 0xbf, 0x63, 0xc6, 0x91, 0x3f, 0x7e,
      0xfc, 0xe5, 0xd7, 0xb3, 0x7b, 0xf6, 0xf1, 0xff,
      0xe3, 0xdb, 0xab, 0x4b, 0x96, 0x31, 0x62, 0xc4,
      0x95, 0x37, 0x6e, 0xdc, 0xa5, 0x57, 0xae, 0x41,
      0x82, 0x19, 0x32, 0x64, 0xc8, 0x8d, 0x07, 0x0e,
      0x1c, 0x38, 0x70, 0xe0, 0xdd, 0xa7, 0x53, 0xa6,
      0x51, 0xa2, 0x59, 0xb2, 0x79, 0xf2, 0xf9, 0xef,
      0xc3, 0x9b, 0x2b, 0x56, 0xac, 0x45, 0x8a, 0x09,
      0x12, 0x24, 0x48, 0x90, 0x3d, 0x7a, 0xf4, 0xf5,
      0xf7, 0xf3, 0xfb, 0xeb, 0xcb, 0x8b, 0x0b, 0x16,
      0x2c, 0x58, 0xb0, 0x7d, 0xfa, 0xe9, 0xcf, 0x83,
      0x1b, 0x36, 0x6c, 0xd8, 0xad, 0x47, 0x8e, 0x01]"

definition vdev_raidz_log2 :: "nat list" where
  "vdev_raidz_log2 = [
      0x00, 0x00, 0x01, 0x19, 0x02, 0x32, 0x1a, 0xc6,
      0x03, 0xdf, 0x33, 0xee, 0x1b, 0x68, 0xc7, 0x4b,
      0x04, 0x64, 0xe0, 0x0e, 0x34, 0x8d, 0xef, 0x81,
      0x1c, 0xc1, 0x69, 0xf8, 0xc8, 0x08, 0x4c, 0x71,
      0x05, 0x8a, 0x65, 0x2f, 0xe1, 0x24, 0x0f, 0x21,
      0x35, 0x93, 0x8e, 0xda, 0xf0, 0x12, 0x82, 0x45,
      0x1d, 0xb5, 0xc2, 0x7d, 0x6a, 0x27, 0xf9, 0xb9,
      0xc9, 0x9a, 0x09, 0x78, 0x4d, 0xe4, 0x72, 0xa6,
      0x06, 0xbf, 0x8b, 0x62, 0x66, 0xdd, 0x30, 0xfd,
      0xe2, 0x98, 0x25, 0xb3, 0x10, 0x91, 0x22, 0x88,
      0x36, 0xd0, 0x94, 0xce, 0x8f, 0x96, 0xdb, 0xbd,
      0xf1, 0xd2, 0x13, 0x5c, 0x83, 0x38, 0x46, 0x40,
      0x1e, 0x42, 0xb6, 0xa3, 0xc3, 0x48, 0x7e, 0x6e,
      0x6b, 0x3a, 0x28, 0x54, 0xfa, 0x85, 0xba, 0x3d,
      0xca, 0x5e, 0x9b, 0x9f, 0x0a, 0x15, 0x79, 0x2b,
      0x4e, 0xd4, 0xe5, 0xac, 0x73, 0xf3, 0xa7, 0x57,
      0x07, 0x70, 0xc0, 0xf7, 0x8c, 0x80, 0x63, 0x0d,
      0x67, 0x4a, 0xde, 0xed, 0x31, 0xc5, 0xfe, 0x18,
      0xe3, 0xa5, 0x99, 0x77, 0x26, 0xb8, 0xb4, 0x7c,
      0x11, 0x44, 0x92, 0xd9, 0x23, 0x20, 0x89, 0x2e,
      0x37, 0x3f, 0xd1, 0x5b, 0x95, 0xbc, 0xcf, 0xcd,
      0x90, 0x87, 0x97, 0xb2, 0xdc, 0xfc, 0xbe, 0x61,
      0xf2, 0x56, 0xd3, 0xab, 0x14, 0x2a, 0x5d, 0x9e,
      0x84, 0x3c, 0x39, 0x53, 0x47, 0x6d, 0x41, 0xa2,
      0x1f, 0x2d, 0x43, 0xd8, 0xb7, 0x7b, 0xa4, 0x76,
      0xc4, 0x17, 0x49, 0xec, 0x7f, 0x0c, 0x6f, 0xf6,
      0x6c, 0xa1, 0x3b, 0x52, 0x29, 0x9d, 0x55, 0xaa,
      0xfb, 0x60, 0x86, 0xb1, 0xbb, 0xcc, 0x3e, 0x5a,
      0xcb, 0x59, 0x5f, 0xb0, 0x9c, 0xa9, 0xa0, 0x51,
      0x0b, 0xf5, 0x16, 0xeb, 0x7a, 0x75, 0x2c, 0xd7,
      0x4f, 0xae, 0xd5, 0xe9, 0xe6, 0xe7, 0xad, 0xe8,
      0x74, 0xd6, 0xf4, 0xea, 0xa8, 0x50, 0x58, 0xaf]"

text \<open>A given number times 2 raised to the given power; reading the table outside its bounds is an error.\<close>

definition vdev_raidz_exp2 :: "byte \<Rightarrow> int \<Rightarrow> byte option" where
  "vdev_raidz_exp2 a exp =
     (if a = 0 then Some 0
      else
        require (exp \<ge> 0 \<and> (vdev_raidz_log2 ! unat a > 0 \<or> a = 1))
          (let exp = exp + int (vdev_raidz_log2 ! unat a);
               exp = (if exp > 255 then exp - 255 else exp)
           in require (0 \<le> exp \<and> exp < 256) (Some (vdev_raidz_pow2 ! nat exp))))"

text \<open>A word as the machine stores it in eight bytes.\<close>

definition le64 :: "u64 \<Rightarrow> byte list" where
  "le64 w = map (\<lambda>i. ucast (drop_bit (8 * i) w)) [0..<8]"

definition of_le64 :: "byte list \<Rightarrow> u64" where
  "of_le64 bs = foldr (\<lambda>b w. ucast b OR push_bit 8 w) bs 0"

section \<open>The tables\<close>

lemma pow2_table: "map VDEV_RAIDZ_MUL_2 (butlast vdev_raidz_pow2) = tl vdev_raidz_pow2" "length vdev_raidz_pow2 = 256"
  by (simp_all add: vdev_raidz_pow2_def VDEV_RAIDZ_MUL_2_def)

lemma log2_table: "map (\<lambda>b. vdev_raidz_log2 ! unat b) (butlast vdev_raidz_pow2) = [0..<255]" "length vdev_raidz_log2 = 256"
  by (simp_all add: vdev_raidz_pow2_def vdev_raidz_log2_def upt_rec)

lemma pow2_log2_table: "map (\<lambda>i. vdev_raidz_pow2 ! i) (tl vdev_raidz_log2) = map of_nat [1..<256]"
  by (simp add: vdev_raidz_pow2_def vdev_raidz_log2_def upt_rec)

lemma unat_byte: "unat (b :: byte) < 256"
  using unsigned_less [of b] by simp

lemma pow2_Suc: "i < 255 \<Longrightarrow> vdev_raidz_pow2 ! Suc i = VDEV_RAIDZ_MUL_2 (vdev_raidz_pow2 ! i)"
  using arg_cong [OF pow2_table(1), of "\<lambda>xs. xs ! i"] by (simp add: pow2_table(2) nth_butlast nth_tl)

lemma log2_pow2: "i < 255 \<Longrightarrow> vdev_raidz_log2 ! unat (vdev_raidz_pow2 ! i) = i"
  using arg_cong [OF log2_table(1), of "\<lambda>xs. xs ! i"] by (simp add: pow2_table(2) nth_butlast)

lemma pow2_log2: 
  assumes "b \<noteq> 0"
  shows "vdev_raidz_pow2 ! (vdev_raidz_log2 ! unat b) = b"
proof -
  have b: "unat b < 256" "0 < unat b" using unat_byte [of b] assms by (simp_all add: unat_gt_0)
  then have "vdev_raidz_pow2 ! (tl vdev_raidz_log2 ! (unat b - 1)) = of_nat (unat b)"
    using arg_cong [OF pow2_log2_table, of "\<lambda>xs. xs ! (unat b - 1)"] by (simp add: log2_table(2))
  then show ?thesis using b by (simp add: nth_tl log2_table(2))
qed

lemma pow2_ends: "vdev_raidz_pow2 ! 0 = 1" "vdev_raidz_pow2 ! 255 = 1"
  by (simp_all add: vdev_raidz_pow2_def)

lemma log2_less: "(b :: byte) \<noteq> 0 \<Longrightarrow> vdev_raidz_log2 ! unat b < 255"
proof -
  assume "b \<noteq> 0"
  then obtain i where "i < 255" "b = vdev_raidz_pow2 ! i"
  proof -
    have "list_all (\<lambda>i. i < 255) vdev_raidz_log2" by (simp add: vdev_raidz_log2_def)
    then have "vdev_raidz_log2 ! unat b < 255" using unat_byte [of b] by (simp add: list_all_length log2_table(2))
    then show thesis using that [of "vdev_raidz_log2 ! unat b"] pow2_log2 [OF \<open>b \<noteq> 0\<close>] by simp
  qed
  then show ?thesis using log2_pow2 by simp
qed

section \<open>Multiplication by powers of 2\<close>

lemma MUL_2_xor: "VDEV_RAIDZ_MUL_2 (a XOR b) = VDEV_RAIDZ_MUL_2 a XOR VDEV_RAIDZ_MUL_2 b"
proof -
  have top: "x AND 0x80 \<noteq> 0 \<longleftrightarrow> bit x 7" for x :: byte
    by (simp add: bit_iff_and_push_bit_not_eq_0)
  show ?thesis
    by (intro bit_word_eqI) (auto simp: VDEV_RAIDZ_MUL_2_def top bit_simps)
qed

lemma MUL_2_0 [simp]: "VDEV_RAIDZ_MUL_2 0 = 0"
  by (simp add: VDEV_RAIDZ_MUL_2_def)

primrec mul_pow :: "nat \<Rightarrow> byte \<Rightarrow> byte" where
  "mul_pow 0 b = b"
| "mul_pow (Suc k) b = VDEV_RAIDZ_MUL_2 (mul_pow k b)"

lemma mul_pow_0 [simp]: "mul_pow k 0 = 0"
  by (induction k) auto

lemma mul_pow_xor: "mul_pow k (a XOR b) = mul_pow k a XOR mul_pow k b"
  by (induction k) (auto simp: MUL_2_xor)

lemma mul_pow_add: "mul_pow (j + k) b = mul_pow j (mul_pow k b)"
  by (induction j) auto

lemma mul_pow_comm: "mul_pow j (mul_pow k b) = mul_pow k (mul_pow j b)"
  by (metis mul_pow_add add.commute)

lemma pow2_mul_pow: "i \<le> 255 \<Longrightarrow> vdev_raidz_pow2 ! i = mul_pow i 1"
  by (induction i) (auto simp: pow2_Suc pow2_ends)

lemma mul_pow_255_1: "mul_pow 255 1 = 1"
  using pow2_mul_pow [of 255] pow2_ends by simp

lemma mul_pow_255: "mul_pow 255 b = b"
proof (cases "b = 0")
  case False
  then have b: "b = mul_pow (vdev_raidz_log2 ! unat b) 1" using pow2_log2 [OF False] pow2_mul_pow log2_less [OF False] by simp
  show ?thesis by (subst (1 2) b) (simp add: mul_pow_comm [of 255] mul_pow_255_1)
qed simp

lemma mul_pow_mod: "mul_pow (k mod 255) b = mul_pow k b"
proof -
  have "mul_pow (255 * n) b = b" for n
    by (induction n) (simp_all add: mul_pow_add mul_pow_255)
  then show ?thesis using mul_pow_add [of "k mod 255" "255 * (k div 255)" b] by simp
qed

lemma exp2_mul_pow: "k \<le> 255 \<Longrightarrow> vdev_raidz_exp2 a (int k) = Some (mul_pow k a)"
proof (cases "a = 0")
  case False
  assume k: "k \<le> 255"
  let ?l = "vdev_raidz_log2 ! unat a"
  have l: "?l < 255" "a = mul_pow ?l 1" using log2_less [OF False] pow2_log2 [OF False] pow2_mul_pow by auto
  have one: "?l > 0 \<or> a = 1" using l(2) by (cases "?l") auto
  define e where "e = (if k + ?l > 255 then k + ?l - 255 else k + ?l)"
  have e: "e \<le> 255" "e mod 255 = (k + ?l) mod 255" using k l(1) by (auto simp: e_def le_mod_geq)
  have "vdev_raidz_pow2 ! e = mul_pow (k + ?l) 1" using pow2_mul_pow [OF e(1)] e(2) mul_pow_mod by metis
  then have "vdev_raidz_pow2 ! e = mul_pow k a" using l(2) mul_pow_add by metis
  moreover have "nat (if int k + int ?l > 255 then int k + int ?l - 255 else int k + int ?l) = e" by (auto simp: e_def)
  ultimately show ?thesis using False one e(1) k l(1) by (auto simp: vdev_raidz_exp2_def Let_def)
qed (simp add: vdev_raidz_exp2_def)

section \<open>The field\<close>

definition gmul :: "byte \<Rightarrow> byte \<Rightarrow> byte" where
  "gmul a b = (if a = 0 then 0 else mul_pow (vdev_raidz_log2 ! unat a) b)"

lemma gmul_pow: "gmul (mul_pow k 1) b = mul_pow k b"
proof -
  have "mul_pow k 1 = mul_pow (k mod 255) 1" by (simp add: mul_pow_mod)
  moreover have "mul_pow (k mod 255) 1 \<noteq> 0" for k
  proof
    assume "mul_pow (k mod 255) 1 = 0"
    then have "mul_pow (255 - k mod 255) (mul_pow (k mod 255) 1) = 0" by simp
    then have "mul_pow (255 - k mod 255 + k mod 255) 1 = 0" by (simp only: mul_pow_add)
    then show False by (simp add: mul_pow_255_1)
  qed
  moreover have "vdev_raidz_log2 ! unat (mul_pow (k mod 255) 1) = k mod 255"
    using log2_pow2 [of "k mod 255"] pow2_mul_pow [of "k mod 255"] by simp
  ultimately show ?thesis by (simp add: gmul_def mul_pow_mod)
qed

lemma nonzero_pow: "a \<noteq> 0 \<Longrightarrow> \<exists>k<255. a = mul_pow k 1"
  using pow2_log2 pow2_mul_pow log2_less by (metis less_imp_le)

lemma gmul_0 [simp]: "gmul 0 b = 0" "gmul b 0 = 0"
  by (simp_all add: gmul_def)

lemma gmul_comm: "gmul a b = gmul b a"
proof (cases "a = 0 \<or> b = 0")
  case False
  then obtain j k where "a = mul_pow j 1" "b = mul_pow k 1" using nonzero_pow by metis
  then show ?thesis by (simp add: gmul_pow mul_pow_comm)
qed auto

lemma gmul_assoc: "gmul (gmul a b) c = gmul a (gmul b c)"
proof (cases "a = 0 \<or> b = 0")
  case False
  then obtain j k where "a = mul_pow j 1" "b = mul_pow k 1" using nonzero_pow by metis
  then show ?thesis by (simp add: gmul_pow flip: mul_pow_add)
qed auto

lemma gmul_xor: "gmul c (a XOR b) = gmul c a XOR gmul c b"
  by (simp add: gmul_def mul_pow_xor)

typedef gf = "UNIV :: byte set" ..

setup_lifting type_definition_gf

instantiation gf :: field
begin

lift_definition zero_gf :: gf is 0 .

lift_definition one_gf :: gf is 1 .

lift_definition plus_gf :: "gf \<Rightarrow> gf \<Rightarrow> gf" is "(XOR)" .

lift_definition minus_gf :: "gf \<Rightarrow> gf \<Rightarrow> gf" is "(XOR)" .

lift_definition uminus_gf :: "gf \<Rightarrow> gf" is "\<lambda>a. a" .

lift_definition times_gf :: "gf \<Rightarrow> gf \<Rightarrow> gf" is gmul .

lift_definition inverse_gf :: "gf \<Rightarrow> gf" is "\<lambda>a. if a = 0 then 0 else mul_pow (255 - vdev_raidz_log2 ! unat a) 1" .

definition divide_gf :: "gf \<Rightarrow> gf \<Rightarrow> gf" where
  "divide_gf a b = a * inverse b"

instance
proof
  fix a b c :: gf
  show "a * b * c = a * (b * c)" by transfer (rule gmul_assoc)
  show "a * b = b * a" by transfer (rule gmul_comm)
  show "1 * a = a" by transfer (use gmul_pow [of 0] in simp)
  show "a + b + c = a + (b + c)" by transfer (simp add: xor.assoc)
  show "a + b = b + a" by transfer (simp add: xor.commute)
  show "0 + a = a" by transfer simp
  show "- a + a = 0" by transfer simp
  show "a - b = a + - b" by transfer simp
  show "(a + b) * c = a * c + b * c" by transfer (metis gmul_comm gmul_xor)
  show "0 \<noteq> (1 :: gf)" by transfer simp
  show "a \<noteq> 0 \<Longrightarrow> inverse a * a = 1"
  proof transfer
    fix a :: byte
    assume a: "a \<noteq> 0"
    let ?l = "vdev_raidz_log2 ! unat a"
    have l: "a = mul_pow ?l 1" "?l < 255" using pow2_log2 [OF a] pow2_mul_pow log2_less [OF a] by auto
    have "gmul (mul_pow (255 - ?l) 1) (mul_pow ?l 1) = mul_pow (255 - ?l + ?l) 1" by (simp only: gmul_pow mul_pow_add)
    then have "gmul (mul_pow (255 - ?l) 1) a = mul_pow 255 1" using l by simp
    then show "gmul (if a = 0 then 0 else mul_pow (255 - ?l) 1) a = 1" using a mul_pow_255_1 by simp
  qed
  show "a div b = a * inverse b" by (rule divide_gf_def)
  show "inverse (0 :: gf) = 0" by transfer simp
qed

end

lemma gf_double [simp]: "a + a = (0 :: gf)"
  by transfer simp

lemma gf_uminus [simp]: "- a = (a :: gf)"
  by transfer simp

lemma gf_minus [simp]: "a - b = (a + b :: gf)"
  by transfer simp

lemma gf_add_self [simp]: "a + (a + b) = (b :: gf)"
  by transfer simp

lemma gf_numeral [simp]: "numeral (num.Bit0 k) = (0 :: gf)" "numeral (num.Bit1 k) = (1 :: gf)"
  by (simp_all only: numeral.simps gf_double add_0_left)

lemma gf_add_eq_0: "a + b = 0 \<longleftrightarrow> a = (b :: gf)"
  by (metis gf_double gf_add_self add.right_neutral)

section \<open>Bytes as field elements\<close>

definition gf_of :: "byte \<Rightarrow> gf" where
  "gf_of = Abs_gf"

abbreviation gen :: gf where
  "gen \<equiv> gf_of 2"

lemma gf_of_simps [simp]: "gf_of 0 = 0" "gf_of 1 = 1" "gf_of (a XOR b) = gf_of a + gf_of b" "gf_of a = gf_of b \<longleftrightarrow> a = b"
  by (simp_all add: gf_of_def zero_gf.abs_eq one_gf.abs_eq plus_gf.abs_eq Abs_gf_inject)

lemma gf_of_eq_0 [simp]: "gf_of a = 0 \<longleftrightarrow> a = 0"
  using gf_of_simps(1,4) by metis

lemma gf_of_MUL_2: "gf_of (VDEV_RAIDZ_MUL_2 b) = gen * gf_of b"
proof -
  have "VDEV_RAIDZ_MUL_2 1 = 2" by (simp add: VDEV_RAIDZ_MUL_2_def)
  then have "VDEV_RAIDZ_MUL_2 b = gmul 2 b" using gmul_pow [of 1 b] by simp
  then show ?thesis by (simp add: gf_of_def times_gf.abs_eq)
qed

lemma gf_of_mul_pow: "gf_of (mul_pow k b) = gen ^ k * gf_of b"
  by (induction k) (simp_all add: gf_of_MUL_2)

lemma gf_of_pow2: "k \<le> 255 \<Longrightarrow> gf_of (vdev_raidz_pow2 ! k) = gen ^ k"
  by (simp add: pow2_mul_pow gf_of_mul_pow)

lemma gf_of_log2: "b \<noteq> 0 \<Longrightarrow> gen ^ (vdev_raidz_log2 ! unat b) = gf_of b"
  using gf_of_pow2 [of "vdev_raidz_log2 ! unat b"] log2_less [of b] pow2_log2 [of b] by simp

lemma gen_255 [simp]: "gen ^ 255 = 1"
  using gf_of_pow2 [of 255] pow2_ends by simp

lemma gen_nonzero [simp]: "gen \<noteq> 0"
  by simp

lemma gen_minus: "k \<le> 255 \<Longrightarrow> gen ^ (255 - k) = inverse (gen ^ k)"
proof -
  assume "k \<le> 255"
  then have "gen ^ (255 - k) * gen ^ k = 1" by (simp flip: power_add)
  then show ?thesis by (metis inverse_unique mult.commute)
qed

lemma gen_inj: "i < 255 \<Longrightarrow> j < 255 \<Longrightarrow> gen ^ i = gen ^ j \<Longrightarrow> i = j"
  by (metis gf_of_pow2 gf_of_simps(4) less_imp_le log2_pow2)

lemma exp2_gf:
  assumes "0 \<le> k" "k \<le> 255"
  obtains r where "vdev_raidz_exp2 a k = Some r" "gf_of r = gen ^ nat k * gf_of a"
  using exp2_mul_pow [of "nat k" a] gf_of_mul_pow [of "nat k" a] assms that by auto

text \<open>Multiplication and division by an element given by its logarithm.\<close>

lemma exp2_log2:
  assumes "e \<noteq> 0"
  obtains r where "vdev_raidz_exp2 a (int (vdev_raidz_log2 ! unat e)) = Some r" "gf_of r = gf_of e * gf_of a"
  using exp2_gf [of "int (vdev_raidz_log2 ! unat e)" a] log2_less [OF assms] gf_of_log2 [OF assms] by auto

lemma exp2_div:
  assumes "e \<noteq> 0"
  obtains r where "vdev_raidz_exp2 a (255 - int (vdev_raidz_log2 ! unat e)) = Some r" "gf_of r = gf_of a / gf_of e"
proof -
  let ?l = "vdev_raidz_log2 ! unat e"
  have l: "?l < 255" using log2_less [OF assms] .
  obtain r where "vdev_raidz_exp2 a (255 - int ?l) = Some r" "gf_of r = gen ^ nat (255 - int ?l) * gf_of a"
    using exp2_gf [of "255 - int ?l" a] l by auto
  moreover have "nat (255 - int ?l) = 255 - ?l" by simp
  ultimately show ?thesis using that gen_minus [of ?l] gf_of_log2 [OF assms] l by (simp add: divide_inverse mult.commute)
qed

section \<open>Words of eight bytes\<close>

lemma length_le64 [simp]: "length (le64 w) = 8"
  by (simp add: le64_def)

lemma bit_le64: "i < 8 \<Longrightarrow> bit (le64 w ! i) j \<longleftrightarrow> j < 8 \<and> bit w (8 * i + j)"
  by (auto simp: le64_def bit_simps)

lemma bit_of_le64: "bit (of_le64 bs) n \<longleftrightarrow> n < 64 \<and> n div 8 < length bs \<and> bit (bs ! (n div 8)) (n mod 8)"
proof (induction bs arbitrary: n)
  case (Cons b bs)
  show ?case
  proof (cases "n < 8")
    case True
    then show ?thesis by (auto simp: of_le64_def bit_simps)
  next
    case False
    then have "(b # bs) ! (n div 8) = bs ! ((n - 8) div 8)" "(n - 8) mod 8 = n mod 8" "n div 8 = Suc ((n - 8) div 8)"
      by (auto simp: le_div_geq le_mod_geq)
    then show ?thesis using False Cons [of "n - 8"] by (auto simp: of_le64_def bit_simps not_bit_byte)
  qed
qed (simp add: of_le64_def)

lemma le64_of_le64 [simp]: "length bs = 8 \<Longrightarrow> le64 (of_le64 bs) = bs"
  by (intro nth_equalityI bit_word_eqI) (auto simp: bit_le64 bit_of_le64)

lemma of_le64_le64 [simp]: "of_le64 (le64 w) = w"
  by (intro bit_word_eqI) (auto simp: bit_of_le64 bit_le64)

lemma le64_xor: "le64 (a XOR b) = map2 (XOR) (le64 a) (le64 b)"
  by (intro nth_equalityI bit_word_eqI) (auto simp: bit_le64 bit_simps)

lemma le64_0: "le64 0 = replicate 8 0"
  by (intro nth_equalityI bit_word_eqI) (auto simp: bit_le64)

text \<open>Bits of the constants: a pattern repeated in every byte.\<close>

lemma replicate_8: "replicate 8 b = [b, b, b, b, b, b, b, b]"
  by (simp add: numeral_eq_Suc)

lemma pattern_eq:
  "0x8080808080808080 = of_le64 (replicate 8 0x80)" "0xfefefefefefefefe = of_le64 (replicate 8 0xfe)" "0x1d1d1d1d1d1d1d1d = of_le64 (replicate 8 0x1d)"
  by (simp_all add: of_le64_def replicate_8)

lemma bit_pattern: "bit (of_le64 (replicate 8 b)) n \<longleftrightarrow> n < 64 \<and> bit b (n mod 8)"
  by (auto simp: bit_of_le64)

lemma less_8_cases: "(k :: nat) < 8 \<Longrightarrow> k = 0 \<or> k = 1 \<or> k = 2 \<or> k = 3 \<or> k = 4 \<or> k = 5 \<or> k = 6 \<or> k = 7"
  by linarith

lemma bit_byte_consts:
  "k < 8 \<Longrightarrow> bit (0x80 :: byte) k \<longleftrightarrow> k = 7" "k < 8 \<Longrightarrow> bit (0xfe :: byte) k \<longleftrightarrow> k \<noteq> 0" "k < 8 \<Longrightarrow> bit (0x1d :: byte) k \<longleftrightarrow> k \<in> {0, 2, 3, 4}"
  by (drule less_8_cases, elim disjE; simp)+

text \<open>Doubling the number of bits of a byte to which the lowest one is spread.\<close>

lemma spread:
  fixes d e :: u64
  assumes "\<And>n. n < 64 \<Longrightarrow> bit e n \<longleftrightarrow> n mod 8 < k \<and> bit d (8 * (n div 8))" "2 * k \<le> 8" "n < 64"
  shows "bit (e + push_bit k e) n \<longleftrightarrow> n mod 8 < 2 * k \<and> bit d (8 * (n div 8))"
proof -
  have sh: "bit (push_bit k e) n \<longleftrightarrow> k \<le> n mod 8 \<and> n mod 8 < 2 * k \<and> bit d (8 * (n div 8))" if "n < 64" for n
  proof (cases "k \<le> n mod 8")
    case True
    define q r where "q = n div 8" and "r = n mod 8"
    then have "n = 8 * q + r" "r < 8" "k \<le> r" using True by simp_all
    then obtain t where "r = k + t" using le_Suc_ex by blast
    then have "k \<le> n" "n - k = 8 * q + t" "t < 8" using \<open>n = 8 * q + r\<close> \<open>r < 8\<close> by simp_all
    then have "k \<le> n" "(n - k) mod 8 = n mod 8 - k" "(n - k) div 8 = n div 8" using \<open>r = k + t\<close> by (simp_all flip: q_def r_def)
    moreover have "n mod 8 - k < k \<longleftrightarrow> n mod 8 < 2 * k" using True by linarith
    ultimately show ?thesis using True that assms(1) [of "n - k"] by (auto simp: bit_simps)
  next
    case False
    define q r where "q = n div 8" and "r = n mod 8"
    then have qr: "n = 8 * q + r" "r < k" using False by simp_all
    have "\<not> (n - k) mod 8 < k" if "k \<le> n"
    proof -
      have "0 < q" using qr that by (cases q) auto
      then have "n - k = 8 * (q - 1) + (8 + r - k)" "8 + r - k < 8" using qr assms(2) by (auto simp: diff_mult_distrib2)
      then have "(n - k) mod 8 = 8 + r - k" by (metis mod_less mod_mult_self4)
      then show ?thesis using assms(2) by simp
    qed
    then show ?thesis using False that assms(1) [of "n - k"] by (auto simp: bit_simps)
  qed
  have "e AND push_bit k e = 0" by (intro bit_word_eqI) (use sh assms(1) in \<open>auto simp: bit_simps\<close>)
  then have "e + push_bit k e = e OR push_bit k e" by (rule disjunctive_add_eq_or)
  then show ?thesis using sh [OF assms(3)] assms(1) [OF assms(3)] assms(2) by (auto simp: bit_or_iff)
qed

lemma mask_bits:
  fixes x :: u64
  defines "m \<equiv> x AND 0x8080808080808080"
  assumes "n < 64"
  shows "bit (push_bit 1 m - drop_bit 7 m) n \<longleftrightarrow> bit x (8 * (n div 8) + 7)"
proof -
  define d where "d = drop_bit 7 m"
  have m: "bit m n \<longleftrightarrow> n < 64 \<and> n mod 8 = 7 \<and> bit x n" for n
    using bit_byte_consts(1) [of "n mod 8"] by (auto simp: m_def pattern_eq(1) bit_pattern bit_and_iff)
  have d: "bit d n \<longleftrightarrow> n mod 8 = 0 \<and> bit x (n + 7)" for n
  proof -
    have "(n + 7) mod 8 = 7 \<longleftrightarrow> n mod 8 = 0" by presburger
    moreover have "bit x (n + 7) \<Longrightarrow> n + 7 < 64" by (auto dest: bit_imp_le_length)
    ultimately show ?thesis using m [of "n + 7"] by (auto simp: d_def bit_drop_bit_eq add.commute)
  qed
  have le: "n mod 8 = 7 \<Longrightarrow> 7 \<le> n" for n :: nat using mod_less_eq_dividend [of n 8] by simp
  have "m = push_bit 7 d" by (intro bit_word_eqI) (use m le in \<open>auto simp: d_def bit_push_bit_iff bit_drop_bit_eq\<close>)
  then have "push_bit 1 m = push_bit 8 d" by simp
  also have "\<dots> = d * 256" by (simp add: push_bit_eq_mult)
  finally have "push_bit 1 m - drop_bit 7 m = d * 256 - d" by (simp add: d_def)
  also have "\<dots> = d * 255" by simp
  also have "\<dots> = (d + push_bit 1 d) + push_bit 2 (d + push_bit 1 d) + push_bit 4 ((d + push_bit 1 d) + push_bit 2 (d + push_bit 1 d))"
    by (simp add: push_bit_eq_mult algebra_simps)
  finally have eq: "push_bit 1 m - drop_bit 7 m = (d + push_bit 1 d) + push_bit 2 (d + push_bit 1 d) + push_bit 4 ((d + push_bit 1 d) + push_bit 2 (d + push_bit 1 d))" .
  have d0: "bit d n \<longleftrightarrow> n mod 8 < 1 \<and> bit d (8 * (n div 8))" for n
  proof (cases "n mod 8 = 0")
    case True
    then have "8 * (n div 8) = n" by (metis add.right_neutral mult_div_mod_eq)
    then show ?thesis using True by simp
  next
    case False
    then show ?thesis using d [of n] by simp
  qed
  define e where "e = d + push_bit 1 d"
  have e: "bit e n \<longleftrightarrow> n mod 8 < 2 \<and> bit d (8 * (n div 8))" if "n < 64" for n
    using spread [OF d0, of n] that by (simp only: e_def) simp
  define f where "f = e + push_bit 2 e"
  have f: "bit f n \<longleftrightarrow> n mod 8 < 4 \<and> bit d (8 * (n div 8))" if "n < 64" for n
    using spread [OF e, of n] that by (simp only: f_def) simp
  have "bit (f + push_bit 4 f) n \<longleftrightarrow> bit d (8 * (n div 8))" using spread [OF f _ assms(2)] by simp
  then show ?thesis unfolding eq e_def [symmetric] f_def [symmetric] using d [of "8 * (n div 8)"] by simp
qed

text \<open>Multiplying a word multiplies each of its bytes.\<close>

lemma le64_MUL_2: "le64 (VDEV_RAIDZ_64MUL_2 x) = map VDEV_RAIDZ_MUL_2 (le64 x)"
proof (intro nth_equalityI bit_word_eqI)
  fix i j
  assume "i < length (le64 (VDEV_RAIDZ_64MUL_2 x))" "j < LENGTH(8)"
  then have ij: "i < 8" "j < 8" "8 * i + j < 64" "(8 * i + j) div 8 = i" "(8 * i + j) mod 8 = j" by simp_all
  have top: "b AND 0x80 \<noteq> 0 \<longleftrightarrow> bit b 7" for b :: byte by (simp add: bit_iff_and_push_bit_not_eq_0)
  define P where "P \<longleftrightarrow> (j \<noteq> 0 \<and> bit x (8 * i + j - 1)) \<noteq> (j \<in> {0, 2, 3, 4} \<and> bit x (8 * i + 7))"
  let ?mask = "push_bit 1 (x AND 0x8080808080808080) - drop_bit 7 (x AND 0x8080808080808080)"
  have "bit ?mask (8 * i + j) \<longleftrightarrow> bit x (8 * i + 7)" using mask_bits [OF ij(3), of x] ij(4) by simp
  moreover have "bit (0xfefefefefefefefe :: u64) (8 * i + j) \<longleftrightarrow> j \<noteq> 0" "bit (0x1d1d1d1d1d1d1d1d :: u64) (8 * i + j) \<longleftrightarrow> j \<in> {0, 2, 3, 4}"
    unfolding pattern_eq(2,3) bit_pattern ij(5) using bit_byte_consts(2,3) [OF ij(2)] ij(3) by blast+
  moreover have "bit (push_bit 1 x) (8 * i + j) \<longleftrightarrow> 1 \<le> 8 * i + j \<and> bit x (8 * i + j - 1)" unfolding bit_push_bit_iff using ij(3) by simp
  ultimately have "bit (VDEV_RAIDZ_64MUL_2 x) (8 * i + j) \<longleftrightarrow> P"
    unfolding VDEV_RAIDZ_64MUL_2_def Let_def bit_xor_iff bit_and_iff P_def by auto
  moreover have "bit (push_bit 1 (le64 x ! i)) j \<longleftrightarrow> j \<noteq> 0 \<and> bit x (8 * i + j - 1)"
    unfolding bit_push_bit_iff using ij bit_le64 [of i x "j - 1"] by (cases j) simp_all
  moreover have "bit (if le64 x ! i AND 0x80 \<noteq> 0 then 0x1d else 0 :: byte) j \<longleftrightarrow> j \<in> {0, 2, 3, 4} \<and> bit x (8 * i + 7)"
    unfolding top using bit_le64 [OF ij(1), of x 7] bit_byte_consts(3) [OF ij(2)] by auto
  ultimately have "bit (VDEV_RAIDZ_64MUL_2 x) (8 * i + j) \<longleftrightarrow> bit (VDEV_RAIDZ_MUL_2 (le64 x ! i)) j"
    unfolding VDEV_RAIDZ_MUL_2_def bit_xor_iff P_def by blast
  then show "bit (le64 (VDEV_RAIDZ_64MUL_2 x) ! i) j \<longleftrightarrow> bit (map VDEV_RAIDZ_MUL_2 (le64 x) ! i) j"
    using ij by (simp add: bit_le64)
qed simp

end
