(* ===== verification/Raidz.thy ===== *)
theory Raidz
  imports RaidzField
begin

text \<open>
  RAID-Z (\<^verbatim>\<open>zfs/vdev_raidz.c\<close>): the map of an I/O onto the columns of the devices, the generation of
  parity and the reconstruction of missing columns.  A column owns the bytes of its buffer; buffers are disjoint.
  A loop that runs over several destination buffers at once is written as one loop for each of them.  Column counts and sizes
  are natural numbers, computed on 64-bit words where the map is made.  The contents of a new buffer are
  unspecified: \<open>alloc\<close> gives them.  A failed \<^verbatim>\<open>ASSERT\<close> and an access outside a buffer or table are \<open>None\<close>.
  The fields that only the reports of checksum errors use (\<^verbatim>\<open>rc_gdata\<close>, \<^verbatim>\<open>rm_datacopy\<close>, \<^verbatim>\<open>rm_reports\<close>, \<^verbatim>\<open>rm_freed\<close>,
  \<^verbatim>\<open>rm_ecksuminjected\<close>) are left out.
\<close>

section \<open>Data\<close>

record raidz_col =
  rc_devidx :: nat
  rc_offset :: u64
  rc_size :: nat
  rc_data :: "byte list"
  rc_error :: int
  rc_tried :: bool
  rc_skipped :: bool

record raidz_map =
  rm_cols :: nat
  rm_scols :: nat
  rm_bigcols :: nat
  rm_asize :: u64
  rm_missingdata :: nat
  rm_missingparity :: nat
  rm_firstdatacol :: nat
  rm_nskip :: nat
  rm_skipstart :: nat
  rm_col :: "raidz_col list"

definition VDEV_RAIDZ_P :: nat where "VDEV_RAIDZ_P = 0"
definition VDEV_RAIDZ_Q :: nat where "VDEV_RAIDZ_Q = 1"
definition VDEV_RAIDZ_R :: nat where "VDEV_RAIDZ_R = 2"
definition VDEV_RAIDZ_MAXPARITY :: nat where "VDEV_RAIDZ_MAXPARITY = 3"

definition set_data :: "nat \<Rightarrow> byte list \<Rightarrow> raidz_map \<Rightarrow> raidz_map" where
  "set_data c d rm = rm\<lparr>rm_col := (rm_col rm)[c := (rm_col rm ! c)\<lparr>rc_data := d\<rparr>]\<rparr>"

definition set_size :: "nat \<Rightarrow> nat \<Rightarrow> raidz_map \<Rightarrow> raidz_map" where
  "set_size c n rm = rm\<lparr>rm_col := (rm_col rm)[c := (rm_col rm ! c)\<lparr>rc_size := n\<rparr>]\<rparr>"

abbreviation col_data :: "raidz_map \<Rightarrow> nat \<Rightarrow> byte list" where
  "col_data rm c \<equiv> rc_data (rm_col rm ! c)"

abbreviation col_size :: "raidz_map \<Rightarrow> nat \<Rightarrow> nat" where
  "col_size rm c \<equiv> rc_size (rm_col rm ! c)"

text \<open>Running through a list with a state and failures.\<close>

fun foldM :: "('a \<Rightarrow> 's \<Rightarrow> 's option) \<Rightarrow> 'a list \<Rightarrow> 's \<Rightarrow> 's option" where
  "foldM f [] s = Some s"
| "foldM f (x # xs) s = Option.bind (f x s) (foldM f xs)"

section \<open>Loops over the words of a buffer\<close>

text \<open>The first \<open>m\<close> words of a buffer are combined with those of a source, the next \<open>n\<close> words changed alone.\<close>

fun word_loops :: "nat \<Rightarrow> nat \<Rightarrow> (u64 \<Rightarrow> u64 \<Rightarrow> u64) \<Rightarrow> (u64 \<Rightarrow> u64) \<Rightarrow> byte list \<Rightarrow> byte list \<Rightarrow> byte list option" where
  "word_loops 0 0 f g dst src = Some dst"
| "word_loops 0 (Suc n) f g dst src =
     (if length dst < 8 then None
      else map_option ((@) (le64 (g (of_le64 (take 8 dst))))) (word_loops 0 n f g (drop 8 dst) src))"
| "word_loops (Suc m) n f g dst src =
     (if length dst < 8 \<or> length src < 8 then None
      else map_option ((@) (le64 (f (of_le64 (take 8 dst)) (of_le64 (take 8 src))))) (word_loops m n f g (drop 8 dst) (drop 8 src)))"

section \<open>Parity\<close>

definition parity_p_col :: "nat \<Rightarrow> raidz_map \<Rightarrow> raidz_map option" where
  "parity_p_col c rm =
     (let pcount = col_size rm VDEV_RAIDZ_P div 8;
          ccount = col_size rm c div 8
      in if c = rm_firstdatacol rm
         then require (ccount = pcount)
           (map_option (\<lambda>p. set_data VDEV_RAIDZ_P p rm) (word_loops ccount 0 (\<lambda>p s. s) id (col_data rm VDEV_RAIDZ_P) (col_data rm c)))
         else require (ccount \<le> pcount)
           (map_option (\<lambda>p. set_data VDEV_RAIDZ_P p rm) (word_loops ccount 0 (XOR) id (col_data rm VDEV_RAIDZ_P) (col_data rm c))))"

definition vdev_raidz_generate_parity_p :: "raidz_map \<Rightarrow> raidz_map option" where
  "vdev_raidz_generate_parity_p rm = foldM parity_p_col [rm_firstdatacol rm..<rm_cols rm] rm"

definition mul_xor :: "(u64 \<Rightarrow> u64) \<Rightarrow> u64 \<Rightarrow> u64 \<Rightarrow> u64" where
  "mul_xor mul q s = mul q XOR s"

text \<open>One parity buffer and one data column: the first column is copied and filled up with zeros, the others are
  added to the parity, which is multiplied before.\<close>

definition parity_buf :: "bool \<Rightarrow> (u64 \<Rightarrow> u64) \<Rightarrow> nat \<Rightarrow> nat \<Rightarrow> byte list \<Rightarrow> byte list \<Rightarrow> byte list option" where
  "parity_buf first mul ccnt pcnt src q =
     (if first then word_loops ccnt (pcnt - ccnt) (\<lambda>q s. s) (\<lambda>q. 0) q src
      else word_loops ccnt (pcnt - ccnt) (mul_xor mul) mul q src)"

definition parity_pq_col :: "nat \<Rightarrow> raidz_map \<Rightarrow> raidz_map option" where
  "parity_pq_col c rm =
     (let pcnt = col_size rm VDEV_RAIDZ_P div 8;
          ccnt = col_size rm c div 8;
          first = (c = rm_firstdatacol rm)
      in require (if first then ccnt = pcnt \<or> ccnt = 0 else ccnt \<le> pcnt)
        (Option.bind (parity_buf first id ccnt pcnt (col_data rm c) (col_data rm VDEV_RAIDZ_P)) (\<lambda>p.
         Option.bind (parity_buf first VDEV_RAIDZ_64MUL_2 ccnt pcnt (col_data rm c) (col_data rm VDEV_RAIDZ_Q)) (\<lambda>q.
           Some (set_data VDEV_RAIDZ_Q q (set_data VDEV_RAIDZ_P p rm))))))"

definition vdev_raidz_generate_parity_pq :: "raidz_map \<Rightarrow> raidz_map option" where
  "vdev_raidz_generate_parity_pq rm =
     require (col_size rm VDEV_RAIDZ_P = col_size rm VDEV_RAIDZ_Q)
       (foldM parity_pq_col [rm_firstdatacol rm..<rm_cols rm] rm)"

definition parity_pqr_col :: "nat \<Rightarrow> raidz_map \<Rightarrow> raidz_map option" where
  "parity_pqr_col c rm =
     (let pcnt = col_size rm VDEV_RAIDZ_P div 8;
          ccnt = col_size rm c div 8;
          first = (c = rm_firstdatacol rm)
      in require (if first then ccnt = pcnt \<or> ccnt = 0 else ccnt \<le> pcnt)
        (Option.bind (parity_buf first id ccnt pcnt (col_data rm c) (col_data rm VDEV_RAIDZ_P)) (\<lambda>p.
         Option.bind (parity_buf first VDEV_RAIDZ_64MUL_2 ccnt pcnt (col_data rm c) (col_data rm VDEV_RAIDZ_Q)) (\<lambda>q.
         Option.bind (parity_buf first VDEV_RAIDZ_64MUL_4 ccnt pcnt (col_data rm c) (col_data rm VDEV_RAIDZ_R)) (\<lambda>r.
           Some (set_data VDEV_RAIDZ_R r (set_data VDEV_RAIDZ_Q q (set_data VDEV_RAIDZ_P p rm))))))))"

definition vdev_raidz_generate_parity_pqr :: "raidz_map \<Rightarrow> raidz_map option" where
  "vdev_raidz_generate_parity_pqr rm =
     require (col_size rm VDEV_RAIDZ_P = col_size rm VDEV_RAIDZ_Q \<and> col_size rm VDEV_RAIDZ_P = col_size rm VDEV_RAIDZ_R)
       (foldM parity_pqr_col [rm_firstdatacol rm..<rm_cols rm] rm)"

definition vdev_raidz_generate_parity :: "raidz_map \<Rightarrow> raidz_map option" where
  "vdev_raidz_generate_parity rm =
     (if rm_firstdatacol rm = 1 then vdev_raidz_generate_parity_p rm
      else if rm_firstdatacol rm = 2 then vdev_raidz_generate_parity_pq rm
      else if rm_firstdatacol rm = 3 then vdev_raidz_generate_parity_pqr rm
      else None)"

section \<open>Reconstruction of one or two columns\<close>

definition rec_p_col :: "nat \<Rightarrow> nat \<Rightarrow> raidz_map \<Rightarrow> raidz_map option" where
  "rec_p_col x c rm =
     (if c = x then Some rm
      else
        (let count = min (col_size rm c div 8) (col_size rm x div 8)
         in map_option (\<lambda>d. set_data x d rm) (word_loops count 0 (XOR) id (col_data rm x) (col_data rm c))))"

definition vdev_raidz_reconstruct_p :: "raidz_map \<Rightarrow> nat list \<Rightarrow> (nat \<times> raidz_map) option" where
  "vdev_raidz_reconstruct_p rm tgts =
     require (length tgts = 1)
       (let x = tgts ! 0;
            xcount = col_size rm x div 8
        in require (rm_firstdatacol rm \<le> x \<and> x < rm_cols rm \<and> xcount \<le> col_size rm VDEV_RAIDZ_P div 8 \<and> 0 < xcount)
          (Option.bind (word_loops xcount 0 (\<lambda>d s. s) id (col_data rm x) (col_data rm VDEV_RAIDZ_P)) (\<lambda>d.
           Option.bind (foldM (rec_p_col x) [rm_firstdatacol rm..<rm_cols rm] (set_data x d rm)) (\<lambda>rm.
             Some (push_bit VDEV_RAIDZ_P 1, rm)))))"

definition rec_q_col :: "nat \<Rightarrow> nat \<Rightarrow> raidz_map \<Rightarrow> raidz_map option" where
  "rec_q_col x c rm =
     (let xcount = col_size rm x div 8;
          ccount = (if c = x then 0 else col_size rm c div 8);
          count = min ccount xcount
      in map_option (\<lambda>d. set_data x d rm)
           (parity_buf (c = rm_firstdatacol rm) VDEV_RAIDZ_64MUL_2 count xcount (col_data rm c) (col_data rm x)))"

text \<open>Adding the parity and dividing, byte by byte of every word.\<close>

fun rec_q_words :: "nat \<Rightarrow> int \<Rightarrow> byte list \<Rightarrow> byte list \<Rightarrow> byte list option" where
  "rec_q_words 0 exp dst src = Some dst"
| "rec_q_words (Suc n) exp dst src =
     (if length dst < 8 \<or> length src < 8 then None
      else
        Option.bind (those (map (\<lambda>b. vdev_raidz_exp2 b exp) (le64 (of_le64 (take 8 dst) XOR of_le64 (take 8 src))))) (\<lambda>bs.
          map_option ((@) bs) (rec_q_words n exp (drop 8 dst) (drop 8 src))))"

definition vdev_raidz_reconstruct_q :: "raidz_map \<Rightarrow> nat list \<Rightarrow> (nat \<times> raidz_map) option" where
  "vdev_raidz_reconstruct_q rm tgts =
     require (length tgts = 1)
       (let x = tgts ! 0;
            xcount = col_size rm x div 8
        in require (xcount \<le> col_size rm VDEV_RAIDZ_Q div 8)
          (Option.bind (foldM (rec_q_col x) [rm_firstdatacol rm..<rm_cols rm] rm) (\<lambda>rm.
             let exp = 255 - (int (rm_cols rm) - 1 - int x)
             in map_option (\<lambda>d. (push_bit VDEV_RAIDZ_Q 1, set_data x d rm))
                  (rec_q_words xcount exp (col_data rm x) (col_data rm VDEV_RAIDZ_Q)))))"

text \<open>Solving for two columns, byte by byte; the second one may be shorter.\<close>

fun rec_pq_bytes :: "nat \<Rightarrow> nat \<Rightarrow> int \<Rightarrow> int \<Rightarrow> byte list \<Rightarrow> byte list \<Rightarrow> byte list \<Rightarrow> byte list \<Rightarrow> byte list \<Rightarrow> byte list \<Rightarrow>
    (byte list \<times> byte list) option" where
  "rec_pq_bytes 0 ysize aexp bexp p q pxy qxy xd yd = Some (xd, yd)"
| "rec_pq_bytes (Suc xsize) ysize aexp bexp (p # ps) (q # qs) (pxy # pxys) (qxy # qxys) (x # xd) yd =
     Option.bind (vdev_raidz_exp2 (p XOR pxy) aexp) (\<lambda>u. Option.bind (vdev_raidz_exp2 (q XOR qxy) bexp) (\<lambda>v.
       let xv = u XOR v in
       if ysize > 0 then
         case yd of
           [] \<Rightarrow> None
         | y # yd \<Rightarrow>
             map_option (\<lambda>(xd, yd). (xv # xd, (p XOR pxy XOR xv) # yd)) (rec_pq_bytes xsize (ysize - 1) aexp bexp ps qs pxys qxys xd yd)
       else map_option (\<lambda>(xd, yd). (xv # xd, yd)) (rec_pq_bytes xsize 0 aexp bexp ps qs pxys qxys xd yd)))"
| "rec_pq_bytes (Suc xsize) ysize aexp bexp p q pxy qxy xd yd = None"

definition vdev_raidz_reconstruct_pq :: "(nat \<Rightarrow> byte list) \<Rightarrow> raidz_map \<Rightarrow> nat list \<Rightarrow> (nat \<times> raidz_map) option" where
  "vdev_raidz_reconstruct_pq alloc rm tgts =
     require (length tgts = 2)
       (let x = tgts ! 0; y = tgts ! 1
        in require (x < y \<and> rm_firstdatacol rm \<le> x \<and> y < rm_cols rm \<and> col_size rm x \<ge> col_size rm y \<and> rm_cols rm \<le> 256 + x)
          (let pdata = col_data rm VDEV_RAIDZ_P;
               qdata = col_data rm VDEV_RAIDZ_Q;
               xsize = col_size rm x;
               ysize = col_size rm y;
               rm = set_data VDEV_RAIDZ_Q (alloc (col_size rm VDEV_RAIDZ_Q)) (set_data VDEV_RAIDZ_P (alloc (col_size rm VDEV_RAIDZ_P)) rm);
               rm = set_size y 0 (set_size x 0 rm)
           in Option.bind (vdev_raidz_generate_parity_pq rm) (\<lambda>rm.
              let rm = set_size y ysize (set_size x xsize rm);
                  a = vdev_raidz_pow2 ! (255 + x - y);
                  b = vdev_raidz_pow2 ! (255 - (rm_cols rm - 1 - x));
                  tmp = 255 - int (vdev_raidz_log2 ! unat (a XOR 1))
              in Option.bind (vdev_raidz_exp2 a tmp) (\<lambda>ea. Option.bind (vdev_raidz_exp2 b tmp) (\<lambda>eb.
                 let aexp = int (vdev_raidz_log2 ! unat ea);
                     bexp = int (vdev_raidz_log2 ! unat eb)
                 in Option.bind (rec_pq_bytes xsize ysize aexp bexp pdata qdata (col_data rm VDEV_RAIDZ_P) (col_data rm VDEV_RAIDZ_Q)
                       (col_data rm x) (col_data rm y)) (\<lambda>(xd, yd).
                    let rm = set_data y yd (set_data x xd rm)
                    in Some (push_bit VDEV_RAIDZ_P 1 OR push_bit VDEV_RAIDZ_Q 1,
                         set_data VDEV_RAIDZ_Q qdata (set_data VDEV_RAIDZ_P pdata rm))))))))"

section \<open>Reconstruction in general\<close>

text \<open>A row of the dispersal matrix: the powers of the generator of a parity column, downwards.\<close>

fun matrix_row :: "nat \<Rightarrow> nat \<Rightarrow> int \<Rightarrow> byte list option" where
  "matrix_row m 0 pow = Some []"
| "matrix_row m (Suc j) pow =
     (let pow = pow - int m;
          pow = (if pow < 0 then pow + 255 else pow)
      in require (0 \<le> pow \<and> pow < 256) (map_option (Cons (vdev_raidz_pow2 ! nat pow)) (matrix_row m j pow)))"

definition vdev_raidz_matrix_init :: "raidz_map \<Rightarrow> nat \<Rightarrow> nat list \<Rightarrow> byte list list option" where
  "vdev_raidz_matrix_init rm n map_cols =
     require (n = rm_cols rm - rm_firstdatacol rm)
       (those (map (\<lambda>m. require (m \<le> 2)
          (let pow = int (m * n);
               pow = (if pow > 255 then pow - 255 else pow)
           in require (pow \<le> 255) (matrix_row m n pow))) map_cols))"

text \<open>The trivial rows are subtracted from a row of consequence.\<close>

definition subtract_trivial :: "raidz_map \<Rightarrow> nat \<Rightarrow> nat \<Rightarrow> nat list \<Rightarrow> byte list \<times> byte list \<Rightarrow> (byte list \<times> byte list) option" where
  "subtract_trivial rm n nmissing used = foldM (\<lambda>j (row, inv).
     let jj = used ! j - rm_firstdatacol rm
     in require (used ! j \<ge> rm_firstdatacol rm \<and> jj < n) (Some (row[jj := 0], inv[j := row ! jj]))) [nmissing..<n]"

text \<open>Every element of a row times a power of 2.\<close>

definition scale_row :: "int \<Rightarrow> byte list \<Rightarrow> byte list option" where
  "scale_row log row = those (map (\<lambda>b. vdev_raidz_exp2 b log) row)"

definition eliminate_row :: "nat list \<Rightarrow> nat \<Rightarrow> nat \<Rightarrow> byte list list \<times> byte list list \<Rightarrow> (byte list list \<times> byte list list) option" where
  "eliminate_row missing i ii = (\<lambda>(rows, invrows).
     if i = ii then Some (rows, invrows)
     else
       (let e = rows ! ii ! (missing ! i);
            log = int (vdev_raidz_log2 ! unat e)
        in require (e \<noteq> 0)
          (Option.bind (scale_row log (rows ! i)) (\<lambda>r. Option.bind (scale_row log (invrows ! i)) (\<lambda>v.
             Some (rows[ii := map2 (XOR) (rows ! ii) r], invrows[ii := map2 (XOR) (invrows ! ii) v]))))))"

definition pivot_row :: "nat \<Rightarrow> nat list \<Rightarrow> nat \<Rightarrow> byte list list \<times> byte list list \<Rightarrow> (byte list list \<times> byte list list) option" where
  "pivot_row nmissing missing i = (\<lambda>(rows, invrows).
     let e = rows ! i ! (missing ! i);
         log = 255 - int (vdev_raidz_log2 ! unat e)
     in require (list_all (\<lambda>b. b = 0) (take (missing ! i) (rows ! i)) \<and> e \<noteq> 0)
       (Option.bind (scale_row log (rows ! i)) (\<lambda>r. Option.bind (scale_row log (invrows ! i)) (\<lambda>v.
          foldM (eliminate_row missing i) [0..<nmissing] (rows[i := r], invrows[i := v])))))"

definition vdev_raidz_matrix_invert :: "raidz_map \<Rightarrow> nat \<Rightarrow> nat list \<Rightarrow> byte list list \<Rightarrow> nat list \<Rightarrow> byte list list option" where
  "vdev_raidz_matrix_invert rm n missing rows used =
     (let nmissing = length missing
      in require (list_all (\<lambda>c. c < rm_firstdatacol rm) (take nmissing used) \<and> list_all (\<lambda>c. rm_firstdatacol rm \<le> c) (drop nmissing used))
        (Option.bind (those (map (\<lambda>i. subtract_trivial rm n nmissing used (rows ! i, map (\<lambda>j. if i = j then 1 else 0) [0..<n])) [0..<nmissing])) (\<lambda>rs.
         Option.bind (foldM (pivot_row nmissing missing) [0..<nmissing] (map fst rs, map snd rs)) (\<lambda>(rows, invrows).
           require (list_all (\<lambda>i. list_all (\<lambda>j. rows ! i ! j = (if j = missing ! i then 1 else 0)) [0..<n]) [0..<nmissing])
             (Some invrows)))))"

text \<open>The bytes of one used column, times a coefficient, into one missing column.\<close>

fun rec_bytes :: "bool \<Rightarrow> nat \<Rightarrow> byte list \<Rightarrow> byte list \<Rightarrow> byte list option" where
  "rec_bytes first invlog [] dst = Some dst"
| "rec_bytes first invlog (s # src) [] = Some []"
| "rec_bytes first invlog (s # src) (d # dst) =
     (let ll = vdev_raidz_log2 ! unat s + invlog;
          ll = (if ll \<ge> 255 then ll - 255 else ll)
      in require (s = 0 \<or> ll < 256)
        (let val = (if s = 0 then 0 else vdev_raidz_pow2 ! ll)
         in map_option (Cons (if first then val else d XOR val)) (rec_bytes first invlog src dst)))"

definition rec_used_col :: "nat list \<Rightarrow> nat list \<Rightarrow> nat list list \<Rightarrow> nat \<Rightarrow> raidz_map \<Rightarrow> raidz_map option" where
  "rec_used_col missing used invlog i rm =
     (let c = used ! i
      in require (c < rm_cols rm)
        (foldM (\<lambda>j rm.
           let cc = missing ! j + rm_firstdatacol rm
           in require (cc < rm_cols rm \<and> cc \<noteq> c)
             (map_option (\<lambda>d. set_data cc (d @ drop (col_size rm cc) (col_data rm cc)) rm)
               (rec_bytes (i = 0) (invlog ! j ! i) (take (col_size rm c) (col_data rm c)) (take (col_size rm cc) (col_data rm cc)))))
           [0..<length missing] rm))"

definition vdev_raidz_matrix_reconstruct :: "raidz_map \<Rightarrow> nat \<Rightarrow> nat list \<Rightarrow> byte list list \<Rightarrow> nat list \<Rightarrow> raidz_map option" where
  "vdev_raidz_matrix_reconstruct rm n missing invrows used =
     require (list_all (\<lambda>row. list_all (\<lambda>b. b \<noteq> 0) row) invrows)
       (let invlog = map (map (\<lambda>b. vdev_raidz_log2 ! unat b)) invrows
        in require (col_size rm (used ! 0) \<ge> col_size rm (missing ! 0))
          (foldM (rec_used_col missing used invlog) [0..<n] rm))"

text \<open>The parity columns that help: those that are not targets, in order.\<close>

function parity_choice :: "nat \<Rightarrow> nat list \<Rightarrow> nat \<Rightarrow> nat \<Rightarrow> nat \<Rightarrow> nat list \<Rightarrow> nat list option" where
  "parity_choice firstdatacol tgts nmissing tt c parity_map =
     (if length parity_map < nmissing then
        if \<not> (tt < length tgts \<and> c < firstdatacol) then None
        else if c = tgts ! tt then parity_choice firstdatacol tgts nmissing (Suc tt) (Suc c) parity_map
        else parity_choice firstdatacol tgts nmissing tt (Suc c) (parity_map @ [c])
      else Some parity_map)"
  by auto
termination
  by (relation "measure (\<lambda>(f, tgts, nm, tt, c, pm). f - c)") auto

declare parity_choice.simps [simp del]

text \<open>The data columns that are not missing.\<close>

fun used_data :: "nat \<Rightarrow> nat list \<Rightarrow> nat list \<Rightarrow> nat list" where
  "used_data f missing [] = []"
| "used_data f [] (c # cs) = c # cs"
| "used_data f (m # missing) (c # cs) = (if c = m + f then used_data f missing cs else c # used_data f (m # missing) cs)"

definition vdev_raidz_reconstruct_general :: "raidz_map \<Rightarrow> nat list \<Rightarrow> (nat \<times> raidz_map) option" where
  "vdev_raidz_reconstruct_general rm tgts =
     (let f = rm_firstdatacol rm;
          n = rm_cols rm - f;
          missing_rows = map (\<lambda>t. t - f) (filter (\<lambda>t. f \<le> t) tgts)
      in Option.bind (parity_choice f tgts (length missing_rows) 0 0 []) (\<lambda>parity_map.
         let code = fold (\<lambda>c code. code OR push_bit c 1) parity_map 0;
             used = parity_map @ used_data f missing_rows [f..<rm_cols rm]
         in require (code \<noteq> 0 \<and> code < push_bit VDEV_RAIDZ_MAXPARITY 1 \<and> length used \<le> n)
           (Option.bind (vdev_raidz_matrix_init rm n parity_map) (\<lambda>rows.
            Option.bind (vdev_raidz_matrix_invert rm n missing_rows rows used) (\<lambda>invrows.
              map_option (\<lambda>rm. (code, rm)) (vdev_raidz_matrix_reconstruct rm n missing_rows invrows used))))))"

section \<open>Reconstruction\<close>

text \<open>The targets: the columns that the caller names and those with an error.\<close>

fun raidz_targets :: "raidz_map \<Rightarrow> nat list \<Rightarrow> nat list \<Rightarrow> nat list" where
  "raidz_targets rm t [] = []"
| "raidz_targets rm t (c # cs) =
     (if t \<noteq> [] \<and> c = hd t then c # raidz_targets rm (tl t) cs
      else if rc_error (rm_col rm ! c) \<noteq> 0 then c # raidz_targets rm t cs
      else raidz_targets rm t cs)"

definition vdev_raidz_reconstruct :: "(nat \<Rightarrow> byte list) \<Rightarrow> bool \<Rightarrow> raidz_map \<Rightarrow> nat list \<Rightarrow> (nat \<times> raidz_map) option" where
  "vdev_raidz_reconstruct alloc default_to_general rm t =
     (let f = rm_firstdatacol rm;
          tgts = raidz_targets rm t [0..<rm_cols rm];
          parity_valid = (\<lambda>c. c < f \<and> c \<notin> set tgts);
          nbadparity = length (filter (\<lambda>c. c < f) tgts);
          nbaddata = length tgts - nbadparity;
          dt = drop nbadparity tgts;
          general =
            Option.bind (vdev_raidz_reconstruct_general rm tgts) (\<lambda>(code, rm).
              require (code < push_bit VDEV_RAIDZ_MAXPARITY 1 \<and> code > 0) (Some (code, rm)))
      in require (sorted_wrt (<) t \<and> length tgts \<le> VDEV_RAIDZ_MAXPARITY \<and> length tgts \<ge> length t)
        (if default_to_general then general
         else if nbaddata = 1 then
           (if parity_valid VDEV_RAIDZ_P then vdev_raidz_reconstruct_p rm (take 1 dt)
            else require (f > 1)
              (if parity_valid VDEV_RAIDZ_Q then vdev_raidz_reconstruct_q rm (take 1 dt) else require (f > 2) general))
         else if nbaddata = 2 then
           require (f > 1)
             (if parity_valid VDEV_RAIDZ_P \<and> parity_valid VDEV_RAIDZ_Q then vdev_raidz_reconstruct_pq alloc rm (take 2 dt)
              else require (f > 2) general)
         else general))"

section \<open>The map of an I/O\<close>

definition roundup :: "u64 \<Rightarrow> u64 \<Rightarrow> u64" where
  "roundup x y = (x + (y - 1)) div y * y"

definition vdev_raidz_asize :: "nat \<Rightarrow> u64 \<Rightarrow> u64 \<Rightarrow> u64 \<Rightarrow> u64" where
  "vdev_raidz_asize ashift cols nparity psize =
     (let asize = drop_bit ashift (psize - 1) + 1;
          asize = asize + nparity * ((asize + cols - nparity - 1) div (cols - nparity))
      in push_bit ashift (roundup asize (nparity + 1)))"

text \<open>Column \<open>c\<close> of an I/O that starts in column \<open>f\<close> at offset \<open>off\<close>, with \<open>q\<close> full rows.\<close>

definition map_col :: "nat \<Rightarrow> u64 \<Rightarrow> u64 \<Rightarrow> u64 \<Rightarrow> u64 \<Rightarrow> u64 \<Rightarrow> u64 \<Rightarrow> u64 \<Rightarrow> raidz_col" where
  "map_col unit_shift dcols f off q bc acols c =
     (let col = f + c;
          (col, coff) = (if col \<ge> dcols then (col - dcols, off + push_bit unit_shift 1) else (col, off));
          size = (if c \<ge> acols then 0 else if c < bc then push_bit unit_shift (q + 1) else push_bit unit_shift q)
      in \<lparr>rc_devidx = unat col, rc_offset = coff, rc_size = unat size, rc_data = [], rc_error = 0, rc_tried = False, rc_skipped = False\<rparr>)"

text \<open>The data columns share out the data of the I/O in order.\<close>

fun share_data :: "byte list \<Rightarrow> raidz_col list \<Rightarrow> raidz_col list" where
  "share_data d [] = []"
| "share_data d (rc # rcs) = rc\<lparr>rc_data := take (rc_size rc) d\<rparr> # share_data (drop (rc_size rc) d) rcs"

definition swap_first :: "raidz_col list \<Rightarrow> raidz_col list" where
  "swap_first cols =
     cols[0 := (cols ! 0)\<lparr>rc_devidx := rc_devidx (cols ! 1), rc_offset := rc_offset (cols ! 1)\<rparr>,
          1 := (cols ! 1)\<lparr>rc_devidx := rc_devidx (cols ! 0), rc_offset := rc_offset (cols ! 0)\<rparr>]"

definition vdev_raidz_map_alloc :: "(nat \<Rightarrow> byte list) \<Rightarrow> u64 \<Rightarrow> u64 \<Rightarrow> byte list \<Rightarrow> nat \<Rightarrow> u64 \<Rightarrow> u64 \<Rightarrow> raidz_map option" where
  "vdev_raidz_map_alloc alloc io_offset io_size io_data unit_shift dcols nparity =
     require (dcols \<noteq> 0 \<and> dcols - nparity \<noteq> 0 \<and> nparity + 1 \<noteq> 0)
       (let b = drop_bit unit_shift io_offset;
            s = drop_bit unit_shift io_size;
            f = b mod dcols;
            off = push_bit unit_shift (b div dcols);
            q = s div (dcols - nparity);
            r = s - q * (dcols - nparity);
            bc = (if r = 0 then 0 else r + nparity);
            tot = s + nparity * (q + (if r = 0 then 0 else 1));
            (acols, scols) = (if q = 0 then (bc, min dcols (roundup bc (nparity + 1))) else (dcols, dcols))
        in require (acols \<le> scols)
          (let cols = map (\<lambda>c. map_col unit_shift dcols f off q bc acols (of_nat c)) [0..<unat scols];
               asize = of_nat (sum_list (map rc_size cols));
               rm_asize = roundup asize (push_bit unit_shift (nparity + 1));
               nskip = roundup tot (nparity + 1) - tot;
               p = unat nparity;
               cols = map (\<lambda>rc. rc\<lparr>rc_data := alloc (rc_size rc)\<rparr>) (take p cols) @ share_data io_data (drop p cols);
               swapped = (nparity = 1 \<and> io_offset AND push_bit 20 1 \<noteq> 0)
           in require (asize = push_bit unit_shift tot \<and> rm_asize - asize = push_bit unit_shift nskip \<and> nskip \<le> nparity \<and>
                p < unat scols \<and> acols \<ge> 2 \<and> rc_size (cols ! 0) = rc_size (cols ! 1))
             (Some \<lparr>rm_cols = unat acols, rm_scols = unat scols, rm_bigcols = unat bc, rm_asize = rm_asize, rm_missingdata = 0,
                rm_missingparity = 0, rm_firstdatacol = p, rm_nskip = unat nskip,
                rm_skipstart = (if swapped \<and> bc = 0 then 1 else unat bc),
                rm_col = (if swapped then swap_first cols else cols)\<rparr>)))"

end
