(* ===== verification/RaidzParity.thy ===== *)
theory RaidzParity
  imports Raidz
begin

text \<open>
  The parity of RAID-Z.  The data of the columns is a function \<open>D\<close>; the parity columns hold the values at
  1, 2 and 4 of the polynomial whose coefficients are the data columns, byte by byte.
\<close>

section \<open>The data of a map\<close>

definition with_data :: "(nat \<Rightarrow> byte list) \<Rightarrow> raidz_map \<Rightarrow> raidz_map" where
  "with_data D rm = rm\<lparr>rm_col := map (\<lambda>c. (rm_col rm ! c)\<lparr>rc_data := D c\<rparr>) [0..<length (rm_col rm)]\<rparr>"

lemma with_data_self: "with_data (col_data rm) rm = rm"
  by (simp add: with_data_def map_nth)

lemma with_data_simps [simp]:
  "rm_cols (with_data D rm) = rm_cols rm" "rm_firstdatacol (with_data D rm) = rm_firstdatacol rm" "length (rm_col (with_data D rm)) = length (rm_col rm)"
  "c < length (rm_col rm) \<Longrightarrow> col_data (with_data D rm) c = D c" "c < length (rm_col rm) \<Longrightarrow> col_size (with_data D rm) c = col_size rm c"
  "c < length (rm_col rm) \<Longrightarrow> rc_error (rm_col (with_data D rm) ! c) = rc_error (rm_col rm ! c)"
  by (simp_all add: with_data_def)

lemma map_upt_update: "(map h [0..<n])[c := v] = map (h(c := v)) [0..<n]"
  by (intro nth_equalityI) (auto simp: nth_list_update)

lemma set_data_with_data: "c < length (rm_col rm) \<Longrightarrow> set_data c d (with_data D rm) = with_data (D(c := d)) rm"
  by (auto simp: set_data_def with_data_def map_upt_update fun_eq_iff cong: map_cong intro!: arg_cong [where f = "\<lambda>cs. rm\<lparr>rm_col := cs\<rparr>"])

lemma set_size_with_data: "c < length (rm_col rm) \<Longrightarrow> set_size c n (with_data D rm) = with_data D (set_size c n rm)"
  by (auto simp: set_size_def with_data_def map_upt_update nth_list_update cong: map_cong intro!: arg_cong [where f = "\<lambda>cs. rm\<lparr>rm_col := cs\<rparr>"])

lemma set_size_simps [simp]:
  "rm_cols (set_size c n rm) = rm_cols rm" "rm_firstdatacol (set_size c n rm) = rm_firstdatacol rm" "length (rm_col (set_size c n rm)) = length (rm_col rm)"
  "k < length (rm_col rm) \<Longrightarrow> col_size (set_size c n rm) k = (if k = c then n else col_size rm k)"
  by (auto simp: set_size_def nth_list_update)

lemma set_size_back:
  assumes "x \<noteq> y" "x < length (rm_col rm)" "y < length (rm_col rm)"
  shows "set_size y (col_size rm y) (set_size x (col_size rm x) (set_size y m (set_size x k rm))) = rm"
proof -
  have "rm_col (set_size y (col_size rm y) (set_size x (col_size rm x) (set_size y m (set_size x k rm)))) = rm_col rm"
    using assms by (intro nth_equalityI) (auto simp: set_size_def nth_list_update)
  then show ?thesis by (simp add: set_size_def)
qed

section \<open>Loops over words\<close>

definition lanes1 :: "(u64 \<Rightarrow> u64) \<Rightarrow> (byte \<Rightarrow> byte) \<Rightarrow> bool" where
  "lanes1 g gb \<longleftrightarrow> (\<forall>a. le64 (g a) = map gb (le64 a))"

definition lanes2 :: "(u64 \<Rightarrow> u64 \<Rightarrow> u64) \<Rightarrow> (byte \<Rightarrow> byte \<Rightarrow> byte) \<Rightarrow> bool" where
  "lanes2 f fb \<longleftrightarrow> (\<forall>a b. le64 (f a b) = map2 fb (le64 a) (le64 b))"

lemma map2_snd_fst: "length xs = length ys \<Longrightarrow> map2 (\<lambda>a b. b) xs ys = ys"
  by (intro nth_equalityI) auto

lemma lanes1I: "lanes1 id id" "lanes1 (\<lambda>q. 0) (\<lambda>q. 0)" "lanes1 VDEV_RAIDZ_64MUL_2 VDEV_RAIDZ_MUL_2"
    "lanes1 VDEV_RAIDZ_64MUL_4 (VDEV_RAIDZ_MUL_2 \<circ> VDEV_RAIDZ_MUL_2)"
  by (simp_all add: lanes1_def le64_0 le64_MUL_2 VDEV_RAIDZ_64MUL_4_def map_replicate_const)

lemma lanes2I: "lanes2 (\<lambda>p s. s) (\<lambda>p s. s)" "lanes2 (XOR) (XOR)" "lanes1 mul mulb \<Longrightarrow> lanes2 (mul_xor mul) (\<lambda>q s. mulb q XOR s)"
  by (auto simp: lanes1_def lanes2_def mul_xor_def le64_xor map2_snd_fst intro!: nth_equalityI)

lemma word_loops_ok:
  assumes "lanes2 f fb" "lanes1 g gb" "8 * (m + n) \<le> length dst" "8 * m \<le> length src"
  shows "\<exists>d. word_loops m n f g dst src = Some d \<and> length d = length dst \<and>
    (\<forall>i<length dst. d ! i = (if i < 8 * m then fb (dst ! i) (src ! i) else if i < 8 * (m + n) then gb (dst ! i) else dst ! i))"
  using assms
proof (induction m n f g dst src rule: word_loops.induct)
  case (1 f g dst src)
  then show ?case by simp
next
  case (2 n f g dst src)
  have "8 * (0 + n) \<le> length (drop 8 dst)" using 2 by simp
  from 2(1) [OF _ 2(2,3) this] 2(4,5) obtain d where d: "word_loops 0 n f g (drop 8 dst) src = Some d" "length d = length (drop 8 dst)"
    "\<forall>i<length (drop 8 dst). d ! i = (if i < 8 * n then gb (drop 8 dst ! i) else drop 8 dst ! i)" by force
  have w: "le64 (g (of_le64 (take 8 dst))) = map gb (take 8 dst)" using 2 by (simp add: lanes1_def)
  have "(map gb (take 8 dst) @ d) ! i = (if i < 8 * Suc n then gb (dst ! i) else dst ! i)" if "i < length dst" for i
  proof (cases "i < 8")
    case False
    then show ?thesis using d(3) [rule_format, of "i - 8"] that 2 by (auto simp: nth_append)
  qed (use that 2 in \<open>simp add: nth_append\<close>)
  then show ?case using d(1,2) w 2 by simp
next
  case (3 m n f g dst src)
  have "8 * (m + n) \<le> length (drop 8 dst)" "8 * m \<le> length (drop 8 src)" using 3 by simp_all
  from 3(1) [OF _ 3(2,3) this] 3(4,5) obtain d where d: "word_loops m n f g (drop 8 dst) (drop 8 src) = Some d" "length d = length (drop 8 dst)"
    "\<forall>i<length (drop 8 dst). d ! i = (if i < 8 * m then fb (drop 8 dst ! i) (drop 8 src ! i) else if i < 8 * (m + n) then gb (drop 8 dst ! i) else drop 8 dst ! i)" by force
  have w: "le64 (f (of_le64 (take 8 dst)) (of_le64 (take 8 src))) = map2 fb (take 8 dst) (take 8 src)" using 3 by (simp add: lanes2_def)
  have "(map2 fb (take 8 dst) (take 8 src) @ d) ! i =
      (if i < 8 * Suc m then fb (dst ! i) (src ! i) else if i < 8 * (Suc m + n) then gb (dst ! i) else dst ! i)" if "i < length dst" for i
  proof (cases "i < 8")
    case False
    then show ?thesis using d(3) [rule_format, of "i - 8"] that 3 by (auto simp: nth_append)
  qed (use that 3 in \<open>simp add: nth_append\<close>)
  then show ?case using d(1,2) w 3 by simp
qed

section \<open>Parity of a column\<close>

text \<open>A byte of a column as a field element; short columns count as full of zeros.\<close>

definition cbyte :: "raidz_map \<Rightarrow> (nat \<Rightarrow> byte list) \<Rightarrow> nat \<Rightarrow> nat \<Rightarrow> gf" where
  "cbyte rm D c i = (if i < col_size rm c then gf_of (D c ! i) else 0)"

definition parity_upto :: "raidz_map \<Rightarrow> (nat \<Rightarrow> byte list) \<Rightarrow> nat \<Rightarrow> nat \<Rightarrow> nat \<Rightarrow> gf" where
  "parity_upto rm D n j i = (\<Sum>c\<in>{rm_firstdatacol rm..<n}. (gen ^ j) ^ (n - 1 - c) * cbyte rm D c i)"

abbreviation parity :: "raidz_map \<Rightarrow> (nat \<Rightarrow> byte list) \<Rightarrow> nat \<Rightarrow> nat \<Rightarrow> gf" where
  "parity rm D \<equiv> parity_upto rm D (rm_cols rm)"

lemma parity_upto_Suc:
  assumes "rm_firstdatacol rm \<le> n"
  shows "parity_upto rm D (Suc n) j i = gen ^ j * parity_upto rm D n j i + cbyte rm D n i"
proof -
  have "(gen ^ j) ^ (n - c) = gen ^ j * (gen ^ j) ^ (n - 1 - c)" if "c < n" for c
    using that by (simp add: Suc_diff_Suc flip: power_Suc)
  then have "(\<Sum>c\<in>{rm_firstdatacol rm..<n}. (gen ^ j) ^ (n - c) * cbyte rm D c i) = gen ^ j * parity_upto rm D n j i"
    unfolding parity_upto_def sum_distrib_left by (intro sum.cong) (auto simp: mult.assoc)
  then show ?thesis using assms by (simp add: parity_upto_def sum.atLeastLessThan_Suc)
qed

text \<open>Sizes of a map: whole words, no column longer than the parity columns, the first data column as long as those or empty.\<close>

definition sizes_ok :: "raidz_map \<Rightarrow> bool" where
  "sizes_ok rm \<longleftrightarrow> 0 < rm_firstdatacol rm \<and> rm_firstdatacol rm < rm_cols rm \<and> rm_cols rm \<le> length (rm_col rm) \<and>
     (\<forall>c<rm_cols rm. 8 dvd col_size rm c \<and> col_size rm c \<le> col_size rm 0) \<and> (\<forall>c<rm_firstdatacol rm. col_size rm c = col_size rm 0) \<and>
     (col_size rm (rm_firstdatacol rm) = col_size rm 0 \<or> col_size rm (rm_firstdatacol rm) = 0 \<and> 1 < rm_firstdatacol rm)"

definition data_ok :: "raidz_map \<Rightarrow> (nat \<Rightarrow> byte list) \<Rightarrow> bool" where
  "data_ok rm D \<longleftrightarrow> (\<forall>c<rm_cols rm. col_size rm c \<le> length (D c))"

lemma sizes_okD:
  assumes "sizes_ok rm"
  shows "c < rm_cols rm \<Longrightarrow> c < length (rm_col rm)" "c < rm_cols rm \<Longrightarrow> col_size rm c \<le> col_size rm 0"
    "c < rm_firstdatacol rm \<Longrightarrow> c < rm_cols rm" "c < rm_firstdatacol rm \<Longrightarrow> col_size rm c = col_size rm 0"
    "col_size rm (rm_firstdatacol rm) = col_size rm 0 \<or> col_size rm (rm_firstdatacol rm) = 0 \<and> 1 < rm_firstdatacol rm"
    "c < rm_cols rm \<Longrightarrow> 8 * (col_size rm c div 8) = col_size rm c" "0 < rm_firstdatacol rm" "rm_firstdatacol rm < rm_cols rm"
proof -
  have u: "0 < rm_firstdatacol rm" "rm_firstdatacol rm < rm_cols rm" "rm_cols rm \<le> length (rm_col rm)"
    "\<And>c. c < rm_cols rm \<Longrightarrow> 8 dvd col_size rm c" "\<And>c. c < rm_cols rm \<Longrightarrow> col_size rm c \<le> col_size rm 0"
    "\<And>c. c < rm_firstdatacol rm \<Longrightarrow> col_size rm c = col_size rm 0"
    "col_size rm (rm_firstdatacol rm) = col_size rm 0 \<or> col_size rm (rm_firstdatacol rm) = 0 \<and> 1 < rm_firstdatacol rm"
    using assms unfolding sizes_ok_def by blast+
  show "c < rm_cols rm \<Longrightarrow> c < length (rm_col rm)" "c < rm_firstdatacol rm \<Longrightarrow> c < rm_cols rm" using u(2,3) by linarith+
  show "c < rm_cols rm \<Longrightarrow> 8 * (col_size rm c div 8) = col_size rm c" using u(4) by (intro dvd_mult_div_cancel)
  show "c < rm_cols rm \<Longrightarrow> col_size rm c \<le> col_size rm 0" "c < rm_firstdatacol rm \<Longrightarrow> col_size rm c = col_size rm 0"
    "col_size rm (rm_firstdatacol rm) = col_size rm 0 \<or> col_size rm (rm_firstdatacol rm) = 0 \<and> 1 < rm_firstdatacol rm"
    "0 < rm_firstdatacol rm" "rm_firstdatacol rm < rm_cols rm" by (fact u)+
qed

lemma data_okD: "data_ok rm D \<Longrightarrow> c < rm_cols rm \<Longrightarrow> col_size rm c \<le> length (D c)"
  by (simp add: data_ok_def)

text \<open>What a column adds to parity \<open>j\<close>.\<close>

definition parity_step :: "raidz_map \<Rightarrow> (nat \<Rightarrow> byte list) \<Rightarrow> nat \<Rightarrow> nat \<Rightarrow> byte list \<Rightarrow> bool" where
  "parity_step rm D c j d \<longleftrightarrow> length d = length (D j) \<and>
     (\<forall>i<col_size rm 0. gf_of (d ! i) = (if c = rm_firstdatacol rm then 0 else gen ^ j * gf_of (D j ! i)) + cbyte rm D c i)"

lemma parity_buf_gf:
  assumes "lanes1 mul mulb" "\<And>b. gf_of (mulb b) = g * gf_of b" "m \<le> n" "8 * n \<le> length q" "8 * m \<le> length src"
  shows "\<exists>d. parity_buf first mul m n src q = Some d \<and> length d = length q \<and>
    (\<forall>i<8 * n. gf_of (d ! i) = (if first then 0 else g * gf_of (q ! i)) + (if i < 8 * m then gf_of (src ! i) else 0))"
proof -
  have l: "8 * (m + (n - m)) \<le> length q" using assms(3,4) by simp
  show ?thesis
  proof (cases first)
    case True
    then show ?thesis using word_loops_ok [OF lanes2I(1) lanes1I(2) l assms(5), unfolded le_add_diff_inverse [OF assms(3)]] assms(3,4)
      by (auto simp: parity_buf_def)
  next
    case False
    then show ?thesis using word_loops_ok [OF lanes2I(3) [OF assms(1)] assms(1) l assms(5), unfolded le_add_diff_inverse [OF assms(3)]] assms(2-4)
      by (auto simp: parity_buf_def)
  qed
qed

lemma parity_buf_step:
  assumes "lanes1 mul mulb" "\<And>b. gf_of (mulb b) = gen ^ j * gf_of b" "sizes_ok rm" "data_ok rm D" "j < rm_firstdatacol rm" "c < rm_cols rm"
  shows "\<exists>d. parity_buf (c = rm_firstdatacol rm) mul (col_size rm c div 8) (col_size rm 0 div 8) (D c) (D j) = Some d \<and> parity_step rm D c j d"
proof -
  let ?m = "col_size rm c div 8" and ?n = "col_size rm 0 div 8"
  note so = sizes_okD [OF assms(3)]
  have s: "8 * ?m = col_size rm c" "8 * ?n = col_size rm 0" "?m \<le> ?n" "8 * ?n \<le> length (D j)" "8 * ?m \<le> length (D c)"
    using so(6) [OF assms(6)] so(6) [of 0] so(7,8) div_le_mono [OF so(2) [OF assms(6)], of 8] data_okD [OF assms(4) so(3) [OF assms(5)]]
      so(4) [OF assms(5)] data_okD [OF assms(4,6)] by simp_all
  show ?thesis using parity_buf_gf [OF assms(1,2) s(3-5), of "c = rm_firstdatacol rm"] s(1,2) by (simp add: parity_step_def cbyte_def)
qed

section \<open>Generation of parity\<close>

text \<open>Parity of the first \<open>k\<close> kinds is generated by a loop that makes a parity step for each of them.\<close>

definition parities :: "raidz_map \<Rightarrow> (nat \<Rightarrow> byte list) \<Rightarrow> nat \<Rightarrow> nat \<Rightarrow> (nat \<Rightarrow> byte list) \<Rightarrow> bool" where
  "parities rm D k n D' \<longleftrightarrow> (\<forall>c\<ge>k. D' c = D c) \<and> (\<forall>j<k. length (D' j) = length (D j) \<and> (\<forall>i<col_size rm 0. gf_of (D' j ! i) = parity_upto rm D n j i))"

lemma cbyte_cong: "D c = D' c \<Longrightarrow> cbyte rm D c i = cbyte rm D' c i"
  by (simp add: cbyte_def)

lemma foldM_append: "foldM f (xs @ ys) s = Option.bind (foldM f xs s) (foldM f ys)"
  by (induction xs arbitrary: s) (auto split: bind_splits)

lemma foldM_upt_Suc:
  assumes "f \<le> n" "foldM g [f..<n] s = Some s1" "g n s1 = Some s2"
  shows "foldM g [f..<Suc n] s = Some s2"
proof -
  have "[f..<Suc n] = [f..<n] @ [n]" using assms(1) by simp
  then show ?thesis using assms(2,3) by (simp only: foldM_append) simp
qed

lemma parity_loop_ok:
  assumes "sizes_ok rm" "data_ok rm D" "k \<le> rm_firstdatacol rm"
    and step: "\<And>c D. rm_firstdatacol rm \<le> c \<Longrightarrow> c < rm_cols rm \<Longrightarrow> data_ok rm D \<Longrightarrow>
      \<exists>D'. col_step c (with_data D rm) = Some (with_data D' rm) \<and> (\<forall>j<k. parity_step rm D c j (D' j)) \<and> (\<forall>c\<ge>k. D' c = D c)"
  shows "\<exists>D'. foldM col_step [rm_firstdatacol rm..<rm_cols rm] (with_data D rm) = Some (with_data D' rm) \<and> parities rm D k (rm_cols rm) D'"
proof -
  let ?f = "rm_firstdatacol rm"
  have "\<exists>D'. foldM col_step [?f..<Suc n] (with_data D rm) = Some (with_data D' rm) \<and> parities rm D k (Suc n) D'" if "?f \<le> n" "n < rm_cols rm" for n
    using that
  proof (induction n rule: nat_induct_at_least)
    case base
    then obtain D' where D': "col_step ?f (with_data D rm) = Some (with_data D' rm)" "\<forall>j<k. parity_step rm D ?f j (D' j)" "\<forall>c\<ge>k. D' c = D c"
      using step [of ?f D] assms(2) by auto
    then have "parities rm D k (Suc ?f) D'" by (simp add: parities_def parity_step_def parity_upto_Suc) (simp add: parity_upto_def)
    then show ?case using D'(1) by auto
  next
    case (Suc n)
    then obtain D1 where D1: "foldM col_step [?f..<Suc n] (with_data D rm) = Some (with_data D1 rm)" "parities rm D k (Suc n) D1" by auto
    have "length (D1 c) = length (D c)" for c using D1(2) by (cases "c < k") (auto simp: parities_def)
    then have "data_ok rm D1" using assms(2) by (simp add: data_ok_def)
    then obtain D2 where D2: "col_step (Suc n) (with_data D1 rm) = Some (with_data D2 rm)" "\<forall>j<k. parity_step rm D1 (Suc n) j (D2 j)" "\<forall>c\<ge>k. D2 c = D1 c"
      using step [of "Suc n" D1] Suc by auto
    have "cbyte rm D1 (Suc n) i = cbyte rm D (Suc n) i" for i using D1(2) Suc assms(3) by (intro cbyte_cong) (simp add: parities_def)
    then have "parities rm D k (Suc (Suc n)) D2" using D1(2) D2(2,3) Suc by (simp add: parities_def parity_step_def parity_upto_Suc)
    moreover have "foldM col_step [?f..<Suc (Suc n)] (with_data D rm) = Some (with_data D2 rm)"
      using Suc(1) by (intro foldM_upt_Suc [OF _ D1(1) D2(1)]) simp
    ultimately show ?case by blast
  qed
  moreover have "Suc (rm_cols rm - 1) = rm_cols rm" "?f \<le> rm_cols rm - 1" using sizes_okD(8) [OF assms(1)] by linarith+
  ultimately show ?thesis by (metis lessI)
qed

lemma gf_muls: "gf_of (id b) = gen ^ 0 * gf_of b" "gf_of (VDEV_RAIDZ_MUL_2 b) = gen ^ 1 * gf_of b"
    "gf_of ((VDEV_RAIDZ_MUL_2 \<circ> VDEV_RAIDZ_MUL_2) b) = gen ^ 2 * gf_of b"
  by (simp_all add: gf_of_MUL_2 power2_eq_square mult.assoc)

lemmas raidz_consts = VDEV_RAIDZ_P_def VDEV_RAIDZ_Q_def VDEV_RAIDZ_R_def VDEV_RAIDZ_MAXPARITY_def

lemma parity_pq_col_ok:
  assumes "sizes_ok rm" "data_ok rm D" "2 \<le> rm_firstdatacol rm" "rm_firstdatacol rm \<le> c" "c < rm_cols rm"
  shows "\<exists>D'. parity_pq_col c (with_data D rm) = Some (with_data D' rm) \<and> (\<forall>j<2. parity_step rm D c j (D' j)) \<and> (\<forall>c\<ge>2. D' c = D c)"
proof -
  have j: "0 < rm_firstdatacol rm" "1 < rm_firstdatacol rm" using assms(3) by auto
  obtain p where p: "parity_buf (c = rm_firstdatacol rm) id (col_size rm c div 8) (col_size rm 0 div 8) (D c) (D 0) = Some p" "parity_step rm D c 0 p"
    using parity_buf_step [OF lanes1I(1) gf_muls(1) assms(1,2) j(1) assms(5)] by blast
  obtain q where q: "parity_buf (c = rm_firstdatacol rm) VDEV_RAIDZ_64MUL_2 (col_size rm c div 8) (col_size rm 0 div 8) (D c) (D 1) = Some q" "parity_step rm D c 1 q"
    using parity_buf_step [OF lanes1I(3) gf_muls(2) assms(1,2) j(2) assms(5)] by blast
  note s = sizes_okD [OF assms(1)]
  have "parity_pq_col c (with_data D rm) = Some (with_data (D(0 := p, 1 := q)) rm)"
    using p(1) q(1) s(1) [OF assms(5)] s(1) [OF s(3) [OF j(1)]] s(1) [OF s(3) [OF j(2)]] div_le_mono [OF s(2) [OF assms(5)], of 8] s(5)
    by (auto simp: parity_pq_col_def raidz_consts Let_def set_data_with_data simp del: One_nat_def)
  moreover have "\<forall>j<2. parity_step rm D c j ((D(0 := p, 1 := q)) j)" using p(2) q(2) by (auto simp: less_2_cases_iff)
  ultimately show ?thesis by auto
qed

lemma generate_pq_ok:
  assumes "sizes_ok rm" "data_ok rm D" "2 \<le> rm_firstdatacol rm"
  shows "\<exists>D'. vdev_raidz_generate_parity_pq (with_data D rm) = Some (with_data D' rm) \<and> parities rm D 2 (rm_cols rm) D'"
proof -
  have j: "0 < rm_firstdatacol rm" "1 < rm_firstdatacol rm" using assms(3) by auto
  note s = sizes_okD [OF assms(1)]
  have "col_size (with_data D rm) VDEV_RAIDZ_P = col_size (with_data D rm) VDEV_RAIDZ_Q"
    using s(1) [OF s(3) [OF j(1)]] s(1) [OF s(3) [OF j(2)]] s(4) [OF j(2)] by (simp add: raidz_consts)
  then show ?thesis using parity_loop_ok [OF assms parity_pq_col_ok [OF assms(1) _ assms(3)]] by (simp add: vdev_raidz_generate_parity_pq_def)
qed

lemma generate_p_ok:
  assumes "sizes_ok rm" "data_ok rm D" "col_size rm (rm_firstdatacol rm) = col_size rm 0"
  shows "\<exists>D'. vdev_raidz_generate_parity_p (with_data D rm) = Some (with_data D' rm) \<and> parities rm D 1 (rm_cols rm) D'"
proof -
  note s = sizes_okD [OF assms(1)]
  have "\<exists>D'. parity_p_col c (with_data D rm) = Some (with_data D' rm) \<and> (\<forall>j<1. parity_step rm D c j (D' j)) \<and> (\<forall>c\<ge>1. D' c = D c)"
    if c: "rm_firstdatacol rm \<le> c" "c < rm_cols rm" "data_ok rm D" for c D
  proof -
    let ?m = "col_size rm c div 8" and ?n = "col_size rm 0 div 8"
    have l: "8 * (?m + 0) \<le> length (D 0)" "8 * ?m \<le> length (D c)"
      using s(6) [OF c(2)] data_okD [OF c(3,2)] data_okD [OF c(3) s(3) [OF s(7)]] s(2) [OF c(2)] by simp_all
    have le: "?m \<le> ?n" using div_le_mono [OF s(2) [OF c(2)], of 8] .
    have len: "c < length (rm_col rm)" "0 < length (rm_col rm)" using s(1) [OF c(2)] s(1) [OF s(3) [OF s(7)]] .
    define fst_col where "fst_col = (c = rm_firstdatacol rm)"
    obtain d where d: "word_loops ?m 0 (if fst_col then (\<lambda>p s. s) else (XOR)) id (D 0) (D c) = Some d" "length d = length (D 0)"
      "\<forall>i<length (D 0). d ! i = (if i < 8 * ?m then (if fst_col then D c ! i else D 0 ! i XOR D c ! i) else D 0 ! i)"
      using word_loops_ok [OF lanes2I(1) lanes1I(1) l] word_loops_ok [OF lanes2I(2) lanes1I(1) l] by (cases fst_col) auto
    have "parity_p_col c (with_data D rm) = Some (with_data (D(0 := d)) rm)"
      using d(1) le len assms(3) by (auto simp: parity_p_col_def raidz_consts Let_def set_data_with_data fst_col_def)
    moreover have "parity_step rm D c 0 d"
      unfolding parity_step_def using d(2,3) s(6) [OF c(2)] data_okD [OF c(3) s(3) [OF s(7)]] assms(3) by (auto simp: cbyte_def fst_col_def)
    ultimately show ?thesis by auto
  qed
  then show ?thesis using parity_loop_ok [OF assms(1,2), of 1 parity_p_col] s(7) by (simp add: vdev_raidz_generate_parity_p_def)
qed

lemma generate_pqr_ok:
  assumes "sizes_ok rm" "data_ok rm D" "3 \<le> rm_firstdatacol rm"
  shows "\<exists>D'. vdev_raidz_generate_parity_pqr (with_data D rm) = Some (with_data D' rm) \<and> parities rm D 3 (rm_cols rm) D'"
proof -
  note s = sizes_okD [OF assms(1)]
  have j: "0 < rm_firstdatacol rm" "1 < rm_firstdatacol rm" "2 < rm_firstdatacol rm" using assms(3) by auto
  note len = s(1) [OF s(3) [OF j(1)]] s(1) [OF s(3) [OF j(2)]] s(1) [OF s(3) [OF j(3)]]
  have "\<exists>D'. parity_pqr_col c (with_data D rm) = Some (with_data D' rm) \<and> (\<forall>j<3. parity_step rm D c j (D' j)) \<and> (\<forall>c\<ge>3. D' c = D c)"
    if c: "rm_firstdatacol rm \<le> c" "c < rm_cols rm" "data_ok rm D" for c D
  proof -
    obtain p where p: "parity_buf (c = rm_firstdatacol rm) id (col_size rm c div 8) (col_size rm 0 div 8) (D c) (D 0) = Some p" "parity_step rm D c 0 p"
      using parity_buf_step [OF lanes1I(1) gf_muls(1) assms(1) c(3) j(1) c(2)] by blast
    obtain q where q: "parity_buf (c = rm_firstdatacol rm) VDEV_RAIDZ_64MUL_2 (col_size rm c div 8) (col_size rm 0 div 8) (D c) (D 1) = Some q" "parity_step rm D c 1 q"
      using parity_buf_step [OF lanes1I(3) gf_muls(2) assms(1) c(3) j(2) c(2)] by blast
    obtain r where r: "parity_buf (c = rm_firstdatacol rm) VDEV_RAIDZ_64MUL_4 (col_size rm c div 8) (col_size rm 0 div 8) (D c) (D 2) = Some r" "parity_step rm D c 2 r"
      using parity_buf_step [OF lanes1I(4) gf_muls(3) assms(1) c(3) j(3) c(2)] by blast
    have "parity_pqr_col c (with_data D rm) = Some (with_data (D(0 := p, 1 := q, 2 := r)) rm)"
      using p(1) q(1) r(1) s(1) [OF c(2)] len div_le_mono [OF s(2) [OF c(2)], of 8] s(5)
      by (auto simp: parity_pqr_col_def raidz_consts Let_def set_data_with_data simp del: One_nat_def)
    moreover have "\<forall>j<3. parity_step rm D c j ((D(0 := p, 1 := q, 2 := r)) j)"
      using p(2) q(2) r(2) by (auto simp: numeral_3_eq_3 numeral_2_eq_2 less_Suc_eq)
    ultimately show ?thesis by auto
  qed
  moreover have "col_size (with_data D rm) VDEV_RAIDZ_P = col_size (with_data D rm) VDEV_RAIDZ_Q" "col_size (with_data D rm) VDEV_RAIDZ_P = col_size (with_data D rm) VDEV_RAIDZ_R"
    using len s(4) [OF j(2)] s(4) [OF j(3)] by (simp_all add: raidz_consts)
  ultimately show ?thesis using parity_loop_ok [OF assms, of parity_pqr_col] by (simp add: vdev_raidz_generate_parity_pqr_def)
qed

lemma generate_parity_ok:
  assumes "sizes_ok rm" "data_ok rm D" "rm_firstdatacol rm \<le> 3"
  shows "\<exists>D'. vdev_raidz_generate_parity (with_data D rm) = Some (with_data D' rm) \<and> parities rm D (rm_firstdatacol rm) (rm_cols rm) D'"
proof -
  have "rm_firstdatacol rm = 1 \<or> rm_firstdatacol rm = 2 \<or> rm_firstdatacol rm = 3" using assms(3) sizes_okD(7) [OF assms(1)] by linarith
  then show ?thesis
    using generate_p_ok [OF assms(1,2)] generate_pq_ok [OF assms(1,2)] generate_pqr_ok [OF assms(1,2)] sizes_okD(5) [OF assms(1)]
    by (elim disjE) (simp_all add: vdev_raidz_generate_parity_def)
qed

end
