(* ===== verification/RaidzRecover.thy ===== *)
theory RaidzRecover
  imports RaidzParity
begin

text \<open>
  Reconstruction of RAID-Z columns by the routines for one column from P or Q and for two columns from both.
\<close>

section \<open>Damaged data\<close>

text \<open>A map as \<open>vdev_raidz_map_alloc\<close> makes it, and data \<open>T\<close> with its parity.\<close>

definition raidz_ok :: "raidz_map \<Rightarrow> bool" where
  "raidz_ok rm \<longleftrightarrow> sizes_ok rm \<and> rm_firstdatacol rm \<le> 3 \<and> rm_cols rm \<le> 255 \<and> (\<forall>c<rm_cols rm. 0 < col_size rm c) \<and>
     (\<forall>c c'. rm_firstdatacol rm \<le> c \<longrightarrow> c \<le> c' \<longrightarrow> c' < rm_cols rm \<longrightarrow> col_size rm c' \<le> col_size rm c)"

definition full :: "raidz_map \<Rightarrow> (nat \<Rightarrow> byte list) \<Rightarrow> bool" where
  "full rm D \<longleftrightarrow> (\<forall>c<rm_cols rm. length (D c) = col_size rm c)"

definition has_parity :: "raidz_map \<Rightarrow> (nat \<Rightarrow> byte list) \<Rightarrow> bool" where
  "has_parity rm T \<longleftrightarrow> (\<forall>j<rm_firstdatacol rm. \<forall>i<col_size rm 0. gf_of (T j ! i) = parity rm T j i)"

lemma raidz_okD:
  assumes "raidz_ok rm"
  shows "sizes_ok rm" "rm_firstdatacol rm \<le> 3" "rm_cols rm \<le> 255" "c < rm_cols rm \<Longrightarrow> 0 < col_size rm c"
    "rm_firstdatacol rm \<le> c \<Longrightarrow> c \<le> c' \<Longrightarrow> c' < rm_cols rm \<Longrightarrow> col_size rm c' \<le> col_size rm c"
  using assms by (simp_all add: raidz_ok_def)

lemma full_data_ok: "full rm D \<Longrightarrow> data_ok rm D"
  by (simp add: full_def data_ok_def)

lemma full_upd: "full rm D \<Longrightarrow> length d = col_size rm x \<Longrightarrow> full rm (D(x := d))"
  by (simp add: full_def)

lemma gf_list_eqI: "length xs = length ys \<Longrightarrow> (\<And>i. i < length ys \<Longrightarrow> gf_of (xs ! i) = gf_of (ys ! i)) \<Longrightarrow> xs = ys"
  by (intro nth_equalityI) auto

lemma gf_solve: "(z + t) + z = (t :: gf)"
  by (metis add.commute gf_add_self)

text \<open>The share of one column in the parity; an empty column has none.\<close>

lemma cbyte_set_size: "c < length (rm_col rm) \<Longrightarrow> cbyte (set_size x 0 rm) T c i = (if c = x then 0 else cbyte rm T c i)"
  by (simp add: cbyte_def)

lemma parity_split:
  assumes "rm_firstdatacol rm \<le> x" "x < rm_cols rm" "rm_cols rm \<le> length (rm_col rm)"
  shows "parity rm T j i = parity (set_size x 0 rm) T j i + (gen ^ j) ^ (rm_cols rm - 1 - x) * cbyte rm T x i"
proof -
  let ?h = "\<lambda>c. (gen ^ j) ^ (rm_cols rm - 1 - c)" and ?C = "{rm_firstdatacol rm..<rm_cols rm}"
  have x: "x \<in> ?C" "finite ?C" using assms by auto
  have "parity (set_size x 0 rm) T j i = (\<Sum>c\<in>?C. ?h c * (if c = x then 0 else cbyte rm T c i))"
    unfolding parity_upto_def using assms(3) by (intro sum.cong) (simp_all add: cbyte_set_size)
  also have "\<dots> = (\<Sum>c\<in>?C - {x}. ?h c * cbyte rm T c i)"
    by (subst sum.remove [OF x(2,1)]) simp
  finally show ?thesis unfolding parity_upto_def [of rm] sum.remove [OF x(2,1)] by (simp add: add.commute)
qed

section \<open>One column from P\<close>

lemma rec_p_loop:
  assumes ok: "raidz_ok rm" and x: "rm_firstdatacol rm \<le> x" "x < rm_cols rm" and D: "full rm D" "full rm T"
    "\<And>c. rm_firstdatacol rm \<le> c \<Longrightarrow> c < rm_cols rm \<Longrightarrow> c \<noteq> x \<Longrightarrow> D c = T c"
    and d: "length d = col_size rm x" "\<And>i. i < col_size rm x \<Longrightarrow> gf_of (d ! i) = v i" and n: "rm_firstdatacol rm \<le> n" "n \<le> rm_cols rm"
  shows "\<exists>d'. foldM (rec_p_col x) [rm_firstdatacol rm..<n] (with_data (D(x := d)) rm) = Some (with_data (D(x := d')) rm) \<and>
    length d' = col_size rm x \<and> (\<forall>i<col_size rm x. gf_of (d' ! i) = v i + parity_upto (set_size x 0 rm) T n 0 i)"
  using n
proof (induction n rule: nat_induct_at_least)
  case base
  then show ?case using d by (auto simp: parity_upto_def)
next
  case (Suc n)
  note so = sizes_okD [OF raidz_okD(1) [OF ok]]
  obtain d1 where d1: "foldM (rec_p_col x) [rm_firstdatacol rm..<n] (with_data (D(x := d)) rm) = Some (with_data (D(x := d1)) rm)" "length d1 = col_size rm x"
    "\<forall>i<col_size rm x. gf_of (d1 ! i) = v i + parity_upto (set_size x 0 rm) T n 0 i" using Suc(2) [OF Suc_leD [OF Suc(3)]] by blast
  have nl: "n < rm_cols rm" "n < length (rm_col rm)" "x < length (rm_col rm)" using Suc(3) so(1) [of n] so(1) [OF x(2)] by auto
  have p: "parity_upto (set_size x 0 rm) T (Suc n) 0 i = parity_upto (set_size x 0 rm) T n 0 i + (if n = x then 0 else cbyte rm T n i)" for i
    using parity_upto_Suc [of "set_size x 0 rm" n T 0 i] Suc(1) nl(2) by (simp add: cbyte_set_size)
  obtain d2 where d2: "rec_p_col x n (with_data (D(x := d1)) rm) = Some (with_data (D(x := d2)) rm)" "length d2 = col_size rm x"
    "\<forall>i<col_size rm x. gf_of (d2 ! i) = gf_of (d1 ! i) + (if n = x then 0 else cbyte rm T n i)"
  proof -
    have "\<exists>d'. rec_p_col x n (with_data (D(x := d1)) rm) = Some (with_data (D(x := d')) rm) \<and>
      length d' = col_size rm x \<and> (\<forall>i<col_size rm x. gf_of (d' ! i) = gf_of (d1 ! i) + (if n = x then 0 else cbyte rm T n i))"
    proof (cases "n = x")
      case True
      then show ?thesis using d1(2) by (auto simp: rec_p_col_def)
    next
      case False
      let ?m = "min (col_size rm n div 8) (col_size rm x div 8)"
      have s: "8 * (col_size rm n div 8) = col_size rm n" "8 * (col_size rm x div 8) = col_size rm x" using so(6) nl(1) x(2) by blast+
      have Dn: "D n = T n" "length (T n) = col_size rm n" using D(2,3) False Suc(1) nl(1) by (auto simp: full_def)
      have l: "8 * (?m + 0) \<le> length d1" "8 * ?m \<le> length (T n)" using s d1(2) Dn by auto
      obtain d2 where d2: "word_loops ?m 0 (XOR) id d1 (T n) = Some d2" "length d2 = length d1"
        "\<forall>i<length d1. d2 ! i = (if i < 8 * ?m then d1 ! i XOR T n ! i else d1 ! i)"
        using word_loops_ok [OF lanes2I(2) lanes1I(1) l] by auto
      have i: "i < 8 * ?m \<longleftrightarrow> i < col_size rm n \<and> i < col_size rm x" for i using s by auto
      have "rec_p_col x n (with_data (D(x := d1)) rm) = Some (with_data (D(x := d2)) rm)"
        using False d2(1) nl Dn(1) by (simp add: rec_p_col_def Let_def set_data_with_data)
      then show ?thesis using False d2(2,3) d1(2) i by (auto simp: cbyte_def)
    qed
    then show thesis using that by blast
  qed
  show ?case using foldM_upt_Suc [OF Suc(1) d1(1) d2(1)] d2(2,3) d1(3) p by (intro exI [of _ d2]) (simp add: add.assoc del: upt_Suc fun_upd_apply)
qed

lemma reconstruct_p_ok:
  assumes ok: "raidz_ok rm" and x: "rm_firstdatacol rm \<le> x" "x < rm_cols rm" and D: "full rm D" "full rm T" "has_parity rm T"
    "\<And>c. rm_firstdatacol rm \<le> c \<Longrightarrow> c < rm_cols rm \<Longrightarrow> c \<noteq> x \<Longrightarrow> D c = T c" "D 0 = T 0"
  shows "vdev_raidz_reconstruct_p (with_data D rm) [x] = Some (1, with_data (D(x := T x)) rm)"
proof -
  note so = sizes_okD [OF raidz_okD(1) [OF ok]]
  have l: "x < length (rm_col rm)" "0 < length (rm_col rm)" "rm_cols rm \<le> length (rm_col rm)" "0 < rm_cols rm"
    using so(1) [OF x(2)] so(1) [of "rm_cols rm - 1"] so(8) by auto
  let ?m = "col_size rm x div 8"
  have s: "8 * ?m = col_size rm x" "col_size rm x \<le> col_size rm 0" "0 < col_size rm x" using so(6) [OF x(2)] so(2) [OF x(2)] raidz_okD(4) [OF ok x(2)] .
  have len: "length (D x) = col_size rm x" "length (T 0) = col_size rm 0" "length (T x) = col_size rm x" using D(1,2) x(2) l(4) by (auto simp: full_def)
  obtain d where d: "word_loops ?m 0 (\<lambda>d s. s) id (D x) (T 0) = Some d" "length d = col_size rm x" "\<forall>i<col_size rm x. d ! i = T 0 ! i"
    using word_loops_ok [OF lanes2I(1) lanes1I(1), of ?m 0 "D x" "T 0"] s len by auto
  obtain d' where d': "foldM (rec_p_col x) [rm_firstdatacol rm..<rm_cols rm] (with_data (D(x := d)) rm) = Some (with_data (D(x := d')) rm)"
    "length d' = col_size rm x" "\<forall>i<col_size rm x. gf_of (d' ! i) = gf_of (T 0 ! i) + parity (set_size x 0 rm) T 0 i"
    using rec_p_loop [OF ok x D(1,2,4) d(2), where v = "\<lambda>i. gf_of (T 0 ! i)" and n = "rm_cols rm"] d(3) so(8) by auto
  have "gf_of (d' ! i) = gf_of (T x ! i)" if i: "i < col_size rm x" for i
  proof -
    have "gf_of (T 0 ! i) = parity rm T 0 i" using D(3) so(7) s(2) i by (simp add: has_parity_def)
    then have "gf_of (T 0 ! i) = parity (set_size x 0 rm) T 0 i + gf_of (T x ! i)" using parity_split [OF x l(3), of T 0 i] i by (simp add: cbyte_def)
    then show ?thesis using d'(3) i gf_solve by simp
  qed
  then have "d' = T x" using d'(2) len(3) by (intro gf_list_eqI) auto
  moreover have "0 < ?m" "?m \<le> col_size rm 0 div 8" using s div_le_mono [OF s(2), of 8] by auto
  ultimately show ?thesis using d(1) d'(1) x l D(5)
    by (simp add: vdev_raidz_reconstruct_p_def raidz_consts Let_def set_data_with_data)
qed

section \<open>One column from Q\<close>

lemma rec_q_loop:
  assumes ok: "raidz_ok rm" and x: "rm_firstdatacol rm \<le> x" "x < rm_cols rm" and D: "full rm D" "full rm T"
    "\<And>c. rm_firstdatacol rm \<le> c \<Longrightarrow> c < rm_cols rm \<Longrightarrow> c \<noteq> x \<Longrightarrow> D c = T c" and n: "rm_firstdatacol rm \<le> n" "n < rm_cols rm"
  shows "\<exists>d'. foldM (rec_q_col x) [rm_firstdatacol rm..<Suc n] (with_data D rm) = Some (with_data (D(x := d')) rm) \<and>
    length d' = col_size rm x \<and> (\<forall>i<col_size rm x. gf_of (d' ! i) = parity_upto (set_size x 0 rm) T (Suc n) 1 i)"
  using n
proof (induction n rule: nat_induct_at_least)
  note so = sizes_okD [OF raidz_okD(1) [OF ok]]
  let ?f = "rm_firstdatacol rm"
  have step: "\<exists>d'. rec_q_col x n (with_data (D(x := d)) rm) = Some (with_data (D(x := d')) rm) \<and> length d' = col_size rm x \<and>
      (\<forall>i<col_size rm x. gf_of (d' ! i) = (if n = ?f then 0 else gen * gf_of (d ! i)) + cbyte (set_size x 0 rm) T n i)"
    if n: "?f \<le> n" "n < rm_cols rm" and d: "length d = col_size rm x" for n d
  proof -
    define cc where "cc = (if n = x then 0 else col_size rm n div 8)"
    let ?m = "min cc (col_size rm x div 8)"
    have l: "n < length (rm_col rm)" "x < length (rm_col rm)" using so(1) [OF n(2)] so(1) [OF x(2)] .
    have s: "8 * (col_size rm n div 8) = col_size rm n" "8 * (col_size rm x div 8) = col_size rm x" using so(6) n(2) x(2) by blast+
    have Dn: "n \<noteq> x \<Longrightarrow> D n = T n" "length (T n) = col_size rm n" using D(2,3) n by (auto simp: full_def)
    have m: "?m \<le> col_size rm x div 8" "8 * (col_size rm x div 8) \<le> length d" "8 * ?m \<le> length ((D(x := d)) n)"
      using s d Dn by (auto simp: cc_def)
    obtain d' where d': "parity_buf (n = ?f) VDEV_RAIDZ_64MUL_2 ?m (col_size rm x div 8) ((D(x := d)) n) d = Some d'" "length d' = length d"
      "\<forall>i<8 * (col_size rm x div 8). gf_of (d' ! i) = (if n = ?f then 0 else gen ^ 1 * gf_of (d ! i)) + (if i < 8 * ?m then gf_of ((D(x := d)) n ! i) else 0)"
      using parity_buf_gf [OF lanes1I(3) gf_muls(2) m] by blast
    have "rec_q_col x n (with_data (D(x := d)) rm) = Some (with_data (D(x := d')) rm)"
      using d'(1) l by (cases "n = x") (simp_all add: rec_q_col_def Let_def cc_def set_data_with_data)
    moreover have "(if i < 8 * ?m then gf_of ((D(x := d)) n ! i) else 0) = cbyte (set_size x 0 rm) T n i" if "i < col_size rm x" for i
      using s Dn that l by (auto simp: cbyte_set_size cbyte_def cc_def)
    ultimately show ?thesis using d'(2,3) d s(2) by auto
  qed
  {
    case base
    have "D(x := D x) = D" "length (D x) = col_size rm x" using D(1) x(2) by (auto simp: full_def)
    then show ?case using step [of ?f "D x"] base parity_upto_Suc [of "set_size x 0 rm" ?f T 1]
      by (auto simp: parity_upto_def simp del: fun_upd_apply)
  next
    case (Suc n)
    then obtain d1 where d1: "foldM (rec_q_col x) [?f..<Suc n] (with_data D rm) = Some (with_data (D(x := d1)) rm)" "length d1 = col_size rm x"
      "\<forall>i<col_size rm x. gf_of (d1 ! i) = parity_upto (set_size x 0 rm) T (Suc n) 1 i" using Suc_lessD by blast
    obtain d2 where d2: "rec_q_col x (Suc n) (with_data (D(x := d1)) rm) = Some (with_data (D(x := d2)) rm)" "length d2 = col_size rm x"
      "\<forall>i<col_size rm x. gf_of (d2 ! i) = gen * gf_of (d1 ! i) + cbyte (set_size x 0 rm) T (Suc n) i"
      using step [of "Suc n" d1] d1(2) Suc(1,3) by auto
    have "foldM (rec_q_col x) [?f..<Suc (Suc n)] (with_data D rm) = Some (with_data (D(x := d2)) rm)"
      using Suc(1) by (intro foldM_upt_Suc [OF _ d1(1) d2(1)]) simp
    then show ?case using d2(2,3) d1(3) parity_upto_Suc [of "set_size x 0 rm" "Suc n" T 1] Suc(1) by (intro exI [of _ d2]) (simp del: upt_Suc fun_upd_apply)
  }
qed

lemma those_map_Some: "(\<And>x. x \<in> set xs \<Longrightarrow> f x = Some (g x)) \<Longrightarrow> those (map f xs) = Some (map g xs)"
  by (induction xs) auto

lemma rec_q_words_ok:
  assumes "0 \<le> e" "e \<le> 255" "8 * n \<le> length dst" "8 * n \<le> length src"
  shows "\<exists>d. rec_q_words n e dst src = Some d \<and> length d = length dst \<and>
    (\<forall>i<8 * n. gf_of (d ! i) = gen ^ nat e * (gf_of (dst ! i) + gf_of (src ! i)))"
  using assms
proof (induction n e dst src rule: rec_q_words.induct)
  case (2 n e dst src)
  let ?bs = "map2 (XOR) (take 8 dst) (take 8 src)"
  have w: "le64 (of_le64 (take 8 dst) XOR of_le64 (take 8 src)) = ?bs" using 2(4,5) by (simp add: le64_xor)
  have "those (map (\<lambda>b. vdev_raidz_exp2 b e) ?bs) = Some (map (mul_pow (nat e)) ?bs)"
    using exp2_mul_pow [of "nat e"] 2(2,3) by (intro those_map_Some) simp
  moreover obtain d where d: "rec_q_words n e (drop 8 dst) (drop 8 src) = Some d" "length d = length (drop 8 dst)"
    "\<forall>i<8 * n. gf_of (d ! i) = gen ^ nat e * (gf_of (drop 8 dst ! i) + gf_of (drop 8 src ! i))"
    using 2(1) [OF _ _ 2(2,3)] 2(4,5) calculation w by fastforce
  have "gf_of ((map (mul_pow (nat e)) ?bs @ d) ! i) = gen ^ nat e * (gf_of (dst ! i) + gf_of (src ! i))" if "i < 8 * Suc n" for i
  proof (cases "i < 8")
    case True
    then show ?thesis using 2(4,5) by (simp add: nth_append gf_of_mul_pow)
  next
    case False
    then show ?thesis using d(3) [rule_format, of "i - 8"] that 2(4,5) by (simp add: nth_append)
  qed
  ultimately show ?case using d(1,2) w 2(4,5) by simp
qed simp

lemma reconstruct_q_ok:
  assumes ok: "raidz_ok rm" and x: "rm_firstdatacol rm \<le> x" "x < rm_cols rm" and f: "1 < rm_firstdatacol rm" and D: "full rm D" "full rm T" "has_parity rm T"
    "\<And>c. rm_firstdatacol rm \<le> c \<Longrightarrow> c < rm_cols rm \<Longrightarrow> c \<noteq> x \<Longrightarrow> D c = T c" "D 1 = T 1"
  shows "vdev_raidz_reconstruct_q (with_data D rm) [x] = Some (2, with_data (D(x := T x)) rm)"
proof -
  note so = sizes_okD [OF raidz_okD(1) [OF ok]]
  have l: "x < length (rm_col rm)" "1 < length (rm_col rm)" "rm_cols rm \<le> length (rm_col rm)" "1 < rm_cols rm"
    using so(1) [OF x(2)] so(1) [of "rm_cols rm - 1"] so(8) f by auto
  let ?m = "col_size rm x div 8" and ?e = "rm_cols rm - 1 - x"
  have s: "8 * ?m = col_size rm x" "col_size rm x \<le> col_size rm 1" using so(6) [OF x(2)] so(2) [OF x(2)] so(4) [OF f] by simp_all
  have len: "length (T 1) = col_size rm 1" "length (T x) = col_size rm x" using D(2) x(2) l(4) by (auto simp: full_def)
  have n: "rm_firstdatacol rm \<le> rm_cols rm - 1" "rm_cols rm - 1 < rm_cols rm" "Suc (rm_cols rm - 1) = rm_cols rm" using so(8) by auto
  obtain d where d: "foldM (rec_q_col x) [rm_firstdatacol rm..<rm_cols rm] (with_data D rm) = Some (with_data (D(x := d)) rm)"
    "length d = col_size rm x" "\<forall>i<col_size rm x. gf_of (d ! i) = parity (set_size x 0 rm) T 1 i"
    using rec_q_loop [OF ok x D(1,2,4) n(1,2)] n(3) by auto
  have e: "255 - (int (rm_cols rm) - 1 - int x) = int (255 - ?e)" "?e \<le> 255" using x(2) raidz_okD(3) [OF ok] by auto
  obtain d' where d': "rec_q_words ?m (int (255 - ?e)) d (T 1) = Some d'" "length d' = length d"
    "\<forall>i<8 * ?m. gf_of (d' ! i) = gen ^ (255 - ?e) * (gf_of (d ! i) + gf_of (T 1 ! i))"
    using rec_q_words_ok [of "int (255 - ?e)" ?m d "T 1"] s len d(2) by auto
  have "gf_of (d' ! i) = gf_of (T x ! i)" if i: "i < col_size rm x" for i
  proof -
    have "gf_of (T 1 ! i) = parity rm T 1 i" using D(3) f s(2) so(4) [OF f] i by (simp add: has_parity_def)
    then have "gf_of (T 1 ! i) = parity (set_size x 0 rm) T 1 i + gen ^ ?e * gf_of (T x ! i)" using parity_split [OF x l(3), of T 1 i] i by (simp add: cbyte_def)
    then have "gf_of (d ! i) + gf_of (T 1 ! i) = gen ^ ?e * gf_of (T x ! i)" using d(3) i by simp
    then show ?thesis using d'(3) s(1) i gen_minus [OF e(2)] by simp
  qed
  then have "d' = T x" using d'(2) d(2) len(2) by (intro gf_list_eqI) auto
  moreover have "x \<noteq> 1" using x(1) f by simp
  ultimately show ?thesis using d(1) d'(1) x l D(5) div_le_mono [OF s(2), of 8] e(1)
    by (simp add: vdev_raidz_reconstruct_q_def raidz_consts Let_def set_data_with_data)
qed

section \<open>Two columns from P and Q\<close>

lemma rec_pq_bytes_ok:
  assumes "\<And>b. \<exists>r. vdev_raidz_exp2 b aexp = Some r \<and> gf_of r = u * gf_of b" "\<And>b. \<exists>r. vdev_raidz_exp2 b bexp = Some r \<and> gf_of r = v * gf_of b"
    "xsize \<le> length p" "xsize \<le> length q" "xsize \<le> length pxy" "xsize \<le> length qxy" "xsize \<le> length xd" "ysize \<le> length yd" "ysize \<le> xsize"
  shows "\<exists>xd' yd'. rec_pq_bytes xsize ysize aexp bexp p q pxy qxy xd yd = Some (xd', yd') \<and> length xd' = length xd \<and> length yd' = length yd \<and>
    (\<forall>i<xsize. gf_of (xd' ! i) = u * (gf_of (p ! i) + gf_of (pxy ! i)) + v * (gf_of (q ! i) + gf_of (qxy ! i))) \<and>
    (\<forall>i<ysize. gf_of (yd' ! i) = gf_of (p ! i) + gf_of (pxy ! i) + gf_of (xd' ! i))"
  using assms(3-)
proof (induction xsize arbitrary: ysize p q pxy qxy xd yd)
  case (Suc n)
  then obtain p0 ps q0 qs r0 rs s0 ss x0 xs where c: "p = p0 # ps" "q = q0 # qs" "pxy = r0 # rs" "qxy = s0 # ss" "xd = x0 # xs"
    by (metis Suc_le_length_iff)
  obtain a b where ab: "vdev_raidz_exp2 (p0 XOR r0) aexp = Some a" "gf_of a = u * (gf_of p0 + gf_of r0)"
    "vdev_raidz_exp2 (q0 XOR s0) bexp = Some b" "gf_of b = v * (gf_of q0 + gf_of s0)" using assms(1,2) gf_of_simps(3) by metis
  show ?case
  proof (cases "ysize = 0")
    case True
    obtain xd' yd' where r: "rec_pq_bytes n 0 aexp bexp ps qs rs ss xs yd = Some (xd', yd')" "length xd' = length xs" "length yd' = length yd"
      "\<forall>i<n. gf_of (xd' ! i) = u * (gf_of (ps ! i) + gf_of (rs ! i)) + v * (gf_of (qs ! i) + gf_of (ss ! i))"
      using Suc.IH [of ps qs rs ss xs 0 yd] Suc.prems c by auto
    have "\<forall>i<Suc n. gf_of (((a XOR b) # xd') ! i) = u * (gf_of (p ! i) + gf_of (pxy ! i)) + v * (gf_of (q ! i) + gf_of (qxy ! i))"
      using r(4) ab c by (auto simp: nth_Cons split: nat.splits)
    moreover have "rec_pq_bytes (Suc n) ysize aexp bexp p q pxy qxy xd yd = Some ((a XOR b) # xd', yd')" using r(1) ab(1,3) c True by simp
    ultimately show ?thesis using r(2,3) c True by (intro exI [of _ "(a XOR b) # xd'"] exI [of _ yd']) simp
  next
    case False
    then obtain y0 ys m where y: "yd = y0 # ys" "ysize = Suc m" using Suc.prems(6) by (cases yd; cases ysize) auto
    obtain xd' yd' where r: "rec_pq_bytes n m aexp bexp ps qs rs ss xs ys = Some (xd', yd')" "length xd' = length xs" "length yd' = length ys"
      "\<forall>i<n. gf_of (xd' ! i) = u * (gf_of (ps ! i) + gf_of (rs ! i)) + v * (gf_of (qs ! i) + gf_of (ss ! i))"
      "\<forall>i<m. gf_of (yd' ! i) = gf_of (ps ! i) + gf_of (rs ! i) + gf_of (xd' ! i)"
      using Suc.IH [of ps qs rs ss xs m ys] Suc.prems c y by auto
    let ?x = "(a XOR b) # xd'" and ?y = "(p0 XOR r0 XOR (a XOR b)) # yd'"
    have "\<forall>i<Suc n. gf_of (?x ! i) = u * (gf_of (p ! i) + gf_of (pxy ! i)) + v * (gf_of (q ! i) + gf_of (qxy ! i))"
      using r(4) ab c by (auto simp: nth_Cons split: nat.splits)
    moreover have "\<forall>i<ysize. gf_of (?y ! i) = gf_of (p ! i) + gf_of (pxy ! i) + gf_of (?x ! i)"
      using r(5) c y by (auto simp: nth_Cons add.assoc split: nat.splits)
    moreover have "rec_pq_bytes (Suc n) ysize aexp bexp p q pxy qxy xd yd = Some (?x, ?y)" using r(1) ab(1,3) c y by (simp add: Let_def xor.assoc)
    ultimately show ?thesis using r(2,3) c y by (intro exI [of _ ?x] exI [of _ ?y]) simp
  qed
qed simp

lemma solve_two:
  fixes A B s t :: gf
  assumes "A \<noteq> 0" "B \<noteq> 0" "A \<noteq> 1"
  shows "inverse A / (inverse A + 1) * (s + t) + inverse B / (inverse A + 1) * (B * s + B / A * t) = s"
proof -
  have "1 + A \<noteq> 0" using assms(3) gf_add_eq_0 by metis
  have "inverse A + 1 = (1 + A) / A" using assms(1) by (simp add: field_simps)
  then have e: "inverse A / (inverse A + 1) = 1 / (1 + A)" "inverse B / (inverse A + 1) = A / (B * (1 + A))" using assms \<open>1 + A \<noteq> 0\<close> by (simp_all add: field_simps)
  have q: "A / (B * c) * (B * s + B / A * t) = (A * s + t) / c" if "c \<noteq> 0" for c using assms(1,2) that by (simp add: field_simps)
  have "1 / (1 + A) * (s + t) + A / (B * (1 + A)) * (B * s + B / A * t) = ((s + t) + (A * s + t)) / (1 + A)"
    unfolding q [OF \<open>1 + A \<noteq> 0\<close>] by (metis add_divide_distrib mult_1_left times_divide_eq_left)
  also have "(s + t) + (A * s + t) = s * (1 + A)" by (simp add: algebra_simps)
  finally show ?thesis using \<open>1 + A \<noteq> 0\<close> by (simp add: e)
qed

lemma log2_exp2:
  assumes "e \<noteq> 0"
  shows "\<exists>r. vdev_raidz_exp2 b (int (vdev_raidz_log2 ! unat e)) = Some r \<and> gf_of r = gf_of e * gf_of b"
  using exp2_log2 [OF assms] by metis

text \<open>The coefficients with which the code solves for the first column.\<close>

lemma pq_coefficients:
  assumes "x < y" "y < n" "n \<le> 255"
  defines "a \<equiv> vdev_raidz_pow2 ! (255 + x - y)" and "b \<equiv> vdev_raidz_pow2 ! (255 - (n - 1 - x))"
  defines "tmp \<equiv> 255 - int (vdev_raidz_log2 ! unat (a XOR 1))" and "A \<equiv> gen ^ (y - x)" and "B \<equiv> gen ^ (n - 1 - x)"
  obtains ea eb where "vdev_raidz_exp2 a tmp = Some ea" "vdev_raidz_exp2 b tmp = Some eb" "ea \<noteq> 0" "eb \<noteq> 0"
    "gf_of ea = inverse A / (inverse A + 1)" "gf_of eb = inverse B / (inverse A + 1)" "A \<noteq> 0" "B \<noteq> 0" "A \<noteq> 1" "gen ^ (n - 1 - y) = B / A"
proof -
  have "255 + x - y = 255 - (y - x)" using assms(1) by simp
  then have ga: "gf_of a = inverse A" and gb: "gf_of b = inverse B"
    using gf_of_pow2 [of "255 - (y - x)"] gf_of_pow2 [of "255 - (n - 1 - x)"] gen_minus [of "y - x"] gen_minus [of "n - 1 - x"] assms by simp_all
  have n0: "A \<noteq> 0" "B \<noteq> 0" by (simp_all add: A_def B_def)
  have "y - x < 255" "y - x \<noteq> 0" using assms(1-3) by arith+
  then have A1: "A \<noteq> 1" using gen_inj [of "y - x" 0] by (auto simp: A_def)
  then have a1: "a XOR 1 \<noteq> 0" using ga n0 gf_add_eq_0 [of "inverse A" 1] by (metis gf_of_eq_0 gf_of_simps(2,3) inverse_eq_1_iff)
  obtain ea where ea: "vdev_raidz_exp2 a tmp = Some ea" "gf_of ea = gf_of a / gf_of (a XOR 1)" using exp2_div [OF a1] unfolding tmp_def by metis
  obtain eb where eb: "vdev_raidz_exp2 b tmp = Some eb" "gf_of eb = gf_of b / gf_of (a XOR 1)" using exp2_div [OF a1] unfolding tmp_def by metis
  have d: "inverse A + 1 \<noteq> 0" using a1 ga by (metis gf_of_eq_0 gf_of_simps(2,3))
  have e: "gf_of ea = inverse A / (inverse A + 1)" "gf_of eb = inverse B / (inverse A + 1)" using ea(2) eb(2) ga gb by simp_all
  then have "ea \<noteq> 0" "eb \<noteq> 0" using d n0 by (metis divide_eq_0_iff gf_of_eq_0 inverse_nonzero_iff_nonzero)+
  moreover have "gen ^ (n - 1 - y) * A = B" using assms(1,2) by (simp add: A_def B_def flip: power_add)
  then have "gen ^ (n - 1 - y) = B / A" using n0 by (simp add: nonzero_eq_divide_eq)
  ultimately show ?thesis using that ea(1) eb(1) e n0 A1 by blast
qed

lemma parity_split2:
  assumes "rm_firstdatacol rm \<le> x" "x < y" "y < rm_cols rm" "rm_cols rm \<le> length (rm_col rm)"
  shows "parity rm T j i = parity (set_size y 0 (set_size x 0 rm)) T j i + (gen ^ j) ^ (rm_cols rm - 1 - x) * cbyte rm T x i
    + (gen ^ j) ^ (rm_cols rm - 1 - y) * cbyte rm T y i"
proof -
  have "parity (set_size x 0 rm) T j i = parity (set_size y 0 (set_size x 0 rm)) T j i + (gen ^ j) ^ (rm_cols rm - 1 - y) * cbyte (set_size x 0 rm) T y i"
    using parity_split [of "set_size x 0 rm" y T j i] assms by simp
  then show ?thesis using parity_split [of rm x T j i] assms by (simp add: cbyte_set_size algebra_simps)
qed

lemma sizes_ok_zeroed:
  assumes "raidz_ok rm" "1 < rm_firstdatacol rm" "rm_firstdatacol rm \<le> x" "x < y" "y < rm_cols rm"
  shows "sizes_ok (set_size y 0 (set_size x 0 rm))"
proof -
  note so = sizes_okD [OF raidz_okD(1) [OF assms(1)]]
  have l: "rm_cols rm \<le> length (rm_col rm)" using so(1) [of "rm_cols rm - 1"] so(8) by simp
  then have s: "col_size (set_size y 0 (set_size x 0 rm)) c = (if c = x \<or> c = y then 0 else col_size rm c)" if "c < rm_cols rm" for c
    using that by simp
  have 0: "0 \<noteq> x" "0 \<noteq> y" "0 < rm_cols rm" using assms so(8) by auto
  have "8 dvd col_size rm c" if "c < rm_cols rm" for c using so(6) [OF that] by (metis dvd_triv_left)
  then have a: "\<forall>c<rm_cols rm. 8 dvd col_size (set_size y 0 (set_size x 0 rm)) c \<and> col_size (set_size y 0 (set_size x 0 rm)) c \<le> col_size rm 0"
    using s so(2) by (simp add: le_trans del: set_size_simps)
  have b: "col_size (set_size y 0 (set_size x 0 rm)) 0 = col_size rm 0" using s [OF 0(3)] 0 by simp
  have "\<forall>c<rm_firstdatacol rm. col_size (set_size y 0 (set_size x 0 rm)) c = col_size rm 0"
    using s so(3,4) assms(3,4) by (metis leD less_trans)
  moreover have "col_size (set_size y 0 (set_size x 0 rm)) (rm_firstdatacol rm) = col_size rm 0 \<or> col_size (set_size y 0 (set_size x 0 rm)) (rm_firstdatacol rm) = 0"
    using s [OF so(8)] so(5) by presburger
  ultimately show ?thesis unfolding sizes_ok_def b using a l so(7,8) assms(2) by simp
qed

text \<open>Parity as though the two columns were full of zeros, and the equations that it gives for them.\<close>

lemma zeroed_parity:
  assumes ok: "raidz_ok rm" and x: "rm_firstdatacol rm \<le> x" "x < y" "y < rm_cols rm" and f: "1 < rm_firstdatacol rm" and D: "full rm D" "has_parity rm T"
    "\<And>c. rm_firstdatacol rm \<le> c \<Longrightarrow> c < rm_cols rm \<Longrightarrow> c \<noteq> x \<Longrightarrow> c \<noteq> y \<Longrightarrow> D c = T c"
    and b: "length b0 = col_size rm 0" "length b1 = col_size rm 1"
  defines "rz \<equiv> set_size y 0 (set_size x 0 rm)"
  shows "\<exists>Z. vdev_raidz_generate_parity_pq (with_data (D(0 := b0, 1 := b1)) rz) = Some (with_data Z rz) \<and> (\<forall>c\<ge>2. Z c = D c) \<and>
    length (Z 0) = col_size rm 0 \<and> length (Z 1) = col_size rm 1 \<and>
    (\<forall>i<col_size rm x. gf_of (T 0 ! i) + gf_of (Z 0 ! i) = gf_of (T x ! i) + cbyte rm T y i \<and>
       gf_of (T 1 ! i) + gf_of (Z 1 ! i) = gen ^ (rm_cols rm - 1 - x) * gf_of (T x ! i) + gen ^ (rm_cols rm - 1 - y) * cbyte rm T y i)"
proof -
  note so = sizes_okD [OF raidz_okD(1) [OF ok]]
  let ?Z = "D(0 := b0, 1 := b1)"
  have xc: "x < rm_cols rm" using x by simp
  have l: "rm_cols rm \<le> length (rm_col rm)" "0 < length (rm_col rm)" using so(1) [of "rm_cols rm - 1"] so(8) by auto
  have rz: "sizes_ok rz" "rm_cols rz = rm_cols rm" "rm_firstdatacol rz = rm_firstdatacol rm" "col_size rz 0 = col_size rm 0"
    using sizes_ok_zeroed [OF ok f x] l x f by (simp_all add: rz_def)
  have dz: "data_ok rz ?Z" using D(1) b l(1) by (auto simp: data_ok_def full_def rz_def)
  obtain Z where Z: "vdev_raidz_generate_parity_pq (with_data ?Z rz) = Some (with_data Z rz)" "parities rz ?Z 2 (rm_cols rz) Z"
    using generate_pq_ok [OF rz(1) dz] f rz(3) by auto
  have cz: "cbyte rz ?Z c i = cbyte rz T c i" if "rm_firstdatacol rm \<le> c" "c < rm_cols rm" for c i
    using that D(3) [OF that] f l(1) by (auto simp: cbyte_def rz_def)
  have "parity rz ?Z j i = parity rz T j i" for j i
    unfolding parity_upto_def rz(2,3) by (intro sum.cong) (simp_all add: cz del: One_nat_def)
  then have Zv: "gf_of (Z j ! i) = parity rz T j i" if "j < 2" "i < col_size rm 0" for i j
    using Z(2) that rz(4) by (simp add: parities_def)
  have eqs: "gf_of (T j ! i) + gf_of (Z j ! i) = (gen ^ j) ^ (rm_cols rm - 1 - x) * gf_of (T x ! i) + (gen ^ j) ^ (rm_cols rm - 1 - y) * cbyte rm T y i"
    if i: "i < col_size rm x" and j: "j < 2" for i j
  proof -
    have i0: "i < col_size rm 0" using i so(2) [OF xc] by simp
    then have "gf_of (T j ! i) = parity rm T j i" using D(2) f j by (simp add: has_parity_def)
    then show ?thesis using parity_split2 [OF x l(1), of T j i] i Zv [OF j i0] by (simp add: rz_def cbyte_def gf_solve add.assoc)
  qed
  have "\<forall>c\<ge>2. Z c = D c" "length (Z 0) = col_size rm 0" "length (Z 1) = col_size rm 1" using Z(2) b by (auto simp: parities_def)
  then show ?thesis using Z(1) eqs [of _ 0] eqs [of _ 1] by (intro exI [of _ Z]) simp
qed

lemma reconstruct_pq_ok:
  assumes ok: "raidz_ok rm" and x: "rm_firstdatacol rm \<le> x" "x < y" "y < rm_cols rm" and f: "1 < rm_firstdatacol rm" and D: "full rm D" "full rm T" "has_parity rm T"
    "\<And>c. rm_firstdatacol rm \<le> c \<Longrightarrow> c < rm_cols rm \<Longrightarrow> c \<noteq> x \<Longrightarrow> c \<noteq> y \<Longrightarrow> D c = T c" "D 0 = T 0" "D 1 = T 1"
    and alloc: "\<And>n. length (alloc n) = n"
  shows "vdev_raidz_reconstruct_pq alloc (with_data D rm) [x, y] = Some (3, with_data (D(x := T x, y := T y)) rm)"
proof -
  note so = sizes_okD [OF raidz_okD(1) [OF ok]]
  define rz where "rz = set_size y 0 (set_size x 0 rm)"
  let ?Z = "D(0 := alloc (col_size rm 0), 1 := alloc (col_size rm 1))"
  have xc: "x < rm_cols rm" using x by simp
  have l: "x < length (rm_col rm)" "y < length (rm_col rm)" "0 < length (rm_col rm)" "1 < length (rm_col rm)" "rm_cols rm \<le> length (rm_col rm)"
    using so(1) [OF xc] so(1) [OF x(3)] so(1) [OF so(3) [OF f]] so(1) [OF so(3) [OF so(7)]] so(1) [of "rm_cols rm - 1"] so(8) by auto
  have ne: "x \<noteq> 0" "y \<noteq> 0" "x \<noteq> 1" "y \<noteq> 1" "x \<noteq> y" using x f by auto
  have rz: "rm_cols rz = rm_cols rm" by (simp add: rz_def)
  obtain Z where Z: "vdev_raidz_generate_parity_pq (with_data ?Z rz) = Some (with_data Z rz)" and Zc: "\<And>c. 2 \<le> c \<Longrightarrow> Z c = D c"
    and Zl: "length (Z 0) = col_size rm 0" "length (Z 1) = col_size rm 1"
    and eqs: "\<And>i. i < col_size rm x \<Longrightarrow> gf_of (T 0 ! i) + gf_of (Z 0 ! i) = gf_of (T x ! i) + cbyte rm T y i"
      "\<And>i. i < col_size rm x \<Longrightarrow> gf_of (T 1 ! i) + gf_of (Z 1 ! i) = gen ^ (rm_cols rm - 1 - x) * gf_of (T x ! i) + gen ^ (rm_cols rm - 1 - y) * cbyte rm T y i"
    using zeroed_parity [OF ok x f D(1,3,4) alloc alloc] unfolding rz_def by blast
  have len: "length (T 0) = col_size rm 0" "length (T 1) = col_size rm 1" "length (T x) = col_size rm x" "length (T y) = col_size rm y"
    "length (D x) = col_size rm x" "length (D y) = col_size rm y" using D(1,2) xc x(3) so(8) f by (auto simp: full_def)
  have sz: "col_size rm y \<le> col_size rm x" "col_size rm x \<le> col_size rm 0" "col_size rm 1 = col_size rm 0"
    using raidz_okD(5) [OF ok x(1) less_imp_le [OF x(2)] x(3)] so(2) [OF xc] so(4) [OF f] by auto
  obtain ea eb where e: "vdev_raidz_exp2 (vdev_raidz_pow2 ! (255 + x - y)) (255 - int (vdev_raidz_log2 ! unat (vdev_raidz_pow2 ! (255 + x - y) XOR 1))) = Some ea"
    "vdev_raidz_exp2 (vdev_raidz_pow2 ! (255 - (rm_cols rm - 1 - x))) (255 - int (vdev_raidz_log2 ! unat (vdev_raidz_pow2 ! (255 + x - y) XOR 1))) = Some eb"
    "ea \<noteq> 0" "eb \<noteq> 0" and g: "gf_of ea = inverse (gen ^ (y - x)) / (inverse (gen ^ (y - x)) + 1)"
    "gf_of eb = inverse (gen ^ (rm_cols rm - 1 - x)) / (inverse (gen ^ (y - x)) + 1)" "gen ^ (y - x) \<noteq> 0" "gen ^ (rm_cols rm - 1 - x) \<noteq> 0" "gen ^ (y - x) \<noteq> 1"
    "gen ^ (rm_cols rm - 1 - y) = gen ^ (rm_cols rm - 1 - x) / gen ^ (y - x)"
    using pq_coefficients [OF x(2,3) raidz_okD(3) [OF ok]] .
  have lens: "col_size rm x \<le> length (T 0)" "col_size rm x \<le> length (T 1)" "col_size rm x \<le> length (Z 0)" "col_size rm x \<le> length (Z 1)"
    "col_size rm x \<le> length (D x)" "col_size rm y \<le> length (D y)" using len Zl sz by auto
  obtain xd yd where r: "rec_pq_bytes (col_size rm x) (col_size rm y) (int (vdev_raidz_log2 ! unat ea)) (int (vdev_raidz_log2 ! unat eb)) (T 0) (T 1) (Z 0) (Z 1) (D x) (D y) = Some (xd, yd)"
    "length xd = length (D x)" "length yd = length (D y)"
    "\<forall>i<col_size rm x. gf_of (xd ! i) = gf_of ea * (gf_of (T 0 ! i) + gf_of (Z 0 ! i)) + gf_of eb * (gf_of (T 1 ! i) + gf_of (Z 1 ! i))"
    "\<forall>i<col_size rm y. gf_of (yd ! i) = gf_of (T 0 ! i) + gf_of (Z 0 ! i) + gf_of (xd ! i)"
    using rec_pq_bytes_ok [OF log2_exp2 [OF e(3)] log2_exp2 [OF e(4)] lens sz(1)] by blast
  have xv: "gf_of (xd ! i) = gf_of (T x ! i)" if i: "i < col_size rm x" for i
    using r(4) i eqs [OF i] solve_two [OF g(3,4,5)] g(1,2,6) by simp
  then have "xd = T x" using r(2) len by (intro gf_list_eqI) auto
  moreover have "gf_of (yd ! i) = gf_of (T y ! i)" if i: "i < col_size rm y" for i
  proof -
    have "i < col_size rm x" using i sz by simp
    then show ?thesis using r(5) i eqs(1) xv gf_solve [of "gf_of (T x ! i)" "gf_of (T y ! i)"] by (simp add: cbyte_def add.commute)
  qed
  then have "yd = T y" using r(3) len by (intro gf_list_eqI) auto
  ultimately have rr: "rec_pq_bytes (col_size rm x) (col_size rm y) (int (vdev_raidz_log2 ! unat ea)) (int (vdev_raidz_log2 ! unat eb)) (D 0) (D 1) (Z 0) (Z 1) (D x) (D y) = Some (T x, T y)"
    using r(1) D(5,6) by simp
  have restored: "set_size y (col_size rm y) (set_size x (col_size rm x) (with_data Z rz)) = with_data Z rm"
    using l set_size_back [OF ne(5) l(1,2), of 0 0] by (simp add: rz_def set_size_with_data)
  have D': "(Z(x := T x, y := T y))(0 := D 0, 1 := D 1) = D(x := T x, y := T y)" using Zc ne by (auto simp: fun_eq_iff not_less_eq_eq numeral_2_eq_2 dest: not_less_less_Suc_eq)
  have bound: "rm_cols rm \<le> 256 + x" using raidz_okD(3) [OF ok] by simp
  have start: "set_size y 0 (set_size x 0 (set_data VDEV_RAIDZ_Q (alloc (col_size (with_data D rm) VDEV_RAIDZ_Q)) (set_data VDEV_RAIDZ_P (alloc (col_size (with_data D rm) VDEV_RAIDZ_P)) (with_data D rm)))) = with_data ?Z rz"
    using l by (simp add: raidz_consts set_data_with_data set_size_with_data rz_def)
  have Zxy: "Z x = D x" "Z y = D y" using Zc x f by auto
  show ?thesis
    unfolding vdev_raidz_reconstruct_pq_def
    using Z e(1,2) rr x sz(1) bound restored D' l start Zxy rz
    by (simp add: Let_def raidz_consts set_data_with_data)
qed

end
