(* ===== verification/RaidzElim.thy ===== *)
theory RaidzElim
  imports RaidzRecover
begin

text \<open>
  Reconstruction of RAID-Z columns in general.  The rows of the dispersal matrix that belong to the parity columns in use are inverted by
  Gauss-Jordan elimination without a search for pivots; for up to three missing columns no pivot and no
  coefficient is ever zero, so that no assertion of the code fails.
\<close>

section \<open>Elimination\<close>

text \<open>One pivot: row \<open>i\<close> is divided by its element in the pivot column \<open>E\<close>, and a multiple of it is added to the others.\<close>

definition pstep :: "nat \<Rightarrow> (nat \<Rightarrow> gf) \<Rightarrow> (nat \<Rightarrow> nat \<Rightarrow> gf) \<Rightarrow> nat \<Rightarrow> nat \<Rightarrow> gf" where
  "pstep i E F r j = (if r = i then F i j / E i else F r j + E r * (F i j / E i))"

fun gauss :: "nat list \<Rightarrow> nat list \<Rightarrow> (nat \<Rightarrow> nat \<Rightarrow> gf) \<Rightarrow> (nat \<Rightarrow> nat \<Rightarrow> gf) \<Rightarrow> (nat \<Rightarrow> nat \<Rightarrow> gf) \<times> (nat \<Rightarrow> nat \<Rightarrow> gf)" where
  "gauss ms [] R V = (R, V)"
| "gauss ms (i # is) R V = (let E = (\<lambda>r. R r (ms ! i)) in gauss ms is (pstep i E R) (pstep i E V))"

definition pivot_ok :: "nat list \<Rightarrow> nat \<Rightarrow> (nat \<Rightarrow> nat \<Rightarrow> gf) \<Rightarrow> bool" where
  "pivot_ok ms i R \<longleftrightarrow> (\<forall>r<length ms. R r (ms ! i) \<noteq> 0) \<and> (\<forall>j<ms ! i. R i j = 0)"

fun gauss_ok :: "nat list \<Rightarrow> nat list \<Rightarrow> (nat \<Rightarrow> nat \<Rightarrow> gf) \<Rightarrow> bool" where
  "gauss_ok ms [] R \<longleftrightarrow> True"
| "gauss_ok ms (i # is) R \<longleftrightarrow> pivot_ok ms i R \<and> gauss_ok ms is (pstep i (\<lambda>r. R r (ms ! i)) R)"

text \<open>A linear equation between the two parts of every row is kept.\<close>

definition rows_eq :: "nat \<Rightarrow> nat \<Rightarrow> (nat \<Rightarrow> nat \<Rightarrow> gf) \<Rightarrow> (nat \<Rightarrow> nat \<Rightarrow> gf) \<Rightarrow> (nat \<Rightarrow> gf) \<Rightarrow> (nat \<Rightarrow> gf) \<Rightarrow> bool" where
  "rows_eq nm n R V d u \<longleftrightarrow> (\<forall>r<nm. (\<Sum>j<n. R r j * d j) = (\<Sum>j<n. V r j * u j))"

lemma pstep_sum:
  "(\<Sum>j<n. pstep i E F r j * d j) = (if r = i then (\<Sum>j<n. F i j * d j) / E i else (\<Sum>j<n. F r j * d j) + E r * ((\<Sum>j<n. F i j * d j) / E i))"
  by (simp add: pstep_def sum_divide_distrib sum_distrib_left sum.distrib algebra_simps)

lemma rows_eq_pstep: "rows_eq nm n R V d u \<Longrightarrow> i < nm \<Longrightarrow> rows_eq nm n (pstep i E R) (pstep i E V) d u"
  unfolding rows_eq_def pstep_sum by simp

lemma rows_eq_gauss: "rows_eq nm n R V d u \<Longrightarrow> set is \<subseteq> {..<nm} \<Longrightarrow> gauss ms is R V = (R', V') \<Longrightarrow> rows_eq nm n R' V' d u"
  by (induction "is" arbitrary: R V) (auto simp: Let_def intro: rows_eq_pstep)

section \<open>One, two and three missing columns\<close>

definition unit_rows :: "nat list \<Rightarrow> nat \<Rightarrow> (nat \<Rightarrow> nat \<Rightarrow> gf) \<Rightarrow> bool" where
  "unit_rows ms n R \<longleftrightarrow> (\<forall>r<length ms. \<forall>j<n. R r j = (if j = ms ! r then 1 else 0))"

text \<open>What the elimination has to achieve: no failed assertion, unit rows, and coefficients that are not zero.\<close>

definition solves :: "nat list \<Rightarrow> nat \<Rightarrow> (nat \<Rightarrow> nat \<Rightarrow> gf) \<Rightarrow> (nat \<Rightarrow> nat \<Rightarrow> gf) \<Rightarrow> bool" where
  "solves ms n R V \<longleftrightarrow> gauss_ok ms [0..<length ms] R \<and>
     (case gauss ms [0..<length ms] R V of (R', V') \<Rightarrow> unit_rows ms n R' \<and> (\<forall>r<length ms. \<forall>j<n. V' r j \<noteq> 0))"

lemma solves_1:
  assumes "R 0 m \<noteq> 0" "\<And>j. j < n \<Longrightarrow> j \<noteq> m \<Longrightarrow> R 0 j = 0" "\<And>j. j < n \<Longrightarrow> V 0 j \<noteq> 0" "m < n"
  shows "solves [m] n R V"
  using assms by (auto simp: solves_def pivot_ok_def unit_rows_def pstep_def Let_def)

lemma gf_det: "p * s + q * r \<noteq> 0 \<longleftrightarrow> p * s \<noteq> q * (r :: gf)"
  using gf_add_eq_0 by metis

lemma solves_2:
  assumes nz: "R 0 k \<noteq> 0" "R 0 m \<noteq> 0" "R 1 k \<noteq> 0" "R 1 m \<noteq> 0" and det: "R 0 k * R 1 m \<noteq> R 0 m * R 1 k"
    and z: "\<And>r j. r < 2 \<Longrightarrow> j < n \<Longrightarrow> j \<noteq> k \<Longrightarrow> j \<noteq> m \<Longrightarrow> R r j = 0" and km: "k < m" "m < n"
    and V: "\<And>j. j < n \<Longrightarrow> R 1 m * V 0 j \<noteq> R 0 m * V 1 j" "\<And>j. j < n \<Longrightarrow> R 1 k * V 0 j \<noteq> R 0 k * V 1 j"
  shows "solves [k, m] n R V"
proof -
  define p q r s where "p = R 0 k" and "q = R 0 m" and "r = R 1 k" and "s = R 1 m"
  note d = p_def [symmetric] q_def [symmetric] r_def [symmetric] s_def [symmetric]
  note pq = nz [unfolded d] det [unfolded d]
  note d' = d [unfolded One_nat_def]
  define D where "D = p * s + q * r"
  have D: "D \<noteq> 0" using pq(5) gf_det by (simp add: D_def)
  define E where "E = (\<lambda>r. R r k)"
  define E' where "E' = (\<lambda>r. pstep 0 E R r m)"
  have E: "E 0 = p" "E 1 = r" "E' 0 = q / p" "E' 1 = D / p" using pq by (simp_all add: E_def E'_def pstep_def d d' D_def field_simps)
  note E = E E [unfolded One_nat_def]
  have F: "pstep 1 E' (pstep 0 E F) 0 j = (s * F 0 j + q * F 1 j) / D" "pstep 1 E' (pstep 0 E F) 1 j = (r * F 0 j + p * F 1 j) / D" for F j
  proof -
    have "pstep 1 E' (pstep 0 E F) 1 j = (F 1 j + r * (F 0 j / p)) / (D / p)" by (simp add: pstep_def E)
    also have "\<dots> = (r * F 0 j + p * F 1 j) / D" using pq(1) D by (simp add: field_simps)
    finally show 1: "pstep 1 E' (pstep 0 E F) 1 j = (r * F 0 j + p * F 1 j) / D" .
    have "pstep 1 E' (pstep 0 E F) 0 j = F 0 j / p + q / p * pstep 1 E' (pstep 0 E F) 1 j" by (simp add: pstep_def E)
    also have "\<dots> = (F 0 j * D + q * (r * F 0 j + p * F 1 j)) / (p * D)" unfolding 1 using pq(1) D by (simp add: field_simps)
    also have "F 0 j * D + q * (r * F 0 j + p * F 1 j) = p * (s * F 0 j + q * F 1 j)" by (simp add: D_def algebra_simps)
    finally show "pstep 1 E' (pstep 0 E F) 0 j = (s * F 0 j + q * F 1 j) / D" using pq(1) by simp
  qed
  have "[0..<length [k, m]] = [0, 1]" by (simp add: upt_rec)
  moreover have "pivot_ok [k, m] 0 R" using nz z km by (auto simp: pivot_ok_def less_Suc_eq)
  moreover have "pivot_ok [k, m] 1 (pstep 0 E R)"
  proof -
    have "E' t \<noteq> 0" if "t < 2" for t using that E(3,4) pq D by (auto simp: less_2_cases_iff)
    moreover have "pstep 0 E R 1 j = 0" if "j < m" for j
      using that z [of 0 j] z [of 1 j] km pq(1) by (cases "j = k") (simp_all add: pstep_def E d d')
    ultimately show ?thesis by (simp add: pivot_ok_def E'_def numeral_2_eq_2)
  qed
  moreover have "unit_rows [k, m] n (pstep 1 E' (pstep 0 E R))"
  proof -
    have "s * R 0 j + q * R 1 j = (if j = k then D else 0) \<and> r * R 0 j + p * R 1 j = (if j = m then D else 0)" if "j < n" for j
      using that z [of 0 j] z [of 1 j] km by (cases "j = k"; cases "j = m") (simp_all add: d d' D_def mult.commute)
    then show ?thesis unfolding unit_rows_def using F [of R] D by (simp add: less_Suc_eq all_conj_distrib)
  qed
  moreover have "\<forall>r<length [k, m]. \<forall>j<n. pstep 1 E' (pstep 0 E V) r j \<noteq> 0"
    using F [of V] D V gf_add_eq_0 by (auto simp: less_Suc_eq d d')
  ultimately show ?thesis by (simp add: solves_def Let_def E_def E'_def)
qed

lemma frac_eqI: "c \<noteq> 0 \<Longrightarrow> c * x = y \<Longrightarrow> x / u = y / (u * (c :: gf))"
  by (metis mult.commute mult_divide_mult_cancel_right)

lemma solves_3:
  fixes x :: "nat \<Rightarrow> gf"
  assumes R: "\<And>t j. t < 3 \<Longrightarrow> j \<in> {k, l, m} \<Longrightarrow> R t j = x j ^ t" "\<And>t j. t < 3 \<Longrightarrow> j < n \<Longrightarrow> j \<notin> {k, l, m} \<Longrightarrow> R t j = 0"
    and klm: "k < l" "l < m" "m < n" and x: "x k \<noteq> x l" "x k \<noteq> x m" "x l \<noteq> x m" "x k \<noteq> 0" "x l \<noteq> 0" "x m \<noteq> 0"
    and V: "\<And>j. j < n \<Longrightarrow> (\<exists>t<3. \<forall>s<3. V s j = (if s = t then 1 else 0)) \<or> (\<exists>d. d \<notin> {x k, x l, x m} \<and> (\<forall>s<3. V s j = d ^ s))"
  shows "solves [k, l, m] n R V"
proof -
  define a u v where "a = x k" and "u = x k + x l" and "v = x k + x m"
  have xs: "x k = a" "x l = a + u" "x m = a + v" by (simp_all add: a_def u_def v_def)
  have nz: "u \<noteq> 0" "v \<noteq> 0" "u + v \<noteq> 0" "a \<noteq> 0" "a + u \<noteq> 0" "a + v \<noteq> 0"
    using x gf_add_eq_0 by (auto simp: a_def u_def v_def)
  define E0 where "E0 = (\<lambda>r. R r k)"
  define E1 where "E1 = (\<lambda>r. pstep 0 E0 R r l)"
  define E2 where "E2 = (\<lambda>r. pstep 1 E1 (pstep 0 E0 R) r m)"
  have Rv: "R 0 j = 1" "R 1 j = x j" "R 2 j = x j ^ 2" if "j \<in> {k, l, m}" for j using R(1) [of _ j] that by auto
  have E0: "E0 0 = 1" "E0 1 = a" "E0 2 = a ^ 2" using Rv [of k] by (simp_all add: E0_def xs)
  note E0 = E0 E0 [unfolded One_nat_def]
  have E1: "E1 0 = 1" "E1 1 = u" "E1 2 = u ^ 2"
    using Rv [of l] by (simp_all add: E1_def pstep_def E0 xs power2_eq_square algebra_simps)
  note E1 = E1 E1 [unfolded One_nat_def]
  have F1: "pstep 1 E1 (pstep 0 E0 F) 0 j = F 0 j + (F 1 j + a * F 0 j) / u" "pstep 1 E1 (pstep 0 E0 F) 1 j = (F 1 j + a * F 0 j) / u"
    "pstep 1 E1 (pstep 0 E0 F) 2 j = F 2 j + u * F 1 j + a * (a + u) * F 0 j" for F j
    using nz(1) by (simp_all add: pstep_def E0 E1 power2_eq_square field_simps)
  note F1 = F1 F1 [unfolded One_nat_def]
  have E2: "E2 0 = (u + v) / u" "E2 1 = v / u" "E2 2 = v * (u + v)"
    using Rv [of m] nz by (simp_all add: E2_def F1 xs power2_eq_square algebra_simps add_divide_distrib)
  note E2 = E2 E2 [unfolded One_nat_def]
  let ?G = "\<lambda>F. pstep 2 E2 (pstep 1 E1 (pstep 0 E0 F))"
  have G: "?G F 0 j = ((a + u) * (a + v) * F 0 j + (u + v) * F 1 j + F 2 j) / (u * v)"
    "?G F 1 j = (a * (a + v) * F 0 j + v * F 1 j + F 2 j) / (u * (u + v))"
    "?G F 2 j = (a * (a + u) * F 0 j + u * F 1 j + F 2 j) / (v * (u + v))" for F j
  proof -
    define t where "t = (a * (a + u) * F 0 j + u * F 1 j + F 2 j) / (v * (u + v))"
    have t: "t * (v * (u + v)) = a * (a + u) * F 0 j + u * F 1 j + F 2 j" using nz by (simp add: t_def)
    show G2: "?G F 2 j = (a * (a + u) * F 0 j + u * F 1 j + F 2 j) / (v * (u + v))" by (simp add: pstep_def [of 2] F1 E2 add_ac)
    have rest: "?G F r j = pstep 1 E1 (pstep 0 E0 F) r j + E2 r * t" if "r \<noteq> 2" for r
      using G2 that unfolding t_def by (simp add: pstep_def [of 2])
    have "?G F 1 j = (F 1 j + a * F 0 j + v * t) / u" using rest [of 1] by (simp add: F1 E2 add_divide_distrib)
    also have "\<dots> = (a * (a + v) * F 0 j + v * F 1 j + F 2 j) / (u * (u + v))"
    proof (rule frac_eqI [OF nz(3)])
      have "(u + v) * (F 1 j + a * F 0 j + v * t) = (u + v) * (F 1 j + a * F 0 j) + t * (v * (u + v))" by (simp add: algebra_simps)
      then show "(u + v) * (F 1 j + a * F 0 j + v * t) = a * (a + v) * F 0 j + v * F 1 j + F 2 j" unfolding t by (simp add: algebra_simps)
    qed
    finally show "?G F 1 j = (a * (a + v) * F 0 j + v * F 1 j + F 2 j) / (u * (u + v))" .
    have "?G F 0 j = (u * F 0 j + F 1 j + a * F 0 j + (u + v) * t) / u" using rest [of 0] nz(1) by (simp add: F1 E2 add_divide_distrib distrib_right)
    also have "\<dots> = ((a + u) * (a + v) * F 0 j + (u + v) * F 1 j + F 2 j) / (u * v)"
    proof (rule frac_eqI [OF nz(2)])
      have "v * (u * F 0 j + F 1 j + a * F 0 j + (u + v) * t) = v * (u * F 0 j + F 1 j + a * F 0 j) + t * (v * (u + v))" by (simp add: algebra_simps)
      then show "v * (u * F 0 j + F 1 j + a * F 0 j + (u + v) * t) = (a + u) * (a + v) * F 0 j + (u + v) * F 1 j + F 2 j" unfolding t by (simp add: algebra_simps)
    qed
    finally show "?G F 0 j = ((a + u) * (a + v) * F 0 j + (u + v) * F 1 j + F 2 j) / (u * v)" .
  qed
  note G = G G [unfolded One_nat_def]
  have prods: "u * u + u * v \<noteq> 0" "u * v + v * v \<noteq> 0"
    using nz by (simp_all flip: distrib_left distrib_right)
  have lt3: "(\<forall>t<3. P t) \<longleftrightarrow> P 0 \<and> P 1 \<and> P (2 :: nat)" for P by (auto simp: numeral_3_eq_3 numeral_2_eq_2 less_Suc_eq)
  have Rz: "R 0 j = 0" "R 1 j = 0" "R 2 j = 0" if "j < n" "j \<notin> {k, l, m}" for j using R(2) [of _ j] that by auto
  have len: "length [k, l, m] = 3" by simp
  have "pivot_ok [k, l, m] 0 R" unfolding pivot_ok_def len lt3 using E0 nz Rz(1) klm by (auto simp: E0_def)
  moreover have "pivot_ok [k, l, m] 1 (pstep 0 E0 R)"
  proof -
    have "pstep 0 E0 R 1 j = 0" if "j < l" for j
      using that Rz [of j] Rv [of k] klm by (cases "j = k") (simp_all add: pstep_def E0 xs)
    then show ?thesis unfolding pivot_ok_def len lt3 using E1 nz(1) by (auto simp: E1_def)
  qed
  moreover have "pivot_ok [k, l, m] 2 (pstep 1 E1 (pstep 0 E0 R))"
  proof -
    have "pstep 1 E1 (pstep 0 E0 R) 2 j = 0" if "j < m" for j
      using that Rz [of j] Rv [of k] Rv [of l] klm by (cases "j = k"; cases "j = l") (simp_all add: F1 xs power2_eq_square algebra_simps)
    then show ?thesis unfolding pivot_ok_def len lt3 using E2 nz by (auto simp: E2_def)
  qed
  moreover have "unit_rows [k, l, m] n (?G R)"
  proof -
    have "?G R 0 j = (if j = k then 1 else 0) \<and> ?G R 1 j = (if j = l then 1 else 0) \<and> ?G R 2 j = (if j = m then 1 else 0)" if "j < n" for j
      using that Rz [of j] Rv [of k] Rv [of l] Rv [of m] klm nz prods
      by (cases "j = k"; cases "j = l"; cases "j = m") (simp_all add: G xs power2_eq_square algebra_simps)
    then show ?thesis unfolding unit_rows_def len lt3 by simp
  qed
  moreover have "\<forall>r<3. \<forall>j<n. ?G V r j \<noteq> 0"
  proof -
    have "?G V 0 j \<noteq> 0 \<and> ?G V 1 j \<noteq> 0 \<and> ?G V 2 j \<noteq> 0" if "j < n" for j
      using V [OF that]
    proof (elim disjE exE conjE)
      fix t :: nat
      assume t: "t < 3" "\<forall>s<3. V s j = (if s = t then 1 else 0)"
      then have "t = 0 \<or> t = 1 \<or> t = 2" by auto
      then show ?thesis unfolding G using t(2) nz by (elim disjE) (simp_all add: lt3)
    next
      fix d
      assume d: "d \<notin> {x k, x l, x m}" "\<forall>s<3. V s j = d ^ s"
      have "(a + u) * (a + v) * V 0 j + (u + v) * V 1 j + V 2 j = (a + u + d) * (a + v + d)"
        "a * (a + v) * V 0 j + v * V 1 j + V 2 j = (a + d) * (a + v + d)" "a * (a + u) * V 0 j + u * V 1 j + V 2 j = (a + d) * (a + u + d)"
        using d(2) by (simp_all add: lt3 power2_eq_square algebra_simps)
      moreover have "a + d \<noteq> 0" "a + u + d \<noteq> 0" "a + v + d \<noteq> 0" using d(1) xs gf_add_eq_0 by auto
      ultimately show ?thesis unfolding G using nz by simp
    qed
    then show ?thesis by (simp add: lt3)
  qed
  moreover have "[0..<3] = [0, 1, 2 :: nat]" by (simp add: upt_rec)
  ultimately show ?thesis unfolding solves_def len by (simp add: Let_def E0_def E1_def E2_def)
qed

end
