(* ===== verification/RaidzMatrix.thy ===== *)
theory RaidzMatrix
  imports RaidzElim
begin

text \<open>
  The matrix routines of the general RAID-Z reconstruction: matrices of bytes as matrices over the field, the rows of the
  dispersal matrix, its inversion for any choice of up to three missing columns and as many parity columns, and the
  combination of the columns that are left.
\<close>

section \<open>Matrices of bytes\<close>

definition mrep :: "nat \<Rightarrow> nat \<Rightarrow> byte list list \<Rightarrow> (nat \<Rightarrow> nat \<Rightarrow> gf) \<Rightarrow> bool" where
  "mrep nm n rows R \<longleftrightarrow> length rows = nm \<and> (\<forall>i<nm. length (rows ! i) = n \<and> (\<forall>j<n. gf_of (rows ! i ! j) = R i j))"

lemma mrepD: "mrep nm n rows R \<Longrightarrow> length rows = nm" "mrep nm n rows R \<Longrightarrow> i < nm \<Longrightarrow> length (rows ! i) = n"
  "mrep nm n rows R \<Longrightarrow> i < nm \<Longrightarrow> j < n \<Longrightarrow> gf_of (rows ! i ! j) = R i j"
  by (simp_all add: mrep_def)

lemma mrep_upd:
  assumes "mrep nm n rows R" "i < nm" "length r = n" "\<And>j. j < n \<Longrightarrow> gf_of (r ! j) = f j"
  shows "mrep nm n (rows[i := r]) (R(i := f))"
  using assms by (auto simp: mrep_def nth_list_update)

lemma mrep_cong: "mrep nm n rows R \<Longrightarrow> (\<And>i j. i < nm \<Longrightarrow> j < n \<Longrightarrow> R i j = R' i j) \<Longrightarrow> mrep nm n rows R'"
  by (simp add: mrep_def)

lemma mrep_row_upd:
  assumes "mrep nm n rows R" "i < nm" "ii < nm" "length r = n" "\<And>j. j < n \<Longrightarrow> gf_of (r ! j) = c * gf_of (rows ! i ! j)"
  shows "mrep nm n (rows[ii := map2 (XOR) (rows ! ii) r]) (R(ii := \<lambda>j. R ii j + c * R i j))"
  using assms by (intro mrep_upd) (simp_all add: mrepD)

lemma scale_row_gf:
  assumes "\<And>b. \<exists>r. vdev_raidz_exp2 b log = Some r \<and> gf_of r = c * gf_of b"
  obtains r where "scale_row log row = Some r" "length r = length row" "\<And>j. j < length row \<Longrightarrow> gf_of (r ! j) = c * gf_of (row ! j)"
proof -
  obtain g where "\<And>b. vdev_raidz_exp2 b log = Some (g b) \<and> gf_of (g b) = c * gf_of b" using assms by metis
  then show ?thesis using that [of "map g row"] by (simp add: scale_row_def those_map_Some)
qed

lemma scale_mul:
  assumes "e \<noteq> 0"
  obtains r where "scale_row (int (vdev_raidz_log2 ! unat e)) row = Some r" "length r = length row"
    "\<And>j. j < length row \<Longrightarrow> gf_of (r ! j) = gf_of e * gf_of (row ! j)"
proof (rule scale_row_gf [of "int (vdev_raidz_log2 ! unat e)" "gf_of e" row])
  show "\<exists>r. vdev_raidz_exp2 b (int (vdev_raidz_log2 ! unat e)) = Some r \<and> gf_of r = gf_of e * gf_of b" for b
    by (rule exp2_log2 [OF assms, of b]) blast
qed (rule that)

lemma scale_div:
  assumes "e \<noteq> 0"
  obtains r where "scale_row (255 - int (vdev_raidz_log2 ! unat e)) row = Some r" "length r = length row"
    "\<And>j. j < length row \<Longrightarrow> gf_of (r ! j) = inverse (gf_of e) * gf_of (row ! j)"
proof (rule scale_row_gf [of "255 - int (vdev_raidz_log2 ! unat e)" "inverse (gf_of e)" row])
  show "\<exists>r. vdev_raidz_exp2 b (255 - int (vdev_raidz_log2 ! unat e)) = Some r \<and> gf_of r = inverse (gf_of e) * gf_of b" for b
    by (rule exp2_div [OF assms, of b]) (auto simp: divide_inverse mult.commute)
qed (rule that)

lemma eliminate_row_ok:
  assumes rep: "mrep nm n rows R" "mrep nm n invs V" and i: "i < nm" "ii < nm" "i \<noteq> ii" "ms ! i < n" "R ii (ms ! i) \<noteq> 0"
  obtains rows' invs' where "eliminate_row ms i ii (rows, invs) = Some (rows', invs')"
    "mrep nm n rows' (R(ii := \<lambda>j. R ii j + R ii (ms ! i) * R i j))" "mrep nm n invs' (V(ii := \<lambda>j. V ii j + R ii (ms ! i) * V i j))"
proof -
  let ?e = "rows ! ii ! (ms ! i)"
  have e: "gf_of ?e = R ii (ms ! i)" "?e \<noteq> 0" using mrepD(3) [OF rep(1) i(2,4)] i(5) by auto
  obtain r where r: "scale_row (int (vdev_raidz_log2 ! unat ?e)) (rows ! i) = Some r" "length r = length (rows ! i)"
    "\<And>j. j < length (rows ! i) \<Longrightarrow> gf_of (r ! j) = gf_of ?e * gf_of (rows ! i ! j)" using scale_mul [OF e(2)] by blast
  obtain v where v: "scale_row (int (vdev_raidz_log2 ! unat ?e)) (invs ! i) = Some v" "length v = length (invs ! i)"
    "\<And>j. j < length (invs ! i) \<Longrightarrow> gf_of (v ! j) = gf_of ?e * gf_of (invs ! i ! j)" using scale_mul [OF e(2)] by blast
  show ?thesis
  proof (rule that)
    show "eliminate_row ms i ii (rows, invs) = Some (rows[ii := map2 (XOR) (rows ! ii) r], invs[ii := map2 (XOR) (invs ! ii) v])"
      using i(3) e(2) r(1) v(1) by (simp add: eliminate_row_def Let_def)
    show "mrep nm n (rows[ii := map2 (XOR) (rows ! ii) r]) (R(ii := \<lambda>j. R ii j + R ii (ms ! i) * R i j))"
      using r rep i by (intro mrep_row_upd) (simp_all add: mrepD e)
    show "mrep nm n (invs[ii := map2 (XOR) (invs ! ii) v]) (V(ii := \<lambda>j. V ii j + R ii (ms ! i) * V i j))"
      using v rep i by (intro mrep_row_upd) (simp_all add: mrepD e)
  qed
qed

text \<open>The rows before \<open>k\<close> are done.\<close>

definition pstep_upto :: "nat \<Rightarrow> nat \<Rightarrow> (nat \<Rightarrow> gf) \<Rightarrow> (nat \<Rightarrow> nat \<Rightarrow> gf) \<Rightarrow> nat \<Rightarrow> nat \<Rightarrow> gf" where
  "pstep_upto k i E F r = (if r = i \<or> r < k then pstep i E F r else F r)"

lemma pstep_upto_Suc: 
  "k \<noteq> i \<Longrightarrow> (pstep_upto k i E F)(k := \<lambda>j. pstep_upto k i E F k j + E k * pstep_upto k i E F i j) = pstep_upto (Suc k) i E F"
  "pstep_upto (Suc i) i E F = pstep_upto i i E F"
  by (auto simp: fun_eq_iff pstep_upto_def pstep_def less_Suc_eq)

lemma eliminate_rows_ok:
  assumes i: "i < nm" "ms ! i < n" and E: "\<And>r. r < nm \<Longrightarrow> R r (ms ! i) \<noteq> 0"
    and rep: "mrep nm n rows (pstep_upto 0 i (\<lambda>r. R r (ms ! i)) R)" "mrep nm n invs (pstep_upto 0 i (\<lambda>r. R r (ms ! i)) V)"
  shows "k \<le> nm \<Longrightarrow> \<exists>rows' invs'. foldM (eliminate_row ms i) [0..<k] (rows, invs) = Some (rows', invs') \<and>
     mrep nm n rows' (pstep_upto k i (\<lambda>r. R r (ms ! i)) R) \<and> mrep nm n invs' (pstep_upto k i (\<lambda>r. R r (ms ! i)) V)"
proof (induction k)
  case 0
  then show ?case using rep by simp
next
  case (Suc k)
  let ?E = "\<lambda>r. R r (ms ! i)"
  obtain rows1 invs1 where 1: "foldM (eliminate_row ms i) [0..<k] (rows, invs) = Some (rows1, invs1)"
    "mrep nm n rows1 (pstep_upto k i ?E R)" "mrep nm n invs1 (pstep_upto k i ?E V)" using Suc by auto
  show ?case
  proof (cases "k = i")
    case True
    then have "eliminate_row ms i k (rows1, invs1) = Some (rows1, invs1)" by (simp add: eliminate_row_def)
    with foldM_upt_Suc [OF _ 1(1) this] 1(2,3) True show ?thesis by (auto simp: pstep_upto_Suc(2))
  next
    case False
    have k: "k < nm" "pstep_upto k i ?E R k (ms ! i) = ?E k" using Suc.prems False by (auto simp: pstep_upto_def)
    obtain rows2 invs2 where 2: "eliminate_row ms i k (rows1, invs1) = Some (rows2, invs2)"
      "mrep nm n rows2 (pstep_upto (Suc k) i ?E R)" "mrep nm n invs2 (pstep_upto (Suc k) i ?E V)"
    proof (rule eliminate_row_ok [OF 1(2,3) i(1) k(1) False [symmetric] i(2)])
      show "pstep_upto k i ?E R k (ms ! i) \<noteq> 0" using E [OF k(1)] k(2) by simp
      fix rows2 invs2
      assume "eliminate_row ms i k (rows1, invs1) = Some (rows2, invs2)"
        "mrep nm n rows2 ((pstep_upto k i ?E R)(k := \<lambda>j. pstep_upto k i ?E R k j + pstep_upto k i ?E R k (ms ! i) * pstep_upto k i ?E R i j))"
        "mrep nm n invs2 ((pstep_upto k i ?E V)(k := \<lambda>j. pstep_upto k i ?E V k j + pstep_upto k i ?E R k (ms ! i) * pstep_upto k i ?E V i j))"
      then show thesis unfolding k(2) using that pstep_upto_Suc(1) [OF False, where E = ?E] by simp
    qed
    from foldM_upt_Suc [OF _ 1(1) 2(1)] 2 show ?thesis by blast
  qed
qed

lemma pivot_row_ok:
  assumes rep: "mrep nm n rows R" "mrep nm n invs V" and i: "i < nm" "ms ! i < n" and ok: "pivot_ok ms i R" "length ms = nm"
  obtains rows' invs' where "pivot_row nm ms i (rows, invs) = Some (rows', invs')"
    "mrep nm n rows' (pstep i (\<lambda>r. R r (ms ! i)) R)" "mrep nm n invs' (pstep i (\<lambda>r. R r (ms ! i)) V)"
proof -
  let ?E = "\<lambda>r. R r (ms ! i)" and ?e = "rows ! i ! (ms ! i)"
  have E: "\<And>r. r < nm \<Longrightarrow> ?E r \<noteq> 0" and z: "\<And>j. j < ms ! i \<Longrightarrow> R i j = 0" using ok by (simp_all add: pivot_ok_def)
  have e: "gf_of ?e = ?E i" "?e \<noteq> 0" using mrepD(3) [OF rep(1) i] E [OF i(1)] by auto
  obtain r where r: "scale_row (255 - int (vdev_raidz_log2 ! unat ?e)) (rows ! i) = Some r" "length r = length (rows ! i)"
    "\<And>j. j < length (rows ! i) \<Longrightarrow> gf_of (r ! j) = inverse (gf_of ?e) * gf_of (rows ! i ! j)" using scale_div [OF e(2)] by blast
  obtain v where v: "scale_row (255 - int (vdev_raidz_log2 ! unat ?e)) (invs ! i) = Some v" "length v = length (invs ! i)"
    "\<And>j. j < length (invs ! i) \<Longrightarrow> gf_of (v ! j) = inverse (gf_of ?e) * gf_of (invs ! i ! j)" using scale_div [OF e(2)] by blast
  have one: "pstep_upto 0 i ?E F = F(i := \<lambda>j. inverse (?E i) * F i j)" for F
    by (auto simp: fun_eq_iff pstep_upto_def pstep_def divide_inverse mult.commute)
  have "mrep nm n (rows[i := r]) (pstep_upto 0 i ?E R)" "mrep nm n (invs[i := v]) (pstep_upto 0 i ?E V)"
    unfolding one using r v rep i e by (auto intro!: mrep_upd simp: mrepD)
  then obtain rows' invs' where *: "foldM (eliminate_row ms i) [0..<nm] (rows[i := r], invs[i := v]) = Some (rows', invs')"
     "mrep nm n rows' (pstep_upto nm i ?E R)" "mrep nm n invs' (pstep_upto nm i ?E V)"
    using eliminate_rows_ok [where k = nm and R = R and V = V and ms = ms, OF i] E by blast
  have "list_all (\<lambda>b. b = 0) (take (ms ! i) (rows ! i))"
  proof -
    have "rows ! i ! j = 0" if "j < ms ! i" for j
      using mrepD(3) [OF rep(1) i(1), of j] z [OF that] that i(2) by simp
    then show ?thesis by (auto simp: list_all_length)
  qed
  then have "pivot_row nm ms i (rows, invs) = Some (rows', invs')" using e(2) r(1) v(1) *(1) by (simp add: pivot_row_def Let_def)
  moreover have "mrep nm n rows' (pstep i ?E R)" "mrep nm n invs' (pstep i ?E V)"
    using *(2,3) by (auto elim!: mrep_cong simp: pstep_upto_def)
  ultimately show ?thesis using that by blast
qed

lemma pivot_rows_ok:
  "mrep nm n rows R \<Longrightarrow> mrep nm n invs V \<Longrightarrow> set is \<subseteq> {..<nm} \<Longrightarrow> set ms \<subseteq> {..<n} \<Longrightarrow> length ms = nm \<Longrightarrow> gauss_ok ms is R \<Longrightarrow>
   \<exists>rows' invs'. foldM (pivot_row nm ms) is (rows, invs) = Some (rows', invs') \<and>
     mrep nm n rows' (fst (gauss ms is R V)) \<and> mrep nm n invs' (snd (gauss ms is R V))"
proof (induction "is" arbitrary: rows invs R V)
  case (Cons i "is")
  have i: "i < nm" "ms ! i < n" using Cons.prems(3-5) nth_mem by auto
  obtain rows1 invs1 where "pivot_row nm ms i (rows, invs) = Some (rows1, invs1)"
    "mrep nm n rows1 (pstep i (\<lambda>r. R r (ms ! i)) R)" "mrep nm n invs1 (pstep i (\<lambda>r. R r (ms ! i)) V)"
    using pivot_row_ok [OF Cons.prems(1,2) i] Cons.prems(5,6) by auto
  with Cons.IH [OF this(2,3)] Cons.prems show ?case by (simp add: Let_def)
qed simp

section \<open>The dispersal matrix\<close>

lemma matrix_row_ok:
  "m \<le> 2 \<Longrightarrow> 0 \<le> pow \<Longrightarrow> pow \<le> 255 \<Longrightarrow> gen ^ nat pow = gen ^ (m * k) \<Longrightarrow>
   \<exists>row. matrix_row m k pow = Some row \<and> length row = k \<and> (\<forall>j<k. gf_of (row ! j) = (gen ^ (k - 1 - j)) ^ m)"
proof (induction k arbitrary: pow)
  case (Suc k)
  define p where "p = (if pow - int m < 0 then pow - int m + 255 else pow - int m)"
  have p: "0 \<le> p" "p \<le> 255" using Suc.prems(1-3) by (auto simp: p_def)
  have "gen ^ (nat p + m) = gen ^ nat pow"
  proof (cases "pow - int m < 0")
    case True
    then have "nat p + m = nat pow + 255" using Suc.prems(1,2) by (simp add: p_def)
    then show ?thesis by (simp only: power_add gen_255) simp
  next
    case False
    then have "nat p + m = nat pow" using Suc.prems(2) by (simp add: p_def)
    then show ?thesis by simp
  qed
  then have "gen ^ nat p * gen ^ m = gen ^ (m * k) * gen ^ m" using Suc.prems(4) by (simp add: power_add mult.commute)
  then have g: "gen ^ nat p = gen ^ (m * k)" by simp
  obtain row where row: "matrix_row m k p = Some row" "length row = k" "\<forall>j<k. gf_of (row ! j) = (gen ^ (k - 1 - j)) ^ m"
    using Suc.IH [OF Suc.prems(1) p g] by auto
  have "matrix_row m (Suc k) pow = Some (vdev_raidz_pow2 ! nat p # row)"
    unfolding matrix_row.simps Let_def p_def [symmetric] using row(1) p by simp
  moreover have "gf_of ((vdev_raidz_pow2 ! nat p # row) ! j) = (gen ^ (Suc k - 1 - j)) ^ m" if "j < Suc k" for j
    using that row(3) gf_of_pow2 [of "nat p"] p g by (cases j) (simp_all add: power_mult mult.commute)
  ultimately show ?case using row(2) by auto
qed simp

lemma those_map_Ex:
  "(\<And>x. x \<in> set xs \<Longrightarrow> \<exists>y. f x = Some y \<and> P x y) \<Longrightarrow> \<exists>ys. those (map f xs) = Some ys \<and> length ys = length xs \<and> (\<forall>i<length xs. P (xs ! i) (ys ! i))"
proof (induction xs)
  case (Cons x xs)
  obtain y where y: "f x = Some y" "P x y" using Cons.prems [of x] by auto
  obtain ys where "those (map f xs) = Some ys" "length ys = length xs" "\<forall>i<length xs. P (xs ! i) (ys ! i)" using Cons.IH Cons.prems by auto
  then show ?case using y by (intro exI [of _ "y # ys"]) (auto simp: nth_Cons split: nat.split)
qed simp

lemma matrix_init_ok:
  assumes n: "n = rm_cols rm - rm_firstdatacol rm" "n \<le> 255" and pm: "\<And>m. m \<in> set pm \<Longrightarrow> m \<le> 2"
  obtains rows where "vdev_raidz_matrix_init rm n pm = Some rows" "mrep (length pm) n rows (\<lambda>i j. (gen ^ (n - 1 - j)) ^ (pm ! i))"
proof -
  define g where "g = (\<lambda>m. require (m \<le> 2) (let pow = int (m * n); pow = (if pow > 255 then pow - 255 else pow) in require (pow \<le> 255) (matrix_row m n pow)))"
  have "\<exists>row. g m = Some row \<and> length row = n \<and> (\<forall>j<n. gf_of (row ! j) = (gen ^ (n - 1 - j)) ^ m)" if "m \<in> set pm" for m
  proof -
    have m: "m \<le> 2" using pm [OF that] .
    then have mn: "m * n \<le> 510" using mult_le_mono [OF m n(2)] by simp
    define pow where "pow = (if int (m * n) > 255 then int (m * n) - 255 else int (m * n))"
    have p: "0 \<le> pow" "pow \<le> 255" using mn by (auto simp: pow_def simp del: of_nat_mult)
    have "gen ^ nat pow = gen ^ (m * n)"
    proof (cases "m * n > 255")
      case True
      then have "m * n = nat pow + 255" by (simp add: pow_def nat_diff_distrib' del: of_nat_mult)
      then show ?thesis by (simp only: power_add gen_255) simp
    qed (simp add: pow_def del: of_nat_mult)
    from matrix_row_ok [OF m p this] show ?thesis unfolding g_def Let_def pow_def [symmetric] using m p by simp
  qed
  from those_map_Ex [of pm g, OF this] obtain rows where "those (map g pm) = Some rows" "length rows = length pm"
    "\<forall>i<length pm. length (rows ! i) = n \<and> (\<forall>j<n. gf_of (rows ! i ! j) = (gen ^ (n - 1 - j)) ^ (pm ! i))" by auto
  then show ?thesis using that [of rows] n(1) unfolding vdev_raidz_matrix_init_def g_def [symmetric] mrep_def by simp
qed

lemma subtract_trivial_ok:
  assumes u: "\<And>j. nm \<le> j \<Longrightarrow> j < n \<Longrightarrow> rm_firstdatacol rm \<le> used ! j \<and> used ! j - rm_firstdatacol rm < n"
    and dist: "\<And>j j'. nm \<le> j \<Longrightarrow> j < n \<Longrightarrow> nm \<le> j' \<Longrightarrow> j' < n \<Longrightarrow> used ! j = used ! j' \<Longrightarrow> j = j'" and len: "length row = n" "length v = n"
  shows "nm \<le> k \<Longrightarrow> k \<le> n \<Longrightarrow> \<exists>row' v'. foldM (\<lambda>j (row, invr).
     let jj = used ! j - rm_firstdatacol rm
     in require (used ! j \<ge> rm_firstdatacol rm \<and> jj < n) (Some (row[jj := 0], invr[j := row ! jj]))) [nm..<k] (row, v) = Some (row', v') \<and>
     length row' = n \<and> length v' = n \<and> (\<forall>j<n. row' ! j = (if j + rm_firstdatacol rm \<in> (!) used ` {nm..<k} then 0 else row ! j)) \<and>
     (\<forall>j<n. v' ! j = (if nm \<le> j \<and> j < k then row ! (used ! j - rm_firstdatacol rm) else v ! j))"
proof (induction k rule: dec_induct)
  case base
  then show ?case using len by auto
next
  case (step k)
  let ?f = "rm_firstdatacol rm"
  let ?g = "\<lambda>j (row, invr). let jj = used ! j - ?f in require (used ! j \<ge> ?f \<and> jj < n) (Some (row[jj := 0], invr[j := row ! jj]))"
  obtain r1 v1 where 1: "foldM ?g [nm..<k] (row, v) = Some (r1, v1)" "length r1 = n" "length v1 = n"
     "\<forall>j<n. r1 ! j = (if j + ?f \<in> (!) used ` {nm..<k} then 0 else row ! j)" "\<forall>j<n. v1 ! j = (if nm \<le> j \<and> j < k then row ! (used ! j - ?f) else v ! j)"
    using step by auto
  have k: "k < n" using step by simp
  define jj where "jj = used ! k - ?f"
  have jj: "jj < n" "used ! k = jj + ?f" "?f \<le> used ! k" using u [OF step(1) k] by (auto simp: jj_def)
  have notin: "used ! k \<notin> (!) used ` {nm..<k}" using dist [OF step(1) k] k by fastforce
  have "?g k (r1, v1) = Some (r1[jj := 0], v1[k := r1 ! jj])" using jj by (simp add: jj_def [symmetric])
  from foldM_upt_Suc [OF step(1) 1(1) this]
  have *: "foldM ?g [nm..<Suc k] (row, v) = Some (r1[jj := 0], v1[k := r1 ! jj])" .
  have img: "(!) used ` {nm..<Suc k} = insert (jj + ?f) ((!) used ` {nm..<k})" using step(1) jj(2) by (simp add: atLeastLessThanSuc)
  have r: "\<forall>j<n. r1[jj := 0] ! j = (if j + ?f \<in> (!) used ` {nm..<Suc k} then 0 else row ! j)"
    unfolding img using 1(2,4) jj(1) by (simp add: nth_list_update)
  have "r1 ! jj = row ! jj" using 1(4) jj notin by simp
  then have v: "\<forall>j<n. v1[k := r1 ! jj] ! j = (if nm \<le> j \<and> j < Suc k then row ! (used ! j - ?f) else v ! j)"
    using 1(3,5) step(1) k by (auto simp: nth_list_update jj_def)
  show ?case using * r v 1(2,3) by (intro exI conjI) simp_all
qed

text \<open>The missing data columns \<open>ms\<close>, counted from the first data column, as many parity columns \<open>pm\<close> to use, and the other data columns \<open>rest\<close>.\<close>

definition layout :: "nat \<Rightarrow> nat \<Rightarrow> nat list \<Rightarrow> nat list \<Rightarrow> nat list \<Rightarrow> bool" where
  "layout f n ms pm rest \<longleftrightarrow> sorted_wrt (<) ms \<and> sorted_wrt (<) pm \<and> distinct rest \<and> length pm = length ms \<and> 0 < length ms \<and>
     set ms \<subseteq> {..<n} \<and> set pm \<subseteq> {..<f} \<and> f \<le> 3 \<and> n < 255 \<and> set rest = (\<lambda>j. j + f) ` ({..<n} - set ms)"

definition missing_rows :: "(nat \<Rightarrow> gf) \<Rightarrow> nat list \<Rightarrow> nat list \<Rightarrow> nat \<Rightarrow> nat \<Rightarrow> gf" where
  "missing_rows x ms pm i j = (if j \<in> set ms then x j ^ (pm ! i) else 0)"

definition used_rows :: "(nat \<Rightarrow> gf) \<Rightarrow> nat \<Rightarrow> nat list \<Rightarrow> nat list \<Rightarrow> nat \<Rightarrow> nat \<Rightarrow> gf" where
  "used_rows x f pm rest i j = (if j < length pm then if i = j then 1 else 0 else x (rest ! (j - length pm) - f) ^ (pm ! i))"

abbreviation gpow :: "nat \<Rightarrow> nat \<Rightarrow> gf" where
  "gpow n j \<equiv> gen ^ (n - 1 - j)"

lemma gf_square_inj: "a ^ 2 = b ^ 2 \<Longrightarrow> a = (b :: gf)"
proof -
  assume "a ^ 2 = b ^ 2"
  then have "(a + b) * (a + b) = 0" by (simp add: power2_eq_square algebra_simps)
  then show ?thesis using gf_add_eq_0 by auto
qed

lemma powers_independent:
  assumes "p < q" "q \<le> 2" "a \<noteq> b" "a \<noteq> 0" "b \<noteq> (0 :: gf)"
  shows "a ^ p * b ^ q \<noteq> b ^ p * a ^ q"
proof -
  have "(p = 0 \<and> q = 1) \<or> (p = 0 \<and> q = 2) \<or> (p = 1 \<and> q = 2)" using assms(1,2) by auto
  then show ?thesis using assms(3-5) gf_square_inj [of a b] by (elim disjE) (auto simp: power2_eq_square)
qed

lemma layoutD:
  assumes "layout f n ms pm rest"
  shows "length rest + length ms = n" "length pm = length ms" "0 < length ms" "length ms \<le> 3" "j < length pm \<Longrightarrow> pm ! j < f" "j < length pm \<Longrightarrow> pm ! j \<le> 2"
    "j < length rest \<Longrightarrow> f \<le> rest ! j \<and> rest ! j - f < n \<and> rest ! j - f \<notin> set ms" "j < length ms \<Longrightarrow> ms ! j < n" "n < 255" "distinct rest"
proof -
  note l = assms [unfolded layout_def]
  show "length pm = length ms" "0 < length ms" "n < 255" "distinct rest" using l by auto
  have "card (set rest) = n - length ms" using l by (simp add: card_image inj_on_def card_Diff_subset distinct_card strict_sorted_iff)
  moreover have "length ms \<le> n" using l card_mono [of "{..<n}" "set ms"] by (simp add: distinct_card strict_sorted_iff)
  moreover have "length rest = card (set rest)" using l distinct_card [of rest] by simp
  ultimately show "length rest + length ms = n" by simp
  have "length pm \<le> f" using l card_mono [of "{..<f}" "set pm"] by (simp add: distinct_card strict_sorted_iff)
  then show "length ms \<le> 3" using l by simp
  have "set pm \<subseteq> {..<f}" using l by simp
  then show p: "j < length pm \<Longrightarrow> pm ! j < f" by (meson lessThan_iff nth_mem subsetD)
  show "j < length pm \<Longrightarrow> pm ! j \<le> 2" using l p by force
  show "j < length rest \<Longrightarrow> f \<le> rest ! j \<and> rest ! j - f < n \<and> rest ! j - f \<notin> set ms" using l nth_mem [of j rest] by auto
  have "set ms \<subseteq> {..<n}" using l by simp
  then show "j < length ms \<Longrightarrow> ms ! j < n" by (meson lessThan_iff nth_mem subsetD)
qed

lemma gpow_inj: "i < n \<Longrightarrow> j < n \<Longrightarrow> n < 255 \<Longrightarrow> gpow n i = gpow n j \<longleftrightarrow> i = j"
  using gen_inj [of "n - 1 - i" "n - 1 - j"] by fastforce

lemma solves_layout:
  assumes "layout f n ms pm rest"
  shows "solves ms n (missing_rows (gpow n) ms pm) (used_rows (gpow n) f pm rest)"
proof -
  note l = layoutD [OF assms] and L = assms [unfolded layout_def]
  have rest: "rest ! (j - length pm) - f < n \<and> rest ! (j - length pm) - f \<notin> set ms" if "j < n" "\<not> j < length pm" for j
    using that l(1,2) l(7) [of "j - length pm"] by simp
  consider (1) "length ms = 1" | (2) "length ms = 2" | (3) "length ms = 3" using l(3,4) by linarith
  then show ?thesis
  proof cases
    case 1
    then obtain m p where mp: "ms = [m]" "pm = [p]" using l(2) by (auto simp: length_Suc_conv)
    show ?thesis unfolding mp(1) using l(8) [of 0] by (intro solves_1) (auto simp: missing_rows_def used_rows_def mp)
  next
    case 2
    then obtain k m p q where mp: "ms = [k, m]" "pm = [p, q]" using l(2) by (auto simp: length_Suc_conv numeral_2_eq_2)
    have o: "k < m" "m < n" "k < n" "p < q" "q \<le> 2" using L l(6) [of 1] by (auto simp: mp)
    have ind: "gpow n a ^ p * gpow n b ^ q \<noteq> gpow n b ^ p * gpow n a ^ q" if "a < n" "b < n" "a \<noteq> b" for a b
      using powers_independent [OF o(4,5), of "gpow n a" "gpow n b"] gpow_inj [OF that(1,2) l(9)] that(3) by simp
    have V: "gpow n a ^ q * used_rows (gpow n) f pm rest 0 j \<noteq> gpow n a ^ p * used_rows (gpow n) f pm rest 1 j" if "j < n" "a \<in> set ms" for a j
    proof (cases "j < 2")
      case True
      then show ?thesis by (auto simp: used_rows_def mp less_2_cases_iff)
    next
      case False
      let ?d = "rest ! (j - length pm) - f"
      have "?d < n" "?d \<noteq> a" "a < n" using rest [OF that(1)] False that(2) mp o by auto
      from ind [OF this(1,3,2)] show ?thesis using False by (simp add: used_rows_def mp mult.commute)
    qed
    show ?thesis unfolding mp(1)
    proof (rule solves_2)
      show "missing_rows (gpow n) [k, m] pm 0 k * missing_rows (gpow n) [k, m] pm 1 m \<noteq> missing_rows (gpow n) [k, m] pm 0 m * missing_rows (gpow n) [k, m] pm 1 k"
        using ind [OF o(3,2)] o(1) by (simp add: missing_rows_def mp)
      show "missing_rows (gpow n) [k, m] pm 1 m * used_rows (gpow n) f pm rest 0 j \<noteq> missing_rows (gpow n) [k, m] pm 0 m * used_rows (gpow n) f pm rest 1 j"
        "missing_rows (gpow n) [k, m] pm 1 k * used_rows (gpow n) f pm rest 0 j \<noteq> missing_rows (gpow n) [k, m] pm 0 k * used_rows (gpow n) f pm rest 1 j"
        if "j < n" for j using V [OF that, of m] V [OF that, of k] by (simp_all add: missing_rows_def mp)
    qed (use o in \<open>auto simp: missing_rows_def mp\<close>)
  next
    case 3
    then obtain k h m p q r where mp: "ms = [k, h, m]" "pm = [p, q, r]" using l(2) by (auto simp: length_Suc_conv numeral_3_eq_3)
    have o: "k < h" "h < m" "m < n" "p < q" "q < r" "r \<le> 2" using L l(6) [of 2] by (auto simp: mp)
    then have pm: "pm = [0, 1, 2]" by (auto simp: mp)
    have x: "gpow n a = gpow n b \<longleftrightarrow> a = b" if "a < n" "b < n" for a b using gpow_inj [OF that l(9)] .
    show ?thesis unfolding mp(1)
    proof (rule solves_3 [where x = "gpow n"])
      fix j
      assume j: "j < n"
      show "(\<exists>t<3. \<forall>s<3. used_rows (gpow n) f pm rest s j = (if s = t then 1 else 0)) \<or>
        (\<exists>d. d \<notin> {gpow n k, gpow n h, gpow n m} \<and> (\<forall>s<3. used_rows (gpow n) f pm rest s j = d ^ s))"
      proof (cases "j < 3")
        case True
        then show ?thesis by (intro disjI1 exI [of _ j]) (auto simp: used_rows_def mp)
      next
        case False
        let ?d = "rest ! (j - length pm) - f"
        have d: "?d < n" "?d \<noteq> k" "?d \<noteq> h" "?d \<noteq> m" using rest [OF j] False mp by auto
        have "gpow n ?d \<notin> {gpow n k, gpow n h, gpow n m}" using x d o by simp
        moreover have "\<forall>s<3. used_rows (gpow n) f pm rest s j = gpow n ?d ^ s" using False by (auto simp: used_rows_def pm numeral_3_eq_3 less_Suc_eq power2_eq_square)
        ultimately show ?thesis by blast
      qed
    qed (use o x in \<open>auto simp: missing_rows_def pm numeral_3_eq_3 less_Suc_eq power2_eq_square\<close>)
  qed
qed

lemma subtract_trivial_layout:
  assumes lay: "layout (rm_firstdatacol rm) n ms pm rest" and row: "length row = n" "i < length ms" and x: "\<And>j. j < n \<Longrightarrow> gf_of (row ! j) = x j ^ (pm ! i)"
  obtains row' v' where "subtract_trivial rm n (length ms) (pm @ rest) (row, map (\<lambda>j. if i = j then 1 else 0) [0..<n]) = Some (row', v')"
    "length row' = n" "length v' = n" "\<And>j. j < n \<Longrightarrow> gf_of (row' ! j) = missing_rows x ms pm i j"
    "\<And>j. j < n \<Longrightarrow> gf_of (v' ! j) = used_rows x (rm_firstdatacol rm) pm rest i j"
proof -
  let ?f = "rm_firstdatacol rm" and ?u = "pm @ rest" and ?nm = "length ms"
  note l = layoutD [OF lay]
  have u: "?u ! j = rest ! (j - ?nm)" if "?nm \<le> j" for j using that l(2) by (simp add: nth_append)
  have img: "(!) ?u ` {?nm..<n} = set rest"
  proof -
    have "(!) ?u ` {?nm..<n} = (!) rest ` ((\<lambda>j. j - ?nm) ` {?nm..<n})" unfolding image_image using u by (intro image_cong) auto
    also have "(\<lambda>j. j - ?nm) ` {?nm..<n} = {..<length rest}" using l(1) by (auto simp: image_iff intro!: bexI [of _ "_ + ?nm"])
    finally show ?thesis by (auto simp: set_conv_nth)
  qed
  have a: "?f \<le> ?u ! j \<and> ?u ! j - ?f < n" if "?nm \<le> j" "j < n" for j using that l(1) l(7) [of "j - ?nm"] u by simp
  have b: "j = j'" if "?nm \<le> j" "j < n" "?nm \<le> j'" "j' < n" "?u ! j = ?u ! j'" for j j'
    using that l(1,10) u nth_eq_iff_index_eq [of rest "j - ?nm" "j' - ?nm"] by simp
  let ?v = "map (\<lambda>j. if i = j then 1 else 0) [0..<n] :: byte list"
  have "\<exists>row' v'. subtract_trivial rm n ?nm ?u (row, ?v) = Some (row', v') \<and>
     length row' = n \<and> length v' = n \<and> (\<forall>j<n. row' ! j = (if j + ?f \<in> set rest then 0 else row ! j)) \<and>
     (\<forall>j<n. v' ! j = (if ?nm \<le> j \<and> j < n then row ! (?u ! j - ?f) else ?v ! j))"
    unfolding subtract_trivial_def img [symmetric] 
  proof (rule subtract_trivial_ok)
    show "j = j'" if "?nm \<le> j" "j < n" "?nm \<le> j'" "j' < n" "?u ! j = ?u ! j'" for j j' using b [OF that] .
  qed (use a l(1) row(1) in auto)
  then obtain row' v' where *: "subtract_trivial rm n ?nm ?u (row, ?v) = Some (row', v')"
     "length row' = n" "length v' = n" "\<forall>j<n. row' ! j = (if j + ?f \<in> set rest then 0 else row ! j)"
     "\<forall>j<n. v' ! j = (if ?nm \<le> j \<and> j < n then row ! (?u ! j - ?f) else ?v ! j)" by blast
  have "j + ?f \<in> set rest \<longleftrightarrow> j \<notin> set ms" if "j < n" for j using lay that unfolding layout_def by auto
  then have "gf_of (row' ! j) = missing_rows x ms pm i j" if "j < n" for j using that *(4) x by (simp add: missing_rows_def)
  moreover have "gf_of (v' ! j) = used_rows x ?f pm rest i j" if "j < n" for j
  proof (cases "?nm \<le> j")
    case True
    then show ?thesis using that *(5) x a [OF True that] l(2) u [OF True] by (simp add: used_rows_def)
  next
    case False
    then show ?thesis using that *(5) l(2) by (simp add: used_rows_def)
  qed
  ultimately show ?thesis using that *(1-3) by blast
qed

lemma matrix_invert_ok:
  assumes lay: "layout (rm_firstdatacol rm) n ms pm rest" and rows: "mrep (length ms) n rows (\<lambda>i j. gpow n j ^ (pm ! i))"
  obtains invs V where "vdev_raidz_matrix_invert rm n ms rows (pm @ rest) = Some invs" "mrep (length ms) n invs V"
    "\<And>r j. r < length ms \<Longrightarrow> j < n \<Longrightarrow> V r j \<noteq> 0"
    "\<And>d u r. rows_eq (length ms) n (missing_rows (gpow n) ms pm) (used_rows (gpow n) (rm_firstdatacol rm) pm rest) d u \<Longrightarrow> r < length ms \<Longrightarrow>
       d (ms ! r) = (\<Sum>j<n. V r j * u j)"
proof -
  let ?f = "rm_firstdatacol rm" and ?nm = "length ms"
  let ?R = "missing_rows (gpow n) ms pm" and ?U = "used_rows (gpow n) ?f pm rest"
  note l = layoutD [OF lay]
  define g where "g = (\<lambda>i. subtract_trivial rm n ?nm (pm @ rest) (rows ! i, map (\<lambda>j. if i = j then 1 else 0) [0..<n]))"
  have "\<exists>y. g i = Some y \<and> length (fst y) = n \<and> length (snd y) = n \<and> (\<forall>j<n. gf_of (fst y ! j) = ?R i j) \<and> (\<forall>j<n. gf_of (snd y ! j) = ?U i j)"
    if "i \<in> set [0..<?nm]" for i
  proof (rule subtract_trivial_layout [OF lay, of "rows ! i" i "gpow n"])
    fix row' v'
    assume "subtract_trivial rm n ?nm (pm @ rest) (rows ! i, map (\<lambda>j. if i = j then 1 else 0) [0..<n]) = Some (row', v')"
      "length row' = n" "length v' = n" "\<And>j. j < n \<Longrightarrow> gf_of (row' ! j) = ?R i j" "\<And>j. j < n \<Longrightarrow> gf_of (v' ! j) = ?U i j"
    then show ?thesis unfolding g_def by (intro exI [of _ "(row', v')"]) simp
  qed (use that mrepD [OF rows] in auto)
  from those_map_Ex [of "[0..<?nm]" g, OF this] obtain rs where rs: "those (map g [0..<?nm]) = Some rs" "length rs = ?nm"
    "\<forall>i<?nm. length (fst (rs ! i)) = n \<and> length (snd (rs ! i)) = n \<and> (\<forall>j<n. gf_of (fst (rs ! i) ! j) = ?R i j) \<and> (\<forall>j<n. gf_of (snd (rs ! i) ! j) = ?U i j)"
    by auto
  have rep: "mrep ?nm n (map fst rs) ?R" "mrep ?nm n (map snd rs) ?U" using rs(2,3) by (simp_all add: mrep_def)
  obtain R' V where G: "gauss ms [0..<?nm] ?R ?U = (R', V)" by fastforce
  have sol: "gauss_ok ms [0..<?nm] ?R" "unit_rows ms n R'" "\<And>r j. r < ?nm \<Longrightarrow> j < n \<Longrightarrow> V r j \<noteq> 0"
    using solves_layout [OF lay, unfolded solves_def G prod.case] by blast+
  have ms: "set ms \<subseteq> {..<n}" using lay by (simp add: layout_def)
  obtain rows' invs where e: "foldM (pivot_row ?nm ms) [0..<?nm] (map fst rs, map snd rs) = Some (rows', invs)" "mrep ?nm n rows' R'" "mrep ?nm n invs V"
    using pivot_rows_ok [OF rep _ ms refl sol(1)] G by (auto simp: lessThan_atLeast0)
  show ?thesis
  proof (rule that [OF _ e(3) sol(3)])
    have "rows' ! i ! j = (if j = ms ! i then 1 else 0)" if "i < ?nm" "j < n" for i j
      using mrepD(3) [OF e(2) that] sol(2) that gf_of_simps(4) [of "rows' ! i ! j" "if j = ms ! i then 1 else 0"] by (simp add: unit_rows_def split: if_splits)
    then have "list_all (\<lambda>i. list_all (\<lambda>j. rows' ! i ! j = (if j = ms ! i then 1 else 0)) [0..<n]) [0..<?nm]" by (auto simp: list_all_iff)
    moreover have "list_all (\<lambda>c. c < ?f) (take ?nm (pm @ rest))" "list_all (\<lambda>c. ?f \<le> c) (drop ?nm (pm @ rest))"
      using lay l(2) by (auto simp: layout_def list_all_iff)
    ultimately show "vdev_raidz_matrix_invert rm n ms rows (pm @ rest) = Some invs"
      unfolding vdev_raidz_matrix_invert_def Let_def g_def [symmetric] using rs(1) e(1) by simp
    show "d (ms ! r) = (\<Sum>j<n. V r j * u j)" if eq: "rows_eq ?nm n ?R ?U d u" and r: "r < ?nm" for d u r
    proof -
      have "rows_eq ?nm n R' V d u" using rows_eq_gauss [OF eq _ G] by (simp add: lessThan_atLeast0)
      then have "(\<Sum>j<n. V r j * u j) = (\<Sum>j<n. R' r j * d j)" using r by (simp add: rows_eq_def)
      also have "\<dots> = (\<Sum>j<n. if j = ms ! r then d j else 0)" using sol(2) r by (intro sum.cong) (auto simp: unit_rows_def)
      also have "\<dots> = d (ms ! r)" using l(8) [OF r] by simp
      finally show ?thesis ..
    qed
  qed
qed

section \<open>Using the inverse\<close>

lemma rec_bytes_ok:
  "v \<noteq> 0 \<Longrightarrow> \<exists>d. rec_bytes first (vdev_raidz_log2 ! unat v) src dst = Some d \<and> length d = length dst \<and>
     (\<forall>i<length dst. gf_of (d ! i) = (if i < length src then (if first then 0 else gf_of (dst ! i)) + gf_of v * gf_of (src ! i) else gf_of (dst ! i)))"
proof (induction first "vdev_raidz_log2 ! unat v" src dst rule: rec_bytes.induct)
  case (3 first s src e dst)
  define ll where "ll = (if vdev_raidz_log2 ! unat s + vdev_raidz_log2 ! unat v \<ge> 255 then vdev_raidz_log2 ! unat s + vdev_raidz_log2 ! unat v - 255
    else vdev_raidz_log2 ! unat s + vdev_raidz_log2 ! unat v)"
  define val where "val = (if s = 0 then 0 else vdev_raidz_pow2 ! ll)"
  have val: "(s = 0 \<or> ll < 256) \<and> gf_of val = gf_of v * gf_of s"
  proof (cases "s = 0")
    case False
    have "vdev_raidz_log2 ! unat s < 255" "vdev_raidz_log2 ! unat v < 255" using log2_less False 3(2) by auto
    then have ll: "ll < 255" by (auto simp: ll_def)
    have "gen ^ ll = gen ^ (vdev_raidz_log2 ! unat s + vdev_raidz_log2 ! unat v)"
    proof (cases "vdev_raidz_log2 ! unat s + vdev_raidz_log2 ! unat v \<ge> 255")
      case True
      then have "vdev_raidz_log2 ! unat s + vdev_raidz_log2 ! unat v = ll + 255" by (simp add: ll_def)
      then show ?thesis by (simp only: power_add gen_255) simp
    qed (simp add: ll_def)
    then show ?thesis using ll False gf_of_pow2 [of ll] gf_of_log2 [OF False] gf_of_log2 [OF 3(2)] by (simp add: val_def power_add mult.commute)
  qed (simp add: val_def)
  obtain d where d: "rec_bytes first (vdev_raidz_log2 ! unat v) src dst = Some d" "length d = length dst"
    "\<forall>i<length dst. gf_of (d ! i) = (if i < length src then (if first then 0 else gf_of (dst ! i)) + gf_of v * gf_of (src ! i) else gf_of (dst ! i))"
    using 3 val unfolding ll_def by blast
  have "rec_bytes first (vdev_raidz_log2 ! unat v) (s # src) (e # dst) = Some ((if first then val else e XOR val) # d)"
    unfolding rec_bytes.simps Let_def ll_def [symmetric] val_def [symmetric] using d(1) val by simp
  then show ?case using d(2,3) val by (auto simp: nth_Cons split: nat.split)
qed auto

text \<open>What one used column adds to a missing column.\<close>

definition rec_adds :: "raidz_map \<Rightarrow> (nat \<Rightarrow> byte list) \<Rightarrow> nat \<Rightarrow> nat \<Rightarrow> gf \<Rightarrow> nat \<Rightarrow> byte list \<Rightarrow> bool" where
  "rec_adds rm D i c v cc d \<longleftrightarrow> length d = col_size rm cc \<and>
     (\<forall>x<col_size rm cc. gf_of (d ! x) = (if i = 0 \<and> x < col_size rm c then 0 else gf_of (D cc ! x)) + v * cbyte rm D c x)"

lemma rec_used_col_ok:
  assumes ms: "distinct ms" "\<And>j. j < length ms \<Longrightarrow> ms ! j + rm_firstdatacol rm < rm_cols rm \<and> ms ! j + rm_firstdatacol rm \<noteq> used ! i"
    and c: "used ! i < rm_cols rm" "rm_cols rm \<le> length (rm_col rm)" and D: "full rm D"
    and v: "\<And>j. j < length ms \<Longrightarrow> v j \<noteq> 0 \<and> invlog ! j ! i = vdev_raidz_log2 ! unat (v j)"
  obtains D' where "rec_used_col ms used invlog i (with_data D rm) = Some (with_data D' rm)"
    "\<And>c. c \<notin> (\<lambda>j. ms ! j + rm_firstdatacol rm) ` {..<length ms} \<Longrightarrow> D' c = D c"
    "\<And>j. j < length ms \<Longrightarrow> rec_adds rm D i (used ! i) (gf_of (v j)) (ms ! j + rm_firstdatacol rm) (D' (ms ! j + rm_firstdatacol rm))"
proof -
  let ?f = "rm_firstdatacol rm" and ?c = "used ! i"
  define g where "g = (\<lambda>j rm. let cc = ms ! j + rm_firstdatacol rm in require (cc < rm_cols rm \<and> cc \<noteq> ?c)
     (map_option (\<lambda>d. set_data cc (d @ drop (col_size rm cc) (col_data rm cc)) rm)
       (rec_bytes (i = 0) (invlog ! j ! i) (take (col_size rm ?c) (col_data rm ?c)) (take (col_size rm cc) (col_data rm cc)))))"
  have "\<exists>D'. foldM g [0..<k] (with_data D rm) = Some (with_data D' rm) \<and> (\<forall>c. c \<notin> (\<lambda>j. ms ! j + ?f) ` {..<k} \<longrightarrow> D' c = D c) \<and>
    (\<forall>j<k. rec_adds rm D i ?c (gf_of (v j)) (ms ! j + ?f) (D' (ms ! j + ?f)))" if "k \<le> length ms" for k using that
  proof (induction k)
    case (Suc k)
    define cc where "cc = ms ! k + ?f"
    obtain D1 where 1: "foldM g [0..<k] (with_data D rm) = Some (with_data D1 rm)" "\<forall>c. c \<notin> (\<lambda>j. ms ! j + ?f) ` {..<k} \<longrightarrow> D1 c = D c"
      "\<forall>j<k. rec_adds rm D i ?c (gf_of (v j)) (ms ! j + ?f) (D1 (ms ! j + ?f))" using Suc by auto
    have k: "k < length ms" "cc < rm_cols rm" "cc \<noteq> ?c" using Suc.prems ms(2) [of k] by (simp_all add: cc_def)
    have new: "cc \<noteq> ms ! j + ?f" if "j < k" for j using that ms(1) k(1) by (simp add: cc_def nth_eq_iff_index_eq)
    have "D1 cc = D cc" using 1(2) new by auto
    moreover have "D1 ?c = D ?c" using 1(2) ms(2) k(1) by (metis (no_types, lifting) imageE lessThan_iff less_trans)
    ultimately have eq: "D1 cc = D cc" "D1 ?c = D ?c" .
    have l: "cc < length (rm_col rm)" "?c < length (rm_col rm)" "length (D cc) = col_size rm cc" "length (D ?c) = col_size rm ?c"
      using k(2) c D by (auto simp: full_def)
    obtain d where d: "rec_bytes (i = 0) (vdev_raidz_log2 ! unat (v k)) (D ?c) (D cc) = Some d" "length d = length (D cc)"
      "\<forall>x<length (D cc). gf_of (d ! x) = (if x < length (D ?c) then (if i = 0 then 0 else gf_of (D cc ! x)) + gf_of (v k) * gf_of (D ?c ! x) else gf_of (D cc ! x))"
      using rec_bytes_ok [of "v k"] v [OF k(1)] by blast
    have "g k (with_data D1 rm) = Some (with_data (D1(cc := d)) rm)"
      using k(2,3) d(1) v [OF k(1)] l by (simp add: g_def Let_def cc_def [symmetric] eq set_data_with_data)
    from foldM_upt_Suc [OF le0 1(1) this]
    have *: "foldM g [0..<Suc k] (with_data D rm) = Some (with_data (D1(cc := d)) rm)" by simp
    have "rec_adds rm D i ?c (gf_of (v k)) cc d" using d(2,3) l by (auto simp: rec_adds_def cbyte_def)
    then have "rec_adds rm D i ?c (gf_of (v j)) (ms ! j + ?f) ((D1(cc := d)) (ms ! j + ?f))" if "j < Suc k" for j
      using that 1(3) new [of j] by (cases "j = k") (auto simp: cc_def less_Suc_eq)
    moreover have "\<forall>c. c \<notin> (\<lambda>j. ms ! j + ?f) ` {..<Suc k} \<longrightarrow> (D1(cc := d)) c = D c" using 1(2) by (auto simp: lessThan_Suc cc_def)
    ultimately show ?case using * by blast
  qed (use D in auto)
  from this [of "length ms"] show ?thesis using that c(1) unfolding rec_used_col_def Let_def [of "used ! i"] g_def [symmetric] by auto
qed

lemma matrix_reconstruct_ok:
  assumes ms: "distinct ms" "\<And>j. j < length ms \<Longrightarrow> ms ! j + rm_firstdatacol rm < rm_cols rm"
    and u: "\<And>i. i < n \<Longrightarrow> used ! i < rm_cols rm" "\<And>i. i < n \<Longrightarrow> used ! i \<notin> (\<lambda>j. ms ! j + rm_firstdatacol rm) ` {..<length ms}"
    and n: "0 < n" "\<And>c. c < rm_cols rm \<Longrightarrow> col_size rm c \<le> col_size rm (used ! 0)" and ne: "ms ! 0 < rm_cols rm"
    and l: "rm_cols rm \<le> length (rm_col rm)" and D: "full rm D"
    and V: "mrep (length ms) n invs V" "\<And>r j. r < length ms \<Longrightarrow> j < n \<Longrightarrow> V r j \<noteq> 0"
  obtains D' where "vdev_raidz_matrix_reconstruct (with_data D rm) n ms invs used = Some (with_data D' rm)"
    "\<And>c. c \<notin> (\<lambda>j. ms ! j + rm_firstdatacol rm) ` {..<length ms} \<Longrightarrow> D' c = D c"
    "\<And>j. j < length ms \<Longrightarrow> length (D' (ms ! j + rm_firstdatacol rm)) = col_size rm (ms ! j + rm_firstdatacol rm)"
    "\<And>j x. j < length ms \<Longrightarrow> x < col_size rm (ms ! j + rm_firstdatacol rm) \<Longrightarrow>
       gf_of (D' (ms ! j + rm_firstdatacol rm) ! x) = (\<Sum>i<n. V j i * cbyte rm D (used ! i) x)"
proof -
  let ?cc = "\<lambda>j. ms ! j + rm_firstdatacol rm"
  let ?M = "?cc ` {..<length ms}"
  define invlog where "invlog = map (map (\<lambda>b. vdev_raidz_log2 ! unat b)) invs"
  have nz: "invs ! j ! i \<noteq> 0" "gf_of (invs ! j ! i) = V j i" "invlog ! j ! i = vdev_raidz_log2 ! unat (invs ! j ! i)" if "j < length ms" "i < n" for i j
    using that V(2) [OF that] mrepD(1) [OF V(1)] mrepD(2) [OF V(1) that(1)] mrepD(3) [OF V(1) that] by (auto simp: invlog_def)
  have "\<exists>D'. foldM (rec_used_col ms used invlog) [0..<k] (with_data D rm) = Some (with_data D' rm) \<and> (\<forall>c. c \<notin> ?M \<longrightarrow> D' c = D c) \<and>
    (\<forall>j<length ms. length (D' (?cc j)) = col_size rm (?cc j) \<and>
      (\<forall>x<col_size rm (?cc j). 0 < k \<longrightarrow> gf_of (D' (?cc j) ! x) = (\<Sum>i<k. V j i * cbyte rm D (used ! i) x)))" if "k \<le> n" for k using that
  proof (induction k)
    case 0
    show ?case using D ms(2) by (auto simp: full_def)
  next
    case (Suc k)
    obtain D1 where 1: "foldM (rec_used_col ms used invlog) [0..<k] (with_data D rm) = Some (with_data D1 rm)" "\<forall>c. c \<notin> ?M \<longrightarrow> D1 c = D c"
      "\<forall>j<length ms. length (D1 (?cc j)) = col_size rm (?cc j) \<and>
        (\<forall>x<col_size rm (?cc j). 0 < k \<longrightarrow> gf_of (D1 (?cc j) ! x) = (\<Sum>i<k. V j i * cbyte rm D (used ! i) x))" using Suc by auto
    have k: "k < n" using Suc.prems by simp
    have c: "cbyte rm D1 (used ! k) x = cbyte rm D (used ! k) x" for x using 1(2) u(2) [OF k] by (intro cbyte_cong) blast
    have "length (D1 c) = col_size rm c" if "c < rm_cols rm" for c
      using that 1(2,3) D by (cases "c \<in> ?M") (auto simp: full_def)
    then have full1: "full rm D1" by (simp add: full_def)
    obtain D2 where 2: "rec_used_col ms used invlog k (with_data D1 rm) = Some (with_data D2 rm)" "\<And>c. c \<notin> ?M \<Longrightarrow> D2 c = D1 c"
      "\<And>j. j < length ms \<Longrightarrow> rec_adds rm D1 k (used ! k) (gf_of (invs ! j ! k)) (?cc j) (D2 (?cc j))"
    proof (rule rec_used_col_ok [where v = "\<lambda>j. invs ! j ! k" and ms = ms and used = used and rm = rm, OF ms(1) _ u(1) [OF k] l full1])
      show "?cc j < rm_cols rm \<and> ?cc j \<noteq> used ! k" if "j < length ms" for j using ms(2) [OF that] u(2) [OF k] that by force
      show "invs ! j ! k \<noteq> 0 \<and> invlog ! j ! k = vdev_raidz_log2 ! unat (invs ! j ! k)" if "j < length ms" for j using nz [OF that k] by simp
    qed (use that in blast)
    have s: "gf_of (D2 (?cc j) ! x) = (\<Sum>i<Suc k. V j i * cbyte rm D (used ! i) x)" if "j < length ms" "x < col_size rm (?cc j)" for j x
    proof (cases "k = 0")
      case True
      then have "x < col_size rm (used ! k)" using that n(2) [OF ms(2) [OF that(1)]] by simp
      then show ?thesis using 2(3) [OF that(1)] that True nz(2) [OF that(1) k] c by (simp add: rec_adds_def)
    next
      case False
      then show ?thesis using 2(3) [OF that(1)] that nz(2) [OF that(1) k] c 1(3) by (simp add: rec_adds_def)
    qed
    have "\<forall>c. c \<notin> ?M \<longrightarrow> D2 c = D c" using 1(2) 2(2) by simp
    moreover have "\<forall>j<length ms. length (D2 (?cc j)) = col_size rm (?cc j)" using 2(3) by (simp add: rec_adds_def)
    ultimately show ?case using foldM_upt_Suc [OF le0 1(1) 2(1)] s by blast
  qed
  from this [of n] n(1) obtain D' where *: "foldM (rec_used_col ms used invlog) [0..<n] (with_data D rm) = Some (with_data D' rm)" "\<forall>c. c \<notin> ?M \<longrightarrow> D' c = D c"
      "\<forall>j<length ms. length (D' (?cc j)) = col_size rm (?cc j) \<and>
        (\<forall>x<col_size rm (?cc j). gf_of (D' (?cc j) ! x) = (\<Sum>i<n. V j i * cbyte rm D (used ! i) x))" by auto
  have "list_all (\<lambda>row. list_all (\<lambda>b. b \<noteq> 0) row) invs"
    using nz(1) mrepD(1,2) [OF V(1)] by (auto simp: list_all_length)
  moreover have "col_size rm (ms ! 0) \<le> col_size rm (used ! 0)" using n(2) [OF ne] .
  moreover have "ms ! 0 < length (rm_col rm)" "used ! 0 < length (rm_col rm)" using ne u(1) [OF n(1)] l by auto
  ultimately have "vdev_raidz_matrix_reconstruct (with_data D rm) n ms invs used = Some (with_data D' rm)"
    using *(1) by (simp add: vdev_raidz_matrix_reconstruct_def invlog_def [symmetric] Let_def)
  then show ?thesis using that *(2,3) by blast
qed

text \<open>The parity equations, with the known columns on the right.\<close>

lemma parity_sum: "parity rm T p x = (\<Sum>j<rm_cols rm - rm_firstdatacol rm. gpow (rm_cols rm - rm_firstdatacol rm) j ^ p * cbyte rm T (j + rm_firstdatacol rm) x)"
proof (cases "rm_firstdatacol rm \<le> rm_cols rm")
  case True
  define n where "n = rm_cols rm - rm_firstdatacol rm"
  have c: "rm_cols rm = n + rm_firstdatacol rm" using True by (simp add: n_def)
  have "parity rm T p x = (\<Sum>j\<in>{0..<n}. (gen ^ p) ^ (rm_cols rm - 1 - (j + rm_firstdatacol rm)) * cbyte rm T (j + rm_firstdatacol rm) x)"
    unfolding parity_upto_def
    using sum.shift_bounds_nat_ivl [of "\<lambda>c. (gen ^ p) ^ (rm_cols rm - 1 - c) * cbyte rm T c x" 0 "rm_firstdatacol rm" n] by (simp add: c)
  also have "\<dots> = (\<Sum>j<n. gpow n j ^ p * cbyte rm T (j + rm_firstdatacol rm) x)"
    by (intro sum.cong) (auto simp: c power_mult [symmetric] mult.commute)
  finally show ?thesis by (simp add: n_def)
qed (simp add: parity_upto_def)

lemma parity_rows_eq:
  assumes lay: "layout (rm_firstdatacol rm) n ms pm rest" and n: "n = rm_cols rm - rm_firstdatacol rm"
    and T: "has_parity rm T" and x: "x < col_size rm 0" and s: "sizes_ok rm"
  shows "rows_eq (length ms) n (missing_rows (gpow n) ms pm) (used_rows (gpow n) (rm_firstdatacol rm) pm rest)
    (\<lambda>j. cbyte rm T (j + rm_firstdatacol rm) x) (\<lambda>j. cbyte rm T ((pm @ rest) ! j) x)"
  unfolding rows_eq_def
proof (intro allI impI)
  let ?f = "rm_firstdatacol rm" and ?nm = "length ms"
  fix r
  assume r: "r < ?nm"
  note l = layoutD [OF lay] and L = lay [unfolded layout_def]
  define h where "h = (\<lambda>j. gpow n j ^ (pm ! r) * cbyte rm T (j + ?f) x)"
  have p: "pm ! r < ?f" using l(2,5) r by simp
  have ms: "set ms \<subseteq> {..<n}" using L by simp
  have "(\<Sum>j<n. missing_rows (gpow n) ms pm r j * cbyte rm T (j + ?f) x) = (\<Sum>j\<in>set ms. h j)"
    using ms by (intro sum.mono_neutral_cong_right) (auto simp: missing_rows_def h_def)
  also have "\<dots> = cbyte rm T (pm ! r) x + (\<Sum>j\<in>{..<n} - set ms. h j)"
  proof -
    have "cbyte rm T (pm ! r) x = (\<Sum>j<n. h j)"
      using T p x sizes_okD(4) [OF s p] unfolding has_parity_def cbyte_def [of _ _ "pm ! r"] by (simp add: parity_sum n h_def)
    also have "\<dots> = (\<Sum>j\<in>set ms. h j) + (\<Sum>j\<in>{..<n} - set ms. h j)" using sum.subset_diff [OF ms] by (simp add: add.commute)
    finally show ?thesis by (simp add: add.assoc)
  qed
  also have "(\<Sum>j\<in>{..<n} - set ms. h j) = (\<Sum>c\<in>set rest. h (c - ?f))"
    using L by (simp add: sum.reindex inj_on_def)
  also have "\<dots> = (\<Sum>j<length rest. h (rest ! j - ?f))"
    using l(10) by (simp add: sum.distinct_set_conv_list sum_list_sum_nth atLeast0LessThan)
  also have "\<dots> = (\<Sum>j\<in>{?nm..<n}. used_rows (gpow n) ?f pm rest r j * cbyte rm T ((pm @ rest) ! j) x)"
  proof -
    have "used_rows (gpow n) ?f pm rest r (j + ?nm) * cbyte rm T ((pm @ rest) ! (j + ?nm)) x = h (rest ! j - ?f)" if "j < length rest" for j
      using l(7) [OF that] l(2) by (simp add: used_rows_def h_def nth_append)
    then show ?thesis using sum.shift_bounds_nat_ivl [of "\<lambda>j. used_rows (gpow n) ?f pm rest r j * cbyte rm T ((pm @ rest) ! j) x" 0 ?nm "length rest"] l(1)
      by (simp add: atLeast0LessThan)
  qed
  also have "cbyte rm T (pm ! r) x = (\<Sum>j\<in>{0..<?nm}. used_rows (gpow n) ?f pm rest r j * cbyte rm T ((pm @ rest) ! j) x)"
  proof -
    have "(\<Sum>j\<in>{0..<?nm}. used_rows (gpow n) ?f pm rest r j * cbyte rm T ((pm @ rest) ! j) x) = (\<Sum>j\<in>{0..<?nm}. if j = r then cbyte rm T (pm ! r) x else 0)"
      using l(2) by (intro sum.cong) (auto simp: used_rows_def nth_append)
    then show ?thesis using r by simp
  qed
  finally show "(\<Sum>j<n. missing_rows (gpow n) ms pm r j * cbyte rm T (j + ?f) x) = (\<Sum>j<n. used_rows (gpow n) ?f pm rest r j * cbyte rm T ((pm @ rest) ! j) x)"
    using l(1) sum.atLeastLessThan_concat [of 0 ?nm n "\<lambda>j. used_rows (gpow n) ?f pm rest r j * cbyte rm T ((pm @ rest) ! j) x"] by (simp add: atLeast0LessThan)
qed

end
