(* ===== verification/RaidzReconstruct.thy ===== *)
theory RaidzReconstruct
  imports RaidzMatrix
begin

text \<open>
  RAID-Z reconstruction as a whole: the columns that \<open>vdev_raidz_reconstruct_general\<close> chooses, its
  correctness, and the choice that \<open>vdev_raidz_reconstruct\<close> makes between it and the routines for special cases.
\<close>

section \<open>The choice of columns\<close>

lemma sorted_filter_upt: "sorted_wrt (<) (filter P [a..<b :: nat])"
  by (simp add: sorted_wrt_filter)

lemma parity_choice_ok:
  "sorted_wrt (<) tgts \<Longrightarrow> tt \<le> length tgts \<Longrightarrow> (\<forall>t\<in>set (take tt tgts). t < c) \<Longrightarrow> (\<forall>t\<in>set (drop tt tgts). c \<le> t) \<Longrightarrow> c \<le> f \<Longrightarrow>
   (\<exists>t\<in>set tgts. f \<le> t) \<Longrightarrow> length pm \<le> nm \<Longrightarrow> nm \<le> length pm + length (filter (\<lambda>c. c \<notin> set tgts) [c..<f]) \<Longrightarrow>
   parity_choice f tgts nm tt c pm = Some (pm @ take (nm - length pm) (filter (\<lambda>c. c \<notin> set tgts) [c..<f]))"
proof (induction f tgts nm tt c pm rule: parity_choice.induct)
  case (1 f tgts nm tt c pm)
  show ?case
  proof (cases "length pm < nm")
    case True
    have c: "c < f" using True "1.prems"(5,8) by (cases "c < f") auto
    have tt: "tt < length tgts"
    proof (rule ccontr)
      assume "\<not> tt < length tgts"
      then have "take tt tgts = tgts" by simp
      then show False using "1.prems"(3,6) c by force
    qed
    have dr: "drop tt tgts = tgts ! tt # drop (Suc tt) tgts" using tt by (simp add: Cons_nth_drop_Suc)
    have tk: "take (Suc tt) tgts = take tt tgts @ [tgts ! tt]" using tt by (simp add: take_Suc_conv_app_nth)
    have gr: "\<forall>t\<in>set (drop (Suc tt) tgts). tgts ! tt < t" using sorted_wrt_drop [OF "1.prems"(1), of tt] unfolding dr by simp
    have set: "set tgts = set (take tt tgts) \<union> set (drop tt tgts)" by (metis append_take_drop_id set_append)
    have up: "[c..<f] = c # [Suc c..<f]" using c by (rule upt_conv_Cons)
    show ?thesis
    proof (cases "c = tgts ! tt")
      case eq: True
      have "c \<in> set tgts" using eq tt by simp
      then have "parity_choice f tgts nm (Suc tt) (Suc c) pm = Some (pm @ take (nm - length pm) (filter (\<lambda>c. c \<notin> set tgts) [c..<f]))"
        using 1(1) [OF True _ eq] "1.prems" c tt gr eq tk up by (force simp: less_Suc_eq Suc_le_eq)
      then show ?thesis using True c tt eq by (subst parity_choice.simps) simp
    next
      case ne: False
      have le: "c \<le> tgts ! tt" using "1.prems"(4) dr by simp
      then have ge: "\<forall>t\<in>set (drop tt tgts). Suc c \<le> t" using ne gr dr by fastforce
      have "c \<notin> set tgts" unfolding set using "1.prems"(3) ge by force
      then have fil: "filter (\<lambda>c. c \<notin> set tgts) [c..<f] = c # filter (\<lambda>c. c \<notin> set tgts) [Suc c..<f]" using up by simp
      have "parity_choice f tgts nm tt (Suc c) (pm @ [c]) = Some ((pm @ [c]) @ take (nm - length (pm @ [c])) (filter (\<lambda>c. c \<notin> set tgts) [Suc c..<f]))"
      proof (rule 1(2) [OF True _ ne])
        show "\<forall>t\<in>set (take tt tgts). t < Suc c" using "1.prems"(3) by (simp add: less_Suc_eq)
        show "nm \<le> length (pm @ [c]) + length (filter (\<lambda>c. c \<notin> set tgts) [Suc c..<f])" using "1.prems"(8) fil by simp
      qed (use "1.prems"(1,2,6) c tt ge True in simp_all)
      also have "(pm @ [c]) @ take (nm - length (pm @ [c])) (filter (\<lambda>c. c \<notin> set tgts) [Suc c..<f]) = pm @ take (nm - length pm) (filter (\<lambda>c. c \<notin> set tgts) [c..<f])"
        unfolding fil using True by (simp add: take_Cons' diff_diff_left)
      finally have "parity_choice f tgts nm tt (Suc c) (pm @ [c]) = Some (pm @ take (nm - length pm) (filter (\<lambda>c. c \<notin> set tgts) [c..<f]))" .
      then show ?thesis using True c tt ne by (subst parity_choice.simps) simp
    qed
  next
    case False
    then show ?thesis using "1.prems"(7) by (subst parity_choice.simps) simp
  qed
qed

lemma used_data_filter:
  "sorted_wrt (<) ms \<Longrightarrow> sorted_wrt (<) cs \<Longrightarrow> (\<forall>m\<in>set ms. m + f \<in> set cs) \<Longrightarrow> used_data f ms cs = filter (\<lambda>c. c \<notin> (\<lambda>m. m + f) ` set ms) cs"
proof (induction f ms cs rule: used_data.induct)
  case (3 f m ms c cs)
  show ?case
  proof (cases "c = m + f")
    case True
    have "\<forall>k\<in>set ms. k + f \<in> set cs" using 3(3,5) True by fastforce
    then have "used_data f ms cs = filter (\<lambda>c. c \<notin> (\<lambda>m. m + f) ` set ms) cs" using 3 True by simp
    also have "\<dots> = filter (\<lambda>c. c \<notin> (\<lambda>m. m + f) ` set (m # ms)) cs" using 3(4) True by (intro filter_cong) auto
    finally show ?thesis using True by simp
  next
    case False
    have "c < m + f" using 3(4,5) False by auto
    then have lt: "\<forall>k\<in>set (m # ms). c < k + f" using 3(3) by fastforce
    then have "\<forall>k\<in>set (m # ms). k + f \<in> set cs" using 3(5) by fastforce
    then have "used_data f (m # ms) cs = filter (\<lambda>c. c \<notin> (\<lambda>m. m + f) ` set (m # ms)) cs" using 3 False by simp
    then show ?thesis using lt False by auto
  qed
qed auto

lemma raidz_targets_filter:
  "sorted_wrt (<) t \<Longrightarrow> sorted_wrt (<) cs \<Longrightarrow> set t \<subseteq> set cs \<Longrightarrow> raidz_targets rm t cs = filter (\<lambda>c. c \<in> set t \<or> rc_error (rm_col rm ! c) \<noteq> 0) cs"
proof (induction rm t cs rule: raidz_targets.induct)
  case (2 rm t c cs)
  show ?case
  proof (cases "t \<noteq> [] \<and> c = hd t")
    case True
    then obtain t' where t: "t = c # t'" by (cases t) auto
    have "set t' \<subseteq> set cs" using "2.prems" t by auto
    then have "raidz_targets rm t' cs = filter (\<lambda>c. c \<in> set t' \<or> rc_error (rm_col rm ! c) \<noteq> 0) cs" using 2(1) [OF True] 2(4,5) t by simp
    also have "\<dots> = filter (\<lambda>c. c \<in> set t \<or> rc_error (rm_col rm ! c) \<noteq> 0) cs" using 2(5) t by (intro filter_cong) auto
    finally show ?thesis using t by simp
  next
    case False
    have c: "c \<notin> set t"
    proof
      assume "c \<in> set t"
      moreover from this obtain a t' where "t = a # t'" by (cases t) auto
      moreover have "a \<in> set (c # cs)" using 2(6) calculation by auto
      ultimately show False using False 2(4,5) by fastforce
    qed
    then have "set t \<subseteq> set cs" using 2(6) by auto
    then show ?thesis using 2(2,3) False 2(4,5) c by auto
  qed
qed simp

lemma bit_code: "bit (fold (\<lambda>c code. code OR push_bit c 1) pm (a :: nat)) i \<longleftrightarrow> bit a i \<or> i \<in> set pm"
proof (induction pm arbitrary: a)
  case (Cons c pm)
  have "bit (a OR push_bit c 1) i \<longleftrightarrow> bit a i \<or> i = c" by (simp add: bit_or_iff bit_exp_iff)
  then show ?case using Cons [of "a OR push_bit c 1"] by auto
qed simp

lemma code_bounds:
  assumes "pm \<noteq> []" "\<And>c. c \<in> set pm \<Longrightarrow> c < 3"
  shows "fold (\<lambda>c code. code OR push_bit c 1) pm (0 :: nat) \<noteq> 0" "fold (\<lambda>c code. code OR push_bit c 1) pm (0 :: nat) < 8"
proof -
  let ?code = "fold (\<lambda>c code. code OR push_bit c 1) pm (0 :: nat)"
  show "?code \<noteq> 0"
  proof
    assume "?code = 0"
    then show False using bit_code [of pm 0 "hd pm"] assms(1) by (simp only: bit_0_eq) simp
  qed
  have "take_bit 3 ?code = ?code" using assms(2) bit_code [of pm 0] by (intro bit_eqI) (auto simp: bit_take_bit_iff)
  then show "?code < 8" using take_bit_nat_less_exp [of 3 ?code] by simp
qed

section \<open>Reconstruction in general\<close>

text \<open>The targets of a reconstruction, at least one of them a data column and no more than there are parity columns.\<close>

definition bad_columns :: "raidz_map \<Rightarrow> nat list \<Rightarrow> bool" where
  "bad_columns rm tgts \<longleftrightarrow> sorted_wrt (<) tgts \<and> set tgts \<subseteq> {..<rm_cols rm} \<and> length tgts \<le> rm_firstdatacol rm \<and> (\<exists>t\<in>set tgts. rm_firstdatacol rm \<le> t)"

text \<open>The data columns among the targets with their true contents, all others as they are.\<close>

definition restored :: "raidz_map \<Rightarrow> nat list \<Rightarrow> (nat \<Rightarrow> byte list) \<Rightarrow> (nat \<Rightarrow> byte list) \<Rightarrow> nat \<Rightarrow> byte list" where
  "restored rm tgts T D c = (if c \<in> set tgts \<and> rm_firstdatacol rm \<le> c then T c else D c)"

lemma general_layout:
  assumes ok: "raidz_ok rm" and bad: "bad_columns rm tgts"
  defines "f \<equiv> rm_firstdatacol rm"
  defines "ms \<equiv> map (\<lambda>t. t - f) (filter (\<lambda>t. f \<le> t) tgts)"
  obtains pm where "parity_choice f tgts (length ms) 0 0 [] = Some pm" "set pm \<inter> set tgts = {}"
    "layout f (rm_cols rm - f) ms pm (used_data f ms [f..<rm_cols rm])" "set (used_data f ms [f..<rm_cols rm]) \<inter> set tgts = {}"
    "(\<lambda>m. m + f) ` set ms = {t \<in> set tgts. f \<le> t}"
proof -
  note so = sizes_okD [OF raidz_okD(1) [OF ok]]
  have t: "sorted_wrt (<) tgts" "set tgts \<subseteq> {..<rm_cols rm}" "length tgts \<le> f" "\<exists>t\<in>set tgts. f \<le> t" using bad by (simp_all add: bad_columns_def f_def)
  define fr where "fr = filter (\<lambda>c. c \<notin> set tgts) [0..<f]"
  have d: "distinct tgts" using t(1) by (simp add: strict_sorted_iff)
  have lms: "length ms = card {t \<in> set tgts. f \<le> t}"
    using d distinct_card [of "filter (\<lambda>t. f \<le> t) tgts"] by (simp add: ms_def)
  have "length fr = card ({..<f} - set tgts)" using distinct_card [of fr] by (simp add: fr_def set_diff_eq lessThan_atLeast0)
  moreover have "f = card ({..<f} - set tgts) + card {t \<in> set tgts. t < f}"
  proof -
    have "{..<f} = ({..<f} - set tgts) \<union> {t \<in> set tgts. t < f}" by auto
    then have "card {..<f} = card (({..<f} - set tgts) \<union> {t \<in> set tgts. t < f})" by (rule arg_cong)
    then show ?thesis by (subst (asm) card_Un_disjoint) auto
  qed
  moreover have "length tgts = card {t \<in> set tgts. f \<le> t} + card {t \<in> set tgts. t < f}"
    unfolding distinct_card [OF d, symmetric] by (subst card_Un_disjoint [symmetric]) (auto intro!: arg_cong [of _ _ card])
  ultimately have enough: "length ms \<le> length fr" using t(3) lms by simp
  define pm where "pm = take (length ms) fr"
  have pc: "parity_choice f tgts (length ms) 0 0 [] = Some pm"
    using parity_choice_ok [of tgts 0 0 f "[]" "length ms"] t enough by (simp add: pm_def fr_def)
  have pm: "sorted_wrt (<) pm" "set pm \<subseteq> {..<f} - set tgts" "length pm = length ms"
    using enough set_take_subset [of "length ms" fr] by (auto simp: pm_def fr_def intro: sorted_wrt_take sorted_filter_upt)
  have sms: "sorted_wrt (<) ms" unfolding ms_def sorted_wrt_map
  proof (rule sorted_wrt_mono_rel [of _ "(<)"])
    show "sorted_wrt (<) (filter (\<lambda>t. f \<le> t) tgts)" using t(1) by (rule sorted_wrt_filter)
  qed auto
  have img: "(\<lambda>m. m + f) ` set ms = {t \<in> set tgts. f \<le> t}" by (force simp: ms_def)
  then have ms: "\<forall>m\<in>set ms. m + f \<in> set [f..<rm_cols rm]" using t(2) by (auto simp: image_iff set_eq_iff)
  note ud = used_data_filter [OF sms _ this]
  have "set (used_data f ms [f..<rm_cols rm]) = (\<lambda>j. j + f) ` ({..<rm_cols rm - f} - set ms)"
  proof -
    have "set (used_data f ms [f..<rm_cols rm]) = {f..<rm_cols rm} - (\<lambda>m. m + f) ` set ms" by (auto simp: ud)
    also have "{f..<rm_cols rm} = (\<lambda>j. j + f) ` {..<rm_cols rm - f}" using so(8) image_add_atLeastLessThan' [of f 0 "rm_cols rm - f"] by (simp add: lessThan_atLeast0 f_def)
    finally show ?thesis by (simp add: image_set_diff inj_on_def)
  qed
  moreover have "distinct (used_data f ms [f..<rm_cols rm])" by (simp add: ud)
  moreover have "0 < length ms" using t(4) lms by (auto simp: card_gt_0_iff)
  moreover have "set ms \<subseteq> {..<rm_cols rm - f}" using ms by auto
  ultimately have "layout f (rm_cols rm - f) ms pm (used_data f ms [f..<rm_cols rm])"
    using sms pm raidz_okD(2,3) [OF ok] so(7) unfolding layout_def by (auto simp: f_def)
  moreover have "set (used_data f ms [f..<rm_cols rm]) \<inter> set tgts = {}" using img by (auto simp: ud)
  ultimately show ?thesis using that [OF pc] pm(2) img by blast
qed

lemma reconstruct_general_ok:
  assumes ok: "raidz_ok rm" and bad: "bad_columns rm tgts" and D: "full rm D" "full rm T" "has_parity rm T"
    and eq: "\<And>c. c < rm_cols rm \<Longrightarrow> c \<notin> set tgts \<Longrightarrow> D c = T c"
  obtains code where "vdev_raidz_reconstruct_general (with_data D rm) tgts = Some (code, with_data (restored rm tgts T D) rm)" "0 < code" "code < 8"
proof -
  define f n where "f = rm_firstdatacol rm" and "n = rm_cols rm - f"
  define ms where "ms = map (\<lambda>t. t - f) (filter (\<lambda>t. f \<le> t) tgts)"
  define rest where "rest = used_data f ms [f..<rm_cols rm]"
  note so = sizes_okD [OF raidz_okD(1) [OF ok]]
  obtain pm where pm: "parity_choice f tgts (length ms) 0 0 [] = Some pm" "set pm \<inter> set tgts = {}" "layout f n ms pm rest"
      "set rest \<inter> set tgts = {}" "(\<lambda>m. m + f) ` set ms = {t \<in> set tgts. f \<le> t}"
    using general_layout [OF ok bad] unfolding f_def n_def ms_def rest_def by blast
  note l = layoutD [OF pm(3)] and L = pm(3) [unfolded layout_def]
  have len: "rm_cols rm \<le> length (rm_col rm)" using raidz_okD(1) [OF ok] by (simp add: sizes_ok_def)
  have tg: "set tgts \<subseteq> {..<rm_cols rm}" using bad by (simp add: bad_columns_def)
  have img: "(\<lambda>j. ms ! j + f) ` {..<length ms} = {t \<in> set tgts. f \<le> t}"
  proof -
    have "set ms = (!) ms ` {..<length ms}" by (auto simp: set_conv_nth)
    then show ?thesis unfolding pm(5) [symmetric] by (simp add: image_image)
  qed
  have used: "(pm @ rest) ! i < rm_cols rm \<and> (pm @ rest) ! i \<notin> set tgts" if "i < n" for i
  proof -
    have "(pm @ rest) ! i \<in> set pm \<union> set rest" using that l(1,2) nth_mem [of i "pm @ rest"] by simp
    moreover have "set pm \<subseteq> {..<rm_cols rm}" "set rest \<subseteq> {..<rm_cols rm}" using L so(8) by (auto simp: f_def n_def)
    ultimately show ?thesis using pm(2,4) by blast
  qed
  have pmne: "pm \<noteq> []" "\<And>c. c \<in> set pm \<Longrightarrow> c < 3" using l(2,3) L by fastforce+
  define code where "code = fold (\<lambda>c code. code OR push_bit c 1) pm (0 :: nat)"
  have code': "fold (\<lambda>c code. code OR 2 ^ c) pm 0 = code" by (simp add: code_def)
  have code: "0 < code" "code < 8" using code_bounds [OF pmne] unfolding code_def by (simp_all only: neq0_conv)
  obtain rows where rows: "vdev_raidz_matrix_init (with_data D rm) n pm = Some rows" "mrep (length ms) n rows (\<lambda>i j. gpow n j ^ (pm ! i))"
  proof (rule matrix_init_ok [where rm = "with_data D rm" and n = n and pm = pm])
    show "m \<le> 2" if "m \<in> set pm" for m using pmne(2) [OF that] by simp
  qed (use that l(2,9) in \<open>auto simp: n_def f_def\<close>)
  obtain invs V where inv: "vdev_raidz_matrix_invert (with_data D rm) n ms rows (pm @ rest) = Some invs" "mrep (length ms) n invs V"
    "\<And>r j. r < length ms \<Longrightarrow> j < n \<Longrightarrow> V r j \<noteq> 0"
    "\<And>d u r. rows_eq (length ms) n (missing_rows (gpow n) ms pm) (used_rows (gpow n) f pm rest) d u \<Longrightarrow> r < length ms \<Longrightarrow> d (ms ! r) = (\<Sum>j<n. V r j * u j)"
  proof (rule matrix_invert_ok [where rm = "with_data D rm", OF _ rows(2), unfolded with_data_simps f_def [symmetric]])
    show "layout f n ms pm rest" by (rule pm(3))
  qed (rule that)
  have u0: "(pm @ rest) ! 0 < f" using l(2,3) l(5) [of 0] by (simp add: nth_append)
  obtain D' where D': "vdev_raidz_matrix_reconstruct (with_data D rm) n ms invs (pm @ rest) = Some (with_data D' rm)"
    "\<And>c. c \<notin> (\<lambda>j. ms ! j + f) ` {..<length ms} \<Longrightarrow> D' c = D c"
    "\<And>j. j < length ms \<Longrightarrow> length (D' (ms ! j + f)) = col_size rm (ms ! j + f)"
    "\<And>j x. j < length ms \<Longrightarrow> x < col_size rm (ms ! j + f) \<Longrightarrow> gf_of (D' (ms ! j + f) ! x) = (\<Sum>i<n. V j i * cbyte rm D ((pm @ rest) ! i) x)"
  proof (rule matrix_reconstruct_ok [where rm = rm and ms = ms and used = "pm @ rest" and n = n and D = D and invs = invs and V = V])
    show "distinct ms" using L by (simp add: strict_sorted_iff)
    show "ms ! j + rm_firstdatacol rm < rm_cols rm" if "j < length ms" for j using l(8) [OF that] by (simp add: n_def f_def)
    show "(pm @ rest) ! i \<notin> (\<lambda>j. ms ! j + rm_firstdatacol rm) ` {..<length ms}" if "i < n" for i using used [OF that] img by (auto simp: f_def)
    show "col_size rm c \<le> col_size rm ((pm @ rest) ! 0)" if "c < rm_cols rm" for c
      using so(2) [OF that] so(4) [OF u0 [unfolded f_def]] by simp
    show "ms ! 0 < rm_cols rm" using l(8) [of 0] l(3) by (simp add: n_def)
  qed (use that used l(1,3) len D(1) inv(2,3) in \<open>auto simp: f_def\<close>)
  have DT: "D' (ms ! r + f) = T (ms ! r + f)" if r: "r < length ms" for r
  proof (rule gf_list_eqI)
    have c: "ms ! r + f < rm_cols rm" using l(8) [OF r] by (simp add: n_def)
    show ll: "length (D' (ms ! r + f)) = length (T (ms ! r + f))" using D'(3) [OF r] D(2) c by (simp add: full_def)
    fix x
    assume "x < length (T (ms ! r + f))"
    then have x: "x < col_size rm (ms ! r + f)" "x < col_size rm 0" using D(2) c so(2) [OF c] by (simp_all add: full_def)
    have "gf_of (D' (ms ! r + f) ! x) = (\<Sum>i<n. V r i * cbyte rm T ((pm @ rest) ! i) x)"
      unfolding D'(4) [OF r x(1)] using used eq by (intro sum.cong refl arg_cong2 [of _ _ _ _ "(*)"] cbyte_cong) auto
    also have "\<dots> = cbyte rm T (ms ! r + f) x"
      using inv(4) [OF _ r] parity_rows_eq [of rm n ms pm rest, OF _ _ D(3) x(2) raidz_okD(1) [OF ok]] pm(3) by (simp add: f_def n_def)
    finally show "gf_of (D' (ms ! r + f) ! x) = gf_of (T (ms ! r + f) ! x)" using x by (simp add: cbyte_def)
  qed
  have "D' c = restored rm tgts T D c" for c
  proof (cases "c \<in> set tgts \<and> f \<le> c")
    case True
    then have "c \<in> (\<lambda>j. ms ! j + f) ` {..<length ms}" unfolding img by simp
    then show ?thesis using DT True by (auto simp: restored_def f_def)
  next
    case False
    then show ?thesis using D'(2) [of c] unfolding img by (auto simp: restored_def f_def)
  qed
  then have "D' = restored rm tgts T D" by blast
  then have "vdev_raidz_reconstruct_general (with_data D rm) tgts = Some (code, with_data (restored rm tgts T D) rm)"
    using code l(1,2) pm(1) rows(1) inv(1) D'(1)
    unfolding vdev_raidz_reconstruct_general_def with_data_simps Let_def f_def [symmetric] n_def [symmetric] ms_def [symmetric]
    by (simp add: rest_def [symmetric] code' raidz_consts)
  then show ?thesis using that code by blast
qed

section \<open>The choice of a routine\<close>

lemma sorted_parts:
  assumes "sorted_wrt (<) (xs :: nat list)"
  shows "drop (length (filter (\<lambda>c. c < f) xs)) xs = filter (\<lambda>c. f \<le> c) xs"
    "length xs - length (filter (\<lambda>c. c < f) xs) = length (filter (\<lambda>c. f \<le> c) xs)"
proof -
  have "xs = filter (\<lambda>c. c < f) xs @ filter (\<lambda>c. f \<le> c) xs" using assms
  proof (induction xs)
    case (Cons x xs)
    show ?case
    proof (cases "x < f")
      case True
      then show ?thesis using Cons by auto
    next
      case False
      then have "filter (\<lambda>c. c < f) xs = []" using Cons(2) by (auto simp: filter_empty_conv)
      then show ?thesis using Cons False by auto
    qed
  qed simp
  then show "drop (length (filter (\<lambda>c. c < f) xs)) xs = filter (\<lambda>c. f \<le> c) xs"
    "length xs - length (filter (\<lambda>c. c < f) xs) = length (filter (\<lambda>c. f \<le> c) xs)"
    by (metis append_eq_conv_conj, metis add_diff_cancel_left' length_append)
qed

text \<open>The bad columns of a map: those that the caller names and those with an error.\<close>

definition bad_of :: "raidz_map \<Rightarrow> nat list \<Rightarrow> nat list" where
  "bad_of rm t = filter (\<lambda>c. c \<in> set t \<or> rc_error (rm_col rm ! c) \<noteq> 0) [0..<rm_cols rm]"

lemma with_data_error: "c < length (rm_col rm) \<Longrightarrow> rc_error (rm_col (with_data D rm) ! c) = rc_error (rm_col rm ! c)"
  by (simp add: with_data_def)

lemma raidz_targets_bad_of:
  assumes "sorted_wrt (<) t" "set t \<subseteq> {..<rm_cols rm}" "rm_cols rm \<le> length (rm_col rm)"
  shows "raidz_targets (with_data D rm) t [0..<rm_cols rm] = bad_of rm t" "length t \<le> length (bad_of rm t)"
proof -
  show *: "raidz_targets (with_data D rm) t [0..<rm_cols rm] = bad_of rm t"
    unfolding bad_of_def using assms with_data_error [of _ rm D]
    by (subst raidz_targets_filter) (auto intro!: filter_cong)
  have "set t \<subseteq> set (bad_of rm t)" using assms(2) by (auto simp: bad_of_def)
  then have "card (set t) \<le> card (set (bad_of rm t))" by (simp add: card_mono)
  moreover have "card (set t) = length t" "card (set (bad_of rm t)) = length (bad_of rm t)"
    using assms(1) distinct_card [of "bad_of rm t"] by (simp_all add: distinct_card strict_sorted_iff bad_of_def del: set_filter)
  ultimately show "length t \<le> length (bad_of rm t)" by simp
qed

lemma bad_parity_few:
  assumes "sorted_wrt (<) tgts" "length tgts \<le> f" "S \<subseteq> {c \<in> set tgts. c < f}"
  shows "card S + length (filter (\<lambda>c. f \<le> c) tgts) \<le> (f :: nat)"
proof -
  have d: "distinct tgts" using assms(1) by (simp add: strict_sorted_iff)
  have "card S \<le> card {c \<in> set tgts. c < f}" using assms(3) by (intro card_mono) auto
  also have "\<dots> = length (filter (\<lambda>c. c < f) tgts)" using d distinct_card [of "filter (\<lambda>c. c < f) tgts"] by simp
  finally show ?thesis using assms(2) sum_length_filter_compl [of "\<lambda>c. c < f" tgts] by (simp add: not_less)
qed

text \<open>The general routine with the checks of its caller.\<close>

definition general_checked :: "raidz_map \<Rightarrow> nat list \<Rightarrow> (nat \<times> raidz_map) option" where
  "general_checked rm tgts = Option.bind (vdev_raidz_reconstruct_general rm tgts) (\<lambda>(code, rm).
     require (code < push_bit VDEV_RAIDZ_MAXPARITY 1 \<and> code > 0) (Some (code, rm)))"

lemma reconstruct_cases:
  assumes ok: "raidz_ok rm" and t: "sorted_wrt (<) t" "set t \<subseteq> {..<rm_cols rm}" and bad: "bad_columns rm (bad_of rm t)"
  defines "f \<equiv> rm_firstdatacol rm" and "tgts \<equiv> bad_of rm t"
  defines "bd \<equiv> filter (\<lambda>c. f \<le> c) tgts"
  shows "vdev_raidz_reconstruct alloc dflt (with_data D rm) t =
      (if dflt then general_checked (with_data D rm) tgts
       else if length bd = 1 then
         (if 0 < f \<and> 0 \<notin> set tgts then vdev_raidz_reconstruct_p (with_data D rm) (take 1 bd)
          else require (f > 1) (if 1 < f \<and> 1 \<notin> set tgts then vdev_raidz_reconstruct_q (with_data D rm) (take 1 bd)
            else require (f > 2) (general_checked (with_data D rm) tgts)))
       else if length bd = 2 then
         require (f > 1) (if (0 < f \<and> 0 \<notin> set tgts) \<and> (1 < f \<and> 1 \<notin> set tgts) then vdev_raidz_reconstruct_pq alloc (with_data D rm) (take 2 bd)
           else require (f > 2) (general_checked (with_data D rm) tgts))
       else general_checked (with_data D rm) tgts)"
proof -
  have len: "rm_cols rm \<le> length (rm_col rm)" using raidz_okD(1) [OF ok] by (simp add: sizes_ok_def)
  note tg = raidz_targets_bad_of [OF t len, folded tgts_def]
  have b: "sorted_wrt (<) tgts" "length tgts \<le> 3" using bad raidz_okD(2) [OF ok] by (simp_all add: bad_columns_def tgts_def)
  show ?thesis
    unfolding vdev_raidz_reconstruct_def with_data_simps Let_def tg(1) f_def [symmetric] sorted_parts [OF b(1)] bd_def [symmetric] general_checked_def [symmetric]
    using t(1) tg(2) b(2) by (simp add: raidz_consts)
qed

lemma vdev_raidz_reconstruct_ok:
  assumes ok: "raidz_ok rm" and t: "sorted_wrt (<) t" "set t \<subseteq> {..<rm_cols rm}" and bad: "bad_columns rm (bad_of rm t)"
    and D: "full rm D" "full rm T" "has_parity rm T" and eq: "\<And>c. c < rm_cols rm \<Longrightarrow> c \<notin> set (bad_of rm t) \<Longrightarrow> D c = T c"
    and alloc: "\<And>n. length (alloc n) = n"
  shows "\<exists>code. vdev_raidz_reconstruct alloc dflt (with_data D rm) t = Some (code, with_data (restored rm (bad_of rm t) T D) rm) \<and> 0 < code \<and> code < 8"
proof -
  define f tgts where "f = rm_firstdatacol rm" and "tgts = bad_of rm t"
  define bd where "bd = filter (\<lambda>c. f \<le> c) tgts"
  note so = sizes_okD [OF raidz_okD(1) [OF ok]]
  have b: "sorted_wrt (<) tgts" "set tgts \<subseteq> {..<rm_cols rm}" "length tgts \<le> f" "\<exists>t\<in>set tgts. f \<le> t"
    using bad by (simp_all add: bad_columns_def f_def tgts_def)
  let ?R = "with_data (restored rm tgts T D) rm"
  have gen_ok: "\<exists>code. general_checked (with_data D rm) tgts = Some (code, ?R) \<and> 0 < code \<and> code < 8"
  proof (rule reconstruct_general_ok [OF ok bad D eq, folded tgts_def])
    fix code :: nat
    assume "vdev_raidz_reconstruct_general (with_data D rm) tgts = Some (code, ?R)" "0 < code" "code < 8"
    then show ?thesis by (simp add: general_checked_def raidz_consts)
  qed
  have restored: "restored rm tgts T D = (\<lambda>c. if c \<in> set bd then T c else D c)" by (auto simp: restored_def bd_def f_def)
  have bd: "set bd \<subseteq> {f..<rm_cols rm}" "sorted_wrt (<) bd" "bd \<noteq> []"
    using b by (auto simp: bd_def intro: sorted_wrt_filter simp: filter_empty_conv)
  have ok_parity: "D c = T c" if "c < f" "c \<notin> set tgts" for c using eq [of c] that so(3) by (simp add: f_def tgts_def)
  have ok_data: "D c = T c" if "f \<le> c" "c < rm_cols rm" "c \<notin> set bd" for c using eq [of c] that by (simp add: tgts_def bd_def)
  note unfold = reconstruct_cases [OF ok t bad, of alloc dflt D, folded f_def tgts_def, folded bd_def]
  have bad_parity: "card S + length bd \<le> f" if "S \<subseteq> {c \<in> set tgts. c < f}" for S
    using bad_parity_few [OF b(1,3) that] by (simp add: bd_def)
  have f0: "0 < f" using so(7) by (simp add: f_def)
  consider (general) "dflt \<or> length bd > 2" | (one) x where "\<not> dflt" "bd = [x]" | (two) x y where "\<not> dflt" "bd = [x, y]"
    using bd(3) by (cases bd rule: remdups_adj.cases) (auto simp: Suc_lessI)
  then show ?thesis
  proof cases
    case general
    then show ?thesis using unfold gen_ok by (cases dflt) (simp_all add: tgts_def)
  next
    case (one x)
    have x: "f \<le> x" "x < rm_cols rm" "\<And>c. f \<le> c \<Longrightarrow> c < rm_cols rm \<Longrightarrow> c \<noteq> x \<Longrightarrow> D c = T c" using bd(1) one ok_data by auto
    have R: "D(x := T x) = restored rm tgts T D" unfolding restored one by auto
    show ?thesis
    proof (cases "0 \<in> set tgts")
      case False
      then have "vdev_raidz_reconstruct_p (with_data D rm) [x] = Some (1, ?R)"
        using reconstruct_p_ok [OF ok x(1,2) [unfolded f_def] D] x(3) ok_parity [OF f0] R by (simp add: f_def)
      then show ?thesis using unfold one False f0 by (simp add: tgts_def)
    next
      case 0: True
      have f1: "1 < f" using bad_parity [of "{0}"] 0 f0 one by simp
      show ?thesis
      proof (cases "1 \<in> set tgts")
        case False
        then have "vdev_raidz_reconstruct_q (with_data D rm) [x] = Some (2, ?R)"
          using reconstruct_q_ok [OF ok x(1,2) [unfolded f_def] f1 [unfolded f_def] D] x(3) ok_parity [OF f1] R by (simp add: f_def)
        then show ?thesis using unfold one 0 False f1 by (simp add: tgts_def)
      next
        case True
        then have "2 < f" using bad_parity [of "{0, 1}"] 0 f1 one by simp
        then show ?thesis using unfold one 0 True f1 gen_ok by (simp add: tgts_def)
      qed
    qed
  next
    case (two x y)
    have f1: "1 < f" using bad_parity [of "{}"] two by simp
    have x: "f \<le> x" "x < y" "y < rm_cols rm" "\<And>c. f \<le> c \<Longrightarrow> c < rm_cols rm \<Longrightarrow> c \<noteq> x \<Longrightarrow> c \<noteq> y \<Longrightarrow> D c = T c"
      using bd(1,2) two ok_data by auto
    have R: "D(x := T x, y := T y) = restored rm tgts T D" unfolding restored two by auto
    show ?thesis
    proof (cases "0 \<in> set tgts \<or> 1 \<in> set tgts")
      case False
      then have "vdev_raidz_reconstruct_pq alloc (with_data D rm) [x, y] = Some (3, ?R)"
        using reconstruct_pq_ok [OF ok x(1-3) [unfolded f_def] f1 [unfolded f_def] D] x(4) ok_parity [OF f0] ok_parity [OF f1] alloc R by (simp add: f_def)
      then show ?thesis using unfold two False f1 by (simp add: tgts_def)
    next
      case True
      then have "2 < f" using bad_parity [of "{0}"] bad_parity [of "{1}"] f1 two by auto
      then show ?thesis using unfold two True f1 gen_ok by (auto simp: tgts_def)
    qed
  qed
qed

end
