(* ===== verification/RaidzMap.thy ===== *)
theory RaidzMap
  imports RaidzRecover "HOL-Library.Multiset"
begin

text \<open>
  The map that \<open>vdev_raidz_map_alloc\<close> makes of an I/O: on natural numbers, without wrap-around for I/Os below
  \<open>2 ^ 58\<close> bytes, well-formed in the sense of the other RAID-Z theories, and as large as \<open>vdev_raidz_asize\<close> says.
\<close>

section \<open>The sizes, on natural numbers\<close>

definition raidz_bc :: "nat \<Rightarrow> nat \<Rightarrow> nat \<Rightarrow> nat" where
  "raidz_bc S d p = (if S mod (d - p) = 0 then 0 else S mod (d - p) + p)"

definition raidz_tot :: "nat \<Rightarrow> nat \<Rightarrow> nat \<Rightarrow> nat" where
  "raidz_tot S d p = S + p * (S div (d - p) + (if S mod (d - p) = 0 then 0 else 1))"

definition rup :: "nat \<Rightarrow> nat \<Rightarrow> nat" where
  "rup x y = (x + (y - 1)) div y * y"

definition raidz_acols :: "nat \<Rightarrow> nat \<Rightarrow> nat \<Rightarrow> nat" where
  "raidz_acols S d p = (if S div (d - p) = 0 then raidz_bc S d p else d)"

definition raidz_scols :: "nat \<Rightarrow> nat \<Rightarrow> nat \<Rightarrow> nat" where
  "raidz_scols S d p = (if S div (d - p) = 0 then min d (rup (raidz_bc S d p) (p + 1)) else d)"

definition raidz_units :: "nat \<Rightarrow> nat \<Rightarrow> nat \<Rightarrow> nat \<Rightarrow> nat" where
  "raidz_units S d p c = (if c \<ge> raidz_acols S d p then 0 else if c < raidz_bc S d p then S div (d - p) + 1 else S div (d - p))"

lemma rup_bounds:
  assumes "0 < y"
  shows "x \<le> rup x y" "rup x y < x + y" "y dvd rup x y"
proof -
  have "rup x y + (x + (y - 1)) mod y = x + (y - 1)" by (simp add: rup_def)
  moreover have "(x + (y - 1)) mod y < y" using assms by simp
  ultimately show "x \<le> rup x y" "rup x y < x + y" using assms by linarith+
  show "y dvd rup x y" by (simp add: rup_def)
qed

lemma rup_scale:
  assumes "0 < u" "0 < y"
  shows "rup (x * u) (y * u) = rup x y * u"
proof -
  have "(x * u + (y * u - 1)) div u = x + (y - 1)"
  proof (rule div_nat_eqI)
    show "u * (x + (y - 1)) \<le> x * u + (y * u - 1)" using assms by (cases u; cases y) (auto simp: algebra_simps)
    show "x * u + (y * u - 1) < u * Suc (x + (y - 1))" using assms by (cases u; cases y) (auto simp: algebra_simps)
  qed
  then have "(x * u + (y * u - 1)) div (y * u) = (x + (y - 1)) div y" by (metis div_mult2_eq mult.commute)
  then show ?thesis by (simp add: rup_def)
qed

lemma raidz_cols_bounds:
  assumes "0 < p" "p < d" "0 < S"
  shows "p < raidz_acols S d p" "raidz_acols S d p \<le> raidz_scols S d p" "raidz_scols S d p \<le> d" "raidz_bc S d p \<le> raidz_acols S d p" "raidz_bc S d p < d"
    "raidz_bc S d p = 0 \<or> p < raidz_bc S d p" "S div (d - p) = 0 \<Longrightarrow> raidz_bc S d p = S + p"
proof -
  have r: "S mod (d - p) < d - p" using assms by simp
  show q0: "S div (d - p) = 0 \<Longrightarrow> raidz_bc S d p = S + p" using assms by (simp add: div_eq_0_iff raidz_bc_def)
  have "S mod (d - p) + p < d" using r assms(2) by linarith
  then show bc: "raidz_bc S d p < d" using assms(2) by (simp add: raidz_bc_def)
  then show "raidz_bc S d p \<le> raidz_acols S d p" by (simp add: raidz_acols_def)
  show "raidz_bc S d p = 0 \<or> p < raidz_bc S d p" by (auto simp: raidz_bc_def)
  show "p < raidz_acols S d p" using q0 assms by (simp add: raidz_acols_def)
  show "raidz_acols S d p \<le> raidz_scols S d p" using bc rup_bounds(1) [of "p + 1" "raidz_bc S d p"] by (simp add: raidz_acols_def raidz_scols_def)
  show "raidz_scols S d p \<le> d" by (simp add: raidz_scols_def)
qed

lemma sum_two_parts: "m \<le> n \<Longrightarrow> a \<le> n \<Longrightarrow> (\<Sum>c\<in>{m..<n}. if c < a then x + 1 else x) = (n - m) * x + (a - m :: nat)"
proof -
  assume "m \<le> n" "a \<le> n"
  then have "{m..<n} \<inter> {c. c < a} = {m..<a}" by auto
  then have "(\<Sum>c\<in>{m..<n}. if c < a then 1 else 0) = a - m" by (simp add: sum.If_cases)
  moreover have "(\<Sum>c\<in>{m..<n}. if c < a then x + 1 else x) = (\<Sum>c\<in>{m..<n}. x + (if c < a then 1 else 0))" by (intro sum.cong) auto
  ultimately show ?thesis by (simp add: sum.distrib)
qed

lemma raidz_units_sum:
  assumes "0 < p" "p < d" "0 < S"
  shows "(\<Sum>c<raidz_scols S d p. raidz_units S d p c) = raidz_tot S d p" "(\<Sum>c\<in>{p..<raidz_acols S d p}. raidz_units S d p c) = S"
proof -
  note b = raidz_cols_bounds [OF assms]
  let ?q = "S div (d - p)" and ?bc = "raidz_bc S d p" and ?a = "raidz_acols S d p"
  have part: "(\<Sum>c\<in>{m..<?a}. raidz_units S d p c) = (?a - m) * ?q + (?bc - m)" if "m \<le> ?a" for m
    using sum_two_parts [OF that b(4), of ?q] by (simp add: raidz_units_def)
  have S: "?q * (d - p) + S mod (d - p) = S" by (rule div_mult_mod_eq)
  have dq: "d * ?q = ?q * (d - p) + p * ?q" using assms(2) by (simp add: algebra_simps flip: distrib_left)
  have "(\<Sum>c<raidz_scols S d p. raidz_units S d p c) = (\<Sum>c\<in>{0..<?a}. raidz_units S d p c)"
    using b(2) by (intro sum.mono_neutral_right) (auto simp: raidz_units_def)
  also have "\<dots> = raidz_tot S d p"
  proof (cases "?q = 0")
    case True
    then have "S mod (d - p) = S" using S by simp
    then show ?thesis using part [of 0] True b(7) assms(3) by (simp add: raidz_tot_def)
  next
    case False
    have "d * ?q + ?bc = raidz_tot S d p" unfolding dq using S by (simp add: raidz_tot_def raidz_bc_def algebra_simps)
    then show ?thesis using part [of 0] False by (simp add: raidz_acols_def)
  qed
  finally show "(\<Sum>c<raidz_scols S d p. raidz_units S d p c) = raidz_tot S d p" .
  show "(\<Sum>c\<in>{p..<?a}. raidz_units S d p c) = S"
  proof (cases "?q = 0")
    case True
    then show ?thesis using part [of p] b(1,7) by simp
  next
    case False
    then show ?thesis using part [of p] b(1) S by (auto simp: raidz_acols_def raidz_bc_def mult.commute)
  qed
qed


section \<open>From words to natural numbers\<close>

lemma unat_u64: "a < 2 ^ 64 \<Longrightarrow> unat (of_nat a :: u64) = a"
  by (simp add: unat_of_nat)

lemma of_nat_div_u64: "a < 2 ^ 64 \<Longrightarrow> b < 2 ^ 64 \<Longrightarrow> (of_nat a :: u64) div of_nat b = of_nat (a div b)"
  by (simp add: word_arith_nat_div unat_of_nat)

lemma of_nat_mod_u64: "a < 2 ^ 64 \<Longrightarrow> b < 2 ^ 64 \<Longrightarrow> (of_nat a :: u64) mod of_nat b = of_nat (a mod b)"
  by (simp add: word_arith_nat_mod unat_of_nat)

lemma of_nat_eq_u64: "a < 2 ^ 64 \<Longrightarrow> b < 2 ^ 64 \<Longrightarrow> (of_nat a :: u64) = of_nat b \<longleftrightarrow> a = b"
  by (simp add: word_unat_eq_iff unat_of_nat)

lemma of_nat_less_u64: "a < 2 ^ 64 \<Longrightarrow> b < 2 ^ 64 \<Longrightarrow> (of_nat a :: u64) < of_nat b \<longleftrightarrow> a < b"
  by (simp add: word_less_nat_alt unat_of_nat)

lemma of_nat_le_u64: "a < 2 ^ 64 \<Longrightarrow> b < 2 ^ 64 \<Longrightarrow> (of_nat a :: u64) \<le> of_nat b \<longleftrightarrow> a \<le> b"
  by (simp add: word_le_nat_alt unat_of_nat)

lemma roundup_of_nat:
  assumes "x + y < 2 ^ 64" "0 < y"
  shows "roundup (of_nat x) (of_nat y) = of_nat (rup x y)"
proof -
  have "(of_nat x :: u64) + (of_nat y - 1) = of_nat (x + (y - 1))" using assms(2) by (simp add: of_nat_diff)
  moreover have "(of_nat (x + (y - 1)) :: u64) div of_nat y = of_nat ((x + (y - 1)) div y)" using assms by (intro of_nat_div_u64) auto
  ultimately show ?thesis unfolding roundup_def rup_def by (simp only: of_nat_mult)
qed

lemma push_bit_u64: "push_bit k (of_nat x :: u64) = of_nat (x * 2 ^ k)"
  by (simp add: push_bit_eq_mult)

lemma drop_bit_u64: "x < 2 ^ 64 \<Longrightarrow> k < 64 \<Longrightarrow> drop_bit k (of_nat x :: u64) = of_nat (x div 2 ^ k)"
  using of_nat_div_u64 [of x "2 ^ k"] power_strict_increasing [of k 64 "2 :: nat"] by (simp add: drop_bit_eq_div)

section \<open>Columns\<close>

lemma length_share_data [simp]: "length (share_data d cs) = length cs"
  by (induction cs arbitrary: d) auto

lemma share_data_nth:
  "i < length cs \<Longrightarrow> share_data d cs ! i = (cs ! i)\<lparr>rc_data := take (rc_size (cs ! i)) (drop (sum_list (map rc_size (take i cs))) d)\<rparr>"
proof (induction cs arbitrary: d i)
  case (Cons rc cs)
  then show ?case by (cases i) (auto simp: add.commute)
qed simp

lemma share_data_concat: "concat (map rc_data (share_data d cs)) = take (sum_list (map rc_size cs)) d"
  by (induction cs arbitrary: d) (auto simp: take_add)

lemma share_data_size: "map rc_size (share_data d cs) = map rc_size cs"
  by (induction cs arbitrary: d) auto

lemma share_data_full: "sum_list (map rc_size cs) \<le> length d \<Longrightarrow> rc \<in> set (share_data d cs) \<Longrightarrow> length (rc_data rc) = rc_size rc"
proof (induction cs arbitrary: d)
  case (Cons c cs)
  then show ?case using Cons.IH [of "drop (rc_size c) d"] by auto
qed simp

lemma swap_first_simps:
  assumes "2 \<le> length cs"
  shows "length (swap_first cs) = length cs" "map rc_size (swap_first cs) = map rc_size cs" "map rc_data (swap_first cs) = map rc_data cs"
    "map rc_error (swap_first cs) = map rc_error cs" "mset (map rc_devidx (swap_first cs)) = mset (map rc_devidx cs)"
proof -
  obtain a b r where "cs = a # b # r" using assms by (cases cs rule: remdups_adj.cases) auto
  then show "length (swap_first cs) = length cs" "map rc_size (swap_first cs) = map rc_size cs" "map rc_data (swap_first cs) = map rc_data cs"
    "map rc_error (swap_first cs) = map rc_error cs" "mset (map rc_devidx (swap_first cs)) = mset (map rc_devidx cs)"
    by (auto simp: swap_first_def)
qed


lemma map_col_ok:
  assumes "c < d" "F < d" "d < 2 ^ 32" "a < 2 ^ 64" "bc < 2 ^ 64" "(q + 1) * 2 ^ sh < 2 ^ 64"
  shows "rc_devidx (map_col sh (of_nat d) (of_nat F) off (of_nat q) (of_nat bc) (of_nat a) (of_nat c)) = (F + c) mod d"
    "rc_size (map_col sh (of_nat d) (of_nat F) off (of_nat q) (of_nat bc) (of_nat a) (of_nat c)) = (if c \<ge> a then 0 else if c < bc then q + 1 else q) * 2 ^ sh"
    "rc_error (map_col sh (of_nat d) (of_nat F) off (of_nat q) (of_nat bc) (of_nat a) (of_nat c)) = 0"
proof -
  have c: "c < 2 ^ 64" "F + c < 2 ^ 64" "d < 2 ^ 64" using assms(1-3) by simp_all
  have e: "(of_nat F :: u64) + of_nat c \<ge> of_nat d \<longleftrightarrow> d \<le> F + c" "(of_nat c :: u64) \<ge> of_nat a \<longleftrightarrow> a \<le> c" "(of_nat c :: u64) < of_nat bc \<longleftrightarrow> c < bc"
    using of_nat_le_u64 [OF c(3,2)] of_nat_le_u64 [OF assms(4) c(1)] of_nat_less_u64 [OF c(1) assms(5)] by simp_all
  have m: "(F + c) mod d = (if d \<le> F + c then F + c - d else F + c)" using assms(1,2) by (simp add: le_mod_geq)
  have dev: "unat ((of_nat F :: u64) + of_nat c - of_nat d) = F + c - d" if "d \<le> F + c"
    using that c unat_u64 [of "F + c - d"] by (simp add: of_nat_diff)
  have dev': "unat ((of_nat F :: u64) + of_nat c) = F + c" using c unat_u64 [of "F + c"] by simp
  have "q * 2 ^ sh < 2 ^ 64" using assms(6) by simp
  then have z: "unat (push_bit sh (of_nat q :: u64)) = q * 2 ^ sh" "unat (push_bit sh (of_nat q + 1 :: u64)) = (q + 1) * 2 ^ sh"
    using assms(6) push_bit_u64 [of sh q] push_bit_u64 [of sh "q + 1"] unat_u64 [of "q * 2 ^ sh"] unat_u64 [of "(q + 1) * 2 ^ sh"] by (simp_all add: add.commute)
  show "rc_devidx (map_col sh (of_nat d) (of_nat F) off (of_nat q) (of_nat bc) (of_nat a) (of_nat c)) = (F + c) mod d"
    unfolding map_col_def Let_def e m using dev dev' by simp
  show "rc_size (map_col sh (of_nat d) (of_nat F) off (of_nat q) (of_nat bc) (of_nat a) (of_nat c)) = (if c \<ge> a then 0 else if c < bc then q + 1 else q) * 2 ^ sh"
    unfolding map_col_def Let_def e using z by (simp split: prod.split)
  show "rc_error (map_col sh (of_nat d) (of_nat F) off (of_nat q) (of_nat bc) (of_nat a) (of_nat c)) = 0"
    by (simp add: map_col_def Let_def split: prod.split)
qed

section \<open>The map\<close>

definition map_cols0 :: "nat \<Rightarrow> nat \<Rightarrow> nat \<Rightarrow> u64 \<Rightarrow> nat \<Rightarrow> raidz_col list" where
  "map_cols0 S d p io_offset sh = map (\<lambda>c. map_col sh (of_nat d) (of_nat (unat (drop_bit sh io_offset) mod d)) (push_bit sh (drop_bit sh io_offset div of_nat d))
     (of_nat (S div (d - p))) (of_nat (raidz_bc S d p)) (of_nat (raidz_acols S d p)) (of_nat c)) [0..<raidz_scols S d p]"

definition map_cols :: "(nat \<Rightarrow> byte list) \<Rightarrow> byte list \<Rightarrow> nat \<Rightarrow> nat \<Rightarrow> nat \<Rightarrow> u64 \<Rightarrow> nat \<Rightarrow> raidz_col list" where
  "map_cols alloc data S d p io_offset sh = (let cols = map_cols0 S d p io_offset sh in
     map (\<lambda>rc. rc\<lparr>rc_data := alloc (rc_size rc)\<rparr>) (take p cols) @ share_data data (drop p cols))"

lemma map_cols0_simps:
  assumes "0 < p" "p < d" "d < 2 ^ 32" "0 < S" "S < 2 ^ 58" "(S + 1) * 2 ^ sh < 2 ^ 60"
  shows "length (map_cols0 S d p off sh) = raidz_scols S d p" "map rc_size (map_cols0 S d p off sh) = map (\<lambda>c. raidz_units S d p c * 2 ^ sh) [0..<raidz_scols S d p]"
    "map rc_devidx (map_cols0 S d p off sh) = map (\<lambda>c. (unat (drop_bit sh off) mod d + c) mod d) [0..<raidz_scols S d p]"
    "map rc_error (map_cols0 S d p off sh) = map (\<lambda>c. 0) [0..<raidz_scols S d p]"
proof -
  note b = raidz_cols_bounds [OF assms(1,2,4)]
  have "(S div (d - p) + 1) * 2 ^ sh \<le> (S + 1) * 2 ^ sh" by simp
  also note assms(6)
  also have "(2 :: nat) ^ 60 < 2 ^ 64" by simp
  finally have "(S div (d - p) + 1) * 2 ^ sh < 2 ^ 64" .
  moreover have "raidz_acols S d p < 2 ^ 64" "raidz_bc S d p < 2 ^ 64" using b(2,3,5) assms(3) by auto
  moreover have "unat (drop_bit sh off) mod d < d" using assms by simp
  ultimately show "length (map_cols0 S d p off sh) = raidz_scols S d p" "map rc_size (map_cols0 S d p off sh) = map (\<lambda>c. raidz_units S d p c * 2 ^ sh) [0..<raidz_scols S d p]"
    "map rc_devidx (map_cols0 S d p off sh) = map (\<lambda>c. (unat (drop_bit sh off) mod d + c) mod d) [0..<raidz_scols S d p]"
    "map rc_error (map_cols0 S d p off sh) = map (\<lambda>c. 0) [0..<raidz_scols S d p]"
    using b(3) assms(3) unfolding map_cols0_def map_map o_def by (auto intro!: map_cong simp: map_col_ok raidz_units_def)
qed


lemma map_cols_parts:
  assumes "\<And>rc x. g (rc\<lparr>rc_data := x\<rparr>) = g rc"
  shows "map g (map_cols alloc data S d p off sh) = map g (map_cols0 S d p off sh)"
proof -
  have "map g (share_data data cs) = map g cs" for cs using assms by (intro nth_equalityI) (auto simp: share_data_nth)
  then show ?thesis unfolding map_cols_def Let_def map_append map_map o_def assms by (simp flip: map_append)
qed

lemma map_cols_simps:
  assumes "0 < p" "p < d" "d < 2 ^ 32" "0 < S" "S < 2 ^ 58" "(S + 1) * 2 ^ sh < 2 ^ 60" and data: "length data = S * 2 ^ sh" "\<And>n. length (alloc n) = n"
  shows "length (map_cols alloc data S d p off sh) = raidz_scols S d p"
    "map rc_size (map_cols alloc data S d p off sh) = map (\<lambda>c. raidz_units S d p c * 2 ^ sh) [0..<raidz_scols S d p]"
    "map rc_devidx (map_cols alloc data S d p off sh) = map (\<lambda>c. (unat (drop_bit sh off) mod d + c) mod d) [0..<raidz_scols S d p]"
    "map rc_error (map_cols alloc data S d p off sh) = map (\<lambda>c. 0) [0..<raidz_scols S d p]"
    "\<forall>rc\<in>set (map_cols alloc data S d p off sh). length (rc_data rc) = rc_size rc"
    "concat (map rc_data (drop p (map_cols alloc data S d p off sh))) = data"
proof -
  note m = map_cols0_simps [OF assms(1-6), of off] and b = raidz_cols_bounds [OF assms(1,2,4)]
  let ?c0 = "map_cols0 S d p off sh"
  have p: "p \<le> length ?c0" using b(1,2) m(1) by simp
  show len: "length (map_cols alloc data S d p off sh) = raidz_scols S d p" using m(1) p by (simp add: map_cols_def Let_def)
  show "map rc_error (map_cols alloc data S d p off sh) = map (\<lambda>c. 0) [0..<raidz_scols S d p]" using map_cols_parts [of rc_error] m(4) by simp
  show "map rc_size (map_cols alloc data S d p off sh) = map (\<lambda>c. raidz_units S d p c * 2 ^ sh) [0..<raidz_scols S d p]"
    "map rc_devidx (map_cols alloc data S d p off sh) = map (\<lambda>c. (unat (drop_bit sh off) mod d + c) mod d) [0..<raidz_scols S d p]"
    using map_cols_parts [of rc_size] map_cols_parts [of rc_devidx] m(2,3) by simp_all
  have "sum_list (map rc_size (drop p ?c0)) = S * 2 ^ sh"
  proof -
    have "sum_list (map rc_size (drop p ?c0)) = (\<Sum>c\<in>{p..<raidz_scols S d p}. raidz_units S d p c * 2 ^ sh)"
      unfolding drop_map [symmetric] m(2) by (simp add: drop_map interv_sum_list_conv_sum_set_nat)
    also have "\<dots> = (\<Sum>c\<in>{p..<raidz_acols S d p}. raidz_units S d p c) * 2 ^ sh"
      unfolding sum_distrib_right using b(2) by (intro sum.mono_neutral_right) (auto simp: raidz_units_def)
    finally show ?thesis using raidz_units_sum(2) [OF assms(1,2,4)] by simp
  qed
  then show "\<forall>rc\<in>set (map_cols alloc data S d p off sh). length (rc_data rc) = rc_size rc" "concat (map rc_data (drop p (map_cols alloc data S d p off sh))) = data"
    using data p share_data_full [of "drop p ?c0" data] share_data_concat [of data "drop p ?c0"] by (auto simp: map_cols_def Let_def)
qed


lemma map_alloc_eq:
  fixes off :: u64
  assumes p: "0 < p" "p < d" "d < 2 ^ 32" and S: "0 < S" "S < 2 ^ 58" "(S + 1) * 2 ^ sh < 2 ^ 60" "p * (S + 1) * 2 ^ sh < 2 ^ 60" "sh < 32"
    and data: "length data = S * 2 ^ sh" "\<And>n. length (alloc n) = n"
  defines "cols \<equiv> map_cols alloc data S d p off sh"
  defines "swapped \<equiv> p = 1 \<and> off AND push_bit 20 1 \<noteq> 0"
  shows "vdev_raidz_map_alloc alloc off (of_nat (S * 2 ^ sh)) data sh (of_nat d) (of_nat p) =
    Some \<lparr>rm_cols = raidz_acols S d p, rm_scols = raidz_scols S d p, rm_bigcols = raidz_bc S d p, rm_asize = of_nat (rup (raidz_tot S d p) (p + 1) * 2 ^ sh),
      rm_missingdata = 0, rm_missingparity = 0, rm_firstdatacol = p, rm_nskip = rup (raidz_tot S d p) (p + 1) - raidz_tot S d p,
      rm_skipstart = (if swapped \<and> raidz_bc S d p = 0 then 1 else raidz_bc S d p), rm_col = (if swapped then swap_first cols else cols)\<rparr>"
proof -
  note b = raidz_cols_bounds [OF p(1,2) S(1)] and m = map_cols_simps [OF p S(1-3) data, of off]
  let ?q = "S div (d - p)" and ?r = "S mod (d - p)" and ?bc = "raidz_bc S d p" and ?tot = "raidz_tot S d p" and ?a = "raidz_acols S d p" and ?sc = "raidz_scols S d p"
  have lt: "d < 2 ^ 64" "p < 2 ^ 64" "d - p < 2 ^ 64" "S < 2 ^ 64" "?q < 2 ^ 64" "?r < 2 ^ 64" "?bc < 2 ^ 64" "?a < 2 ^ 64" "?sc < 2 ^ 64" "?bc + (p + 1) < 2 ^ 64"
    using p S(2) b(2-5) le_less_trans [OF div_le_dividend [of S "d - p"], of "2 ^ 64"] le_less_trans [OF mod_less_eq_dividend [of S "d - p"], of "2 ^ 64"] by simp_all
  have Su: "S * 2 ^ sh < 2 ^ 64" using S(3) by simp
  have e1: "drop_bit sh (of_nat (S * 2 ^ sh) :: u64) = of_nat S" using drop_bit_u64 [OF Su] S(5) by simp
  have e2: "(of_nat d :: u64) - of_nat p = of_nat (d - p)" using p(2) by (simp add: of_nat_diff)
  have e3: "(of_nat S :: u64) div of_nat (d - p) = of_nat ?q" by (rule of_nat_div_u64) (fact lt)+
  have e4: "(of_nat S :: u64) - of_nat ?q * of_nat (d - p) = of_nat ?r"
  proof -
    have "S - ?q * (d - p) = ?r" by (simp add: minus_div_mult_eq_mod)
    moreover have "?q * (d - p) \<le> S" by (simp add: div_times_less_eq_dividend)
    ultimately show ?thesis by (metis of_nat_diff of_nat_mult)
  qed
  have e5: "((of_nat ?r :: u64) = 0) = (?r = 0)" "((of_nat ?q :: u64) = 0) = (?q = 0)" "((of_nat ?bc :: u64) = 0) = (?bc = 0)" "((of_nat p :: u64) = 1) = (p = 1)"
    using of_nat_eq_u64 [OF lt(6), of 0] of_nat_eq_u64 [OF lt(5), of 0] of_nat_eq_u64 [OF lt(7), of 0] of_nat_eq_u64 [OF lt(2), of 1] by simp_all
  have e6: "(if ?r = 0 then 0 else of_nat ?r + of_nat p :: u64) = of_nat ?bc" by (simp add: raidz_bc_def)
  have e7: "(of_nat S :: u64) + of_nat p * (of_nat ?q + (if ?r = 0 then 0 else 1)) = of_nat ?tot" by (simp add: raidz_tot_def)
  have e8: "(of_nat p :: u64) + 1 = of_nat (p + 1)" by simp
  have e9: "(if ?q = 0 then (of_nat ?bc :: u64, min (of_nat d) (roundup (of_nat ?bc) (of_nat (p + 1)))) else (of_nat d, of_nat d)) = (of_nat ?a, of_nat ?sc)"
  proof -
    have "rup ?bc (p + 1) < 2 ^ 64" using rup_bounds(2) [of "p + 1" ?bc] lt(10) by linarith
    then have "min (of_nat d :: u64) (of_nat (rup ?bc (p + 1))) = of_nat (min d (rup ?bc (p + 1)))" using of_nat_le_u64 [OF lt(1), of "rup ?bc (p + 1)"] by (simp add: min_def)
    then show ?thesis using roundup_of_nat [OF lt(10)] by (simp add: raidz_acols_def raidz_scols_def)
  qed
  have e10: "drop_bit sh off mod of_nat d = of_nat (unat (drop_bit sh off) mod d)" using lt(1) by (simp add: word_arith_nat_mod unat_of_nat)
  have tot: "?tot * 2 ^ sh + (p + 1) * 2 ^ sh < 2 ^ 63" "?tot + (p + 1) < 2 ^ 64" "?tot < 2 ^ 64"
  proof -
    have "p * (?q + (if ?r = 0 then 0 else 1)) \<le> p * (S + 1)" using le_SucI [OF div_le_dividend [of S "d - p"]] by (intro mult_le_mono2) auto
    then have "?tot \<le> S + p * (S + 1)" by (simp add: raidz_tot_def)
    then have "?tot * 2 ^ sh \<le> (S + p * (S + 1)) * 2 ^ sh" by (rule mult_le_mono1)
    also have "\<dots> = S * 2 ^ sh + p * (S + 1) * 2 ^ sh" by (simp add: algebra_simps)
    also have "\<dots> < 2 ^ 61" using S(3,4) by simp
    finally have t: "?tot * 2 ^ sh < 2 ^ 61" .
    have "p * 2 ^ sh \<le> p * (S + 1) * 2 ^ sh" "2 ^ sh \<le> (S + 1) * 2 ^ sh" by simp_all
    from le_less_trans [OF this(1) S(4)] le_less_trans [OF this(2) S(3)]
    have u: "(p + 1) * 2 ^ sh < 2 ^ 61" by simp
    show w: "?tot * 2 ^ sh + (p + 1) * 2 ^ sh < 2 ^ 63" using t u by simp
    have "?tot + (p + 1) \<le> (?tot + (p + 1)) * 2 ^ sh" using mult_le_mono2 [of 1 "2 ^ sh" "?tot + (p + 1)"] by (simp only: mult_1_right one_le_power)
    then show "?tot + (p + 1) < 2 ^ 64" using w by (simp add: algebra_simps)
    then show "?tot < 2 ^ 64" by simp
  qed
  have cols0: "map (\<lambda>c. map_col sh (of_nat d) (of_nat (unat (drop_bit sh off) mod d)) (push_bit sh (drop_bit sh off div of_nat d)) (of_nat ?q) (of_nat ?bc) (of_nat ?a) (of_nat c)) [0..<?sc] = map_cols0 S d p off sh"
    by (simp add: map_cols0_def)
  have cols: "map (\<lambda>rc. rc\<lparr>rc_data := alloc (rc_size rc)\<rparr>) (take p (map_cols0 S d p off sh)) @ share_data data (drop p (map_cols0 S d p off sh)) = cols"
    by (simp add: cols_def map_cols_def Let_def)
  have asize: "(of_nat (sum_list (map rc_size (map_cols0 S d p off sh))) :: u64) = of_nat (?tot * 2 ^ sh)"
    unfolding map_cols0_simps(2) [OF p S(1-3)] using raidz_units_sum(1) [OF p(1,2) S(1)]
    by (simp add: interv_sum_list_conv_sum_set_nat atLeast0LessThan flip: sum_distrib_right of_nat_mult)
  have r1: "roundup (of_nat (?tot * 2 ^ sh)) (push_bit sh (of_nat (p + 1))) = of_nat (rup ?tot (p + 1) * 2 ^ sh)"
    unfolding push_bit_u64 using roundup_of_nat [of "?tot * 2 ^ sh" "(p + 1) * 2 ^ sh"] tot(1) rup_scale [of "2 ^ sh" "p + 1" ?tot] by simp
  have r2: "roundup (of_nat ?tot) (of_nat (p + 1)) - of_nat ?tot = of_nat (rup ?tot (p + 1) - ?tot)"
    using roundup_of_nat [OF tot(2)] rup_bounds(1) [of "p + 1" ?tot] by (simp add: of_nat_diff)
  have skip: "rup ?tot (p + 1) - ?tot \<le> p" "rup ?tot (p + 1) - ?tot < 2 ^ 64" using rup_bounds(2) [of "p + 1" ?tot] lt(2) by auto
  have u: "unat (of_nat ?sc :: u64) = ?sc" "unat (of_nat ?a :: u64) = ?a" "unat (of_nat ?bc :: u64) = ?bc" "unat (of_nat p :: u64) = p"
    "unat (of_nat (rup ?tot (p + 1) - ?tot) :: u64) = rup ?tot (p + 1) - ?tot" by (rule unat_u64, fact)+
  have z: "(of_nat d :: u64) \<noteq> 0" "(of_nat (d - p) :: u64) \<noteq> 0" "(of_nat (p + 1) :: u64) \<noteq> 0"
    using of_nat_eq_u64 [OF lt(1), of 0] of_nat_eq_u64 [OF lt(3), of 0] of_nat_eq_u64 [of "p + 1" 0] p by auto
  have c1: "(of_nat ?a :: u64) \<le> of_nat ?sc" using of_nat_le_u64 [OF lt(8,9)] b(2) by simp
  have c2: "(of_nat (rup ?tot (p + 1) * 2 ^ sh) :: u64) - of_nat (?tot * 2 ^ sh) = push_bit sh (of_nat (rup ?tot (p + 1) - ?tot))"
    unfolding push_bit_u64 using rup_bounds(1) [of "p + 1" ?tot] by (simp add: of_nat_diff algebra_simps)
  have c3: "(of_nat (rup ?tot (p + 1) - ?tot) :: u64) \<le> of_nat p" using of_nat_le_u64 [OF skip(2) lt(2)] skip(1) by simp
  have c4: "(2 :: u64) \<le> of_nat ?a" using of_nat_le_u64 [of 2 ?a] lt(8) b(1) p(1) by simp
  have c5: "rc_size (cols ! 0) = rc_size (cols ! 1)"
  proof -
    have l: "0 < length cols" "1 < length cols" using m(1) b(1,2) p(1) by (auto simp: cols_def)
    have sz: "rc_size (cols ! c) = raidz_units S d p c * 2 ^ sh" if "c < length cols" for c
      using that m(1) m(2) [THEN arg_cong, of "\<lambda>xs. xs ! c"] by (simp add: cols_def)
    show ?thesis unfolding sz [OF l(1)] sz [OF l(2)] using b(1,6) p(1) by (auto simp: raidz_units_def)
  qed
  show ?thesis
    unfolding vdev_raidz_map_alloc_def e1 e2 Let_def e3 e4 e5 e6 e7 e8 e9 prod.case e10 u cols0 asize r1 r2 e5 cols swapped_def [symmetric]
    using z c1 c2 c3 c4 c5 b(1,2) by (simp add: push_bit_u64 u)
qed


lemma raidz_tot_ceil: "p < d \<Longrightarrow> 0 < S \<Longrightarrow> raidz_tot S d p = S + p * ((S + d - p - 1) div (d - p))"
proof -
  assume a: "p < d" "0 < S"
  define D where "D = d - p"
  have D: "0 < D" using a by (simp add: D_def)
  have "(S + d - p - 1) div D = S div D + (if S mod D = 0 then 0 else 1)"
  proof -
    have "S + d - p - 1 = S div D * D + (S mod D + (D - 1))" using a div_mult_mod_eq [of S D] unfolding D_def by linarith
    then have "(S + d - p - 1) div D = S div D + (S mod D + (D - 1)) div D" using D by (simp only: div_mult_self3 neq0_conv)
    moreover have "(S mod D + (D - 1)) div D = (if S mod D = 0 then 0 else 1)"
    proof (cases "S mod D = 0")
      case False
      have "S mod D < D" using D by simp
      moreover have "(r + (D - 1)) div D = 1" if "r < D" "r \<noteq> 0" for r using that by (intro div_nat_eqI) auto
      ultimately have "(S mod D + (D - 1)) div D = 1" using False by blast
      then show ?thesis using False by simp
    qed (use D in simp)
    ultimately show ?thesis by simp
  qed
  then show ?thesis by (simp add: raidz_tot_def D_def)
qed

lemma asize_eq:
  assumes p: "0 < p" "p < d" "d < 2 ^ 32" and S: "0 < S" "S < 2 ^ 58" "(S + 1) * 2 ^ sh < 2 ^ 60" "p * (S + 1) < 2 ^ 60" "sh < 32"
  shows "vdev_raidz_asize sh (of_nat d) (of_nat p) (of_nat (S * 2 ^ sh)) = of_nat (rup (raidz_tot S d p) (p + 1) * 2 ^ sh)"
proof -
  have pos: "0 < S * 2 ^ sh" using S by simp
  have e1: "(of_nat (S * 2 ^ sh) :: u64) - 1 = of_nat (S * 2 ^ sh - 1)" using pos by (simp add: of_nat_diff)
  have "(S * 2 ^ sh - 1) div 2 ^ sh = S - 1" using pos S(1) by (intro div_nat_eqI) (auto simp: algebra_simps intro: diff_le_mono2)
  then have e2: "drop_bit sh (of_nat (S * 2 ^ sh - 1) :: u64) + 1 = of_nat S" using drop_bit_u64 [of "S * 2 ^ sh - 1" sh] S by (simp add: of_nat_diff)
  have e3: "(of_nat S :: u64) + of_nat d - of_nat p - 1 = of_nat (S + d - p - 1)" using p S by (simp add: of_nat_diff)
  have e4: "(of_nat d :: u64) - of_nat p = of_nat (d - p)" using p by (simp add: of_nat_diff)
  have e5: "(of_nat (S + d - p - 1) :: u64) div of_nat (d - p) = of_nat ((S + d - p - 1) div (d - p))" using p S by (intro of_nat_div_u64) simp_all
  have e6: "(of_nat S :: u64) + of_nat p * of_nat ((S + d - p - 1) div (d - p)) = of_nat (raidz_tot S d p)" using raidz_tot_ceil [OF p(2) S(1)] by simp
  have e7: "(of_nat p :: u64) + 1 = of_nat (p + 1)" by simp
  have "raidz_tot S d p \<le> S + p * (S + 1)"
    unfolding raidz_tot_def using le_SucI [OF div_le_dividend [of S "d - p"]] by (intro add_mono mult_le_mono2) auto
  then have "raidz_tot S d p + (p + 1) < 2 ^ 64" using S p by simp
  from roundup_of_nat [OF this] show ?thesis unfolding vdev_raidz_asize_def Let_def e1 e2 e3 e4 e5 e6 e7 by (simp add: push_bit_u64)
qed

lemma mod_add_inj: "x < d \<Longrightarrow> y < d \<Longrightarrow> (F + x) mod d = (F + y) mod d \<Longrightarrow> x = (y :: nat)"
proof (induction x y rule: linorder_wlog)
  case (le x y)
  then have "d dvd F + y - (F + x)" by (subst mod_eq_dvd_iff_nat [symmetric]) auto
  then show ?case using le by (auto dest: dvd_imp_le)
qed simp

text \<open>What the map of an I/O is good for.\<close>

lemma map_alloc_ok:
  fixes off :: u64
  assumes p: "0 < p" "p \<le> 3" "p < d" "d \<le> 255" and S: "0 < S" "(S + 1) * 2 ^ sh < 2 ^ 58" "3 \<le> sh" "sh < 32"
    and data: "length data = S * 2 ^ sh" "\<And>n. length (alloc n) = n"
  obtains rm where "vdev_raidz_map_alloc alloc off (of_nat (S * 2 ^ sh)) data sh (of_nat d) (of_nat p) = Some rm" "raidz_ok rm" "full rm (col_data rm)"
    "rm_firstdatacol rm = p" "concat (map (col_data rm) [p..<rm_cols rm]) = data" "rm_asize rm = vdev_raidz_asize sh (of_nat d) (of_nat p) (of_nat (S * 2 ^ sh))"
    "distinct (map rc_devidx (rm_col rm))" "\<forall>rc\<in>set (rm_col rm). rc_devidx rc < d \<and> rc_error rc = 0" "length (rm_col rm) = rm_scols rm" "rm_nskip rm \<le> p"
proof -
  have "S + 1 \<le> (S + 1) * 2 ^ sh" using mult_le_mono2 [of 1 "2 ^ sh" "S + 1"] by (simp only: mult_1_right one_le_power)
  from le_less_trans [OF this S(2)] have S58: "S + 1 < 2 ^ 58" .
  have "p * (S + 1) * 2 ^ sh \<le> 3 * ((S + 1) * 2 ^ sh)" using mult_le_mono1 [OF p(2), of "(S + 1) * 2 ^ sh"] by (simp only: mult.assoc)
  also have "3 * ((S + 1) * 2 ^ sh) < 2 ^ 60" using S(2) by simp
  finally have b1: "p * (S + 1) * 2 ^ sh < 2 ^ 60" .
  have "p * (S + 1) \<le> 3 * (S + 1)" using p(2) by (rule mult_le_mono1)
  also have "3 * (S + 1) < 2 ^ 60" using S58 by simp
  finally have b2: "p * (S + 1) < 2 ^ 60" .
  have b3: "d < 2 ^ 32" "S < 2 ^ 58" "(S + 1) * 2 ^ sh < 2 ^ 60" using p(4) S(2) S58 by simp_all
  note m = map_cols_simps [OF p(1,3) b3(1) S(1) b3(2,3) data, of off] and b = raidz_cols_bounds [OF p(1,3) S(1)]
  define swapped where "swapped \<longleftrightarrow> p = 1 \<and> off AND push_bit 20 1 \<noteq> 0"
  define cols where "cols = (if swapped then swap_first (map_cols alloc data S d p off sh) else map_cols alloc data S d p off sh)"
  define rm where "rm = \<lparr>rm_cols = raidz_acols S d p, rm_scols = raidz_scols S d p, rm_bigcols = raidz_bc S d p, rm_asize = of_nat (rup (raidz_tot S d p) (p + 1) * 2 ^ sh),
      rm_missingdata = 0, rm_missingparity = 0, rm_firstdatacol = p, rm_nskip = rup (raidz_tot S d p) (p + 1) - raidz_tot S d p,
      rm_skipstart = (if swapped \<and> raidz_bc S d p = 0 then 1 else raidz_bc S d p), rm_col = cols\<rparr>"
  have alloc: "vdev_raidz_map_alloc alloc off (of_nat (S * 2 ^ sh)) data sh (of_nat d) (of_nat p) = Some rm"
    using map_alloc_eq [OF p(1,3) b3(1) S(1) b3(2,3) b1 S(4) data, of off] by (simp add: rm_def cols_def swapped_def)
  have rm: "rm_cols rm = raidz_acols S d p" "rm_scols rm = raidz_scols S d p" "rm_firstdatacol rm = p" "rm_col rm = cols" by (simp_all add: rm_def)
  have "2 \<le> length (map_cols alloc data S d p off sh)" using b(1,2) p(1) m(1) by simp
  note sw = swap_first_simps [OF this]
  have len: "length cols = raidz_scols S d p" using sw m by (simp add: cols_def)
  have sizes: "map rc_size cols = map (\<lambda>c. raidz_units S d p c * 2 ^ sh) [0..<raidz_scols S d p]" using sw m by (simp add: cols_def)
  have sz: "col_size rm c = raidz_units S d p c * 2 ^ sh" if "c < raidz_scols S d p" for c
    using that sizes [THEN arg_cong, of "\<lambda>xs. xs ! c"] len by (simp add: rm)
  have datas: "map rc_data cols = map rc_data (map_cols alloc data S d p off sh)" using sw by (simp add: cols_def)
  have full: "length (col_data rm c) = col_size rm c" if "c < raidz_scols S d p" for c
  proof -
    have "rc_data (cols ! c) = rc_data (map_cols alloc data S d p off sh ! c)" "rc_size (cols ! c) = rc_size (map_cols alloc data S d p off sh ! c)"
      using that len m(1) datas [THEN arg_cong, of "\<lambda>xs. xs ! c"] sizes [THEN arg_cong, of "\<lambda>xs. xs ! c"] m(2) [THEN arg_cong, of "\<lambda>xs. xs ! c"] by simp_all
    moreover have "map_cols alloc data S d p off sh ! c \<in> set (map_cols alloc data S d p off sh)" using that m(1) by simp
    ultimately show ?thesis using m(5) by (simp add: rm)
  qed
  have conc: "concat (map (col_data rm) [p..<rm_cols rm]) = data"
  proof -
    have "map (col_data rm) [p..<raidz_scols S d p] = drop p (map rc_data cols)"
      by (intro nth_equalityI) (use len in \<open>auto simp: rm\<close>)
    then have "concat (map (col_data rm) [p..<raidz_scols S d p]) = data" using m(6) datas by (simp add: drop_map)
    moreover have "[p..<raidz_scols S d p] = [p..<raidz_acols S d p] @ [raidz_acols S d p..<raidz_scols S d p]"
      using b(1,2) upt_add_eq_append [of p "raidz_acols S d p" "raidz_scols S d p - raidz_acols S d p"] by simp
    moreover have "col_data rm c = []" if "raidz_acols S d p \<le> c" "c < raidz_scols S d p" for c
      using full [OF that(2)] sz [OF that(2)] that(1) by (simp add: raidz_units_def)
    ultimately show ?thesis unfolding rm(1) by (auto simp: concat_eq_Nil_conv)
  qed
  have units: "raidz_units S d p c \<le> raidz_units S d p 0" "c < raidz_acols S d p \<Longrightarrow> 0 < raidz_units S d p c" "c \<le> p \<Longrightarrow> raidz_units S d p c = raidz_units S d p 0"
    "c \<le> c' \<Longrightarrow> raidz_units S d p c' \<le> raidz_units S d p c" for c c'
    using b(1,4,6) p(1) by (auto simp: raidz_units_def raidz_acols_def split: if_splits)
  have ok: "raidz_ok rm"
  proof -
    have dv: "8 dvd raidz_units S d p c * 2 ^ sh" for c using le_imp_power_dvd [of 3 sh "2 :: nat"] S(3) by (simp add: dvd_mult)
    have col: "col_size rm c = raidz_units S d p c * 2 ^ sh" if "c < rm_cols rm" for c using sz that b(2) by (simp add: rm)
    have p': "p < rm_cols rm" "rm_cols rm \<le> length (rm_col rm)" "rm_cols rm \<le> 255" using b(1-3) p(4) len by (simp_all add: rm)
    then have 0: "0 < rm_cols rm" by simp
    have par: "col_size rm c = col_size rm 0" if "c \<le> p" for c using units(3) [OF that] col [of c] col [OF 0] that p'(1) by simp
    have le: "8 dvd col_size rm c \<and> col_size rm c \<le> col_size rm 0" if "c < rm_cols rm" for c
      unfolding col [OF that] col [OF 0] using dv units(1) [of c] by simp
    have "sizes_ok rm" unfolding sizes_ok_def rm(3) using p(1) p' le par [OF less_imp_le] par [OF le_refl] by blast
    moreover have "0 < col_size rm c" if "c < rm_cols rm" for c unfolding col [OF that] using units(2) that by (simp add: rm)
    moreover have "col_size rm c' \<le> col_size rm c" if "c \<le> c'" "c' < rm_cols rm" for c c'
      using col [of c] col [of c'] units(4) [OF that(1)] that by simp
    ultimately show ?thesis unfolding raidz_ok_def rm(3) using p(2) p'(3) by blast
  qed
  have dev: "distinct (map rc_devidx cols)" "set (map rc_devidx cols) \<subseteq> {..<d}"
  proof -
    have "mset (map rc_devidx cols) = mset (map rc_devidx (map_cols alloc data S d p off sh))" using sw by (simp add: cols_def)
    then have e: "distinct (map rc_devidx cols) \<longleftrightarrow> distinct (map rc_devidx (map_cols alloc data S d p off sh))"
      "set (map rc_devidx cols) = set (map rc_devidx (map_cols alloc data S d p off sh))" by (rule mset_eq_imp_distinct_iff, rule mset_eq_setD)
    have "inj_on (\<lambda>c. (F + c) mod d) {0..<raidz_scols S d p}" for F
    proof (rule inj_onI)
      show "x = y" if "x \<in> {0..<raidz_scols S d p}" "y \<in> {0..<raidz_scols S d p}" "(F + x) mod d = (F + y) mod d" for x y
        using that b(3) mod_add_inj [of x d y F] by simp
    qed
    then show "distinct (map rc_devidx cols)" unfolding e m(3) by (simp add: distinct_map)
    show "set (map rc_devidx cols) \<subseteq> {..<d}" unfolding e m(3) using p(1,3) by auto
  qed
  have "map rc_error cols = map (\<lambda>c. 0) [0..<raidz_scols S d p]" using sw m(4) by (simp add: cols_def)
  then have err: "set (map rc_error cols) \<subseteq> {0}" by (simp only:) auto
  have asize: "rm_asize rm = of_nat (rup (raidz_tot S d p) (p + 1) * 2 ^ sh)" by (simp add: rm_def)
  show ?thesis
  proof (rule that [OF alloc ok])
    show "rm_nskip rm \<le> p" using rup_bounds(2) [of "p + 1" "raidz_tot S d p"] by (simp add: rm_def)
  qed (use b(2) full conc dev err len asize_eq [OF p(1,3) b3(1) S(1) b3(2,3) b2 S(4)] in \<open>auto simp: rm full_def asize\<close>)
qed

end
