(* ===== verification/RaidzProps.thy ===== *)
theory RaidzProps
  imports RaidzReconstruct RaidzMap
begin

text \<open>
  The properties of RAID-Z: multiplication on words and by tables, the parity of a map, the map of an I/O, and the
  recovery of an I/O from any loss that the parity covers.
\<close>

lemma mul_pow_funpow: "mul_pow k b = (VDEV_RAIDZ_MUL_2 ^^ k) b"
  by (induction k) simp_all

text \<open>
  C27. The multiplications of RAID-Z agree: multiplying a 64-bit word by 2 or 4 with the masking trick multiplies each of its
  bytes, and the logarithm tables multiply a byte by a power of 2 as that many doublings do, without a failed assertion.
\<close>

theorem raidz_multiplication:
  assumes "k \<le> 255"
  shows "le64 (VDEV_RAIDZ_64MUL_2 w) = map VDEV_RAIDZ_MUL_2 (le64 w) \<and>
    le64 (VDEV_RAIDZ_64MUL_4 w) = map (\<lambda>b. VDEV_RAIDZ_MUL_2 (VDEV_RAIDZ_MUL_2 b)) (le64 w) \<and>
    vdev_raidz_exp2 a (int k) = Some ((VDEV_RAIDZ_MUL_2 ^^ k) a)"
  using assms exp2_mul_pow [of k a] by (simp add: le64_MUL_2 VDEV_RAIDZ_64MUL_4_def mul_pow_funpow o_def)

theorem raidz_multiplication_witness:
  "(8 :: nat) \<le> 255 \<and> vdev_raidz_exp2 1 8 = Some 0x1d \<and> le64 (VDEV_RAIDZ_64MUL_2 0x80) = 0x1d # replicate 7 0"
proof -
  have "(VDEV_RAIDZ_MUL_2 ^^ 8) 1 = 0x1d" "map VDEV_RAIDZ_MUL_2 (le64 0x80) = 0x1d # replicate 7 0" by code_simp+
  then show ?thesis using raidz_multiplication [of 8 "0x80" 1] by simp
qed

text \<open>
  C25. Parity is what RAID-Z says it is: for a map with one, two or three parity columns whose buffers are large enough,
  \<open>vdev_raidz_generate_parity\<close> fails no assertion, leaves the data columns alone and fills parity column \<open>j\<close> with the sum
  over the data columns of the field elements times the powers of \<open>2 ^ j\<close>, short columns counting as padded with zeros.
\<close>

theorem raidz_generate_parity:
  assumes "sizes_ok rm" "data_ok rm (col_data rm)" "rm_firstdatacol rm \<le> 3"
  shows "\<exists>D. vdev_raidz_generate_parity rm = Some (with_data D rm) \<and> (\<forall>c\<ge>rm_firstdatacol rm. D c = col_data rm c) \<and>
    (\<forall>j<rm_firstdatacol rm. \<forall>i<col_size rm 0. gf_of (D j ! i) =
      (\<Sum>c\<in>{rm_firstdatacol rm..<rm_cols rm}. (gf_of 2 ^ j) ^ (rm_cols rm - 1 - c) * (if i < col_size rm c then gf_of (col_data rm c ! i) else 0)))"
  using generate_parity_ok [OF assms] by (auto simp: with_data_self parities_def parity_upto_def cbyte_def)


definition example_col :: "byte list \<Rightarrow> raidz_col" where
  "example_col d = \<lparr>rc_devidx = 0, rc_offset = 0, rc_size = length d, rc_data = d, rc_error = 0, rc_tried = False, rc_skipped = False\<rparr>"

definition example_map :: raidz_map where
  "example_map = \<lparr>rm_cols = 4, rm_scols = 4, rm_bigcols = 0, rm_asize = 0, rm_missingdata = 0, rm_missingparity = 0, rm_firstdatacol = 2, rm_nskip = 0,
     rm_skipstart = 0, rm_col = [example_col (replicate 8 0), example_col (replicate 8 0), example_col [1, 2, 3, 4, 5, 6, 7, 8], example_col (replicate 8 0xff)]\<rparr>"

theorem raidz_generate_parity_witness:
  "sizes_ok example_map \<and> data_ok example_map (col_data example_map) \<and> rm_firstdatacol example_map \<le> 3 \<and>
   (\<exists>D. vdev_raidz_generate_parity example_map = Some (with_data D example_map) \<and>
     (\<forall>i<8. gf_of (D 1 ! i) = gf_of 2 * gf_of (col_data example_map 2 ! i) + gf_of (col_data example_map 3 ! i)))"
proof -
  have c: "rm_cols example_map = 4" "rm_firstdatacol example_map = 2" "length (rm_col example_map) = 4" "col_size example_map 0 = 8"
    "col_size example_map 2 = 8" "col_size example_map 3 = 8"
    by (simp_all add: example_map_def example_col_def)
  have "\<forall>c<4. col_size example_map c = 8 \<and> length (col_data example_map c) = 8" by (auto simp: example_map_def example_col_def nth_Cons' )
  then have "sizes_ok example_map" "data_ok example_map (col_data example_map)" unfolding sizes_ok_def data_ok_def c by auto
  moreover from raidz_generate_parity [OF this] obtain D where "vdev_raidz_generate_parity example_map = Some (with_data D example_map)"
    "\<forall>j<2. \<forall>i<8. gf_of (D j ! i) = (\<Sum>c\<in>{2..<4}. (gf_of 2 ^ j) ^ (4 - 1 - c) * (if i < col_size example_map c then gf_of (col_data example_map c ! i) else 0))"
    unfolding c by auto
  moreover have "{2..<4} = {2, 3 :: nat}" by auto
  ultimately show ?thesis unfolding c by (auto simp: c intro!: exI [of _ D])
qed

text \<open>Words with natural numbers behind them.\<close>

lemma io_units:
  assumes "2 ^ sh dvd unat (io_size :: u64)" "0 < io_size" "unat io_size < 2 ^ 57" "sh < 32"
  obtains S where "io_size = of_nat (S * 2 ^ sh)" "unat io_size = S * 2 ^ sh" "0 < S" "(S + 1) * 2 ^ sh < 2 ^ 58"
proof -
  obtain S where S: "unat io_size = S * 2 ^ sh" using assms(1) by (metis dvd_def mult.commute)
  have "0 < unat io_size" using assms(2) by (simp add: word_less_nat_alt)
  then have "0 < S" using S by simp
  moreover have "(2 :: nat) ^ sh < 2 ^ 32" using assms(4) by (intro power_strict_increasing) auto
  then have "(S + 1) * 2 ^ sh < 2 ^ 58" using S assms(3) by simp
  moreover have "of_nat (unat io_size) = io_size" by simp
  then have "io_size = of_nat (S * 2 ^ sh)" unfolding S by simp
  ultimately show ?thesis using that S by blast
qed

lemma map_alloc_words:
  fixes io_offset io_size dcols nparity :: u64
  assumes p: "0 < nparity" "nparity \<le> 3" "nparity < dcols" "dcols \<le> 255"
    and io: "2 ^ unit_shift dvd unat io_size" "0 < io_size" "unat io_size < 2 ^ 57" "3 \<le> unit_shift" "unit_shift < 32"
    and data: "length io_data = unat io_size" "\<And>n. length (alloc n) = n"
  obtains rm where "vdev_raidz_map_alloc alloc io_offset io_size io_data unit_shift dcols nparity = Some rm" "raidz_ok rm"
    "distinct (map rc_devidx (rm_col rm))" "\<forall>rc\<in>set (rm_col rm). rc_devidx rc < unat dcols \<and> rc_error rc = 0"
    "rm_firstdatacol rm = unat nparity" "full rm (col_data rm)" "concat (map (col_data rm) [rm_firstdatacol rm..<rm_cols rm]) = io_data" 
    "rm_nskip rm \<le> unat nparity" "rm_asize rm = vdev_raidz_asize unit_shift dcols nparity io_size"
proof -
  obtain S where S: "io_size = of_nat (S * 2 ^ unit_shift)" "unat io_size = S * 2 ^ unit_shift" "0 < S" "(S + 1) * 2 ^ unit_shift < 2 ^ 58"
    using io_units [OF io(1-3,5)] .
  have pn: "0 < unat nparity" "unat nparity \<le> 3" "unat nparity < unat dcols" "unat dcols \<le> 255"
    using p by (simp_all add: word_less_nat_alt word_le_nat_alt)
  have data': "length io_data = S * 2 ^ unit_shift" using data(1) S(2) by simp
  have u: "of_nat (unat dcols) = dcols" "of_nat (unat nparity) = nparity" by simp_all
  show ?thesis
    by (rule map_alloc_ok [OF pn S(3,4) io(4,5) data' data(2), of io_offset, unfolded u S(1) [symmetric]]) (rule that, simp_all)
qed

text \<open>
  C26. The map of an I/O is well-formed.  For one to three parity devices among at most 255, a positive I/O size below
  \<open>2 ^ 57\<close> in whole sectors of at least 8 bytes, \<open>vdev_raidz_map_alloc\<close> fails no assertion: the columns lie on different devices of
  the group, sizes are as parity generation and reconstruction expect them, every buffer has the size of its column, the
  data columns hold the data of the I/O in order, no more sectors are skipped than there are parity columns, and the
  space the map takes is what \<open>vdev_raidz_asize\<close> promises.
\<close>

theorem raidz_map_wellformed:
  fixes io_offset io_size dcols nparity :: u64
  assumes p: "0 < nparity" "nparity \<le> 3" "nparity < dcols" "dcols \<le> 255"
    and io: "2 ^ unit_shift dvd unat io_size" "0 < io_size" "unat io_size < 2 ^ 57" "3 \<le> unit_shift" "unit_shift < 32"
    and data: "length io_data = unat io_size" "\<And>n. length (alloc n) = n"
  shows "\<exists>rm. vdev_raidz_map_alloc alloc io_offset io_size io_data unit_shift dcols nparity = Some rm \<and> raidz_ok rm \<and>
    distinct (map rc_devidx (rm_col rm)) \<and> (\<forall>rc\<in>set (rm_col rm). rc_devidx rc < unat dcols \<and> rc_error rc = 0) \<and>
    rm_firstdatacol rm = unat nparity \<and> (\<forall>c<rm_cols rm. length (col_data rm c) = col_size rm c) \<and>
    concat (map (col_data rm) [rm_firstdatacol rm..<rm_cols rm]) = io_data \<and> rm_nskip rm \<le> unat nparity \<and>
    rm_asize rm = vdev_raidz_asize unit_shift dcols nparity io_size"
proof -
  obtain rm where "vdev_raidz_map_alloc alloc io_offset io_size io_data unit_shift dcols nparity = Some rm" "raidz_ok rm"
    "distinct (map rc_devidx (rm_col rm))" "\<forall>rc\<in>set (rm_col rm). rc_devidx rc < unat dcols \<and> rc_error rc = 0"
    "rm_firstdatacol rm = unat nparity" "full rm (col_data rm)" "concat (map (col_data rm) [rm_firstdatacol rm..<rm_cols rm]) = io_data" 
    "rm_nskip rm \<le> unat nparity" "rm_asize rm = vdev_raidz_asize unit_shift dcols nparity io_size"
    using map_alloc_words [OF p io data] .
  then show ?thesis by (auto simp: full_def)
qed

theorem raidz_map_wellformed_witness:
  "\<exists>rm. vdev_raidz_map_alloc (\<lambda>n. replicate n 0) 0x100000 2560 (replicate 2560 7) 9 5 2 = Some rm \<and> raidz_ok rm \<and> distinct (map rc_devidx (rm_col rm)) \<and>
     rm_firstdatacol rm = 2 \<and> concat (map (col_data rm) [2..<rm_cols rm]) = replicate 2560 7 \<and> rm_asize rm = 4608"
proof -
  have "vdev_raidz_asize 9 5 2 2560 = 4608" by code_simp
  moreover have "(2 :: nat) ^ 9 dvd 2560" by simp
  ultimately show ?thesis using raidz_map_wellformed [of 2 5 9 2560 "replicate 2560 7" "\<lambda>n. replicate n 0" "0x100000"] by auto
qed

text \<open>Parity and recovery for a map that is well-formed.\<close>

lemma generate_gives_parity:
  assumes "raidz_ok rm" "full rm D"
  obtains T where "vdev_raidz_generate_parity (with_data D rm) = Some (with_data T rm)" "full rm T" "has_parity rm T" "\<And>c. rm_firstdatacol rm \<le> c \<Longrightarrow> T c = D c"
proof -
  obtain T where T: "vdev_raidz_generate_parity (with_data D rm) = Some (with_data T rm)" "parities rm D (rm_firstdatacol rm) (rm_cols rm) T"
    using generate_parity_ok [OF raidz_okD(1) [OF assms(1)] full_data_ok [OF assms(2)] raidz_okD(2) [OF assms(1)]] by blast
  have eq: "T c = D c" if "rm_firstdatacol rm \<le> c" for c using T(2) that by (simp add: parities_def)
  have "parity rm T j i = parity rm D j i" for j i
    unfolding parity_upto_def using eq by (intro sum.cong refl arg_cong2 [of _ _ _ _ "(*)"] cbyte_cong) auto
  then have "has_parity rm T" using T(2) by (simp add: has_parity_def parities_def)
  moreover have "length (T c) = length (D c)" for c using T(2) by (cases "c < rm_firstdatacol rm") (simp_all add: parities_def)
  then have "full rm T" using assms(2) by (simp add: full_def)
  ultimately show ?thesis using that T(1) eq by blast
qed

lemma recover_losses:
  assumes ok: "raidz_ok rm" and err: "\<And>c. c < rm_cols rm \<Longrightarrow> rc_error (rm_col rm ! c) = 0" and T: "full rm T" "has_parity rm T"
    and lost: "sorted_wrt (<) lost" "set lost \<subseteq> {..<rm_cols rm}" "length lost \<le> rm_firstdatacol rm" "\<exists>c\<in>set lost. rm_firstdatacol rm \<le> c"
    and junk: "\<forall>c\<in>set lost. length (junk c) = col_size rm c" and alloc: "\<And>n. length (alloc n) = n"
  obtains code R where "vdev_raidz_reconstruct alloc dflt (with_data (\<lambda>c. if c \<in> set lost then junk c else T c) rm) lost = Some (code, with_data R rm)"
    "0 < code" "code < 8" "\<And>c. rm_firstdatacol rm \<le> c \<Longrightarrow> R c = T c"
proof -
  let ?D = "\<lambda>c. if c \<in> set lost then junk c else T c"
  have set: "set (bad_of rm lost) = set lost" using lost(2) err by (auto simp: bad_of_def)
  have sorted: "sorted_wrt (<) (bad_of rm lost)" by (simp add: bad_of_def sorted_filter_upt)
  have "length (bad_of rm lost) = length lost"
    using sorted lost(1) set distinct_card [of "bad_of rm lost"] distinct_card [of lost] by (simp add: strict_sorted_iff)
  then have bad: "bad_columns rm (bad_of rm lost)" using sorted lost set by (simp add: bad_columns_def)
  have full: "full rm ?D" using T(1) junk by (simp add: full_def)
  obtain code where "vdev_raidz_reconstruct alloc dflt (with_data ?D rm) lost = Some (code, with_data (restored rm (bad_of rm lost) T ?D) rm)" "0 < code" "code < 8"
    using vdev_raidz_reconstruct_ok [OF ok lost(1,2) bad full T, of alloc dflt] alloc set by auto
  moreover have "restored rm (bad_of rm lost) T ?D c = T c" if "rm_firstdatacol rm \<le> c" for c using that set by (simp add: restored_def)
  ultimately show ?thesis using that by blast
qed

lemma with_data_cong: "(\<And>c. c < length (rm_col rm) \<Longrightarrow> X c = Y c) \<Longrightarrow> with_data X rm = with_data Y rm"
  by (simp add: with_data_def)

lemma with_data_with_data: "with_data X (with_data Y rm) = with_data X rm"
  by (simp add: with_data_def cong: map_cong)

text \<open>
  C24. RAID-Z survives the losses its parity covers.  After the map of an I/O is made and its parity generated, let the
  buffers of any set of columns, at least one of them a data column and no more than there are parity columns, be
  overwritten by other bytes.  Reconstruction with these columns as targets returns a parity code, fails no assertion and
  gives the data of the I/O back, whether or not the routines for special cases are used.
\<close>

theorem raidz_survives_losses:
  fixes io_offset io_size dcols nparity :: u64
  assumes p: "0 < nparity" "nparity \<le> 3" "nparity < dcols" "dcols \<le> 255"
    and io: "2 ^ unit_shift dvd unat io_size" "0 < io_size" "unat io_size < 2 ^ 57" "3 \<le> unit_shift" "unit_shift < 32"
    and data: "length io_data = unat io_size" "\<And>n. length (alloc n) = n"
  shows "\<exists>rm rm'. vdev_raidz_map_alloc alloc io_offset io_size io_data unit_shift dcols nparity = Some rm \<and> vdev_raidz_generate_parity rm = Some rm' \<and>
    (\<forall>lost junk default_to_general. sorted_wrt (<) lost \<and> set lost \<subseteq> {..<rm_cols rm} \<and> length lost \<le> unat nparity \<and> (\<exists>c\<in>set lost. unat nparity \<le> c) \<and>
        (\<forall>c\<in>set lost. length (junk c) = col_size rm c) \<longrightarrow>
      (\<exists>code rm''. vdev_raidz_reconstruct alloc default_to_general (with_data (\<lambda>c. if c \<in> set lost then junk c else col_data rm' c) rm') lost = Some (code, rm'') \<and>
        0 < code \<and> code < 8 \<and> concat (map (col_data rm'') [unat nparity..<rm_cols rm]) = io_data))"
proof -
  obtain rm where rm: "vdev_raidz_map_alloc alloc io_offset io_size io_data unit_shift dcols nparity = Some rm" "raidz_ok rm"
    "distinct (map rc_devidx (rm_col rm))" "\<forall>rc\<in>set (rm_col rm). rc_devidx rc < unat dcols \<and> rc_error rc = 0"
    "rm_firstdatacol rm = unat nparity" "full rm (col_data rm)" "concat (map (col_data rm) [rm_firstdatacol rm..<rm_cols rm]) = io_data" 
    "rm_nskip rm \<le> unat nparity" "rm_asize rm = vdev_raidz_asize unit_shift dcols nparity io_size"
    using map_alloc_words [OF p io data] .
  obtain T where T: "vdev_raidz_generate_parity rm = Some (with_data T rm)" "full rm T" "has_parity rm T" "\<And>c. unat nparity \<le> c \<Longrightarrow> T c = col_data rm c"
    using generate_gives_parity [OF rm(2,6), unfolded with_data_self] rm(5) by auto
  have len: "rm_cols rm \<le> length (rm_col rm)" using raidz_okD(1) [OF rm(2)] by (simp add: sizes_ok_def)
  have err: "rc_error (rm_col rm ! c) = 0" if "c < rm_cols rm" for c using rm(4) that len by simp
  have "\<exists>code rm''. vdev_raidz_reconstruct alloc dflt (with_data (\<lambda>c. if c \<in> set lost then junk c else col_data (with_data T rm) c) (with_data T rm)) lost = Some (code, rm'') \<and>
      0 < code \<and> code < 8 \<and> concat (map (col_data rm'') [unat nparity..<rm_cols rm]) = io_data"
    if l: "sorted_wrt (<) lost" "set lost \<subseteq> {..<rm_cols rm}" "length lost \<le> unat nparity" "\<exists>c\<in>set lost. unat nparity \<le> c"
      "\<forall>c\<in>set lost. length (junk c) = col_size rm c" for lost junk dflt
  proof -
    have D: "with_data (\<lambda>c. if c \<in> set lost then junk c else col_data (with_data T rm) c) (with_data T rm) = with_data (\<lambda>c. if c \<in> set lost then junk c else T c) rm"
      unfolding with_data_with_data by (rule with_data_cong) simp
    obtain code R where R: "vdev_raidz_reconstruct alloc dflt (with_data (\<lambda>c. if c \<in> set lost then junk c else T c) rm) lost = Some (code, with_data R rm)"
      "0 < code" "code < 8" "\<And>c. unat nparity \<le> c \<Longrightarrow> R c = T c"
      using recover_losses [OF rm(2) err T(2,3) l(1,2), unfolded rm(5), OF _ l(3-5) data(2)] by blast
    have "map (col_data (with_data R rm)) [unat nparity..<rm_cols rm] = map (col_data rm) [unat nparity..<rm_cols rm]"
      using R(4) T(4) len by (intro map_cong) auto
    then have "concat (map (col_data (with_data R rm)) [unat nparity..<rm_cols rm]) = io_data" using rm(5,7) by (simp only:)
    then show ?thesis unfolding D using R(1-3) by blast
  qed
  then show ?thesis using rm(1) T(1) by blast
qed


theorem raidz_survives_losses_witness:
  "\<exists>rm rm' code rm''. vdev_raidz_map_alloc (\<lambda>n. replicate n 0) 0 1024 (replicate 512 1 @ replicate 512 2) 9 5 2 = Some rm \<and> vdev_raidz_generate_parity rm = Some rm' \<and>
     vdev_raidz_reconstruct (\<lambda>n. replicate n 0) True (with_data (\<lambda>c. if c \<in> set [2, 3] then replicate (col_size rm c) 0 else col_data rm' c) rm') [2, 3] = Some (code, rm'') \<and>
     concat (map (col_data rm'') [2..<rm_cols rm]) = replicate 512 1 @ replicate 512 2"
proof -
  have d: "(2 :: nat) ^ 9 dvd unat (1024 :: u64)" by simp
  have n: "unat (2 :: u64) = 2" by simp
  have c: "rm_cols rm = 4" if "vdev_raidz_map_alloc (\<lambda>n. replicate n 0) 0 1024 (replicate 512 1 @ replicate 512 2) 9 5 2 = Some rm" for rm
  proof -
    have "vdev_raidz_map_alloc (\<lambda>n. replicate n 0) 0 (of_nat (2 * 2 ^ 9)) (replicate 512 1 @ replicate 512 2) 9 (of_nat 5) (of_nat 2) = Some rm" using that by simp
    then have "rm_cols rm = raidz_acols 2 5 2" by (subst (asm) map_alloc_eq) auto
    then show ?thesis by (simp add: raidz_acols_def raidz_bc_def)
  qed
  note inst = raidz_survives_losses [where alloc = "\<lambda>n. replicate n 0" and io_offset = 0 and io_data = "replicate 512 1 @ replicate 512 2" and nparity = 2 and dcols = 5 and unit_shift = 9 and io_size = 1024, unfolded n, OF _ _ _ _ d]
  obtain rm rm' where 1: "vdev_raidz_map_alloc (\<lambda>n. replicate n 0) 0 1024 (replicate 512 1 @ replicate 512 2) 9 5 2 = Some rm" "vdev_raidz_generate_parity rm = Some rm'"
    "\<forall>lost junk dflt. sorted_wrt (<) lost \<and> set lost \<subseteq> {..<rm_cols rm} \<and> length lost \<le> 2 \<and> (\<exists>c\<in>set lost. 2 \<le> c) \<and>
        (\<forall>c\<in>set lost. length (junk c) = col_size rm c) \<longrightarrow>
      (\<exists>code rm''. vdev_raidz_reconstruct (\<lambda>n. replicate n 0) dflt (with_data (\<lambda>c. if c \<in> set lost then junk c else col_data rm' c) rm') lost = Some (code, rm'') \<and>
        0 < code \<and> code < 8 \<and> concat (map (col_data rm'') [2..<rm_cols rm]) = replicate 512 1 @ replicate 512 2)"
  proof -
    have "\<exists>rm rm'. vdev_raidz_map_alloc (\<lambda>n. replicate n 0) 0 1024 (replicate 512 1 @ replicate 512 2) 9 5 2 = Some rm \<and> vdev_raidz_generate_parity rm = Some rm' \<and>
      (\<forall>lost junk dflt. sorted_wrt (<) lost \<and> set lost \<subseteq> {..<rm_cols rm} \<and> length lost \<le> 2 \<and> (\<exists>c\<in>set lost. 2 \<le> c) \<and>
          (\<forall>c\<in>set lost. length (junk c) = col_size rm c) \<longrightarrow>
        (\<exists>code rm''. vdev_raidz_reconstruct (\<lambda>n. replicate n 0) dflt (with_data (\<lambda>c. if c \<in> set lost then junk c else col_data rm' c) rm') lost = Some (code, rm'') \<and>
          0 < code \<and> code < 8 \<and> concat (map (col_data rm'') [2..<rm_cols rm]) = replicate 512 1 @ replicate 512 2))"
      by (rule inst) simp_all
    then show ?thesis using that by (elim exE conjE)
  qed
  have "sorted_wrt (<) [2, 3 :: nat] \<and> set [2, 3] \<subseteq> {..<rm_cols rm} \<and> length [2, 3 :: nat] \<le> 2 \<and> (\<exists>c\<in>set [2, 3 :: nat]. 2 \<le> c) \<and>
     (\<forall>c\<in>set [2, 3 :: nat]. length (replicate (col_size rm c) (0 :: byte)) = col_size rm c)" using c [OF 1(1)] by simp
  from 1(3) [rule_format, of "[2, 3]" "\<lambda>c. replicate (col_size rm c) 0" True, OF this] 1(1,2) show ?thesis by blast
qed

end
