(* ===== verification/Spec2Isabelle.thy ===== *)
theory Spec2Isabelle
  imports XdrProps HarnessMain CStringProps SbufProps SpaceMapDisk VdevProps MetaslabClients LzjbAddress ZioCompressProps RrwlockProps RaidzProps
begin

text \<open>
  A verification library for the TPC-H benchmark on unikernels: the benchmark program in its three
  deployments, and parts of the OSv unikernel (\<^verbatim>\<open>osv/unikernel\<close>) that it runs on.  All paths
  below are relative to \<^verbatim>\<open>src/\<close>.

  \<^bold>\<open>The program.\<close>  \<^verbatim>\<open>baremetal/main.c\<close>, \<^verbatim>\<open>docker/main.c\<close> and
  \<^verbatim>\<open>nanos/main.c\<close> load tables into SQLite, run 22 query files and time them.  Under OSv the same
  work rests on a C library (\<^verbatim>\<open>musl_1.1.24\<close>) and on kernel code taken over from FreeBSD and
  Solaris: string buffers and formatted output, XDR encoding, and the ZFS file system with its AVL trees,
  space maps, block allocators, device logs, compression, locks and RAID-Z.

  \<^bold>\<open>Layers.\<close>  Each component is modelled in one theory and proved in others; a locale states the contract
  between two of them and is interpreted on the model.

  \<^item> \<open>Prelude\<close>: machine integers, memory layout, list facts, buffers, \<open>require\<close> for assertions; the
    collections \<open>bytes_simps\<close>, \<open>buf_simps\<close> and \<open>cstr_simps\<close>.  \<open>Sysmacros\<close>: the rounding macros and
    \<^verbatim>\<open>highbit\<close> of \<^verbatim>\<open>sysmacros.h\<close> on 64-bit words, which the ZFS components share.

  \<^item> Benchmark program.  \<open>CLib\<close> (\<^verbatim>\<open>fgets\<close>, \<^verbatim>\<open>snprintf\<close>, \<^verbatim>\<open>strtok\<close> on strings),
    \<open>Harness\<close> (every function of the three programs; a \<open>world\<close> holds files, open streams and
    connections and the trace of calls, a \<open>platform\<close> answers for SQLite and the clock, a \<open>target\<close> for
    the constants in which the programs differ; \<^verbatim>\<open>main\<close> is translated from each of the three files on its
    own and shown to be an instance of a common form).  \<open>HarnessSpec\<close> has the statements a call has to run and the
    locale \<open>transactional\<close>, interpreted for the loading and refresh functions.  \<open>HarnessProps\<close>:
    memory safety and totality of \<^verbatim>\<open>loadTables\<close>, the transactions of loading and refreshing, their
    statements, their failures.  \<open>HarnessMain\<close>: creation of the tables, the repeated load, the query
    loop, error exits, agreement of the three programs, \<^verbatim>\<open>atoi\<close>.

  \<^item> C library.  \<open>CString\<close> (\<^verbatim>\<open>musl_1.1.24/src/string\<close>, over a memory of characters, with the
    word-at-a-time loops and the bit tables), \<open>CStringLemmas\<close> and \<open>CStringProps\<close>: each routine computes
    the list function, and the \<^verbatim>\<open>strtok\<close> loop yields the tokens on which \<open>CLib\<close> and so the
    benchmark program rest.

  \<^item> XDR.  \<open>Xdr\<close> (\<^verbatim>\<open>bsd/sys/xdr/xdr.c\<close>, \<^verbatim>\<open>xdr_array.c\<close>; streams are a record of operations),
    \<open>XdrMem\<close> (\<^verbatim>\<open>xdr_mem.c\<close>), \<open>XdrCodec\<close> (the locale \<open>xdr_stream\<close> of a stream that keeps its
    contract and, in it, what every filter writes and reads; interpreted for aligned and unaligned memory
    streams), \<open>XdrProps\<close>: round trips, confinement of the writes and the reads of every operation to its window, size
    checks, the count at which a string is lost.  Pointers are integer offsets from the buffer, and \<^verbatim>\<open>RNDUP\<close> works on signed
    32-bit words that wrap around.

  \<^item> String buffers.  \<open>Kvprintf\<close> and \<open>Sbuf\<close> (\<^verbatim>\<open>bsd/sys/kern/subr_sbuf.c\<close>), \<open>SbufProps\<close>: the
    invariant, appending in the three modes, the finished string, numbers in every base.

  \<^item> AVL trees.  \<open>Avl\<close> (\<^verbatim>\<open>common/avl/avl.c\<close> below
    \<^verbatim>\<open>bsd/sys/cddl/contrib/opensolaris\<close>; a pointer is the object of a node, and climbing parent
    pointers is a recursion over the path to it).  \<open>AvlProps\<close>: rotation, insertion and removal keep the
    balance factors exact; the locale \<open>avl_order\<close> of a comparison function carries search, insertion and removal
    by key; walking and destroying visit every object once.

  \<^item> Space maps.  \<open>SpaceMap\<close> (\<^verbatim>\<open>uts/common/fs/zfs/space_map.c\<close>), \<open>SpaceMapLemmas\<close> (the
    invariant \<open>sm_wf\<close>; \<open>avl_order\<close> is interpreted for segments and for references),
    \<open>SpaceMapProps\<close> (a map is a set of offsets; misuse; vacating and walking), \<open>SpaceMapDisk\<close> (what
    \<^verbatim>\<open>space_map_sync\<close> appends to the log is what \<^verbatim>\<open>space_map_load\<close> reads back),
    \<open>SpaceMapRef\<close> (a reference tree is a function from offsets to counts, and the sweep over it collects
    the offsets whose count reaches the limit).

  \<^item> Block allocators.  \<open>Metaslab\<close> (\<^verbatim>\<open>uts/common/fs/zfs/metaslab.c\<close>, the four allocators that fill the
    operations vector of a space map), \<open>MetaslabProps\<close> (the block picker; the locales
    \<open>block_allocator\<close> and \<open>total_allocator\<close>, interpreted for the allocators), \<open>MetaslabClients\<close> (a
    state machine of requests and frees: no block is handed out twice, requests are refused only when
    they have to be, what is given back can be had again).

  \<^item> Dirty time logs.  \<open>Vdev\<close> (\<^verbatim>\<open>uts/common/fs/zfs/vdev.c\<close>, the part that keeps the logs) and
    \<open>VdevProps\<close>: recomputing the logs of a tree of devices refines a function on sets of transaction
    groups; a device is required exactly when losing it causes an outage; the range of a resilver is tight.

  \<^item> Compression.  \<open>Zle\<close> and \<open>Lzjb\<close> (\<^verbatim>\<open>uts/common/fs/zfs/zle.c\<close>, \<^verbatim>\<open>lzjb.c\<close>: the loops over bytes,
    with their bounds and with pointers that may fall before a buffer; each coder ends, stays in its buffers and is undone by its
    decoder, and the decoder of LZJB reads a bounded piece of memory), \<open>LzjbAddress\<close> (the output depends on the address of the
    source modulo 1024 and on nothing else of it), \<open>ZioCompress\<close> (\<^verbatim>\<open>zio_compress.c\<close>, the table of coders and
    the calls of the I/O layer), \<open>ZioCompressProps\<close> (the locale \<open>zio_codec\<close> of a coder with its decoder, interpreted
    for both; a block that is stored compressed is read back).

  \<^item> Re-entrant locks.  \<open>Rrwlock\<close> (\<^verbatim>\<open>uts/common/fs/zfs/rrwlock.c\<close>, every function; entering is a sequence of
    attempts between waits) and \<open>RrwlockProps\<close> (the step relation of any number of threads that enter, wait, wake and
    leave; its invariant: exact counts, no lost wakeup; mutual exclusion, progress, re-entry, and the failure
    of re-entry with the \<^verbatim>\<open>tsd_set\<close> of this port).

  \<^item> RAID-Z.  \<open>RaidzField\<close> and \<open>Raidz\<close> (\<^verbatim>\<open>uts/common/fs/zfs/vdev_raidz.c\<close>: the tables and the multiplication of
    words; the map of an I/O, parity, and reconstruction by special routines and by matrix inversion).  \<open>RaidzField\<close> shows
    that the bytes with these operations are a field, as an instance of the class \<open>field\<close>, so that the algebra of the library
    carries the proofs; \<open>RaidzParity\<close> that the parity columns are polynomials over it; \<open>RaidzRecover\<close> the routines for one and
    two columns; \<open>RaidzElim\<close> Gauss-Jordan elimination for up to three missing columns, where no pivot and no coefficient
    is zero; \<open>RaidzMatrix\<close> and \<open>RaidzReconstruct\<close> the matrix routines and the choice between all of them; \<open>RaidzMap\<close> the map of an
    I/O, free of wrap-around; \<open>RaidzProps\<close> that an I/O is recovered from any loss its parity covers.

  \<^bold>\<open>Parameters and their hypotheses.\<close>  SQLite, the clock and the files are arguments of the benchmark
  program, and the theorems hold for every answer they give, unless a hypothesis says that a call succeeds.
  Allocators are functions that may fail; \<open>alloc_sized\<close> says that a buffer has the size asked for and
  \<open>fresh_alloc\<close> that a new object is at no address in use.  A drain of a string buffer takes at least
  one character.  The object store of the space maps is a pair of functions that read and append
  (\<open>dmu_reads\<close>, \<open>dmu_appends\<close>).  The gzip and LZ4 entries of the compression table are arguments, of which the
  theorems use nothing.  The contents of a fresh RAID-Z buffer are a function of its size.  Every such hypothesis is met by a concrete function in a witness.

  \<^bold>\<open>Errors and loops.\<close>  A failed assertion, a panic and an access through a null pointer are \<open>None\<close>;
  error codes are values.  Loops whose end is not obvious (\<open>avl_drain\<close>, \<open>avl_iterate\<close>,
  \<open>load_loop\<close>, \<open>picker_loop\<close>, \<open>strtok_loop\<close>, the scans of \<open>CString\<close> and the loops of the coders) are partial functions in the option type:
  no fuel is chosen anywhere, and the theorems prove that they return.  Integers keep their width where
  sums can wrap: offsets, transaction groups and reference counts are 64-bit words, and
  \<open>generate_loop\<close> is proved free of overflow from a bound on the number of maps.

  \<^bold>\<open>Not modelled.\<close>  Locks and condition variables other than those of the re-entrant locks (the
  callers hold the locks; \<^verbatim>\<open>space_map_load_wait\<close>), the tracking of reference holders, gzip and LZ4, the kernel caches of \<^verbatim>\<open>space_map_init\<close>, the log of a
  device on disk (\<^verbatim>\<open>vdev_dtl_load\<close>, \<^verbatim>\<open>vdev_dtl_sync\<close>), the opening and labelling of devices,
  \<^verbatim>\<open>sbuf_uionew\<close>, XDR over mbufs, the remaining routines of the C library, the rest of ZFS, the
  network stack, ACPICA, the C++ and assembly of the OSv core, SQLite itself and the shell scripts.  Of
  the metaslabs the groups, weights and the synchronisation with the pool are left out; of RAID-Z the start and
  completion of I/Os, the search by checksum for the columns to reconstruct, and the reports of checksum errors with their
  fields (\<^verbatim>\<open>rc_gdata\<close>, \<^verbatim>\<open>rm_datacopy\<close>, \<^verbatim>\<open>rm_reports\<close>, \<^verbatim>\<open>rm_freed\<close>, \<^verbatim>\<open>rm_ecksuminjected\<close>).
\<close>

end
